(* ===== verification/Prelude.thy ===== *)
theory Prelude
  imports Main "HOL-Library.Word" "HOL-Library.Multiset"
begin

text \<open>
  Shared vocabulary of the development: the machine types of \<open>types.h\<close>, the result type
  of code that may panic, C's signed wrap-around, singly linked lists threaded through a
  "next" field (the run queues, the free page list, the disk queue and the waiters of a
  priority lock are all such lists), and the loops \<open>for(p = a; p < &a[N]; p++)\<close> over the
  static tables of the kernel.
\<close>

section \<open>Machine types and results\<close>

type_synonym u8 = "8 word"
type_synonym u16 = "16 word"
type_synonym u32 = "32 word"

unbundle bit_operations_syntax

text \<open>A word is put together from its bytes, the lowest first.\<close>

lemma word_of_bytes:
  "ucast (ucast v :: u8) OR push_bit 8 (ucast (ucast (drop_bit 8 v) :: u8)) OR
   push_bit 16 (ucast (ucast (drop_bit 16 v) :: u8)) OR push_bit 24 (ucast (ucast (drop_bit 24 v) :: u8)) = (v :: u32)"
proof (rule bit_word_eqI)
  fix n assume "n < LENGTH(32)"
  then consider "n < 8" | "8 \<le> n" "n < 16" | "16 \<le> n" "n < 24" | "24 \<le> n" "n < 32" by force
  then show "bit (ucast (ucast v :: u8) OR push_bit 8 (ucast (ucast (drop_bit 8 v) :: u8)) OR
    push_bit 16 (ucast (ucast (drop_bit 16 v) :: u8)) OR push_bit 24 (ucast (ucast (drop_bit 24 v) :: u8)) :: u32) n = bit v n"
    by cases (auto simp: bit_simps)
qed

text \<open>
  What stops the kernel: a call of \<open>panic\<close> (with its message), a read through a null
  pointer, a loop that never ends, a call that would put the caller to sleep in code
  that is modelled as one uninterrupted run, and an access outside of an array.
\<close>

datatype kerror = Panic string | NullDeref | Diverges | Blocks | OutOfBounds

type_synonym 'a res = "kerror + 'a"

definition bindR :: "'a res \<Rightarrow> ('a \<Rightarrow> 'b res) \<Rightarrow> 'b res" where
  "bindR m f = (case m of Inl e \<Rightarrow> Inl e | Inr x \<Rightarrow> f x)"

named_theorems unfold_ops "definitions of straight-line operations"

lemma bindR_simps [simp]: "bindR (Inl e) f = Inl e" "bindR (Inr x) f = f x"
  by (simp_all add: bindR_def)

lemma bindR_cong [fundef_cong]:
  assumes "m = m'" and "\<And>x. m' = Inr x \<Longrightarrow> f x = f' x"
  shows "bindR m f = bindR m' f'"
  using assms by (cases m') auto

lemma bindR_eq_Inr: "bindR m f = Inr y \<longleftrightarrow> (\<exists>x. m = Inr x \<and> f x = Inr y)"
  by (cases m) auto

lemma bindR_eq_Inl: "bindR m f = Inl e \<longleftrightarrow> m = Inl e \<or> (\<exists>x. m = Inr x \<and> f x = Inl e)"
  by (cases m) auto

lemma bindR_assoc: "bindR (bindR m f) g = bindR m (\<lambda>x. bindR (f x) g)"
  by (cases m) auto

definition of_opt :: "kerror \<Rightarrow> 'a option \<Rightarrow> 'a res" where
  "of_opt e m = (case m of None \<Rightarrow> Inl e | Some x \<Rightarrow> Inr x)"

lemma of_opt_simps [simp]: "of_opt e None = Inl e" "of_opt e (Some x) = Inr x"
  by (simp_all add: of_opt_def)

lemma of_opt_eq_Inr: "of_opt e m = Inr x \<longleftrightarrow> m = Some x"
  by (cases m) auto

text \<open>A loop that does not return is an error of its own.\<close>

definition loop_res :: "'a res option \<Rightarrow> 'a res" where
  "loop_res r = (case r of None \<Rightarrow> Inl Diverges | Some x \<Rightarrow> x)"

text \<open>Running a fallible operation for each element of a list, stopping at the first error.\<close>

fun foldR :: "('a \<Rightarrow> 's \<Rightarrow> 's res) \<Rightarrow> 'a list \<Rightarrow> 's \<Rightarrow> 's res" where
  "foldR f [] s = Inr s"
| "foldR f (x # xs) s = bindR (f x s) (foldR f xs)"

lemma foldR_append [simp]: "foldR f (xs @ ys) s = bindR (foldR f xs s) (foldR f ys)"
  by (induction xs arbitrary: s) (auto simp: bindR_def split: sum.splits)

lemma foldR_invariant:
  assumes "\<And>x s. x \<in> set xs \<Longrightarrow> P s \<Longrightarrow> \<exists>s'. f x s = Inr s' \<and> P s'" and "P s"
  shows "\<exists>s'. foldR f xs s = Inr s' \<and> P s'"
  using assms
proof (induction xs arbitrary: s)
  case (Cons x xs)
  from Cons.prems obtain s1 where "f x s = Inr s1" "P s1" by auto
  with Cons.IH [of s1] Cons.prems(1) show ?case by auto
qed auto

text \<open>A C \<open>int\<close> is kept as an \<^typ>\<open>int\<close>; \<open>wrap32\<close> is two's complement wrap-around.\<close>

definition wrap32 :: "int \<Rightarrow> int" where
  "wrap32 x = (x + 2 ^ 31) mod 2 ^ 32 - 2 ^ 31"

lemma wrap32_id: "- (2 ^ 31) \<le> x \<Longrightarrow> x < 2 ^ 31 \<Longrightarrow> wrap32 x = x"
  by (simp add: wrap32_def)

lemma wrap32_bounds: "- (2 ^ 31) \<le> wrap32 x \<and> wrap32 x < 2 ^ 31"
  by (simp add: wrap32_def)

section \<open>Linked lists threaded through a next field\<close>

fun seg :: "('a \<Rightarrow> 'a option) \<Rightarrow> 'a option \<Rightarrow> 'a list \<Rightarrow> 'a option \<Rightarrow> bool" where
  "seg nx p [] q \<longleftrightarrow> p = q"
| "seg nx p (a # as) q \<longleftrightarrow> p = Some a \<and> seg nx (nx a) as q"

definition chain :: "('a \<Rightarrow> 'a option) \<Rightarrow> 'a option \<Rightarrow> 'a list \<Rightarrow> bool" where
  "chain nx p as = seg nx p as None"

lemma chain_Nil [simp]: "chain nx p [] \<longleftrightarrow> p = None"
  by (simp add: chain_def)

lemma chain_Cons [simp]: "chain nx p (a # as) \<longleftrightarrow> p = Some a \<and> chain nx (nx a) as"
  by (simp add: chain_def)

lemma chain_None [simp]: "chain nx None as \<longleftrightarrow> as = []"
  by (cases as) auto

lemma chain_Some: "chain nx (Some a) as \<longleftrightarrow> (\<exists>bs. as = a # bs \<and> chain nx (nx a) bs)"
  by (cases as) auto

lemma seg_append [simp]: "seg nx p (as @ bs) r \<longleftrightarrow> (\<exists>q. seg nx p as q \<and> seg nx q bs r)"
  by (induction as arbitrary: p) auto

lemma chain_append: "chain nx p (as @ bs) \<longleftrightarrow> (\<exists>q. seg nx p as q \<and> chain nx q bs)"
  by (simp add: chain_def)

lemma seg_frame: "a \<notin> set as \<Longrightarrow> seg (nx(a := v)) p as q = seg nx p as q"
  by (induction as arbitrary: p) auto

lemma chain_frame: "a \<notin> set as \<Longrightarrow> chain (nx(a := v)) p as = chain nx p as"
  by (simp add: chain_def seg_frame)

lemma seg_cong: "(\<And>a. a \<in> set as \<Longrightarrow> nx a = nx' a) \<Longrightarrow> seg nx p as q = seg nx' p as q"
  by (induction as arbitrary: p) auto

lemma chain_cong: "(\<And>a. a \<in> set as \<Longrightarrow> nx a = nx' a) \<Longrightarrow> chain nx p as = chain nx' p as"
  unfolding chain_def by (rule seg_cong)

lemma chain_unique: "chain nx p as \<Longrightarrow> chain nx p bs \<Longrightarrow> as = bs"
proof (induction as arbitrary: p bs)
  case (Cons a as)
  then show ?case by (cases bs) auto
qed auto

text \<open>A chain that ends does not repeat an element: from a repeated element it would go on.\<close>

lemma chain_distinct: "chain nx p as \<Longrightarrow> distinct as"
proof (induction as arbitrary: p)
  case (Cons a as)
  have tl: "chain nx (nx a) as" using Cons.prems by simp
  have "a \<notin> set as"
  proof
    assume "a \<in> set as"
    then obtain us vs where as: "as = us @ a # vs" by (auto simp: in_set_conv_decomp)
    with tl have "chain nx (nx a) vs" by (auto simp: chain_append)
    with tl have "as = vs" by (rule chain_unique)
    with as show False by simp
  qed
  with Cons.IH [OF tl] show ?case by simp
qed auto

text \<open>Walking to the last node, as \<open>while(curr->next != 0) curr = curr->next\<close> does.\<close>

partial_function (option) chain_last :: "('a \<Rightarrow> 'a option) \<Rightarrow> 'a \<Rightarrow> 'a option" where
  "chain_last nx a = (case nx a of None \<Rightarrow> Some a | Some b \<Rightarrow> chain_last nx b)"

lemma chain_last_eq: "chain nx (Some a) (a # as) \<Longrightarrow> chain_last nx a = Some (last (a # as))"
proof (induction as arbitrary: a)
  case (Cons b bs)
  then show ?case by (subst chain_last.simps) simp
qed (subst chain_last.simps, simp)

lemma chain_snoc:
  assumes "chain nx (Some a) (a # as)" and "b \<notin> set (a # as)"
  shows "chain (nx(last (a # as) := Some b, b := None)) (Some a) (a # as @ [b])"
  using assms
proof (induction as arbitrary: a)
  case (Cons c cs)
  have "a \<noteq> last (c # cs)"
    using chain_distinct [OF Cons.prems(1)] by (metis distinct.simps(2) last_in_set list.discI)
  with Cons show ?case by auto
qed auto

text \<open>Unlinking the node after \<open>b\<close>.\<close>

lemma chain_unlink:
  assumes "chain nx p (as @ b # a # bs)"
  shows "chain (nx(b := nx a, a := None)) p (as @ b # bs)"
proof -
  have d: "distinct (as @ b # a # bs)" using assms by (rule chain_distinct)
  obtain q where q: "seg nx p as q" "q = Some b" "nx b = Some a" "chain nx (nx a) bs"
    using assms by (auto simp: chain_append)
  have "seg (nx(b := nx a, a := None)) p as q" using q(1) d by (simp add: seg_frame)
  moreover have "chain (nx(b := nx a, a := None)) (nx a) bs" using q(4) d by (simp add: chain_frame)
  ultimately show ?thesis using q(2) d by (auto simp: chain_append)
qed

section \<open>Loops over a static table\<close>

text \<open>
  \<open>first_index P n\<close> is the first index below \<open>n\<close> that satisfies \<open>P\<close>: the loop
  \<open>for(i = 0; i < n; i++) if(P(i)) break;\<close>.
\<close>

definition first_index :: "(nat \<Rightarrow> bool) \<Rightarrow> nat \<Rightarrow> nat option" where
  "first_index P n = find P [0..<n]"

lemma first_index_Some:
  "first_index P n = Some i \<longleftrightarrow> i < n \<and> P i \<and> (\<forall>j<i. \<not> P j)"
proof -
  have "first_index P n = Some i \<longleftrightarrow> (\<exists>k<length [0..<n]. P ([0..<n] ! k) \<and> i = [0..<n] ! k \<and>
      (\<forall>j<k. \<not> P ([0..<n] ! j)))"
    unfolding first_index_def find_Some_iff by auto
  also have "\<dots> \<longleftrightarrow> i < n \<and> P i \<and> (\<forall>j<i. \<not> P j)" by auto
  finally show ?thesis .
qed

lemma first_index_None: "first_index P n = None \<longleftrightarrow> (\<forall>i<n. \<not> P i)"
  by (auto simp: first_index_def find_None_iff)

section \<open>Locks of a component\<close>

text \<open>
  The spin lock of a table, as the code that runs between its \<open>acquire\<close> and \<open>release\<close> sees it: a
  flag. Acquiring a lock that is held panics, as does releasing one that is not. Contention
  between CPUs is the subject of the theory of spin locks.
\<close>

definition lock_take :: "bool \<Rightarrow> bool res" where
  "lock_take held = (if held then Inl (Panic ''acquire'') else Inr True)"

definition lock_drop :: "bool \<Rightarrow> bool res" where
  "lock_drop held = (if held then Inr False else Inl (Panic ''release''))"

lemma lock_simps [simp]:
  "lock_take False = Inr True" "lock_take True = Inl (Panic ''acquire'')"
  "lock_drop True = Inr False" "lock_drop False = Inl (Panic ''release'')"
  by (simp_all add: lock_take_def lock_drop_def)

end
