(* ===== verification/MemLayout.thy ===== *)
theory MemLayout
  imports Prelude
begin

text \<open>
  The constants of \<open>memlayout.h\<close> and \<open>mmu.h\<close>, the address arithmetic of their macros, and the
  facts about rounding to pages that the allocator and the page tables rest on.
\<close>

unbundle bit_operations_syntax

section \<open>Constants and address arithmetic\<close>

definition KERNBASE :: u32 where "KERNBASE = 0x80000000"
definition EXTMEM :: u32 where "EXTMEM = 0x100000"
definition PHYSTOP :: u32 where "PHYSTOP = 0xE000000"
definition DEVSPACE :: u32 where "DEVSPACE = 0xFE000000"
definition KERNLINK :: u32 where "KERNLINK = KERNBASE + EXTMEM"
definition V2P :: "u32 \<Rightarrow> u32" where "V2P a = a - KERNBASE"
definition P2V :: "u32 \<Rightarrow> u32" where "P2V a = a + KERNBASE"

definition PGSIZE :: u32 where "PGSIZE = 4096"
definition PGROUNDUP :: "u32 \<Rightarrow> u32" where "PGROUNDUP sz = (sz + PGSIZE - 1) AND NOT (PGSIZE - 1)"
definition PGROUNDDOWN :: "u32 \<Rightarrow> u32" where "PGROUNDDOWN a = a AND NOT (PGSIZE - 1)"
definition PDX :: "u32 \<Rightarrow> u32" where "PDX va = drop_bit 22 va AND 0x3FF"
definition PTX :: "u32 \<Rightarrow> u32" where "PTX va = drop_bit 12 va AND 0x3FF"
definition PGADDR :: "u32 \<Rightarrow> u32 \<Rightarrow> u32 \<Rightarrow> u32" where "PGADDR d t off = push_bit 22 d OR push_bit 12 t OR off"
definition NPDENTRIES :: nat where "NPDENTRIES = 1024"
definition PTE_P :: u32 where "PTE_P = 1"
definition PTE_W :: u32 where "PTE_W = 2"
definition PTE_U :: u32 where "PTE_U = 4"
definition PTE_ADDR :: "u32 \<Rightarrow> u32" where "PTE_ADDR pte = pte AND NOT 0xFFF"
definition PTE_FLAGS :: "u32 \<Rightarrow> u32" where "PTE_FLAGS pte = pte AND 0xFFF"

lemma V2P_P2V [simp]: "V2P (P2V a) = a" "P2V (V2P a) = a"
  by (simp_all add: V2P_def P2V_def)

section \<open>Rounding\<close>

definition rnd :: "nat \<Rightarrow> u32 \<Rightarrow> u32" where "rnd n x = x AND NOT (mask n)"

definition algn :: "nat \<Rightarrow> u32 \<Rightarrow> bool" where "algn n x \<longleftrightarrow> take_bit n x = 0"

lemma rnd_sub: "rnd n x = x - take_bit n x"
proof -
  have "rnd n x = push_bit n (drop_bit n x)" unfolding rnd_def
    by (rule bit_eqI) (auto simp: bit_simps)
  then show ?thesis using bits_ident [of n x] by (metis add_diff_cancel_right')
qed

lemma unat_exp: assumes "n < 32" shows "unat (2 ^ n :: u32) = 2 ^ n"
proof -
  have "(2 ^ n :: nat) < 2 ^ LENGTH(32)" using assms by (intro power_strict_increasing) simp_all
  then have "unat (of_nat (2 ^ n) :: u32) = 2 ^ n" by (simp only: unat_of_nat mod_less)
  then show ?thesis by simp
qed

lemma unat_take_bit: "n < 32 \<Longrightarrow> unat (take_bit n x :: u32) = unat x mod 2 ^ n"
  by (simp add: take_bit_eq_mod unat_mod unat_exp)

lemma unat_add_mod: assumes "n < 32" shows "unat (p + q :: u32) mod 2 ^ n = (unat p + unat q) mod 2 ^ n"
proof -
  have "(2 ^ n :: nat) dvd 2 ^ 32" by (rule le_imp_power_dvd) (use assms in simp)
  then have "(unat p + unat q) mod 2 ^ 32 mod 2 ^ n = (unat p + unat q) mod 2 ^ n" by (rule mod_mod_cancel)
  then show ?thesis by (simp add: unat_word_ariths)
qed

lemma algn_unat: "n < 32 \<Longrightarrow> algn n x \<longleftrightarrow> unat x mod 2 ^ n = 0"
  unfolding algn_def by (simp add: unat_eq_0 flip: unat_take_bit)

lemma algn_add: "algn n p \<Longrightarrow> algn n q \<Longrightarrow> n < 32 \<Longrightarrow> algn n (p + q)"
  by (simp add: algn_unat unat_add_mod mod_add_eq [symmetric])

lemma rnd_add: assumes "algn n p" "d < 2 ^ n" "n < 32" shows "rnd n (p + d) = p"
proof -
  have u: "unat (2 ^ n :: u32) = 2 ^ n" by (rule unat_exp [OF assms(3)])
  have d: "unat d < 2 ^ n" using assms(2) u by (simp add: word_less_nat_alt)
  have p: "unat p mod 2 ^ n = 0" using assms(1,3) unat_take_bit [of n p] by (simp add: algn_def)
  have dvd: "(2 ^ n :: nat) dvd 2 ^ 32" by (rule le_imp_power_dvd) (use assms(3) in simp)
  have "unat (take_bit n (p + d)) = (unat p + unat d) mod 2 ^ 32 mod 2 ^ n"
    using assms(3) by (simp add: unat_take_bit unat_word_ariths)
  also have "\<dots> = (unat p + unat d) mod 2 ^ n" using dvd by (rule mod_mod_cancel)
  also have "\<dots> = unat d" using d p by (metis add.commute add_0_right mod_add_right_eq mod_less)
  finally have "take_bit n (p + d) = d" by (simp add: word_unat_eq_iff)
  then show ?thesis by (simp add: rnd_sub)
qed

lemma rnd_algn [simp]: "algn n (rnd n x)"
  unfolding algn_def rnd_def by (rule bit_eqI) (auto simp: bit_simps)

lemma rnd_diff: "n < 32 \<Longrightarrow> x - rnd n x < 2 ^ n"
  by (simp add: rnd_sub word_less_nat_alt unat_take_bit unat_exp)

lemma rnd_iff: "algn n p \<Longrightarrow> n < 32 \<Longrightarrow> rnd n x = p \<longleftrightarrow> x - p < 2 ^ n"
  using rnd_add [of n p "x - p"] rnd_diff [of n x] by auto

lemma algn_mod: "n < 32 \<Longrightarrow> algn n x \<longleftrightarrow> x mod 2 ^ n = 0"
  by (simp add: algn_def take_bit_eq_mod)

lemma PGROUNDDOWN_rnd: "PGROUNDDOWN x = rnd 12 x"
  by (simp add: PGROUNDDOWN_def rnd_def PGSIZE_def mask_eq_exp_minus_1)

lemma PTE_ADDR_rnd: "PTE_ADDR x = rnd 12 x"
  by (simp add: PTE_ADDR_def rnd_def mask_eq_exp_minus_1)

lemma rnd_same_iff: "rnd 12 a = rnd 12 b \<longleftrightarrow> PDX a = PDX b \<and> PTX a = PTX b"
proof
  have m: "(0x3FF :: u32) = mask 10" by (simp add: mask_eq_exp_minus_1)
  show "rnd 12 a = rnd 12 b \<Longrightarrow> PDX a = PDX b \<and> PTX a = PTX b"
  proof -
    assume h: "rnd 12 a = rnd 12 b"
    have r: "drop_bit k x = drop_bit k (rnd 12 x)" if "12 \<le> k" for k x
      unfolding rnd_def by (rule bit_eqI) (use that in \<open>auto simp: bit_simps dest: bit_imp_le_length\<close>)
    have "drop_bit 22 a = drop_bit 22 b" "drop_bit 12 a = drop_bit 12 b"
      using r [of 22 a] r [of 22 b] r [of 12 a] r [of 12 b] h by simp_all
    then show ?thesis by (simp add: PDX_def PTX_def)
  qed
  assume h: "PDX a = PDX b \<and> PTX a = PTX b"
  show "rnd 12 a = rnd 12 b"
  proof (rule bit_word_eqI)
    fix n assume n: "n < LENGTH(32)"
    have e: "bit (PDX a) k = bit (PDX b) k" "bit (PTX a) k = bit (PTX b) k" for k using h by simp_all
    consider "n < 12" | "12 \<le> n" "n < 22" | "22 \<le> n" by linarith
    then show "bit (rnd 12 a) n = bit (rnd 12 b) n"
    proof cases
      case 2
      then show ?thesis using e(2) [of "n - 12"] unfolding PTX_def m rnd_def by (auto simp: bit_simps)
    next
      case 3
      then show ?thesis using n e(1) [of "n - 22"] unfolding PDX_def m rnd_def by (auto simp: bit_simps)
    qed (simp add: rnd_def bit_simps)
  qed
qed

lemma rnd_rnd: "k \<le> n \<Longrightarrow> rnd n (rnd k x) = rnd n x"
  unfolding rnd_def by (rule bit_word_eqI) (auto simp: bit_simps)

lemma rnd_id: "algn n x \<Longrightarrow> rnd n x = x" by (simp add: rnd_sub algn_def)

lemma algn_le: "algn n x \<Longrightarrow> k \<le> n \<Longrightarrow> algn k x"
  using take_bit_take_bit [of k n x] by (simp add: algn_def min_def)

lemma PGROUNDUP_rnd: "PGROUNDUP x = rnd 12 (x + 4095)"
  by (simp add: PGROUNDUP_def rnd_def PGSIZE_def mask_eq_exp_minus_1 add.commute)

lemma unat_rnd: "n < 32 \<Longrightarrow> unat (rnd n x) = unat x - unat x mod 2 ^ n"
  by (simp add: rnd_sub unat_take_bit unat_sub word_le_nat_alt)

lemma PGROUNDUP_unat:
  assumes "unat x + 4095 < 2 ^ 32"
  shows "unat x \<le> unat (PGROUNDUP x)" "unat (PGROUNDUP x) < unat x + 4096" "algn 12 (PGROUNDUP x)"
proof -
  have "unat (x + 4095) = unat x + 4095" using assms by (simp add: unat_word_ariths)
  then have u: "unat (PGROUNDUP x) = (unat x + 4095) - (unat x + 4095) mod 4096" by (simp add: PGROUNDUP_rnd unat_rnd)
  moreover have "(unat x + 4095) mod 4096 < 4096" by simp
  ultimately show "unat x \<le> unat (PGROUNDUP x)" by linarith
  have "(unat x + 4095) mod 4096 \<le> unat x + 4095" by simp
  then show "unat (PGROUNDUP x) < unat x + 4096" using u by linarith
  show "algn 12 (PGROUNDUP x)" by (simp add: PGROUNDUP_rnd)
qed

lemma algn12E:
  assumes "algn 12 x" obtains k where "unat x = 4096 * k"
proof -
  have "unat x mod 4096 = 0" using assms by (simp add: algn_unat)
  then show ?thesis using that [of "unat x div 4096"] by auto
qed

end
