(* ===== verification/ProcState.thy ===== *)
theory ProcState
  imports MemLayout
begin

text \<open>
  The data model of \<open>proc.h\<close>, \<open>param.h\<close> and the trap frame of \<open>x86.h\<close>: processes, CPUs,
  the process table with the variables \<open>proc.c\<close> keeps beside it, and the sleep channels.
  A \<open>struct proc *\<close> into \<open>ptable.proc\<close> and a \<open>struct cpu *\<close> into \<open>cpus\<close> are indices
  (\<^typ>\<open>nat\<close>, the null pointer being \<open>None\<close>); the tables are functions from indices.
\<close>

section \<open>Parameters (param.h)\<close>

definition NPROC :: nat where "NPROC = 64"
definition NCPU :: nat where "NCPU = 8"
definition NOFILE :: nat where "NOFILE = 16"
definition KSTACKSIZE :: u32 where "KSTACKSIZE = 4096"
definition RR_QUANTUM_TICKS :: int where "RR_QUANTUM_TICKS = 3"

section \<open>Enumerations and structures (proc.h, x86.h)\<close>

datatype core_type = CORE_E | CORE_P

datatype procstate = UNUSED | EMBRYO | SLEEPING | RUNNABLE | RUNNING | ZOMBIE

text \<open>
  A sleep channel is the address of a kernel object. Two channels are equal exactly when
  they are the same object: a process (used by \<open>wait\<close> and by \<open>plock_acquire\<close>), the tick
  counter, a buffer, a sleep lock, a reader-writer lock, the log, the two counters of a
  pipe, and the console's read index.
\<close>

datatype chan =
    ChanProc nat | ChanTicks | ChanBuf nat | ChanSleeplock nat | ChanRwlock nat
  | ChanLog | ChanPipeRead nat | ChanPipeWrite nat | ChanInput

record trapframe =
  tf_edi :: u32
  tf_esi :: u32
  tf_ebp :: u32
  tf_oesp :: u32
  tf_ebx :: u32
  tf_edx :: u32
  tf_ecx :: u32
  tf_eax :: u32
  tf_gs :: u16
  tf_fs :: u16
  tf_es :: u16
  tf_ds :: u16
  tf_trapno :: u32
  tf_err :: u32
  tf_eip :: u32
  tf_cs :: u16
  tf_eflags :: u32
  tf_esp :: u32
  tf_ss :: u16

definition zero_tf :: trapframe where
  "zero_tf = \<lparr>tf_edi = 0, tf_esi = 0, tf_ebp = 0, tf_oesp = 0, tf_ebx = 0, tf_edx = 0,
     tf_ecx = 0, tf_eax = 0, tf_gs = 0, tf_fs = 0, tf_es = 0, tf_ds = 0, tf_trapno = 0,
     tf_err = 0, tf_eip = 0, tf_cs = 0, tf_eflags = 0, tf_esp = 0, tf_ss = 0\<rparr>"

record kcontext =
  cx_edi :: u32
  cx_esi :: u32
  cx_ebx :: u32
  cx_ebp :: u32
  cx_eip :: u32

definition zero_context :: kcontext where
  "zero_context = \<lparr>cx_edi = 0, cx_esi = 0, cx_ebx = 0, cx_ebp = 0, cx_eip = 0\<rparr>"

text \<open>
  \<open>struct proc\<close>. The trap frame and the saved context live on the kernel stack; their
  addresses (\<open>p->tf\<close>, \<open>p->context\<close>) and their contents are separate fields, and
  \<open>ctx_ret\<close> is the word above the context, where \<open>forkret\<close> returns to.
\<close>

record proc =
  psz :: u32
  pgdir :: u32
  kstack :: u32
  pstate :: procstate
  pid :: int
  parent :: "nat option"
  tf_addr :: u32
  tf :: trapframe
  ctx_addr :: u32
  ctx :: kcontext
  ctx_ret :: u32
  pchan :: "chan option"
  killed :: int
  ofile :: "nat \<Rightarrow> nat option"
  cwd :: "nat option"
  pname :: string
  ctime :: u32
  slice_ticks :: int
  etime :: u32
  next_run :: "nat option"

text \<open>
  \<open>struct cpu\<close>: the task-state fields are those the kernel writes. \<open>ifl\<close> and \<open>cr3\<close> are
  registers of the processor: the interrupt flag of \<open>eflags\<close> and the page-table base.
\<close>

record cpu =
  apicid :: u8
  started :: u32
  ifl :: bool
  ncli :: int
  intena :: int
  cproc :: "nat option"
  core_type :: core_type
  runq :: "nat option"
  queue_count :: int
  ts_ss0 :: u16
  ts_esp0 :: u32
  ts_iomb :: u16
  cr3 :: u32

text \<open>
  \<open>struct spinlock\<close> without its \<open>pcs\<close> array, which only records a call stack for debugging.
\<close>

record spinlock =
  locked :: u32
  lk_name :: string
  lk_cpu :: "nat option"
  acq_count :: "nat \<Rightarrow> u32"
  total_spins :: "nat \<Rightarrow> u32"

text \<open>
  The process table and the variables of \<open>proc.c\<close> and \<open>trap.c\<close>. The type parameter is the
  state of the resources a process holds (pages, page tables, open files, inodes).
\<close>

record 'r kst =
  ptable_lock :: spinlock
  procs :: "nat \<Rightarrow> proc"
  cpus :: "nat \<Rightarrow> cpu"
  ncpu :: nat
  kpgdir :: u32
  initproc :: "nat option"
  nextpid :: int
  ticks :: u32
  metrics_active :: bool
  metrics_start_tick :: u32
  metrics_proc_completed :: int
  tickslock :: spinlock
  res :: 'r

definition upd_proc :: "nat \<Rightarrow> (proc \<Rightarrow> proc) \<Rightarrow> 'r kst \<Rightarrow> 'r kst" where
  "upd_proc p f s = s\<lparr>procs := (procs s)(p := f (procs s p))\<rparr>"

definition upd_cpu :: "nat \<Rightarrow> (cpu \<Rightarrow> cpu) \<Rightarrow> 'r kst \<Rightarrow> 'r kst" where
  "upd_cpu c f s = s\<lparr>cpus := (cpus s)(c := f (cpus s c))\<rparr>"

definition nx :: "'r kst \<Rightarrow> nat \<Rightarrow> nat option" where
  "nx s = (\<lambda>i. next_run (procs s i))"

text \<open>The process running on a CPU, \<open>myproc()\<close>.\<close>

definition myproc :: "nat \<Rightarrow> 'r kst \<Rightarrow> nat option" where
  "myproc me s = cproc (cpus s me)"

lemma procs_upd_proc [simp]: "procs (upd_proc p f s) = (procs s)(p := f (procs s p))"
  by (simp add: upd_proc_def)

lemma cpus_upd_cpu [simp]: "cpus (upd_cpu c f s) = (cpus s)(c := f (cpus s c))"
  by (simp add: upd_cpu_def)

lemma upd_other [simp]:
  "cpus (upd_proc p f s) = cpus s" "procs (upd_cpu c g s) = procs s"
  "ncpu (upd_proc p f s) = ncpu s" "ncpu (upd_cpu c g s) = ncpu s"
  "ptable_lock (upd_proc p f s) = ptable_lock s" "ptable_lock (upd_cpu c g s) = ptable_lock s"
  "kpgdir (upd_proc p f s) = kpgdir s" "kpgdir (upd_cpu c g s) = kpgdir s"
  "ticks (upd_proc p f s) = ticks s" "ticks (upd_cpu c g s) = ticks s"
  "initproc (upd_proc p f s) = initproc s" "initproc (upd_cpu c g s) = initproc s"
  "nextpid (upd_proc p f s) = nextpid s" "nextpid (upd_cpu c g s) = nextpid s"
  "res (upd_proc p f s) = res s" "res (upd_cpu c g s) = res s"
  "tickslock (upd_proc p f s) = tickslock s" "tickslock (upd_cpu c g s) = tickslock s"
  "metrics_active (upd_proc p f s) = metrics_active s"
  "metrics_active (upd_cpu c g s) = metrics_active s"
  "metrics_start_tick (upd_proc p f s) = metrics_start_tick s"
  "metrics_start_tick (upd_cpu c g s) = metrics_start_tick s"
  "metrics_proc_completed (upd_proc p f s) = metrics_proc_completed s"
  "metrics_proc_completed (upd_cpu c g s) = metrics_proc_completed s"
  by (simp_all add: upd_proc_def upd_cpu_def)

lemma nx_upd_proc: "nx (upd_proc p f s) = (nx s)(p := next_run (f (procs s p)))"
  by (auto simp: nx_def)

lemma nx_upd_cpu [simp]: "nx (upd_cpu c g s) = nx s"
  by (simp add: nx_def)

lemma nx_upd_proc_same:
  "next_run (f (procs s p)) = next_run (procs s p) \<Longrightarrow> nx (upd_proc p f s) = nx s"
  by (auto simp: nx_def)

section \<open>The state at boot\<close>

text \<open>
  Static data is zero when the kernel starts; \<open>main\<close> and \<open>mpmain\<close> make the CPUs with an even
  number E-cores and the others P-cores, all with empty queues.
\<close>

definition zero_proc :: proc where
  "zero_proc = \<lparr>psz = 0, pgdir = 0, kstack = 0, pstate = UNUSED, pid = 0, parent = None,
     tf_addr = 0, tf = zero_tf, ctx_addr = 0, ctx = zero_context, ctx_ret = 0, pchan = None,
     killed = 0, ofile = (\<lambda>_. None), cwd = None, pname = [], ctime = 0, slice_ticks = 0,
     etime = 0, next_run = None\<rparr>"

definition mpmain_cpu :: "nat \<Rightarrow> cpu" where
  "mpmain_cpu i = \<lparr>apicid = of_nat i, started = 1, ifl = False, ncli = 0, intena = 0,
     cproc = None, core_type = (if i mod 2 = 0 then CORE_E else CORE_P), runq = None,
     queue_count = 0, ts_ss0 = 0, ts_esp0 = 0, ts_iomb = 0, cr3 = 0\<rparr>"

definition free_lock :: "string \<Rightarrow> spinlock" where
  "free_lock name = \<lparr>locked = 0, lk_name = name, lk_cpu = None,
     acq_count = (\<lambda>_. 0), total_spins = (\<lambda>_. 0)\<rparr>"

definition boot_kst :: "nat \<Rightarrow> 'r \<Rightarrow> 'r kst" where
  "boot_kst n r = \<lparr>ptable_lock = free_lock ''ptable'',
     procs = (\<lambda>_. zero_proc), cpus = mpmain_cpu, ncpu = n, kpgdir = 0, initproc = None,
     nextpid = 1, ticks = 0, metrics_active = False, metrics_start_tick = 0,
     metrics_proc_completed = 0, tickslock = free_lock ''time'', res = r\<rparr>"

lemma free_lock_simps [simp]: "locked (free_lock name) = 0" "lk_cpu (free_lock name) = None"
  by (simp_all add: free_lock_def)

lemma boot_kst_simps [simp]:
  "procs (boot_kst n r) i = zero_proc" "cpus (boot_kst n r) c = mpmain_cpu c"
  "ncpu (boot_kst n r) = n" "ticks (boot_kst n r) = 0" "res (boot_kst n r) = r"
  "nextpid (boot_kst n r) = 1" "initproc (boot_kst n r) = None"
  "locked (ptable_lock (boot_kst n r)) = 0" "locked (tickslock (boot_kst n r)) = 0"
  by (simp_all add: boot_kst_def free_lock_def)

lemma mpmain_cpu_simps [simp]:
  "runq (mpmain_cpu i) = None" "queue_count (mpmain_cpu i) = 0" "cproc (mpmain_cpu i) = None"
  "ncli (mpmain_cpu i) = 0" "ifl (mpmain_cpu i) = False" "intena (mpmain_cpu i) = 0"
  by (simp_all add: mpmain_cpu_def)

lemma zero_proc_simps [simp]:
  "pstate zero_proc = UNUSED" "pid zero_proc = 0" "next_run zero_proc = None"
  "parent zero_proc = None" "pchan zero_proc = None" "ctime zero_proc = 0"
  by (simp_all add: zero_proc_def)

end
