(* ===== verification/RunQueue.thy ===== *)
theory RunQueue
  imports ProcState
begin

text \<open>
  The per-CPU run queues of \<open>proc.c\<close>: \<open>enqueue\<close> and \<open>dequeue\<close> on the list threaded through
  \<open>next_run\<close>, the two core selectors, and \<open>load_balance\<close>. The contract the rest of the
  scheduler relies on is the locale \<open>run_queues\<close>; it is interpreted on these operations.
\<close>

section \<open>Operations\<close>

definition enqueue :: "nat \<Rightarrow> nat \<Rightarrow> 'r kst \<Rightarrow> 'r kst res" where
  "enqueue c p s =
     (let s1 = upd_proc p (\<lambda>q. q\<lparr>next_run := None\<rparr>) s in
      bindR
        (case runq (cpus s1 c) of
           None \<Rightarrow> Inr (upd_cpu c (\<lambda>k. k\<lparr>runq := Some p\<rparr>) s1)
         | Some cur \<Rightarrow>
             bindR (of_opt Diverges (chain_last (nx s1) cur))
               (\<lambda>cur. Inr (upd_proc cur (\<lambda>q. q\<lparr>next_run := Some p\<rparr>) s1)))
        (\<lambda>s2. Inr (upd_cpu c (\<lambda>k. k\<lparr>queue_count := queue_count k + 1\<rparr>) s2)))"

text \<open>The search of \<open>dequeue\<close>: the node whose successor is \<open>p\<close>; \<open>Some None\<close> when there is none.\<close>

partial_function (option) find_prev :: "('a \<Rightarrow> 'a option) \<Rightarrow> 'a \<Rightarrow> 'a \<Rightarrow> 'a option option" where
  "find_prev nxt p cur =
     (case nxt cur of
        None \<Rightarrow> Some None
      | Some n \<Rightarrow> if n = p then Some (Some cur) else find_prev nxt p n)"

definition dequeue :: "nat \<Rightarrow> nat \<Rightarrow> 'r kst \<Rightarrow> (int \<times> 'r kst) res" where
  "dequeue c p s =
     (case runq (cpus s c) of
        None \<Rightarrow> Inr (-1, s)
      | Some h \<Rightarrow>
          if h = p then
            (let s1 = upd_cpu c (\<lambda>k. k\<lparr>runq := next_run (procs s p),
                                      queue_count := queue_count k - 1\<rparr>) s
             in Inr (0, upd_proc p (\<lambda>q. q\<lparr>next_run := None\<rparr>) s1))
          else
            bindR (of_opt Diverges (find_prev (nx s) p h))
              (\<lambda>found. case found of
                 None \<Rightarrow> Inr (-1, s)
               | Some cur \<Rightarrow>
                   (let s1 = upd_proc cur (\<lambda>q. q\<lparr>next_run := next_run (procs s p)\<rparr>) s;
                        s2 = upd_cpu c (\<lambda>k. k\<lparr>queue_count := queue_count k - 1\<rparr>) s1
                    in Inr (0, upd_proc p (\<lambda>q. q\<lparr>next_run := None\<rparr>) s2))))"

text \<open>
  The loop both selectors share: a core of the wanted kind replaces the best one so far
  when its queue is strictly shorter; the first bound is \<open>0x7FFFFFFF\<close>.
\<close>

definition lightest_step ::
  "core_type \<Rightarrow> (nat \<Rightarrow> cpu) \<Rightarrow> nat \<Rightarrow> nat option \<times> int \<Rightarrow> nat option \<times> int" where
  "lightest_step ct cs i b =
     (if core_type (cs i) = ct \<and> queue_count (cs i) < snd b
      then (Some i, queue_count (cs i)) else b)"

definition get_least_loaded_e_core :: "'r kst \<Rightarrow> nat" where
  "get_least_loaded_e_core s =
     (case fst (fold (lightest_step CORE_E (cpus s)) [0..<ncpu s] (None, 0x7FFFFFFF)) of
        None \<Rightarrow> 0
      | Some c \<Rightarrow> c)"

definition get_lightest_p_core :: "'r kst \<Rightarrow> nat option" where
  "get_lightest_p_core s =
     fst (fold (lightest_step CORE_P (cpus s)) [0..<ncpu s] (None, 0x7FFFFFFF))"

text \<open>Walking a queue for the first process that satisfies a test.\<close>

partial_function (option) find_in_queue ::
  "('a \<Rightarrow> 'a option) \<Rightarrow> ('a \<Rightarrow> bool) \<Rightarrow> 'a option \<Rightarrow> 'a option option" where
  "find_in_queue nxt P cur =
     (case cur of
        None \<Rightarrow> Some None
      | Some i \<Rightarrow> if P i then Some (Some i) else find_in_queue nxt P (nxt i))"

definition movable :: "'r kst \<Rightarrow> nat \<Rightarrow> bool" where
  "movable s i \<longleftrightarrow> pstate (procs s i) = RUNNABLE \<and> pid (procs s i) > 2"

definition load_balance :: "nat \<Rightarrow> 'r kst \<Rightarrow> 'r kst res" where
  "load_balance me s =
     (if core_type (cpus s me) \<noteq> CORE_E then Inr s
      else case get_lightest_p_core s of
        None \<Rightarrow> Inr s
      | Some lp \<Rightarrow>
          if queue_count (cpus s me) \<ge> queue_count (cpus s lp) + 3 then
            bindR (of_opt Diverges (find_in_queue (nx s) (movable s) (runq (cpus s me))))
              (\<lambda>victim. case victim of
                 None \<Rightarrow> Inr s
               | Some v \<Rightarrow> bindR (dequeue me v s) (\<lambda>(r, s1). enqueue lp v s1))
          else Inr s)"

section \<open>Walks over a well-formed queue\<close>

lemma find_prev_miss:
  "chain nxt (Some a) (a # as) \<Longrightarrow> p \<notin> set as \<Longrightarrow> find_prev nxt p a = Some None"
proof (induction as arbitrary: a)
  case (Cons b bs)
  then show ?case by (subst find_prev.simps) auto
qed (subst find_prev.simps, simp)

lemma find_prev_hit:
  "chain nxt (Some a) (a # as @ b # p # bs) \<Longrightarrow> find_prev nxt p a = Some (Some (last (a # as @ [b])))"
proof (induction as arbitrary: a)
  case Nil
  then have "nxt a = Some b" "nxt b = Some p" "b \<noteq> p"
    using chain_distinct [OF Nil] by auto
  then show ?case
    by (subst find_prev.simps) (simp, subst find_prev.simps, simp)
next
  case (Cons c cs)
  then have "nxt a = Some c" "c \<noteq> p" using chain_distinct [OF Cons.prems] by auto
  with Cons show ?case by (subst find_prev.simps) simp
qed

lemma find_in_queue_eq: "chain nxt p as \<Longrightarrow> find_in_queue nxt P p = Some (find P as)"
proof (induction as arbitrary: p)
  case (Cons a as)
  then show ?case by (subst find_in_queue.simps) auto
qed (subst find_in_queue.simps, simp)

section \<open>The representation invariant and frame\<close>

text \<open>
  \<open>queues s qs\<close>: the pointers of \<open>s\<close> represent the queues \<open>qs\<close>, every \<open>queue_count\<close> is
  the length of its queue, and no process is on two queues.
\<close>

definition queues :: "'r kst \<Rightarrow> (nat \<Rightarrow> nat list) \<Rightarrow> bool" where
  "queues s qs \<longleftrightarrow>
     (\<forall>c<ncpu s. chain (nx s) (runq (cpus s c)) (qs c) \<and>
                 queue_count (cpus s c) = int (length (qs c))) \<and>
     (\<forall>c<ncpu s. \<forall>d<ncpu s. c \<noteq> d \<longrightarrow> set (qs c) \<inter> set (qs d) = {})"

text \<open>Queue operations change only \<open>next_run\<close>, \<open>runq\<close> and \<open>queue_count\<close>.\<close>

definition qframe :: "'r kst \<Rightarrow> 'r kst \<Rightarrow> bool" where
  "qframe s s' \<longleftrightarrow>
     (\<exists>ps cs. s' = s\<lparr>procs := ps, cpus := cs\<rparr>) \<and>
     (\<forall>i. (procs s' i)\<lparr>next_run := None\<rparr> = (procs s i)\<lparr>next_run := None\<rparr>) \<and>
     (\<forall>c. (cpus s' c)\<lparr>runq := None, queue_count := 0\<rparr> =
          (cpus s c)\<lparr>runq := None, queue_count := 0\<rparr>)"

lemma queuesD:
  assumes "queues s qs" and "c < ncpu s"
  shows "chain (nx s) (runq (cpus s c)) (qs c)"
    and "queue_count (cpus s c) = int (length (qs c))"
    and "distinct (qs c)"
    and "\<And>d. d < ncpu s \<Longrightarrow> d \<noteq> c \<Longrightarrow> set (qs c) \<inter> set (qs d) = {}"
  using assms chain_distinct by (auto simp: queues_def)

lemma qframe_refl [simp]: "qframe s s"
  unfolding qframe_def by (metis kst.surjective kst.update_convs(2,3))

lemma qframe_trans: "qframe s t \<Longrightarrow> qframe t u \<Longrightarrow> qframe s u"
  unfolding qframe_def by (elim conjE exE) (simp, blast)

lemma qframe_upd_proc:
  "(f (procs s p))\<lparr>next_run := None\<rparr> = (procs s p)\<lparr>next_run := None\<rparr> \<Longrightarrow>
   qframe s (upd_proc p f s)"
  unfolding qframe_def
  by (auto intro!: exI [of _ "procs (upd_proc p f s)"] exI [of _ "cpus s"] simp: upd_proc_def)

lemma qframe_upd_cpu:
  "(f (cpus s c))\<lparr>runq := None, queue_count := 0\<rparr> =
   (cpus s c)\<lparr>runq := None, queue_count := 0\<rparr> \<Longrightarrow> qframe s (upd_cpu c f s)"
  unfolding qframe_def
  by (auto intro!: exI [of _ "procs s"] exI [of _ "cpus (upd_cpu c f s)"] simp: upd_cpu_def)

lemmas qframe_intros = qframe_upd_proc qframe_upd_cpu
  qframe_trans [OF _ qframe_upd_proc] qframe_trans [OF _ qframe_upd_cpu]

lemma qframe_globals:
  assumes "qframe s s'"
  shows "ptable_lock s' = ptable_lock s" "kpgdir s' = kpgdir s" "ncpu s' = ncpu s" "ticks s' = ticks s" "initproc s' = initproc s"
    "nextpid s' = nextpid s" "res s' = res s" "metrics_active s' = metrics_active s"
    "metrics_start_tick s' = metrics_start_tick s"
    "metrics_proc_completed s' = metrics_proc_completed s" "tickslock s' = tickslock s"
  using assms by (auto simp: qframe_def)

lemma proc_erase_next_eq:
  assumes "p\<lparr>next_run := None\<rparr> = q\<lparr>next_run := None\<rparr>"
  shows "p = q\<lparr>next_run := next_run p\<rparr>"
  using assms by (metis proc.surjective proc.update_convs(20))

lemma cpu_erase_queue_eq:
  assumes "k\<lparr>runq := None, queue_count := 0\<rparr> = l\<lparr>runq := None, queue_count := 0\<rparr>"
  shows "k = l\<lparr>runq := runq k, queue_count := queue_count k\<rparr>"
  using assms by (cases k, cases l) simp

lemma qframe_proc: "qframe s s' \<Longrightarrow> procs s' i = (procs s i)\<lparr>next_run := next_run (procs s' i)\<rparr>"
  unfolding qframe_def using proc_erase_next_eq by blast

lemma qframe_cpu:
  "qframe s s' \<Longrightarrow>
   cpus s' c = (cpus s c)\<lparr>runq := runq (cpus s' c), queue_count := queue_count (cpus s' c)\<rparr>"
  unfolding qframe_def using cpu_erase_queue_eq by blast

lemma qframe_fields:
  assumes "qframe s s'"
  shows "pstate (procs s' i) = pstate (procs s i)" "pid (procs s' i) = pid (procs s i)"
    "pchan (procs s' i) = pchan (procs s i)" "ctime (procs s' i) = ctime (procs s i)"
    "parent (procs s' i) = parent (procs s i)" "killed (procs s' i) = killed (procs s i)"
    "kstack (procs s' i) = kstack (procs s i)" "pgdir (procs s' i) = pgdir (procs s i)"
    "core_type (cpus s' c) = core_type (cpus s c)" "cproc (cpus s' c) = cproc (cpus s c)"
    "ncli (cpus s' c) = ncli (cpus s c)" "intena (cpus s' c) = intena (cpus s c)"
    "ifl (cpus s' c) = ifl (cpus s c)" "cr3 (cpus s' c) = cr3 (cpus s c)"
  by (subst qframe_proc [OF assms] qframe_cpu [OF assms], simp)+

lemmas qframe_simps = qframe_globals qframe_fields

section \<open>Functional correctness of the queue operations\<close>

lemma queues_updI:
  assumes q: "queues s qs" and n: "ncpu t = ncpu s"
    and other: "\<And>d. d \<noteq> c \<Longrightarrow> cpus t d = cpus s d"
    and ch: "chain (nx t) (runq (cpus t c)) xs" and ct: "queue_count (cpus t c) = int (length xs)"
    and nxt: "\<And>d a. d < ncpu s \<Longrightarrow> d \<noteq> c \<Longrightarrow> a \<in> set (qs d) \<Longrightarrow> nx t a = nx s a"
    and dj: "\<And>d. d < ncpu s \<Longrightarrow> d \<noteq> c \<Longrightarrow> set xs \<inter> set (qs d) = {}"
  shows "queues t (qs(c := xs))"
proof -
  have "chain (nx t) (runq (cpus s d)) (qs d)" if "d < ncpu s" "d \<noteq> c" for d
    using queuesD(1) [OF q that(1)] nxt [OF that] by (simp cong: chain_cong)
  then show ?thesis using q ch ct dj n other unfolding queues_def by (auto simp: Int_commute)
qed

lemma enqueue_ok:
  assumes q: "queues s qs" and c: "c < ncpu s" and p: "\<forall>d<ncpu s. p \<notin> set (qs d)"
  shows "\<exists>s'. enqueue c p s = Inr s' \<and> queues s' (qs(c := qs c @ [p])) \<and> qframe s s'"
proof (cases "qs c")
  case Nil
  then have "runq (cpus s c) = None" using queuesD(1) [OF q c] by simp
  then have eq: "enqueue c p s =
      Inr (upd_cpu c (\<lambda>k. k\<lparr>queue_count := queue_count k + 1\<rparr>)
            (upd_cpu c (\<lambda>k. k\<lparr>runq := Some p\<rparr>) (upd_proc p (\<lambda>q. q\<lparr>next_run := None\<rparr>) s)))"
    (is "_ = Inr ?t") by (simp add: enqueue_def)
  have "queues ?t (qs(c := [p]))"
    by (rule queues_updI [OF q]) (use p queuesD(2) [OF q c] Nil in \<open>auto simp: nx_upd_proc\<close>)
  moreover have "qframe s ?t" by (auto intro!: qframe_intros)
  ultimately show ?thesis using eq Nil by auto
next
  case (Cons h bs)
  define s1 where "s1 = upd_proc p (\<lambda>q. q\<lparr>next_run := None\<rparr>) s"
  define l where "l = last (h # bs)"
  have p': "p \<notin> set (h # bs)" using Cons p c by auto
  have ch: "chain (nx s) (Some h) (h # bs)" "runq (cpus s c) = Some h"
    using queuesD(1) [OF q c] Cons by auto
  have l: "l \<in> set (qs c)" unfolding l_def Cons by (rule last_in_set) simp
  then have lp: "l \<noteq> p" using p c by auto
  have nx1: "nx s1 = (nx s)(p := None)" by (simp add: s1_def nx_upd_proc)
  have "chain (nx s1) (Some h) (h # bs)" unfolding nx1 by (subst chain_frame [OF p'], rule ch(1))
  then have "chain_last (nx s1) h = Some l" unfolding l_def by (rule chain_last_eq)
  then have eq: "enqueue c p s =
     Inr (upd_cpu c (\<lambda>k. k\<lparr>queue_count := queue_count k + 1\<rparr>)
            (upd_proc l (\<lambda>q. q\<lparr>next_run := Some p\<rparr>) s1))" (is "_ = Inr ?t")
    using ch(2) by (simp add: enqueue_def s1_def [symmetric] Let_def) (simp add: s1_def)
  have nxt: "nx ?t = (nx s)(l := Some p, p := None)"
    using lp by (simp add: nx_upd_proc nx1 fun_upd_twist)
  have "queues ?t (qs(c := (h # bs) @ [p]))"
  proof (rule queues_updI [OF q])
    show "chain (nx ?t) (runq (cpus ?t c)) ((h # bs) @ [p])"
      using chain_snoc [OF ch(1) p'] unfolding nxt l_def [symmetric] by (simp add: s1_def ch(2))
    fix d a assume d: "d < ncpu s" "d \<noteq> c"
    show "set ((h # bs) @ [p]) \<inter> set (qs d) = {}"
      using queuesD(4) [OF q c d] p d(1) Cons by auto
    show "nx ?t a = nx s a" if "a \<in> set (qs d)"
      using queuesD(4) [OF q c d] p d(1) l that unfolding nxt by auto
  qed (use queuesD(2) [OF q c] Cons in \<open>auto simp: s1_def\<close>)
  moreover have "qframe s ?t" by (auto simp: s1_def intro!: qframe_intros)
  ultimately show ?thesis using eq Cons by auto
qed

lemma dequeue_miss:
  assumes q: "queues s qs" and c: "c < ncpu s" and p: "p \<notin> set (qs c)"
  shows "dequeue c p s = Inr (-1, s)"
proof (cases "qs c")
  case (Cons h bs)
  then have "chain (nx s) (Some h) (h # bs)" "runq (cpus s c) = Some h"
    using queuesD(1) [OF q c] by auto
  with p Cons show ?thesis by (simp add: dequeue_def find_prev_miss)
qed (use queuesD(1) [OF q c] in \<open>simp add: dequeue_def\<close>)

lemma dequeue_hit:
  assumes q: "queues s qs" and c: "c < ncpu s" and p: "p \<in> set (qs c)"
  shows "\<exists>s'. dequeue c p s = Inr (0, s') \<and> queues s' (qs(c := remove1 p (qs c))) \<and> qframe s s'"
proof -
  obtain as bs where split: "qs c = as @ p # bs" "p \<notin> set as"
    using split_list_first [OF p] by blast
  have rem: "remove1 p (qs c) = as @ bs" using split by (simp add: remove1_append)
  have ch: "chain (nx s) (runq (cpus s c)) (as @ p # bs)" using queuesD(1) [OF q c] split by simp
  have d: "distinct (as @ p # bs)" using ch by (rule chain_distinct)
  have dj: "set (as @ p # bs) \<inter> set (qs e) = {}" if "e < ncpu s" "e \<noteq> c" for e
    using queuesD(4) [OF q c that] split by simp
  show ?thesis
  proof (cases as)
    case Nil
    with ch have rq: "runq (cpus s c) = Some p" "chain (nx s) (nx s p) bs" by auto
    then have eq: "dequeue c p s = Inr (0, upd_proc p (\<lambda>q. q\<lparr>next_run := None\<rparr>)
        (upd_cpu c (\<lambda>k. k\<lparr>runq := next_run (procs s p), queue_count := queue_count k - 1\<rparr>) s))"
      (is "_ = Inr (0, ?t)") by (simp add: dequeue_def Let_def)
    have nxt: "nx ?t = (nx s)(p := None)" by (simp add: nx_upd_proc)
    have "queues ?t (qs(c := bs))"
    proof (rule queues_updI [OF q])
      show "chain (nx ?t) (runq (cpus ?t c)) bs"
        unfolding nxt using rq(2) d by (simp add: chain_frame) (simp add: nx_def)
      show "nx ?t a = nx s a" if "e < ncpu s" "e \<noteq> c" "a \<in> set (qs e)" for e a
        using dj [OF that(1,2)] that(3) unfolding nxt by auto
    qed (use dj queuesD(2) [OF q c] split Nil in auto)
    moreover have "qframe s ?t" by (auto intro!: qframe_intros)
    ultimately show ?thesis using eq rem Nil by auto
  next
    case (Cons h as')
    then have rq: "runq (cpus s c) = Some h" "h \<noteq> p" using ch d by auto
    obtain us b where as: "as = us @ [b]" using Cons by (metis rev_exhaust list.discI)
    have b: "last as = b" "b \<noteq> p" using as d by auto
    have "find_prev (nx s) p h = Some (Some b)"
    proof (cases us)
      case Nil
      with as Cons have "as' = []" "b = h" by auto
      with ch Cons rq(1) show ?thesis by (subst find_prev.simps) auto
    next
      case (Cons h' vs)
      with as \<open>as = h # as'\<close> have "h' = h" "as' = vs @ [b]" by auto
      with ch \<open>as = h # as'\<close> rq(1) find_prev_hit [of "nx s" h vs b p bs] show ?thesis by simp
    qed
    then have eq: "dequeue c p s = Inr (0, upd_proc p (\<lambda>q. q\<lparr>next_run := None\<rparr>)
        (upd_cpu c (\<lambda>k. k\<lparr>queue_count := queue_count k - 1\<rparr>)
          (upd_proc b (\<lambda>q. q\<lparr>next_run := next_run (procs s p)\<rparr>) s)))"
      (is "_ = Inr (0, ?t)") using rq by (simp add: dequeue_def Let_def)
    have nxt: "nx ?t = (nx s)(b := nx s p, p := None)"
      by (simp add: nx_upd_proc) (simp add: nx_def)
    have "queues ?t (qs(c := as @ bs))"
    proof (rule queues_updI [OF q])
      show "chain (nx ?t) (runq (cpus ?t c)) (as @ bs)"
        unfolding nxt using chain_unlink [of "nx s" "runq (cpus s c)" us b p bs] ch as by simp
      show "nx ?t a = nx s a" if "e < ncpu s" "e \<noteq> c" "a \<in> set (qs e)" for e a
        using dj [OF that(1,2)] that(3) as unfolding nxt by auto
    qed (use dj queuesD(2) [OF q c] split in auto)
    moreover have "qframe s ?t" by (auto intro!: qframe_intros)
    ultimately show ?thesis using eq rem by auto
  qed
qed

section \<open>Core selection\<close>

definition lightest_inv :: "core_type \<Rightarrow> (nat \<Rightarrow> cpu) \<Rightarrow> nat \<Rightarrow> nat option \<times> int \<Rightarrow> bool" where
  "lightest_inv ct cs n b \<longleftrightarrow>
     (case b of
        (None, m) \<Rightarrow> m = 0x7FFFFFFF \<and> (\<forall>i<n. core_type (cs i) = ct \<longrightarrow> m \<le> queue_count (cs i))
      | (Some c, m) \<Rightarrow> c < n \<and> core_type (cs c) = ct \<and> m = queue_count (cs c) \<and>
          (\<forall>i<n. core_type (cs i) = ct \<longrightarrow> m \<le> queue_count (cs i)) \<and>
          (\<forall>i<c. core_type (cs i) = ct \<longrightarrow> m < queue_count (cs i)))"

lemma lightest_fold:
  "lightest_inv ct cs n (fold (lightest_step ct cs) [0..<n] (None, 0x7FFFFFFF))"
proof (induction n)
  case (Suc n)
  then show ?case
    by (auto simp: lightest_inv_def lightest_step_def less_Suc_eq split: prod.splits option.splits)
qed (simp add: lightest_inv_def)

lemma lightest_cases:
  assumes "lightest_inv ct cs n b"
  obtains (none) "fst b = None" "\<And>i. i < n \<Longrightarrow> core_type (cs i) = ct \<Longrightarrow> 0x7FFFFFFF \<le> queue_count (cs i)"
  | (some) c where "fst b = Some c" "c < n" "core_type (cs c) = ct"
      "\<And>i. i < n \<Longrightarrow> core_type (cs i) = ct \<Longrightarrow> queue_count (cs c) \<le> queue_count (cs i)"
  using assms by (cases b; cases "fst b") (auto simp: lightest_inv_def)

lemma get_lightest_p_core_Some:
  assumes "get_lightest_p_core s = Some c"
  shows "c < ncpu s" "core_type (cpus s c) = CORE_P"
    "\<And>i. i < ncpu s \<Longrightarrow> core_type (cpus s i) = CORE_P \<Longrightarrow> queue_count (cpus s c) \<le> queue_count (cpus s i)"
  by (rule lightest_cases [OF lightest_fold [of CORE_P "cpus s" "ncpu s"]];
      use assms in \<open>simp add: get_lightest_p_core_def\<close>)+

lemma get_least_loaded_e_core_bound: "0 < ncpu s \<Longrightarrow> get_least_loaded_e_core s < ncpu s"
  by (rule lightest_cases [OF lightest_fold [of CORE_E "cpus s" "ncpu s"]])
    (simp_all add: get_least_loaded_e_core_def)

lemma get_least_loaded_e_core_min:
  assumes "i < ncpu s" "core_type (cpus s i) = CORE_E"
    and "\<forall>c<ncpu s. queue_count (cpus s c) < 0x7FFFFFFF"
  shows "core_type (cpus s (get_least_loaded_e_core s)) = CORE_E \<and>
    queue_count (cpus s (get_least_loaded_e_core s)) \<le> queue_count (cpus s i)"
proof (rule lightest_cases [OF lightest_fold [of CORE_E "cpus s" "ncpu s"]])
  assume "\<And>i. i < ncpu s \<Longrightarrow> core_type (cpus s i) = CORE_E \<Longrightarrow> 0x7FFFFFFF \<le> queue_count (cpus s i)"
  then show ?thesis using assms by (meson not_less)
qed (use assms in \<open>simp add: get_least_loaded_e_core_def\<close>)

section \<open>The contract of the run queues\<close>

text \<open>
  What \<open>scheduler\<close>, \<open>wakeup1\<close>, \<open>yield\<close>, \<open>fork\<close> and \<open>load_balance\<close> rely on: a view of the
  queues as lists, an \<open>enq\<close> that appends, a \<open>deq\<close> that removes or reports a miss, and a
  frame relation that both respect.
\<close>

locale run_queues =
  fixes enq :: "nat \<Rightarrow> nat \<Rightarrow> 's \<Rightarrow> 's res"
    and deq :: "nat \<Rightarrow> nat \<Rightarrow> 's \<Rightarrow> (int \<times> 's) res"
    and view :: "'s \<Rightarrow> (nat \<Rightarrow> nat list) \<Rightarrow> bool"
    and cores :: "'s \<Rightarrow> nat"
    and frame :: "'s \<Rightarrow> 's \<Rightarrow> bool"
  assumes enq_appends:
      "view s qs \<Longrightarrow> c < cores s \<Longrightarrow> \<forall>d<cores s. p \<notin> set (qs d) \<Longrightarrow>
       \<exists>s'. enq c p s = Inr s' \<and> view s' (qs(c := qs c @ [p])) \<and> frame s s'"
    and deq_removes:
      "view s qs \<Longrightarrow> c < cores s \<Longrightarrow> p \<in> set (qs c) \<Longrightarrow>
       \<exists>s'. deq c p s = Inr (0, s') \<and> view s' (qs(c := remove1 p (qs c))) \<and> frame s s'"
    and deq_misses:
      "view s qs \<Longrightarrow> c < cores s \<Longrightarrow> p \<notin> set (qs c) \<Longrightarrow> deq c p s = Inr (-1, s)"
    and view_once:
      "view s qs \<Longrightarrow> c < cores s \<Longrightarrow> d < cores s \<Longrightarrow> p \<in> set (qs c) \<Longrightarrow> p \<in> set (qs d) \<Longrightarrow> c = d"
    and view_distinct: "view s qs \<Longrightarrow> c < cores s \<Longrightarrow> distinct (qs c)"
    and frame_cores: "frame s s' \<Longrightarrow> cores s' = cores s"
    and frame_compose: "frame s t \<Longrightarrow> frame t u \<Longrightarrow> frame s u"
begin

text \<open>A process taken off a queue is on no queue.\<close>

lemma removed_nowhere:
  assumes "view s qs" "c < cores s" "p \<in> set (qs c)"
  shows "\<forall>d<cores s. p \<notin> set ((qs(c := remove1 p (qs c))) d)"
  using assms view_once view_distinct by (auto simp: set_remove1_eq)

text \<open>Moving a process between queues loses nothing and duplicates nothing.\<close>

lemma move:
  assumes v: "view s qs" and c: "c < cores s" and d: "d < cores s" and p: "p \<in> set (qs c)"
  shows "\<exists>s' r. bindR (deq c p s) (\<lambda>(r, s1). enq d p s1) = Inr s' \<and>
    view s' ((qs(c := remove1 p (qs c)))(d := (qs(c := remove1 p (qs c))) d @ [p])) \<and> frame s s'"
proof -
  obtain s1 where s1: "deq c p s = Inr (0, s1)" "view s1 (qs(c := remove1 p (qs c)))" "frame s s1"
    using deq_removes [OF v c p] by blast
  have "cores s1 = cores s" using s1(3) by (rule frame_cores)
  then obtain s2 where s2: "enq d p s1 = Inr s2" "frame s1 s2"
    "view s2 ((qs(c := remove1 p (qs c)))(d := (qs(c := remove1 p (qs c))) d @ [p]))"
    using enq_appends [OF s1(2), of d p] removed_nowhere [OF v c p] d by auto
  then show ?thesis using s1 frame_compose by auto
qed

end

interpretation rq: run_queues enqueue dequeue queues ncpu qframe
proof unfold_locales
  fix s s' :: "'a kst" and qs :: "nat \<Rightarrow> nat list" and c d p
  assume q: "queues s qs" "c < ncpu s"
  show "\<forall>d<ncpu s. p \<notin> set (qs d) \<Longrightarrow>
      \<exists>s'. enqueue c p s = Inr s' \<and> queues s' (qs(c := qs c @ [p])) \<and> qframe s s'"
    by (rule enqueue_ok [OF q])
  show "p \<in> set (qs c) \<Longrightarrow>
      \<exists>s'. dequeue c p s = Inr (0, s') \<and> queues s' (qs(c := remove1 p (qs c))) \<and> qframe s s'"
    by (rule dequeue_hit [OF q])
  show "p \<notin> set (qs c) \<Longrightarrow> dequeue c p s = Inr (-1, s)" by (rule dequeue_miss [OF q])
  show "d < ncpu s \<Longrightarrow> p \<in> set (qs c) \<Longrightarrow> p \<in> set (qs d) \<Longrightarrow> c = d"
    using queuesD(4) [OF q, of d] by auto
  show "distinct (qs c)" by (rule queuesD(3) [OF q])
qed (auto simp: qframe_simps intro: qframe_trans)

section \<open>Load balancing\<close>

text \<open>
  The abstract effect of \<open>load_balance\<close> on the queues: on an E-core whose queue is at least
  three longer than that of the lightest P-core, the first movable process goes to the end
  of that P-core's queue.
\<close>

definition balanced :: "'r kst \<Rightarrow> nat \<Rightarrow> (nat \<Rightarrow> nat list) \<Rightarrow> (nat \<Rightarrow> nat list)" where
  "balanced s me qs =
     (case get_lightest_p_core s of
        None \<Rightarrow> qs
      | Some lp \<Rightarrow>
          if core_type (cpus s me) = CORE_E \<and> length (qs me) \<ge> length (qs lp) + 3
          then (case find (movable s) (qs me) of
                  None \<Rightarrow> qs
                | Some v \<Rightarrow> qs(me := remove1 v (qs me), lp := qs lp @ [v]))
          else qs)"

lemma load_balance_refines:
  assumes q: "queues s qs" and me: "me < ncpu s"
  shows "\<exists>s'. load_balance me s = Inr s' \<and> queues s' (balanced s me qs) \<and> qframe s s'"
proof (cases "core_type (cpus s me) = CORE_E")
  case False
  with q show ?thesis
    by (auto simp: load_balance_def balanced_def split: option.splits)
next
  case E: True
  show ?thesis
  proof (cases "get_lightest_p_core s")
    case None
    with q E show ?thesis by (auto simp: load_balance_def balanced_def)
  next
    case (Some lp)
    note lp = get_lightest_p_core_Some [OF Some]
    have ne: "lp \<noteq> me" using lp(2) E by auto
    have w: "find_in_queue (nx s) (movable s) (runq (cpus s me)) = Some (find (movable s) (qs me))"
      by (rule find_in_queue_eq [OF queuesD(1) [OF q me]])
    show ?thesis
    proof (cases "find (movable s) (qs me)")
      case None
      with Some E q w show ?thesis by (auto simp: load_balance_def balanced_def)
    next
      case (Some v)
      then have v: "v \<in> set (qs me)" by (auto simp: find_Some_iff)
      from rq.move [OF q me lp(1) v] ne obtain s' where
        "bindR (dequeue me v s) (\<lambda>(r, s1). enqueue lp v s1) = Inr s'"
        "queues s' (qs(me := remove1 v (qs me), lp := qs lp @ [v]))" "qframe s s'" by auto
      then show ?thesis
        using Some E q w \<open>get_lightest_p_core s = Some lp\<close> queuesD(2) [OF q me] queuesD(2) [OF q lp(1)]
        by (auto simp: load_balance_def balanced_def)
    qed
  qed
qed

lemma find_split: "find P xs = Some v \<Longrightarrow> \<exists>us vs. xs = us @ v # vs \<and> P v \<and> (\<forall>u\<in>set us. \<not> P u)"
proof (induction xs)
  case (Cons x xs)
  show ?case
  proof (cases "P x")
    case False
    with Cons obtain us vs where "xs = us @ v # vs" "P v" "\<forall>u\<in>set us. \<not> P u" by auto
    with False show ?thesis by (intro exI [of _ "x # us"] exI [of _ vs]) simp
  qed (use Cons in \<open>auto intro: exI [of _ "[]"]\<close>)
qed simp

section \<open>Properties\<close>

text \<open>
  C5: the pointer queues implement lists. On queues \<open>qs\<close> of any lengths, \<open>enqueue\<close> of a process
  that is on no queue appends it to the queue of the given CPU; \<open>dequeue\<close> of a process of that
  queue removes it wherever it stands and returns 0; \<open>dequeue\<close> of any other process returns -1
  and changes nothing. All walks end, the counts stay the lengths, the queues stay disjoint, and
  nothing but \<open>next_run\<close>, \<open>runq\<close> and \<open>queue_count\<close> changes.
\<close>

theorem run_queue_refines_lists:
  assumes "queues s qs" and "c < ncpu s"
  shows "((\<forall>d<ncpu s. p \<notin> set (qs d)) \<longrightarrow>
      (\<exists>s'. enqueue c p s = Inr s' \<and> queues s' (qs(c := qs c @ [p])) \<and> qframe s s')) \<and>
    (p \<in> set (qs c) \<longrightarrow>
      (\<exists>s'. dequeue c p s = Inr (0, s') \<and> queues s' (qs(c := remove1 p (qs c))) \<and> qframe s s')) \<and>
    (p \<notin> set (qs c) \<longrightarrow> dequeue c p s = Inr (-1, s))"
  using rq.enq_appends [OF assms] rq.deq_removes [OF assms] rq.deq_misses [OF assms] by blast


section \<open>Witnesses\<close>

lemma boot_queues: "queues (boot_kst n r) (\<lambda>_. [])"
  by (simp add: queues_def)

theorem run_queue_refines_lists_witness:
  "\<exists>s s'. enqueue 1 5 (boot_kst 2 ()) = Inr s \<and> queues s ((\<lambda>_. [])(1 := [5])) \<and> dequeue 1 5 (boot_kst 2 ()) = Inr (-1, s') \<and>
     (\<exists>t. dequeue 1 5 s = Inr (0, t) \<and> queues t (\<lambda>_. []))"
proof -
  have b: "queues (boot_kst 2 ()) (\<lambda>_. [])" by (rule boot_queues)
  obtain s where s: "enqueue 1 5 (boot_kst 2 ()) = Inr s" "queues s ((\<lambda>_. [])(1 := [5]))" "ncpu s = 2"
    using run_queue_refines_lists [OF b, of 1 5] by (auto simp: qframe_simps)
  have "\<exists>t. dequeue 1 5 s = Inr (0, t) \<and> queues t (\<lambda>_. [])"
    using run_queue_refines_lists [OF s(2), of 1 5] s(3) by (auto simp: fun_upd_idem)
  with s run_queue_refines_lists [OF b, of 1 5] show ?thesis by auto
qed

text \<open>An E-core with three processes and an idle P-core.\<close>

definition demo_heavy :: "unit kst" where
  "demo_heavy = upd_cpu 0 (\<lambda>k. k\<lparr>runq := Some 0, queue_count := 3\<rparr>)
     ((boot_kst 2 ())\<lparr>procs := (\<lambda>i. zero_proc\<lparr>pid := int i + 2, pstate := RUNNABLE,
        next_run := (if i < 2 then Some (Suc i) else None)\<rparr>)\<rparr>)"

lemma demo_heavy_queues: "queues demo_heavy ((\<lambda>_. [])(0 := [0, 1, 2]))"
  by (auto simp: queues_def nx_def demo_heavy_def)


end
