(* ===== verification/Spinlock.thy ===== *)
theory Spinlock
  imports ProcState
begin

text \<open>
  Spin locks and interrupt nesting (\<open>spinlock.c\<close>, \<open>mycpu\<close> of \<open>proc.c\<close>). The operations act
  on a lock and on the CPU that runs them (index \<open>me\<close>). Contention between CPUs is the step
  relation \<open>spin_step\<close>, whose steps are the atomic pieces of \<open>acquire\<close> and \<open>release\<close>.
\<close>

section \<open>Operations\<close>

text \<open>\<open>mycpu\<close> looks the local APIC id of the running processor up in the CPU table.\<close>

definition mycpu :: "(nat \<Rightarrow> u8) \<Rightarrow> nat \<Rightarrow> 'r kst \<Rightarrow> nat res" where
  "mycpu lapicid me s =
     (if ifl (cpus s me) then Inl (Panic ''mycpu called with interrupts enabled'')
      else case first_index (\<lambda>i. apicid (cpus s i) = lapicid me) (ncpu s) of
        Some i \<Rightarrow> Inr i
      | None \<Rightarrow> Inl (Panic ''unknown apicid''))"

definition initlock :: "string \<Rightarrow> spinlock" where
  "initlock name = \<lparr>locked = 0, lk_name = name, lk_cpu = None,
     acq_count = (\<lambda>i. 0), total_spins = (\<lambda>i. 0)\<rparr>"

definition FL_IF :: int where "FL_IF = 0x200"

definition pushcli :: "nat \<Rightarrow> 'r kst \<Rightarrow> 'r kst" where
  "pushcli me s =
     upd_cpu me (\<lambda>k. k\<lparr>ifl := False,
       intena := (if ncli k = 0 then (if ifl k then FL_IF else 0) else intena k),
       ncli := ncli k + 1\<rparr>) s"

definition popcli :: "nat \<Rightarrow> 'r kst \<Rightarrow> 'r kst res" where
  "popcli me s =
     (if ifl (cpus s me) then Inl (Panic ''popcli - interruptible'')
      else let n = ncli (cpus s me) - 1 in
        if n < 0 then Inl (Panic ''popcli'')
        else Inr (upd_cpu me (\<lambda>k. k\<lparr>ncli := n, ifl := (n = 0 \<and> intena k \<noteq> 0)\<rparr>) s))"

definition holding :: "nat \<Rightarrow> spinlock \<Rightarrow> 'r kst \<Rightarrow> (bool \<times> 'r kst) res" where
  "holding me lk s =
     (let s1 = pushcli me s; r = (locked lk \<noteq> 0 \<and> lk_cpu lk = Some me)
      in bindR (popcli me s1) (\<lambda>s2. Inr (r, s2)))"

text \<open>\<open>acquire\<close> in its atomic pieces: entry, one exchange, and the bookkeeping.\<close>

definition acquire_enter :: "nat \<Rightarrow> spinlock \<Rightarrow> 'r kst \<Rightarrow> 'r kst res" where
  "acquire_enter me lk s =
     bindR (holding me lk (pushcli me s))
       (\<lambda>(h, s2). if h then Inl (Panic ''acquire'') else Inr s2)"

definition xchg_locked :: "spinlock \<Rightarrow> u32 \<times> spinlock" where
  "xchg_locked lk = (locked lk, lk\<lparr>locked := 1\<rparr>)"

definition acquire_finish :: "nat \<Rightarrow> bool \<Rightarrow> nat \<Rightarrow> spinlock \<Rightarrow> spinlock" where
  "acquire_finish me is_tickslock spins lk =
     (let lk1 = lk\<lparr>lk_cpu := Some me\<rparr> in
      if is_tickslock
      then lk1\<lparr>acq_count := (acq_count lk1)(me := acq_count lk1 me + 1),
               total_spins := (total_spins lk1)(me := total_spins lk1 me + of_nat spins)\<rparr>
      else lk1)"

text \<open>The whole \<open>acquire\<close>; a lock another CPU holds keeps the caller spinning (\<open>Blocks\<close>).\<close>

definition acquire :: "nat \<Rightarrow> bool \<Rightarrow> spinlock \<Rightarrow> 'r kst \<Rightarrow> (spinlock \<times> 'r kst) res" where
  "acquire me is_tickslock lk s =
     bindR (acquire_enter me lk s)
       (\<lambda>s1. let (old, lk1) = xchg_locked lk in
          if old \<noteq> 0 then Inl Blocks
          else Inr (acquire_finish me is_tickslock 0 lk1, s1))"

definition release_begin :: "nat \<Rightarrow> spinlock \<Rightarrow> 'r kst \<Rightarrow> (spinlock \<times> 'r kst) res" where
  "release_begin me lk s =
     bindR (holding me lk s)
       (\<lambda>(h, s1). if \<not> h then Inl (Panic ''release'') else Inr (lk\<lparr>lk_cpu := None\<rparr>, s1))"

definition release_end :: "nat \<Rightarrow> spinlock \<Rightarrow> 'r kst \<Rightarrow> (spinlock \<times> 'r kst) res" where
  "release_end me lk s = bindR (popcli me s) (\<lambda>s1. Inr (lk\<lparr>locked := 0\<rparr>, s1))"

definition release :: "nat \<Rightarrow> spinlock \<Rightarrow> 'r kst \<Rightarrow> (spinlock \<times> 'r kst) res" where
  "release me lk s = bindR (release_begin me lk s) (\<lambda>(lk1, s1). release_end me lk1 s1)"

text \<open>The \<open>%ebp\<close> chain walk of \<open>getcallerpcs\<close> over a memory of words.\<close>

fun getcallerpcs_walk :: "(u32 \<Rightarrow> u32) \<Rightarrow> nat \<Rightarrow> u32 \<Rightarrow> u32 list" where
  "getcallerpcs_walk m 0 ebp = []"
| "getcallerpcs_walk m (Suc n) ebp =
     (if ebp = 0 \<or> ebp < KERNBASE \<or> ebp = 0xffffffff then replicate (Suc n) 0
      else m (ebp + 4) # getcallerpcs_walk m n (m ebp))"

definition getcallerpcs :: "(u32 \<Rightarrow> u32) \<Rightarrow> u32 \<Rightarrow> u32 list" where
  "getcallerpcs m v = getcallerpcs_walk m 10 (v - 8)"

lemma getcallerpcs_length: "length (getcallerpcs m v) = 10"
proof -
  have "length (getcallerpcs_walk m n ebp) = n" for n ebp
    by (induction n arbitrary: ebp) auto
  then show ?thesis by (simp add: getcallerpcs_def)
qed

section \<open>Interrupt nesting\<close>

lemma mycpu_self:
  assumes "\<not> ifl (cpus s me)" and "me < ncpu s" and "apicid (cpus s me) = lapicid me"
    and "\<forall>i<me. apicid (cpus s i) \<noteq> lapicid me"
  shows "mycpu lapicid me s = Inr me"
proof -
  have "first_index (\<lambda>i. apicid (cpus s i) = lapicid me) (ncpu s) = Some me"
    using assms by (simp add: first_index_Some)
  with assms(1) show ?thesis by (simp add: mycpu_def)
qed

text \<open>What every CPU keeps: the nesting depth is not negative, and nesting means interrupts off.\<close>

definition cli_ok :: "cpu \<Rightarrow> bool" where
  "cli_ok k \<longleftrightarrow> 0 \<le> ncli k \<and> (0 < ncli k \<longrightarrow> \<not> ifl k)"

text \<open>A state with the nesting of \<open>me\<close> one deeper, as \<open>acquire\<close> leaves it.\<close>

lemma popcli_pushcli:
  assumes "cli_ok (cpus s me)"
  shows "\<exists>s'. popcli me (pushcli me s) = Inr s' \<and>
     s' = upd_cpu me (\<lambda>k. k\<lparr>intena := intena (cpus s' me)\<rparr>) s"
proof -
  have "cpus s = (cpus s)(me := cpus s me)" by simp
  then show ?thesis
    using assms by (cases "cpus s me")
      (auto simp: popcli_def pushcli_def cli_ok_def Let_def upd_cpu_def FL_IF_def)
qed

lemma popcli_pushcli_nested:
  assumes "cli_ok (cpus s me)" and "0 < ncli (cpus s me)"
  shows "popcli me (pushcli me s) = Inr s"
proof -
  have "(cpus s)(me := cpus s me) = cpus s" by simp
  then show ?thesis using assms
    by (cases "cpus s me") (simp add: popcli_def pushcli_def cli_ok_def Let_def upd_cpu_def)
qed

lemma holding_nested:
  assumes "cli_ok (cpus s me)" and "0 < ncli (cpus s me)"
  shows "holding me lk s = Inr (locked lk \<noteq> 0 \<and> lk_cpu lk = Some me, s)"
  using popcli_pushcli_nested [OF assms] by (simp add: holding_def Let_def)

lemma pushcli_nested:
  "cli_ok (cpus s me) \<Longrightarrow> cli_ok (cpus (pushcli me s) me) \<and> 0 < ncli (cpus (pushcli me s) me)"
  by (simp add: cli_ok_def pushcli_def)

lemma acquire_enter_eq:
  assumes "cli_ok (cpus s me)"
  shows "acquire_enter me lk s =
     (if locked lk \<noteq> 0 \<and> lk_cpu lk = Some me then Inl (Panic ''acquire'') else Inr (pushcli me s))"
  using holding_nested [of "pushcli me s" me lk] pushcli_nested [OF assms]
  by (simp add: acquire_enter_def)

lemma acquire_eq:
  assumes "cli_ok (cpus s me)"
  shows "acquire me t lk s =
     (if locked lk = 0 then Inr (acquire_finish me t 0 (lk\<lparr>locked := 1\<rparr>), pushcli me s)
      else if lk_cpu lk = Some me then Inl (Panic ''acquire'') else Inl Blocks)"
  by (simp add: acquire_def acquire_enter_eq [OF assms] xchg_locked_def)

lemma release_eq:
  assumes "cli_ok (cpus s me)" and "0 < ncli (cpus s me)"
  shows "release me lk s =
     (if locked lk \<noteq> 0 \<and> lk_cpu lk = Some me
      then bindR (popcli me s) (\<lambda>s1. Inr (lk\<lparr>lk_cpu := None, locked := 0\<rparr>, s1))
      else Inl (Panic ''release''))"
  by (simp add: release_def release_begin_def release_end_def holding_nested [OF assms])

lemma popcli_ok:
  assumes "cli_ok (cpus s me)" and "0 < ncli (cpus s me)"
  shows "\<exists>s'. popcli me s = Inr s' \<and> cli_ok (cpus s' me) \<and> ncli (cpus s' me) = ncli (cpus s me) - 1"
  using assms by (auto simp: popcli_def cli_ok_def Let_def)

lemma pushcli_other:
  "procs (pushcli me s) = procs s" "ncpu (pushcli me s) = ncpu s"
  "d \<noteq> me \<Longrightarrow> cpus (pushcli me s) d = cpus s d"
  by (simp_all add: pushcli_def)

lemma popcli_other:
  assumes "popcli me s = Inr s'"
  shows "procs s' = procs s" "ncpu s' = ncpu s" "d \<noteq> me \<Longrightarrow> cpus s' d = cpus s d"
  using assms by (auto simp: popcli_def Let_def split: if_splits)

section \<open>Contention: CPUs competing for one lock\<close>

text \<open>
  Where a CPU is with respect to the lock: outside, spinning (with the number of failed
  exchanges), past a successful exchange, in the critical section, or past the clearing of
  \<open>lk->cpu\<close> in \<open>release\<close>. \<open>hist\<close> records every acquisition with its spin count.
\<close>

datatype spc = Out | Spin nat | Got nat | In | Leaving

record 'r spinsys =
  sp_lk :: spinlock
  sp_st :: "'r kst"
  sp_pc :: "nat \<Rightarrow> spc"
  hist :: "(nat \<times> nat) list"

inductive spin_step :: "bool \<Rightarrow> 'r spinsys \<Rightarrow> 'r spinsys \<Rightarrow> bool" for tks :: bool where
  enter: "c < ncpu (sp_st s) \<Longrightarrow> sp_pc s c = Out \<Longrightarrow> acquire_enter c (sp_lk s) (sp_st s) = Inr k \<Longrightarrow>
     spin_step tks s (s\<lparr>sp_st := k, sp_pc := (sp_pc s)(c := Spin 0)\<rparr>)"
| spin: "sp_pc s c = Spin n \<Longrightarrow> xchg_locked (sp_lk s) = (old, lk') \<Longrightarrow> old \<noteq> 0 \<Longrightarrow>
     spin_step tks s (s\<lparr>sp_lk := lk', sp_pc := (sp_pc s)(c := Spin (Suc n))\<rparr>)"
| take: "sp_pc s c = Spin n \<Longrightarrow> xchg_locked (sp_lk s) = (old, lk') \<Longrightarrow> old = 0 \<Longrightarrow>
     spin_step tks s (s\<lparr>sp_lk := lk', sp_pc := (sp_pc s)(c := Got n)\<rparr>)"
| finish: "sp_pc s c = Got n \<Longrightarrow>
     spin_step tks s (s\<lparr>sp_lk := acquire_finish c tks n (sp_lk s), sp_pc := (sp_pc s)(c := In),
                      hist := (c, n) # hist s\<rparr>)"
| leave: "sp_pc s c = In \<Longrightarrow> release_begin c (sp_lk s) (sp_st s) = Inr (lk', k) \<Longrightarrow>
     spin_step tks s (s\<lparr>sp_lk := lk', sp_st := k, sp_pc := (sp_pc s)(c := Leaving)\<rparr>)"
| unlock: "sp_pc s c = Leaving \<Longrightarrow> release_end c (sp_lk s) (sp_st s) = Inr (lk', k) \<Longrightarrow>
     spin_step tks s (s\<lparr>sp_lk := lk', sp_st := k, sp_pc := (sp_pc s)(c := Out)\<rparr>)"

inductive spin_reach :: "bool \<Rightarrow> string \<Rightarrow> 'r spinsys \<Rightarrow> bool" for tks :: bool and name :: string where
  init: "\<forall>c. cli_ok (cpus k c) \<Longrightarrow>
     spin_reach tks name \<lparr>sp_lk = initlock name, sp_st = k, sp_pc = (\<lambda>_. Out), hist = []\<rparr>"
| step: "spin_reach tks name s \<Longrightarrow> spin_step tks s t \<Longrightarrow> spin_reach tks name t"

definition owns :: "spc \<Rightarrow> bool" where
  "owns pc \<longleftrightarrow> (case pc of Out \<Rightarrow> False | Spin n \<Rightarrow> False | _ \<Rightarrow> True)"

definition acqs :: "nat \<Rightarrow> (nat \<times> nat) list \<Rightarrow> nat" where
  "acqs c h = length (filter (\<lambda>e. fst e = c) h)"

definition spun :: "nat \<Rightarrow> (nat \<times> nat) list \<Rightarrow> nat" where
  "spun c h = sum_list (map snd (filter (\<lambda>e. fst e = c) h))"

definition spin_inv :: "bool \<Rightarrow> 'r spinsys \<Rightarrow> bool" where
  "spin_inv tks s \<longleftrightarrow>
     (locked (sp_lk s) \<noteq> 0 \<longleftrightarrow> (\<exists>c. owns (sp_pc s c))) \<and>
     (\<forall>c d. owns (sp_pc s c) \<longrightarrow> owns (sp_pc s d) \<longrightarrow> c = d) \<and>
     (\<forall>c. lk_cpu (sp_lk s) = Some c \<longleftrightarrow> sp_pc s c = In) \<and>
     (\<forall>c. cli_ok (cpus (sp_st s) c) \<and> (sp_pc s c \<noteq> Out \<longrightarrow> 0 < ncli (cpus (sp_st s) c))) \<and>
     (tks \<longrightarrow> (\<forall>c. acq_count (sp_lk s) c = of_nat (acqs c (hist s)) \<and>
                   total_spins (sp_lk s) c = of_nat (spun c (hist s))))"

lemma owns_simps [simp]:
  "\<not> owns Out" "\<not> owns (Spin n)" "owns (Got n)" "owns In" "owns Leaving"
  by (simp_all add: owns_def)

lemma spin_init_inv:
  "\<forall>c. cli_ok (cpus k c) \<Longrightarrow>
   spin_inv tks \<lparr>sp_lk = initlock name, sp_st = k, sp_pc = (\<lambda>_. Out), hist = []\<rparr>"
  by (simp add: spin_inv_def initlock_def acqs_def spun_def)

lemma spin_invD:
  assumes "spin_inv tks s"
  shows "locked (sp_lk s) \<noteq> 0 \<longleftrightarrow> (\<exists>c. owns (sp_pc s c))"
    and "\<And>c d. owns (sp_pc s c) \<Longrightarrow> owns (sp_pc s d) \<Longrightarrow> c = d"
    and "\<And>c. lk_cpu (sp_lk s) = Some c \<longleftrightarrow> sp_pc s c = In"
    and "\<And>c. cli_ok (cpus (sp_st s) c)"
    and "\<And>c. sp_pc s c \<noteq> Out \<Longrightarrow> 0 < ncli (cpus (sp_st s) c)"
  using assms unfolding spin_inv_def by blast+

text \<open>In a state that satisfies the invariant, the operations of \<open>c\<close> do not panic.\<close>

lemma spin_inv_enter:
  assumes "spin_inv tks s" and "sp_pc s c = Out"
  shows "acquire_enter c (sp_lk s) (sp_st s) = Inr (pushcli c (sp_st s))"
proof -
  have "lk_cpu (sp_lk s) \<noteq> Some c" using spin_invD(3) [OF assms(1), of c] assms(2) by simp
  then show ?thesis using acquire_enter_eq [OF spin_invD(4) [OF assms(1)]] by simp
qed

lemma spin_inv_leave:
  assumes "spin_inv tks s" and "sp_pc s c = In"
  shows "release_begin c (sp_lk s) (sp_st s) = Inr ((sp_lk s)\<lparr>lk_cpu := None\<rparr>, sp_st s)"
proof -
  have "locked (sp_lk s) \<noteq> 0" "lk_cpu (sp_lk s) = Some c"
    using spin_invD(1,3) [OF assms(1)] assms(2) owns_simps(4) by metis+
  moreover have "0 < ncli (cpus (sp_st s) c)" using spin_invD(5) [OF assms(1)] assms(2) by simp
  ultimately show ?thesis
    using holding_nested [OF spin_invD(4) [OF assms(1)]] by (simp add: release_begin_def)
qed

lemma spin_inv_unlock:
  assumes "spin_inv tks s" and "sp_pc s c = Leaving"
  shows "\<exists>k. release_end c (sp_lk s) (sp_st s) = Inr ((sp_lk s)\<lparr>locked := 0\<rparr>, k) \<and>
    cli_ok (cpus k c) \<and> (\<forall>d. d \<noteq> c \<longrightarrow> cpus k d = cpus (sp_st s) d)"
proof -
  have "0 < ncli (cpus (sp_st s) c)" using spin_invD(5) [OF assms(1)] assms(2) by simp
  then obtain k where "popcli c (sp_st s) = Inr k" "cli_ok (cpus k c)"
    using popcli_ok [OF spin_invD(4) [OF assms(1)]] by blast
  then show ?thesis using popcli_other(3) by (fastforce simp: release_end_def)
qed

lemma spin_inv_same:
  assumes inv: "spin_inv tks s" 
    and lk: "(locked lk' \<noteq> 0) = (locked (sp_lk s) \<noteq> 0)" "lk_cpu lk' = lk_cpu (sp_lk s)"
       "acq_count lk' = acq_count (sp_lk s)" "total_spins lk' = total_spins (sp_lk s)"
    and pc: "\<not> owns (sp_pc s c)" "\<not> owns pc'" 
    and k: "cli_ok (cpus k c)" "pc' \<noteq> Out \<Longrightarrow> 0 < ncli (cpus k c)" "\<And>d. d \<noteq> c \<Longrightarrow> cpus k d = cpus (sp_st s) d"
  shows "spin_inv tks (s\<lparr>sp_lk := lk', sp_st := k, sp_pc := (sp_pc s)(c := pc')\<rparr>)"
proof -
  define P where "P = (sp_pc s)(c := pc')"
  have o': "owns (P d) = owns (sp_pc s d)" for d using pc by (simp add: P_def)
  have i: "(P d = In) = (sp_pc s d = In)" for d
    using pc by (cases "d = c") (auto simp: P_def)
  have c: "cli_ok (cpus k d) \<and> (P d \<noteq> Out \<longrightarrow> 0 < ncli (cpus k d))" for d
    using k spin_invD(4,5) [OF inv, of d] by (cases "d = c") (auto simp: P_def)
  show ?thesis unfolding spin_inv_def P_def [symmetric]
    by (intro conjI) (use inv c in \<open>simp_all add: lk o' i spin_inv_def\<close>)
qed

lemma spin_inv_owner:
  assumes inv: "spin_inv tks s" and others: "\<And>d. d \<noteq> c \<Longrightarrow> \<not> owns (sp_pc s d)"
    and pc: "owns pc'" and lk: "locked lk' \<noteq> 0" "lk_cpu lk' = (if pc' = In then Some c else None)"
    and k: "0 < ncli (cpus (sp_st s) c)"
    and st: "tks \<Longrightarrow> \<forall>d. acq_count lk' d = of_nat (acqs d h) \<and> total_spins lk' d = of_nat (spun d h)"
  shows "spin_inv tks (s\<lparr>sp_lk := lk', sp_pc := (sp_pc s)(c := pc'), hist := h\<rparr>)"
proof -
  define P where "P = (sp_pc s)(c := pc')"
  have o': "owns (P d) = (d = c)" for d using pc others by (simp add: P_def)
  have i: "(P d = In) = (d = c \<and> pc' = In)" for d
    using others [of d] by (cases "d = c") (auto simp: P_def)
  have cl: "cli_ok (cpus (sp_st s) d) \<and> (P d \<noteq> Out \<longrightarrow> 0 < ncli (cpus (sp_st s) d))" for d
    using k spin_invD(4,5) [OF inv, of d] by (cases "d = c") (auto simp: P_def)
  show ?thesis unfolding spin_inv_def P_def [symmetric]
    by (intro conjI) (use cl st lk in \<open>auto simp: o' i\<close>)
qed

lemma spin_inv_stats:
  "spin_inv tks s \<Longrightarrow> tks \<Longrightarrow> acq_count (sp_lk s) d = of_nat (acqs d (hist s)) \<and>
     total_spins (sp_lk s) d = of_nat (spun d (hist s))"
  by (simp add: spin_inv_def)

lemma spin_step_inv:
  assumes "spin_step tks s t" and inv: "spin_inv tks s"
  shows "spin_inv tks t"
  using assms(1)
proof cases
  case (enter c k)
  then have k: "k = pushcli c (sp_st s)" using spin_inv_enter [OF inv] by simp
  have "spin_inv tks (s\<lparr>sp_lk := sp_lk s, sp_st := k, sp_pc := (sp_pc s)(c := Spin 0)\<rparr>)"
    by (rule spin_inv_same [OF inv])
      (use enter(3) pushcli_nested [OF spin_invD(4) [OF inv]] in \<open>simp_all add: k pushcli_other\<close>)
  then show ?thesis by (simp add: enter(1))
next
  case (spin c n old lk')
  have "spin_inv tks (s\<lparr>sp_lk := lk', sp_st := sp_st s, sp_pc := (sp_pc s)(c := Spin (Suc n))\<rparr>)"
    by (rule spin_inv_same [OF inv])
      (use spin spin_invD(4,5) [OF inv, of c] in \<open>auto simp: xchg_locked_def\<close>)
  then show ?thesis by (simp add: spin(1))
next
  case (take c n old lk')
  have none: "\<not> owns (sp_pc s d)" for d using take(3,4) spin_invD(1) [OF inv] by (auto simp: xchg_locked_def)
  have cpu: "lk_cpu (sp_lk s) = None" using spin_invD(3) [OF inv] none owns_simps(4) by (metis not_None_eq)
  have "spin_inv tks (s\<lparr>sp_lk := lk', sp_pc := (sp_pc s)(c := Got n), hist := hist s\<rparr>)"
    by (rule spin_inv_owner [OF inv none])
      (use take spin_invD(5) [OF inv, of c] spin_inv_stats [OF inv] cpu in \<open>auto simp: xchg_locked_def\<close>)
  then show ?thesis by (simp add: take(1))
next
  case (finish c n)
  have oth: "\<not> owns (sp_pc s d)" if "d \<noteq> c" for d
    using spin_invD(2) [OF inv, of c d] finish(2) that by auto
  have lkd: "locked (sp_lk s) \<noteq> 0" using spin_invD(1) [OF inv] finish(2) owns_simps(3) by metis
  have "spin_inv tks (s\<lparr>sp_lk := acquire_finish c tks n (sp_lk s), sp_pc := (sp_pc s)(c := In),
      hist := (c, n) # hist s\<rparr>)"
    by (rule spin_inv_owner [OF inv oth])
      (use finish(2) spin_invD(5) [OF inv, of c] spin_inv_stats [OF inv] lkd
        in \<open>auto simp: acquire_finish_def Let_def acqs_def spun_def\<close>)
  then show ?thesis by (simp add: finish(1))
next
  case (leave c lk' k)
  then have eq: "lk' = (sp_lk s)\<lparr>lk_cpu := None\<rparr>" "k = sp_st s" using spin_inv_leave [OF inv] by auto
  have oth: "\<not> owns (sp_pc s d)" if "d \<noteq> c" for d
    using spin_invD(2) [OF inv, of c d] leave(2) that by auto
  have lkd: "locked (sp_lk s) \<noteq> 0" using spin_invD(1) [OF inv] leave(2) owns_simps(4) by metis
  have "spin_inv tks (s\<lparr>sp_lk := lk', sp_pc := (sp_pc s)(c := Leaving), hist := hist s\<rparr>)"
    by (rule spin_inv_owner [OF inv oth])
      (use leave(2) spin_invD(5) [OF inv, of c] spin_inv_stats [OF inv] lkd in \<open>auto simp: eq\<close>)
  then show ?thesis by (simp add: leave(1) eq)
next
  case (unlock c lk' k)
  then have eq: "lk' = (sp_lk s)\<lparr>locked := 0\<rparr>" "cli_ok (cpus k c)"
    "\<And>d. d \<noteq> c \<Longrightarrow> cpus k d = cpus (sp_st s) d"
    using spin_inv_unlock [OF inv unlock(2)] by auto
  have oth: "\<not> owns (sp_pc s d)" if "d \<noteq> c" for d
    using spin_invD(2) [OF inv, of c d] unlock(2) that by auto
  have none: "\<not> owns (((sp_pc s)(c := Out)) d)" for d using oth by simp
  have cpu: "lk_cpu (sp_lk s) = None"
    using spin_invD(3) [OF inv] oth owns_simps(4) unlock(2) by (metis not_None_eq spc.distinct(19))
  have i: "((sp_pc s)(c := Out)) d \<noteq> In" for d using none [of d] by auto
  have cl: "cli_ok (cpus k d) \<and> (((sp_pc s)(c := Out)) d \<noteq> Out \<longrightarrow> 0 < ncli (cpus k d))" for d
    using eq spin_invD(4,5) [OF inv, of d] by (cases "d = c") auto
  show ?thesis unfolding unlock(1) spin_inv_def
    by (intro conjI) (use cl none i cpu spin_inv_stats [OF inv] in \<open>simp_all add: eq(1)\<close>)
qed

lemma spin_reach_inv: "spin_reach tks name s \<Longrightarrow> spin_inv tks s"
  by (induction rule: spin_reach.induct) (auto intro: spin_init_inv spin_step_inv)

section \<open>Properties\<close>

text \<open>
  C4: mutual exclusion. Whatever the interleaving of CPUs on one spin lock, at most one of
  them is between its successful exchange and the end of \<open>release\<close>; the lock word is set
  exactly then; and \<open>lk->cpu\<close> names the CPU that is in the critical section.
\<close>

theorem spinlock_mutual_exclusion:
  assumes "spin_reach tks name s" and "owns (sp_pc s c)"
  shows "(\<forall>d. owns (sp_pc s d) \<longrightarrow> d = c) \<and> locked (sp_lk s) \<noteq> 0 \<and>
    (lk_cpu (sp_lk s) = Some c \<longleftrightarrow> sp_pc s c = In) \<and> \<not> ifl (cpus (sp_st s) c)"
proof -
  note inv = spin_reach_inv [OF assms(1)]
  have "0 < ncli (cpus (sp_st s) c)" by (rule spin_invD(5) [OF inv]) (use assms(2) in auto)
  then have "\<not> ifl (cpus (sp_st s) c)" using spin_invD(4) [OF inv, of c] by (simp add: cli_ok_def)
  then show ?thesis using spin_invD(1-3) [OF inv] assms(2) by blast
qed

text \<open>
  the counters \<open>getlockstat\<close> reports. For the ticks lock, in every reachable state and
  for every CPU, \<open>acq_count\<close> is the number of acquisitions made on that CPU and \<open>total_spins\<close>
  the number of failed exchanges that preceded them (both modulo \<open>2^32\<close>).
\<close>

lemma lockstat_counts:
  assumes "spin_reach True name s"
  shows "acq_count (sp_lk s) c = of_nat (acqs c (hist s)) \<and>
    total_spins (sp_lk s) c = of_nat (spun c (hist s))"
  using spin_inv_stats [OF spin_reach_inv [OF assms]] by simp

text \<open>
  C14: \<open>acquire\<close> of a free lock succeeds with interrupts off and the caller recorded as the
  holder, a second \<open>acquire\<close> by the same CPU panics, and the matching \<open>release\<close> frees the
  lock and restores the interrupt flag and the nesting depth the caller had.
\<close>

theorem acquire_release_roundtrip:
  assumes "cli_ok (cpus s me)" and "locked lk = 0"
  shows "\<exists>lk1 s1 lk2 s2. acquire me t lk s = Inr (lk1, s1) \<and> \<not> ifl (cpus s1 me) \<and>
    lk_cpu lk1 = Some me \<and> acquire me t lk1 s1 = Inl (Panic ''acquire'') \<and>
    release me lk1 s1 = Inr (lk2, s2) \<and> locked lk2 = 0 \<and> lk_cpu lk2 = None \<and>
    ifl (cpus s2 me) = ifl (cpus s me) \<and> ncli (cpus s2 me) = ncli (cpus s me) \<and>
    procs s2 = procs s \<and> release me lk2 s1 = Inl (Panic ''release'')"
proof -
  define s1 where "s1 = pushcli me s"
  define lk1 where "lk1 = acquire_finish me t 0 (lk\<lparr>locked := 1\<rparr>)"
  have c1: "cli_ok (cpus s1 me)" "0 < ncli (cpus s1 me)"
    unfolding s1_def using pushcli_nested [OF assms(1)] by auto
  have lk1: "locked lk1 = 1" "lk_cpu lk1 = Some me"
    by (simp_all add: lk1_def acquire_finish_def Let_def)
  obtain s2 where s2: "popcli me s1 = Inr s2" "s2 = upd_cpu me (\<lambda>k. k\<lparr>intena := intena (cpus s2 me)\<rparr>) s"
    using popcli_pushcli [OF assms(1)] s1_def by auto
  have s2': "ifl (cpus s2 me) = ifl (cpus s me)" "ncli (cpus s2 me) = ncli (cpus s me)" "procs s2 = procs s"
    by (subst s2(2), simp)+
  show ?thesis
    using acquire_eq [OF assms(1), of t lk] acquire_eq [OF c1(1), of t lk1] release_eq [OF c1]
      assms(2) c1 lk1 s2(1) s2'
    by (auto simp: s1_def [symmetric] lk1_def [symmetric] cli_ok_def)
qed

lemma spin_demo:
  "\<exists>s :: unit spinsys. spin_reach True ''time'' s \<and> sp_pc s 0 = In \<and> hist s = [(0, 0)]"
proof -
  let ?k = "boot_kst 2 () :: unit kst"
  let ?s0 = "\<lparr>sp_lk = initlock ''time'', sp_st = ?k, sp_pc = (\<lambda>_. Out), hist = []\<rparr> :: unit spinsys"
  have r0: "spin_reach True ''time'' ?s0" by (rule spin_reach.init) (simp add: cli_ok_def)
  have "acquire_enter 0 (sp_lk ?s0) (sp_st ?s0) = Inr (pushcli 0 ?k)"
    by (simp add: acquire_enter_eq cli_ok_def initlock_def)
  from spin_reach.step [OF r0 spin_step.enter [OF _ _ this]]
  have r1: "spin_reach True ''time'' (?s0\<lparr>sp_st := pushcli 0 ?k, sp_pc := (\<lambda>_. Out)(0 := Spin 0)\<rparr>)"
    (is "spin_reach _ _ ?s1") by simp
  have "xchg_locked (sp_lk ?s1) = (0, (initlock ''time'')\<lparr>locked := 1\<rparr>)"
    by (simp add: xchg_locked_def initlock_def)
  from spin_reach.step [OF r1 spin_step.take [OF _ this, where c = 0 and n = 0]]
  have r2: "spin_reach True ''time'' (?s1\<lparr>sp_lk := (initlock ''time'')\<lparr>locked := 1\<rparr>,
      sp_pc := (\<lambda>_. Out)(0 := Got 0)\<rparr>)" (is "spin_reach _ _ ?s2") by simp
  have "spin_reach True ''time'' (?s2\<lparr>sp_lk := acquire_finish 0 True 0 (sp_lk ?s2),
      sp_pc := (sp_pc ?s2)(0 := In), hist := (0, 0) # hist ?s2\<rparr>)" (is "spin_reach _ _ ?s3")
    by (rule spin_reach.step [OF r2 spin_step.finish]) simp
  then show ?thesis by (intro exI [of _ ?s3] conjI) simp_all
qed

theorem spinlock_mutual_exclusion_witness:
  "\<exists>s :: unit spinsys. spin_reach True ''time'' s \<and> owns (sp_pc s 0) \<and>
     (\<forall>d. owns (sp_pc s d) \<longrightarrow> d = 0) \<and> lk_cpu (sp_lk s) = Some 0"
proof -
  obtain s :: "unit spinsys" where s: "spin_reach True ''time'' s" "sp_pc s 0 = In"
    using spin_demo by blast
  then have "owns (sp_pc s 0)" by simp
  with spinlock_mutual_exclusion [OF s(1), of 0] s show ?thesis by blast
qed

theorem acquire_release_roundtrip_witness:
  "cli_ok (cpus (boot_kst 2 ()) 0) \<and> locked (initlock ''x'') = 0 \<and>
   (\<exists>lk1 s1 lk2 s2. acquire 0 False (initlock ''x'') (boot_kst 2 ()) = Inr (lk1, s1) \<and>
      release 0 lk1 s1 = Inr (lk2, s2) \<and> locked lk2 = 0 \<and> ncli (cpus s2 0) = 0)"
proof -
  have h: "cli_ok (cpus (boot_kst 2 ()) 0)" "locked (initlock ''x'') = 0"
    by (simp_all add: cli_ok_def initlock_def)
  from acquire_release_roundtrip [OF h, of False] show ?thesis using h by auto
qed

end
