(* ===== verification/Sched.thy ===== *)
theory Sched
  imports RunQueue Spinlock
begin

text \<open>
  The scheduler of \<open>proc.c\<close> (one round of \<open>scheduler\<close>, \<open>sched\<close>, \<open>yield\<close>, \<open>sleep\<close>, \<open>wakeup\<close>,
  \<open>kill\<close>) and the address-space switch of \<open>vm.c\<close>. A function that calls \<open>sched\<close> is two
  definitions: what runs before the context switch (together with the scheduler's code
  after its own \<open>swtch\<close>, which runs next on that CPU) and a \<open>_resume\<close> part, which runs when
  a CPU switches back to the process.
\<close>

section \<open>Operations\<close>

definition acquire_pt :: "nat \<Rightarrow> 'r kst \<Rightarrow> 'r kst res" where
  "acquire_pt me s =
     bindR (acquire me False (ptable_lock s) s) (\<lambda>(lk, s1). Inr (s1\<lparr>ptable_lock := lk\<rparr>))"

definition release_pt :: "nat \<Rightarrow> 'r kst \<Rightarrow> 'r kst res" where
  "release_pt me s =
     bindR (release me (ptable_lock s) s) (\<lambda>(lk, s1). Inr (s1\<lparr>ptable_lock := lk\<rparr>))"

text \<open>\<open>switchuvm\<close> loads the task state and the page table of a process, \<open>switchkvm\<close> the kernel's.\<close>

definition switchuvm :: "nat \<Rightarrow> nat \<Rightarrow> 'r kst \<Rightarrow> 'r kst res" where
  "switchuvm me p s =
     (if kstack (procs s p) = 0 then Inl (Panic ''switchuvm: no kstack'')
      else if pgdir (procs s p) = 0 then Inl (Panic ''switchuvm: no pgdir'')
      else popcli me
        (upd_cpu me (\<lambda>k. k\<lparr>ts_ss0 := 2 * 8, ts_esp0 := kstack (procs s p) + KSTACKSIZE,
                          ts_iomb := 0xFFFF, cr3 := V2P (pgdir (procs s p))\<rparr>)
           (pushcli me s)))"

definition switchkvm :: "nat \<Rightarrow> 'r kst \<Rightarrow> 'r kst" where
  "switchkvm me s = upd_cpu me (\<lambda>k. k\<lparr>cr3 := V2P (kpgdir s)\<rparr>) s"

text \<open>The walk of a P-core: among the runnable processes, the first with the least creation time.\<close>

partial_function (option) oldest_in_queue ::
  "('a \<Rightarrow> 'a option) \<Rightarrow> ('a \<Rightarrow> bool) \<Rightarrow> ('a \<Rightarrow> u32) \<Rightarrow> 'a option \<Rightarrow> 'a option \<Rightarrow> 'a option option" where
  "oldest_in_queue nxt P ct oldest cur =
     (case cur of
        None \<Rightarrow> Some oldest
      | Some i \<Rightarrow>
          oldest_in_queue nxt P ct
            (if P i \<and> (case oldest of None \<Rightarrow> True | Some j \<Rightarrow> ct i < ct j) then Some i else oldest)
            (nxt i))"

abbreviation runnable :: "'r kst \<Rightarrow> nat \<Rightarrow> bool" where
  "runnable s i \<equiv> pstate (procs s i) = RUNNABLE"

definition sched_choose :: "nat \<Rightarrow> 'r kst \<Rightarrow> nat option res" where
  "sched_choose me s =
     of_opt Diverges
       (if core_type (cpus s me) = CORE_E
        then find_in_queue (nx s) (runnable s) (runq (cpus s me))
        else oldest_in_queue (nx s) (runnable s) (\<lambda>i. ctime (procs s i)) None (runq (cpus s me)))"

text \<open>
  One round of the scheduler's loop. \<open>Some p\<close>: the CPU has switched to process \<open>p\<close>, the table
  lock still held; \<open>None\<close>: there was nothing to run and the lock is released.
\<close>

definition scheduler_dispatch :: "nat \<Rightarrow> nat \<Rightarrow> 'r kst \<Rightarrow> 'r kst res" where
  "scheduler_dispatch me p s =
     (let s1 = upd_cpu me (\<lambda>k. k\<lparr>cproc := Some p\<rparr>) s;
          s2 = upd_proc p (\<lambda>q. q\<lparr>slice_ticks := 0\<rparr>) s1
      in bindR (switchuvm me p s2) (\<lambda>s3. Inr (upd_proc p (\<lambda>q. q\<lparr>pstate := RUNNING\<rparr>) s3)))"

definition scheduler :: "nat \<Rightarrow> 'r kst \<Rightarrow> (nat option \<times> 'r kst) res" where
  "scheduler me s0 =
     (let s = upd_cpu me (\<lambda>k. k\<lparr>ifl := True\<rparr>) s0 in
      bindR (acquire_pt me s) (\<lambda>s1.
      bindR (if core_type (cpus s1 me) = CORE_E \<and> ticks s1 mod 5 = 0
             then load_balance me s1 else Inr s1) (\<lambda>s2.
      bindR (sched_choose me s2) (\<lambda>p.
      bindR (case p of
               None \<Rightarrow> Inr (None, s2)
             | Some q \<Rightarrow> bindR (dequeue me q s2)
                 (\<lambda>(r, s3). Inr (if r \<noteq> 0 then (None, s3) else (Some q, s3)))) (\<lambda>(p, s3).
      case p of
        Some q \<Rightarrow> bindR (scheduler_dispatch me q s3) (\<lambda>s4. Inr (Some q, s4))
      | None \<Rightarrow> bindR (release_pt me s3) (\<lambda>s4. Inr (None, s4)))))))"

text \<open>The scheduler's code after a process has switched back to it, up to the end of the round.\<close>

definition scheduler_back :: "nat \<Rightarrow> 'r kst \<Rightarrow> 'r kst res" where
  "scheduler_back me s =
     release_pt me (upd_cpu me (\<lambda>k. k\<lparr>cproc := None\<rparr>) (switchkvm me s))"

definition sched :: "nat \<Rightarrow> 'r kst \<Rightarrow> (int \<times> 'r kst) res" where
  "sched me s =
     (case myproc me s of
        None \<Rightarrow> Inl NullDeref
      | Some p \<Rightarrow>
          bindR (holding me (ptable_lock s) s) (\<lambda>(h, s).
            if \<not> h then Inl (Panic ''sched ptable.lock'')
            else if ncli (cpus s me) \<noteq> 1 then Inl (Panic ''sched locks'')
            else if pstate (procs s p) = RUNNING then Inl (Panic ''sched running'')
            else if ifl (cpus s me) then Inl (Panic ''sched interruptible'')
            else bindR (scheduler_back me s) (\<lambda>s'. Inr (intena (cpus s me), s'))))"

definition sched_resume :: "nat \<Rightarrow> int \<Rightarrow> 'r kst \<Rightarrow> 'r kst" where
  "sched_resume me saved s = upd_cpu me (\<lambda>k. k\<lparr>intena := saved\<rparr>) s"

definition yield :: "nat \<Rightarrow> 'r kst \<Rightarrow> (int \<times> 'r kst) res" where
  "yield me s =
     bindR (acquire_pt me s) (\<lambda>s1.
     case myproc me s1 of
       None \<Rightarrow> Inl NullDeref
     | Some p \<Rightarrow>
         bindR (enqueue me p (upd_proc p (\<lambda>q. q\<lparr>pstate := RUNNABLE\<rparr>) s1)) (\<lambda>s2.
         sched me s2))"

definition yield_resume :: "nat \<Rightarrow> int \<Rightarrow> 'r kst \<Rightarrow> 'r kst res" where
  "yield_resume me saved s = release_pt me (sched_resume me saved s)"

text \<open>The lock argument of \<open>sleep\<close>: null, the table lock itself, or another lock.\<close>

datatype lkarg = NullLk | PtableLk | OtherLk spinlock

definition sleep :: "nat \<Rightarrow> chan option \<Rightarrow> lkarg \<Rightarrow> 'r kst \<Rightarrow> (lkarg \<times> int \<times> 'r kst) res" where
  "sleep me ch lk s =
     (case myproc me s of
        None \<Rightarrow> Inl (Panic ''sleep'')
      | Some p \<Rightarrow>
          bindR (case lk of
                   NullLk \<Rightarrow> Inl (Panic ''sleep without lk'')
                 | PtableLk \<Rightarrow> Inr (PtableLk, s)
                 | OtherLk l \<Rightarrow> bindR (acquire_pt me s) (\<lambda>s1.
                     bindR (release me l s1) (\<lambda>(l', s2). Inr (OtherLk l', s2))))
            (\<lambda>(lk', s2).
              bindR (sched me (upd_proc p (\<lambda>q. q\<lparr>pchan := ch, pstate := SLEEPING\<rparr>) s2))
                (\<lambda>(saved, s3). Inr (lk', saved, s3))))"

definition sleep_resume :: "nat \<Rightarrow> int \<Rightarrow> lkarg \<Rightarrow> 'r kst \<Rightarrow> (lkarg \<times> 'r kst) res" where
  "sleep_resume me saved lk s =
     (case myproc me s of
        None \<Rightarrow> Inl NullDeref
      | Some p \<Rightarrow>
          let s1 = upd_proc p (\<lambda>q. q\<lparr>pchan := None\<rparr>) (sched_resume me saved s) in
          case lk of
            OtherLk l \<Rightarrow> bindR (release_pt me s1) (\<lambda>s2.
              bindR (acquire me False l s2) (\<lambda>(l', s3). Inr (OtherLk l', s3)))
          | _ \<Rightarrow> Inr (lk, s1))"

definition wakeup1_at :: "chan option \<Rightarrow> nat \<Rightarrow> 'r kst \<Rightarrow> 'r kst res" where
  "wakeup1_at ch i s =
     (if pstate (procs s i) = SLEEPING \<and> pchan (procs s i) = ch
      then let s1 = upd_proc i (\<lambda>q. q\<lparr>pstate := RUNNABLE\<rparr>) s
           in enqueue (get_least_loaded_e_core s1) i s1
      else Inr s)"

definition wakeup1 :: "chan option \<Rightarrow> 'r kst \<Rightarrow> 'r kst res" where
  "wakeup1 ch s = foldR (wakeup1_at ch) [0..<NPROC] s"

definition wakeup :: "nat \<Rightarrow> chan option \<Rightarrow> 'r kst \<Rightarrow> 'r kst res" where
  "wakeup me ch s =
     bindR (acquire_pt me s) (\<lambda>s1. bindR (wakeup1 ch s1) (\<lambda>s2. release_pt me s2))"

definition kill_proc :: "proc \<Rightarrow> proc" where
  "kill_proc q = q\<lparr>killed := 1, pstate := (if pstate q = SLEEPING then RUNNABLE else pstate q)\<rparr>"

definition kill :: "nat \<Rightarrow> int \<Rightarrow> 'r kst \<Rightarrow> (int \<times> 'r kst) res" where
  "kill me pd s =
     bindR (acquire_pt me s) (\<lambda>s1.
       case first_index (\<lambda>i. pid (procs s1 i) = pd) NPROC of
         Some i \<Rightarrow> bindR (release_pt me (upd_proc i kill_proc s1)) (\<lambda>s2. Inr (0, s2))
       | None \<Rightarrow> bindR (release_pt me s1) (\<lambda>s2. Inr (-1, s2)))"

section \<open>What locking leaves alone\<close>

text \<open>Taking and releasing a lock changes only the locks and the interrupt bookkeeping of CPUs.\<close>

definition lk_erase :: "'r kst \<Rightarrow> 'r kst" where
  "lk_erase s = s\<lparr>ptable_lock := free_lock [], tickslock := free_lock [],
     cpus := (\<lambda>c. (cpus s c)\<lparr>ncli := 0, intena := 0, ifl := False\<rparr>)\<rparr>"

definition lframe :: "'r kst \<Rightarrow> 'r kst \<Rightarrow> bool" where
  "lframe s s' \<longleftrightarrow> lk_erase s' = lk_erase s"

lemma lframe_trans: "lframe s t \<Longrightarrow> lframe t u \<Longrightarrow> lframe s u"
  by (simp add: lframe_def)

lemma lk_erase_simps:
  "procs (lk_erase s) = procs s" "ncpu (lk_erase s) = ncpu s" "ticks (lk_erase s) = ticks s"
  "initproc (lk_erase s) = initproc s" "nextpid (lk_erase s) = nextpid s" "res (lk_erase s) = res s"
  "kpgdir (lk_erase s) = kpgdir s" "metrics_active (lk_erase s) = metrics_active s"
  "metrics_start_tick (lk_erase s) = metrics_start_tick s"
  "metrics_proc_completed (lk_erase s) = metrics_proc_completed s"
  "cpus (lk_erase s) c = (cpus s c)\<lparr>ncli := 0, intena := 0, ifl := False\<rparr>"
  by (simp_all add: lk_erase_def)

lemma lframe_globals:
  assumes "lframe s s'"
  shows "procs s' = procs s" "ncpu s' = ncpu s" "ticks s' = ticks s" "initproc s' = initproc s"
    "nextpid s' = nextpid s" "res s' = res s" "kpgdir s' = kpgdir s" "nx s' = nx s"
    "metrics_active s' = metrics_active s" "metrics_start_tick s' = metrics_start_tick s"
    "metrics_proc_completed s' = metrics_proc_completed s"
  using lk_erase_simps [of s] lk_erase_simps [of s'] assms by (simp_all add: lframe_def nx_def)

lemma cpu_erase_cli_eq:
  assumes "k\<lparr>ncli := 0, intena := 0, ifl := False\<rparr> = l\<lparr>ncli := 0, intena := 0, ifl := False\<rparr>"
  shows "k = l\<lparr>ncli := ncli k, intena := intena k, ifl := ifl k\<rparr>"
  using assms by (cases k, cases l) simp

lemma lframe_cpu:
  assumes "lframe s s'"
  shows "cpus s' c =
     (cpus s c)\<lparr>ncli := ncli (cpus s' c), intena := intena (cpus s' c), ifl := ifl (cpus s' c)\<rparr>"
  by (rule cpu_erase_cli_eq)
    (use lk_erase_simps(11) [of s c] lk_erase_simps(11) [of s' c] assms in \<open>simp add: lframe_def\<close>)

lemma lframe_cpus:
  assumes "lframe s s'"
  shows "cproc (cpus s' c) = cproc (cpus s c)" "runq (cpus s' c) = runq (cpus s c)"
    "queue_count (cpus s' c) = queue_count (cpus s c)" "core_type (cpus s' c) = core_type (cpus s c)"
    "cr3 (cpus s' c) = cr3 (cpus s c)"
  by (subst lframe_cpu [OF assms], simp)+

lemmas lframe_simps = lframe_globals lframe_cpus

lemma lframe_queues: "lframe s s' \<Longrightarrow> queues s' qs = queues s qs"
  unfolding queues_def by (simp add: lframe_simps)

text \<open>
  \<open>calm me n s\<close>: the table lock is free, CPU \<open>me\<close> has \<open>n\<close> locks (other than it) and the other
  CPUs have none. \<open>held me n s\<close>: CPU \<open>me\<close> holds the table lock and \<open>n\<close> locks in all.
\<close>

definition nest_ok :: "nat \<Rightarrow> int \<Rightarrow> 'r kst \<Rightarrow> bool" where
  "nest_ok me n s \<longleftrightarrow>
     (\<forall>c. cli_ok (cpus s c)) \<and> ncli (cpus s me) = n \<and> (\<forall>c. c \<noteq> me \<longrightarrow> ncli (cpus s c) = 0)"

definition calm :: "nat \<Rightarrow> int \<Rightarrow> 'r kst \<Rightarrow> bool" where
  "calm me n s \<longleftrightarrow> locked (ptable_lock s) = 0 \<and> nest_ok me n s \<and> 0 \<le> n"

definition held :: "nat \<Rightarrow> int \<Rightarrow> 'r kst \<Rightarrow> bool" where
  "held me n s \<longleftrightarrow>
     locked (ptable_lock s) \<noteq> 0 \<and> lk_cpu (ptable_lock s) = Some me \<and> nest_ok me n s \<and> 0 < n"

lemma lframe_upd_cpu:
  assumes "(f (cpus s c))\<lparr>ncli := 0, intena := 0, ifl := False\<rparr> =
     (cpus s c)\<lparr>ncli := 0, intena := 0, ifl := False\<rparr>"
  shows "lframe s (upd_cpu c f s)"
  using assms by (auto simp: lframe_def lk_erase_def upd_cpu_def fun_eq_iff intro!: arg_cong [of _ _ "\<lambda>cs. s\<lparr>ptable_lock := _, tickslock := _, cpus := cs\<rparr>"])

lemma lframe_locks: "lframe s (s'\<lparr>ptable_lock := lk\<rparr>) = lframe s s'" "lframe s (s'\<lparr>tickslock := lk\<rparr>) = lframe s s'"
  by (simp_all add: lframe_def lk_erase_def)

text \<open>\<open>mine me l\<close>: CPU \<open>me\<close> holds lock \<open>l\<close>. Any free lock can be acquired and any lock held released.\<close>

definition mine :: "nat \<Rightarrow> spinlock \<Rightarrow> bool" where
  "mine me l \<longleftrightarrow> locked l \<noteq> 0 \<and> lk_cpu l = Some me"

lemma acquire_any:
  assumes n: "nest_ok me n s" "0 \<le> n" and l: "locked l = 0"
  shows "\<exists>l' s'. acquire me t l s = Inr (l', s') \<and> mine me l' \<and> lframe s s' \<and> nest_ok me (n + 1) s' \<and>
    ptable_lock s' = ptable_lock s \<and> tickslock s' = tickslock s"
proof -
  have c: "cli_ok (cpus s me)" using n by (auto simp: nest_ok_def)
  have "lframe s (pushcli me s)" unfolding pushcli_def by (rule lframe_upd_cpu) simp
  moreover have "nest_ok me (n + 1) (pushcli me s)"
    using n by (auto simp: nest_ok_def pushcli_def cli_ok_def)
  moreover have "mine me (acquire_finish me t 0 (l\<lparr>locked := 1\<rparr>))"
    by (simp add: mine_def acquire_finish_def Let_def)
  ultimately show ?thesis using l by (simp add: acquire_eq [OF c]) (simp add: pushcli_def)
qed

lemma release_any:
  assumes n: "nest_ok me n s" "0 < n" and l: "mine me l"
  shows "\<exists>l' s'. release me l s = Inr (l', s') \<and> locked l' = 0 \<and> lframe s s' \<and> nest_ok me (n - 1) s' \<and>
    ptable_lock s' = ptable_lock s \<and> tickslock s' = tickslock s"
proof -
  have c: "cli_ok (cpus s me)" "0 < ncli (cpus s me)" "ncli (cpus s me) = n"
    using n by (auto simp: nest_ok_def)
  let ?f = "\<lambda>k. k\<lparr>ncli := n - 1, ifl := (n - 1 = 0 \<and> intena k \<noteq> 0)\<rparr>"
  have "release me l s = Inr (l\<lparr>lk_cpu := None, locked := 0\<rparr>, upd_cpu me ?f s)"
    using l c by (simp add: release_eq [OF c(1,2)] mine_def popcli_def cli_ok_def)
  moreover have "lframe s (upd_cpu me ?f s)" by (rule lframe_upd_cpu) simp
  moreover have "nest_ok me (n - 1) (upd_cpu me ?f s)"
    using n by (auto simp: nest_ok_def cli_ok_def)
  ultimately show ?thesis by simp
qed

lemma nest_ok_locks [simp]: "nest_ok me n (s\<lparr>ptable_lock := lk\<rparr>) = nest_ok me n s"
  "nest_ok me n (s\<lparr>tickslock := lk\<rparr>) = nest_ok me n s"
  by (simp_all add: nest_ok_def)

lemma acquire_pt_calm:
  assumes "calm me n s"
  shows "\<exists>s'. acquire_pt me s = Inr s' \<and> lframe s s' \<and> held me (n + 1) s' \<and> tickslock s' = tickslock s"
  using acquire_any [of me n s "ptable_lock s" False] assms
  by (auto simp: calm_def held_def mine_def acquire_pt_def lframe_locks)

lemma release_pt_held:
  assumes "held me n s"
  shows "\<exists>s'. release_pt me s = Inr s' \<and> lframe s s' \<and> calm me (n - 1) s' \<and> tickslock s' = tickslock s"
  using release_any [of me n s "ptable_lock s"] assms
  by (auto simp: calm_def held_def mine_def release_pt_def lframe_locks)

text \<open>Operations that touch neither the lock nor the nesting keep \<open>held\<close>.\<close>

lemma held_qframe: "qframe s s' \<Longrightarrow> held me n s' = held me n s"
  by (simp add: held_def nest_ok_def cli_ok_def qframe_simps)

lemma held_upd_proc [simp]: "held me n (upd_proc p f s) = held me n s"
  by (simp add: held_def nest_ok_def)

lemma held_upd_cpu:
  assumes "\<And>k. ncli (f k) = ncli k" "\<And>k. ifl (f k) = ifl k"
  shows "held me n (upd_cpu c f s) = held me n s"
proof -
  have "ncli (cpus (upd_cpu c f s) d) = ncli (cpus s d)" "ifl (cpus (upd_cpu c f s) d) = ifl (cpus s d)" for d
    using assms by simp_all
  then show ?thesis by (simp only: held_def nest_ok_def cli_ok_def upd_other)
qed

section \<open>The scheduling view of the kernel state\<close>

text \<open>
  \<open>view s qs st rn\<close>: the state of every process is \<open>st\<close>, the process each CPU runs is \<open>rn\<close>
  and the run queues are \<open>qs\<close>. The lemmas below give the effect of every operation on this
  view; the invariants of the scheduler are statements about views.
\<close>

definition view :: "'r kst \<Rightarrow> (nat \<Rightarrow> nat list) \<Rightarrow> (nat \<Rightarrow> procstate) \<Rightarrow> (nat \<Rightarrow> nat option) \<Rightarrow> bool" where
  "view s qs st rn \<longleftrightarrow>
     queues s qs \<and> (\<lambda>i. pstate (procs s i)) = st \<and> (\<lambda>c. cproc (cpus s c)) = rn"

lemma viewD:
  assumes "view s qs st rn"
  shows "queues s qs" "pstate (procs s i) = st i" "cproc (cpus s c) = rn c" "myproc c s = rn c"
  using assms by (auto simp: view_def myproc_def)

lemma view_self: "queues s qs \<Longrightarrow> view s qs (\<lambda>i. pstate (procs s i)) (\<lambda>c. cproc (cpus s c))"
  by (simp add: view_def)

lemma view_lframe: "lframe s s' \<Longrightarrow> view s' qs st rn = view s qs st rn"
  by (simp add: view_def lframe_queues lframe_simps)

lemma view_qframe: "view s qs st rn \<Longrightarrow> qframe s s' \<Longrightarrow> queues s' qs' \<Longrightarrow> view s' qs' st rn"
  by (simp add: view_def qframe_simps)

lemma queues_upd_proc:
  "next_run (f (procs s p)) = next_run (procs s p) \<Longrightarrow> queues (upd_proc p f s) qs = queues s qs"
  by (simp add: queues_def nx_upd_proc_same)

lemma queues_upd_cpu:
  assumes "\<And>k. runq (f k) = runq k" "\<And>k. queue_count (f k) = queue_count k"
  shows "queues (upd_cpu c f s) qs = queues s qs"
proof -
  have "runq (cpus (upd_cpu c f s) d) = runq (cpus s d)"
    "queue_count (cpus (upd_cpu c f s) d) = queue_count (cpus s d)" for d using assms by simp_all
  then show ?thesis unfolding queues_def by (simp only: upd_other nx_upd_cpu)
qed

lemma view_upd_proc:
  assumes "view s qs st rn" and "\<And>q. next_run (f q) = next_run q" and "pstate (f (procs s p)) = x"
  shows "view (upd_proc p f s) qs (st(p := x)) rn"
  using assms by (auto simp: view_def queues_upd_proc fun_eq_iff)

lemma view_upd_proc_same:
  assumes "view s qs st rn" and "\<And>q. next_run (f q) = next_run q" and "\<And>q. pstate (f q) = pstate q"
  shows "view (upd_proc p f s) qs st rn"
  using assms by (auto simp: view_def queues_upd_proc fun_eq_iff)

lemma view_upd_cpu:
  assumes "view s qs st rn" and "\<And>k. runq (f k) = runq k" "\<And>k. queue_count (f k) = queue_count k"
    and "cproc (f (cpus s c)) = x"
  shows "view (upd_cpu c f s) qs st (rn(c := x))"
  using assms by (auto simp: view_def queues_upd_cpu fun_eq_iff)

lemma view_upd_cpu_same:
  assumes "view s qs st rn" and "\<And>k. runq (f k) = runq k" "\<And>k. queue_count (f k) = queue_count k"
    and "\<And>k. cproc (f k) = cproc k"
  shows "view (upd_cpu c f s) qs st rn"
  using assms by (auto simp: view_def queues_upd_cpu fun_eq_iff)

text \<open>What scheduling leaves alone of a process: all but its state, queue link, channel and slice.\<close>

definition img :: "'r kst \<Rightarrow> nat \<Rightarrow> proc" where
  "img s i = (procs s i)\<lparr>pstate := UNUSED, next_run := None, pchan := None, slice_ticks := 0\<rparr>"

lemma img_eq: "procs t = procs s \<Longrightarrow> img t = img s"
  by (simp add: img_def [abs_def])

lemma img_qframe:
  assumes "qframe s t"
  shows "img t = img s"
proof
  fix i show "img t i = img s i" unfolding img_def by (subst qframe_proc [OF assms]) simp
qed

lemma img_upd_proc:
  assumes "img (upd_proc p f s) p = img s p"
  shows "img (upd_proc p f s) = img s"
proof
  fix i
  show "img (upd_proc p f s) i = img s i" using assms by (cases "i = p") (simp_all add: img_def)
qed

lemma img_proc:
  assumes "img t = img s"
  shows "procs t i = (procs s i)\<lparr>pstate := pstate (procs t i), next_run := next_run (procs t i),
    pchan := pchan (procs t i), slice_ticks := slice_ticks (procs t i)\<rparr>"
  using fun_cong [OF assms, of i] by (cases "procs t i"; cases "procs s i") (simp add: img_def)

lemma img_fields:
  assumes "img t = img s"
  shows "kstack (procs t i) = kstack (procs s i)" "pgdir (procs t i) = pgdir (procs s i)"
    "ctime (procs t i) = ctime (procs s i)" "pid (procs t i) = pid (procs s i)"
    "parent (procs t i) = parent (procs s i)" "killed (procs t i) = killed (procs s i)"
    "ofile (procs t i) = ofile (procs s i)" "cwd (procs t i) = cwd (procs s i)"
    "tf (procs t i) = tf (procs s i)" "pname (procs t i) = pname (procs s i)" "psz (procs t i) = psz (procs s i)"
  by (subst img_proc [OF assms], simp)+

definition chans :: "'r kst \<Rightarrow> nat \<Rightarrow> chan option" where
  "chans s i = pchan (procs s i)"

lemma chans_eq: "procs t = procs s \<Longrightarrow> chans t = chans s"
  by (simp add: chans_def [abs_def])

lemma chans_qframe: "qframe s t \<Longrightarrow> chans t = chans s"
  by (simp add: chans_def [abs_def] qframe_simps)

lemma chans_upd_cpu [simp]: "chans (upd_cpu c g s) = chans s"
  by (simp add: chans_def [abs_def])

lemma chans_upd_proc: "chans (upd_proc p f s) = (chans s)(p := pchan (f (procs s p)))"
  by (auto simp: chans_def)

lemma chans_upd_proc_same: "(\<And>q. pchan (f q) = pchan q) \<Longrightarrow> chans (upd_proc p f s) = chans s"
  by (auto simp: chans_def)

text \<open>The variables beside the process and CPU tables.\<close>

definition glob :: "'r kst \<Rightarrow> u32 \<times> nat option \<times> int \<times> u32 \<times> bool \<times> u32 \<times> int \<times> spinlock \<times> 'r" where
  "glob s = (kpgdir s, initproc s, nextpid s, ticks s, metrics_active s, metrics_start_tick s,
     metrics_proc_completed s, tickslock s, res s)"

lemma glob_upd [simp]: "glob (upd_proc p f s) = glob s" "glob (upd_cpu c g s) = glob s"
  by (simp_all add: glob_def)

lemma glob_qframe: "qframe s t \<Longrightarrow> glob t = glob s"
  by (simp add: glob_def qframe_simps)

lemma glob_lframe: "lframe s t \<Longrightarrow> tickslock t = tickslock s \<Longrightarrow> glob t = glob s"
  by (simp add: glob_def lframe_simps)

lemma glob_fields:
  assumes "glob t = glob s"
  shows "kpgdir t = kpgdir s" "initproc t = initproc s" "nextpid t = nextpid s" "ticks t = ticks s"
    "metrics_active t = metrics_active s" "metrics_proc_completed t = metrics_proc_completed s"
    "tickslock t = tickslock s" "res t = res s"
  using assms by (simp_all add: glob_def)

section \<open>The switch out of a process\<close>

lemma scheduler_back_ok:
  assumes "view s qs st rn" and "held me n s"
  shows "\<exists>s'. scheduler_back me s = Inr s' \<and> view s' qs st (rn(me := None)) \<and> calm me (n - 1) s' \<and>
    ncpu s' = ncpu s \<and> procs s' = procs s \<and> glob s' = glob s"
proof -
  define t where "t = upd_cpu me (\<lambda>k. k\<lparr>cproc := None\<rparr>) (switchkvm me s)"
  have v: "view t qs st (rn(me := None))" unfolding t_def switchkvm_def
    by (rule view_upd_cpu [OF view_upd_cpu_same [OF assms(1)]]) simp_all
  have "held me n t" unfolding t_def switchkvm_def by (simp add: held_upd_cpu assms(2))
  from release_pt_held [OF this] obtain s' where
    s': "release_pt me t = Inr s'" "lframe t s'" "calm me (n - 1) s'" "tickslock s' = tickslock t" by blast
  have "ncpu t = ncpu s" "procs t = procs s" "glob t = glob s" by (simp_all add: t_def switchkvm_def)
  then show ?thesis
    using s' v glob_lframe [OF s'(2,4)] by (auto simp: scheduler_back_def t_def [symmetric] view_lframe lframe_simps)
qed

text \<open>\<open>sched\<close> called as its contract asks: only the table lock held, the caller not running.\<close>

lemma sched_ok:
  assumes v: "view s qs st rn" and h: "held me 1 s" and p: "rn me = Some p" and np: "st p \<noteq> RUNNING"
  shows "\<exists>s'. sched me s = Inr (intena (cpus s me), s') \<and> view s' qs st (rn(me := None)) \<and>
    calm me 0 s' \<and> ncpu s' = ncpu s \<and> procs s' = procs s \<and> glob s' = glob s"
proof -
  obtain s' where s': "scheduler_back me s = Inr s'" "view s' qs st (rn(me := None))" "calm me 0 s'"
    "ncpu s' = ncpu s" "procs s' = procs s" "glob s' = glob s"
    using scheduler_back_ok [OF v h] by auto
  have c: "cli_ok (cpus s me)" "ncli (cpus s me) = 1" "locked (ptable_lock s) \<noteq> 0"
    "lk_cpu (ptable_lock s) = Some me"
    using h by (auto simp: held_def nest_ok_def)
  then have "\<not> ifl (cpus s me)" by (simp add: cli_ok_def)
  moreover have "holding me (ptable_lock s) s = Inr (True, s)" using c by (simp add: holding_nested)
  ultimately show ?thesis
    using c s' p np viewD(2-4) [OF v] by (simp add: sched_def)
qed

text \<open>\<open>sched\<close> called otherwise stops the kernel.\<close>

lemma sched_panics:
  assumes "myproc me s = Some p" and "cli_ok (cpus s me)" and "0 < ncli (cpus s me)"
    and "\<not> (locked (ptable_lock s) \<noteq> 0 \<and> lk_cpu (ptable_lock s) = Some me) \<or>
         ncli (cpus s me) \<noteq> 1 \<or> pstate (procs s p) = RUNNING"
  shows "\<exists>m. sched me s = Inl (Panic m)"
  using assms by (auto simp: sched_def holding_nested)

lemma yield_ok:
  assumes v: "view s qs st rn" and c: "calm me 0 s" and me: "me < ncpu s" and p: "rn me = Some p"
    and q: "\<forall>d<ncpu s. p \<notin> set (qs d)"
  shows "\<exists>saved s'. yield me s = Inr (saved, s') \<and>
    view s' (qs(me := qs me @ [p])) (st(p := RUNNABLE)) (rn(me := None)) \<and> calm me 0 s' \<and>
    ncpu s' = ncpu s \<and> img s' = img s \<and> chans s' = chans s \<and> glob s' = glob s"
proof -
  obtain s1 where s1: "acquire_pt me s = Inr s1" "lframe s s1" "held me 1 s1" "tickslock s1 = tickslock s"
    using acquire_pt_calm [OF c] by auto
  define s2 where "s2 = upd_proc p (\<lambda>q. q\<lparr>pstate := RUNNABLE\<rparr>) s1"
  have v2: "view s2 qs (st(p := RUNNABLE)) rn"
    unfolding s2_def by (rule view_upd_proc) (use v in \<open>simp_all add: view_lframe [OF s1(2)]\<close>)
  have n2: "ncpu s2 = ncpu s" by (simp add: s2_def lframe_simps [OF s1(2)])
  obtain s3 where s3: "enqueue me p s2 = Inr s3" "queues s3 (qs(me := qs me @ [p]))" "qframe s2 s3"
    using rq.enq_appends [OF viewD(1) [OF v2], of me p] me q n2 by auto
  have v3: "view s3 (qs(me := qs me @ [p])) (st(p := RUNNABLE)) rn"
    by (rule view_qframe [OF v2 s3(3,2)])
  have h3: "held me 1 s3" using s1(3) by (simp add: held_qframe [OF s3(3)] s2_def)
  have "img s2 = img s1" unfolding s2_def by (rule img_upd_proc) (simp add: img_def)
  then have i3: "img s3 = img s" using img_qframe [OF s3(3)] img_eq [OF lframe_globals(1) [OF s1(2)]] by simp
  have g3: "glob s3 = glob s" using glob_qframe [OF s3(3)] glob_lframe [OF s1(2,4)] by (simp add: s2_def)
  have c3: "chans s3 = chans s"
    using chans_qframe [OF s3(3)] chans_eq [OF lframe_globals(1) [OF s1(2)]] by (simp add: s2_def chans_upd_proc_same)
  have "ncpu s3 = ncpu s" using n2 by (simp add: qframe_simps [OF s3(3)])
  moreover have "myproc me s1 = Some p" using viewD(3) [OF v, of me] p by (simp add: myproc_def lframe_simps [OF s1(2)])
  ultimately show ?thesis
    using sched_ok [OF v3 h3 p] s1(1) s3(1) g3 i3 img_eq [of _ s3] c3 chans_eq [of _ s3] by (auto simp: yield_def s2_def [symmetric])
qed

section \<open>Sleeping and waking up\<close>

lemma sleep_other_ok:
  assumes v: "view s qs st rn" and c: "calm me 1 s" and p: "rn me = Some p"
    and l: "locked l \<noteq> 0" "lk_cpu l = Some me"
  shows "\<exists>l' saved s'. sleep me ch (OtherLk l) s = Inr (OtherLk l', saved, s') \<and> locked l' = 0 \<and>
    view s' qs (st(p := SLEEPING)) (rn(me := None)) \<and> calm me 0 s' \<and> ncpu s' = ncpu s \<and>
    chans s' = (chans s)(p := ch) \<and> img s' = img s \<and> glob s' = glob s"
proof -
  obtain s1 where s1: "acquire_pt me s = Inr s1" "lframe s s1" "held me 2 s1" "tickslock s1 = tickslock s"
    using acquire_pt_calm [OF c] by auto
  have c1: "cli_ok (cpus s1 me)" "ncli (cpus s1 me) = 2" using s1(3) by (auto simp: held_def nest_ok_def)
  define s2 where "s2 = upd_cpu me (\<lambda>k. k\<lparr>ncli := 1, ifl := False\<rparr>) s1"
  define l' where "l' = l\<lparr>lk_cpu := None, locked := 0\<rparr>"
  have r: "release me l s1 = Inr (l', s2)"
    using c1 l by (simp add: release_eq popcli_def cli_ok_def s2_def l'_def)
  have v2: "view s2 qs st rn" unfolding s2_def
    by (rule view_upd_cpu_same) (use v in \<open>simp_all add: view_lframe [OF s1(2)]\<close>)
  have h2: "held me 1 s2" using s1(3) by (auto simp: held_def nest_ok_def s2_def cli_ok_def)
  define s3 where "s3 = upd_proc p (\<lambda>q. q\<lparr>pchan := ch, pstate := SLEEPING\<rparr>) s2"
  have v3: "view s3 qs (st(p := SLEEPING)) rn" unfolding s3_def by (rule view_upd_proc [OF v2]) simp_all
  have h3: "held me 1 s3" using h2 by (simp add: s3_def)
  have "img s3 = img s2" unfolding s3_def by (rule img_upd_proc) (simp add: img_def)
  also have "\<dots> = img s" by (rule img_eq) (simp add: s2_def lframe_simps [OF s1(2)])
  finally have i3: "img s3 = img s" .
  have pc: "chans s3 = (chans s)(p := ch)" "ncpu s3 = ncpu s"
    by (simp_all add: s3_def s2_def lframe_simps [OF s1(2)] chans_upd_proc chans_eq [OF lframe_globals(1) [OF s1(2)]])
  have "glob s3 = glob s" using glob_lframe [OF s1(2,4)] by (simp add: s3_def s2_def)
  then show ?thesis
    using sched_ok [OF v3 h3 p] viewD(4) [OF v, of me] p s1(1) r pc i3 img_eq [of _ s3] chans_eq [of _ s3]
    by (auto simp: sleep_def s3_def [symmetric] l'_def)
qed

lemma sleep_ptable_ok:
  assumes v: "view s qs st rn" and h: "held me 1 s" and p: "rn me = Some p"
  shows "\<exists>saved s'. sleep me ch PtableLk s = Inr (PtableLk, saved, s') \<and>
    view s' qs (st(p := SLEEPING)) (rn(me := None)) \<and> calm me 0 s' \<and> ncpu s' = ncpu s \<and>
    chans s' = (chans s)(p := ch) \<and> img s' = img s \<and> glob s' = glob s"
proof -
  define s3 where "s3 = upd_proc p (\<lambda>q. q\<lparr>pchan := ch, pstate := SLEEPING\<rparr>) s"
  have v3: "view s3 qs (st(p := SLEEPING)) rn" unfolding s3_def by (rule view_upd_proc [OF v]) simp_all
  have h3: "held me 1 s3" using h by (simp add: s3_def)
  have "img s3 = img s" unfolding s3_def by (rule img_upd_proc) (simp add: img_def)
  moreover have "glob s3 = glob s" by (simp add: s3_def)
  moreover have "chans s3 = (chans s)(p := ch)" "ncpu s3 = ncpu s" by (simp_all add: s3_def chans_upd_proc)
  ultimately show ?thesis
    using sched_ok [OF v3 h3 p] viewD(4) [OF v, of me] p img_eq [of _ s3] chans_eq [of _ s3] by (auto simp: sleep_def s3_def [symmetric])
qed

text \<open>The processes that wait on a channel.\<close>

definition sleepers :: "chan option \<Rightarrow> 'r kst \<Rightarrow> nat set" where
  "sleepers ch s = {i. i < NPROC \<and> pstate (procs s i) = SLEEPING \<and> pchan (procs s i) = ch}"

text \<open>Queues after each process of a set was appended to some queue, in increasing order.\<close>

definition appended :: "nat \<Rightarrow> nat set \<Rightarrow> (nat \<Rightarrow> nat list) \<Rightarrow> (nat \<Rightarrow> nat list) \<Rightarrow> bool" where
  "appended n W qs qs' \<longleftrightarrow>
     (\<forall>c. \<exists>ys. qs' c = qs c @ ys \<and> sorted ys \<and> set ys \<subseteq> W) \<and>
     (\<Union>c<n. set (qs' c)) = (\<Union>c<n. set (qs c)) \<union> W"

definition wake_inv ::
  "chan option \<Rightarrow> 'r kst \<Rightarrow> (nat \<Rightarrow> nat list) \<Rightarrow> (nat \<Rightarrow> procstate) \<Rightarrow> (nat \<Rightarrow> nat option) \<Rightarrow> nat \<Rightarrow> 'r kst \<Rightarrow> bool" where
  "wake_inv ch s0 qs st rn n s \<longleftrightarrow>
     (\<exists>qs'. view s qs' (\<lambda>i. if i \<in> sleepers ch s0 \<inter> {..<n} then RUNNABLE else st i) rn \<and>
        appended (ncpu s0) (sleepers ch s0 \<inter> {..<n}) qs qs') \<and>
     ncpu s = ncpu s0 \<and> (\<forall>i. pchan (procs s i) = pchan (procs s0 i)) \<and>
     (\<forall>me m. held me m s = held me m s0) \<and> img s = img s0 \<and> glob s = glob s0"

lemma appended_snoc:
  assumes a: "appended n (W \<inter> {..<k}) qs qs'" and "k \<in> W" and "c < n"
  shows "appended n (W \<inter> {..<Suc k}) qs (qs'(c := qs' c @ [k]))"
proof -
  have W: "W \<inter> {..<Suc k} = insert k (W \<inter> {..<k})" using assms(2) by auto
  have "\<exists>ys. (qs'(c := qs' c @ [k])) d = qs d @ ys \<and> sorted ys \<and> set ys \<subseteq> W \<inter> {..<Suc k}" for d
  proof -
    obtain ys where ys: "qs' d = qs d @ ys" "sorted ys" "set ys \<subseteq> W \<inter> {..<k}"
      using a unfolding appended_def by blast
    have "sorted (ys @ [k])" using ys by (auto simp: sorted_append)
    with ys W show ?thesis
      by (cases "d = c") (auto intro: exI [of _ "ys @ [k]"])
  qed
  moreover have "(\<Union>d<n. set ((qs'(c := qs' c @ [k])) d)) = insert k (\<Union>d<n. set (qs' d))"
    using assms(3) by (auto split: if_splits)
  ultimately show ?thesis using a unfolding appended_def W by simp
qed

lemma wakeup1_step:
  assumes v0: "view s0 qs st rn" and nq: "\<forall>c<ncpu s0. sleepers ch s0 \<inter> set (qs c) = {}"
    and n0: "0 < ncpu s0" and i: "i < NPROC" and inv: "wake_inv ch s0 qs st rn i s"
  shows "\<exists>s'. wakeup1_at ch i s = Inr s' \<and> wake_inv ch s0 qs st rn (Suc i) s'"
proof -
  let ?W = "sleepers ch s0"
  obtain qs' where v: "view s qs' (\<lambda>j. if j \<in> ?W \<inter> {..<i} then RUNNABLE else st j) rn"
    and a: "appended (ncpu s0) (?W \<inter> {..<i}) qs qs'" and n: "ncpu s = ncpu s0"
    and ch: "\<And>j. pchan (procs s j) = pchan (procs s0 j)" and h: "\<And>me m. held me m s = held me m s0"
    and im: "img s = img s0" "glob s = glob s0"
    using inv by (auto simp: wake_inv_def)
  have iff: "pstate (procs s i) = SLEEPING \<and> pchan (procs s i) = ch \<longleftrightarrow> i \<in> ?W"
    using i viewD(2) [OF v, of i] viewD(2) [OF v0, of i] ch by (auto simp: sleepers_def)
  show ?thesis
  proof (cases "i \<in> ?W")
    case False
    then have "?W \<inter> {..<Suc i} = ?W \<inter> {..<i}" by (auto simp: less_Suc_eq)
    then show ?thesis using False iff inv by (auto simp: wakeup1_at_def wake_inv_def)
  next
    case True
    define s1 where "s1 = upd_proc i (\<lambda>q. q\<lparr>pstate := RUNNABLE\<rparr>) s"
    define e where "e = get_least_loaded_e_core s1"
    have n1: "ncpu s1 = ncpu s0" by (simp add: s1_def n)
    have e: "e < ncpu s1" unfolding e_def by (rule get_least_loaded_e_core_bound) (simp add: n1 n0)
    have st1: "(\<lambda>j. if j \<in> ?W \<inter> {..<i} then RUNNABLE else st j)(i := RUNNABLE) =
        (\<lambda>j. if j \<in> ?W \<inter> {..<Suc i} then RUNNABLE else st j)" using True by (auto simp: less_Suc_eq)
    have v1: "view s1 qs' (\<lambda>j. if j \<in> ?W \<inter> {..<Suc i} then RUNNABLE else st j) rn"
      unfolding s1_def st1 [symmetric] by (rule view_upd_proc [OF v]) simp_all
    have "i \<notin> (\<Union>c<ncpu s0. set (qs' c))" using a nq True by (auto simp: appended_def)
    then have "\<forall>d<ncpu s1. i \<notin> set (qs' d)" using n1 by auto
    from rq.enq_appends [OF viewD(1) [OF v1] e this] obtain s2 where
      s2: "enqueue e i s1 = Inr s2" "queues s2 (qs'(e := qs' e @ [i]))" "qframe s1 s2" by blast
    have "img s1 = img s" unfolding s1_def by (rule img_upd_proc) (simp add: img_def)
    then have "wake_inv ch s0 qs st rn (Suc i) s2"
      unfolding wake_inv_def
      using view_qframe [OF v1 s2(3,2)] appended_snoc [OF a True, of e] e n1 ch h img_qframe [OF s2(3)] glob_qframe [OF s2(3)] im
      by (auto simp: qframe_simps [OF s2(3)] held_qframe [OF s2(3)] s1_def)
    then show ?thesis using s2(1) iff True by (simp add: wakeup1_at_def s1_def [symmetric] e_def [symmetric])
  qed
qed

lemma wakeup1_ok:
  assumes v: "view s qs st rn" and nq: "\<forall>c<ncpu s. sleepers ch s \<inter> set (qs c) = {}" and n: "0 < ncpu s"
  shows "\<exists>s' qs'. wakeup1 ch s = Inr s' \<and>
    view s' qs' (\<lambda>i. if i \<in> sleepers ch s then RUNNABLE else st i) rn \<and>
    appended (ncpu s) (sleepers ch s) qs qs' \<and> ncpu s' = ncpu s \<and>
    (\<forall>me m. held me m s' = held me m s) \<and> img s' = img s \<and> (\<forall>i. pchan (procs s' i) = pchan (procs s i)) \<and>
    glob s' = glob s"
proof -
  have "\<exists>s'. foldR (wakeup1_at ch) [0..<k] s = Inr s' \<and> wake_inv ch s qs st rn k s'" if "k \<le> NPROC" for k
    using that
  proof (induction k)
    case 0
    show ?case using v by (auto simp: wake_inv_def appended_def)
  next
    case (Suc k)
    then obtain s1 where s1: "foldR (wakeup1_at ch) [0..<k] s = Inr s1" "wake_inv ch s qs st rn k s1" by auto
    from wakeup1_step [OF v nq n _ s1(2)] Suc.prems show ?case using s1(1) by auto
  qed
  from this [of NPROC] obtain s' where s': "wakeup1 ch s = Inr s'" "wake_inv ch s qs st rn NPROC s'"
    by (auto simp: wakeup1_def)
  have "sleepers ch s \<inter> {..<NPROC} = sleepers ch s" by (auto simp: sleepers_def)
  then show ?thesis using s' by (auto simp: wake_inv_def)
qed

lemma wakeup_ok:
  assumes v: "view s qs st rn" and nq: "\<forall>c<ncpu s. sleepers ch s \<inter> set (qs c) = {}" and n: "0 < ncpu s"
    and c: "calm me m s"
  shows "\<exists>s' qs'. wakeup me ch s = Inr s' \<and>
    view s' qs' (\<lambda>i. if i \<in> sleepers ch s then RUNNABLE else st i) rn \<and>
    appended (ncpu s) (sleepers ch s) qs qs' \<and> ncpu s' = ncpu s \<and> calm me m s' \<and> img s' = img s \<and>
    (\<forall>i. pchan (procs s' i) = pchan (procs s i)) \<and> glob s' = glob s"
proof -
  obtain s1 where s1: "acquire_pt me s = Inr s1" "lframe s s1" "held me (m + 1) s1" "tickslock s1 = tickslock s"
    using acquire_pt_calm [OF c] by auto
  have sl: "sleepers ch s1 = sleepers ch s" "ncpu s1 = ncpu s"
    by (simp_all add: sleepers_def lframe_simps [OF s1(2)])
  have v1: "view s1 qs st rn" using v view_lframe [OF s1(2)] by simp
  obtain s2 qs' where s2: "wakeup1 ch s1 = Inr s2" "held me (m + 1) s2" "ncpu s2 = ncpu s"
    "view s2 qs' (\<lambda>i. if i \<in> sleepers ch s then RUNNABLE else st i) rn"
    "appended (ncpu s) (sleepers ch s) qs qs'" "img s2 = img s1" "\<forall>i. pchan (procs s2 i) = pchan (procs s1 i)" "glob s2 = glob s1"
    using wakeup1_ok [OF v1, of ch] nq n s1(3) unfolding sl by blast
  from release_pt_held [OF s2(2)] obtain s3 where
    s3: "release_pt me s2 = Inr s3" "lframe s2 s3" "calm me m s3" "tickslock s3 = tickslock s2" by auto
  then show ?thesis
    using s1(1,2) s2 glob_lframe [OF s1(2,4)] glob_lframe [OF s3(2,4)] img_eq [OF lframe_globals(1) [OF s1(2)]] img_eq [OF lframe_globals(1) [OF s3(2)]]
    by (auto simp: wakeup_def view_lframe lframe_simps)
qed

section \<open>Choosing and dispatching a process\<close>

text \<open>
  The policies as searches of a list: an E-core takes the first runnable process of its queue,
  a P-core the first among the runnable processes with the least creation time.
\<close>

definition pick :: "'r kst \<Rightarrow> core_type \<Rightarrow> nat list \<Rightarrow> nat option" where
  "pick s ct q =
     (case ct of
        CORE_E \<Rightarrow> find (runnable s) q
      | CORE_P \<Rightarrow> find (\<lambda>i. runnable s i \<and>
          (\<forall>j\<in>set q. runnable s j \<longrightarrow> ctime (procs s i) \<le> ctime (procs s j))) q)"

definition oldest_step :: "('a \<Rightarrow> bool) \<Rightarrow> ('a \<Rightarrow> u32) \<Rightarrow> 'a \<Rightarrow> 'a option \<Rightarrow> 'a option" where
  "oldest_step P ct i old =
     (if P i \<and> (case old of None \<Rightarrow> True | Some j \<Rightarrow> ct i < ct j) then Some i else old)"

lemma oldest_step_simps [simp]:
  "oldest_step P ct i None = (if P i then Some i else None)"
  "oldest_step P ct i (Some j) = (if P i \<and> ct i < ct j then Some i else Some j)"
  by (simp_all add: oldest_step_def)

lemma oldest_in_queue_fold:
  "chain nxt p as \<Longrightarrow> oldest_in_queue nxt P ct old p = Some (fold (oldest_step P ct) as old)"
proof (induction as arbitrary: p old)
  case (Cons a as)
  then show ?case by (subst oldest_in_queue.simps) (auto simp: oldest_step_def [of P ct a old])
qed (subst oldest_in_queue.simps, simp)

definition is_oldest :: "('a \<Rightarrow> bool) \<Rightarrow> ('a \<Rightarrow> u32) \<Rightarrow> 'a list \<Rightarrow> 'a option \<Rightarrow> bool" where
  "is_oldest P ct xs r \<longleftrightarrow>
     (case r of
        None \<Rightarrow> \<forall>x\<in>set xs. \<not> P x
      | Some i \<Rightarrow> \<exists>us vs. xs = us @ i # vs \<and> P i \<and>
          (\<forall>j\<in>set us. P j \<longrightarrow> ct i < ct j) \<and> (\<forall>j\<in>set vs. P j \<longrightarrow> ct i \<le> ct j))"

lemma is_oldest_last:
  "\<forall>j\<in>set xs. P j \<longrightarrow> ct x < ct j \<Longrightarrow> P x \<Longrightarrow> is_oldest P ct (xs @ [x]) (Some x)"
  unfolding is_oldest_def option.case by (intro exI [of _ xs] exI [of _ "[]"]) auto

lemma is_oldest_fold: "is_oldest P ct xs (fold (oldest_step P ct) xs None)"
proof (induction xs rule: rev_induct)
  case (snoc x xs)
  show ?case
  proof (cases "fold (oldest_step P ct) xs None")
    case None
    then show ?thesis using snoc is_oldest_last [of xs P ct x] by (auto simp: is_oldest_def [of P ct xs] is_oldest_def [of P ct _ None])
  next
    case (Some i)
    with snoc obtain us vs where x: "xs = us @ i # vs" "P i" "\<forall>j\<in>set us. P j \<longrightarrow> ct i < ct j"
      "\<forall>j\<in>set vs. P j \<longrightarrow> ct i \<le> ct j" by (auto simp: is_oldest_def)
    show ?thesis
    proof (cases "P x \<and> ct x < ct i")
      case True
      then have "\<forall>j\<in>set xs. P j \<longrightarrow> ct x < ct j" using x by (auto intro: less_trans less_le_trans)
      with True show ?thesis by (simp add: is_oldest_last Some)
    next
      case False
      then have "P x \<longrightarrow> ct i \<le> ct x" by auto
      then have "is_oldest P ct (xs @ [x]) (Some i)"
        using x unfolding is_oldest_def option.case by (intro exI [of _ us] exI [of _ "vs @ [x]"]) auto
      then show ?thesis using False by (auto simp: Some)
    qed
  qed
qed (simp add: is_oldest_def)

lemma find_skip: "find P us = None \<Longrightarrow> find P (us @ vs) = find P vs"
  by (induction us) (auto split: if_splits)

lemma is_oldest_find:
  assumes "is_oldest P ct xs r"
  shows "r = find (\<lambda>i. P i \<and> (\<forall>j\<in>set xs. P j \<longrightarrow> ct i \<le> ct j)) xs" (is "r = find ?Q xs")
proof (cases r)
  case None
  with assms have "find ?Q xs = None" by (auto simp: is_oldest_def find_None_iff)
  with None show ?thesis by simp
next
  case (Some i)
  with assms obtain us vs where x: "xs = us @ i # vs" "P i" "\<forall>j\<in>set us. P j \<longrightarrow> ct i < ct j"
    "\<forall>j\<in>set vs. P j \<longrightarrow> ct i \<le> ct j" by (auto simp: is_oldest_def)
  have "?Q i" using x by (auto simp: less_imp_le)
  moreover have "\<not> ?Q j" if "j \<in> set us" for j
  proof
    assume "?Q j"
    then have "P j" "ct j \<le> ct i" using x(1,2) by auto
    with x(3) that show False by auto
  qed
  then have "find ?Q us = None" by (simp add: find_None_iff)
  ultimately have "find ?Q xs = Some i"
    unfolding x(1) by (simp add: find_skip)
  with Some show ?thesis by simp
qed

lemma sched_choose_eq:
  assumes "queues s qs" and "me < ncpu s"
  shows "sched_choose me s = Inr (pick s (core_type (cpus s me)) (qs me))"
  using queuesD(1) [OF assms]
  by (cases "core_type (cpus s me)")
    (simp_all add: sched_choose_def pick_def find_in_queue_eq oldest_in_queue_fold
      is_oldest_find [OF is_oldest_fold] of_opt_def)


lemma pick_Some:
  assumes "pick s ct q = Some p"
  shows "p \<in> set q" "runnable s p"
  using assms by (auto simp: pick_def find_Some_iff split: core_type.splits)

lemma pick_None:
  assumes "pick s ct q = None"
  shows "\<forall>p\<in>set q. \<not> runnable s p"
proof (cases ct)
  case CORE_E
  then show ?thesis using assms by (auto simp: pick_def find_None_iff)
next
  case CORE_P
  have "is_oldest (runnable s) (\<lambda>i. ctime (procs s i)) q None"
    using is_oldest_fold [of "runnable s" "\<lambda>i. ctime (procs s i)" q] assms
    by (simp add: is_oldest_find [OF is_oldest_fold] pick_def CORE_P)
  then show ?thesis by (simp add: is_oldest_def)
qed

text \<open>The address-space switch of a process that has a kernel stack and a page table.\<close>

lemma switchuvm_ok:
  assumes "held me n s" and "kstack (procs s p) \<noteq> 0" "pgdir (procs s p) \<noteq> 0"
  shows "switchuvm me p s = Inr (upd_cpu me (\<lambda>k. k\<lparr>ts_ss0 := 16, ts_esp0 := kstack (procs s p) + KSTACKSIZE,
    ts_iomb := 0xFFFF, cr3 := V2P (pgdir (procs s p))\<rparr>) s)"
proof -
  define f where "f = (\<lambda>k. k\<lparr>ts_ss0 := 2 * 8, ts_esp0 := kstack (procs s p) + KSTACKSIZE,
    ts_iomb := 0xFFFF, cr3 := V2P (pgdir (procs s p))\<rparr> :: cpu)"
  have c: "cli_ok (cpus s me)" "0 < ncli (cpus s me)" using assms(1) by (auto simp: held_def nest_ok_def)
  have "upd_cpu me f (pushcli me s) = pushcli me (upd_cpu me f s)"
    by (cases "cpus s me") (simp add: upd_cpu_def pushcli_def f_def)
  moreover have "cli_ok (cpus (upd_cpu me f s) me)" "0 < ncli (cpus (upd_cpu me f s) me)"
    using c by (simp_all add: f_def cli_ok_def)
  ultimately have "popcli me (upd_cpu me f (pushcli me s)) = Inr (upd_cpu me f s)"
    using popcli_pushcli_nested [of "upd_cpu me f s" me] by simp
  then show ?thesis using assms(2,3) by (simp add: switchuvm_def f_def)
qed

lemma scheduler_dispatch_ok:
  assumes v: "view s qs st rn" and h: "held me n s" and k: "kstack (procs s p) \<noteq> 0" "pgdir (procs s p) \<noteq> 0"
  shows "\<exists>s'. scheduler_dispatch me p s = Inr s' \<and> view s' qs (st(p := RUNNING)) (rn(me := Some p)) \<and>
    held me n s' \<and> ncpu s' = ncpu s \<and> img s' = img s \<and> chans s' = chans s \<and> glob s' = glob s \<and> slice_ticks (procs s' p) = 0 \<and>
    cr3 (cpus s' me) = V2P (pgdir (procs s p)) \<and> ts_esp0 (cpus s' me) = kstack (procs s p) + KSTACKSIZE"
proof -
  define s2 where "s2 = upd_proc p (\<lambda>q. q\<lparr>slice_ticks := 0\<rparr>) (upd_cpu me (\<lambda>k. k\<lparr>cproc := Some p\<rparr>) s)"
  have v2: "view s2 qs st (rn(me := Some p))" unfolding s2_def
    by (rule view_upd_proc_same [OF view_upd_cpu [OF v]]) simp_all
  have h2: "held me n s2" using h by (simp add: s2_def held_upd_cpu)
  have k2: "kstack (procs s2 p) = kstack (procs s p)" "pgdir (procs s2 p) = pgdir (procs s p)"
    "slice_ticks (procs s2 p) = 0" "ncpu s2 = ncpu s"
    by (simp_all add: s2_def)
  define s3 where "s3 = upd_cpu me (\<lambda>k. k\<lparr>ts_ss0 := 16, ts_esp0 := kstack (procs s2 p) + KSTACKSIZE,
    ts_iomb := 0xFFFF, cr3 := V2P (pgdir (procs s2 p))\<rparr>) s2"
  have "switchuvm me p s2 = Inr s3" unfolding s3_def using switchuvm_ok [OF h2] k k2 by simp
  moreover have "img (upd_proc p (\<lambda>q. q\<lparr>pstate := RUNNING\<rparr>) s3) = img s"
    by (auto simp: img_def fun_eq_iff s3_def s2_def)
  moreover have "chans (upd_proc p (\<lambda>q. q\<lparr>pstate := RUNNING\<rparr>) s3) = chans s"
    by (simp add: s3_def s2_def chans_upd_proc_same)
  moreover have "glob (upd_proc p (\<lambda>q. q\<lparr>pstate := RUNNING\<rparr>) s3) = glob s" by (simp add: s3_def s2_def)
  moreover have v3: "view s3 qs st (rn(me := Some p))"
    unfolding s3_def by (rule view_upd_cpu_same [OF v2]) simp_all
  moreover have "view (upd_proc p (\<lambda>q. q\<lparr>pstate := RUNNING\<rparr>) s3) qs (st(p := RUNNING)) (rn(me := Some p))"
    by (rule view_upd_proc [OF v3]) simp_all
  ultimately show ?thesis
    using h2 k2 by (auto simp: scheduler_dispatch_def s2_def [symmetric] s3_def held_upd_cpu)
qed

text \<open>The queues a round of the scheduler sees after its periodic balancing.\<close>

definition rebalanced :: "'r kst \<Rightarrow> nat \<Rightarrow> (nat \<Rightarrow> nat list) \<Rightarrow> (nat \<Rightarrow> nat list)" where
  "rebalanced s me qs =
     (if core_type (cpus s me) = CORE_E \<and> ticks s mod 5 = 0 then balanced s me qs else qs)"

lemma balanced_cong:
  assumes "\<And>c. core_type (cpus t c) = core_type (cpus s c)" "\<And>c. queue_count (cpus t c) = queue_count (cpus s c)"
    and "ncpu t = ncpu s" and "\<And>i. pstate (procs t i) = pstate (procs s i)" "\<And>i. pid (procs t i) = pid (procs s i)"
  shows "balanced t me qs = balanced s me qs"
proof -
  have "lightest_step CORE_P (cpus t) = lightest_step CORE_P (cpus s)"
    by (intro ext) (simp add: lightest_step_def assms)
  then have "get_lightest_p_core t = get_lightest_p_core s" by (simp add: get_lightest_p_core_def assms)
  moreover have "movable t = movable s" by (intro ext) (simp add: movable_def assms)
  ultimately show ?thesis by (simp add: balanced_def assms split: option.split)
qed

lemma pick_cong:
  assumes "\<And>i. pstate (procs t i) = pstate (procs s i)" "\<And>i. ctime (procs t i) = ctime (procs s i)"
  shows "pick t ct q = pick s ct q"
  by (simp add: pick_def assms split: core_type.split)

lemma rebalanced_subset: "set (rebalanced s me qs me) \<subseteq> set (qs me)"
proof -
  have "set (balanced s me qs me) \<subseteq> set (qs me)"
    using get_lightest_p_core_Some(2) [of s me] set_remove1_subset [of _ "qs me"]
    by (auto simp: balanced_def split: option.splits if_splits)
  then show ?thesis by (simp add: rebalanced_def)
qed

text \<open>The entry of a round: the lock is taken and the queues are balanced when it is time.\<close>

lemma scheduler_entry:
  assumes v: "view s0 qs st rn" and c: "calm me 0 s0" and me: "me < ncpu s0"
  defines "s \<equiv> upd_cpu me (\<lambda>k. k\<lparr>ifl := True\<rparr>) s0"
  obtains s1 s2 where "acquire_pt me s = Inr s1"
    "(if core_type (cpus s1 me) = CORE_E \<and> ticks s1 mod 5 = 0 then load_balance me s1 else Inr s1) = Inr s2"
    "view s2 (rebalanced s0 me qs) st rn" "held me 1 s2" "ncpu s2 = ncpu s0" "img s2 = img s0" "chans s2 = chans s0" "glob s2 = glob s0"
    "core_type (cpus s2 me) = core_type (cpus s0 me)"
proof -
  have "calm me 0 s" using c by (auto simp: s_def calm_def nest_ok_def cli_ok_def)
  from acquire_pt_calm [OF this] obtain s1 where
    s1: "acquire_pt me s = Inr s1" "lframe s s1" "held me 1 s1" "tickslock s1 = tickslock s" by auto
  have "view s qs st rn" unfolding s_def by (rule view_upd_cpu_same [OF v]) simp_all
  then have v1: "view s1 qs st rn" by (simp add: view_lframe [OF s1(2)])
  have e: "core_type (cpus s1 c) = core_type (cpus s0 c)" "queue_count (cpus s1 c) = queue_count (cpus s0 c)"
    "ncpu s1 = ncpu s0" "ticks s1 = ticks s0" "procs s1 = procs s0" for c
    by (simp_all add: s_def lframe_simps [OF s1(2)])
  have b: "balanced s1 me qs = balanced s0 me qs" by (rule balanced_cong) (simp_all add: e)
  obtain s2 where s2: "load_balance me s1 = Inr s2" "queues s2 (balanced s0 me qs)" "qframe s1 s2"
    using load_balance_refines [OF viewD(1) [OF v1], of me] me by (auto simp: e b)
  define s2' where "s2' = (if core_type (cpus s1 me) = CORE_E \<and> ticks s1 mod 5 = 0 then s2 else s1)"
  have i: "img s1 = img s0" "chans s1 = chans s0" using img_eq chans_eq e(5) by blast+
  have gl: "glob s1 = glob s0" using glob_lframe [OF s1(2,4)] by (simp add: s_def)
  show thesis
  proof (rule that [of s1 s2'])
    show "acquire_pt me s = Inr s1" by (rule s1)
    show "view s2' (rebalanced s0 me qs) st rn"
      using view_qframe [OF v1 s2(3,2)] v1 by (simp add: s2'_def rebalanced_def e)
  qed (use s1(3) s2 i gl glob_qframe [OF s2(3)] in \<open>auto simp: s2'_def e qframe_simps [OF s2(3)] held_qframe [OF s2(3)] img_qframe [OF s2(3)] chans_qframe [OF s2(3)]\<close>)
qed

lemma scheduler_ok:
  assumes v: "view s qs st rn" and c: "calm me 0 s" and me: "me < ncpu s"
    and k: "\<forall>p\<in>set (qs me). kstack (procs s p) \<noteq> 0 \<and> pgdir (procs s p) \<noteq> 0"
  defines "qs1 \<equiv> rebalanced s me qs"
  shows "case pick s (core_type (cpus s me)) (qs1 me) of
      None \<Rightarrow> \<exists>s'. scheduler me s = Inr (None, s') \<and> view s' qs1 st rn \<and> calm me 0 s' \<and>
        ncpu s' = ncpu s \<and> img s' = img s \<and> chans s' = chans s \<and> glob s' = glob s
    | Some p \<Rightarrow> \<exists>s'. scheduler me s = Inr (Some p, s') \<and>
        view s' (qs1(me := remove1 p (qs1 me))) (st(p := RUNNING)) (rn(me := Some p)) \<and> held me 1 s' \<and>
        ncpu s' = ncpu s \<and> img s' = img s \<and> chans s' = chans s \<and> glob s' = glob s \<and> slice_ticks (procs s' p) = 0 \<and>
        cr3 (cpus s' me) = V2P (pgdir (procs s p)) \<and> ts_esp0 (cpus s' me) = kstack (procs s p) + KSTACKSIZE"
proof (rule scheduler_entry [OF v c me])
  fix s1 s2
  assume s1: "acquire_pt me (upd_cpu me (\<lambda>k. k\<lparr>ifl := True\<rparr>) s) = Inr s1"
    and s2: "(if core_type (cpus s1 me) = CORE_E \<and> ticks s1 mod 5 = 0 then load_balance me s1 else Inr s1) = Inr s2"
    and v2': "view s2 (rebalanced s me qs) st rn" and h2: "held me 1 s2" and n2: "ncpu s2 = ncpu s"
    and i2: "img s2 = img s" and ch2: "chans s2 = chans s" and gl2: "glob s2 = glob s" and ct: "core_type (cpus s2 me) = core_type (cpus s me)"
  have v2: "view s2 qs1 st rn" using v2' by (simp add: qs1_def)
  let ?pk = "pick s (core_type (cpus s me)) (qs1 me)"
  have "pick s2 (core_type (cpus s2 me)) (qs1 me) = ?pk"
    unfolding ct by (rule pick_cong) (simp_all add: viewD(2) [OF v] viewD(2) [OF v2] img_fields [OF i2])
  then have ch: "sched_choose me s2 = Inr ?pk"
    using sched_choose_eq [OF viewD(1) [OF v2]] me n2 by simp
  note unf = scheduler_def Let_def s1 bindR_simps s2 ch
  show ?thesis
  proof (cases ?pk)
    case None
    from release_pt_held [OF h2] obtain s3 where "release_pt me s2 = Inr s3" "lframe s2 s3" "calm me 0 s3" "tickslock s3 = tickslock s2" by auto
    then show ?thesis
      using v2 n2 i2 img_eq [of s3 s2] ch2 chans_eq [of s3 s2] gl2 glob_lframe [of s2 s3] by (simp add: None unf view_lframe lframe_simps)
  next
    case (Some p)
    have p: "p \<in> set (qs1 me)" by (rule pick_Some [OF Some])
    then have "p \<in> set (qs me)" using rebalanced_subset [of s me qs] by (auto simp: qs1_def)
    then have k2: "kstack (procs s2 p) \<noteq> 0" "pgdir (procs s2 p) \<noteq> 0" using k by (simp_all add: img_fields [OF i2])
    obtain s3 where s3: "dequeue me p s2 = Inr (0, s3)" "queues s3 (qs1(me := remove1 p (qs1 me)))" "qframe s2 s3"
      using rq.deq_removes [OF viewD(1) [OF v2] _ p] me n2 by auto
    have v3: "view s3 (qs1(me := remove1 p (qs1 me))) st rn" by (rule view_qframe [OF v2 s3(3,2)])
    have h3: "held me 1 s3" using h2 by (simp add: held_qframe [OF s3(3)])
    have k3: "kstack (procs s3 p) = kstack (procs s p)" "pgdir (procs s3 p) = pgdir (procs s p)"
      "img s3 = img s" "ncpu s3 = ncpu s" "chans s3 = chans s" "glob s3 = glob s"
      using i2 n2 ch2 gl2 glob_qframe [OF s3(3)] by (simp_all add: qframe_simps [OF s3(3)] img_qframe [OF s3(3)] img_fields [OF i2] chans_qframe [OF s3(3)])
    from scheduler_dispatch_ok [OF v3 h3, of p] k2 show ?thesis
      by (simp add: Some unf s3(1) k3 img_fields [OF i2]) (auto simp: k3)
  qed
qed

end
