(* ===== verification/SchedInv.thy ===== *)
theory SchedInv
  imports Sched
begin

text \<open>
  The invariant of the scheduler and its properties: which processes are queued and which
  run, that every scheduling operation keeps this and does not panic, the two scheduling
  policies, and what \<open>kill\<close> does to a sleeping process.
\<close>

section \<open>The scheduling invariant\<close>

text \<open>
  On views: the queued processes are exactly the runnable ones that are not in \<open>X\<close>, the
  processes CPUs run are exactly the running ones, and no process runs on two CPUs. The set
  \<open>X\<close> of processes that are runnable but on no queue is empty in \<open>sched_inv\<close>; it is a
  parameter because \<open>kill\<close> adds to it.
\<close>

definition queued :: "nat \<Rightarrow> (nat \<Rightarrow> nat list) \<Rightarrow> nat set" where
  "queued n qs = (\<Union>c<n. set (qs c))"

definition sinv :: "nat \<Rightarrow> (nat \<Rightarrow> procstate) \<Rightarrow> (nat \<Rightarrow> nat option) \<Rightarrow> nat set \<Rightarrow> nat set \<Rightarrow> bool" where
  "sinv n st rn X Q \<longleftrightarrow>
     Q = {p. p < NPROC \<and> st p = RUNNABLE \<and> p \<notin> X} \<and>
     X \<subseteq> {p. p < NPROC \<and> st p = RUNNABLE} \<and>
     {p. \<exists>c<n. rn c = Some p} = {p. p < NPROC \<and> st p = RUNNING} \<and>
     (\<forall>c<n. \<forall>d<n. \<forall>p. rn c = Some p \<longrightarrow> rn d = Some p \<longrightarrow> c = d)"

lemma sinvD:
  assumes "sinv n st rn X Q"
  shows "p \<in> Q \<longleftrightarrow> p < NPROC \<and> st p = RUNNABLE \<and> p \<notin> X"
    and "(\<exists>c<n. rn c = Some p) \<longleftrightarrow> p < NPROC \<and> st p = RUNNING"
    and "c < n \<Longrightarrow> rn c = Some p \<Longrightarrow> p < NPROC \<and> st p = RUNNING \<and> p \<notin> Q"
    and "c < n \<Longrightarrow> d < n \<Longrightarrow> rn c = Some p \<Longrightarrow> rn d = Some p \<Longrightarrow> c = d"
    and "x \<in> X \<Longrightarrow> x < NPROC \<and> st x = RUNNABLE"
proof -
  show "x \<in> X \<Longrightarrow> x < NPROC \<and> st x = RUNNABLE" using assms unfolding sinv_def by blast
  show q: "p \<in> Q \<longleftrightarrow> p < NPROC \<and> st p = RUNNABLE \<and> p \<notin> X" for p using assms by (simp add: sinv_def)
  show r: "(\<exists>c<n. rn c = Some p) \<longleftrightarrow> p < NPROC \<and> st p = RUNNING" for p
    using assms unfolding sinv_def by blast
  show "c < n \<Longrightarrow> rn c = Some p \<Longrightarrow> p < NPROC \<and> st p = RUNNING \<and> p \<notin> Q" using q [of p] r [of p] by auto
  show "c < n \<Longrightarrow> d < n \<Longrightarrow> rn c = Some p \<Longrightarrow> rn d = Some p \<Longrightarrow> c = d"
    using assms unfolding sinv_def by blast
qed

lemma sinvI:
  assumes "\<And>p. p \<in> Q \<longleftrightarrow> p < NPROC \<and> st p = RUNNABLE \<and> p \<notin> X"
    and "\<And>p. p \<in> X \<Longrightarrow> p < NPROC \<and> st p = RUNNABLE"
    and "\<And>p. (\<exists>c<n. rn c = Some p) \<longleftrightarrow> p < NPROC \<and> st p = RUNNING"
    and "\<And>c d p. c < n \<Longrightarrow> d < n \<Longrightarrow> rn c = Some p \<Longrightarrow> rn d = Some p \<Longrightarrow> c = d"
  shows "sinv n st rn X Q"
  using assms unfolding sinv_def by blast

lemma sinv_dispatch:
  assumes i: "sinv n st rn X Q" and me: "me < n" "rn me = None" and p: "p \<in> Q"
  shows "sinv n (st(p := RUNNING)) (rn(me := Some p)) X (Q - {p})"
proof (rule sinvI)
  have p': "p < NPROC" "st p = RUNNABLE" "\<not> (\<exists>c<n. rn c = Some p)"
    using sinvD(1,2) [OF i, of p] p by auto
  fix q show "q \<in> Q - {p} \<longleftrightarrow> q < NPROC \<and> (st(p := RUNNING)) q = RUNNABLE \<and> q \<notin> X"
    using sinvD(1) [OF i, of q] by auto
  show "q \<in> X \<Longrightarrow> q < NPROC \<and> (st(p := RUNNING)) q = RUNNABLE"
    using sinvD(5) [OF i, of q] sinvD(1) [OF i, of p] p by auto
  show "(\<exists>c<n. (rn(me := Some p)) c = Some q) \<longleftrightarrow> q < NPROC \<and> (st(p := RUNNING)) q = RUNNING"
    using sinvD(2) [OF i, of q] p' me by (cases "q = p") (auto, metis option.distinct(1))
  fix c d assume "c < n" "d < n" "(rn(me := Some p)) c = Some q" "(rn(me := Some p)) d = Some q"
  then show "c = d" using sinvD(4) [OF i] p'(3) by (auto split: if_splits)
qed

lemma sinv_leave:
  assumes i: "sinv n st rn X Q" and me: "me < n" "rn me = Some p" and x: "x \<noteq> RUNNING"
  shows "sinv n (st(p := x)) (rn(me := None)) X (if x = RUNNABLE then insert p Q else Q)"
proof (rule sinvI)
  have p': "p < NPROC" "p \<notin> Q" "p \<notin> X" using sinvD(3) [OF i me] sinvD(5) [OF i, of p] by auto
  fix q show "q \<in> (if x = RUNNABLE then insert p Q else Q) \<longleftrightarrow> q < NPROC \<and> (st(p := x)) q = RUNNABLE \<and> q \<notin> X"
    using sinvD(1) [OF i, of q] p' by auto
  show "q \<in> X \<Longrightarrow> q < NPROC \<and> (st(p := x)) q = RUNNABLE" using sinvD(5) [OF i, of q] p'(3) by auto
  show "(\<exists>c<n. (rn(me := None)) c = Some q) \<longleftrightarrow> q < NPROC \<and> (st(p := x)) q = RUNNING"
  proof (cases "q = p")
    case True
    then show ?thesis using sinvD(4) [OF i _ me(1) _ me(2)] x by auto
  next
    case False
    then have "(\<exists>c<n. (rn(me := None)) c = Some q) \<longleftrightarrow> (\<exists>c<n. rn c = Some q)"
      using me by (metis fun_upd_apply option.distinct(1) option.inject)
    then show ?thesis using False sinvD(2) [OF i, of q] by simp
  qed
  fix c d assume "c < n" "d < n" "(rn(me := None)) c = Some q" "(rn(me := None)) d = Some q"
  then show "c = d" using sinvD(4) [OF i] by (auto split: if_splits)
qed

lemma sinv_wake:
  assumes i: "sinv n st rn X Q" and W: "\<forall>w\<in>W. w < NPROC \<and> st w = SLEEPING"
  shows "sinv n (\<lambda>i. if i \<in> W then RUNNABLE else st i) rn X (Q \<union> W)"
proof (rule sinvI)
  fix p
  have w: "w \<in> W \<Longrightarrow> w < NPROC \<and> st w = SLEEPING \<and> w \<notin> X" for w using W sinvD(5) [OF i, of w] by auto
  show "p \<in> Q \<union> W \<longleftrightarrow> p < NPROC \<and> (if p \<in> W then RUNNABLE else st p) = RUNNABLE \<and> p \<notin> X"
    using sinvD(1) [OF i, of p] w [of p] by auto
  show "p \<in> X \<Longrightarrow> p < NPROC \<and> (if p \<in> W then RUNNABLE else st p) = RUNNABLE"
    using sinvD(5) [OF i, of p] by auto
  show "(\<exists>c<n. rn c = Some p) \<longleftrightarrow> p < NPROC \<and> (if p \<in> W then RUNNABLE else st p) = RUNNING"
    using sinvD(2) [OF i, of p] w [of p] by auto
qed (rule sinvD(4) [OF i])

text \<open>
  The invariant of the kernel between operations: some queues are represented, the view
  satisfies \<open>sinv\<close>, no lock is held, and every process the scheduler may meet has a kernel
  stack and a page table.
\<close>

definition has_image :: "'r kst \<Rightarrow> nat \<Rightarrow> bool" where
  "has_image s p \<longleftrightarrow> kstack (procs s p) \<noteq> 0 \<and> pgdir (procs s p) \<noteq> 0"

definition live :: "procstate set" where "live = {SLEEPING, RUNNABLE, RUNNING}"

definition sched_good :: "nat set \<Rightarrow> 'r kst \<Rightarrow> (nat \<Rightarrow> nat list) \<Rightarrow> bool" where
  "sched_good X s qs \<longleftrightarrow>
     queues s qs \<and> 0 < ncpu s \<and>
     sinv (ncpu s) (\<lambda>i. pstate (procs s i)) (\<lambda>c. cproc (cpus s c)) X (queued (ncpu s) qs) \<and>
     (\<forall>p<NPROC. pstate (procs s p) \<in> live \<longrightarrow> has_image s p)"

definition quiet :: "'r kst \<Rightarrow> bool" where
  "quiet s \<longleftrightarrow> locked (ptable_lock s) = 0 \<and> (\<forall>c. cli_ok (cpus s c) \<and> ncli (cpus s c) = 0)"

definition sched_inv :: "'r kst \<Rightarrow> bool" where
  "sched_inv s \<longleftrightarrow> quiet s \<and> (\<exists>qs. sched_good {} s qs)"

lemma quiet_calm: "quiet s \<longleftrightarrow> calm me 0 s"
  unfolding quiet_def calm_def nest_ok_def by auto

lemma sched_goodI:
  assumes "view t qs' st' rn'" "sinv n st' rn' X (queued n qs')" "ncpu t = n" "0 < n" "img t = img s"
    and "\<And>p. p < NPROC \<Longrightarrow> st' p \<in> live \<Longrightarrow> has_image s p"
  shows "sched_good X t qs'"
  using assms viewD(1) [OF assms(1)] viewD(2,3) [OF assms(1)]
  by (simp add: sched_good_def has_image_def img_fields [OF assms(5)])

lemma sched_goodD:
  assumes "sched_good X s qs"
  shows "view s qs (\<lambda>i. pstate (procs s i)) (\<lambda>c. cproc (cpus s c))"
    and "sinv (ncpu s) (\<lambda>i. pstate (procs s i)) (\<lambda>c. cproc (cpus s c)) X (queued (ncpu s) qs)"
    and "0 < ncpu s"
    and "\<And>p. p < NPROC \<Longrightarrow> pstate (procs s p) \<in> live \<Longrightarrow> has_image s p"
    and "\<And>c p. c < ncpu s \<Longrightarrow> p \<in> set (qs c) \<Longrightarrow> p < NPROC \<and> runnable s p \<and> has_image s p"
proof -
  show 2: "sinv (ncpu s) (\<lambda>i. pstate (procs s i)) (\<lambda>c. cproc (cpus s c)) X (queued (ncpu s) qs)"
    using assms by (simp add: sched_good_def)
  show 4: "\<And>p. p < NPROC \<Longrightarrow> pstate (procs s p) \<in> live \<Longrightarrow> has_image s p"
    using assms by (simp add: sched_good_def)
  fix c p assume "c < ncpu s" "p \<in> set (qs c)"
  then have "p \<in> queued (ncpu s) qs" by (auto simp: queued_def)
  then show "p < NPROC \<and> runnable s p \<and> has_image s p"
    using sinvD(1) [OF 2, of p] 4 [of p] by (simp add: live_def)
qed (use assms in \<open>simp_all add: sched_good_def view_self\<close>)

lemma queued_iff: "x \<in> queued n qs \<longleftrightarrow> (\<exists>c<n. x \<in> set (qs c))"
  by (auto simp: queued_def)

lemma queued_move:
  assumes n: "me < n" "lp < n" "lp \<noteq> me" and v: "v \<in> set (qs me)"
  shows "queued n (qs(me := remove1 v (qs me), lp := qs lp @ [v])) = queued n qs" (is "queued n ?q = _")
proof (intro set_eqI iffI)
  fix x assume "x \<in> queued n ?q"
  then obtain c where c: "c < n" "x \<in> set (?q c)" by (auto simp only: queued_iff)
  have "set (remove1 v (qs me)) \<subseteq> set (qs me)" by (rule set_remove1_subset)
  then have "x \<in> set (qs c) \<or> x \<in> set (qs me)"
    using c(2) v by (cases "c = lp"; cases "c = me") auto
  then show "x \<in> queued n qs" using c(1) n(1) unfolding queued_iff by blast
next
  fix x assume "x \<in> queued n qs"
  then obtain c where c: "c < n" "x \<in> set (qs c)" by (auto simp only: queued_iff)
  have "x \<in> set (?q c) \<or> x \<in> set (?q lp)"
    using c(2) n(3) by (cases "x = v"; cases "c = lp"; cases "c = me") auto
  then show "x \<in> queued n ?q" using c(1) n(2) unfolding queued_iff by blast
qed

lemma queued_rebalanced:
  assumes "me < ncpu s"
  shows "queued (ncpu s) (rebalanced s me qs) = queued (ncpu s) qs"
proof (cases "rebalanced s me qs = qs")
  case False
  then obtain lp v where lp: "get_lightest_p_core s = Some lp" "core_type (cpus s me) = CORE_E"
    and v: "find (movable s) (qs me) = Some v"
    and eq: "rebalanced s me qs = qs(me := remove1 v (qs me), lp := qs lp @ [v])"
    by (auto simp: rebalanced_def balanced_def split: if_splits option.splits)
  have "lp < ncpu s" "lp \<noteq> me" using get_lightest_p_core_Some(1,2) [OF lp(1)] lp(2) by auto
  moreover have "v \<in> set (qs me)" using v by (auto simp: find_Some_iff)
  ultimately show ?thesis unfolding eq using queued_move [OF assms] by blast
qed simp


lemma queued_snoc: "c < n \<Longrightarrow> queued n (qs(c := qs c @ [p])) = insert p (queued n qs)"
  by (auto simp: queued_iff split: if_splits)

lemma queued_remove:
  assumes "c < n" "p \<in> set (qs c)" "distinct (qs c)" "\<And>d. d < n \<Longrightarrow> d \<noteq> c \<Longrightarrow> p \<notin> set (qs d)"
  shows "queued n (qs(c := remove1 p (qs c))) = queued n qs - {p}"
proof (rule set_eqI)
  fix x
  have "x \<in> set ((qs(c := remove1 p (qs c))) d) \<longleftrightarrow> x \<in> set (qs d) \<and> x \<noteq> p" if "d < n" for d
    using assms(3) assms(4) [OF that] by (cases "d = c") (auto simp: set_remove1_eq)
  then show "x \<in> queued n (qs(c := remove1 p (qs c))) \<longleftrightarrow> x \<in> queued n qs - {p}"
    by (auto simp only: queued_iff Diff_iff singleton_iff)
qed

lemma queued_appended: "appended n W qs qs' \<Longrightarrow> queued n qs' = queued n qs \<union> W"
  by (simp add: appended_def queued_def)

text \<open>The operations, under the invariant.\<close>

lemma yield_good:
  assumes g: "sched_good X s qs" and c: "quiet s" and me: "me < ncpu s" and p: "myproc me s = Some p"
  shows "\<exists>saved s'. yield me s = Inr (saved, s') \<and> sched_good X s' (qs(me := qs me @ [p])) \<and> quiet s' \<and>
    myproc me s' = None \<and> ncpu s' = ncpu s \<and> img s' = img s \<and> chans s' = chans s \<and> glob s' = glob s \<and>
    (\<forall>i. pstate (procs s' i) = (if i = p then RUNNABLE else pstate (procs s i)))"
proof -
  note D = sched_goodD [OF g]
  have p': "cproc (cpus s me) = Some p" using p by (simp add: myproc_def)
  note r = sinvD(3) [OF D(2) me p']
  have "\<forall>d<ncpu s. p \<notin> set (qs d)" using r by (auto simp: queued_iff)
  from yield_ok [OF D(1) _ me _ this] c p' obtain saved s' where
    s': "yield me s = Inr (saved, s')" "calm me 0 s'" "ncpu s' = ncpu s" "img s' = img s" "chans s' = chans s" "glob s' = glob s"
      "view s' (qs(me := qs me @ [p])) ((\<lambda>i. pstate (procs s i))(p := RUNNABLE)) ((\<lambda>c. cproc (cpus s c))(me := None))"
    by (auto simp: quiet_calm [of s me])
  have "sched_good X s' (qs(me := qs me @ [p]))"
    by (rule sched_goodI [OF s'(7) _ s'(3) D(3) s'(4)])
      (use sinv_leave [OF D(2) me p', of RUNNABLE] D(4) r in
        \<open>auto simp: queued_snoc [OF me] live_def split: if_splits\<close>)
  then show ?thesis using s'(1-6) viewD(2,4) [OF s'(7)]
    by (intro exI [of _ saved] exI [of _ s']) (auto simp: quiet_calm [of s' me])
qed

lemma sleep_good:
  assumes g: "sched_good X s qs" and c: "calm me 1 s" and me: "me < ncpu s" and p: "myproc me s = Some p"
    and l: "locked l \<noteq> 0" "lk_cpu l = Some me"
  shows "\<exists>l' saved s'. sleep me ch (OtherLk l) s = Inr (OtherLk l', saved, s') \<and> locked l' = 0 \<and>
    sched_good X s' qs \<and> quiet s' \<and> p \<in> sleepers ch s' \<and> myproc me s' = None \<and> ncpu s' = ncpu s \<and>
    img s' = img s \<and> glob s' = glob s \<and> chans s' = (chans s)(p := ch) \<and>
    (\<forall>i. pstate (procs s' i) = (if i = p then SLEEPING else pstate (procs s i)))"
proof -
  note D = sched_goodD [OF g]
  have p': "cproc (cpus s me) = Some p" using p by (simp add: myproc_def)
  note r = sinvD(3) [OF D(2) me p']
  from sleep_other_ok [OF D(1) c _ l, of p ch] p' obtain l' saved s' where
    s': "sleep me ch (OtherLk l) s = Inr (OtherLk l', saved, s')" "locked l' = 0" "calm me 0 s'"
      "ncpu s' = ncpu s" "img s' = img s" "glob s' = glob s" "chans s' = (chans s)(p := ch)"
      "view s' qs ((\<lambda>i. pstate (procs s i))(p := SLEEPING)) ((\<lambda>c. cproc (cpus s c))(me := None))"
    by auto
  have "sched_good X s' qs"
    by (rule sched_goodI [OF s'(8) _ s'(4) D(3) s'(5)])
      (use sinv_leave [OF D(2) me p', of SLEEPING] D(4) r in \<open>auto simp: live_def split: if_splits\<close>)
  moreover have "p \<in> sleepers ch s'"
    using viewD(2) [OF s'(8), of p] r fun_cong [OF s'(7), of p] by (simp add: sleepers_def chans_def)
  ultimately show ?thesis
    using s'(1-7) viewD(2) [OF s'(8)] viewD(4) [OF s'(8), of me]
    by (intro exI [of _ l'] exI [of _ saved] exI [of _ s']) (auto simp: quiet_calm [of s' me])
qed

text \<open>What waking up the processes of \<open>W\<close> changes: their state, and queue links.\<close>

definition woke :: "nat set \<Rightarrow> 'r kst \<Rightarrow> 'r kst \<Rightarrow> bool" where
  "woke W s t \<longleftrightarrow> (\<forall>i. pstate (procs t i) = (if i \<in> W then RUNNABLE else pstate (procs s i))) \<and>
     (\<forall>c. cproc (cpus t c) = cproc (cpus s c)) \<and> ncpu t = ncpu s \<and> img t = img s \<and>
     (\<forall>i. pchan (procs t i) = pchan (procs s i)) \<and> glob t = glob s"

lemma wokeD:
  assumes "woke W s t"
  shows "pstate (procs t i) = (if i \<in> W then RUNNABLE else pstate (procs s i))"
    "cproc (cpus t c) = cproc (cpus s c)" "ncpu t = ncpu s" "img t = img s"
    "pchan (procs t i) = pchan (procs s i)" "glob t = glob s" "myproc c t = myproc c s"
  using assms by (auto simp: woke_def myproc_def)

lemma wake_good:
  assumes g: "sched_good X s qs" and v: "view s' qs' (\<lambda>i. if i \<in> sleepers ch s then RUNNABLE else pstate (procs s i))
      (\<lambda>c. cproc (cpus s c))" and a: "appended (ncpu s) (sleepers ch s) qs qs'" and n: "ncpu s' = ncpu s" "img s' = img s"
  shows "sched_good X s' qs'"
proof -
  note D = sched_goodD [OF g]
  have W: "\<forall>w\<in>sleepers ch s. w < NPROC \<and> pstate (procs s w) = SLEEPING" by (auto simp: sleepers_def)
  show ?thesis
    by (rule sched_goodI [OF v _ n(1) D(3) n(2)])
      (use sinv_wake [OF D(2) W] D(4) W in \<open>auto simp: queued_appended [OF a] live_def split: if_splits\<close>)
qed

lemma sleepers_off:
  assumes "sched_good X s qs"
  shows "\<forall>c<ncpu s. sleepers ch s \<inter> set (qs c) = {}"
  using sched_goodD(5) [OF assms] by (fastforce simp: sleepers_def)

lemma wakeup1_good:
  assumes g: "sched_good X s qs"
  shows "\<exists>s' qs'. wakeup1 ch s = Inr s' \<and> sched_good X s' qs' \<and> (\<forall>me m. held me m s' = held me m s) \<and>
    appended (ncpu s) (sleepers ch s) qs qs' \<and> woke (sleepers ch s) s s'"
proof -
  note D = sched_goodD [OF g]
  from wakeup1_ok [OF D(1) sleepers_off [OF g] D(3), of ch] obtain s' qs' where
    s': "wakeup1 ch s = Inr s'" "appended (ncpu s) (sleepers ch s) qs qs'" "ncpu s' = ncpu s"
      "\<forall>me m. held me m s' = held me m s" "img s' = img s"
      "view s' qs' (\<lambda>i. if i \<in> sleepers ch s then RUNNABLE else pstate (procs s i)) (\<lambda>c. cproc (cpus s c))"
      "\<forall>i. pchan (procs s' i) = pchan (procs s i)" "glob s' = glob s"
    by blast
  have "woke (sleepers ch s) s s'" using s'(3,5,7,8) viewD(2,3) [OF s'(6)] by (simp add: woke_def)
  then show ?thesis using s'(1,2,4) wake_good [OF g s'(6,2,3,5)] by blast
qed

lemma wakeup_good:
  assumes g: "sched_good X s qs" and c: "calm me m s"
  shows "\<exists>s' qs'. wakeup me ch s = Inr s' \<and> sched_good X s' qs' \<and> calm me m s' \<and>
    appended (ncpu s) (sleepers ch s) qs qs' \<and> woke (sleepers ch s) s s'"
proof -
  note D = sched_goodD [OF g]
  from wakeup_ok [OF D(1) sleepers_off [OF g] D(3) c, of ch] obtain s' qs' where
    s': "wakeup me ch s = Inr s'" "appended (ncpu s) (sleepers ch s) qs qs'" "ncpu s' = ncpu s"
      "calm me m s'" "img s' = img s"
      "view s' qs' (\<lambda>i. if i \<in> sleepers ch s then RUNNABLE else pstate (procs s i)) (\<lambda>c. cproc (cpus s c))"
      "\<forall>i. pchan (procs s' i) = pchan (procs s i)" "glob s' = glob s"
    by blast
  have "woke (sleepers ch s) s s'" using s'(3,5,7,8) viewD(2,3) [OF s'(6)] by (simp add: woke_def)
  then show ?thesis using s'(1,2,4) wake_good [OF g s'(6,2,3,5)] by blast
qed

lemma rebalanced_represented:
  assumes "queues s qs" and "me < ncpu s"
  shows "\<exists>t :: 'r kst. queues t (rebalanced (s :: 'r kst) me qs) \<and> ncpu t = ncpu s"
proof -
  obtain t where "queues t (balanced s me qs)" "qframe s t" using load_balance_refines [OF assms] by blast
  then show ?thesis using assms(1) by (cases "rebalanced s me qs = qs") (auto simp: rebalanced_def qframe_simps split: if_splits)
qed

lemma scheduler_good:
  assumes g: "sched_good X s qs" and c: "quiet s" and me: "me < ncpu s" and idle: "myproc me s = None"
  shows "\<exists>r s'. scheduler me s = Inr (r, s') \<and> r = pick s (core_type (cpus s me)) (rebalanced s me qs me) \<and>
    ncpu s' = ncpu s \<and> img s' = img s \<and> chans s' = chans s \<and> glob s' = glob s \<and>
    (\<forall>i. pstate (procs s' i) = (if r = Some i then RUNNING else pstate (procs s i))) \<and>
    (case r of
       None \<Rightarrow> rebalanced s me qs me = [] \<and> sched_good X s' (rebalanced s me qs) \<and> quiet s'
     | Some p \<Rightarrow> sched_good X s' ((rebalanced s me qs)(me := remove1 p (rebalanced s me qs me))) \<and> held me 1 s' \<and>
         myproc me s' = Some p \<and> pstate (procs s' p) = RUNNING \<and> slice_ticks (procs s' p) = 0 \<and>
         cr3 (cpus s' me) = V2P (pgdir (procs s p)) \<and> ts_esp0 (cpus s' me) = kstack (procs s p) + KSTACKSIZE)"
proof -
  note D = sched_goodD [OF g]
  define qs1 where "qs1 = rebalanced s me qs"
  have Q: "queued (ncpu s) qs1 = queued (ncpu s) qs" unfolding qs1_def by (rule queued_rebalanced [OF me])
  have D5: "p < NPROC \<and> runnable s p" if "p \<in> set (qs1 me)" for p
  proof -
    have "p \<in> queued (ncpu s) qs1" using that me by (auto simp only: queued_iff)
    then show ?thesis unfolding Q sinvD(1) [OF D(2)] by simp
  qed
  have k: "\<forall>p\<in>set (qs me). kstack (procs s p) \<noteq> 0 \<and> pgdir (procs s p) \<noteq> 0"
    using D(5) [OF me] by (auto simp: has_image_def)
  note S = scheduler_ok [OF D(1) _ me k, folded qs1_def]
  show ?thesis
  proof (cases "pick s (core_type (cpus s me)) (qs1 me)")
    case None
    then have "qs1 me = []" using pick_None [OF None] D5 by (cases "qs1 me") auto
    moreover from S None c obtain s' where
      s': "scheduler me s = Inr (None, s')" "calm me 0 s'" "ncpu s' = ncpu s" "img s' = img s"
        "view s' qs1 (\<lambda>i. pstate (procs s i)) (\<lambda>c. cproc (cpus s c))" and ch: "chans s' = chans s" "glob s' = glob s" by (auto simp: quiet_calm [of s me])
    have "sched_good X s' qs1"
      by (rule sched_goodI [OF s'(5) _ s'(3) D(3) s'(4)]) (use D(2,4) Q in auto)
    ultimately show ?thesis
      using s' ch None viewD(2) [OF s'(5)] by (intro exI [of _ None] exI [of _ s']) (simp add: quiet_calm [of s' me] qs1_def)
  next
    case (Some p)
    note p = pick_Some(1) [OF Some]
    from S Some c obtain s' where
      s': "scheduler me s = Inr (Some p, s')" "held me 1 s'" "ncpu s' = ncpu s" "img s' = img s"
        "view s' (qs1(me := remove1 p (qs1 me))) ((\<lambda>i. pstate (procs s i))(p := RUNNING)) ((\<lambda>c. cproc (cpus s c))(me := Some p))"
      and ch: "chans s' = chans s" "glob s' = glob s" and r: "slice_ticks (procs s' p) = 0" "cr3 (cpus s' me) = V2P (pgdir (procs s p))"
        "ts_esp0 (cpus s' me) = kstack (procs s p) + KSTACKSIZE"
      by (auto simp: quiet_calm [of s me])
    obtain t :: "'a kst" where t: "queues t qs1" "ncpu t = ncpu s"
      using rebalanced_represented [OF viewD(1) [OF D(1)] me] by (auto simp: qs1_def)
    have nd: "p \<notin> set (qs1 d)" if "d < ncpu s" "d \<noteq> me" for d
      using queuesD(4) [OF t(1), of me d] that me p t(2) by auto
    have q: "queued (ncpu s) (qs1(me := remove1 p (qs1 me))) = queued (ncpu s) qs1 - {p}"
      by (rule queued_remove) (use me p nd queuesD(3) [OF t(1), of me] t(2) in auto)
    have "p \<in> queued (ncpu s) qs" using p me by (auto simp only: Q [symmetric] queued_iff)
    from sinv_dispatch [OF D(2) me _ this] idle have "sched_good X s' (qs1(me := remove1 p (qs1 me)))"
      by (intro sched_goodI [OF s'(5) _ s'(3) D(3) s'(4)])
        (use D(4) D5 [OF p] in \<open>auto simp: q Q myproc_def live_def split: if_splits\<close>)
    then show ?thesis
      using s'(1-4) ch r Some viewD(2) [OF s'(5)] viewD(4) [OF s'(5), of me]
      by (intro exI [of _ "Some p"] exI [of _ s']) (simp add: qs1_def)
  qed
qed

lemma sched_good_cpu:
  assumes "sched_good X s qs" and "\<And>k. runq (f k) = runq k" "\<And>k. queue_count (f k) = queue_count k" "\<And>k. cproc (f k) = cproc k"
  shows "sched_good X (upd_cpu c f s) qs"
proof (rule sched_goodI [OF view_upd_cpu_same [OF sched_goodD(1) [OF assms(1)] assms(2-4)]])
  show "img (upd_cpu c f s) = img s" by (rule img_eq) simp
qed (use sched_goodD(2-4) [OF assms(1)] in auto)

lemma sched_good_lframe: "lframe s t \<Longrightarrow> sched_good X t qs = sched_good X s qs"
  by (simp add: sched_good_def lframe_queues lframe_simps has_image_def)

lemma release_good:
  assumes "sched_good X s qs" and "held me 1 s"
  shows "\<exists>t. release_pt me s = Inr t \<and> sched_good X t qs \<and> quiet t \<and> procs t = procs s \<and> myproc me t = myproc me s \<and>
    ncpu t = ncpu s \<and> glob t = glob s"
  using release_pt_held [OF assms(2)] assms(1) glob_lframe
  by (auto simp: sched_good_lframe quiet_calm [of _ me] lframe_simps myproc_def)

lemma yield_resume_good:
  assumes "sched_good X s qs" and "held me 1 s"
  shows "\<exists>t. yield_resume me saved s = Inr t \<and> sched_good X t qs \<and> quiet t \<and> procs t = procs s \<and>
    ncpu t = ncpu s \<and> glob t = glob s"
proof -
  have "sched_good X (sched_resume me saved s) qs" unfolding sched_resume_def by (rule sched_good_cpu [OF assms(1)]) simp_all
  moreover have "held me 1 (sched_resume me saved s)" using assms(2) by (simp add: sched_resume_def held_upd_cpu)
  ultimately show ?thesis using release_good [of X "sched_resume me saved s" qs me] by (auto simp: yield_resume_def sched_resume_def)
qed

lemma acquire_good:
  assumes g: "sched_good X s qs" and c: "quiet s" and a: "acquire me False l s = Inr (l', s1)"
  shows "sched_good X s1 qs" "calm me 1 s1" "ncpu s1 = ncpu s" "locked l' \<noteq> 0" "lk_cpu l' = Some me"
    "myproc me s1 = myproc me s"
proof -
  have e: "cli_ok (cpus s me)" using c by (simp add: quiet_def)
  have s1: "s1 = pushcli me s" "l' = acquire_finish me False 0 (l\<lparr>locked := 1\<rparr>)"
    using a by (auto simp: acquire_eq [OF e] split: if_splits)
  show "sched_good X s1 qs" unfolding s1 pushcli_def by (rule sched_good_cpu [OF g]) simp_all
  show "calm me 1 s1"
    using c by (auto simp: s1 quiet_def calm_def nest_ok_def pushcli_def cli_ok_def)
qed (use a in \<open>auto simp: acquire_eq [OF c [unfolded quiet_def, THEN conjunct2, THEN spec, THEN conjunct1]]
      acquire_finish_def pushcli_def myproc_def split: if_splits\<close>)

section \<open>The scheduler as a transition system\<close>

text \<open>
  What the CPUs do to the scheduling state: a round of the scheduler that finds nothing, a
  round that switches to a process (which comes back in \<open>yield\<close> or starts in \<open>forkret\<close>),
  \<open>yield\<close>, \<open>sleep\<close> under another lock, and \<open>wakeup\<close>.
\<close>

inductive sched_step :: "'r kst \<Rightarrow> 'r kst \<Rightarrow> bool" where
  idle: "me < ncpu s \<Longrightarrow> myproc me s = None \<Longrightarrow> scheduler me s = Inr (None, t) \<Longrightarrow> sched_step s t"
| resume: "me < ncpu s \<Longrightarrow> myproc me s = None \<Longrightarrow> scheduler me s = Inr (Some p, s1) \<Longrightarrow>
    yield_resume me saved s1 = Inr t \<Longrightarrow> sched_step s t"
| forkret: "me < ncpu s \<Longrightarrow> myproc me s = None \<Longrightarrow> scheduler me s = Inr (Some p, s1) \<Longrightarrow>
    release_pt me s1 = Inr t \<Longrightarrow> sched_step s t"
| yield: "me < ncpu s \<Longrightarrow> yield me s = Inr (saved, t) \<Longrightarrow> sched_step s t"
| sleep: "me < ncpu s \<Longrightarrow> acquire me False l s = Inr (l', s1) \<Longrightarrow>
    sleep me ch (OtherLk l') s1 = Inr (l'', saved, t) \<Longrightarrow> sched_step s t"
| wakeup: "me < ncpu s \<Longrightarrow> wakeup me ch s = Inr t \<Longrightarrow> sched_step s t"

lemma yield_no_process: "quiet s \<Longrightarrow> myproc me s = None \<Longrightarrow> yield me s = Inl NullDeref"
  using acquire_pt_calm [of me 0 s] by (auto simp: quiet_calm [of s me] yield_def myproc_def lframe_simps)

lemma sched_step_good:
  assumes "sched_step s t" and g: "sched_good X s qs" and c: "quiet s"
  shows "\<exists>qs'. sched_good X t qs' \<and> quiet t"
proof -
  show ?thesis using assms(1)
  proof cases
    case (idle me)
    with scheduler_good [OF g c idle(1,2)] show ?thesis by auto
  next
    case (resume me p s1 saved)
    with scheduler_good [OF g c resume(1,2)] obtain qs' where "sched_good X s1 qs'" "held me 1 s1" by auto
    from yield_resume_good [OF this, of saved] resume(4) show ?thesis by auto
  next
    case (forkret me p s1)
    with scheduler_good [OF g c forkret(1,2)] obtain qs' where "sched_good X s1 qs'" "held me 1 s1" by auto
    from release_good [OF this] forkret(4) show ?thesis by auto
  next
    case (yield me saved)
    then obtain p where "myproc me s = Some p" using yield_no_process [OF c, of me] by (cases "myproc me s") auto
    with yield_good [OF g c yield(1)] yield(2) show ?thesis by auto
  next
    case (sleep me l l' s1 ch l'' saved)
    note A = acquire_good [OF g c sleep(2)]
    obtain p where "myproc me s1 = Some p" using sleep(3) by (cases "myproc me s1") (auto simp: sleep_def)
    with sleep_good [OF A(1,2) _ _ A(4,5), of p ch] sleep A(3) show ?thesis by auto
  next
    case (wakeup me ch)
    with wakeup_good [OF g, of me 0 ch] c show ?thesis
      by (auto simp: quiet_calm [of _ me])
  qed
qed

lemma sched_steps_good:
  assumes "sched_step\<^sup>*\<^sup>* s t" and "sched_good X s qs" and "quiet s"
  shows "\<exists>qs'. sched_good X t qs' \<and> quiet t"
  using assms
proof (induction rule: rtranclp_induct)
  case (step t u)
  then show ?case using sched_step_good by blast
qed blast

section \<open>Killing a process\<close>

lemma kill_good:
  assumes g: "sched_good X s qs" and c: "quiet s" 
    and i: "first_index (\<lambda>i. pid (procs s i) = pd) NPROC = Some i"
  defines "X' \<equiv> (if pstate (procs s i) = SLEEPING then insert i X else X)"
  shows "\<exists>s'. kill me pd s = Inr (0, s') \<and> sched_good X' s' qs \<and> quiet s' \<and> killed (procs s' i) = 1"
proof -
  note D = sched_goodD [OF g]
  obtain s1 where s1: "acquire_pt me s = Inr s1" "lframe s s1" "held me 1 s1"
    using acquire_pt_calm [of me 0 s] c by (auto simp: quiet_calm [of s me])
  define s2 where "s2 = upd_proc i kill_proc s1"
  obtain s' where s': "release_pt me s2 = Inr s'" "lframe s2 s'" "calm me 0 s'"
    using release_pt_held [of me 1 s2] s1(3) by (auto simp: s2_def)
  have p: "procs s' = (procs s)(i := kill_proc (procs s i))" "ncpu s' = ncpu s"
    "\<And>c. cproc (cpus s' c) = cproc (cpus s c)"
    by (simp_all add: lframe_simps [OF s'(2)] s2_def lframe_simps [OF s1(2)])
  have i': "i < NPROC" using i by (simp add: first_index_Some)
  have st: "pstate (procs s' j) = (if j \<in> (if pstate (procs s i) = SLEEPING then {i} else {})
      then RUNNABLE else pstate (procs s j))" for j
    by (simp add: p kill_proc_def)
  have "queues s2 qs" using D(1) unfolding s2_def
    by (subst queues_upd_proc) (simp_all add: kill_proc_def lframe_queues [OF s1(2)] viewD(1))
  then have q: "queues s' qs" by (simp add: lframe_queues [OF s'(2)])
  have "sinv (ncpu s) (\<lambda>j. pstate (procs s' j)) (\<lambda>c. cproc (cpus s c)) X' (queued (ncpu s) qs)"
  proof (rule sinvI)
    fix j show "j \<in> queued (ncpu s) qs \<longleftrightarrow> j < NPROC \<and> pstate (procs s' j) = RUNNABLE \<and> j \<notin> X'"
      using sinvD(1) [OF D(2), of j] by (auto simp: st X'_def)
    show "j \<in> X' \<Longrightarrow> j < NPROC \<and> pstate (procs s' j) = RUNNABLE"
      using sinvD(5) [OF D(2), of j] i' by (auto simp: st X'_def split: if_splits)
    show "(\<exists>c<ncpu s. cproc (cpus s c) = Some j) \<longleftrightarrow> j < NPROC \<and> pstate (procs s' j) = RUNNING"
      using sinvD(2) [OF D(2), of j] by (auto simp: st)
  qed (rule sinvD(4) [OF D(2)])
  moreover have "has_image s' j" if "j < NPROC" "pstate (procs s' j) \<in> live" for j
    using D(4) [of j] that by (auto simp: p st has_image_def kill_proc_def live_def split: if_splits)
  ultimately have "sched_good X' s' qs" using q D(3) by (auto simp: sched_good_def p)
  then show ?thesis
    using s1(1) s' i by (auto simp: kill_def lframe_simps [OF s1(2)] s2_def quiet_calm [of s' me] p kill_proc_def)
qed

lemma kill_unknown:
  assumes c: "quiet s" and i: "\<forall>i<NPROC. pid (procs s i) \<noteq> pd"
  shows "\<exists>s'. kill me pd s = Inr (-1, s') \<and> procs s' = procs s \<and> quiet s'"
proof -
  obtain s1 where s1: "acquire_pt me s = Inr s1" "lframe s s1" "held me 1 s1"
    using acquire_pt_calm [of me 0 s] c by (auto simp: quiet_calm [of s me])
  from release_pt_held [OF s1(3)] obtain s2 where "release_pt me s1 = Inr s2" "lframe s1 s2" "calm me 0 s2" by auto
  moreover have "first_index (\<lambda>i. pid (procs s1 i) = pd) NPROC = None"
    using i by (simp add: first_index_None lframe_simps [OF s1(2)])
  ultimately show ?thesis using s1(1,2) by (auto simp: kill_def lframe_simps quiet_calm [of _ me])
qed

section \<open>The choice of the scheduler\<close>

lemma queued_runnable:
  assumes "sched_good X s qs" and "me < ncpu s"
  shows "\<forall>j\<in>set (rebalanced s me qs me). runnable s j"
proof
  fix j assume "j \<in> set (rebalanced s me qs me)"
  then have "j \<in> queued (ncpu s) (rebalanced s me qs)" using assms(2) by (auto simp only: queued_iff)
  then show "runnable s j"
    unfolding queued_rebalanced [OF assms(2)] sinvD(1) [OF sched_goodD(2) [OF assms(1)]] by simp
qed

lemma pick_split:
  assumes "pick s ct q = Some p" and run: "\<forall>j\<in>set q. runnable s j"
  shows "\<exists>us vs. q = us @ p # vs \<and> p \<notin> set us \<and> (if ct = CORE_E then us = []
      else (\<forall>j\<in>set us. ctime (procs s p) < ctime (procs s j)) \<and>
           (\<forall>j\<in>set vs. ctime (procs s p) \<le> ctime (procs s j)))"
proof (cases ct)
  case CORE_E
  with assms show ?thesis by (cases q) (auto simp: pick_def)
next
  case CORE_P
  let ?ct = "\<lambda>i. ctime (procs s i)"
  have "is_oldest (runnable s) ?ct q (Some p)"
    using is_oldest_fold [of "runnable s" ?ct q] assms(1)
    by (simp add: is_oldest_find [OF is_oldest_fold] pick_def CORE_P)
  then obtain us vs where q: "q = us @ p # vs" "\<forall>j\<in>set us. runnable s j \<longrightarrow> ?ct p < ?ct j"
      "\<forall>j\<in>set vs. runnable s j \<longrightarrow> ?ct p \<le> ?ct j" by (auto simp: is_oldest_def)
  then have "p \<notin> set us" using run by auto
  with q run show ?thesis by (intro exI [of _ us] exI [of _ vs]) (simp add: CORE_P)
qed

section \<open>Properties\<close>


text \<open>
  C2: in a state that satisfies the invariant no scheduling operation fails: a round of
  \<open>scheduler\<close> on an idle CPU, \<open>yield\<close> and \<open>sleep\<close> (under a lock just acquired) by the process
  a CPU runs, and \<open>wakeup\<close> all return; none of the panics of \<open>sched\<close>, \<open>acquire\<close>, \<open>release\<close>,
  \<open>popcli\<close> and \<open>switchuvm\<close> is reached and every walk of a run queue ends.
\<close>

theorem scheduling_never_panics:
  assumes "sched_inv s" and "me < ncpu s"
  shows "(myproc me s = None \<longrightarrow> (\<exists>r. scheduler me s = Inr r)) \<and>
    (myproc me s = Some p \<longrightarrow> (\<exists>r. yield me s = Inr r)) \<and>
    (myproc me s = Some p \<longrightarrow> locked l = 0 \<longrightarrow>
       (\<exists>l' s1 r. acquire me False l s = Inr (l', s1) \<and> sleep me ch (OtherLk l') s1 = Inr r)) \<and>
    (\<exists>t. wakeup me ch s = Inr t)"
proof -
  obtain qs where g: "sched_good {} s qs" and c: "quiet s" using assms(1) by (auto simp: sched_inv_def)
  have "\<exists>l' s1 r. acquire me False l s = Inr (l', s1) \<and> sleep me ch (OtherLk l') s1 = Inr r"
    if p: "myproc me s = Some p" and l: "locked l = 0"
  proof -
    obtain l' s1 where a: "acquire me False l s = Inr (l', s1)"
      using c l by (auto simp: quiet_def acquire_eq)
    note A = acquire_good [OF g c a]
    show ?thesis using sleep_good [OF A(1,2) _ _ A(4,5), of p ch] A(3,6) p assms(2) a by auto
  qed
  then show ?thesis
    using scheduler_good [OF g c assms(2)] yield_good [OF g c assms(2)] wakeup_good [OF g, of me 0 ch] c
    by (auto simp: quiet_calm [of s me])
qed


text \<open>
  C3: the scheduling policies. A round of \<open>scheduler\<close> on an idle CPU (after moving one
  process to the lightest P-core when the CPU is an E-core and \<open>ticks\<close> is a multiple of 5)
  runs nothing exactly when its queue is empty; otherwise an E-core runs the first process of
  its queue and a P-core one with the least creation time, the first such in queue order. The
  chosen process leaves the queue, becomes \<open>RUNNING\<close> with a fresh time slice, and the CPU has
  its page table and kernel stack.
\<close>

theorem scheduler_policy:
  assumes "sched_good {} s qs" and "quiet s" and "me < ncpu s" and "myproc me s = None"
  defines "q \<equiv> rebalanced s me qs me"
  shows "\<exists>r s'. scheduler me s = Inr (r, s') \<and>
    (q = [] \<longrightarrow> r = None \<and> quiet s' \<and> sched_good {} s' (rebalanced s me qs)) \<and>
    (q \<noteq> [] \<longrightarrow> (\<exists>p us vs. r = Some p \<and> q = us @ p # vs \<and>
       (if core_type (cpus s me) = CORE_E then us = []
        else (\<forall>j\<in>set us. ctime (procs s p) < ctime (procs s j)) \<and>
             (\<forall>j\<in>set vs. ctime (procs s p) \<le> ctime (procs s j))) \<and>
       myproc me s' = Some p \<and> pstate (procs s' p) = RUNNING \<and> slice_ticks (procs s' p) = 0 \<and>
       cr3 (cpus s' me) = V2P (pgdir (procs s p)) \<and> ts_esp0 (cpus s' me) = kstack (procs s p) + KSTACKSIZE \<and>
       sched_good {} s' ((rebalanced s me qs)(me := us @ vs))))"
proof -
  from scheduler_good [OF assms(1-4), folded q_def] obtain r s' where
    s': "scheduler me s = Inr (r, s')" and r: "r = pick s (core_type (cpus s me)) q"
    and c: "case r of None \<Rightarrow> q = [] \<and> sched_good {} s' (rebalanced s me qs) \<and> quiet s'
     | Some p \<Rightarrow> sched_good {} s' ((rebalanced s me qs)(me := remove1 p q)) \<and> held me 1 s' \<and>
         myproc me s' = Some p \<and> pstate (procs s' p) = RUNNING \<and> slice_ticks (procs s' p) = 0 \<and>
         cr3 (cpus s' me) = V2P (pgdir (procs s p)) \<and> ts_esp0 (cpus s' me) = kstack (procs s p) + KSTACKSIZE"
    by blast
  show ?thesis
  proof (cases r)
    case None
    with s' c show ?thesis by auto
  next
    case (Some p)
    have run: "\<forall>j\<in>set q. runnable s j"
      unfolding q_def using queued_runnable [OF assms(1,3)] by blast
    obtain us vs where q: "q = us @ p # vs" "p \<notin> set us" "if core_type (cpus s me) = CORE_E then us = []
        else (\<forall>j\<in>set us. ctime (procs s p) < ctime (procs s j)) \<and>
             (\<forall>j\<in>set vs. ctime (procs s p) \<le> ctime (procs s j))"
      using pick_split [OF r [unfolded Some, symmetric] run] by blast
    have rm: "remove1 p q = us @ vs" using q(1,2) by (simp add: remove1_append)
    note c' = c [unfolded Some option.case rm]
    show ?thesis
    proof (intro exI [of _ r] exI [of _ s'] conjI impI)
      show "\<exists>p us vs. r = Some p \<and> q = us @ p # vs \<and>
         (if core_type (cpus s me) = CORE_E then us = []
          else (\<forall>j\<in>set us. ctime (procs s p) < ctime (procs s j)) \<and>
               (\<forall>j\<in>set vs. ctime (procs s p) \<le> ctime (procs s j))) \<and>
         myproc me s' = Some p \<and> pstate (procs s' p) = RUNNING \<and> slice_ticks (procs s' p) = 0 \<and>
         cr3 (cpus s' me) = V2P (pgdir (procs s p)) \<and> ts_esp0 (cpus s' me) = kstack (procs s p) + KSTACKSIZE \<and>
         sched_good {} s' ((rebalanced s me qs)(me := us @ vs))"
        using c' q(1,3) Some by blast
    qed (use s' q(1) in simp_all)
  qed
qed

text \<open>
  C12: \<open>wakeup\<close> wakes exactly the processes that sleep on the channel: they become \<open>RUNNABLE\<close>
  and are appended, in table order, to run queues; no other process changes state, no queue
  loses or reorders a process, and no CPU changes the process it runs.
\<close>

theorem wakeup_exact:
  assumes "sched_good X s qs" and "calm me m s"
  shows "\<exists>s' qs'. wakeup me ch s = Inr s' \<and> sched_good X s' qs' \<and> calm me m s' \<and>
    (\<forall>i. pstate (procs s' i) = (if i \<in> sleepers ch s then RUNNABLE else pstate (procs s i))) \<and>
    (\<forall>c. \<exists>ys. qs' c = qs c @ ys \<and> sorted ys \<and> set ys \<subseteq> sleepers ch s) \<and>
    (\<forall>i\<in>sleepers ch s. \<exists>c<ncpu s. i \<in> set (qs' c)) \<and> (\<forall>c. cproc (cpus s' c) = cproc (cpus s c))"
proof -
  obtain s' qs' where w: "wakeup me ch s = Inr s'" "sched_good X s' qs'" "calm me m s'"
    "appended (ncpu s) (sleepers ch s) qs qs'"
    "\<forall>i. pstate (procs s' i) = (if i \<in> sleepers ch s then RUNNABLE else pstate (procs s i))"
    "\<forall>c. cproc (cpus s' c) = cproc (cpus s c)"
    using wakeup_good [OF assms, of ch] unfolding woke_def by blast
  have "\<forall>i\<in>sleepers ch s. \<exists>c<ncpu s. i \<in> set (qs' c)"
    using queued_appended [OF w(4)] queued_iff by (metis UnI2)
  moreover have "\<forall>c. \<exists>ys. qs' c = qs c @ ys \<and> sorted ys \<and> set ys \<subseteq> sleepers ch s"
    using w(4) unfolding appended_def by blast
  ultimately show ?thesis using w by blast
qed

text \<open>
  C13: \<open>kill\<close> loses a sleeping process. It makes the victim \<open>RUNNABLE\<close> but puts it on no run
  queue, and since \<open>scheduler\<close> takes processes only from the queues and \<open>wakeup1\<close> only looks at
  \<open>SLEEPING\<close> ones, the victim stays \<open>RUNNABLE\<close>, on no queue and on no CPU, in every later state:
  it never gets to notice that it was killed.
\<close>

theorem kill_loses_sleeper:
  assumes "sched_inv s" and "pstate (procs s i) = SLEEPING"
    and "first_index (\<lambda>i. pid (procs s i) = pd) NPROC = Some i"
    and "kill me pd s = Inr (r, t)" and "sched_step\<^sup>*\<^sup>* t u"
  shows "r = 0 \<and> killed (procs t i) = 1 \<and> runnable u i \<and> (\<forall>c<ncpu u. myproc c u \<noteq> Some i) \<and>
    (\<exists>qs. queues u qs \<and> (\<forall>c<ncpu u. i \<notin> set (qs c)))"
proof -
  obtain qs where g: "sched_good {} s qs" and c: "quiet s" using assms(1) by (auto simp: sched_inv_def)
  have t: "sched_good {i} t qs" "quiet t" "r = 0" "killed (procs t i) = 1"
    using kill_good [OF g c assms(3), of me] assms(2,4) by auto
  obtain qs' where u: "sched_good {i} u qs'" using sched_steps_good [OF assms(5) t(1,2)] by blast
  note D = sinvD [OF sched_goodD(2) [OF u], of i] sinvD(5) [OF sched_goodD(2) [OF u], of i]
  have "i \<notin> set (qs' c)" if "c < ncpu u" for c using D(1) that by (auto simp: queued_iff)
  moreover have "myproc c u \<noteq> Some i" if "c < ncpu u" for c
    using D(2,5) that by (auto simp: myproc_def)
  moreover have "runnable u i" "queues u qs'" using D(5) viewD(1) [OF sched_goodD(1) [OF u]] by auto
  ultimately show ?thesis using t(3,4) by blast
qed


section \<open>Witnesses\<close>

text \<open>Two CPUs (an E-core and a P-core) and one process, in the given state.\<close>

definition demo_kst :: "procstate \<Rightarrow> unit kst" where
  "demo_kst x = upd_proc 0 (\<lambda>q. q\<lparr>pstate := x, pid := 3, kstack := 4096, pgdir := 8192, pchan := Some ChanTicks\<rparr>)
     (boot_kst 2 ())"

definition demo_ready :: "unit kst" where
  "demo_ready = upd_cpu 0 (\<lambda>k. k\<lparr>runq := Some 0, queue_count := 1\<rparr>) (demo_kst RUNNABLE)"

lemma demo_quiet: "quiet (demo_kst x)" "quiet demo_ready"
  by (simp_all add: quiet_def demo_kst_def demo_ready_def boot_kst_def cli_ok_def)

lemma demo_sleeping: "sched_good {} (demo_kst SLEEPING) (\<lambda>_. [])"
  by (auto simp: sched_good_def demo_kst_def queues_def sinv_def queued_def has_image_def live_def split: if_splits)

lemma demo_ready_good: "sched_good {} demo_ready ((\<lambda>_. [])(0 := [0]))"
proof -
  have n: "nx demo_ready = (\<lambda>_. None)" by (auto simp: nx_def demo_ready_def demo_kst_def)
  have "queues demo_ready ((\<lambda>_. [])(0 := [0]))"
    unfolding queues_def n by (auto simp: demo_ready_def demo_kst_def)
  moreover have "queued 2 ((\<lambda>_. [])(0 := [0])) = {0}" by (auto simp: queued_def split: if_splits)
  ultimately show ?thesis
    by (auto simp: sched_good_def sinv_def has_image_def live_def demo_ready_def demo_kst_def NPROC_def split: if_splits)
qed

lemma demo_sched_inv: "sched_inv (demo_kst SLEEPING)" "sched_inv demo_ready"
  using demo_quiet demo_sleeping demo_ready_good by (auto simp: sched_inv_def)



theorem scheduling_never_panics_witness:
  "sched_inv demo_ready \<and> (\<exists>r. scheduler 0 demo_ready = Inr r) \<and> (\<exists>t. wakeup 0 (Some ChanTicks) demo_ready = Inr t)"
  using scheduling_never_panics [OF demo_sched_inv(2), of 0] demo_sched_inv(2)
  by (auto simp: demo_ready_def demo_kst_def myproc_def)

theorem scheduler_policy_witness:
  "\<exists>s'. scheduler 0 demo_ready = Inr (Some 0, s') \<and> myproc 0 s' = Some 0 \<and> cr3 (cpus s' 0) = V2P 8192"
proof -
  have me: "0 < ncpu demo_ready" "myproc 0 demo_ready = None"
    by (simp_all add: demo_ready_def demo_kst_def myproc_def)
  have q: "rebalanced demo_ready 0 ((\<lambda>_. [])(0 := [0])) 0 = [0]"
    by (simp add: rebalanced_def balanced_def demo_ready_def demo_kst_def split: option.split)
  show ?thesis
    using scheduler_policy [OF demo_ready_good demo_quiet(2) me] unfolding q
    by (auto simp: Cons_eq_append_conv demo_ready_def demo_kst_def split: if_splits)
qed

theorem wakeup_exact_witness:
  "\<exists>s'. wakeup 0 (Some ChanTicks) (demo_kst SLEEPING) = Inr s' \<and> runnable s' 0 \<and> 0 \<in> sleepers (Some ChanTicks) (demo_kst SLEEPING)"
proof -
  have z: "0 \<in> sleepers (Some ChanTicks) (demo_kst SLEEPING)" by (simp add: sleepers_def demo_kst_def NPROC_def)
  have "calm 0 0 (demo_kst SLEEPING)" using demo_quiet(1) quiet_calm by blast
  from wakeup_exact [OF demo_sleeping this, of "Some ChanTicks"] z show ?thesis by auto
qed

theorem kill_loses_sleeper_witness:
  "\<exists>t. kill 0 3 (demo_kst SLEEPING) = Inr (0, t) \<and> killed (procs t 0) = 1 \<and> runnable t 0 \<and>
     (\<exists>qs. queues t qs \<and> (\<forall>c<ncpu t. 0 \<notin> set (qs c)))"
proof -
  have f: "first_index (\<lambda>i. pid (procs (demo_kst SLEEPING) i) = 3) NPROC = Some 0"
    by (simp add: first_index_Some demo_kst_def NPROC_def)
  obtain t where t: "kill 0 3 (demo_kst SLEEPING) = Inr (0, t)"
    using kill_good [OF demo_sleeping demo_quiet(1) f] by blast
  have "pstate (procs (demo_kst SLEEPING) 0) = SLEEPING" by (simp add: demo_kst_def)
  from kill_loses_sleeper [OF demo_sched_inv(1) this f t rtranclp.rtrancl_refl] t show ?thesis by blast
qed

end
