(* ===== verification/Proc.thy ===== *)
theory Proc
  imports SchedInv
begin

text \<open>
  Processes (\<open>proc.c\<close>): \<open>allocproc\<close>, \<open>userinit\<close>, \<open>growproc\<close>, \<open>fork\<close>, \<open>exit\<close>, \<open>wait\<close>, the
  process-family query, the scheduling metrics and the process listings. The functions of
  the memory and file layers that \<open>proc.c\<close> calls are a record \<open>kops\<close> of operations on the
  resource part of the state; an operation of the file layer also returns the channels it
  calls \<open>wakeup\<close> on, and the wakeups are performed here.
\<close>

section \<open>The calls into the memory and file layers\<close>

record 'r kops =
  kalloc_op :: "'r \<Rightarrow> u32 \<times> 'r"
  kfree_op :: "u32 \<Rightarrow> 'r \<Rightarrow> 'r res"
  setupkvm_op :: "'r \<Rightarrow> (u32 \<times> 'r) res"
  inituvm_op :: "u32 \<Rightarrow> u8 list \<Rightarrow> 'r \<Rightarrow> 'r res"
  copyuvm_op :: "u32 \<Rightarrow> u32 \<Rightarrow> 'r \<Rightarrow> (u32 \<times> 'r) res"
  allocuvm_op :: "u32 \<Rightarrow> u32 \<Rightarrow> u32 \<Rightarrow> 'r \<Rightarrow> (u32 \<times> 'r) res"
  deallocuvm_op :: "u32 \<Rightarrow> u32 \<Rightarrow> u32 \<Rightarrow> 'r \<Rightarrow> (u32 \<times> 'r) res"
  freevm_op :: "u32 \<Rightarrow> 'r \<Rightarrow> 'r res"
  filedup_op :: "nat \<Rightarrow> 'r \<Rightarrow> (nat \<times> 'r) res"
  fileclose_op :: "nat \<Rightarrow> 'r \<Rightarrow> (chan list \<times> 'r) res"
  idup_op :: "nat \<Rightarrow> 'r \<Rightarrow> (nat \<times> 'r) res"
  iput_op :: "nat \<Rightarrow> 'r \<Rightarrow> (chan list \<times> 'r) res"
  begin_op_op :: "'r \<Rightarrow> 'r res"
  end_op_op :: "'r \<Rightarrow> (chan list \<times> 'r) res"
  namei_op :: "string \<Rightarrow> 'r \<Rightarrow> (nat option \<times> chan list \<times> 'r) res"
  forkret_va :: u32
  trapret_va :: u32
  initcode :: "u8 list"

definition on_res :: "('r \<Rightarrow> ('a \<times> 'r) res) \<Rightarrow> 'r kst \<Rightarrow> ('a \<times> 'r kst) res" where
  "on_res f s = bindR (f (res s)) (\<lambda>(a, r). Inr (a, s\<lparr>res := r\<rparr>))"

definition on_res0 :: "('r \<Rightarrow> 'r res) \<Rightarrow> 'r kst \<Rightarrow> 'r kst res" where
  "on_res0 f s = bindR (f (res s)) (\<lambda>r. Inr (s\<lparr>res := r\<rparr>))"

definition on_res_wake :: "nat \<Rightarrow> ('r \<Rightarrow> (chan list \<times> 'r) res) \<Rightarrow> 'r kst \<Rightarrow> 'r kst res" where
  "on_res_wake me f s =
     bindR (f (res s)) (\<lambda>(chs, r). foldR (\<lambda>ch. wakeup me (Some ch)) chs (s\<lparr>res := r\<rparr>))"

section \<open>Operations\<close>

definition acquire_ticks :: "nat \<Rightarrow> 'r kst \<Rightarrow> 'r kst res" where
  "acquire_ticks me s =
     bindR (acquire me True (tickslock s) s) (\<lambda>(lk, s1). Inr (s1\<lparr>tickslock := lk\<rparr>))"

definition release_ticks :: "nat \<Rightarrow> 'r kst \<Rightarrow> 'r kst res" where
  "release_ticks me s =
     bindR (release me (tickslock s) s) (\<lambda>(lk, s1). Inr (s1\<lparr>tickslock := lk\<rparr>))"

definition sizeof_trapframe :: u32 where "sizeof_trapframe = 76"
definition sizeof_context :: u32 where "sizeof_context = 20"

text \<open>
  \<open>allocproc\<close> in two parts: finding and naming a slot under the table lock, and the kernel
  stack with the initial context that returns to \<open>forkret\<close> and then to \<open>trapret\<close>.
\<close>

definition allocproc_slot :: "nat \<Rightarrow> 'r kst \<Rightarrow> (nat option \<times> 'r kst) res" where
  "allocproc_slot me s =
     bindR (acquire_pt me s) (\<lambda>s1.
       case first_index (\<lambda>i. pstate (procs s1 i) = UNUSED) NPROC of
         None \<Rightarrow> bindR (release_pt me s1) (\<lambda>s2. Inr (None, s2))
       | Some p \<Rightarrow>
           let s2 = (upd_proc p (\<lambda>q. q\<lparr>pstate := EMBRYO, pid := nextpid s1\<rparr>) s1)
                      \<lparr>nextpid := wrap32 (nextpid s1 + 1)\<rparr> in
           bindR (acquire_ticks me s2) (\<lambda>s3.
           bindR (release_ticks me (upd_proc p (\<lambda>q. q\<lparr>ctime := ticks s3, slice_ticks := 0,
                    next_run := None, etime := 0\<rparr>) s3)) (\<lambda>s4.
           bindR (release_pt me (upd_proc p (\<lambda>q. q\<lparr>slice_ticks := 0\<rparr>) s4)) (\<lambda>s5.
             Inr (Some p, s5)))))"

definition allocproc_stack :: "'r kops \<Rightarrow> u32 \<Rightarrow> proc \<Rightarrow> proc" where
  "allocproc_stack K ks q =
     (let sp1 = ks + KSTACKSIZE - sizeof_trapframe;
          sp2 = sp1 - 4 - sizeof_context
      in q\<lparr>kstack := ks, tf_addr := sp1, ctx_ret := trapret_va K, ctx_addr := sp2,
           ctx := zero_context\<lparr>cx_eip := forkret_va K\<rparr>\<rparr>)"

definition allocproc :: "'r kops \<Rightarrow> nat \<Rightarrow> 'r kst \<Rightarrow> (nat option \<times> 'r kst) res" where
  "allocproc K me s =
     bindR (allocproc_slot me s) (\<lambda>(r, s1).
       case r of
         None \<Rightarrow> Inr (None, s1)
       | Some p \<Rightarrow>
           let (ks, r1) = kalloc_op K (res s1); s2 = s1\<lparr>res := r1\<rparr> in
           if ks = 0
           then Inr (None, upd_proc p (\<lambda>q. q\<lparr>kstack := 0, pstate := UNUSED\<rparr>) s2)
           else Inr (Some p, upd_proc p (allocproc_stack K ks) s2))"

text \<open>Making a process runnable: the end of \<open>userinit\<close> and of \<open>fork\<close>.\<close>

definition make_runnable :: "nat \<Rightarrow> nat \<Rightarrow> 'r kst \<Rightarrow> 'r kst res" where
  "make_runnable me p s =
     bindR (acquire_pt me s) (\<lambda>s1.
       let s2 = upd_proc p (\<lambda>q. q\<lparr>pstate := RUNNABLE\<rparr>) s1 in
       bindR (enqueue (get_least_loaded_e_core s2) p s2) (release_pt me))"

definition SEG_UCODE :: u16 where "SEG_UCODE = 3"
definition SEG_UDATA :: u16 where "SEG_UDATA = 4"
definition DPL_USER :: u16 where "DPL_USER = 3"

definition init_tf :: trapframe where
  "init_tf = (let ds = SEG_UDATA * 8 + DPL_USER in
     zero_tf\<lparr>tf_cs := SEG_UCODE * 8 + DPL_USER, tf_ds := ds, tf_es := ds, tf_ss := ds,
             tf_eflags := 0x200, tf_esp := PGSIZE, tf_eip := 0\<rparr>)"

text \<open>\<open>safestrcpy(d, t, n)\<close> into a name of 16 characters: at most 15 are kept.\<close>

definition safestrcpy_name :: "string \<Rightarrow> string" where
  "safestrcpy_name t = take 15 t"

definition userinit :: "'r kops \<Rightarrow> nat \<Rightarrow> 'r kst \<Rightarrow> 'r kst res" where
  "userinit K me s =
     bindR (allocproc K me s) (\<lambda>(r, s1).
       let s2 = s1\<lparr>initproc := r\<rparr> in
       case r of
         None \<Rightarrow> Inl NullDeref
       | Some p \<Rightarrow>
           bindR (on_res (setupkvm_op K) s2) (\<lambda>(pd, s3).
           let s4 = upd_proc p (\<lambda>q. q\<lparr>pgdir := pd\<rparr>) s3 in
           if pd = 0 then Inl (Panic ''userinit: out of memory?'')
           else
             bindR (on_res0 (inituvm_op K pd (initcode K)) s4) (\<lambda>s5.
             let s6 = upd_proc p (\<lambda>q. q\<lparr>psz := PGSIZE, tf := init_tf,
                        pname := safestrcpy_name ''initcode''\<rparr>) s5 in
             bindR (namei_op K ''/'' (res s6)) (\<lambda>(ip, chs, r1).
             bindR (foldR (\<lambda>ch. wakeup me (Some ch)) chs (s6\<lparr>res := r1\<rparr>)) (\<lambda>s7.
             make_runnable me p (upd_proc p (\<lambda>q. q\<lparr>cwd := ip\<rparr>) s7))))))"

definition growproc :: "'r kops \<Rightarrow> nat \<Rightarrow> int \<Rightarrow> 'r kst \<Rightarrow> (int \<times> 'r kst) res" where
  "growproc K me n s =
     (case myproc me s of
        None \<Rightarrow> Inl NullDeref
      | Some p \<Rightarrow>
          let sz = psz (procs s p); pd = pgdir (procs s p) in
          bindR (if n > 0 then on_res (allocuvm_op K pd sz (sz + of_int n)) s
                 else if n < 0 then on_res (deallocuvm_op K pd sz (sz + of_int n)) s
                 else Inr (sz, s)) (\<lambda>(sz', s1).
            if n \<noteq> 0 \<and> sz' = 0 then Inr (-1, s1)
            else bindR (switchuvm me p (upd_proc p (\<lambda>q. q\<lparr>psz := sz'\<rparr>) s1)) (\<lambda>s2. Inr (0, s2))))"

text \<open>The loop of \<open>fork\<close> over the open files of the parent \<open>c\<close> and the child \<open>np\<close>.\<close>

definition fork_file :: "'r kops \<Rightarrow> nat \<Rightarrow> nat \<Rightarrow> nat \<Rightarrow> 'r kst \<Rightarrow> 'r kst res" where
  "fork_file K c np i s =
     (case ofile (procs s c) i of
        None \<Rightarrow> Inr s
      | Some f \<Rightarrow> bindR (on_res (filedup_op K f) s)
          (\<lambda>(f', s1). Inr (upd_proc np (\<lambda>q. q\<lparr>ofile := (ofile q)(i := Some f')\<rparr>) s1)))"

definition fork_image :: "proc \<Rightarrow> u32 \<Rightarrow> nat \<Rightarrow> proc \<Rightarrow> proc" where
  "fork_image par pd c q =
     q\<lparr>pgdir := pd, psz := psz par, parent := Some c, tf := (tf par)\<lparr>tf_eax := 0\<rparr>\<rparr>"

text \<open>\<open>fork\<close> after \<open>allocproc\<close> has found the slot \<open>np\<close>: the files and directory, and the memory.\<close>

definition fork_files_cwd :: "'r kops \<Rightarrow> nat \<Rightarrow> nat \<Rightarrow> nat \<Rightarrow> 'r kst \<Rightarrow> (int \<times> 'r kst) res" where
  "fork_files_cwd K me c np s =
     bindR (foldR (fork_file K c np) [0..<NOFILE] s) (\<lambda>s3.
       case cwd (procs s3 c) of
         None \<Rightarrow> Inl NullDeref
       | Some d \<Rightarrow>
           bindR (on_res (idup_op K d) s3) (\<lambda>(d', s4).
           let s5 = upd_proc np (\<lambda>q. q\<lparr>cwd := Some d',
                      pname := safestrcpy_name (pname (procs s4 c))\<rparr>) s4 in
           bindR (make_runnable me np s5) (\<lambda>s6. Inr (pid (procs s5 np), s6))))"

definition fork_copy :: "'r kops \<Rightarrow> nat \<Rightarrow> nat \<Rightarrow> nat \<Rightarrow> 'r kst \<Rightarrow> (int \<times> 'r kst) res" where
  "fork_copy K me c np s1 =
     bindR (on_res (copyuvm_op K (pgdir (procs s1 c)) (psz (procs s1 c))) s1) (\<lambda>(pd, s2).
       if pd = 0
       then bindR (on_res0 (kfree_op K (kstack (procs s2 np))) s2) (\<lambda>s3.
         Inr (-1, upd_proc np (\<lambda>q. q\<lparr>pgdir := 0, kstack := 0, pstate := UNUSED\<rparr>) s3))
       else fork_files_cwd K me c np (upd_proc np (fork_image (procs s2 c) pd c) s2))"

definition fork :: "'r kops \<Rightarrow> nat \<Rightarrow> 'r kst \<Rightarrow> (int \<times> 'r kst) res" where
  "fork K me s =
     (case myproc me s of
        None \<Rightarrow> Inl NullDeref
      | Some c \<Rightarrow>
          bindR (allocproc K me s) (\<lambda>(r, s1).
            case r of
              None \<Rightarrow> Inr (-1, s1)
            | Some np \<Rightarrow> fork_copy K me c np s1))"

text \<open>\<open>exit\<close> closes the files, releases the directory, wakes the parent, and reparents the children.\<close>

definition exit_file :: "'r kops \<Rightarrow> nat \<Rightarrow> nat \<Rightarrow> nat \<Rightarrow> 'r kst \<Rightarrow> 'r kst res" where
  "exit_file K me c fd s =
     (case ofile (procs s c) fd of
        None \<Rightarrow> Inr s
      | Some f \<Rightarrow> bindR (on_res_wake me (fileclose_op K f) s)
          (\<lambda>s1. Inr (upd_proc c (\<lambda>q. q\<lparr>ofile := (ofile q)(fd := None)\<rparr>) s1)))"

definition exit_reparent :: "nat \<Rightarrow> nat \<Rightarrow> 'r kst \<Rightarrow> 'r kst res" where
  "exit_reparent c i s =
     (if parent (procs s i) = Some c
      then let s1 = upd_proc i (\<lambda>q. q\<lparr>parent := initproc s\<rparr>) s in
        if pstate (procs s i) = ZOMBIE then wakeup1 (map_option ChanProc (initproc s)) s1 else Inr s1
      else Inr s)"

definition exit_resources :: "'r kops \<Rightarrow> nat \<Rightarrow> nat \<Rightarrow> 'r kst \<Rightarrow> 'r kst res" where
  "exit_resources K me c s =
     bindR (foldR (exit_file K me c) [0..<NOFILE] s) (\<lambda>s1.
     bindR (on_res0 (begin_op_op K) s1) (\<lambda>s2.
     case cwd (procs s2 c) of
       None \<Rightarrow> Inl NullDeref
     | Some d \<Rightarrow>
         bindR (on_res_wake me (iput_op K d) s2) (\<lambda>s3.
         bindR (on_res_wake me (end_op_op K) s3) (\<lambda>s4.
         Inr (upd_proc c (\<lambda>q. q\<lparr>cwd := None\<rparr>) s4)))))"

definition exit_metrics :: "nat \<Rightarrow> 'r kst \<Rightarrow> 'r kst" where
  "exit_metrics c s =
     (let s1 = upd_proc c (\<lambda>q. q\<lparr>etime := ticks s\<rparr>) s in
      if metrics_active s
      then s1\<lparr>metrics_proc_completed := wrap32 (metrics_proc_completed s + 1)\<rparr> else s1)"

definition exit :: "'r kops \<Rightarrow> nat \<Rightarrow> 'r kst \<Rightarrow> 'r kst res" where
  "exit K me s =
     (if myproc me s = initproc s then Inl (Panic ''init exiting'')
      else case myproc me s of
        None \<Rightarrow> Inl NullDeref
      | Some c \<Rightarrow>
          bindR (exit_resources K me c s) (\<lambda>s1.
          bindR (acquire_pt me s1) (\<lambda>s2.
          let s3 = exit_metrics c s2 in
          bindR (wakeup1 (map_option ChanProc (parent (procs s3 c))) s3) (\<lambda>s4.
          bindR (foldR (exit_reparent c) [0..<NPROC] s4) (\<lambda>s5.
          bindR (sched me (upd_proc c (\<lambda>q. q\<lparr>pstate := ZOMBIE\<rparr>) s5)) (\<lambda>(saved, s6).
          Inr s6))))))"

text \<open>
  \<open>wait\<close>: one pass of its loop, with the table lock held. The pass returns a pid (or -1), or
  puts the caller to sleep; \<open>wait_resume\<close> is the next pass, after the wakeup.
\<close>

datatype wait_result = Waited int | Sleeps int

definition wait_reap :: "'r kops \<Rightarrow> nat \<Rightarrow> 'r kst \<Rightarrow> 'r kst res" where
  "wait_reap K p s =
     bindR (on_res0 (kfree_op K (kstack (procs s p))) s) (\<lambda>s1.
     bindR (on_res0 (freevm_op K (pgdir (procs s p))) (upd_proc p (\<lambda>q. q\<lparr>kstack := 0\<rparr>) s1)) (\<lambda>s2.
     Inr (upd_proc p (\<lambda>q. q\<lparr>pid := 0, parent := None, pname := [], killed := 0,
            pstate := UNUSED\<rparr>) s2)))"

definition wait_pass :: "'r kops \<Rightarrow> nat \<Rightarrow> nat \<Rightarrow> 'r kst \<Rightarrow> (wait_result \<times> 'r kst) res" where
  "wait_pass K me c s =
     (case first_index (\<lambda>p. parent (procs s p) = Some c \<and> pstate (procs s p) = ZOMBIE) NPROC of
        Some p \<Rightarrow>
          bindR (wait_reap K p s) (\<lambda>s1.
          bindR (release_pt me s1) (\<lambda>s2. Inr (Waited (pid (procs s p)), s2)))
      | None \<Rightarrow>
          if (\<forall>p<NPROC. parent (procs s p) \<noteq> Some c) \<or> killed (procs s c) \<noteq> 0
          then bindR (release_pt me s) (\<lambda>s1. Inr (Waited (-1), s1))
          else bindR (sleep me (Some (ChanProc c)) PtableLk s) (\<lambda>(lk, saved, s1). Inr (Sleeps saved, s1)))"

definition wait :: "'r kops \<Rightarrow> nat \<Rightarrow> 'r kst \<Rightarrow> (wait_result \<times> 'r kst) res" where
  "wait K me s =
     (case myproc me s of
        None \<Rightarrow> Inl NullDeref
      | Some c \<Rightarrow> bindR (acquire_pt me s) (wait_pass K me c))"

definition wait_resume :: "'r kops \<Rightarrow> nat \<Rightarrow> nat \<Rightarrow> int \<Rightarrow> 'r kst \<Rightarrow> (wait_result \<times> 'r kst) res" where
  "wait_resume K me c saved s =
     bindR (sleep_resume me saved PtableLk s) (\<lambda>(lk, s1). wait_pass K me c s1)"

text \<open>\<open>forkret\<close>: the first time it runs, the file system is initialised (\<open>iinit\<close>, \<open>initlog\<close>).\<close>

definition forkret :: "('r \<Rightarrow> 'r res) \<Rightarrow> nat \<Rightarrow> bool \<Rightarrow> 'r kst \<Rightarrow> (bool \<times> 'r kst) res" where
  "forkret fsinit me first s =
     bindR (release_pt me s) (\<lambda>s1.
       if first then bindR (on_res0 fsinit s1) (\<lambda>s2. Inr (False, s2)) else Inr (first, s1))"

text \<open>
  The process-family query. The C function fills arrays of the given capacities; the result
  here is the parent's pid and the filled prefixes of the two arrays.
\<close>

definition collect_process_family ::
  "nat \<Rightarrow> int \<Rightarrow> nat \<Rightarrow> nat \<Rightarrow> 'r kst \<Rightarrow> ((int \<times> int list \<times> int list) option \<times> 'r kst) res" where
  "collect_process_family me pd max_child max_sib s =
     bindR (acquire_pt me s) (\<lambda>s1.
       case first_index (\<lambda>i. pstate (procs s1 i) \<noteq> UNUSED \<and> pid (procs s1 i) = pd) NPROC of
         None \<Rightarrow> bindR (release_pt me s1) (\<lambda>s2. Inr (None, s2))
       | Some t \<Rightarrow>
           let used = filter (\<lambda>i. pstate (procs s1 i) \<noteq> UNUSED) [0..<NPROC];
               pids = (\<lambda>is. map (\<lambda>i. pid (procs s1 i)) is);
               ppid = (case parent (procs s1 t) of None \<Rightarrow> -1 | Some q \<Rightarrow> pid (procs s1 q));
               kids = pids (filter (\<lambda>i. parent (procs s1 i) = Some t) used);
               sibs = (case parent (procs s1 t) of
                         None \<Rightarrow> []
                       | Some q \<Rightarrow> pids (filter (\<lambda>i. parent (procs s1 i) = Some q \<and>
                                       pid (procs s1 i) \<noteq> pid (procs s1 t)) used))
           in bindR (release_pt me s1) (\<lambda>s2.
                Inr (Some (ppid, take max_child kids, take max_sib sibs), s2)))"

text \<open>The product is that of C's \<open>int\<close>: every operation wraps.\<close>

definition simple_arithmetic_syscall :: "int \<Rightarrow> int \<Rightarrow> int" where
  "simple_arithmetic_syscall a b = wrap32 (wrap32 (a + b) * wrap32 (a - b))"

definition start_measure :: "nat \<Rightarrow> 'r kst \<Rightarrow> (int \<times> 'r kst) res" where
  "start_measure me s =
     bindR (acquire_pt me s) (\<lambda>s1.
     bindR (release_pt me (s1\<lparr>metrics_active := True, metrics_start_tick := ticks s1,
              metrics_proc_completed := 0\<rparr>)) (\<lambda>s2. Inr (0, s2)))"

text \<open>
  What \<open>end_measure\<close> prints: duration, completed processes, throughput. The division mixes an
  \<open>int\<close> and a \<open>uint\<close>, so it is unsigned.
\<close>

definition throughput :: "int \<Rightarrow> u32 \<Rightarrow> int" where
  "throughput done duration =
     (if 0 < duration then sint ((of_int (done * 1000) :: u32) div duration) else 0)"

definition end_measure :: "nat \<Rightarrow> 'r kst \<Rightarrow> (int \<times> (u32 \<times> int \<times> int) option \<times> 'r kst) res" where
  "end_measure me s =
     bindR (acquire_pt me s) (\<lambda>s1.
       if \<not> metrics_active s1
       then bindR (release_pt me s1) (\<lambda>s2. Inr (-1, None, s2))
       else
         let duration = ticks s1 - metrics_start_tick s1; done = metrics_proc_completed s1 in
         bindR (release_pt me (s1\<lparr>metrics_active := False\<rparr>)) (\<lambda>s2.
           Inr (0, Some (duration, done, throughput done duration), s2)))"

text \<open>One line of \<open>print_info\<close>: pid, name, state, lifetime, algorithm and queue.\<close>

datatype algo = GLOBAL | RR_E | FCFS_P

definition algo_of :: "cpu \<Rightarrow> algo" where
  "algo_of c = (if core_type c = CORE_E then RR_E else FCFS_P)"

definition on_queue :: "'r kst \<Rightarrow> nat \<Rightarrow> nat \<Rightarrow> bool res" where
  "on_queue s p i =
     bindR (of_opt Diverges (find_in_queue (nx s) (\<lambda>c. c = p) (runq (cpus s i))))
       (\<lambda>r. Inr (r \<noteq> None))"

fun find_queue :: "'r kst \<Rightarrow> nat \<Rightarrow> nat list \<Rightarrow> nat option res" where
  "find_queue s p [] = Inr None"
| "find_queue s p (i # is) = bindR (on_queue s p i) (\<lambda>b. if b then Inr (Some i) else find_queue s p is)"

definition info_queue :: "'r kst \<Rightarrow> nat \<Rightarrow> (algo \<times> int) res" where
  "info_queue s p =
     bindR (find_queue s p [0..<ncpu s]) (\<lambda>r.
       let r' = (case r of Some i \<Rightarrow> Some i
                 | None \<Rightarrow> if pstate (procs s p) = RUNNING
                           then first_index (\<lambda>i. cproc (cpus s i) = Some p) (ncpu s) else None)
       in Inr (case r' of Some i \<Rightarrow> (algo_of (cpus s i), int i) | None \<Rightarrow> (GLOBAL, -1)))"

definition info_line :: "'r kst \<Rightarrow> nat \<Rightarrow> (int \<times> string \<times> procstate \<times> u32 \<times> algo \<times> int) res" where
  "info_line s p =
     bindR (info_queue s p) (\<lambda>(a, i).
       let q = procs s p; lifetime = (if pstate q = ZOMBIE then etime q else ticks s) - ctime q
       in Inr (pid q, pname q, pstate q, lifetime, a, i))"

fun collectR :: "('a \<Rightarrow> 'b res) \<Rightarrow> 'a list \<Rightarrow> 'b list res" where
  "collectR f [] = Inr []"
| "collectR f (x # xs) = bindR (f x) (\<lambda>y. bindR (collectR f xs) (\<lambda>ys. Inr (y # ys)))"

definition print_info ::
  "nat \<Rightarrow> 'r kst \<Rightarrow> ((int \<times> string \<times> procstate \<times> u32 \<times> algo \<times> int) list \<times> 'r kst) res" where
  "print_info me s =
     bindR (acquire_pt me s) (\<lambda>s1.
     bindR (collectR (info_line s1) (filter (\<lambda>p. pstate (procs s1 p) \<noteq> UNUSED) [0..<NPROC])) (\<lambda>ls.
     bindR (release_pt me s1) (\<lambda>s2. Inr (ls, s2))))"

text \<open>
  \<open>procdump\<close> prints, for each process in use, a newline, preceded for a sleeping one by its
  return addresses up to the first null one; the state name it computes is not printed.
\<close>

definition procdump_line :: "(u32 \<Rightarrow> u32) \<Rightarrow> proc \<Rightarrow> u32 list" where
  "procdump_line m q =
     (if pstate q = SLEEPING then takeWhile (\<lambda>a. a \<noteq> 0) (getcallerpcs m (cx_ebp (ctx q) + 8)) else [])"

definition procdump :: "(u32 \<Rightarrow> u32) \<Rightarrow> 'r kst \<Rightarrow> u32 list list" where
  "procdump m s =
     map (\<lambda>i. procdump_line m (procs s i)) (filter (\<lambda>i. pstate (procs s i) \<noteq> UNUSED) [0..<NPROC])"

section \<open>Frames\<close>

lemma sched_good_fields [simp]:
  "sched_good X (s\<lparr>res := r\<rparr>) qs = sched_good X s qs"
  "sched_good X (s\<lparr>nextpid := n\<rparr>) qs = sched_good X s qs"
  "sched_good X (s\<lparr>initproc := q\<rparr>) qs = sched_good X s qs"
  "sched_good X (s\<lparr>tickslock := l\<rparr>) qs = sched_good X s qs"
  "sched_good X (s\<lparr>metrics_active := b\<rparr>) qs = sched_good X s qs"
  "sched_good X (s\<lparr>metrics_start_tick := u\<rparr>) qs = sched_good X s qs"
  "sched_good X (s\<lparr>metrics_proc_completed := i\<rparr>) qs = sched_good X s qs"
  by (simp_all add: sched_good_def queues_def nx_def has_image_def)

lemma nest_fields [simp]:
  "nest_ok me n (s\<lparr>res := r\<rparr>) = nest_ok me n s" "nest_ok me n (s\<lparr>nextpid := k\<rparr>) = nest_ok me n s"
  "nest_ok me n (s\<lparr>initproc := q\<rparr>) = nest_ok me n s"
  "nest_ok me n (s\<lparr>metrics_proc_completed := i\<rparr>) = nest_ok me n s"
  "nest_ok me n (upd_proc p f s) = nest_ok me n s"
  by (simp_all add: nest_ok_def)

lemma quiet_fields [simp]:
  "quiet (s\<lparr>res := r\<rparr>) = quiet s" "quiet (s\<lparr>initproc := q\<rparr>) = quiet s" "quiet (upd_proc p f s) = quiet s"
  by (simp_all add: quiet_def)

lemma held_fields [simp]:
  "held me n (s\<lparr>res := r\<rparr>) = held me n s" "held me n (s\<lparr>nextpid := k\<rparr>) = held me n s"
  "held me n (s\<lparr>metrics_proc_completed := i\<rparr>) = held me n s"
  "held me n (s\<lparr>metrics_active := b\<rparr>) = held me n s" "held me n (s\<lparr>metrics_start_tick := u\<rparr>) = held me n s"
  by (simp_all add: held_def nest_ok_def)

text \<open>A process that is on no queue and on no CPU can be changed freely as long as it stays so.\<close>

lemma queues_upd_off:
  assumes "queues s qs" and "\<forall>c<ncpu s. p \<notin> set (qs c)"
  shows "queues (upd_proc p f s) qs"
proof -
  have "chain (nx (upd_proc p f s)) (runq (cpus s c)) (qs c)" if "c < ncpu s" for c
    using queuesD(1) [OF assms(1) that] assms(2) that by (simp add: nx_upd_proc chain_frame)
  then show ?thesis using assms(1) by (simp add: queues_def)
qed

lemma sched_good_upd_off:
  assumes g: "sched_good X s qs" and p: "pstate (procs s p) \<notin> {RUNNABLE, RUNNING}"
    and f: "pstate (f (procs s p)) \<notin> {RUNNABLE, RUNNING}"
    and im: "p < NPROC \<Longrightarrow> pstate (f (procs s p)) \<in> live \<Longrightarrow> kstack (f (procs s p)) \<noteq> 0 \<and> pgdir (f (procs s p)) \<noteq> 0"
  shows "sched_good X (upd_proc p f s) qs"
proof -
  note D = sched_goodD [OF g]
  have off: "\<forall>c<ncpu s. p \<notin> set (qs c)" using D(5) p by auto
  have q: "queues (upd_proc p f s) qs" by (rule queues_upd_off [OF viewD(1) [OF D(1)] off])
  have st: "\<And>i. pstate (((procs s)(p := f (procs s p))) i) = x \<longleftrightarrow> pstate (procs s i) = x"
    if "x \<in> {RUNNABLE, RUNNING}" for x using p f that by auto
  have "sinv (ncpu s) (\<lambda>i. pstate (((procs s)(p := f (procs s p))) i)) (\<lambda>c. cproc (cpus s c)) X (queued (ncpu s) qs)"
    by (rule sinvI) (use sinvD(1,2,4,5) [OF D(2)] in \<open>simp_all only: st [OF insertI1] st [of RUNNING] insert_iff simp_thms\<close>)
  moreover have "has_image (upd_proc p f s) i" if "i < NPROC" "pstate (procs (upd_proc p f s) i) \<in> live" for i
    using D(4) [of i] im that by (cases "i = p") (auto simp: has_image_def)
  ultimately show ?thesis using q D(3) by (simp add: sched_good_def)
qed

text \<open>A change of a process that keeps its state, queue link and memory.\<close>

lemma sched_good_upd_same:
  assumes g: "sched_good X s qs" and "\<And>q. pstate (f q) = pstate q" "\<And>q. next_run (f q) = next_run q"
    "\<And>q. kstack (f q) = kstack q" "\<And>q. pgdir (f q) = pgdir q"
  shows "sched_good X (upd_proc p f s) qs"
proof -
  have "procs (upd_proc p f s) i = (if i = p then f (procs s p) else procs s i)" for i by simp
  then have "pstate (procs (upd_proc p f s) i) = pstate (procs s i)" "has_image (upd_proc p f s) i = has_image s i" for i
    using assms by (simp_all add: has_image_def)
  moreover have "queues (upd_proc p f s) qs = queues s qs" by (rule queues_upd_proc) (simp add: assms)
  ultimately show ?thesis using g by (simp add: sched_good_def del: procs_upd_proc)
qed

section \<open>Allocating a process\<close>

lemma acquire_ticks_ok:
  assumes "nest_ok me n s" "0 \<le> n" "locked (tickslock s) = 0"
  shows "\<exists>s'. acquire_ticks me s = Inr s' \<and> lframe s s' \<and> nest_ok me (n + 1) s' \<and>
    ptable_lock s' = ptable_lock s \<and> mine me (tickslock s')"
  using acquire_any [OF assms, of True] by (auto simp: acquire_ticks_def lframe_locks)

lemma release_ticks_ok:
  assumes "nest_ok me n s" "0 < n" "mine me (tickslock s)"
  shows "\<exists>s'. release_ticks me s = Inr s' \<and> lframe s s' \<and> nest_ok me (n - 1) s' \<and>
    ptable_lock s' = ptable_lock s \<and> locked (tickslock s') = 0"
  using release_any [OF assms] by (auto simp: release_ticks_def lframe_locks)

definition slot_init :: "'r kst \<Rightarrow> proc \<Rightarrow> proc" where
  "slot_init s q = q\<lparr>pstate := EMBRYO, pid := nextpid s, ctime := ticks s, next_run := None,
     etime := 0, slice_ticks := 0\<rparr>"

lemma lk_erase_upd [simp]:
  "lk_erase (upd_proc p f s) = upd_proc p f (lk_erase s)"
  "lk_erase (s\<lparr>nextpid := n\<rparr>) = (lk_erase s)\<lparr>nextpid := n\<rparr>"
  "lk_erase (s\<lparr>res := r\<rparr>) = (lk_erase s)\<lparr>res := r\<rparr>"
  by (simp_all add: lk_erase_def upd_proc_def)

lemma upd_proc_upd_proc [simp]: "upd_proc p f (upd_proc p g s) = upd_proc p (\<lambda>q. f (g q)) s"
  by (simp add: upd_proc_def)

lemma upd_proc_nextpid [simp]: "upd_proc p f (s\<lparr>nextpid := n\<rparr>) = (upd_proc p f s)\<lparr>nextpid := n\<rparr>"
  by (simp add: upd_proc_def)

lemma allocproc_slot_ok:
  assumes c: "quiet s" and tk: "locked (tickslock s) = 0"
  shows "case first_index (\<lambda>i. pstate (procs s i) = UNUSED) NPROC of
      None \<Rightarrow> \<exists>s'. allocproc_slot me s = Inr (None, s') \<and> lframe s s' \<and> quiet s' \<and> tickslock s' = tickslock s
    | Some p \<Rightarrow> \<exists>s'. allocproc_slot me s = Inr (Some p, s') \<and> quiet s' \<and> locked (tickslock s') = 0 \<and>
        lframe ((upd_proc p (slot_init s) s)\<lparr>nextpid := wrap32 (nextpid s + 1)\<rparr>) s'"
proof -
  obtain s1 where s1: "acquire_pt me s = Inr s1" "lframe s s1" "held me 1 s1" "tickslock s1 = tickslock s"
    using acquire_pt_calm [of me 0 s] c by (auto simp: quiet_calm [of s me])
  have p1: "procs s1 = procs s" "nextpid s1 = nextpid s" by (simp_all add: lframe_simps [OF s1(2)])
  show ?thesis
  proof (cases "first_index (\<lambda>i. pstate (procs s i) = UNUSED) NPROC")
    case None
    from release_pt_held [OF s1(3)] obtain s2 where
      s2: "release_pt me s1 = Inr s2" "lframe s1 s2" "calm me 0 s2" "tickslock s2 = tickslock s1" by auto
    then show ?thesis
      using None s1 lframe_trans [OF s1(2)] by (auto simp: allocproc_slot_def p1 quiet_calm [of s2 me])
  next
    case (Some p)
    define s2 where "s2 = (upd_proc p (\<lambda>q. q\<lparr>pstate := EMBRYO, pid := nextpid s\<rparr>) s1)\<lparr>nextpid := wrap32 (nextpid s + 1)\<rparr>"
    have h2: "held me 1 s2" "tickslock s2 = tickslock s" using s1(3,4) by (simp_all add: s2_def)
    then obtain s3 where s3: "acquire_ticks me s2 = Inr s3" "lframe s2 s3" "nest_ok me 2 s3"
      "ptable_lock s3 = ptable_lock s2" "mine me (tickslock s3)"
      using acquire_ticks_ok [of me 1 s2] tk by (auto simp: held_def)
    define s4 where "s4 = upd_proc p (\<lambda>q. q\<lparr>ctime := ticks s3, slice_ticks := 0, next_run := None, etime := 0\<rparr>) s3"
    obtain s5 where s5: "release_ticks me s4 = Inr s5" "lframe s4 s5" "nest_ok me 1 s5"
      "ptable_lock s5 = ptable_lock s4" "locked (tickslock s5) = 0"
      using release_ticks_ok [of me 2 s4] s3(3,5) by (auto simp: s4_def)
    define s6 where "s6 = upd_proc p (\<lambda>q. q\<lparr>slice_ticks := 0\<rparr>) s5"
    have "held me 1 s6" using h2 s3(4) s5(3,4) by (simp add: held_def s6_def s4_def)
    from release_pt_held [OF this] obtain s7 where
      s7: "release_pt me s6 = Inr s7" "lframe s6 s7" "calm me 0 s7" "tickslock s7 = tickslock s6" by auto
    have "lframe ((upd_proc p (slot_init s) s)\<lparr>nextpid := wrap32 (nextpid s + 1)\<rparr>) s7"
      using s7(2) s5(2) s3(2) s1(2) lframe_simps(3) [OF s3(2)] lframe_simps(3) [OF s1(2)] p1(2)
      by (simp add: lframe_def s6_def s4_def s2_def slot_init_def [abs_def])
    then show ?thesis
      using Some s1(1) s3(1) s5(1,5) s7
      by (auto simp: allocproc_slot_def p1 s2_def [symmetric] s4_def [symmetric] s6_def [symmetric] quiet_calm [of s7 me])
        (simp add: s6_def)
  qed
qed

lemma get_least_cong:
  assumes "\<And>c. core_type (cpus t c) = core_type (cpus s c)" "\<And>c. queue_count (cpus t c) = queue_count (cpus s c)"
    and "ncpu t = ncpu s"
  shows "get_least_loaded_e_core t = get_least_loaded_e_core s"
proof -
  have "lightest_step CORE_E (cpus t) = lightest_step CORE_E (cpus s)"
    by (intro ext) (simp add: lightest_step_def assms)
  then show ?thesis by (simp add: get_least_loaded_e_core_def assms)
qed

text \<open>Two states whose processes differ only in their queue links, as queue operations leave them.\<close>

definition psame :: "'r kst \<Rightarrow> 'r kst \<Rightarrow> bool" where
  "psame s t \<longleftrightarrow> (\<forall>i. (procs t i)\<lparr>next_run := None\<rparr> = (procs s i)\<lparr>next_run := None\<rparr>) \<and>
     (\<forall>c. cproc (cpus t c) = cproc (cpus s c)) \<and> ncpu t = ncpu s \<and> res t = res s \<and>
     initproc t = initproc s \<and> ticks t = ticks s \<and> nextpid t = nextpid s"

lemma psame_refl [simp]: "psame s s" by (simp add: psame_def)

lemma psame_trans: "psame s t \<Longrightarrow> psame t u \<Longrightarrow> psame s u" by (simp add: psame_def)

lemma psame_qframe: "qframe s t \<Longrightarrow> psame s t"
  by (simp add: psame_def qframe_simps) (simp add: qframe_def)

lemma psame_lframe: "lframe s t \<Longrightarrow> psame s t"
  by (simp add: psame_def lframe_simps)

lemma psame_proc: "psame s t \<Longrightarrow> procs t i = (procs s i)\<lparr>next_run := next_run (procs t i)\<rparr>"
  by (rule proc_erase_next_eq) (simp add: psame_def)

lemma psame_fields:
  assumes "psame s t"
  shows "pstate (procs t i) = pstate (procs s i)" "pid (procs t i) = pid (procs s i)"
    "parent (procs t i) = parent (procs s i)" "tf (procs t i) = tf (procs s i)"
    "psz (procs t i) = psz (procs s i)" "pgdir (procs t i) = pgdir (procs s i)"
    "kstack (procs t i) = kstack (procs s i)" "ofile (procs t i) = ofile (procs s i)"
    "cwd (procs t i) = cwd (procs s i)" "pname (procs t i) = pname (procs s i)"
    "pchan (procs t i) = pchan (procs s i)" "killed (procs t i) = killed (procs s i)"
    "ctime (procs t i) = ctime (procs s i)" "etime (procs t i) = etime (procs s i)"
    "ctx (procs t i) = ctx (procs s i)" "ctx_ret (procs t i) = ctx_ret (procs s i)"
    "ctx_addr (procs t i) = ctx_addr (procs s i)" "tf_addr (procs t i) = tf_addr (procs s i)"
    "slice_ticks (procs t i) = slice_ticks (procs s i)"
  by (subst psame_proc [OF assms], simp)+

lemma psame_globals:
  assumes "psame s t"
  shows "cproc (cpus t c) = cproc (cpus s c)" "myproc c t = myproc c s" "ncpu t = ncpu s" "res t = res s"
    "initproc t = initproc s" "ticks t = ticks s" "nextpid t = nextpid s"
  using assms by (auto simp: psame_def myproc_def)

lemmas psame_simps = psame_fields psame_globals

lemma queued_enqueue_good:
  assumes g: "sched_good X s qs" and p: "p < NPROC" "pstate (procs s p) \<notin> {RUNNABLE, RUNNING}" "has_image s p"
    and c: "c < ncpu s"
  shows "\<exists>t. enqueue c p (upd_proc p (\<lambda>q. q\<lparr>pstate := RUNNABLE\<rparr>) s) = Inr t \<and>
    sched_good X t (qs(c := qs c @ [p])) \<and> qframe (upd_proc p (\<lambda>q. q\<lparr>pstate := RUNNABLE\<rparr>) s) t"
proof -
  note D = sched_goodD [OF g]
  define s1 where "s1 = upd_proc p (\<lambda>q. q\<lparr>pstate := RUNNABLE\<rparr>) s"
  have v1: "view s1 qs ((\<lambda>i. pstate (procs s i))(p := RUNNABLE)) (\<lambda>c. cproc (cpus s c))"
    unfolding s1_def by (rule view_upd_proc [OF D(1)]) simp_all
  have n1: "ncpu s1 = ncpu s" by (simp add: s1_def)
  have "\<forall>d<ncpu s1. p \<notin> set (qs d)" using D(5) p(2) n1 by auto
  then obtain t where t: "enqueue c p s1 = Inr t" "queues t (qs(c := qs c @ [p]))" "qframe s1 t"
    using rq.enq_appends [OF viewD(1) [OF v1]] c n1 by metis
  have v: "view t (qs(c := qs c @ [p])) ((\<lambda>i. pstate (procs s i))(p := RUNNABLE)) (\<lambda>c. cproc (cpus s c))"
    by (rule view_qframe [OF v1 t(3,2)])
  have x: "p \<notin> X" using sinvD(5) [OF D(2), of p] p(2) by auto
  have "sinv (ncpu s) ((\<lambda>i. pstate (procs s i))(p := RUNNABLE)) (\<lambda>c. cproc (cpus s c)) X (insert p (queued (ncpu s) qs))"
  proof (rule sinvI)
    fix i
    show "i \<in> insert p (queued (ncpu s) qs) \<longleftrightarrow> i < NPROC \<and> ((\<lambda>i. pstate (procs s i))(p := RUNNABLE)) i = RUNNABLE \<and> i \<notin> X"
      using sinvD(1) [OF D(2), of i] p x by auto
    show "i \<in> X \<Longrightarrow> i < NPROC \<and> ((\<lambda>i. pstate (procs s i))(p := RUNNABLE)) i = RUNNABLE"
      using sinvD(5) [OF D(2), of i] by auto
    show "(\<exists>c<ncpu s. cproc (cpus s c) = Some i) \<longleftrightarrow> i < NPROC \<and> ((\<lambda>i. pstate (procs s i))(p := RUNNABLE)) i = RUNNING"
      using sinvD(2) [OF D(2), of i] p(2) by auto
  qed (rule sinvD(4) [OF D(2)])
  then have "sched_good X t (qs(c := qs c @ [p]))"
    using v D(3,4) p(3) t(3) n1 viewD [OF v] c
    by (auto simp: sched_good_def queued_snoc qframe_simps [OF t(3)] view_def has_image_def s1_def split: if_splits)
  then show ?thesis using t by (auto simp: s1_def)
qed

lemma make_runnable_ok:
  assumes g: "sched_good X s qs" and q: "quiet s"
    and p: "p < NPROC" "pstate (procs s p) \<notin> {RUNNABLE, RUNNING}" "has_image s p"
  defines "e \<equiv> get_least_loaded_e_core s"
  shows "\<exists>t. make_runnable me p s = Inr t \<and> sched_good X t (qs(e := qs e @ [p])) \<and> quiet t \<and>
    psame (upd_proc p (\<lambda>q. q\<lparr>pstate := RUNNABLE\<rparr>) s) t \<and> tickslock t = tickslock s"
proof -
  obtain s1 where s1: "acquire_pt me s = Inr s1" "lframe s s1" "held me 1 s1" "tickslock s1 = tickslock s"
    using acquire_pt_calm [of me 0 s] q by (auto simp: quiet_calm [of s me])
  have g1: "sched_good X s1 qs" using g by (simp add: sched_good_lframe [OF s1(2)])
  have e: "get_least_loaded_e_core (upd_proc p (\<lambda>q. q\<lparr>pstate := RUNNABLE\<rparr>) s1) = e"
    unfolding e_def by (rule get_least_cong) (simp_all add: lframe_simps [OF s1(2)])
  have "e < ncpu s1" unfolding e_def
    using get_least_loaded_e_core_bound [OF sched_goodD(3) [OF g]] by (simp add: lframe_simps [OF s1(2)])
  moreover have "has_image s1 p" "pstate (procs s1 p) \<notin> {RUNNABLE, RUNNING}"
    using p by (simp_all add: has_image_def lframe_simps [OF s1(2)])
  ultimately obtain s2 where s2: "enqueue e p (upd_proc p (\<lambda>q. q\<lparr>pstate := RUNNABLE\<rparr>) s1) = Inr s2"
    "sched_good X s2 (qs(e := qs e @ [p]))" "qframe (upd_proc p (\<lambda>q. q\<lparr>pstate := RUNNABLE\<rparr>) s1) s2"
    using queued_enqueue_good [OF g1 p(1)] by blast
  have "held me 1 s2" using s1(3) by (simp add: held_qframe [OF s2(3)])
  from release_pt_held [OF this] obtain t where
    t: "release_pt me s2 = Inr t" "lframe s2 t" "calm me 0 t" "tickslock t = tickslock s2" by auto
  have "lframe (upd_proc p (\<lambda>q. q\<lparr>pstate := RUNNABLE\<rparr>) s) (upd_proc p (\<lambda>q. q\<lparr>pstate := RUNNABLE\<rparr>) s1)"
    using s1(2) by (simp add: lframe_def)
  then have "psame (upd_proc p (\<lambda>q. q\<lparr>pstate := RUNNABLE\<rparr>) s) t"
    using psame_lframe psame_qframe [OF s2(3)] psame_lframe [OF t(2)] psame_trans by blast
  then show ?thesis
    using s1(1,4) s2 t e by (auto simp: make_runnable_def sched_good_lframe quiet_calm [of t me] qframe_simps [OF s2(3)])
qed

lemma upd_proc_res [simp]: "upd_proc p f (s\<lparr>res := r\<rparr>) = (upd_proc p f s)\<lparr>res := r\<rparr>"
  by (simp add: upd_proc_def)

text \<open>The slot \<open>allocproc\<close> takes.\<close>

definition free_slot :: "'r kst \<Rightarrow> nat option" where
  "free_slot s = first_index (\<lambda>i. pstate (procs s i) = UNUSED) NPROC"

lemma free_slotD: "free_slot s = Some p \<Longrightarrow> p < NPROC \<and> pstate (procs s p) = UNUSED"
  by (simp add: free_slot_def first_index_Some)

lemma allocproc_none:
  assumes "sched_good X s qs" "quiet s" "locked (tickslock s) = 0" and "free_slot s = None"
  shows "\<exists>s'. allocproc K me s = Inr (None, s') \<and> lframe s s' \<and> quiet s' \<and> tickslock s' = tickslock s \<and>
    sched_good X s' qs"
proof -
  obtain s' where "allocproc_slot me s = Inr (None, s')" "lframe s s'" "quiet s'" "tickslock s' = tickslock s"
    using allocproc_slot_ok [OF assms(2,3), of me] assms(4) by (auto simp: free_slot_def)
  then show ?thesis using assms(1) by (auto simp: allocproc_def sched_good_lframe)
qed

definition new_proc :: "'r kops \<Rightarrow> u32 \<Rightarrow> 'r kst \<Rightarrow> proc \<Rightarrow> proc" where
  "new_proc K ks s q =
     (if ks = 0 then (slot_init s q)\<lparr>kstack := 0, pstate := UNUSED\<rparr> else allocproc_stack K ks (slot_init s q))"

lemma new_proc_simps [simp]:
  "pid (new_proc K ks s q) = nextpid s" "pstate (new_proc K ks s q) = (if ks = 0 then UNUSED else EMBRYO)"
  "kstack (new_proc K ks s q) = ks" "ctime (new_proc K ks s q) = ticks s" "next_run (new_proc K ks s q) = None"
  "ofile (new_proc K ks s q) = ofile q" "parent (new_proc K ks s q) = parent q" "killed (new_proc K ks s q) = killed q"
  by (simp_all add: new_proc_def slot_init_def allocproc_stack_def Let_def)

lemma allocproc_some:
  assumes g: "sched_good X s qs" "quiet s" "locked (tickslock s) = 0" and p: "free_slot s = Some p"
    and k: "kalloc_op K (res s) = (ks, r)"
  shows "\<exists>s'. allocproc K me s = Inr (if ks = 0 then None else Some p, s') \<and> quiet s' \<and> locked (tickslock s') = 0 \<and>
    lframe ((upd_proc p (new_proc K ks s) s)\<lparr>nextpid := wrap32 (nextpid s + 1), res := r\<rparr>) s' \<and>
    sched_good X s' qs"
proof -
  obtain s1 where s1: "allocproc_slot me s = Inr (Some p, s1)" "quiet s1" "locked (tickslock s1) = 0"
    "lframe ((upd_proc p (slot_init s) s)\<lparr>nextpid := wrap32 (nextpid s + 1)\<rparr>) s1"
    using allocproc_slot_ok [OF g(2,3), of me] p by (auto simp: free_slot_def)
  have r1: "res s1 = res s" by (simp add: lframe_simps [OF s1(4)])
  define s2 where "s2 = upd_proc p (\<lambda>q. if ks = 0 then q\<lparr>kstack := 0, pstate := UNUSED\<rparr> else allocproc_stack K ks q) (s1\<lparr>res := r\<rparr>)"
  have l2: "lframe ((upd_proc p (new_proc K ks s) s)\<lparr>nextpid := wrap32 (nextpid s + 1), res := r\<rparr>) s2"
    using s1(4) by (simp add: lframe_def s2_def new_proc_def [abs_def])
  have "sched_good X ((upd_proc p (new_proc K ks s) s)\<lparr>nextpid := wrap32 (nextpid s + 1), res := r\<rparr>) qs"
    by (simp, rule sched_good_upd_off [OF g(1)]) (use free_slotD [OF p] in \<open>auto simp: live_def split: if_splits\<close>)
  then have "sched_good X s2 qs" by (simp add: sched_good_lframe [OF l2])
  then show ?thesis using l2 s1(1-3) k by (auto simp: allocproc_def r1 s2_def)
qed

section \<open>Fork\<close>

fun dup_files :: "'r kops \<Rightarrow> nat list \<Rightarrow> 'r \<Rightarrow> 'r res" where
  "dup_files K [] r = Inr r"
| "dup_files K (f # fs) r = bindR (filedup_op K f r) (\<lambda>(f', r1). dup_files K fs r1)"

definition open_files :: "proc \<Rightarrow> nat list" where
  "open_files q = List.map_filter (ofile q) [0..<NOFILE]"

definition dup_fn :: "(nat \<Rightarrow> nat option) \<Rightarrow> nat set \<Rightarrow> (nat \<Rightarrow> nat option) \<Rightarrow> nat \<Rightarrow> nat option" where
  "dup_fn po I qo i = (if i \<in> I \<and> po i \<noteq> None then po i else qo i)"

definition dup_ofile :: "proc \<Rightarrow> nat set \<Rightarrow> proc \<Rightarrow> proc" where
  "dup_ofile par I q = q\<lparr>ofile := dup_fn (ofile par) I (ofile q)\<rparr>"

lemma dup_fn_simps [simp]:
  "dup_fn po {} qo = qo" "po i = None \<Longrightarrow> dup_fn po (insert i I) qo = dup_fn po I qo"
  "po i = Some f \<Longrightarrow> dup_fn po I (qo(i := Some f)) = dup_fn po (insert i I) qo"
  by (auto simp: dup_fn_def fun_eq_iff)

text \<open>The interface to the file layer that \<open>fork\<close> relies on: \<open>filedup\<close> and \<open>idup\<close> return their argument.\<close>

definition dup_same :: "'r kops \<Rightarrow> bool" where
  "dup_same K \<longleftrightarrow> (\<forall>f r f' r'. filedup_op K f r = Inr (f', r') \<longrightarrow> f' = f) \<and>
     (\<forall>d r d' r'. idup_op K d r = Inr (d', r') \<longrightarrow> d' = d)"

lemma fork_files:
  assumes "dup_same K" and "np \<noteq> c"
    and "dup_files K (List.map_filter (ofile (procs t c)) is) (res t) = Inr r"
  shows "foldR (fork_file K c np) is t = Inr (upd_proc np (dup_ofile (procs t c) (set is)) (t\<lparr>res := r\<rparr>))"
  using assms(3)
proof (induction "is" arbitrary: t)
  case Nil
  then show ?case by (simp add: dup_ofile_def upd_proc_def List.map_filter_def)
next
  case (Cons i js)
  show ?case
  proof (cases "ofile (procs t c) i")
    case None
    then have "foldR (fork_file K c np) js t = Inr (upd_proc np (dup_ofile (procs t c) (set js)) (t\<lparr>res := r\<rparr>))"
      using Cons by (simp add: List.map_filter_simps)
    moreover have "dup_ofile (procs t c) (set (i # js)) = dup_ofile (procs t c) (set js)"
      using None by (simp add: dup_ofile_def [abs_def])
    ultimately show ?thesis using None by (simp add: fork_file_def [of K c np i t])
  next
    case (Some f)
    with Cons.prems obtain r1 where r1: "filedup_op K f (res t) = Inr (f, r1)"
      "dup_files K (List.map_filter (ofile (procs t c)) js) r1 = Inr r"
      using assms(1) unfolding dup_same_def by (fastforce simp: List.map_filter_simps bindR_eq_Inr)
    define t1 where "t1 = upd_proc np (\<lambda>q. q\<lparr>ofile := (ofile q)(i := Some f)\<rparr>) (t\<lparr>res := r1\<rparr>)"
    have t1: "procs t1 c = procs t c" "res t1 = r1" using assms(2) by (simp_all add: t1_def)
    have "foldR (fork_file K c np) js t1 = Inr (upd_proc np (dup_ofile (procs t c) (set js)) (t1\<lparr>res := r\<rparr>))"
      using Cons.IH [of t1] r1(2) by (simp add: t1)
    moreover have "upd_proc np (dup_ofile (procs t c) (set js)) (t1\<lparr>res := r\<rparr>) =
        upd_proc np (dup_ofile (procs t c) (set (i # js))) (t\<lparr>res := r\<rparr>)"
      using Some by (simp add: t1_def upd_proc_def dup_ofile_def)
    ultimately show ?thesis using Some r1(1) by (simp add: fork_file_def [of K c np i t] on_res_def t1_def)
  qed
qed


text \<open>The child of \<open>fork\<close>, before it is made runnable.\<close>

definition fork_child :: "'r kops \<Rightarrow> u32 \<Rightarrow> u32 \<Rightarrow> nat \<Rightarrow> nat \<Rightarrow> 'r kst \<Rightarrow> proc \<Rightarrow> proc" where
  "fork_child K ks pd c d s q =
     (let par = procs s c in
      (dup_ofile par {0..<NOFILE} (fork_image par pd c (new_proc K ks s q)))
        \<lparr>cwd := Some d, pname := take 15 (pname par)\<rparr>)"

lemma fork_ok:
  assumes g: "sched_good X s qs" "quiet s" "locked (tickslock s) = 0" and me: "me < ncpu s"
    and c: "myproc me s = Some c" and p: "free_slot s = Some p" and K: "dup_same K"
    and k: "kalloc_op K (res s) = (ks, r1)" "ks \<noteq> 0"
    and u: "copyuvm_op K (pgdir (procs s c)) (psz (procs s c)) r1 = Inr (pd, r2)" "pd \<noteq> 0"
    and f: "dup_files K (open_files (procs s c)) r2 = Inr r3"
    and d: "cwd (procs s c) = Some d" "idup_op K d r3 = Inr (d', r4)"
  defines "e \<equiv> get_least_loaded_e_core s"
  shows "\<exists>t. fork K me s = Inr (nextpid s, t) \<and> sched_good X t (qs(e := qs e @ [p])) \<and> quiet t \<and>
    locked (tickslock t) = 0 \<and>
    psame ((upd_proc p (\<lambda>q. (fork_child K ks pd c d s q)\<lparr>pstate := RUNNABLE\<rparr>) s)\<lparr>nextpid := wrap32 (nextpid s + 1), res := r4\<rparr>) t"
proof -
  note sl = free_slotD [OF p]
  have run: "pstate (procs s c) = RUNNING" "c < NPROC"
    using sinvD(3) [OF sched_goodD(2) [OF g(1)] me] c by (auto simp: myproc_def)
  then have cp: "p \<noteq> c" using sl by auto
  obtain s1 where s1: "allocproc K me s = Inr (Some p, s1)" "quiet s1" "locked (tickslock s1) = 0"
    "lframe ((upd_proc p (new_proc K ks s) s)\<lparr>nextpid := wrap32 (nextpid s + 1), res := r1\<rparr>) s1" (is "lframe ?a s1")
    "sched_good X s1 qs"
    using allocproc_some [OF g p k(1), of me] k(2) by auto
  have c1: "procs s1 c = procs s c" "res s1 = r1" "procs s1 p = new_proc K ks s (procs s p)"
    using cp by (simp_all add: lframe_simps [OF s1(4)])
  define s2 where "s2 = upd_proc p (fork_image (procs s c) pd c) (s1\<lparr>res := r2\<rparr>)"
  have s2: "procs s2 c = procs s c" "res s2 = r2" using cp c1 by (simp_all add: s2_def)
  have fl: "foldR (fork_file K c p) [0..<NOFILE] s2 = Inr (upd_proc p (dup_ofile (procs s c) {0..<NOFILE}) (s2\<lparr>res := r3\<rparr>))"
    using fork_files [OF K cp, of s2 "[0..<NOFILE]" r3] f by (simp add: s2 open_files_def)
  define s3 where "s3 = upd_proc p (dup_ofile (procs s c) {0..<NOFILE}) (s2\<lparr>res := r3\<rparr>)"
  have s3: "procs s3 c = procs s c" "res s3 = r3" using cp s2 by (simp_all add: s3_def)
  have dd: "d' = d" using K d(2) unfolding dup_same_def by blast
  define s5 where "s5 = upd_proc p (\<lambda>q. q\<lparr>cwd := Some d, pname := safestrcpy_name (pname (procs s c))\<rparr>) (s3\<lparr>res := r4\<rparr>)"
  have ps5: "procs s5 p = fork_child K ks pd c d s (procs s p)"
    by (simp add: s5_def s3_def s2_def c1(3) fork_child_def safestrcpy_name_def Let_def)
  have off: "pstate (fork_child K ks pd c d s (procs s p)) = EMBRYO" "kstack (fork_child K ks pd c d s (procs s p)) = ks"
    "pgdir (fork_child K ks pd c d s (procs s p)) = pd" "pid (procs s3 p) = nextpid s"
    using k(2) by (simp_all add: fork_child_def dup_ofile_def fork_image_def Let_def s3_def s2_def c1(3))
  have l5: "lframe ((upd_proc p (fork_child K ks pd c d s) s)\<lparr>nextpid := wrap32 (nextpid s + 1), res := r4\<rparr>) s5"
    using s1(4) by (simp add: lframe_def s5_def s3_def s2_def fork_child_def [abs_def] safestrcpy_name_def Let_def)
  have g5: "sched_good X s5 qs"
    unfolding sched_good_lframe [OF l5] sched_good_fields
    by (rule sched_good_upd_off [OF g(1)]) (use sl off in \<open>auto simp: live_def\<close>)
  have "quiet s5" "tickslock s5 = tickslock s1" using s1(2) by (simp_all add: s5_def s3_def s2_def)
  moreover have "has_image s5 p" using off u(2) k(2) by (simp add: has_image_def ps5)
  moreover have "get_least_loaded_e_core s5 = e"
    unfolding e_def by (rule get_least_cong) (simp_all add: lframe_simps [OF l5])
  ultimately obtain t where t: "make_runnable me p s5 = Inr t" "sched_good X t (qs(e := qs e @ [p]))" "quiet t"
    "psame (upd_proc p (\<lambda>q. q\<lparr>pstate := RUNNABLE\<rparr>) s5) t" "tickslock t = tickslock s1"
    using make_runnable_ok [OF g5, of p me] sl off(1) by (auto simp: ps5)
  have "lframe ((upd_proc p (\<lambda>q. (fork_child K ks pd c d s q)\<lparr>pstate := RUNNABLE\<rparr>) s)\<lparr>nextpid := wrap32 (nextpid s + 1), res := r4\<rparr>)
      (upd_proc p (\<lambda>q. q\<lparr>pstate := RUNNABLE\<rparr>) s5)"
    using l5 by (simp add: lframe_def)
  from psame_trans [OF psame_lframe [OF this] t(4)] show ?thesis
    using c s1(1,3) u k(2) d t fl
    by (intro exI [of _ t])
      (simp add: fork_def fork_copy_def fork_files_cwd_def on_res_def c1 s2_def [symmetric] s3_def [symmetric] s3 dd ps5 off(4) s5_def [symmetric] del: upd_proc_res)
qed

section \<open>Exit\<close>

text \<open>
  What releasing the resources of process \<open>c\<close> may change: its open files and directory, the
  resource state, and sleeping processes that are woken up.
\<close>

definition rstep :: "nat \<Rightarrow> 'r kst \<Rightarrow> 'r kst \<Rightarrow> bool" where
  "rstep c s t \<longleftrightarrow>
     (\<forall>i. pstate (procs t i) = pstate (procs s i) \<or>
          pstate (procs s i) = SLEEPING \<and> pstate (procs t i) = RUNNABLE) \<and>
     (\<forall>i. i \<noteq> c \<longrightarrow> img t i = img s i) \<and>
     (img t c)\<lparr>ofile := (\<lambda>_. None), cwd := None\<rparr> = (img s c)\<lparr>ofile := (\<lambda>_. None), cwd := None\<rparr> \<and>
     chans t = chans s \<and> (\<forall>k. cproc (cpus t k) = cproc (cpus s k)) \<and> ncpu t = ncpu s \<and>
     glob (t\<lparr>res := res s\<rparr>) = glob s"

lemma rstep_refl [simp]: "rstep c s s"
  by (simp add: rstep_def glob_def)

lemma rstep_trans: "rstep c s t \<Longrightarrow> rstep c t u \<Longrightarrow> rstep c s u"
  unfolding rstep_def glob_def by (elim conjE, intro conjI) (simp_all, metis)

lemma rstepD:
  assumes "rstep c s t"
  shows "chans t = chans s" "cproc (cpus t k) = cproc (cpus s k)" "myproc k t = myproc k s" "ncpu t = ncpu s"
    "initproc t = initproc s" "ticks t = ticks s" "metrics_active t = metrics_active s"
    "metrics_proc_completed t = metrics_proc_completed s" "nextpid t = nextpid s" "tickslock t = tickslock s"
    "i \<noteq> c \<Longrightarrow> img t i = img s i"
    "pstate (procs t i) = pstate (procs s i) \<or> pstate (procs s i) = SLEEPING \<and> pstate (procs t i) = RUNNABLE"
  using assms by (simp_all add: rstep_def glob_def myproc_def)

lemma rstep_id:
  assumes "rstep c s t"
  shows "parent (procs t i) = parent (procs s i)" "pid (procs t i) = pid (procs s i)"
    "kstack (procs t i) = kstack (procs s i)" "pgdir (procs t i) = pgdir (procs s i)"
    "killed (procs t i) = killed (procs s i)" "ctime (procs t i) = ctime (procs s i)"
proof -
  have e: "(img t i)\<lparr>ofile := (\<lambda>_. None), cwd := None\<rparr> = (img s i)\<lparr>ofile := (\<lambda>_. None), cwd := None\<rparr>"
    using assms by (cases "i = c") (simp_all add: rstep_def)
  show "parent (procs t i) = parent (procs s i)" using arg_cong [OF e, of parent] by (simp add: img_def)
  show "pid (procs t i) = pid (procs s i)" using arg_cong [OF e, of pid] by (simp add: img_def)
  show "kstack (procs t i) = kstack (procs s i)" using arg_cong [OF e, of kstack] by (simp add: img_def)
  show "pgdir (procs t i) = pgdir (procs s i)" using arg_cong [OF e, of pgdir] by (simp add: img_def)
  show "killed (procs t i) = killed (procs s i)" using arg_cong [OF e, of killed] by (simp add: img_def)
  show "ctime (procs t i) = ctime (procs s i)" using arg_cong [OF e, of ctime] by (simp add: img_def)
qed

text \<open>The part of it that waking up does.\<close>

definition wstep :: "'r kst \<Rightarrow> 'r kst \<Rightarrow> bool" where
  "wstep s t \<longleftrightarrow>
     (\<forall>i. pstate (procs t i) = pstate (procs s i) \<or>
          pstate (procs s i) = SLEEPING \<and> pstate (procs t i) = RUNNABLE) \<and>
     img t = img s \<and> chans t = chans s \<and> (\<forall>k. cproc (cpus t k) = cproc (cpus s k)) \<and> ncpu t = ncpu s \<and>
     glob (t\<lparr>res := res s\<rparr>) = glob s"

lemma wstep_rstep: "wstep s t \<Longrightarrow> rstep c s t"
  by (simp add: wstep_def rstep_def)

lemma wstep_refl [simp]: "wstep s s" by (simp add: wstep_def glob_def)

lemma wstep_trans: "wstep s t \<Longrightarrow> wstep t u \<Longrightarrow> wstep s u"
  unfolding wstep_def glob_def by (elim conjE, intro conjI) (simp_all, metis)

lemma wstep_woke:
  assumes "woke (sleepers ch s) s t"
  shows "wstep s t"
proof -
  note W = wokeD [OF assms]
  have "chans t = chans s" using W(5) by (simp add: chans_def fun_eq_iff)
  moreover have "glob (t\<lparr>res := res s\<rparr>) = glob s" using W(6) by (simp add: glob_def)
  ultimately show ?thesis using W(1-4) by (auto simp: wstep_def sleepers_def)
qed

lemma wstep_res: "wstep s (s\<lparr>res := r\<rparr>)"
  by (simp add: wstep_def glob_def img_def [abs_def] chans_def [abs_def])

lemma rstep_upd:
  assumes "\<And>q. pstate (f q) = pstate q" "\<And>q. pchan (f q) = pchan q"
    and "\<And>q. (f q)\<lparr>ofile := (\<lambda>_. None), cwd := None\<rparr> = q\<lparr>ofile := (\<lambda>_. None), cwd := None\<rparr>"
  shows "rstep c s (upd_proc c f s)"
proof -
  have "(img (upd_proc c f s) c)\<lparr>ofile := (\<lambda>_. None), cwd := None\<rparr> =
      ((f (procs s c))\<lparr>ofile := (\<lambda>_. None), cwd := None\<rparr>)\<lparr>pstate := UNUSED, next_run := None, pchan := None, slice_ticks := 0\<rparr>"
    by (simp add: img_def)
  then have "(img (upd_proc c f s) c)\<lparr>ofile := (\<lambda>_. None), cwd := None\<rparr> = (img s c)\<lparr>ofile := (\<lambda>_. None), cwd := None\<rparr>"
    by (simp only: assms(3)) (simp add: img_def)
  then show ?thesis using assms(1,2) by (simp add: rstep_def glob_def img_def chans_upd_proc_same)
qed

text \<open>A state with the scheduling invariant whose locks are free, and the steps that keep it.\<close>

definition good :: "nat set \<Rightarrow> 'r kst \<Rightarrow> bool" where
  "good X s \<longleftrightarrow> (\<exists>qs. sched_good X s qs) \<and> quiet s"

lemma good_fields [simp]: "good X (s\<lparr>res := r\<rparr>) = good X s" by (simp add: good_def)

lemma good_upd:
  assumes "good X s" "\<And>q. pstate (f q) = pstate q" "\<And>q. next_run (f q) = next_run q"
    "\<And>q. kstack (f q) = kstack q" "\<And>q. pgdir (f q) = pgdir q"
  shows "good X (upd_proc p f s)"
  using assms sched_good_upd_same [OF _ assms(2-5)] unfolding good_def quiet_fields by blast

lemma wakeups_good:
  assumes "good X s"
  shows "\<exists>t. foldR (\<lambda>ch. wakeup me (Some ch)) chs s = Inr t \<and> good X t \<and> wstep s t"
proof (rule foldR_invariant [where P = "\<lambda>t. good X t \<and> wstep s t"])
  fix ch t assume "good X t \<and> wstep s t"
  then obtain qs where t: "sched_good X t qs" "calm me 0 t" "wstep s t" by (auto simp: good_def quiet_calm [of t me])
  from wakeup_good [OF t(1,2), of "Some ch"] obtain u qs' where
    "wakeup me (Some ch) t = Inr u" "sched_good X u qs'" "calm me 0 u" "woke (sleepers (Some ch) t) t u" by blast
  then show "\<exists>s'. wakeup me (Some ch) t = Inr s' \<and> good X s' \<and> wstep s s'"
    using wstep_trans [OF t(3) wstep_woke] by (auto simp: good_def quiet_calm [of u me])
qed (use assms in simp)

lemma on_res_wake_good:
  assumes "good X s" and "on_res_wake me f s = Inr t"
  shows "good X t \<and> wstep s t"
proof -
  obtain chs r where "f (res s) = Inr (chs, r)" "foldR (\<lambda>ch. wakeup me (Some ch)) chs (s\<lparr>res := r\<rparr>) = Inr t"
    using assms(2) by (auto simp: on_res_wake_def bindR_eq_Inr)
  then show ?thesis
    using wakeups_good [of X "s\<lparr>res := r\<rparr>" me chs] assms(1) wstep_trans [OF wstep_res] by auto
qed

lemma on_res0_good:
  assumes "good X s" and "on_res0 f s = Inr t"
  shows "good X t \<and> wstep s t"
  using assms by (auto simp: on_res0_def bindR_eq_Inr wstep_res)

lemma exit_file_good:
  assumes "good X s" and "exit_file K me c fd s = Inr t"
  shows "good X t \<and> rstep c s t \<and> ofile (procs t c) = (ofile (procs s c))(fd := None)"
proof (cases "ofile (procs s c) fd")
  case None
  then show ?thesis using assms by (simp add: exit_file_def fun_upd_idem)
next
  case (Some f)
  then obtain s1 where s1: "on_res_wake me (fileclose_op K f) s = Inr s1"
    "t = upd_proc c (\<lambda>q. q\<lparr>ofile := (ofile q)(fd := None)\<rparr>) s1"
    using assms(2) by (auto simp: exit_file_def bindR_eq_Inr)
  have w: "good X s1" "wstep s s1" using on_res_wake_good [OF assms(1) s1(1)] by auto
  have "rstep c s1 t" unfolding s1(2) by (rule rstep_upd) simp_all
  moreover have "good X t" unfolding s1(2) by (rule good_upd [OF w(1)]) simp_all
  moreover have "ofile (procs s1 c) = ofile (procs s c)"
    by (rule img_fields(7)) (use w(2) in \<open>simp add: wstep_def\<close>)
  ultimately show ?thesis using rstep_trans [OF wstep_rstep [OF w(2)]] by (simp add: s1(2))
qed

lemma exit_files_good:
  assumes "good X s" and "foldR (exit_file K me c) is s = Inr t"
  shows "good X t \<and> rstep c s t \<and> (\<forall>i. ofile (procs t c) i = (if i \<in> set is then None else ofile (procs s c) i))"
  using assms
proof (induction "is" arbitrary: s)
  case (Cons i js)
  then obtain s1 where s1: "exit_file K me c i s = Inr s1" "foldR (exit_file K me c) js s1 = Inr t"
    by (auto simp: bindR_eq_Inr)
  note 1 = exit_file_good [OF Cons.prems(1) s1(1)]
  from Cons.IH [OF _ s1(2)] 1 rstep_trans [of c s s1 t] show ?case by auto
qed simp

lemma exit_resources_good:
  assumes "good X s" and "exit_resources K me c s = Inr t"
  shows "good X t \<and> rstep c s t \<and> (\<forall>i<NOFILE. ofile (procs t c) i = None) \<and> cwd (procs t c) = None"
proof -
  obtain s1 s2 d s3 s4 where e: "foldR (exit_file K me c) [0..<NOFILE] s = Inr s1"
    "on_res0 (begin_op_op K) s1 = Inr s2" "on_res_wake me (iput_op K d) s2 = Inr s3"
    "on_res_wake me (end_op_op K) s3 = Inr s4" "t = upd_proc c (\<lambda>q. q\<lparr>cwd := None\<rparr>) s4"
    using assms(2) by (auto simp: exit_resources_def bindR_eq_Inr split: option.splits)
  have 1: "good X s1" "rstep c s s1" "\<forall>i<NOFILE. ofile (procs s1 c) i = None"
    using exit_files_good [OF assms(1) e(1)] by auto
  have 2: "good X s2" "wstep s1 s2" using on_res0_good [OF 1(1) e(2)] by auto
  have 3: "good X s3" "wstep s2 s3" using on_res_wake_good [OF 2(1) e(3)] by auto
  have 4: "good X s4" "wstep s3 s4" using on_res_wake_good [OF 3(1) e(4)] by auto
  have w: "wstep s1 s4" using 2(2) 3(2) 4(2) wstep_trans by blast
  have "rstep c s4 t" unfolding e(5) by (rule rstep_upd) simp_all
  then have "rstep c s t" using rstep_trans [OF 1(2)] rstep_trans [OF wstep_rstep [OF w]] by blast
  moreover have "good X t" unfolding e(5) by (rule good_upd [OF 4(1)]) simp_all
  moreover have "ofile (procs s4 c) = ofile (procs s1 c)"
    by (rule img_fields(7)) (use w in \<open>simp add: wstep_def\<close>)
  ultimately show ?thesis using 1(3) by (simp add: e(5))
qed

text \<open>The second half of \<open>exit\<close>, with the table lock held: wakeups and a new parent for the children.\<close>

definition estep :: "'r kst \<Rightarrow> 'r kst \<Rightarrow> bool" where
  "estep s t \<longleftrightarrow>
     (\<forall>i. pstate (procs t i) = pstate (procs s i) \<or>
          pstate (procs s i) = SLEEPING \<and> pstate (procs t i) = RUNNABLE) \<and>
     (\<forall>i. (img t i)\<lparr>parent := None\<rparr> = (img s i)\<lparr>parent := None\<rparr>) \<and>
     chans t = chans s \<and> (\<forall>k. cproc (cpus t k) = cproc (cpus s k)) \<and> ncpu t = ncpu s \<and>
     glob t = glob s \<and> (\<forall>me n. held me n t = held me n s)"

lemma estep_refl [simp]: "estep s s" by (simp add: estep_def)

lemma estep_trans: "estep s t \<Longrightarrow> estep t u \<Longrightarrow> estep s u"
  unfolding estep_def by (elim conjE, intro conjI) (simp_all, metis)

lemma estepD:
  assumes "estep s t"
  shows "chans t = chans s" "cproc (cpus t k) = cproc (cpus s k)" "ncpu t = ncpu s" "glob t = glob s"
    "held me n t = held me n s" "pstate (procs t i) = pstate (procs s i) \<or> pstate (procs s i) = SLEEPING \<and> pstate (procs t i) = RUNNABLE"
  using assms by (simp_all add: estep_def)

lemma estep_id:
  assumes "estep s t"
  shows "pid (procs t i) = pid (procs s i)" "kstack (procs t i) = kstack (procs s i)" "pgdir (procs t i) = pgdir (procs s i)"
    "killed (procs t i) = killed (procs s i)" "ofile (procs t i) = ofile (procs s i)" "cwd (procs t i) = cwd (procs s i)"
    "etime (procs t i) = etime (procs s i)"
proof -
  have e: "(img t i)\<lparr>parent := None\<rparr> = (img s i)\<lparr>parent := None\<rparr>" using assms by (simp add: estep_def)
  show "pid (procs t i) = pid (procs s i)" using arg_cong [OF e, of pid] by (simp add: img_def)
  show "kstack (procs t i) = kstack (procs s i)" using arg_cong [OF e, of kstack] by (simp add: img_def)
  show "pgdir (procs t i) = pgdir (procs s i)" using arg_cong [OF e, of pgdir] by (simp add: img_def)
  show "killed (procs t i) = killed (procs s i)" using arg_cong [OF e, of killed] by (simp add: img_def)
  show "ofile (procs t i) = ofile (procs s i)" using arg_cong [OF e, of ofile] by (simp add: img_def)
  show "cwd (procs t i) = cwd (procs s i)" using arg_cong [OF e, of cwd] by (simp add: img_def)
  show "etime (procs t i) = etime (procs s i)" using arg_cong [OF e, of etime] by (simp add: img_def)
qed

lemma sleepers_mono:
  assumes "estep s t"
  shows "sleepers ch t \<subseteq> sleepers ch s"
proof
  fix i assume "i \<in> sleepers ch t"
  then show "i \<in> sleepers ch s"
    using estepD(6) [OF assms, of i] fun_cong [OF estepD(1) [OF assms], of i] by (auto simp: sleepers_def chans_def)
qed

lemma wakeup1_estep:
  assumes g: "sched_good X s qs"
  shows "\<exists>t qs'. wakeup1 ch s = Inr t \<and> sched_good X t qs' \<and> estep s t \<and> sleepers ch t = {} \<and>
    (\<forall>i. parent (procs t i) = parent (procs s i)) \<and>
    (\<forall>i. pstate (procs t i) = (if i \<in> sleepers ch s then RUNNABLE else pstate (procs s i)))"
proof -
  obtain t qs' where t: "wakeup1 ch s = Inr t" "sched_good X t qs'" "\<forall>me m. held me m t = held me m s"
    "woke (sleepers ch s) s t" using wakeup1_good [OF g, of ch] by blast
  note W = wokeD [OF t(4)]
  have "estep s t" using wstep_woke [OF t(4)] W(6) t(3) by (simp add: estep_def wstep_def)
  moreover have "sleepers ch t = {}" using W(1,5) by (auto simp: sleepers_def)
  moreover have "\<forall>i. parent (procs t i) = parent (procs s i)" using img_fields(5) [OF W(4)] by blast
  ultimately show ?thesis using t(1,2) W(1) by blast
qed

definition init_chan :: "'r kst \<Rightarrow> chan option" where
  "init_chan s = map_option ChanProc (initproc s)"

definition reparented :: "nat \<Rightarrow> 'r kst \<Rightarrow> nat \<Rightarrow> 'r kst \<Rightarrow> bool" where
  "reparented c s k t \<longleftrightarrow> estep s t \<and>
     (\<forall>i. parent (procs t i) = (if i < k \<and> parent (procs s i) = Some c then initproc s else parent (procs s i))) \<and>
     (\<forall>z<k. parent (procs s z) = Some c \<longrightarrow> pstate (procs s z) = ZOMBIE \<longrightarrow> sleepers (init_chan s) t = {})"

lemma reparent_step:
  assumes g: "sched_good X t qs" and r: "reparented c s k t"
  shows "\<exists>u qs'. exit_reparent c k t = Inr u \<and> sched_good X u qs' \<and> reparented c s (Suc k) u"
proof -
  have e: "estep s t" and p: "\<And>i. parent (procs t i) = (if i < k \<and> parent (procs s i) = Some c then initproc s else parent (procs s i))"
    and z: "\<And>z. z < k \<Longrightarrow> parent (procs s z) = Some c \<Longrightarrow> pstate (procs s z) = ZOMBIE \<Longrightarrow> sleepers (init_chan s) t = {}"
    using r by (auto simp: reparented_def)
  have ip: "initproc t = initproc s" using glob_fields(2) [OF estepD(4) [OF e]] .
  show ?thesis
  proof (cases "parent (procs s k) = Some c")
    case False
    then have "reparented c s (Suc k) t" using r by (auto simp: reparented_def less_Suc_eq)
    then show ?thesis using False p g by (auto simp: exit_reparent_def)
  next
    case True
    define t1 where "t1 = upd_proc k (\<lambda>q. q\<lparr>parent := initproc s\<rparr>) t"
    have g1: "sched_good X t1 qs" unfolding t1_def by (rule sched_good_upd_same [OF g]) simp_all
    have e1: "estep t t1" by (auto simp: estep_def t1_def img_def chans_upd_proc_same)
    have p1: "parent (procs t1 i) = (if i < Suc k \<and> parent (procs s i) = Some c then initproc s else parent (procs s i))" for i
      using p True by (auto simp: t1_def less_Suc_eq)
    have st: "pstate (procs t k) = ZOMBIE \<longleftrightarrow> pstate (procs s k) = ZOMBIE" using estepD(6) [OF e, of k] by auto
    show ?thesis
    proof (cases "pstate (procs s k) = ZOMBIE")
      case False
      have "reparented c s (Suc k) t1" unfolding reparented_def
        using estep_trans [OF e e1] p1 z False sleepers_mono [OF e1, of "init_chan s"] by (auto simp: less_Suc_eq)
      then show ?thesis using True p g1 st False by (auto simp: exit_reparent_def ip t1_def)
    next
      case Z: True
      obtain u qs' where u: "wakeup1 (init_chan s) t1 = Inr u" "sched_good X u qs'" "estep t1 u" "sleepers (init_chan s) u = {}"
        "\<forall>i. parent (procs u i) = parent (procs t1 i)" using wakeup1_estep [OF g1] by blast
      have "reparented c s (Suc k) u" unfolding reparented_def
        using estep_trans [OF estep_trans [OF e e1] u(3)] p1 u(4,5) by simp
      then show ?thesis using True p g1 st Z u(1,2) by (auto simp: exit_reparent_def ip t1_def init_chan_def)
    qed
  qed
qed

lemma reparent_all:
  assumes "sched_good X s qs"
  shows "\<exists>u qs'. foldR (exit_reparent c) [0..<k] s = Inr u \<and> sched_good X u qs' \<and> reparented c s k u"
proof (induction k)
  case 0
  show ?case using assms by (auto simp: reparented_def)
next
  case (Suc k)
  then obtain t qs' where t: "foldR (exit_reparent c) [0..<k] s = Inr t" "sched_good X t qs'" "reparented c s k t" by blast
  from reparent_step [OF t(2,3)] show ?case using t(1) by auto
qed

lemma sched_zombie:
  assumes g: "sched_good X s qs" and h: "held me 1 s" and me: "me < ncpu s" and c: "myproc me s = Some c"
  shows "\<exists>saved t. sched me (upd_proc c (\<lambda>q. q\<lparr>pstate := ZOMBIE\<rparr>) s) = Inr (saved, t) \<and> sched_good X t qs \<and> quiet t \<and>
    procs t = procs (upd_proc c (\<lambda>q. q\<lparr>pstate := ZOMBIE\<rparr>) s) \<and> glob t = glob s \<and> ncpu t = ncpu s \<and>
    (\<forall>k. cproc (cpus t k) = (if k = me then None else cproc (cpus s k)))"
proof -
  note D = sched_goodD [OF g]
  have c': "cproc (cpus s me) = Some c" using c by (simp add: myproc_def)
  define z where "z = upd_proc c (\<lambda>q. q\<lparr>pstate := ZOMBIE\<rparr>) s"
  have v: "view z qs ((\<lambda>i. pstate (procs s i))(c := ZOMBIE)) (\<lambda>k. cproc (cpus s k))"
    unfolding z_def by (rule view_upd_proc [OF D(1)]) simp_all
  have "held me 1 z" using h by (simp add: z_def)
  from sched_ok [OF v this c'] obtain t where t: "sched me z = Inr (intena (cpus z me), t)"
    "view t qs ((\<lambda>i. pstate (procs s i))(c := ZOMBIE)) ((\<lambda>k. cproc (cpus s k))(me := None))" "calm me 0 t"
    "ncpu t = ncpu z" "procs t = procs z" "glob t = glob z" by auto
  have i: "img t = img s" unfolding img_eq [OF t(5)] z_def by (rule img_upd_proc) (simp add: img_def)
  have n: "ncpu t = ncpu s" using t(4) by (simp add: z_def)
  have "sched_good X t qs"
    by (rule sched_goodI [OF t(2) _ n D(3) i])
      (use sinv_leave [OF D(2) me c', of ZOMBIE] D(4) in \<open>auto simp: live_def split: if_splits\<close>)
  then show ?thesis using t viewD(3) [OF t(2)] n by (auto simp: z_def quiet_calm [of t me])
qed

definition exited :: "nat \<Rightarrow> nat \<Rightarrow> 'r kst \<Rightarrow> 'r kst \<Rightarrow> bool" where
  "exited me c s t \<longleftrightarrow>
     pstate (procs t c) = ZOMBIE \<and> etime (procs t c) = ticks s \<and>
     (\<forall>fd<NOFILE. ofile (procs t c) fd = None) \<and> cwd (procs t c) = None \<and>
     (\<forall>i. i \<noteq> c \<longrightarrow> pstate (procs t i) = pstate (procs s i) \<or>
          pstate (procs s i) = SLEEPING \<and> pstate (procs t i) = RUNNABLE) \<and>
     (\<forall>i<NPROC. parent (procs t i) = (if parent (procs s i) = Some c then initproc s else parent (procs s i))) \<and>
     (\<forall>i. pid (procs t i) = pid (procs s i) \<and> kstack (procs t i) = kstack (procs s i) \<and>
          pgdir (procs t i) = pgdir (procs s i) \<and> killed (procs t i) = killed (procs s i)) \<and>
     (\<forall>i. i \<noteq> c \<longrightarrow> ofile (procs t i) = ofile (procs s i)) \<and>
     chans t = chans s \<and> sleepers (map_option ChanProc (parent (procs s c))) t = {} \<and>
     (\<forall>z<NPROC. parent (procs s z) = Some c \<longrightarrow> pstate (procs s z) = ZOMBIE \<longrightarrow> sleepers (init_chan s) t = {}) \<and>
     (\<forall>k. cproc (cpus t k) = (if k = me then None else cproc (cpus s k))) \<and>
     ncpu t = ncpu s \<and> initproc t = initproc s \<and> nextpid t = nextpid s \<and> ticks t = ticks s \<and>
     tickslock t = tickslock s \<and>
     metrics_proc_completed t = (if metrics_active s then wrap32 (metrics_proc_completed s + 1) else metrics_proc_completed s)"

lemma exit_ok:
  assumes g: "good X s" and me: "me < ncpu s" and c: "myproc me s = Some c" and ni: "initproc s \<noteq> Some c"
    and r: "exit_resources K me c s = Inr s1"
  shows "\<exists>t. exit K me s = Inr t \<and> good X t \<and> exited me c s t"
proof -
  have 1: "good X s1" "rstep c s s1" "\<forall>i<NOFILE. ofile (procs s1 c) i = None" "cwd (procs s1 c) = None"
    using exit_resources_good [OF g r] by auto
  note R = rstepD [OF 1(2)] rstep_id [OF 1(2)]
  obtain qs1 where q1: "sched_good X s1 qs1" "quiet s1" using 1(1) by (auto simp: good_def)
  obtain s2 where s2: "acquire_pt me s1 = Inr s2" "lframe s1 s2" "held me 1 s2" "tickslock s2 = tickslock s1"
    using acquire_pt_calm [of me 0 s1] q1(2) by (auto simp: quiet_calm [of s1 me])
  note L = lframe_simps [OF s2(2)]
  define s3 where "s3 = exit_metrics c s2"
  have g2: "sched_good X (upd_proc c (\<lambda>q. q\<lparr>etime := ticks s2\<rparr>) s2) qs1"
    by (rule sched_good_upd_same) (use q1(1) in \<open>simp_all add: sched_good_lframe [OF s2(2)]\<close>)
  have g3: "sched_good X s3 qs1" "held me 1 s3" using g2 s2(3) by (auto simp: s3_def exit_metrics_def Let_def)
  have p3: "procs s3 = (procs s1)(c := (procs s1 c)\<lparr>etime := ticks s\<rparr>)" "cpus s3 = cpus s2" "ncpu s3 = ncpu s"
    "initproc s3 = initproc s" "nextpid s3 = nextpid s" "ticks s3 = ticks s" "tickslock s3 = tickslock s"
    "metrics_proc_completed s3 = (if metrics_active s then wrap32 (metrics_proc_completed s + 1) else metrics_proc_completed s)"
    using s2(4) by (simp_all add: s3_def exit_metrics_def Let_def L R)
  have "pchan (procs s1 i) = pchan (procs s i)" for i using fun_cong [OF R(1), of i] by (simp add: chans_def)
  then have par3: "parent (procs s3 i) = parent (procs s i)" "chans s3 = chans s" for i
    by (simp_all add: p3 R fun_eq_iff chans_def)
  obtain s4 qs4 where s4: "wakeup1 (map_option ChanProc (parent (procs s3 c))) s3 = Inr s4" "sched_good X s4 qs4" "estep s3 s4"
    "sleepers (map_option ChanProc (parent (procs s c))) s4 = {}" "\<forall>i. parent (procs s4 i) = parent (procs s3 i)"
    using wakeup1_estep [OF g3(1), of "map_option ChanProc (parent (procs s3 c))"] unfolding par3 by blast
  have ip4: "initproc s4 = initproc s" using glob_fields(2) [OF estepD(4) [OF s4(3)]] p3(4) by simp
  obtain s5 qs5 where s5: "foldR (exit_reparent c) [0..<NPROC] s4 = Inr s5" "sched_good X s5 qs5" "reparented c s4 NPROC s5"
    using reparent_all [OF s4(2)] by blast
  have e45: "estep s4 s5" using s5(3) by (simp add: reparented_def)
  have e35: "estep s3 s5" using estep_trans [OF s4(3) e45] .
  note E = estepD [OF e35] estep_id [OF e35]
  have "held me 1 s5" "me < ncpu s5" "myproc me s5 = Some c"
    using g3(2) me c by (simp_all add: E p3 myproc_def L R)
  from sched_zombie [OF s5(2) this] obtain saved t where t: "sched me (upd_proc c (\<lambda>q. q\<lparr>pstate := ZOMBIE\<rparr>) s5) = Inr (saved, t)"
    "sched_good X t qs5" "quiet t" "procs t = procs (upd_proc c (\<lambda>q. q\<lparr>pstate := ZOMBIE\<rparr>) s5)" "glob t = glob s5"
    "ncpu t = ncpu s5" "\<forall>k. cproc (cpus t k) = (if k = me then None else cproc (cpus s5 k))" by blast
  have "exit K me s = Inr t"
    using c ni r s2(1) s4(1) s5(1) t(1) by (simp add: exit_def s3_def [symmetric])
  moreover have "exited me c s t"
  proof -
    note G = glob_fields [OF trans [OF t(5) E(4)]]
    have st: "pstate (procs t i) = pstate (procs s i) \<or> pstate (procs s i) = SLEEPING \<and> pstate (procs t i) = RUNNABLE"
      if "i \<noteq> c" for i
      using that E(6) [of i] R(12) [of i] by (auto simp: t(4) p3)
    have ids: "pid (procs t i) = pid (procs s i) \<and> kstack (procs t i) = kstack (procs s i) \<and>
        pgdir (procs t i) = pgdir (procs s i) \<and> killed (procs t i) = killed (procs s i)" for i
      by (simp add: t(4) E p3 R)
    have ct: "chans t = chans s" unfolding chans_eq [OF t(4)] by (simp add: chans_upd_proc_same E(1) par3)
    have sl: "sleepers ch t \<subseteq> sleepers ch s5" for ch
      by (auto simp: sleepers_def t(4) split: if_splits)
    have "sleepers (map_option ChanProc (parent (procs s c))) t = {}"
      using sl sleepers_mono [OF e45] s4(4) by blast
    moreover have "sleepers (init_chan s) t = {}"
      if "z < NPROC" "parent (procs s z) = Some c" "pstate (procs s z) = ZOMBIE" for z
    proof -
      have "pstate (procs s4 z) = ZOMBIE" using that(3) R(12) [of z] estepD(6) [OF s4(3), of z] by (auto simp: p3 split: if_splits)
      then have "sleepers (init_chan s4) s5 = {}"
        using s5(3) that s4(5) par3(1) by (auto simp: reparented_def)
      then show ?thesis using sl by (auto simp: init_chan_def ip4)
    qed
    moreover have "parent (procs t i) = (if parent (procs s i) = Some c then initproc s else parent (procs s i))" if "i < NPROC" for i
      using s5(3) that s4(5) par3(1) ip4 by (simp add: reparented_def t(4))
    moreover have "ofile (procs t i) = ofile (procs s i)" if "i \<noteq> c" for i
      using arg_cong [OF R(11) [OF that], of ofile] that by (simp add: t(4) E p3 img_def)
    moreover have "\<forall>fd<NOFILE. ofile (procs t c) fd = None" "cwd (procs t c) = None" "etime (procs t c) = ticks s"
      using 1(3,4) by (simp_all add: t(4) E p3)
    moreover have "\<forall>k. cproc (cpus t k) = (if k = me then None else cproc (cpus s k))"
      using t(7) by (simp add: E p3 L R)
    ultimately show ?thesis using st ids ct G p3 t(6) E(3) by (simp add: exited_def t(4))
  qed
  ultimately show ?thesis using t(2,3) by (auto simp: good_def)
qed

section \<open>Wait\<close>

definition zombie_child :: "'r kst \<Rightarrow> nat \<Rightarrow> nat option" where
  "zombie_child s c = first_index (\<lambda>p. parent (procs s p) = Some c \<and> pstate (procs s p) = ZOMBIE) NPROC"

definition reaped :: "proc \<Rightarrow> proc" where
  "reaped q = q\<lparr>kstack := 0, pid := 0, parent := None, pname := [], killed := 0, pstate := UNUSED\<rparr>"

lemma wait_reap_eq:
  assumes "kfree_op K (kstack (procs s p)) (res s) = Inr r1" and "freevm_op K (pgdir (procs s p)) r1 = Inr r2"
  shows "wait_reap K p s = Inr ((upd_proc p reaped s)\<lparr>res := r2\<rparr>)"
  using assms by (simp add: wait_reap_def on_res0_def reaped_def [abs_def])

lemma wait_pass_reaps:
  assumes g: "sched_good X s qs" and h: "held me 1 s" and z: "zombie_child s c = Some p"
    and r: "kfree_op K (kstack (procs s p)) (res s) = Inr r1" "freevm_op K (pgdir (procs s p)) r1 = Inr r2"
  shows "\<exists>t. wait_pass K me c s = Inr (Waited (pid (procs s p)), t) \<and> sched_good X t qs \<and> quiet t \<and>
    lframe ((upd_proc p reaped s)\<lparr>res := r2\<rparr>) t \<and> tickslock t = tickslock s"
proof -
  have p: "p < NPROC" "pstate (procs s p) = ZOMBIE" using z by (auto simp: zombie_child_def first_index_Some)
  define s1 where "s1 = (upd_proc p reaped s)\<lparr>res := r2\<rparr>"
  have g1: "sched_good X s1 qs" unfolding s1_def sched_good_fields
    by (rule sched_good_upd_off [OF g]) (use p in \<open>auto simp: reaped_def live_def\<close>)
  have "held me 1 s1" using h by (simp add: s1_def)
  from release_pt_held [OF this] obtain t where t: "release_pt me s1 = Inr t" "lframe s1 t" "calm me 0 t" "tickslock t = tickslock s1" by auto
  moreover have "wait_pass K me c s = Inr (Waited (pid (procs s p)), t)"
    using z wait_reap_eq [OF r] t(1) by (simp add: wait_pass_def zombie_child_def s1_def)
  ultimately show ?thesis using g1 by (auto simp: sched_good_lframe quiet_calm [of t me] s1_def)
qed

lemma wait_pass_none:
  assumes g: "sched_good X s qs" and h: "held me 1 s" and z: "zombie_child s c = None"
    and n: "(\<forall>p<NPROC. parent (procs s p) \<noteq> Some c) \<or> killed (procs s c) \<noteq> 0"
  shows "\<exists>t. wait_pass K me c s = Inr (Waited (-1), t) \<and> sched_good X t qs \<and> quiet t \<and> lframe s t \<and> tickslock t = tickslock s"
  using release_pt_held [OF h] g z n
  by (auto simp: wait_pass_def zombie_child_def sched_good_lframe quiet_calm [of _ me])

lemma wait_pass_sleeps:
  assumes g: "sched_good X s qs" and h: "held me 1 s" and me: "me < ncpu s" and c: "myproc me s = Some c"
    and z: "zombie_child s c = None" and n: "\<exists>p<NPROC. parent (procs s p) = Some c" "killed (procs s c) = 0"
  shows "\<exists>saved t. wait_pass K me c s = Inr (Sleeps saved, t) \<and> sched_good X t qs \<and> quiet t \<and> ncpu t = ncpu s \<and>
    img t = img s \<and> chans t = (chans s)(c := Some (ChanProc c)) \<and> glob t = glob s \<and>
    (\<forall>i. pstate (procs t i) = (if i = c then SLEEPING else pstate (procs s i))) \<and>
    (\<forall>k. cproc (cpus t k) = (if k = me then None else cproc (cpus s k)))"
proof -
  note D = sched_goodD [OF g]
  have c': "cproc (cpus s me) = Some c" using c by (simp add: myproc_def)
  obtain saved t where t: "sleep me (Some (ChanProc c)) PtableLk s = Inr (PtableLk, saved, t)" "calm me 0 t" "ncpu t = ncpu s"
    "chans t = (chans s)(c := Some (ChanProc c))" "img t = img s" "glob t = glob s"
    "view t qs ((\<lambda>i. pstate (procs s i))(c := SLEEPING)) ((\<lambda>k. cproc (cpus s k))(me := None))"
    using sleep_ptable_ok [OF D(1) h c'] by blast
  have r: "pstate (procs s c) = RUNNING" "c < NPROC" using sinvD(3) [OF D(2) me c'] by auto
  have "sched_good X t qs"
    by (rule sched_goodI [OF t(7) _ t(3) D(3) t(5)])
      (use sinv_leave [OF D(2) me c', of SLEEPING] D(4) r in \<open>auto simp: live_def split: if_splits\<close>)
  moreover have "wait_pass K me c s = Inr (Sleeps saved, t)"
    using z n t(1) by (auto simp: wait_pass_def zombie_child_def)
  ultimately show ?thesis using t(2-6) viewD(2,3) [OF t(7)] by (auto simp: quiet_calm [of t me])
qed

end
