(* ===== verification/ProcInv.thy ===== *)
theory ProcInv
  imports Proc
begin

text \<open>
  The invariant of the process table (no missed child in \<open>wait\<close>, a live parent for every
  process, no open file in a dead slot, different pids), its preservation by every process
  and scheduling operation, and the properties of \<open>fork\<close>, \<open>exit\<close> and \<open>wait\<close>.
\<close>

section \<open>The process invariant\<close>

text \<open>
  A process asleep in \<open>wait\<close> (on its own address) has no zombie child; the parent of any
  process, and \<open>init\<close>, are live, and \<open>init\<close> has no parent; the slots of dead processes hold no open file; and the pids of
  processes in use are positive, below \<open>nextpid\<close>, and different.
\<close>

definition waits_ok :: "'r kst \<Rightarrow> bool" where
  "waits_ok s \<longleftrightarrow> (\<forall>p<NPROC. pstate (procs s p) = SLEEPING \<longrightarrow> chans s p = Some (ChanProc p) \<longrightarrow>
     (\<forall>z<NPROC. parent (procs s z) = Some p \<longrightarrow> pstate (procs s z) \<noteq> ZOMBIE))"

definition tree_ok :: "'r kst \<Rightarrow> bool" where
  "tree_ok s \<longleftrightarrow> (\<forall>i<NPROC. \<forall>q. parent (procs s i) = Some q \<longrightarrow> q < NPROC \<and> pstate (procs s q) \<in> live) \<and>
     (\<forall>q. initproc s = Some q \<longrightarrow> q < NPROC \<and> pstate (procs s q) \<in> live \<and> parent (procs s q) = None) \<and>
     (\<forall>i<NPROC. parent (procs s i) \<noteq> Some i)"

definition files_ok :: "'r kst \<Rightarrow> bool" where
  "files_ok s \<longleftrightarrow> (\<forall>i<NPROC. pstate (procs s i) \<in> {UNUSED, ZOMBIE} \<longrightarrow> (\<forall>fd<NOFILE. ofile (procs s i) fd = None))"

definition pids_ok :: "'r kst \<Rightarrow> bool" where
  "pids_ok s \<longleftrightarrow> (\<forall>i<NPROC. pstate (procs s i) \<noteq> UNUSED \<longrightarrow> 0 < pid (procs s i) \<and> pid (procs s i) < nextpid s) \<and>
     (\<forall>i<NPROC. \<forall>j<NPROC. i \<noteq> j \<longrightarrow> pstate (procs s i) \<noteq> UNUSED \<longrightarrow> pstate (procs s j) \<noteq> UNUSED \<longrightarrow>
        pid (procs s i) \<noteq> pid (procs s j)) \<and> 0 < nextpid s"

definition pinv :: "'r kst \<Rightarrow> bool" where
  "pinv s \<longleftrightarrow> waits_ok s \<and> tree_ok s \<and> files_ok s"

definition kinv :: "'r kst \<Rightarrow> bool" where
  "kinv s \<longleftrightarrow> good {} s \<and> locked (tickslock s) = 0 \<and> pinv s"

text \<open>Steps among live states, that touch nothing but scheduling.\<close>

definition lstep :: "'r kst \<Rightarrow> 'r kst \<Rightarrow> bool" where
  "lstep s t \<longleftrightarrow> img t = img s \<and> glob (t\<lparr>res := res s\<rparr>) = glob s \<and> 
     (\<forall>i. pstate (procs t i) = pstate (procs s i) \<or> pstate (procs s i) \<in> live \<and> pstate (procs t i) \<in> live) \<and>
     (\<forall>i. pstate (procs t i) = SLEEPING \<longrightarrow>
        pstate (procs s i) = SLEEPING \<and> chans t i = chans s i \<or> chans t i \<noteq> Some (ChanProc i) \<or>
        (\<forall>z<NPROC. parent (procs s z) = Some i \<longrightarrow> pstate (procs s z) \<noteq> ZOMBIE))"

lemma lstep_dead: "lstep s t \<Longrightarrow> x \<in> {UNUSED, ZOMBIE} \<Longrightarrow> pstate (procs t i) = x \<longleftrightarrow> pstate (procs s i) = x"
proof -
  assume "lstep s t" and x: "x \<in> {UNUSED, ZOMBIE}"
  then have "pstate (procs t i) = pstate (procs s i) \<or> pstate (procs s i) \<in> live \<and> pstate (procs t i) \<in> live"
    by (simp add: lstep_def)
  with x show ?thesis by (auto simp: live_def)
qed

lemma lstep_pinv:
  assumes l: "lstep s t" and k: "pinv s"
  shows "pinv t"
proof -
  have i: "img t = img s" "initproc t = initproc s"
    using l by (auto simp: lstep_def glob_def)
  note F = img_fields [OF i(1)]
  have "waits_ok t" unfolding waits_ok_def
  proof (intro allI impI)
    fix p z assume p: "p < NPROC" "pstate (procs t p) = SLEEPING" "chans t p = Some (ChanProc p)"
      and z: "z < NPROC" "parent (procs t z) = Some p"
    have z': "pstate (procs t z) = ZOMBIE \<longleftrightarrow> pstate (procs s z) = ZOMBIE" by (rule lstep_dead [OF l]) simp
    from l p consider "pstate (procs s p) = SLEEPING" "chans s p = Some (ChanProc p)"
      | "\<forall>z<NPROC. parent (procs s z) = Some p \<longrightarrow> pstate (procs s z) \<noteq> ZOMBIE" by (auto simp: lstep_def)
    then show "pstate (procs t z) \<noteq> ZOMBIE"
      by cases (use k p(1) z z' F(5) in \<open>auto simp: pinv_def waits_ok_def\<close>)
  qed
  moreover have lv: "pstate (procs s q) \<in> live \<Longrightarrow> pstate (procs t q) \<in> live" for q
    using l unfolding lstep_def by metis
  have "tree_ok s" using k by (simp add: pinv_def)
  then have "tree_ok t" unfolding tree_ok_def F(5) i(2) using lv by blast
  moreover have "pstate (procs t j) \<in> {UNUSED, ZOMBIE} \<longleftrightarrow> pstate (procs s j) \<in> {UNUSED, ZOMBIE}" for j
    using lstep_dead [OF l, of UNUSED j] lstep_dead [OF l, of ZOMBIE j] by simp
  then have "files_ok t" using k unfolding pinv_def files_ok_def F(7) by simp
  ultimately show ?thesis by (simp add: pinv_def)
qed

lemma kinvD:
  assumes "kinv s"
  shows "good {} s" "locked (tickslock s) = 0" "pinv s"
  using assms by (auto simp: kinv_def)

lemma pinvD:
  assumes "pinv s"
  shows "waits_ok s" "tree_ok s" "files_ok s"
  using assms by (auto simp: pinv_def)

lemma lstep_kinv: "lstep s t \<Longrightarrow> kinv s \<Longrightarrow> good {} t \<Longrightarrow> kinv t"
  using lstep_pinv [of s t] by (auto simp: kinv_def lstep_def glob_def)

lemma treeD:
  assumes "tree_ok s"
  shows "i < NPROC \<Longrightarrow> parent (procs s i) = Some q \<Longrightarrow> q < NPROC \<and> pstate (procs s q) \<in> live \<and> q \<noteq> i"
    "initproc s = Some q \<Longrightarrow> q < NPROC \<and> pstate (procs s q) \<in> live \<and> parent (procs s q) = None"
  using assms by (auto simp: tree_ok_def)

text \<open>A slot that is not live is replaced: the cases of \<open>fork\<close> and of reaping.\<close>

lemma slot_pinv:
  assumes k: "pinv s" and p: "p < NPROC" "pstate (procs s p) \<in> {UNUSED, ZOMBIE}"
    and f: "pstate (f (procs s p)) \<in> {UNUSED, RUNNABLE}" "pstate (f (procs s p)) = UNUSED \<Longrightarrow> ofile (f (procs s p)) = ofile (procs s p)"
      "parent (f (procs s p)) = parent (procs s p) \<or> parent (f (procs s p)) = None \<or>
       (\<exists>c. parent (f (procs s p)) = Some c \<and> c < NPROC \<and> pstate (procs s c) = RUNNING)"
    and t: "psame ((upd_proc p f s)\<lparr>nextpid := n, res := r\<rparr>) t"
  shows "pinv t"
proof -
  note S = psame_simps [OF t]
  note T = treeD [OF pinvD(2) [OF k]]
  have np: "parent (procs s i) \<noteq> Some p" if "i < NPROC" for i using T(1) [OF that, of p] p(2) by (auto simp: live_def)
  have ni: "initproc s \<noteq> Some p" using T(2) [of p] p(2) by (auto simp: live_def)
  have st: "pstate (procs t i) = (if i = p then pstate (f (procs s p)) else pstate (procs s i))"
    "parent (procs t i) = (if i = p then parent (f (procs s p)) else parent (procs s i))"
    "chans t i = (if i = p then pchan (f (procs s p)) else chans s i)"
    "ofile (procs t i) = (if i = p then ofile (f (procs s p)) else ofile (procs s i))" "initproc t = initproc s" for i
    by (simp_all add: S chans_def)
  have "waits_ok t" unfolding waits_ok_def
  proof (intro allI impI)
    fix q z assume q: "q < NPROC" "pstate (procs t q) = SLEEPING" "chans t q = Some (ChanProc q)"
      and z: "z < NPROC" "parent (procs t z) = Some q"
    have "q \<noteq> p" using q(2) f(1) by (auto simp: st)
    then show "pstate (procs t z) \<noteq> ZOMBIE"
      using pinvD(1) [OF k] q z f(1) by (cases "z = p") (auto simp: st waits_ok_def)
  qed
  moreover have "tree_ok t" unfolding tree_ok_def
  proof (intro conjI allI impI)
    fix q assume "initproc t = Some q"
    then show "q < NPROC" "pstate (procs t q) \<in> live" "parent (procs t q) = None" using T(2) [of q] ni by (auto simp: st)
  next
    fix i assume i: "i < NPROC"
    have ne: "parent (procs t i) = Some q \<Longrightarrow> q < NPROC \<and> pstate (procs s q) \<in> live \<and> q \<noteq> p \<and> q \<noteq> i" for q
      using T(1) [OF i, of q] T(1) [OF p(1), of q] np [OF i] np [OF p(1)] f(3) p(2)
      by (cases "i = p") (auto simp: st live_def)
    then show "parent (procs t i) \<noteq> Some i" by blast
    fix q assume "parent (procs t i) = Some q"
    then show "q < NPROC" "pstate (procs t q) \<in> live" using ne [of q] by (auto simp: st)
  qed
  moreover have "files_ok t" using pinvD(3) [OF k] f(1,2) p unfolding files_ok_def st by (auto split: if_splits)
  ultimately show ?thesis by (simp add: pinv_def)
qed

lemma lframe_lstep: "lframe s t \<Longrightarrow> tickslock t = tickslock s \<Longrightarrow> lstep s t"
  using img_eq [of t s] chans_eq [of t s] glob_lframe [of s t] by (auto simp: lstep_def lframe_simps glob_def)

lemma exited_pinv:
  assumes k: "pinv s" and c: "c < NPROC" and ni: "initproc s \<noteq> Some c"
    and e: "exited me c s t"
  shows "pinv t"
proof -
  note T = treeD [OF pinvD(2) [OF k]]
  have zc: "pstate (procs t c) = ZOMBIE" and of: "\<forall>fd<NOFILE. ofile (procs t c) fd = None"
    and st: "\<And>i. i \<noteq> c \<Longrightarrow> pstate (procs t i) = pstate (procs s i) \<or> pstate (procs s i) = SLEEPING \<and> pstate (procs t i) = RUNNABLE"
    and par: "\<And>i. i < NPROC \<Longrightarrow> parent (procs t i) = (if parent (procs s i) = Some c then initproc s else parent (procs s i))"
    and ch: "chans t = chans s" and s1: "sleepers (map_option ChanProc (parent (procs s c))) t = {}"
    and s2: "\<And>z. z < NPROC \<Longrightarrow> parent (procs s z) = Some c \<Longrightarrow> pstate (procs s z) = ZOMBIE \<Longrightarrow> sleepers (init_chan s) t = {}"
    and ip: "initproc t = initproc s" "tickslock t = tickslock s"
    and oi: "\<And>i. i \<noteq> c \<Longrightarrow> ofile (procs t i) = ofile (procs s i)"
    using e by (simp_all add: exited_def)
  have "waits_ok t" unfolding waits_ok_def
  proof (intro allI impI notI)
    fix q z assume q: "q < NPROC" "pstate (procs t q) = SLEEPING" "chans t q = Some (ChanProc q)"
      and z: "z < NPROC" "parent (procs t z) = Some q" "pstate (procs t z) = ZOMBIE"
    have qs: "q \<in> sleepers (Some (ChanProc q)) t" using q by (simp add: sleepers_def chans_def)
    have qc: "q \<noteq> c" using zc q(2) by auto
    then have q': "pstate (procs s q) = SLEEPING" using st [of q] q(2) by auto
    show False
    proof (cases "parent (procs s z) = Some c")
      case True
      then have "z \<noteq> c" using T(1) [OF c] z(1) by auto
      then have "pstate (procs s z) = ZOMBIE" using st [of z] z(3) by auto
      then have "sleepers (init_chan s) t = {}" using s2 [OF z(1) True] by blast
      moreover have "initproc s = Some q" using par [OF z(1)] True z(2) by simp
      ultimately show False using qs by (simp add: init_chan_def)
    next
      case False
      then have p: "parent (procs s z) = Some q" using par [OF z(1)] z(2) by simp
      show False
      proof (cases "z = c")
        case True
        then show False using s1 p qs by simp
      next
        case False
        then have "pstate (procs s z) = ZOMBIE" using st [of z] z(3) by auto
        then show False using pinvD(1) [OF k] q(1,3) q' z(1) p ch by (auto simp: waits_ok_def)
      qed
    qed
  qed
  moreover have lv: "pstate (procs s q) \<in> live \<Longrightarrow> q \<noteq> c \<Longrightarrow> pstate (procs t q) \<in> live" for q
    using st [of q] by (auto simp: live_def)
  have "tree_ok t" unfolding tree_ok_def
  proof (intro conjI allI impI)
    fix q assume "initproc t = Some q"
    then have "initproc s = Some q" using ip by simp
    then show "q < NPROC" "pstate (procs t q) \<in> live" "parent (procs t q) = None"
      using T(2) [of q] lv [of q] ni par [of q] by auto
  next
    fix i assume i: "i < NPROC"
    have ne: "parent (procs t i) = Some q \<Longrightarrow> q < NPROC \<and> pstate (procs s q) \<in> live \<and> q \<noteq> c \<and> q \<noteq> i" for q
      using T(1) [OF i, of q] T(2) [of q] par [OF i] ni by (auto split: if_splits)
    then show "parent (procs t i) \<noteq> Some i" by blast
    fix q assume "parent (procs t i) = Some q"
    then show "q < NPROC" "pstate (procs t q) \<in> live" using ne [of q] lv [of q] by auto
  qed
  moreover have "files_ok t" unfolding files_ok_def
  proof (intro allI impI)
    fix i fd assume i: "i < NPROC" "pstate (procs t i) \<in> {UNUSED, ZOMBIE}" "fd < NOFILE"
    show "ofile (procs t i) fd = None"
    proof (cases "i = c")
      case False
      then have "pstate (procs s i) \<in> {UNUSED, ZOMBIE}" using st [of i] i(2) by auto
      then show ?thesis using pinvD(3) [OF k] i(1,3) oi [OF False] by (auto simp: files_ok_def)
    qed (use of i(3) in simp)
  qed
  ultimately show ?thesis by (simp add: pinv_def)
qed

section \<open>The outcomes of fork and wait\<close>

lemma fork_files_rev:
  assumes "dup_same K" and "np \<noteq> c" and "foldR (fork_file K c np) is t = Inr u"
  shows "\<exists>r. dup_files K (List.map_filter (ofile (procs t c)) is) (res t) = Inr r"
  using assms(3)
proof (induction "is" arbitrary: t)
  case (Cons i js)
  show ?case
  proof (cases "ofile (procs t c) i")
    case None
    then show ?thesis using Cons by (simp add: fork_file_def [of K c np i t] List.map_filter_simps)
  next
    case (Some f)
    with Cons.prems obtain f' r1 where r1: "filedup_op K f (res t) = Inr (f', r1)"
      and "foldR (fork_file K c np) js (upd_proc np (\<lambda>q. q\<lparr>ofile := (ofile q)(i := Some f')\<rparr>) (t\<lparr>res := r1\<rparr>)) = Inr u"
      by (auto simp: fork_file_def [of K c np i t] on_res_def bindR_eq_Inr simp del: upd_proc_res)
    from Cons.IH [OF this(2)] assms(2) show ?thesis
      using Some r1 by (simp add: List.map_filter_simps)
  qed
qed (simp add: List.map_filter_simps)

datatype fork_outcome = Full | NoStack u32 | NoMemory u32 u32 | Forked u32 u32 nat

text \<open>What the child's slot becomes in each outcome.\<close>

definition fork_slot :: "'r kops \<Rightarrow> nat \<Rightarrow> 'r kst \<Rightarrow> fork_outcome \<Rightarrow> proc \<Rightarrow> proc" where
  "fork_slot K c s w q =
     (case w of
        Full \<Rightarrow> q
      | NoStack ks \<Rightarrow> new_proc K 0 s q
      | NoMemory ks pd \<Rightarrow> (new_proc K ks s q)\<lparr>pgdir := 0, kstack := 0, pstate := UNUSED\<rparr>
      | Forked ks pd d \<Rightarrow> (fork_child K ks pd c d s q)\<lparr>pstate := RUNNABLE\<rparr>)"

lemma fork_outcomes:
  assumes g: "sched_good X s qs" "quiet s" "locked (tickslock s) = 0" and me: "me < ncpu s"
    and c: "myproc me s = Some c" and K: "dup_same K" and f: "fork K me s = Inr (r, t)"
  shows "good X t \<and> locked (tickslock t) = 0 \<and>
    (case free_slot s of
       None \<Rightarrow> r = -1 \<and> lframe s t \<and> tickslock t = tickslock s
     | Some p \<Rightarrow> \<exists>w r1. psame ((upd_proc p (fork_slot K c s w) s)\<lparr>nextpid := wrap32 (nextpid s + 1), res := r1\<rparr>) t \<and>
         (case w of Full \<Rightarrow> False
          | NoStack ks \<Rightarrow> r = -1
          | NoMemory ks pd \<Rightarrow> ks \<noteq> 0 \<and> r = -1
          | Forked ks pd d \<Rightarrow> ks \<noteq> 0 \<and> pd \<noteq> 0 \<and> cwd (procs s c) = Some d \<and> r = nextpid s))"
proof (cases "free_slot s")
  case None
  obtain s' where "allocproc K me s = Inr (None, s')" "lframe s s'" "quiet s'" "tickslock s' = tickslock s" "sched_good X s' qs"
    using allocproc_none [OF g None] by blast
  then show ?thesis using None f c g(3) by (auto simp: fork_def good_def)
next
  case (Some p)
  note sl = free_slotD [OF Some]
  have run: "pstate (procs s c) = RUNNING" using sinvD(3) [OF sched_goodD(2) [OF g(1)] me] c by (auto simp: myproc_def)
  then have cp: "p \<noteq> c" using sl by auto
  obtain ks r1 where k: "kalloc_op K (res s) = (ks, r1)" by fastforce
  obtain s1 where s1: "allocproc K me s = Inr (if ks = 0 then None else Some p, s1)" "quiet s1" "locked (tickslock s1) = 0"
    "lframe ((upd_proc p (new_proc K ks s) s)\<lparr>nextpid := wrap32 (nextpid s + 1), res := r1\<rparr>) s1" "sched_good X s1 qs"
    using allocproc_some [OF g Some k] by blast
  show ?thesis
  proof (cases "ks = 0")
    case True
    then have "r = -1" "t = s1" using f c s1(1) by (auto simp: fork_def)
    then show ?thesis
      using Some s1 psame_lframe [OF s1(4)] True
      by (auto simp: good_def fork_slot_def [abs_def] intro!: exI [of _ "NoStack ks"] exI [of _ r1])
  next
    case ks: False
    have c1: "procs s1 c = procs s c" "res s1 = r1" using cp by (simp_all add: lframe_simps [OF s1(4)])
    have fc: "fork_copy K me c p s1 = Inr (r, t)" using f c s1(1) ks by (simp add: fork_def)
    from fc c1 obtain pd r2 where u: "copyuvm_op K (pgdir (procs s c)) (psz (procs s c)) r1 = Inr (pd, r2)"
      by (auto simp: fork_copy_def on_res_def bindR_eq_Inr)
    show ?thesis
    proof (cases "pd = 0")
      case True
      with fc c1 u have "bindR (kfree_op K (kstack (procs s1 p)) r2) (\<lambda>r3. Inr (-1,
          upd_proc p (\<lambda>q. q\<lparr>pgdir := 0, kstack := 0, pstate := UNUSED\<rparr>) (s1\<lparr>res := r3\<rparr>))) = Inr (r, t)"
        by (simp add: fork_copy_def on_res_def on_res0_def bindR_assoc)
      then obtain r3 where r3: "r = -1"
        "t = upd_proc p (\<lambda>q. q\<lparr>pgdir := 0, kstack := 0, pstate := UNUSED\<rparr>) (s1\<lparr>res := r3\<rparr>)"
        unfolding bindR_eq_Inr by blast
      have l: "lframe ((upd_proc p (fork_slot K c s (NoMemory ks pd)) s)\<lparr>nextpid := wrap32 (nextpid s + 1), res := r3\<rparr>) t"
        using s1(4) by (simp add: lframe_def r3(2) fork_slot_def [abs_def])
      have "sched_good X t qs" unfolding sched_good_lframe [OF l] sched_good_fields
        by (rule sched_good_upd_off [OF g(1)]) (use sl in \<open>auto simp: fork_slot_def live_def\<close>)
      then show ?thesis
        using Some s1(2,3) psame_lframe [OF l] r3(1) ks
        by (auto simp: good_def r3(2) intro!: exI [of _ "NoMemory ks pd"] exI [of _ r3])
    next
      case pd: False
      define s2 where "s2 = upd_proc p (fork_image (procs s c) pd c) (s1\<lparr>res := r2\<rparr>)"
      have s2: "procs s2 c = procs s c" "res s2 = r2" using cp c1 by (simp_all add: s2_def)
      have "fork_files_cwd K me c p s2 = Inr (r, t)"
        using fc c1 u pd by (simp add: fork_copy_def on_res_def s2_def)
      then obtain s3 d d' r4 where s3: "foldR (fork_file K c p) [0..<NOFILE] s2 = Inr s3"
        "cwd (procs s3 c) = Some d" "idup_op K d (res s3) = Inr (d', r4)"
        by (auto simp: fork_files_cwd_def on_res_def bindR_eq_Inr split: option.splits)
      obtain r3 where r3: "dup_files K (open_files (procs s c)) r2 = Inr r3"
        using fork_files_rev [OF K cp s3(1)] by (auto simp: s2 open_files_def)
      have "s3 = upd_proc p (dup_ofile (procs s c) {0..<NOFILE}) (s2\<lparr>res := r3\<rparr>)"
        using fork_files [OF K cp, of s2 "[0..<NOFILE]" r3] r3 s3(1) by (simp add: s2 open_files_def)
      then have "cwd (procs s c) = Some d" "idup_op K d r3 = Inr (d', r4)" using s3(2,3) cp s2 by simp_all
      from fork_ok [OF g me c Some K k ks u pd r3 this] obtain t' where
        "fork K me s = Inr (nextpid s, t')" "good X t'" "locked (tickslock t') = 0"
        "psame ((upd_proc p (fork_slot K c s (Forked ks pd d)) s)\<lparr>nextpid := wrap32 (nextpid s + 1), res := r4\<rparr>) t'"
        by (auto simp: good_def fork_slot_def [abs_def])
      then show ?thesis
        using Some f ks pd \<open>cwd (procs s c) = Some d\<close> by (auto intro!: exI [of _ "Forked ks pd d"] exI [of _ r4])
    qed
  qed
qed

text \<open>What a step does to the pids in use: one new process at most, with the next pid.\<close>

definition pid_step :: "'r kst \<Rightarrow> 'r kst \<Rightarrow> bool" where
  "pid_step s t \<longleftrightarrow>
     (nextpid t = nextpid s \<and> (\<forall>i<NPROC. pstate (procs t i) \<noteq> UNUSED \<longrightarrow>
        pstate (procs s i) \<noteq> UNUSED \<and> pid (procs t i) = pid (procs s i))) \<or>
     (\<exists>p. nextpid t = wrap32 (nextpid s + 1) \<and> (\<forall>i<NPROC. pstate (procs t i) \<noteq> UNUSED \<longrightarrow>
        i = p \<and> pid (procs t i) = nextpid s \<or>
        i \<noteq> p \<and> pstate (procs s i) \<noteq> UNUSED \<and> pid (procs t i) = pid (procs s i)))"

lemma lstep_pid: "lstep s t \<Longrightarrow> pid_step s t"
  using lstep_dead [of s t UNUSED] img_fields(4) [of t s] by (auto simp: pid_step_def lstep_def glob_def)

lemma lstep_pid_step: "lstep s t \<Longrightarrow> pid_step t u \<Longrightarrow> pid_step s u"
proof -
  assume l: "lstep s t" and p: "pid_step t u"
  have "pstate (procs t i) = UNUSED \<longleftrightarrow> pstate (procs s i) = UNUSED" for i by (rule lstep_dead [OF l]) simp
  moreover have "pid (procs t i) = pid (procs s i)" for i by (rule img_fields(4)) (use l in \<open>simp add: lstep_def\<close>)
  moreover have "nextpid t = nextpid s" using l by (simp add: lstep_def glob_def)
  ultimately show ?thesis using p unfolding pid_step_def by simp
qed

lemma running_proc:
  assumes "good X s" "me < ncpu s" "myproc me s = Some c"
  shows "c < NPROC" "pstate (procs s c) = RUNNING"
proof -
  obtain qs where g: "sched_good X s qs" using assms(1) by (auto simp: good_def)
  show "c < NPROC" "pstate (procs s c) = RUNNING"
    using sinvD(3) [OF sched_goodD(2) [OF g] assms(2)] assms(3) by (auto simp: myproc_def)
qed

lemma fork_kinv:
  assumes k: "kinv s" and me: "me < ncpu s" and c: "myproc me s = Some c" and K: "dup_same K"
    and f: "fork K me s = Inr (r, t)"
  shows "kinv t \<and> pid_step s t"
proof -
  obtain qs where g: "sched_good {} s qs" "quiet s" using kinvD(1) [OF k] by (auto simp: good_def)
  note O = fork_outcomes [OF g kinvD(2) [OF k] me c K f]
  have t: "good {} t" "locked (tickslock t) = 0" using O by auto
  show ?thesis
  proof (cases "free_slot s")
    case None
    then have "lstep s t" using O lframe_lstep by auto
    then show ?thesis using lstep_kinv [OF _ k t(1)] lstep_pid by blast
  next
    case (Some p)
    note sl = free_slotD [OF Some]
    from O Some obtain w r1 where w: "psame ((upd_proc p (fork_slot K c s w) s)\<lparr>nextpid := wrap32 (nextpid s + 1), res := r1\<rparr>) t"
      "case w of Full \<Rightarrow> False | NoStack ks \<Rightarrow> r = -1 | NoMemory ks pd \<Rightarrow> ks \<noteq> 0 \<and> r = -1
        | Forked ks pd d \<Rightarrow> ks \<noteq> 0 \<and> pd \<noteq> 0 \<and> cwd (procs s c) = Some d \<and> r = nextpid s" by auto
    have "pinv t"
      by (rule slot_pinv [OF kinvD(3) [OF k] _ _ _ _ _ w(1)])
        (use sl w(2) running_proc [OF kinvD(1) [OF k] me c] in
          \<open>auto simp: fork_slot_def fork_child_def dup_ofile_def fork_image_def Let_def split: fork_outcome.splits if_splits\<close>)
    moreover have n: "nextpid t = wrap32 (nextpid s + 1)" by (simp add: psame_simps [OF w(1)])
    have "i = p \<and> pid (procs t i) = nextpid s \<or>
        i \<noteq> p \<and> pstate (procs s i) \<noteq> UNUSED \<and> pid (procs t i) = pid (procs s i)"
      if "pstate (procs t i) \<noteq> UNUSED" for i
      using w(2) that by (cases "i = p")
        (auto simp: psame_simps [OF w(1)] fork_slot_def fork_child_def dup_ofile_def fork_image_def Let_def split: fork_outcome.splits)
    with n have "pid_step s t" unfolding pid_step_def by blast
    ultimately show ?thesis using t by (simp add: kinv_def)
  qed
qed

lemma exit_kinv:
  assumes k: "kinv s" and me: "me < ncpu s" and e: "exit K me s = Inr t"
  shows "kinv t \<and> pid_step s t"
proof -
  obtain c s1 where c: "myproc me s = Some c" "initproc s \<noteq> Some c" "exit_resources K me c s = Inr s1"
    using e by (auto simp: exit_def bindR_eq_Inr split: if_splits option.splits)
  from exit_ok [OF kinvD(1) [OF k] me c] e have x: "good {} t" "exited me c s t" by auto
  then have "pinv t" using exited_pinv [OF kinvD(3) [OF k] running_proc(1) [OF kinvD(1) [OF k] me c(1)] c(2)] by blast
  moreover have y: "nextpid t = nextpid s" "\<And>i. pid (procs t i) = pid (procs s i)"
    "\<And>i. i \<noteq> c \<Longrightarrow> pstate (procs t i) = pstate (procs s i) \<or> pstate (procs s i) = SLEEPING \<and> pstate (procs t i) = RUNNABLE"
    using x(2) by (simp_all add: exited_def)
  have "pstate (procs s i) \<noteq> UNUSED" if "pstate (procs t i) \<noteq> UNUSED" for i
    using y(3) [of i] that running_proc(2) [OF kinvD(1) [OF k] me c(1)] by (cases "i = c") auto
  then have "pid_step s t" using y(1,2) by (simp add: pid_step_def)
  ultimately show ?thesis using x kinvD(2) [OF k] by (simp add: kinv_def exited_def)
qed

lemma wait_pass_kinv:
  assumes k: "pinv s" "locked (tickslock s) = 0" and g: "sched_good {} s qs" and h: "held me 1 s"
    and me: "me < ncpu s" and c: "myproc me s = Some c" and w: "wait_pass K me c s = Inr (r, t)"
  shows "kinv t \<and> pid_step s t"
proof (cases "zombie_child s c")
  case (Some p)
  have p: "p < NPROC" "pstate (procs s p) = ZOMBIE" using Some by (auto simp: zombie_child_def first_index_Some)
  obtain r1 r2 where r: "kfree_op K (kstack (procs s p)) (res s) = Inr r1" "freevm_op K (pgdir (procs s p)) r1 = Inr r2"
    using w Some by (auto simp: wait_pass_def zombie_child_def wait_reap_def on_res0_def bindR_eq_Inr)
  obtain t' where t': "wait_pass K me c s = Inr (Waited (pid (procs s p)), t')" "sched_good {} t' qs" "quiet t'"
    "lframe ((upd_proc p reaped s)\<lparr>res := r2\<rparr>) t'" "tickslock t' = tickslock s"
    using wait_pass_reaps [OF g h Some r] by blast
  have "psame ((upd_proc p reaped s)\<lparr>nextpid := nextpid s, res := r2\<rparr>) t'" using psame_lframe [OF t'(4)] by (simp add: psame_def)
  from slot_pinv [OF k(1) p(1) _ _ _ _ this] have "pinv t'" using p by (simp add: reaped_def)
  moreover have "pid_step s t'" unfolding pid_step_def
    by (intro disjI1 conjI allI impI) (auto simp: lframe_simps [OF t'(4)] reaped_def split: if_splits)
  ultimately show ?thesis using t' w k(2) by (auto simp: kinv_def good_def)
next
  case None
  show ?thesis
  proof (cases "(\<forall>p<NPROC. parent (procs s p) \<noteq> Some c) \<or> killed (procs s c) \<noteq> 0")
    case True
    obtain t' where t': "wait_pass K me c s = Inr (Waited (-1), t')" "sched_good {} t' qs" "quiet t'" "lframe s t'" "tickslock t' = tickslock s"
      using wait_pass_none [OF g h None True] by blast
    moreover have "lstep s t'" by (rule lframe_lstep [OF t'(4,5)])
    ultimately show ?thesis using w lstep_pinv [OF _ k(1)] lstep_pid k(2) by (auto simp: kinv_def good_def)
  next
    case False
    obtain saved t' where t': "wait_pass K me c s = Inr (Sleeps saved, t')" "sched_good {} t' qs" "quiet t'"
      "img t' = img s" "chans t' = (chans s)(c := Some (ChanProc c))" "glob t' = glob s"
      "\<forall>i. pstate (procs t' i) = (if i = c then SLEEPING else pstate (procs s i))"
      using wait_pass_sleeps [OF g h me c None] False by blast
    have "pstate (procs s c) = RUNNING" using sinvD(3) [OF sched_goodD(2) [OF g] me] c by (auto simp: myproc_def)
    moreover have "\<forall>z<NPROC. parent (procs s z) = Some c \<longrightarrow> pstate (procs s z) \<noteq> ZOMBIE"
      using None by (auto simp: zombie_child_def first_index_None)
    ultimately have "lstep s t'" using t'(4-7) by (auto simp: lstep_def glob_def live_def)
    then show ?thesis using w t' lstep_pinv lstep_pid k glob_fields(7) [OF t'(6)] by (auto simp: kinv_def good_def)
  qed
qed

lemma wait_kinv:
  assumes k: "kinv s" and me: "me < ncpu s" and w: "wait K me s = Inr (r, t)"
  shows "kinv t \<and> pid_step s t"
proof -
  obtain qs where g: "sched_good {} s qs" "quiet s" using kinvD(1) [OF k] by (auto simp: good_def)
  obtain s1 where s1: "acquire_pt me s = Inr s1" "lframe s s1" "held me 1 s1" "tickslock s1 = tickslock s"
    using acquire_pt_calm [of me 0 s] g(2) by (auto simp: quiet_calm [of s me])
  obtain c where c: "myproc me s = Some c" "wait_pass K me c s1 = Inr (r, t)"
    using w s1(1) by (auto simp: wait_def split: option.splits)
  have l: "lstep s s1" by (rule lframe_lstep [OF s1(2,4)])
  have "pinv s1" by (rule lstep_pinv [OF l kinvD(3) [OF k]])
  then have "kinv t \<and> pid_step s1 t"
    using wait_pass_kinv [OF _ _ _ s1(3) _ _ c(2)] g(1) s1(4) kinvD(2) [OF k] me c(1)
    by (auto simp: sched_good_lframe [OF s1(2)] lframe_simps [OF s1(2)] myproc_def)
  then show ?thesis using lstep_pid_step [OF l] by blast
qed

section \<open>The process table as a transition system\<close>

text \<open>
  What the CPUs do to the process table: the scheduling steps (with \<open>sleep\<close> on any channel
  but that of a process, which only \<open>wait\<close> uses here), \<open>fork\<close>, \<open>exit\<close>, \<open>wait\<close>, and a process
  that comes back to the loop of \<open>wait\<close> after it slept.
\<close>

inductive kstep :: "'r kops \<Rightarrow> 'r kst \<Rightarrow> 'r kst \<Rightarrow> bool" for K :: "'r kops" where
  idle: "me < ncpu s \<Longrightarrow> myproc me s = None \<Longrightarrow> scheduler me s = Inr (None, t) \<Longrightarrow> kstep K s t"
| resume: "me < ncpu s \<Longrightarrow> myproc me s = None \<Longrightarrow> scheduler me s = Inr (Some p, s1) \<Longrightarrow>
    yield_resume me saved s1 = Inr t \<Longrightarrow> kstep K s t"
| start: "me < ncpu s \<Longrightarrow> myproc me s = None \<Longrightarrow> scheduler me s = Inr (Some p, s1) \<Longrightarrow>
    release_pt me s1 = Inr t \<Longrightarrow> kstep K s t"
| yield: "me < ncpu s \<Longrightarrow> myproc me s = Some p \<Longrightarrow> yield me s = Inr (saved, t) \<Longrightarrow> kstep K s t"
| sleep: "me < ncpu s \<Longrightarrow> myproc me s = Some p \<Longrightarrow> \<forall>q. ch \<noteq> Some (ChanProc q) \<Longrightarrow>
    acquire me False l s = Inr (l', s1) \<Longrightarrow> sleep me ch (OtherLk l') s1 = Inr (l'', saved, t) \<Longrightarrow> kstep K s t"
| wakeup: "me < ncpu s \<Longrightarrow> wakeup me ch s = Inr t \<Longrightarrow> kstep K s t"
| fork: "me < ncpu s \<Longrightarrow> myproc me s = Some p \<Longrightarrow> fork K me s = Inr (r, t) \<Longrightarrow> kstep K s t"
| exit: "me < ncpu s \<Longrightarrow> exit K me s = Inr t \<Longrightarrow> kstep K s t"
| wait: "me < ncpu s \<Longrightarrow> wait K me s = Inr (w, t) \<Longrightarrow> kstep K s t"
| wait_again: "me < ncpu s \<Longrightarrow> myproc me s = None \<Longrightarrow> scheduler me s = Inr (Some p, s1) \<Longrightarrow>
    wait_resume K me p saved s1 = Inr (w, t) \<Longrightarrow> kstep K s t"

lemma lstepI:
  assumes "img t = img s" "glob t = glob s" "chans t = chans s"
    and "\<And>i. pstate (procs t i) = pstate (procs s i) \<or> pstate (procs s i) \<in> {SLEEPING, RUNNABLE, RUNNING} \<and> pstate (procs t i) \<in> {RUNNABLE, RUNNING}"
  shows "lstep s t"
proof -
  have "pstate (procs t i) = pstate (procs s i) \<or> pstate (procs s i) \<in> live \<and> pstate (procs t i) \<in> live" for i
    using assms(4) [of i] by (auto simp: live_def)
  moreover have "pstate (procs t i) = SLEEPING \<Longrightarrow> pstate (procs s i) = SLEEPING" for i using assms(4) [of i] by auto
  ultimately show ?thesis using assms(1-3) by (simp add: lstep_def glob_def)
qed

lemma scheduler_lstep:
  assumes g: "sched_good X s qs" "quiet s" and me: "me < ncpu s" "myproc me s = None" and r: "scheduler me s = Inr (r, t)"
  shows "lstep s t \<and> ncpu t = ncpu s \<and> glob t = glob s \<and> chans t = chans s \<and>
    (case r of None \<Rightarrow> good X t | Some p \<Rightarrow> (\<exists>qs'. sched_good X t qs') \<and> held me 1 t \<and> myproc me t = Some p)"
proof -
  have S: "ncpu t = ncpu s" "img t = img s" "chans t = chans s" "glob t = glob s"
    "\<And>i. pstate (procs t i) = (if r = Some i then RUNNING else pstate (procs s i))"
    and r': "r = pick s (core_type (cpus s me)) (rebalanced s me qs me)"
    and c: "case r of None \<Rightarrow> rebalanced s me qs me = [] \<and> sched_good X t (rebalanced s me qs) \<and> quiet t
     | Some p \<Rightarrow> sched_good X t ((rebalanced s me qs)(me := remove1 p (rebalanced s me qs me))) \<and> held me 1 t \<and>
         myproc me t = Some p \<and> pstate (procs t p) = RUNNING \<and> slice_ticks (procs t p) = 0 \<and>
         cr3 (cpus t me) = V2P (pgdir (procs s p)) \<and> ts_esp0 (cpus t me) = kstack (procs s p) + KSTACKSIZE"
    using scheduler_good [OF g me] r by auto
  have "runnable s i" if "r = Some i" for i using pick_Some(2) [of s _ _ i] r' that by metis
  then have "lstep s t" using S by (intro lstepI) auto
  then show ?thesis using S(1,3,4) c by (auto simp: good_def split: option.splits)
qed

lemma kstep_kinv:
  assumes K: "dup_same K" and st: "kstep K s t" and k: "kinv s"
  shows "kinv t \<and> pid_step s t"
proof -
  obtain qs where g: "sched_good {} s qs" "quiet s" using kinvD(1) [OF k] by (auto simp: good_def)
  show ?thesis using st
  proof cases
    case (idle me)
    then show ?thesis using scheduler_lstep [OF g idle] lstep_kinv [OF _ k] lstep_pid by auto
  next
    case (resume me p s1 saved)
    then obtain qs1 where s1: "lstep s s1" "sched_good {} s1 qs1" "held me 1 s1" using scheduler_lstep [OF g resume(1-3)] by auto
    from yield_resume_good [OF s1(2,3), of saved] resume(4) have t: "good {} t" "procs t = procs s1" "glob t = glob s1"
      by (auto simp: good_def)
    then have "lstep s t" using s1(1) img_eq [OF t(2)] chans_eq [OF t(2)] by (simp add: lstep_def glob_def)
    then show ?thesis using lstep_kinv [OF _ k] lstep_pid t(1) by blast
  next
    case (start me p s1)
    then obtain qs1 where s1: "lstep s s1" "sched_good {} s1 qs1" "held me 1 s1" using scheduler_lstep [OF g start(1-3)] by auto
    from release_good [OF s1(2,3)] start(4) have t: "good {} t" "procs t = procs s1" "glob t = glob s1"
      by (auto simp: good_def)
    then have "lstep s t" using s1(1) img_eq [OF t(2)] chans_eq [OF t(2)] by (simp add: lstep_def glob_def)
    then show ?thesis using lstep_kinv [OF _ k] lstep_pid t(1) by blast
  next
    case (yield me p saved)
    have run: "pstate (procs s p) = RUNNING" using running_proc [OF kinvD(1) [OF k] yield(1,2)] by simp
    from yield_good [OF g yield(1,2)] yield(3) have t: "good {} t" "img t = img s" "chans t = chans s" "glob t = glob s"
      "\<forall>i. pstate (procs t i) = (if i = p then RUNNABLE else pstate (procs s i))" by (auto simp: good_def)
    then have "lstep s t" using run by (intro lstepI) auto
    then show ?thesis using lstep_kinv [OF _ k] lstep_pid t(1) by blast
  next
    case (sleep me p ch l l' s1 l'' saved)
    have run: "pstate (procs s p) = RUNNING" using running_proc [OF kinvD(1) [OF k] sleep(1,2)] by simp
    note A = acquire_good [OF g sleep(4)]
    have a: "procs s1 = procs s" "glob s1 = glob s"
      using sleep(4) g(2) by (auto simp: acquire_eq quiet_def pushcli_def split: if_splits)
    from sleep_good [OF A(1,2) _ _ A(4,5), of p ch] sleep(1,2,5) A(3,6)
    have t: "good {} t" "img t = img s1" "glob t = glob s1" "chans t = (chans s1)(p := ch)"
      "\<forall>i. pstate (procs t i) = (if i = p then SLEEPING else pstate (procs s1 i))" by (auto simp: good_def)
    have "lstep s t" unfolding lstep_def
      using t img_eq [OF a(1)] chans_eq [OF a(1)] a run sleep(3) by (auto simp: glob_def live_def)
    then show ?thesis using lstep_kinv [OF _ k] lstep_pid t(1) by blast
  next
    case (wakeup me ch)
    have "calm me 0 s" using g(2) by (simp add: quiet_calm [of s me])
    from wakeup_good [OF g(1) this, of ch] wakeup(2) obtain qs' where
      t: "sched_good {} t qs'" "calm me 0 t" "woke (sleepers ch s) s t" by auto
    have "chans t = chans s" using wokeD(5) [OF t(3)] by (simp add: chans_def fun_eq_iff)
    then have "lstep s t" using wokeD [OF t(3)] by (intro lstepI) (auto simp: sleepers_def)
    moreover have "good {} t" using t(1,2) by (auto simp: good_def quiet_calm [of t me])
    ultimately show ?thesis using lstep_kinv [OF _ k] lstep_pid by blast
  next
    case (fork me p r)
    then show ?thesis using fork_kinv [OF k _ _ K] by blast
  next
    case (exit me)
    then show ?thesis using exit_kinv [OF k] by blast
  next
    case (wait me w)
    then show ?thesis using wait_kinv [OF k] by blast
  next
    case (wait_again me p s1 saved w)
    then obtain qs1 where s1: "lstep s s1" "sched_good {} s1 qs1" "held me 1 s1" "myproc me s1 = Some p" "ncpu s1 = ncpu s" "glob s1 = glob s"
      using scheduler_lstep [OF g wait_again(1-3)] by auto
    define s2 where "s2 = upd_proc p (\<lambda>q. q\<lparr>pchan := None\<rparr>) (sched_resume me saved s1)"
    have w: "wait_pass K me p s2 = Inr (w, t)"
      using wait_again(4) s1(4) by (simp add: wait_resume_def sleep_resume_def s2_def)
    have "sched_good {} (sched_resume me saved s1) qs1"
      unfolding sched_resume_def by (rule sched_good_cpu [OF s1(2)]) simp_all
    then have g2: "sched_good {} s2 qs1" unfolding s2_def by (rule sched_good_upd_same) simp_all
    have h2: "held me 1 s2" using s1(3) by (simp add: s2_def sched_resume_def held_upd_cpu)
    have r1: "pstate (procs s1 p) = RUNNING"
      using sinvD(3) [OF sched_goodD(2) [OF s1(2)], of me p] wait_again(1) s1(4,5) by (simp add: myproc_def)
    have "img s2 = img s1" by (auto simp: s2_def sched_resume_def img_def fun_eq_iff)
    moreover have "chans s2 = (chans s1)(p := None)" by (simp add: s2_def sched_resume_def chans_upd_proc)
    moreover have "\<forall>i. pstate (procs s2 i) = pstate (procs s1 i)" "glob s2 = glob s1" by (simp_all add: s2_def sched_resume_def)
    ultimately have l2: "lstep s1 s2" using r1 by (auto simp: lstep_def glob_def)
    then have "pinv s2" using lstep_pinv [OF _ lstep_pinv [OF s1(1) kinvD(3) [OF k]]] by blast
    moreover have "locked (tickslock s2) = 0" "me < ncpu s2" "myproc me s2 = Some p"
      using kinvD(2) [OF k] glob_fields(7) [OF s1(6)] wait_again(1) s1(4,5) by (simp_all add: s2_def sched_resume_def myproc_def)
    ultimately have "kinv t \<and> pid_step s2 t" using wait_pass_kinv [OF _ _ g2 h2 _ _ w] by blast
    then show ?thesis using lstep_pid_step [OF s1(1) lstep_pid_step [OF l2]] by blast
  qed
qed


section \<open>The first process\<close>

lemma boot_good: "0 < n \<Longrightarrow> good {} (boot_kst n r)"
proof -
  assume n: "0 < n"
  have "sched_good {} (boot_kst n r) (\<lambda>_. [])"
    using n by (auto simp: sched_good_def boot_queues sinv_def queued_def live_def)
  moreover have "quiet (boot_kst n r)" by (simp add: quiet_def cli_ok_def)
  ultimately show ?thesis by (auto simp: good_def)
qed

lemma boot_slot: "free_slot (boot_kst n r) = Some 0"
  by (simp add: free_slot_def first_index_Some NPROC_def)

lemma userinit_boot:
  assumes n: "0 < n" and u: "userinit K me (boot_kst n r) = Inr t"
  shows "kinv t \<and> initproc t = Some 0 \<and> pstate (procs t 0) = RUNNABLE \<and> pid (procs t 0) = 1 \<and> nextpid t = 2 \<and>
    tf (procs t 0) = init_tf \<and> psz (procs t 0) = PGSIZE \<and> (\<forall>i. 0 < i \<longrightarrow> pstate (procs t i) = UNUSED)"
proof -
  let ?b = "boot_kst n r"
  obtain qs where g: "sched_good {} ?b qs" "quiet ?b" using boot_good [OF n, of r] by (auto simp: good_def)
  have tk: "locked (tickslock ?b) = 0" by simp
  obtain ks r1 where k: "kalloc_op K (res ?b) = (ks, r1)" by fastforce
  obtain s1 where s1: "allocproc K me ?b = Inr (if ks = 0 then None else Some 0, s1)" "quiet s1" "locked (tickslock s1) = 0"
    "lframe ((upd_proc 0 (new_proc K ks ?b) ?b)\<lparr>nextpid := wrap32 (nextpid ?b + 1), res := r1\<rparr>) s1" "sched_good {} s1 qs"
    using allocproc_some [OF g tk boot_slot k] by blast
  have ks: "ks \<noteq> 0" using u s1(1) by (auto simp: userinit_def)
  from u s1(1) ks obtain pd r2 r3 ip chs r4 s7 where e: "pd \<noteq> 0"
    "foldR (\<lambda>ch. wakeup me (Some ch)) chs ((upd_proc 0 (\<lambda>q. q\<lparr>pgdir := pd, psz := PGSIZE, tf := init_tf,
        pname := safestrcpy_name ''initcode''\<rparr>) (s1\<lparr>initproc := Some 0\<rparr>))\<lparr>res := r4\<rparr>) = Inr s7" (is "foldR _ chs ?s6 = _")
    "make_runnable me 0 (upd_proc 0 (\<lambda>q. q\<lparr>cwd := ip\<rparr>) s7) = Inr t"
    by (auto simp: userinit_def on_res_def on_res0_def bindR_eq_Inr Let_def split: if_splits)
  note L = lframe_simps [OF s1(4)]
  have p1: "procs s1 i = (if i = 0 then new_proc K ks ?b zero_proc else zero_proc)" for i by (simp add: L)
  have "sched_good {} ?s6 qs"
    unfolding sched_good_fields by (rule sched_good_upd_off) (use s1(5) ks in \<open>auto simp: p1 live_def\<close>)
  then have g6: "good {} ?s6" using s1(2) by (auto simp: good_def)
  have s7: "good {} s7" "wstep ?s6 s7" using wakeups_good [OF g6, of me chs] e(2) by auto
  have i7: "img s7 = img ?s6" "initproc s7 = Some 0" "nextpid s7 = 2" "tickslock s7 = tickslock s1"
    using s7(2) by (auto simp: wstep_def glob_def L wrap32_def)
  have st7: "pstate (procs s7 i) = (if i = 0 then EMBRYO else UNUSED)" for i
    using s7(2) ks by (auto simp: wstep_def p1 dest!: spec [of _ i] split: if_splits)
  note F = img_fields [OF i7(1)]
  define s8 where "s8 = upd_proc 0 (\<lambda>q. q\<lparr>cwd := ip\<rparr>) s7"
  obtain qs8 where g8: "sched_good {} s8 qs8" "quiet s8"
    using good_upd [OF s7(1), of "\<lambda>q. q\<lparr>cwd := ip\<rparr>" 0] by (auto simp: good_def s8_def)
  have "has_image s8 0" using ks e(1) by (simp add: has_image_def s8_def F p1)
  from make_runnable_ok [OF g8 _ _ this, of me] e(3) obtain qs' where
    t: "sched_good {} t qs'" "quiet t" "psame (upd_proc 0 (\<lambda>q. q\<lparr>pstate := RUNNABLE\<rparr>) s8) t" "tickslock t = tickslock s8"
    by (auto simp: s8_def st7 NPROC_def)
  note S = psame_simps [OF t(3)]
  have st: "pstate (procs t i) = (if i = 0 then RUNNABLE else UNUSED)" "parent (procs t i) = None"
    "ofile (procs t i) fd = None" for i fd
    by (simp_all add: S s8_def st7 F p1) (simp_all add: zero_proc_def)
  have "pinv t" unfolding pinv_def waits_ok_def tree_ok_def files_ok_def
    using i7(2) by (auto simp: st psame_globals(5) [OF t(3)] s8_def live_def NPROC_def)
  moreover have "locked (tickslock t) = 0" using t(4) i7(4) s1(3) by (simp add: s8_def)
  ultimately have "kinv t" using t(1,2) by (auto simp: kinv_def good_def)
  then show ?thesis using i7 by (auto simp: st S s8_def F p1)
qed


section \<open>Reachable states\<close>

text \<open>\<open>kreach K k s\<close>: \<open>s\<close> is reached from boot by \<open>userinit\<close> and at most \<open>k\<close> steps.\<close>

inductive kreach :: "'r kops \<Rightarrow> nat \<Rightarrow> 'r kst \<Rightarrow> bool" for K :: "'r kops" where
  boot: "0 < n \<Longrightarrow> userinit K me (boot_kst n r) = Inr s \<Longrightarrow> kreach K 0 s"
| step: "kreach K k s \<Longrightarrow> kstep K s t \<Longrightarrow> kreach K (Suc k) t"

lemma kreach_kinv:
  assumes "kreach K k s" and K: "dup_same K"
  shows "kinv s"
  using assms(1)
proof induction
  case (boot n me r s)
  then show ?case using userinit_boot [OF boot] by simp
next
  case (step k s t)
  then show ?case using kstep_kinv [OF K step(2)] by simp
qed

lemma pid_step_pids_ok:
  assumes "pid_step s t" "pids_ok s" "nextpid s < 2 ^ 31 - 1"
  shows "pids_ok t \<and> nextpid t \<le> nextpid s + 1"
proof -
  have w: "wrap32 (nextpid s + 1) = nextpid s + 1" using assms(2,3) by (intro wrap32_id) (auto simp: pids_ok_def)
  from assms(1) show ?thesis unfolding pid_step_def w
  proof
    assume "nextpid t = nextpid s \<and> (\<forall>i<NPROC. pstate (procs t i) \<noteq> UNUSED \<longrightarrow>
        pstate (procs s i) \<noteq> UNUSED \<and> pid (procs t i) = pid (procs s i))"
    then show ?thesis using assms(2) by (auto simp: pids_ok_def)
  next
    assume "\<exists>p. nextpid t = nextpid s + 1 \<and> (\<forall>i<NPROC. pstate (procs t i) \<noteq> UNUSED \<longrightarrow>
        i = p \<and> pid (procs t i) = nextpid s \<or>
        i \<noteq> p \<and> pstate (procs s i) \<noteq> UNUSED \<and> pid (procs t i) = pid (procs s i))"
    then obtain p where p: "nextpid t = nextpid s + 1" "\<And>i. i < NPROC \<Longrightarrow> pstate (procs t i) \<noteq> UNUSED \<Longrightarrow>
        i = p \<and> pid (procs t i) = nextpid s \<or> i \<noteq> p \<and> pstate (procs s i) \<noteq> UNUSED \<and> pid (procs t i) = pid (procs s i)"
      by blast
    have s: "\<And>i. i < NPROC \<Longrightarrow> pstate (procs s i) \<noteq> UNUSED \<Longrightarrow> 0 < pid (procs s i) \<and> pid (procs s i) < nextpid s"
      "\<And>i j. i < NPROC \<Longrightarrow> j < NPROC \<Longrightarrow> i \<noteq> j \<Longrightarrow> pstate (procs s i) \<noteq> UNUSED \<Longrightarrow> pstate (procs s j) \<noteq> UNUSED \<Longrightarrow>
        pid (procs s i) \<noteq> pid (procs s j)" "0 < nextpid s"
      using assms(2) by (auto simp: pids_ok_def)
    have "0 < pid (procs t i) \<and> pid (procs t i) < nextpid t" if "i < NPROC" "pstate (procs t i) \<noteq> UNUSED" for i
      using p(1) p(2) [OF that] s(1) [OF that(1)] s(3) by auto
    moreover have "pid (procs t i) \<noteq> pid (procs t j)"
      if "i < NPROC" "j < NPROC" "i \<noteq> j" "pstate (procs t i) \<noteq> UNUSED" "pstate (procs t j) \<noteq> UNUSED" for i j
      using p(2) [OF that(1,4)] p(2) [OF that(2,5)] s(1) [OF that(1)] s(1) [OF that(2)] s(2) [OF that(1-3)] that(3) by auto
    ultimately show ?thesis using p(1) s(3) by (simp add: pids_ok_def)
  qed
qed


lemma kreach_pids:
  assumes "kreach K k s" and K: "dup_same K" and "int k < 2 ^ 31 - 2"
  shows "pids_ok s \<and> nextpid s \<le> 2 + int k"
  using assms(1,3)
proof induction
  case (boot n me r s)
  have u: "pid (procs s 0) = 1" "nextpid s = 2" "\<And>i. pstate (procs s i) \<noteq> UNUSED \<Longrightarrow> i = 0"
    using userinit_boot [OF boot(1,2)] by blast+
  then have "pids_ok s" unfolding pids_ok_def by (metis less_numeral_extra(1) one_less_numeral_iff semiring_norm(76) zero_less_numeral)
  then show ?case using u(2) by simp
next
  case (step k s t)
  have "pids_ok s \<and> nextpid s \<le> 2 + int k" using step by simp
  moreover have "pid_step s t" using kstep_kinv [OF K step(2) kreach_kinv [OF step(1) K]] by simp
  ultimately show ?case using pid_step_pids_ok [of s t] step.prems by simp
qed

section \<open>Properties\<close>


text \<open>
  C8: pids. In every reachable state (after fewer than \<open>2^31 - 2\<close> steps, before \<open>nextpid\<close> wraps)
  the processes in use have positive pids below \<open>nextpid\<close>, and different processes have
  different pids.
\<close>

theorem pids_unique:
  assumes "kreach K k s" and "dup_same K" and "int k < 2 ^ 31 - 2"
  shows "pids_ok s"
  using kreach_pids [OF assms] by blast

text \<open>
  C9: \<open>fork\<close>. When the memory and file layers grant what it asks for, \<open>fork\<close> returns the next
  pid and creates exactly one process, in the first free slot: runnable, at the end of the
  queue of the least loaded E-core, child of the caller, with the caller's registers except
  \<open>eax = 0\<close>, its size, open files, directory and name, and the memory \<open>copyuvm\<close> made. Its kernel
  stack starts in \<open>forkret\<close>. Every other process is unchanged.
\<close>

theorem fork_creates_child:
  assumes "kinv s" and "me < ncpu s" and "myproc me s = Some c" and "free_slot s = Some p" and "dup_same K"
    and "kalloc_op K (res s) = (ks, r1)" and "ks \<noteq> 0"
    and "copyuvm_op K (pgdir (procs s c)) (psz (procs s c)) r1 = Inr (pd, r2)" and "pd \<noteq> 0"
    and "dup_files K (open_files (procs s c)) r2 = Inr r3"
    and "cwd (procs s c) = Some d" and "idup_op K d r3 = Inr (d', r4)"
  shows "\<exists>t. fork K me s = Inr (nextpid s, t) \<and> kinv t \<and> res t = r4 \<and> nextpid t = wrap32 (nextpid s + 1) \<and>
    (\<exists>qs. queues t qs \<and> p \<in> set (qs (get_least_loaded_e_core s))) \<and>
    (let q = procs t p; par = procs s c in
       pstate q = RUNNABLE \<and> pid q = nextpid s \<and> parent q = Some c \<and> tf q = (tf par)\<lparr>tf_eax := 0\<rparr> \<and>
       psz q = psz par \<and> pgdir q = pd \<and> (\<forall>fd<NOFILE. ofile q fd = ofile par fd) \<and> cwd q = Some d \<and>
       pname q = take 15 (pname par) \<and> kstack q = ks \<and> cx_eip (ctx q) = forkret_va K \<and>
       ctx_ret q = trapret_va K \<and> ctime q = ticks s) \<and>
    (\<forall>i. i \<noteq> p \<longrightarrow> (procs t i)\<lparr>next_run := None\<rparr> = (procs s i)\<lparr>next_run := None\<rparr>) \<and>
    (\<forall>k. myproc k t = myproc k s)"
proof -
  obtain qs where g: "sched_good {} s qs" "quiet s" using kinvD(1) [OF assms(1)] by (auto simp: good_def)
  define e where "e = get_least_loaded_e_core s"
  obtain t where t: "fork K me s = Inr (nextpid s, t)" "sched_good {} t (qs(e := qs e @ [p]))"
    and ps: "psame ((upd_proc p (\<lambda>q. (fork_child K ks pd c d s q)\<lparr>pstate := RUNNABLE\<rparr>) s)\<lparr>nextpid := wrap32 (nextpid s + 1), res := r4\<rparr>) t"
    using fork_ok [OF g kinvD(2) [OF assms(1)] assms(2-12)] unfolding e_def by blast
  have "kinv t" using fork_kinv [OF assms(1-3,5) t(1)] by blast
  moreover have "\<forall>fd<NOFILE. ofile (procs s p) fd = None"
    using pinvD(3) [OF kinvD(3) [OF assms(1)]] free_slotD [OF assms(4)] by (auto simp: files_ok_def)
  then have "ofile (procs t p) fd = ofile (procs s c) fd" if "fd < NOFILE" for fd
    using that by (cases "ofile (procs s c) fd") (auto simp: psame_simps [OF ps] fork_child_def dup_ofile_def fork_image_def dup_fn_def Let_def new_proc_def slot_init_def allocproc_stack_def assms(7))
  moreover have "queues t (qs(e := qs e @ [p]))" by (rule viewD(1) [OF sched_goodD(1) [OF t(2)]])
  then have "\<exists>qs. queues t qs \<and> p \<in> set (qs (get_least_loaded_e_core s))"
    unfolding e_def by (intro exI [of _ "qs(e := qs e @ [p])"]) (simp add: e_def)
  moreover have "(procs t i)\<lparr>next_run := None\<rparr> = (procs s i)\<lparr>next_run := None\<rparr>" if "i \<noteq> p" for i
    using ps that by (simp add: psame_def)
  moreover have "myproc k t = myproc k s" for k by (simp add: psame_simps [OF ps] myproc_def)
  ultimately show ?thesis using t(1) assms(7)
    by (intro exI [of _ t]) (simp add: psame_simps [OF ps] fork_child_def dup_ofile_def fork_image_def Let_def
      new_proc_def slot_init_def allocproc_stack_def)
qed

text \<open>
  C10: \<open>exit\<close>. Once the files and the directory are released, a process other than \<open>init\<close> becomes
  a zombie that no CPU runs, keeps its pid, has no open file, and records its exit time; its
  children get \<open>init\<close> as their parent; its own parent no longer sleeps in \<open>wait\<close>, nor does
  \<open>init\<close> when it inherits a zombie; other processes at most wake up; and the process-table
  invariant is kept. \<open>init\<close> itself panics.
\<close>

theorem exit_effects:
  assumes "kinv s" and "me < ncpu s" and "myproc me s = Some c" and "exit_resources K me c s = Inr s1"
  shows "(initproc s = Some c \<longrightarrow> exit K me s = Inl (Panic ''init exiting'')) \<and>
    (initproc s \<noteq> Some c \<longrightarrow> (\<exists>t. exit K me s = Inr t \<and> kinv t \<and> myproc me t = None \<and>
      pstate (procs t c) = ZOMBIE \<and> pid (procs t c) = pid (procs s c) \<and> etime (procs t c) = ticks s \<and>
      (\<forall>fd<NOFILE. ofile (procs t c) fd = None) \<and>
      (\<forall>i<NPROC. parent (procs t i) = (if parent (procs s i) = Some c then initproc s else parent (procs s i))) \<and>
      (\<forall>q. parent (procs s c) = Some q \<longrightarrow> \<not> (pstate (procs t q) = SLEEPING \<and> pchan (procs t q) = Some (ChanProc q))) \<and>
      (\<forall>i. i \<noteq> c \<longrightarrow> pstate (procs t i) = pstate (procs s i) \<or>
           pstate (procs s i) = SLEEPING \<and> pstate (procs t i) = RUNNABLE)))"
proof (intro conjI impI)
  show "initproc s = Some c \<Longrightarrow> exit K me s = Inl (Panic ''init exiting'')" using assms(3) by (simp add: exit_def)
  assume ni: "initproc s \<noteq> Some c"
  obtain t where t: "exit K me s = Inr t" "exited me c s t"
    using exit_ok [OF kinvD(1) [OF assms(1)] assms(2,3) ni assms(4)] by blast
  have "kinv t" using exit_kinv [OF assms(1,2) t(1)] by blast
  moreover have "\<not> (pstate (procs t q) = SLEEPING \<and> pchan (procs t q) = Some (ChanProc q))" if "parent (procs s c) = Some q" for q
  proof
    assume "pstate (procs t q) = SLEEPING \<and> pchan (procs t q) = Some (ChanProc q)"
    moreover have "q < NPROC" using treeD(1) [OF pinvD(2) [OF kinvD(3) [OF assms(1)]] _ that]
      running_proc(1) [OF kinvD(1) [OF assms(1)] assms(2,3)] by simp
    ultimately have "q \<in> sleepers (map_option ChanProc (parent (procs s c))) t" using that by (simp add: sleepers_def)
    then show False using t(2) by (simp add: exited_def)
  qed
  ultimately show "\<exists>t. exit K me s = Inr t \<and> kinv t \<and> myproc me t = None \<and>
      pstate (procs t c) = ZOMBIE \<and> pid (procs t c) = pid (procs s c) \<and> etime (procs t c) = ticks s \<and>
      (\<forall>fd<NOFILE. ofile (procs t c) fd = None) \<and>
      (\<forall>i<NPROC. parent (procs t i) = (if parent (procs s i) = Some c then initproc s else parent (procs s i))) \<and>
      (\<forall>q. parent (procs s c) = Some q \<longrightarrow> \<not> (pstate (procs t q) = SLEEPING \<and> pchan (procs t q) = Some (ChanProc q))) \<and>
      (\<forall>i. i \<noteq> c \<longrightarrow> pstate (procs t i) = pstate (procs s i) \<or>
           pstate (procs s i) = SLEEPING \<and> pstate (procs t i) = RUNNABLE)"
    using t unfolding exited_def myproc_def by (intro exI [of _ t] conjI) simp_all
qed


text \<open>
  C11: \<open>wait\<close>. With a zombie child, \<open>wait\<close> frees the first one in the table (its kernel stack
  and memory) and returns its pid, the slot being unused; without a zombie child it returns -1
  when there are no children or the caller was killed, changing no process; otherwise the
  caller is asleep on its own address and the CPU is free. The process-table invariant is kept.
\<close>

theorem wait_outcomes:
  assumes "kinv s" and "me < ncpu s" and "myproc me s = Some c"
  shows "(\<forall>p r1 r2. zombie_child s c = Some p \<longrightarrow> kfree_op K (kstack (procs s p)) (res s) = Inr r1 \<longrightarrow>
      freevm_op K (pgdir (procs s p)) r1 = Inr r2 \<longrightarrow>
      (\<exists>t. wait K me s = Inr (Waited (pid (procs s p)), t) \<and> kinv t \<and> res t = r2 \<and>
        procs t = (procs s)(p := reaped (procs s p)) \<and> pstate (procs t p) = UNUSED \<and> myproc me t = Some c)) \<and>
    (zombie_child s c = None \<longrightarrow> (\<forall>i<NPROC. parent (procs s i) \<noteq> Some c) \<or> killed (procs s c) \<noteq> 0 \<longrightarrow>
      (\<exists>t. wait K me s = Inr (Waited (-1), t) \<and> kinv t \<and> procs t = procs s \<and> myproc me t = Some c)) \<and>
    (zombie_child s c = None \<longrightarrow> (\<exists>i<NPROC. parent (procs s i) = Some c) \<longrightarrow> killed (procs s c) = 0 \<longrightarrow>
      (\<exists>saved t. wait K me s = Inr (Sleeps saved, t) \<and> kinv t \<and> pstate (procs t c) = SLEEPING \<and>
        pchan (procs t c) = Some (ChanProc c) \<and> myproc me t = None))"
proof -
  obtain qs where g: "sched_good {} s qs" "quiet s" using kinvD(1) [OF assms(1)] by (auto simp: good_def)
  obtain s1 where s1: "acquire_pt me s = Inr s1" "lframe s s1" "held me 1 s1"
    using acquire_pt_calm [of me 0 s] g(2) by (auto simp: quiet_calm [of s me])
  note L = lframe_simps [OF s1(2)]
  have g1: "sched_good {} s1 qs" using g(1) by (simp add: sched_good_lframe [OF s1(2)])
  have w: "wait K me s = wait_pass K me c s1" using assms(3) s1(1) by (simp add: wait_def)
  have z1: "zombie_child s1 c = zombie_child s c" by (simp add: zombie_child_def L)
  have me1: "me < ncpu s1" "myproc me s1 = Some c" using assms(2,3) by (simp_all add: L myproc_def)
  note K = wait_kinv [OF assms(1,2)]
  show ?thesis
  proof (intro conjI allI impI)
    fix p r1 r2 assume z: "zombie_child s c = Some p" and r: "kfree_op K (kstack (procs s p)) (res s) = Inr r1"
      "freevm_op K (pgdir (procs s p)) r1 = Inr r2"
    obtain t where t: "wait_pass K me c s1 = Inr (Waited (pid (procs s p)), t)" "lframe ((upd_proc p reaped s1)\<lparr>res := r2\<rparr>) t"
      using wait_pass_reaps [OF g1 s1(3), of c p K r1 r2] z r by (auto simp: z1 L)
    then show "\<exists>t. wait K me s = Inr (Waited (pid (procs s p)), t) \<and> kinv t \<and> res t = r2 \<and>
        procs t = (procs s)(p := reaped (procs s p)) \<and> pstate (procs t p) = UNUSED \<and> myproc me t = Some c"
      using w K assms(3) by (intro exI [of _ t]) (simp add: lframe_simps [OF t(2)] L reaped_def myproc_def)
  next
    assume z: "zombie_child s c = None" and n: "(\<forall>i<NPROC. parent (procs s i) \<noteq> Some c) \<or> killed (procs s c) \<noteq> 0"
    obtain t where t: "wait_pass K me c s1 = Inr (Waited (-1), t)" "lframe s1 t"
      using wait_pass_none [OF g1 s1(3), of c K] z n by (auto simp: z1 L)
    then show "\<exists>t. wait K me s = Inr (Waited (-1), t) \<and> kinv t \<and> procs t = procs s \<and> myproc me t = Some c"
      using w K assms(3) by (intro exI [of _ t]) (simp add: lframe_simps [OF t(2)] L myproc_def)
  next
    assume z: "zombie_child s c = None" and n: "\<exists>i<NPROC. parent (procs s i) = Some c" "killed (procs s c) = 0"
    obtain saved t where t: "wait_pass K me c s1 = Inr (Sleeps saved, t)" "chans t = (chans s1)(c := Some (ChanProc c))"
      "\<forall>i. pstate (procs t i) = (if i = c then SLEEPING else pstate (procs s1 i))"
      "\<forall>k. cproc (cpus t k) = (if k = me then None else cproc (cpus s1 k))"
      using wait_pass_sleeps [OF g1 s1(3) me1, of K] z n by (auto simp: z1 L)
    have "pchan (procs t c) = Some (ChanProc c)" using fun_cong [OF t(2), of c] by (simp add: chans_def)
    then show "\<exists>saved t. wait K me s = Inr (Sleeps saved, t) \<and> kinv t \<and> pstate (procs t c) = SLEEPING \<and>
        pchan (procs t c) = Some (ChanProc c) \<and> myproc me t = None"
      using w K t by (intro exI [of _ saved] exI [of _ t]) (simp add: myproc_def)
  qed
qed

text \<open>
  The process-family query. For a pid in use it reports the pid of the parent (or -1) and,
  in table order, the pids of the children and of the other children of its parent, each list
  cut at the caller's capacity; for any other pid it reports failure. No process is changed.
\<close>

lemma process_family_exact:
  assumes "kinv s"
  shows "\<exists>r t. collect_process_family me pd mc ms s = Inr (r, t) \<and> procs t = procs s \<and> kinv t \<and>
    (case r of
       None \<Rightarrow> \<forall>i<NPROC. pstate (procs s i) \<noteq> UNUSED \<longrightarrow> pid (procs s i) \<noteq> pd
     | Some (ppid, kids, sibs) \<Rightarrow> \<exists>i<NPROC. pid (procs s i) = pd \<and> pstate (procs s i) \<noteq> UNUSED \<and>
         length kids \<le> mc \<and> length sibs \<le> ms \<and>
         (parent (procs s i) = None \<longrightarrow> ppid = -1 \<and> sibs = []) \<and>
         (\<forall>q. parent (procs s i) = Some q \<longrightarrow> ppid = pid (procs s q)) \<and>
         set kids \<subseteq> pid ` procs s ` {j. j < NPROC \<and> pstate (procs s j) \<noteq> UNUSED \<and> parent (procs s j) = Some i} \<and>
         (card {j. j < NPROC \<and> pstate (procs s j) \<noteq> UNUSED \<and> parent (procs s j) = Some i} \<le> mc \<longrightarrow>
           set kids = pid ` procs s ` {j. j < NPROC \<and> pstate (procs s j) \<noteq> UNUSED \<and> parent (procs s j) = Some i}) \<and>
         pd \<notin> set sibs)"
proof -
  obtain qs where g: "sched_good {} s qs" "quiet s" using kinvD(1) [OF assms] by (auto simp: good_def)
  obtain s1 where s1: "acquire_pt me s = Inr s1" "lframe s s1" "held me 1 s1" "tickslock s1 = tickslock s"
    using acquire_pt_calm [of me 0 s] g(2) by (auto simp: quiet_calm [of s me])
  have g1: "sched_good {} s1 qs" using g(1) by (simp add: sched_good_lframe [OF s1(2)])
  obtain t where t: "release_pt me s1 = Inr t" "sched_good {} t qs" "quiet t" "procs t = procs s1" "glob t = glob s1"
    using release_good [OF g1 s1(3)] by blast
  have p1: "procs s1 = procs s" by (simp add: lframe_simps [OF s1(2)])
  have "kinv t"
    by (rule lstep_kinv [OF lstepI assms])
      (use t p1 img_eq [of t s] chans_eq [of t s] glob_lframe [OF s1(2,4)] in \<open>auto simp: good_def\<close>)
  show ?thesis
  proof (cases "first_index (\<lambda>i. pstate (procs s i) \<noteq> UNUSED \<and> pid (procs s i) = pd) NPROC")
    case None
    then have "collect_process_family me pd mc ms s = Inr (None, t)"
      using s1(1) t(1) p1 by (simp add: collect_process_family_def)
    moreover have "\<forall>i<NPROC. pstate (procs s i) \<noteq> UNUSED \<longrightarrow> pid (procs s i) \<noteq> pd"
      using None by (auto simp: first_index_None)
    ultimately show ?thesis using t(4) p1 \<open>kinv t\<close> by (intro exI [of _ None] exI [of _ t]) simp
  next
    case (Some i)
    have i: "i < NPROC" "pstate (procs s i) \<noteq> UNUSED" "pid (procs s i) = pd" using Some by (auto simp: first_index_Some)
    let ?used = "filter (\<lambda>i. pstate (procs s i) \<noteq> UNUSED) [0..<NPROC]"
    let ?kl = "filter (\<lambda>j. parent (procs s j) = Some i) ?used"
    let ?ks = "{j. j < NPROC \<and> pstate (procs s j) \<noteq> UNUSED \<and> parent (procs s j) = Some i}"
    have kl: "set ?kl = ?ks" "distinct ?kl" by auto
    have len: "length ?kl = card ?ks" using distinct_card [OF kl(2)] kl(1) by simp
    have sub: "set (take mc (map (\<lambda>j. pid (procs s j)) ?kl)) \<subseteq> pid ` procs s ` ?ks"
      using kl(1) by (auto dest!: in_set_takeD)
    have full: "set (take mc (map (\<lambda>j. pid (procs s j)) ?kl)) = pid ` procs s ` ?ks" if "card ?ks \<le> mc"
      using that len kl(1) by (simp add: image_image)
    let ?sl = "case parent (procs s i) of None \<Rightarrow> [] | Some q \<Rightarrow>
      map (\<lambda>j. pid (procs s j)) (filter (\<lambda>j. parent (procs s j) = Some q \<and> pid (procs s j) \<noteq> pid (procs s i)) ?used)"
    let ?pp = "case parent (procs s i) of None \<Rightarrow> - 1 | Some q \<Rightarrow> pid (procs s q)"
    have "collect_process_family me pd mc ms s =
        Inr (Some (?pp, take mc (map (\<lambda>j. pid (procs s j)) ?kl), take ms ?sl), t)"
      using s1(1) t(1) p1 Some by (simp add: collect_process_family_def Let_def split: option.splits)
    moreover have "pd \<notin> set (take ms ?sl)" using i(3) by (auto dest!: in_set_takeD split: option.splits)
    ultimately show ?thesis
      using t(4) p1 \<open>kinv t\<close> i sub full
      by (intro exI [of _ "Some (?pp, take mc (map (\<lambda>j. pid (procs s j)) ?kl), take ms ?sl)"] exI [of _ t])
        (simp only: prod.case option.case, intro conjI exI [of _ i], simp_all)
  qed
qed

text \<open>
  The arithmetic system call computes the difference of squares of its arguments in C's
  32-bit arithmetic, whatever intermediate overflow occurs.
\<close>

lemma simple_arithmetic_squares:
  "simple_arithmetic_syscall a b = wrap32 (a * a - b * b)"
proof -
  have m: "wrap32 (wrap32 x * wrap32 y) = wrap32 (x * y)" for x y
  proof -
    have w: "wrap32 z mod 2 ^ 32 = z mod 2 ^ 32" for z
      by (simp add: wrap32_def mod_diff_left_eq)
    have "(wrap32 x * wrap32 y) mod 2 ^ 32 = (x * y) mod 2 ^ 32" by (metis mod_mult_eq w)
    then show ?thesis unfolding wrap32_def by (metis mod_add_left_eq)
  qed
  show ?thesis unfolding simple_arithmetic_syscall_def m by (simp add: algebra_simps)
qed

section \<open>A concrete machine\<close>

text \<open>
  Resource operations that always succeed, and a machine of two CPUs: process 1 is \<open>init\<close>,
  asleep in \<open>wait\<close>; its child 0 runs on CPU 0; process 2, in a given state, is a child of 0.
\<close>

definition demo_kops :: "unit kops" where
  "demo_kops = \<lparr>kalloc_op = (\<lambda>_. (4096, ())), kfree_op = (\<lambda>_ _. Inr ()), setupkvm_op = (\<lambda>_. Inr (8192, ())),
     inituvm_op = (\<lambda>_ _ _. Inr ()), copyuvm_op = (\<lambda>_ _ _. Inr (12288, ())),
     allocuvm_op = (\<lambda>_ _ n _. Inr (n, ())), deallocuvm_op = (\<lambda>_ _ n _. Inr (n, ())),
     freevm_op = (\<lambda>_ _. Inr ()), filedup_op = (\<lambda>f _. Inr (f, ())), fileclose_op = (\<lambda>_ _. Inr ([], ())),
     idup_op = (\<lambda>d _. Inr (d, ())), iput_op = (\<lambda>_ _. Inr ([], ())), begin_op_op = (\<lambda>_. Inr ()),
     end_op_op = (\<lambda>_. Inr ([], ())), namei_op = (\<lambda>_ _. Inr (Some 1, [], ())),
     forkret_va = 100, trapret_va = 200, initcode = [0]\<rparr>"

lemma demo_kops_simps [simp]:
  "kalloc_op demo_kops r = (4096, ())" "kfree_op demo_kops a r = Inr ()" "setupkvm_op demo_kops r = Inr (8192, ())"
  "inituvm_op demo_kops d b r = Inr ()" "copyuvm_op demo_kops d n r = Inr (12288, ())" "freevm_op demo_kops d r = Inr ()"
  "idup_op demo_kops i r = Inr (i, ())" "iput_op demo_kops i r = Inr ([], ())" "begin_op_op demo_kops r = Inr ()"
  "end_op_op demo_kops r = Inr ([], ())" "namei_op demo_kops p r = Inr (Some 1, [], ())" "dup_same demo_kops"
  by (simp_all add: demo_kops_def dup_same_def)

definition demo_family :: "procstate \<Rightarrow> unit kst" where
  "demo_family x =
     (upd_proc 0 (\<lambda>q. q\<lparr>pstate := RUNNING, pid := 2, parent := Some 1, kstack := 4096, pgdir := 8192, cwd := Some 7\<rparr>)
     (upd_proc 1 (\<lambda>q. q\<lparr>pstate := SLEEPING, pid := 1, kstack := 4096, pgdir := 8192, pchan := Some (ChanProc 1)\<rparr>)
     (upd_proc 2 (\<lambda>q. q\<lparr>pstate := x, pid := 3, parent := Some 0, kstack := 4096, pgdir := 8192\<rparr>)
     (upd_cpu 0 (\<lambda>k. k\<lparr>cproc := Some 0\<rparr>) (boot_kst 2 ())))))\<lparr>initproc := Some 1, nextpid := 4\<rparr>"

lemma demo_family_simps [simp]:
  "procs (demo_family x) 0 = zero_proc\<lparr>pstate := RUNNING, pid := 2, parent := Some 1, kstack := 4096, pgdir := 8192, cwd := Some 7\<rparr>"
  "procs (demo_family x) (Suc 0) = zero_proc\<lparr>pstate := SLEEPING, pid := 1, kstack := 4096, pgdir := 8192, pchan := Some (ChanProc 1)\<rparr>"
  "procs (demo_family x) 2 = zero_proc\<lparr>pstate := x, pid := 3, parent := Some 0, kstack := 4096, pgdir := 8192\<rparr>"
  "2 < i \<Longrightarrow> procs (demo_family x) i = zero_proc" "ncpu (demo_family x) = 2"
  "cproc (cpus (demo_family x) k) = (if k = 0 then Some 0 else None)" "initproc (demo_family x) = Some 1"
  "runq (cpus (demo_family x) k) = None" "queue_count (cpus (demo_family x) k) = 0" "nextpid (demo_family x) = 4"
  "myproc k (demo_family x) = (if k = 0 then Some 0 else None)" "locked (ptable_lock (demo_family x)) = 0"
  "locked (tickslock (demo_family x)) = 0" "ncli (cpus (demo_family x) k) = 0"
  by (simp_all add: demo_family_def myproc_def)

lemma demo_cases: "i = 0 \<or> i = Suc 0 \<or> i = 2 \<or> (2::nat) < i" by linarith

lemma zero_proc_files [simp]: "ofile zero_proc fd = None" by (simp add: zero_proc_def)

lemma demo_family_proc:
  "procs (demo_family x) i = (if i = 0 then procs (demo_family x) 0 else if i = 1 then procs (demo_family x) 1 
     else if i = 2 then procs (demo_family x) 2 else zero_proc)"
  using demo_cases [of i] by auto

lemma demo_family_fields:
  "pstate (procs (demo_family x) i) = (if i = 0 then RUNNING else if i = 1 then SLEEPING else if i = 2 then x else UNUSED)"
  "parent (procs (demo_family x) i) = (if i = 0 then Some 1 else if i = 2 then Some 0 else None)"
  "pchan (procs (demo_family x) i) = (if i = 1 then Some (ChanProc 1) else None)"
  "ofile (procs (demo_family x) i) fd = None" "next_run (procs (demo_family x) i) = None"
  by (subst demo_family_proc, simp)+

lemma demo_family_kinv: assumes "x \<in> {SLEEPING, ZOMBIE}" shows "kinv (demo_family x)"
proof -
  note F = demo_family_fields [of x]
  have "nx (demo_family x) = (\<lambda>_. None)" by (auto simp: nx_def F)
  then have "queues (demo_family x) (\<lambda>_. [])" by (simp add: queues_def)
  moreover have "has_image (demo_family x) i" if "pstate (procs (demo_family x) i) \<in> live" for i
    using that demo_cases [of i] by (auto simp: has_image_def live_def)
  ultimately have "sched_good {} (demo_family x) (\<lambda>_. [])"
    using assms by (auto simp: sched_good_def sinv_def queued_def F NPROC_def split: if_splits)
  moreover have "quiet (demo_family x)" by (simp add: quiet_def cli_ok_def)
  moreover have "waits_ok (demo_family x)" using assms by (auto simp: waits_ok_def chans_def F NPROC_def)
  moreover have "tree_ok (demo_family x)" using assms by (auto simp: tree_ok_def F live_def NPROC_def)
  moreover have "files_ok (demo_family x)" by (simp add: files_ok_def F)
  ultimately show ?thesis by (auto simp: kinv_def good_def pinv_def)
qed

lemma demo_userinit: "\<exists>t. userinit demo_kops 0 (boot_kst 2 ()) = Inr t"
proof -
  let ?b = "boot_kst 2 ()"
  obtain qs where g: "sched_good {} ?b qs" "quiet ?b" using boot_good [of 2 "()"] by (auto simp: good_def)
  obtain s1 where s1: "allocproc demo_kops 0 ?b = Inr (Some 0, s1)" "quiet s1" "sched_good {} s1 qs"
    "lframe ((upd_proc 0 (new_proc demo_kops 4096 ?b) ?b)\<lparr>nextpid := wrap32 (nextpid ?b + 1), res := ()\<rparr>) s1"
    using allocproc_some [OF g _ boot_slot, where K = demo_kops and ks = 4096 and me = 0] by auto
  define s2 where "s2 = upd_proc 0 (\<lambda>q. q\<lparr>pgdir := 8192, psz := PGSIZE, tf := init_tf, pname := safestrcpy_name ''initcode'', cwd := Some 1\<rparr>)
    ((s1\<lparr>initproc := Some 0\<rparr>)\<lparr>res := ()\<rparr>)"
  have u: "userinit demo_kops 0 ?b = make_runnable 0 0 s2"
    by (simp add: userinit_def s1(1) on_res_def on_res0_def s2_def Let_def)
  have p: "procs s1 0 = new_proc demo_kops 4096 ?b zero_proc" by (simp add: lframe_simps [OF s1(4)])
  have "sched_good {} s2 qs"
    unfolding s2_def by (rule sched_good_upd_off) (use s1(3) p in \<open>auto simp: live_def\<close>)
  moreover have "quiet s2" using s1(2) by (simp add: s2_def)
  moreover have "has_image s2 0" "pstate (procs s2 0) = EMBRYO" by (simp_all add: s2_def has_image_def p)
  ultimately show ?thesis
    unfolding u using make_runnable_ok [of "{}" s2 qs 0 0] by (auto simp: NPROC_def)
qed


theorem pids_unique_witness:
  "\<exists>s. userinit demo_kops 0 (boot_kst 2 ()) = Inr s \<and> pids_ok s"
proof -
  obtain s where s: "userinit demo_kops 0 (boot_kst 2 ()) = Inr s" using demo_userinit by blast
  have "kreach demo_kops 0 s" by (rule kreach.boot [OF _ s]) simp
  from pids_unique [OF this] s show ?thesis by auto
qed

lemma demo_free_slot: "x \<noteq> UNUSED \<Longrightarrow> free_slot (demo_family x) = Some 3"
  by (auto simp: free_slot_def first_index_Some demo_family_fields NPROC_def)

theorem fork_creates_child_witness:
  "\<exists>t. fork demo_kops 0 (demo_family ZOMBIE) = Inr (4, t) \<and> parent (procs t 3) = Some 0 \<and> cwd (procs t 3) = Some 7"
proof -
  have "open_files (procs (demo_family ZOMBIE) 0) = []" by (auto simp: open_files_def demo_family_fields List.map_filter_def simp del: demo_family_simps(1))
  then have "dup_files demo_kops (open_files (procs (demo_family ZOMBIE) 0)) () = Inr ()" by simp
  from fork_creates_child [of "demo_family ZOMBIE" 0 0 3 demo_kops 4096 "()" 12288 "()" "()" 7 7 "()", OF _ _ _ _ _ _ _ _ _ this]
  show ?thesis by (auto simp: demo_family_kinv demo_free_slot Let_def)
qed

theorem exit_effects_witness:
  "\<exists>t. exit demo_kops 0 (demo_family ZOMBIE) = Inr t \<and> pstate (procs t 0) = ZOMBIE \<and> parent (procs t 2) = Some 1"
proof -
  let ?s = "demo_family ZOMBIE"
  have "foldR (exit_file demo_kops 0 0) fds ?s = Inr ?s" for fds
    by (induction fds) (simp_all add: exit_file_def demo_family_fields del: demo_family_simps(1))
  then have "exit_resources demo_kops 0 0 ?s = Inr (upd_proc 0 (\<lambda>q. q\<lparr>cwd := None\<rparr>) (?s\<lparr>res := ()\<rparr>))"
    by (simp add: exit_resources_def on_res0_def on_res_wake_def)
  from exit_effects [OF _ _ _ this] show ?thesis
    by (auto simp: demo_family_kinv demo_family_fields NPROC_def)
qed

theorem wait_outcomes_witness:
  "(\<exists>t. wait demo_kops 0 (demo_family ZOMBIE) = Inr (Waited 3, t) \<and> pstate (procs t 2) = UNUSED) \<and>
   (\<exists>saved t. wait demo_kops 0 (demo_family SLEEPING) = Inr (Sleeps saved, t))"
proof -
  have "zombie_child (demo_family ZOMBIE) 0 = Some 2" "zombie_child (demo_family SLEEPING) 0 = None"
    by (auto simp: zombie_child_def first_index_Some first_index_None demo_family_fields NPROC_def)
  moreover have "\<exists>i<NPROC. parent (procs (demo_family SLEEPING) i) = Some 0"
    by (intro exI [of _ 2]) (simp add: NPROC_def)
  moreover have "killed zero_proc = 0" by (simp add: zero_proc_def)
  ultimately show ?thesis
    using wait_outcomes [of "demo_family ZOMBIE" 0 0 demo_kops] wait_outcomes [of "demo_family SLEEPING" 0 0 demo_kops]
    by (auto simp: demo_family_kinv)
qed

end
