(* ===== verification/Locks.thy ===== *)
theory Locks
  imports Prelude
begin

text \<open>
  The locks a process may hold across a sleep: sleep locks (\<open>sleeplock.c\<close>), reader-writer locks (\<open>rwlock.c\<close>) and
  priority locks (the end of \<open>spinlock.c\<close>). The first two are instances of one interface, a lock word with a
  test that may put the caller to sleep and a release that may wake the sleepers; the interface gives
  exclusion and the absence of lost wakeups for every interleaving. The priority lock hands over ownership
  without a second test, which is right as long as nothing else wakes a waiter.
\<close>

section \<open>Sleep locks\<close>

record sleeplock =
  sl_locked :: bool
  sl_pid :: int

definition initsleeplock :: sleeplock where
  "initsleeplock = \<lparr>sl_locked = False, sl_pid = 0\<rparr>"

text \<open>One pass of the loop of \<open>acquiresleep\<close>: \<open>None\<close> when the caller goes to sleep.\<close>

definition acquiresleep_try :: "int \<Rightarrow> sleeplock \<Rightarrow> sleeplock option" where
  "acquiresleep_try pid lk = (if sl_locked lk then None else Some (lk\<lparr>sl_locked := True, sl_pid := pid\<rparr>))"

definition acquiresleep :: "int \<Rightarrow> sleeplock \<Rightarrow> sleeplock res" where
  "acquiresleep pid lk = of_opt Blocks (acquiresleep_try pid lk)"

definition releasesleep :: "int \<Rightarrow> sleeplock \<Rightarrow> sleeplock res" where
  "releasesleep pid lk =
     (if \<not> sl_locked lk then Inl (Panic ''releasesleep: lock not held'')
      else if sl_pid lk \<noteq> pid then Inl (Panic ''releasesleep: not owner'')
      else Inr (lk\<lparr>sl_locked := False, sl_pid := 0\<rparr>))"

definition holdingsleep :: "int \<Rightarrow> sleeplock \<Rightarrow> bool" where
  "holdingsleep pid lk \<longleftrightarrow> sl_locked lk \<and> sl_pid lk = pid"

lemma acquiresleep_free [simp]: "\<not> sl_locked lk \<Longrightarrow> acquiresleep pid lk = Inr (lk\<lparr>sl_locked := True, sl_pid := pid\<rparr>)"
  by (simp add: acquiresleep_def acquiresleep_try_def)

lemma releasesleep_held [simp]: "holdingsleep pid lk \<Longrightarrow> releasesleep pid lk = Inr (lk\<lparr>sl_locked := False, sl_pid := 0\<rparr>)"
  by (simp add: releasesleep_def holdingsleep_def)

section \<open>Reader-writer locks\<close>

record rwlock =
  read_count :: int
  writer :: bool
  writer_pid :: int

definition rwlock_init :: rwlock where
  "rwlock_init = \<lparr>read_count = 0, writer = False, writer_pid = 0\<rparr>"

definition rwlock_acquire_read :: "rwlock \<Rightarrow> rwlock option" where
  "rwlock_acquire_read rw = (if writer rw then None else Some (rw\<lparr>read_count := read_count rw + 1\<rparr>))"

definition rwlock_release_read :: "rwlock \<Rightarrow> (rwlock \<times> bool) res" where
  "rwlock_release_read rw =
     (if read_count rw < 1 then Inl (Panic ''rwlock_release_read: no readers'')
      else let rw = rw\<lparr>read_count := read_count rw - 1\<rparr> in Inr (rw, read_count rw = 0))"

definition rwlock_acquire_write :: "int \<Rightarrow> rwlock \<Rightarrow> rwlock option" where
  "rwlock_acquire_write pid rw =
     (if writer rw \<or> 0 < read_count rw then None else Some (rw\<lparr>writer := True, writer_pid := pid\<rparr>))"

definition rwlock_release_write :: "int \<Rightarrow> rwlock \<Rightarrow> (rwlock \<times> bool) res" where
  "rwlock_release_write pid rw =
     (if \<not> writer rw then Inl (Panic ''rwlock_release_write: no writer'')
      else if writer_pid rw \<noteq> pid then Inl (Panic ''rwlock_release_write: not owner'')
      else Inr (rw\<lparr>writer := False, writer_pid := 0\<rparr>, True))"

section \<open>Processes contending for a lock\<close>

text \<open>
  A process is outside, about to test the lock word (having called the operation or having been woken), asleep on the
  lock's channel, or inside. Each piece of an operation between two points where the inner
  spin lock is free is one step, since the pieces hold it. \<open>att p r l\<close> is a pass of the
  acquiring loop of process \<open>p\<close> in role \<open>r\<close>; \<open>rel p r l\<close> a release, with whether it calls \<open>wakeup\<close>.
  A sleeper may also be made runnable by \<open>kill\<close> or by a wakeup on an equal channel.
\<close>

datatype 'r place = Outside | Testing 'r | Asleep 'r | Inside 'r

type_synonym ('l, 'r) lsys = "'l \<times> (int \<Rightarrow> 'r place)"

definition wake_all :: "(int \<Rightarrow> 'r place) \<Rightarrow> int \<Rightarrow> 'r place" where
  "wake_all w q = (case w q of Asleep r \<Rightarrow> Testing r | x \<Rightarrow> x)"

inductive lstep :: "(int \<Rightarrow> 'r \<Rightarrow> 'l \<Rightarrow> 'l option) \<Rightarrow> (int \<Rightarrow> 'r \<Rightarrow> 'l \<Rightarrow> ('l \<times> bool) res) \<Rightarrow> ('l, 'r) lsys \<Rightarrow> ('l, 'r) lsys \<Rightarrow> bool"
  for att rel where
  call: "w p = Outside \<Longrightarrow> lstep att rel (l, w) (l, w(p := Testing r))"
| enter: "w p = Testing r \<Longrightarrow> att p r l = Some l' \<Longrightarrow> lstep att rel (l, w) (l', w(p := Inside r))"
| block: "w p = Testing r \<Longrightarrow> att p r l = None \<Longrightarrow> lstep att rel (l, w) (l, w(p := Asleep r))"
| leave: "w p = Inside r \<Longrightarrow> rel p r l = Inr (l', wk) \<Longrightarrow>
    lstep att rel (l, w) (l', (if wk then wake_all else id) (w(p := Outside)))"
| stray: "w p = Asleep r \<Longrightarrow> lstep att rel (l, w) (l, w(p := Testing r))"

definition lreach :: "(int \<Rightarrow> 'r \<Rightarrow> 'l \<Rightarrow> 'l option) \<Rightarrow> (int \<Rightarrow> 'r \<Rightarrow> 'l \<Rightarrow> ('l \<times> bool) res) \<Rightarrow> 'l \<Rightarrow> ('l, 'r) lsys \<Rightarrow> bool" where
  "lreach att rel l0 = (lstep att rel)\<^sup>*\<^sup>* (l0, \<lambda>_. Outside)"

definition holders :: "(int \<Rightarrow> 'r place) \<Rightarrow> (int \<times> 'r) set" where
  "holders w = {(p, r). w p = Inside r}"

lemma holders_wake [simp]: "holders (wake_all w) = holders w"
  by (auto simp: holders_def wake_all_def split: place.splits)

lemma wake_all_awake [simp]: "wake_all w p \<noteq> Asleep r" "Asleep r \<noteq> wake_all w p"
  by (auto simp: wake_all_def split: place.splits)

text \<open>
  What the lock word promises: \<open>agrees l H\<close> says that it describes the holders \<open>H\<close>. The release of a
  holder succeeds, and wakes the sleepers unless nobody who could not enter before can enter now.
\<close>

locale sleeping_lock =
  fixes att :: "int \<Rightarrow> 'r \<Rightarrow> 'l \<Rightarrow> 'l option" and rel :: "int \<Rightarrow> 'r \<Rightarrow> 'l \<Rightarrow> ('l \<times> bool) res"
    and l0 :: 'l and agrees :: "'l \<Rightarrow> (int \<times> 'r) set \<Rightarrow> bool"
  assumes start: "agrees l0 {}"
    and enters: "agrees l H \<Longrightarrow> finite H \<Longrightarrow> (\<And>r. (p, r) \<notin> H) \<Longrightarrow> att p r l = Some l' \<Longrightarrow> agrees l' (insert (p, r) H)"
    and leaves: "agrees l H \<Longrightarrow> finite H \<Longrightarrow> (p, r) \<in> H \<Longrightarrow> \<exists>l' wk. rel p r l = Inr (l', wk) \<and> agrees l' (H - {(p, r)}) \<and>
        (\<not> wk \<longrightarrow> (\<forall>q s. att q s l = None \<longrightarrow> att q s l' = None))"
    and closes: "att p r l = Some l' \<Longrightarrow> att q s l = None \<Longrightarrow> att q s l' = None"
begin

definition good :: "('l, 'r) lsys \<Rightarrow> bool" where
  "good x \<longleftrightarrow> agrees (fst x) (holders (snd x)) \<and> finite (holders (snd x)) \<and>
     (\<forall>p r. snd x p = Asleep r \<longrightarrow> att p r (fst x) = None)"

lemma good_step: "lstep att rel x y \<Longrightarrow> good x \<Longrightarrow> good y"
proof (induction rule: lstep.induct)
  case (call w p l r)
  have "holders (w(p := Testing r)) = holders w" using call(1) by (auto simp: holders_def split: if_splits)
  then show ?case using call by (simp add: good_def)
next
  case (enter w p r l l')
  have h: "holders (w(p := Inside r)) = insert (p, r) (holders w)" using enter(1) by (auto simp: holders_def split: if_splits)
  have "\<And>r. (p, r) \<notin> holders w" using enter(1) by (simp add: holders_def)
  then have "agrees l' (insert (p, r) (holders w))" using enters [OF _ _ _ enter(2)] enter(3) by (simp add: good_def)
  then show ?case using enter closes [OF enter(2)] by (simp add: good_def h)
next
  case (block w p r l)
  have "holders (w(p := Asleep r)) = holders w" using block(1) by (auto simp: holders_def split: if_splits)
  then show ?case using block by (simp add: good_def)
next
  case (leave w p r l l' wk)
  have h: "holders (w(p := Outside)) = holders w - {(p, r)}" using leave(1) by (auto simp: holders_def split: if_splits)
  have "(p, r) \<in> holders w" using leave(1) by (simp add: holders_def)
  then have "agrees l' (holders w - {(p, r)})" "\<not> wk \<Longrightarrow> att q s l = None \<Longrightarrow> att q s l' = None" for q s
    using leaves [of l "holders w" p r] leave(2,3) by (auto simp: good_def)
  then show ?case using leave(3) by (cases wk) (simp_all add: good_def h)
next
  case (stray w p r l)
  have "holders (w(p := Testing r)) = holders w" using stray(1) by (auto simp: holders_def split: if_splits)
  then show ?case using stray by (simp add: good_def)
qed

lemma reach_good: "lreach att rel l0 x \<Longrightarrow> good x"
proof -
  assume "lreach att rel l0 x"
  then have "(lstep att rel)\<^sup>*\<^sup>* (l0, \<lambda>_. Outside) x" by (simp add: lreach_def)
  then show ?thesis
  proof (induction rule: rtranclp_induct)
    case base
    show ?case using start by (simp add: good_def holders_def)
  next
    case (step y z)
    then show ?case using good_step by blast
  qed
qed

lemma release_succeeds: "lreach att rel l0 (l, w) \<Longrightarrow> w p = Inside r \<Longrightarrow> \<exists>y. rel p r l = Inr y"
proof -
  assume h: "lreach att rel l0 (l, w)" "w p = Inside r"
  have "(p, r) \<in> holders w" using h(2) by (simp add: holders_def)
  then show ?thesis using leaves [of l "holders w" p r] reach_good [OF h(1)] by (auto simp: good_def)
qed

end

section \<open>The two locks keep the contract\<close>

definition sl_try :: "int \<Rightarrow> unit \<Rightarrow> sleeplock \<Rightarrow> sleeplock option" where
  "sl_try p r l = acquiresleep_try p l"

definition sl_rel :: "int \<Rightarrow> unit \<Rightarrow> sleeplock \<Rightarrow> (sleeplock \<times> bool) res" where
  "sl_rel p r l = bindR (releasesleep p l) (\<lambda>l'. Inr (l', True))"

definition sl_agrees :: "sleeplock \<Rightarrow> (int \<times> unit) set \<Rightarrow> bool" where
  "sl_agrees l H \<longleftrightarrow> (if sl_locked l then H = {(sl_pid l, ())} else H = {})"

interpretation sl: sleeping_lock sl_try sl_rel initsleeplock sl_agrees
proof unfold_locales
  show "sl_agrees initsleeplock {}" by (simp add: sl_agrees_def initsleeplock_def)
  show "sl_agrees l' (insert (p, r) H)" if "sl_agrees l H" "sl_try p r l = Some l'" for l H p r l'
    using that by (auto simp: sl_agrees_def sl_try_def acquiresleep_try_def split: if_splits)
  show "\<exists>l' wk. sl_rel p r l = Inr (l', wk) \<and> sl_agrees l' (H - {(p, r)}) \<and> (\<not> wk \<longrightarrow> (\<forall>q s. sl_try q s l = None \<longrightarrow> sl_try q s l' = None))"
    if "sl_agrees l H" "(p, r) \<in> H" for l H p r
    using that by (auto simp: sl_agrees_def sl_rel_def releasesleep_def split: if_splits)
  show "sl_try q s l' = None" if "sl_try p r l = Some l'" "sl_try q s l = None" for p r l l' q s
    using that by (auto simp: sl_try_def acquiresleep_try_def split: if_splits)
qed

datatype rw_role = Reader | Writer

definition rw_try :: "int \<Rightarrow> rw_role \<Rightarrow> rwlock \<Rightarrow> rwlock option" where
  "rw_try p r l = (case r of Reader \<Rightarrow> rwlock_acquire_read l | Writer \<Rightarrow> rwlock_acquire_write p l)"

definition rw_rel :: "int \<Rightarrow> rw_role \<Rightarrow> rwlock \<Rightarrow> (rwlock \<times> bool) res" where
  "rw_rel p r l = (case r of Reader \<Rightarrow> rwlock_release_read l | Writer \<Rightarrow> rwlock_release_write p l)"

definition rw_agrees :: "rwlock \<Rightarrow> (int \<times> rw_role) set \<Rightarrow> bool" where
  "rw_agrees l H \<longleftrightarrow> (if writer l then H = {(writer_pid l, Writer)} \<and> read_count l = 0
     else (\<forall>(p, r)\<in>H. r = Reader) \<and> read_count l = int (card H))"

lemma rw_leaves:
  assumes a: "rw_agrees l H" and f: "finite H" and p: "(p, r) \<in> H"
  shows "\<exists>l' wk. rw_rel p r l = Inr (l', wk) \<and> rw_agrees l' (H - {(p, r)}) \<and>
    (\<not> wk \<longrightarrow> (\<forall>q s. rw_try q s l = None \<longrightarrow> rw_try q s l' = None))"
proof (cases "writer l")
  case True
  then show ?thesis using a p by (auto simp: rw_agrees_def rw_rel_def rwlock_release_write_def)
next
  case False
  then have r: "r = Reader" "read_count l = int (card H)" "\<forall>(p, r)\<in>H. r = Reader" using a p by (auto simp: rw_agrees_def)
  have "0 < card H" using p f by (auto simp: card_gt_0_iff)
  moreover have "card (H - {(p, r)}) = card H - 1" using p f by simp
  ultimately have "rw_agrees (l\<lparr>read_count := read_count l - 1\<rparr>) (H - {(p, r)})" using r False by (auto simp: rw_agrees_def)
  then show ?thesis using r False \<open>0 < card H\<close>
    by (auto simp: rw_rel_def rwlock_release_read_def rw_try_def rwlock_acquire_read_def rwlock_acquire_write_def Let_def split: rw_role.splits)
qed

interpretation rw: sleeping_lock rw_try rw_rel rwlock_init rw_agrees
proof unfold_locales
  show "rw_agrees rwlock_init {}" by (simp add: rw_agrees_def rwlock_init_def)
  show "rw_agrees l' (insert (p, r) H)" if "rw_agrees l H" "finite H" "\<And>r. (p, r) \<notin> H" "rw_try p r l = Some l'" for l H p r l'
    using that by (cases r) (auto simp: rw_agrees_def rw_try_def rwlock_acquire_read_def rwlock_acquire_write_def split: if_splits)
  show "\<exists>l' wk. rw_rel p r l = Inr (l', wk) \<and> rw_agrees l' (H - {(p, r)}) \<and> (\<not> wk \<longrightarrow> (\<forall>q s. rw_try q s l = None \<longrightarrow> rw_try q s l' = None))"
    if "rw_agrees l H" "finite H" "(p, r) \<in> H" for l H p r by (rule rw_leaves [OF that])
  show "rw_try q s l' = None" if "rw_try p r l = Some l'" "rw_try q s l = None" for p r l l' q s
    using that by (auto simp: rw_try_def rwlock_acquire_read_def rwlock_acquire_write_def split: if_splits rw_role.splits)
qed

section \<open>Priority locks\<close>

record plock_node =
  node_proc :: int
  node_priority :: int

record plock =
  pl_locked :: bool
  pl_head :: "plock_node list"
  pl_owner :: "int option"

definition plock_init :: plock where
  "plock_init = \<lparr>pl_locked = False, pl_head = [], pl_owner = None\<rparr>"

text \<open>
  The first part of \<open>plock_acquire\<close>, up to its return or its \<open>sleep\<close>: the flag says whether the caller has
  gone to sleep. What follows the \<open>sleep\<close> only releases the inner lock. \<open>mem_ok\<close> is whether \<open>kalloc\<close> had a page.
\<close>

definition plock_acquire :: "bool \<Rightarrow> int \<Rightarrow> int \<Rightarrow> plock \<Rightarrow> (plock \<times> bool) res" where
  "plock_acquire mem_ok p priority pl =
     (if \<not> pl_locked pl then Inr (pl\<lparr>pl_locked := True, pl_owner := Some p\<rparr>, False)
      else if \<not> mem_ok then Inl (Panic ''plock_acquire: kalloc failed'')
      else Inr (pl\<lparr>pl_head := \<lparr>node_proc = p, node_priority = priority\<rparr> # pl_head pl\<rparr>, True))"

text \<open>The loop of \<open>plock_release\<close>: position and node of the best waiter seen so far.\<close>

fun plock_highest :: "nat \<Rightarrow> plock_node list \<Rightarrow> nat \<times> plock_node \<Rightarrow> nat \<times> plock_node" where
  "plock_highest i [] best = best"
| "plock_highest i (n # ns) best =
     plock_highest (Suc i) ns (if node_priority n > node_priority (snd best) then (i, n) else best)"

text \<open>The process that is woken, if any, is the second component.\<close>

definition plock_release :: "int \<Rightarrow> plock \<Rightarrow> (plock \<times> int option) res" where
  "plock_release p pl =
     (if pl_owner pl \<noteq> Some p then Inl (Panic ''plock_release: not owner'')
      else case pl_head pl of
        [] \<Rightarrow> Inr (pl\<lparr>pl_locked := False, pl_owner := None\<rparr>, None)
      | h # t \<Rightarrow>
          let (i, n) = plock_highest 0 (h # t) (0, h) in
          Inr (pl\<lparr>pl_head := take i (h # t) @ drop (Suc i) (h # t), pl_owner := Some (node_proc n)\<rparr>, Some (node_proc n)))"

lemma plock_highest_inv:
  assumes "xs = ys @ ns" "length ys = i" "b < i \<or> i = 0 \<and> b = 0 \<and> ns \<noteq> []" "xs ! b = n"
    and "\<forall>j<i. node_priority (xs ! j) \<le> node_priority n" "\<forall>j<b. node_priority (xs ! j) < node_priority n"
  shows "\<exists>k<length xs. plock_highest i ns (b, n) = (k, xs ! k) \<and>
    (\<forall>j<length xs. node_priority (xs ! j) \<le> node_priority (xs ! k)) \<and> (\<forall>j<k. node_priority (xs ! j) < node_priority (xs ! k))"
  using assms
proof (induction ns arbitrary: i b n ys)
  case Nil
  then show ?case by (intro exI [of _ b]) auto
next
  case (Cons m ns)
  have m: "xs ! i = m" "i < length xs" using Cons.prems(1,2) by (auto simp: nth_append)
  show ?case
  proof (cases "node_priority m > node_priority n")
    case True
    have "\<exists>k<length xs. plock_highest (Suc i) ns (i, m) = (k, xs ! k) \<and>
      (\<forall>j<length xs. node_priority (xs ! j) \<le> node_priority (xs ! k)) \<and> (\<forall>j<k. node_priority (xs ! j) < node_priority (xs ! k))"
    proof (rule Cons.IH [of "ys @ [m]"])
      show "\<forall>j<Suc i. node_priority (xs ! j) \<le> node_priority m" "\<forall>j<i. node_priority (xs ! j) < node_priority m"
        using Cons.prems(5) True m(1) by (auto simp: less_Suc_eq intro: le_less_trans less_imp_le)
    qed (use Cons.prems m in auto)
    then show ?thesis using True by simp
  next
    case False
    have "\<exists>k<length xs. plock_highest (Suc i) ns (b, n) = (k, xs ! k) \<and>
      (\<forall>j<length xs. node_priority (xs ! j) \<le> node_priority (xs ! k)) \<and> (\<forall>j<k. node_priority (xs ! j) < node_priority (xs ! k))"
    proof (rule Cons.IH [of "ys @ [m]"])
      show "\<forall>j<Suc i. node_priority (xs ! j) \<le> node_priority n"
        using Cons.prems(5) False m(1) by (auto simp: less_Suc_eq)
    qed (use Cons.prems in auto)
    then show ?thesis using False by simp
  qed
qed

lemma plock_highest_max:
  assumes "xs \<noteq> []"
  obtains k where "k < length xs" "plock_highest 0 xs (0, hd xs) = (k, xs ! k)"
    "\<forall>j<length xs. node_priority (xs ! j) \<le> node_priority (xs ! k)" "\<forall>j<k. node_priority (xs ! j) < node_priority (xs ! k)"
  using plock_highest_inv [of xs "[]" xs 0 0 "hd xs"] assms by (auto simp: hd_conv_nth)

section \<open>Processes contending for a priority lock\<close>

datatype pplace = POut | PAsleep | PIn

type_synonym psys = "plock \<times> (int \<Rightarrow> pplace)"

inductive pstep :: "psys \<Rightarrow> psys \<Rightarrow> bool" where
  lock: "w p = POut \<Longrightarrow> plock_acquire True p priority l = Inr (l', slept) \<Longrightarrow>
    pstep (l, w) (l', w(p := if slept then PAsleep else PIn))"
| unlock: "w p = PIn \<Longrightarrow> plock_release p l = Inr (l', woken) \<Longrightarrow>
    pstep (l, w) (l', case woken of None \<Rightarrow> w(p := POut) | Some q \<Rightarrow> w(p := POut, q := PIn))"

text \<open>The channel of the sleep is the process itself, on which \<open>exit\<close> of a child also wakes its parent.\<close>

inductive pstep_any :: "psys \<Rightarrow> psys \<Rightarrow> bool" where
  own: "pstep x y \<Longrightarrow> pstep_any x y"
| child_exit: "w p = PAsleep \<Longrightarrow> pstep_any (l, w) (l, w(p := PIn))"

definition pl_good :: "psys \<Rightarrow> bool" where
  "pl_good x \<longleftrightarrow> (let l = fst x; w = snd x in
     distinct (List.map node_proc (pl_head l)) \<and> {p. w p = PAsleep} = set (List.map node_proc (pl_head l)) \<and>
     (if pl_locked l then \<exists>p. pl_owner l = Some p \<and> {q. w q = PIn} = {p}
      else pl_owner l = None \<and> {q. w q = PIn} = {} \<and> pl_head l = []))"

lemma pl_good_lock:
  assumes "pl_good (l, w)" "w p = POut" "plock_acquire True p priority l = Inr (l', slept)"
  shows "pl_good (l', w(p := if slept then PAsleep else PIn))"
proof (cases "pl_locked l")
  case True
  then have l': "l' = l\<lparr>pl_head := \<lparr>node_proc = p, node_priority = priority\<rparr> # pl_head l\<rparr>" "slept"
    using assms(3) by (auto simp: plock_acquire_def)
  have a: "{q. w q = PAsleep} = set (List.map node_proc (pl_head l))" "distinct (List.map node_proc (pl_head l))"
    "\<exists>p. pl_owner l = Some p \<and> {q. w q = PIn} = {p}" using assms(1) True by (simp_all add: pl_good_def Let_def)
  have "p \<notin> {q. w q = PAsleep}" using assms(2) by simp
  then have "p \<notin> set (List.map node_proc (pl_head l))" unfolding a(1) .
  moreover have "{q. (w(p := PAsleep)) q = PAsleep} = insert p {q. w q = PAsleep}" by auto
  moreover have "{q. (w(p := PAsleep)) q = PIn} = {q. w q = PIn}" using assms(2) by auto
  ultimately show ?thesis unfolding l' pl_good_def Let_def fst_conv snd_conv using a True l'(2) by simp
next
  case False
  then have l': "l' = l\<lparr>pl_locked := True, pl_owner := Some p\<rparr>" "\<not> slept" using assms(3) by (auto simp: plock_acquire_def)
  have a: "{q. w q = PAsleep} = {}" "{q. w q = PIn} = {}" "pl_head l = []" using assms(1) False by (auto simp: pl_good_def Let_def)
  have "{q. (w(p := PIn)) q = PAsleep} = {}" "{q. (w(p := PIn)) q = PIn} = {p}" using a by (auto split: if_splits)
  then show ?thesis unfolding l' pl_good_def Let_def fst_conv snd_conv using a l'(2) by simp
qed

lemma remove_nth: "k < length xs \<Longrightarrow> distinct (List.map f xs) \<Longrightarrow>
  distinct (List.map f (take k xs @ drop (Suc k) xs)) \<and> set (List.map f (take k xs @ drop (Suc k) xs)) = set (List.map f xs) - {f (xs ! k)}"
proof -
  assume h: "k < length xs" "distinct (List.map f xs)"
  then have "xs = take k xs @ xs ! k # drop (Suc k) xs" by (simp add: id_take_nth_drop)
  then obtain as bs where s: "xs = as @ xs ! k # bs" "as = take k xs" "bs = drop (Suc k) xs" by blast
  have "distinct (List.map f (as @ xs ! k # bs))" using h(2) s(1) by simp
  then have "distinct (List.map f (as @ bs)) \<and> set (List.map f (as @ bs)) = set (List.map f (as @ xs ! k # bs)) - {f (xs ! k)}"
    by auto
  then show ?thesis using s(1) unfolding s(2,3) by metis
qed

lemma pl_good_unlock:
  assumes "pl_good (l, w)" "w p = PIn" "plock_release p l = Inr (l', woken)"
  shows "pl_good (l', case woken of None \<Rightarrow> w(p := POut) | Some q \<Rightarrow> w(p := POut, q := PIn))"
proof -
  have lk: "pl_locked l" using assms(1,2) by (auto simp: pl_good_def Let_def split: if_splits)
  then have a: "{q. w q = PAsleep} = set (List.map node_proc (pl_head l))" "distinct (List.map node_proc (pl_head l))"
    and o: "\<exists>p. pl_owner l = Some p \<and> {q. w q = PIn} = {p}" using assms(1) by (simp_all add: pl_good_def Let_def)
  have "p \<in> {q. w q = PIn}" using assms(2) by simp
  then have b: "{q. w q = PIn} = {p}" "pl_owner l = Some p" using o by (metis singletonD)+
  show ?thesis
  proof (cases "pl_head l = []")
    case True
    then have "l' = l\<lparr>pl_locked := False, pl_owner := None\<rparr>" "woken = None" using assms(3) b(2) by (simp_all add: plock_release_def)
    moreover have "{q. (w(p := POut)) q = PIn} = {}" "{q. (w(p := POut)) q = PAsleep} = {}" using a(1) b(1) True by (auto split: if_splits)
    ultimately show ?thesis using True by (simp add: pl_good_def Let_def)
  next
    case False
    obtain k where k: "k < length (pl_head l)" "plock_highest 0 (pl_head l) (0, hd (pl_head l)) = (k, pl_head l ! k)"
      using plock_highest_max [OF False] by metis
    let ?q = "node_proc (pl_head l ! k)" and ?ns = "take k (pl_head l) @ drop (Suc k) (pl_head l)"
    have l': "l' = l\<lparr>pl_head := ?ns, pl_owner := Some ?q\<rparr>" "woken = Some ?q"
      using assms(3) b(2) k(2) False by (auto simp: plock_release_def split: list.splits)
    have q: "w ?q = PAsleep" using a(1) k(1) by auto
    have "{r. (w(p := POut, ?q := PIn)) r = PIn} = {?q}" "{r. (w(p := POut, ?q := PIn)) r = PAsleep} = {r. w r = PAsleep} - {?q}"
      using b(1) assms(2) by (auto split: if_splits)
    then show ?thesis unfolding l' option.case pl_good_def Let_def fst_conv snd_conv using remove_nth [OF k(1) a(2)] a(1) lk by simp
  qed
qed

lemma pl_good_reach: "pstep\<^sup>*\<^sup>* (plock_init, \<lambda>_. POut) x \<Longrightarrow> pl_good x"
proof (induction rule: rtranclp_induct)
  case base
  show ?case by (simp add: pl_good_def plock_init_def)
next
  case (step y z)
  from step.hyps(2) step.IH show ?case
  proof (cases rule: pstep.cases)
    case (lock w p priority l l' slept)
    then show ?thesis using pl_good_lock [of l w p priority l' slept] step.IH by simp
  next
    case (unlock w p l l' woken)
    then show ?thesis using pl_good_unlock [of l w p l' woken] step.IH by simp
  qed
qed

section \<open>Properties\<close>

text \<open>
  C24: Whatever the interleaving of processes on a sleep lock, with stray wakeups: at most one is
  inside, \<open>holdingsleep\<close> is true exactly for it, nobody sleeps while the lock is free (no wakeup is
  lost), and \<open>releasesleep\<close> by the process inside does not panic.
\<close>

theorem sleeplock_safe:
  assumes "lreach sl_try sl_rel initsleeplock (l, w)"
  shows "(\<forall>p q. w p = Inside () \<and> w q = Inside () \<longrightarrow> p = q) \<and> (\<forall>p. holdingsleep p l = (w p = Inside ())) \<and>
    (\<forall>p. w p = Asleep () \<longrightarrow> sl_locked l) \<and> (\<forall>p. w p = Inside () \<longrightarrow> (\<exists>y. releasesleep p l = Inr y))"
proof -
  have g: "sl_agrees l (holders w)" "\<And>p. w p = Asleep () \<Longrightarrow> sl_try p () l = None" using sl.reach_good [OF assms] by (simp_all add: sl.good_def)
  have h: "w p = Inside () \<longleftrightarrow> sl_locked l \<and> sl_pid l = p" for p
  proof -
    have "w p = Inside () \<longleftrightarrow> (p, ()) \<in> holders w" by (simp add: holders_def)
    also have "\<dots> \<longleftrightarrow> sl_locked l \<and> sl_pid l = p" using g(1) by (auto simp: sl_agrees_def split: if_splits)
    finally show ?thesis .
  qed
  moreover have "sl_locked l" if "w p = Asleep ()" for p
    using g(2) [OF that] by (simp add: sl_try_def acquiresleep_try_def split: if_splits)
  ultimately show ?thesis by (auto simp: holdingsleep_def releasesleep_def)
qed

text \<open>
  C23: Whatever the interleaving of processes on a reader-writer lock, with stray wakeups: a writer is
  alone inside, \<open>read_count\<close> is the number of readers inside, nobody sleeps who could enter (no wakeup
  is lost), and releasing never panics for a process that is inside.
\<close>

theorem rwlock_safe:
  assumes "lreach rw_try rw_rel rwlock_init (l, w)"
  shows "(\<forall>p q r. w p = Inside Writer \<and> w q = Inside r \<longrightarrow> q = p) \<and> read_count l = int (card {q. w q = Inside Reader}) \<and>
    (\<forall>p r. w p = Asleep r \<longrightarrow> rw_try p r l = None) \<and> (\<forall>p r. w p = Inside r \<longrightarrow> (\<exists>y. rw_rel p r l = Inr y))"
proof -
  have g: "rw_agrees l (holders w)" "finite (holders w)" "\<forall>p r. w p = Asleep r \<longrightarrow> rw_try p r l = None"
    using rw.reach_good [OF assms] by (simp_all add: rw.good_def)
  have one: "\<forall>p q r. w p = Inside Writer \<and> w q = Inside r \<longrightarrow> q = p"
  proof (intro impI allI)
    fix p q r assume "w p = Inside Writer \<and> w q = Inside r"
    then have "(p, Writer) \<in> holders w" "(q, r) \<in> holders w" by (simp_all add: holders_def)
    then show "q = p" using g(1) by (auto simp: rw_agrees_def split: if_splits)
  qed
  have "holders w = (\<lambda>q. (q, Reader)) ` {q. w q = Inside Reader}" if "\<not> writer l"
    using g(1) that by (auto simp: rw_agrees_def holders_def)
  moreover have "{q. w q = Inside Reader} = {}" if "writer l" using g(1) that by (auto simp: rw_agrees_def holders_def)
  ultimately have "read_count l = int (card {q. w q = Inside Reader})"
    using g(1) by (cases "writer l") (simp_all add: rw_agrees_def card_image inj_on_def)
  then show ?thesis using one g(3) rw.release_succeeds [OF assms] by blast
qed

text \<open>
  C25: As long as only \<open>plock_release\<close> wakes the waiters of a priority lock, at most one process is inside, it is the owner, and the
  sleepers are exactly the queued waiters. A release hands the lock to a waiter of the highest
  priority, the last to arrive among equals, or frees it when there is none.
\<close>

theorem plock_hands_over:
  assumes "pstep\<^sup>*\<^sup>* (plock_init, \<lambda>_. POut) (l, w)" "w p = PIn"
  shows "pl_owner l = Some p \<and> (\<forall>q. w q = PIn \<longrightarrow> q = p) \<and> {q. w q = PAsleep} = set (List.map node_proc (pl_head l)) \<and>
    (\<exists>l' woken. plock_release p l = Inr (l', woken) \<and>
      (pl_head l = [] \<longrightarrow> woken = None \<and> \<not> pl_locked l') \<and>
      (pl_head l \<noteq> [] \<longrightarrow> (\<exists>k<length (pl_head l). woken = Some (node_proc (pl_head l ! k)) \<and> pl_owner l' = woken \<and> pl_locked l' \<and>
        (\<forall>j<length (pl_head l). node_priority (pl_head l ! j) \<le> node_priority (pl_head l ! k)) \<and>
        (\<forall>j<k. node_priority (pl_head l ! j) < node_priority (pl_head l ! k)))))"
proof -
  have g: "pl_good (l, w)" by (rule pl_good_reach [OF assms(1)])
  have lk: "pl_locked l" using g assms(2) by (auto simp: pl_good_def Let_def split: if_splits)
  then have a: "{q. w q = PAsleep} = set (List.map node_proc (pl_head l))" "\<exists>p. pl_owner l = Some p \<and> {q. w q = PIn} = {p}"
    using g by (simp_all add: pl_good_def Let_def)
  have "p \<in> {q. w q = PIn}" using assms(2) by simp
  then have b: "{q. w q = PIn} = {p}" "pl_owner l = Some p" using a(2) by (metis singletonD)+
  have one: "\<forall>q. w q = PIn \<longrightarrow> q = p" using b(1) by blast
  show ?thesis
  proof (cases "pl_head l = []")
    case True
    then show ?thesis using a(1) b(2) one by (simp add: plock_release_def)
  next
    case False
    obtain k where k: "k < length (pl_head l)" "plock_highest 0 (pl_head l) (0, hd (pl_head l)) = (k, pl_head l ! k)"
      "\<forall>j<length (pl_head l). node_priority (pl_head l ! j) \<le> node_priority (pl_head l ! k)"
      "\<forall>j<k. node_priority (pl_head l ! j) < node_priority (pl_head l ! k)"
      using plock_highest_max [OF False] by metis
    have r: "plock_release p l = Inr (l\<lparr>pl_head := take k (pl_head l) @ drop (Suc k) (pl_head l),
        pl_owner := Some (node_proc (pl_head l ! k))\<rparr>, Some (node_proc (pl_head l ! k)))"
      using b(2) k(2) False by (auto simp: plock_release_def split: list.splits)
    show ?thesis unfolding r using a(1) b(2) one False k lk by auto
  qed
qed


section \<open>Witnesses\<close>

lemma lstep_reach: "lreach a r l0 x \<Longrightarrow> lstep a r x y \<Longrightarrow> lreach a r l0 y"
  by (simp add: lreach_def rtranclp.rtrancl_into_rtrancl)

theorem sleeplock_safe_witness:
  "\<exists>l (w :: int \<Rightarrow> unit place). w 7 = Inside () \<and> w 8 = Asleep () \<and> holdingsleep 7 l \<and> \<not> holdingsleep 8 l \<and> sl_locked l"
proof -
  let ?l = "\<lparr>sl_locked = True, sl_pid = 7\<rparr>" and ?w = "(\<lambda>_ :: int. Outside)(7 := Testing (), 7 := Inside (), 8 := Testing (), 8 := Asleep ())"
  have "lreach sl_try sl_rel initsleeplock (initsleeplock, (\<lambda>_. Outside)(7 := Testing ()))"
    by (rule lstep_reach [OF _ lstep.call]) (simp_all add: lreach_def)
  moreover have "lstep sl_try sl_rel (initsleeplock, (\<lambda>_. Outside)(7 := Testing ())) (?l, (\<lambda>_. Outside)(7 := Testing (), 7 := Inside ()))"
    by (rule lstep.enter) (simp_all add: sl_try_def acquiresleep_try_def initsleeplock_def)
  moreover have "lstep sl_try sl_rel (?l, (\<lambda>_. Outside)(7 := Testing (), 7 := Inside ()))
      (?l, (\<lambda>_. Outside)(7 := Testing (), 7 := Inside (), 8 := Testing ()))"
    by (rule lstep.call) simp
  moreover have "lstep sl_try sl_rel (?l, (\<lambda>_. Outside)(7 := Testing (), 7 := Inside (), 8 := Testing ())) (?l, ?w)"
    by (rule lstep.block) (simp_all add: sl_try_def acquiresleep_try_def)
  ultimately have reach: "lreach sl_try sl_rel initsleeplock (?l, ?w)" by (meson lstep_reach)
  note S = sleeplock_safe [OF reach]
  have "holdingsleep p ?l = (?w p = Inside ())" "?w p = Asleep () \<longrightarrow> sl_locked ?l" for p using S by blast+
  from this(1) [of 7] this(1) [of 8] this(2) [of 8] show ?thesis by (intro exI [of _ ?l] exI [of _ ?w]) simp
qed

theorem rwlock_safe_witness:
  "\<exists>l (w :: int \<Rightarrow> rw_role place). w 7 = Inside Reader \<and> w 8 = Asleep Writer \<and> read_count l = int (card {q. w q = Inside Reader}) \<and> rw_try 8 Writer l = None"
proof -
  let ?l = "\<lparr>read_count = 1, writer = False, writer_pid = 0\<rparr>"
  let ?w = "(\<lambda>_ :: int. Outside)(7 := Testing Reader, 7 := Inside Reader, 8 := Testing Writer, 8 := Asleep Writer)"
  have "lreach rw_try rw_rel rwlock_init (rwlock_init, (\<lambda>_. Outside)(7 := Testing Reader))"
    by (rule lstep_reach [OF _ lstep.call]) (simp_all add: lreach_def)
  moreover have "lstep rw_try rw_rel (rwlock_init, (\<lambda>_. Outside)(7 := Testing Reader)) (?l, (\<lambda>_. Outside)(7 := Testing Reader, 7 := Inside Reader))"
    by (rule lstep.enter) (simp_all add: rw_try_def rwlock_acquire_read_def rwlock_init_def)
  moreover have "lstep rw_try rw_rel (?l, (\<lambda>_. Outside)(7 := Testing Reader, 7 := Inside Reader))
      (?l, (\<lambda>_. Outside)(7 := Testing Reader, 7 := Inside Reader, 8 := Testing Writer))"
    by (rule lstep.call) simp
  moreover have "lstep rw_try rw_rel (?l, (\<lambda>_. Outside)(7 := Testing Reader, 7 := Inside Reader, 8 := Testing Writer)) (?l, ?w)"
    by (rule lstep.block) (simp_all add: rw_try_def rwlock_acquire_write_def)
  ultimately have reach: "lreach rw_try rw_rel rwlock_init (?l, ?w)" by (meson lstep_reach)
  note S = rwlock_safe [OF reach]
  from S have "read_count ?l = int (card {q. ?w q = Inside Reader})" by (elim conjE) assumption
  moreover from S have "?w 8 = Asleep Writer \<longrightarrow> rw_try 8 Writer ?l = None" by (elim conjE allE) assumption
  moreover have "?w 7 = Inside Reader" "?w 8 = Asleep Writer" by simp_all
  ultimately show ?thesis by blast
qed

theorem plock_hands_over_witness:
  "\<exists>l (w :: int \<Rightarrow> pplace) l'. w 1 = PIn \<and> w 2 = PAsleep \<and> pl_owner l = Some 1 \<and> plock_release 1 l = Inr (l', Some 2)"
proof -
  let ?l1 = "\<lparr>pl_locked = True, pl_head = [], pl_owner = Some 1\<rparr>"
  let ?l2 = "\<lparr>pl_locked = True, pl_head = [\<lparr>node_proc = 2, node_priority = 5\<rparr>], pl_owner = Some 1\<rparr>"
  let ?w1 = "(\<lambda>_ :: int. POut)(1 := PIn)"
  have "pstep (plock_init, \<lambda>_. POut) (?l1, ?w1)"
    using pstep.lock [of "\<lambda>_. POut" 1 5 plock_init ?l1 False] by (simp add: plock_acquire_def plock_init_def)
  moreover have "pstep (?l1, ?w1) (?l2, ?w1(2 := PAsleep))"
    using pstep.lock [of ?w1 2 5 ?l1 ?l2 True] by (simp add: plock_acquire_def)
  ultimately have "pstep\<^sup>*\<^sup>* (plock_init, \<lambda>_. POut) (?l2, ?w1(2 := PAsleep))"
    by (meson converse_rtranclp_into_rtranclp rtranclp.rtrancl_refl)
  from plock_hands_over [OF this, of 1] have "pl_owner ?l2 = Some 1" "\<exists>l' woken. plock_release 1 ?l2 = Inr (l', woken) \<and> woken = Some 2"
    by (simp_all, auto)
  moreover have "(?w1(2 := PAsleep)) 1 = PIn" "(?w1(2 := PAsleep)) 2 = PAsleep" by simp_all
  ultimately show ?thesis by blast
qed

end
