(* ===== verification/Bio.thy ===== *)
theory Bio
  imports Locks
begin

text \<open>
  The buffer cache (\<open>bio.c\<close>) over the disk drivers (\<open>ide.c\<close>, \<open>memide.c\<close>), as one process drives them from call to
  call: where the code would sleep for a lock held by the same process the result is \<open>Blocks\<close>, and waiting for the disk
  runs its interrupts. The recency list is kept in the \<open>next\<close>/\<open>prev\<close> fields and shown to be a list of all
  buffers (\<open>blist\<close>); \<open>bc_ok\<close> is the invariant and \<open>content\<close> the value of each block as a reader sees it.
  The flag word of a buffer is kept as its two bits.
\<close>

unbundle bit_operations_syntax

section \<open>Buffers, the disk and their state\<close>

definition BSIZE :: nat where "BSIZE = 512"
definition FSSIZE :: u32 where "FSSIZE = 1000"
definition NBUF :: nat where "NBUF = 30"

type_synonym block = "nat \<Rightarrow> u8"

record buf =
  B_VALID :: bool
  B_DIRTY :: bool
  buf_dev :: u32
  buf_blockno :: u32
  buf_lock :: sleeplock
  buf_refcnt :: u32
  buf_data :: block

text \<open>
  The buffers are numbered below \<open>NBUF\<close> and \<open>NBUF\<close> is the list head. \<open>disk d b\<close> is block \<open>b\<close> of
  drive \<open>d\<close>; \<open>writes\<close> records the blocks written, oldest first. \<open>curpid\<close> is the pid of the process
  that runs and \<open>ide_fault\<close> whether the drive reports an error.
\<close>

record bstate =
  curpid :: int
  bcache_lock :: bool
  bufs :: "nat \<Rightarrow> buf"
  bnext :: "nat \<Rightarrow> nat"
  bprev :: "nat \<Rightarrow> nat"
  idelock :: bool
  idequeue :: "nat list"
  havedisk1 :: bool
  ide_fault :: bool
  disk :: "u32 \<Rightarrow> u32 \<Rightarrow> block"
  writes :: "(u32 \<times> u32 \<times> block) list"

abbreviation head :: nat where "head \<equiv> NBUF"

definition buf_upd :: "nat \<Rightarrow> (buf \<Rightarrow> buf) \<Rightarrow> ('a) bstate_scheme \<Rightarrow> 'a bstate_scheme" where
  "buf_upd b f s = s\<lparr>bufs := (bufs s)(b := f (bufs s b))\<rparr>"

section \<open>The disk driver\<close>

text \<open>
  Starting a request hands the drive its sector number and, for a write, the data. The drive is
  addressed through \<open>dev & 1\<close>, one sector per block.
\<close>

definition idestart :: "nat \<Rightarrow> 'a bstate_scheme \<Rightarrow> 'a bstate_scheme res" where
  "idestart b s =
     (let x = bufs s b in
      if FSSIZE \<le> buf_blockno x then Inl (Panic ''incorrect blockno'')
      else if B_DIRTY x
      then Inr (s\<lparr>disk := (disk s)(buf_dev x AND 1 := (disk s (buf_dev x AND 1))(buf_blockno x := buf_data x)),
                 writes := writes s @ [(buf_dev x AND 1, buf_blockno x, buf_data x)]\<rparr>)
      else Inr s)"

definition ideintr :: "'a bstate_scheme \<Rightarrow> 'a bstate_scheme res" where
  "ideintr s =
     bindR (lock_take (idelock s)) (\<lambda>l.
     let s = s\<lparr>idelock := l\<rparr> in
     case idequeue s of
       [] \<Rightarrow> bindR (lock_drop (idelock s)) (\<lambda>l. Inr (s\<lparr>idelock := l\<rparr>))
     | b # q \<Rightarrow>
         let s1 = s\<lparr>idequeue := q\<rparr>; x = bufs s b;
             s2 = (if \<not> B_DIRTY x \<and> \<not> ide_fault s
                   then buf_upd b (\<lambda>x. x\<lparr>buf_data := disk s (buf_dev x AND 1) (buf_blockno x)\<rparr>) s1 else s1);
             s3 = buf_upd b (\<lambda>x. x\<lparr>B_VALID := True, B_DIRTY := False\<rparr>) s2
         in bindR (case q of [] \<Rightarrow> Inr s3 | c # _ \<Rightarrow> idestart c s3) (\<lambda>s4.
            bindR (lock_drop (idelock s4)) (\<lambda>l. Inr (s4\<lparr>idelock := l\<rparr>))))"

text \<open>
  The waiting loop of \<open>iderw\<close>. \<open>sleep\<close> releases the lock, the next thing that happens to the
  queue is an interrupt of the drive, and the lock is held again when \<open>sleep\<close> returns.
\<close>

partial_function (option) iderw_wait :: "nat \<Rightarrow> 'a bstate_scheme \<Rightarrow> 'a bstate_scheme res option" where
  "iderw_wait b s =
     (if B_VALID (bufs s b) \<and> \<not> B_DIRTY (bufs s b) then Some (Inr s)
      else case bindR (lock_drop (idelock s)) (\<lambda>l. ideintr (s\<lparr>idelock := l\<rparr>)) of
             Inl e \<Rightarrow> Some (Inl e)
           | Inr s1 \<Rightarrow> iderw_wait b (s1\<lparr>idelock := True\<rparr>))"

definition iderw :: "nat \<Rightarrow> 'a bstate_scheme \<Rightarrow> 'a bstate_scheme res" where
  "iderw b s =
     (if \<not> holdingsleep (curpid s) (buf_lock (bufs s b)) then Inl (Panic ''iderw: buf not locked'')
      else if B_VALID (bufs s b) \<and> \<not> B_DIRTY (bufs s b) then Inl (Panic ''iderw: nothing to do'')
      else if buf_dev (bufs s b) \<noteq> 0 \<and> \<not> havedisk1 s then Inl (Panic ''iderw: ide disk 1 not present'')
      else bindR (lock_take (idelock s)) (\<lambda>l.
        let s1 = s\<lparr>idelock := l, idequeue := idequeue s @ [b]\<rparr> in
        bindR (if hd (idequeue s1) = b then idestart b s1 else Inr s1) (\<lambda>s2.
        bindR (loop_res (iderw_wait b s2)) (\<lambda>s3.
        bindR (lock_drop (idelock s3)) (\<lambda>l. Inr (s3\<lparr>idelock := l\<rparr>))))))"

text \<open>The disk in memory of \<open>memide.c\<close>, which replaces the driver in the image \<open>kernelmemfs\<close>.\<close>

definition memide_iderw :: "u32 \<Rightarrow> nat \<Rightarrow> 'a bstate_scheme \<Rightarrow> 'a bstate_scheme res" where
  "memide_iderw disksize b s =
     (let x = bufs s b in
      if \<not> holdingsleep (curpid s) (buf_lock x) then Inl (Panic ''iderw: buf not locked'')
      else if B_VALID x \<and> \<not> B_DIRTY x then Inl (Panic ''iderw: nothing to do'')
      else if buf_dev x \<noteq> 1 then Inl (Panic ''iderw: request not for disk 1'')
      else if disksize \<le> buf_blockno x then Inl (Panic ''iderw: block out of range'')
      else let s1 = (if B_DIRTY x
                     then (buf_upd b (\<lambda>x. x\<lparr>B_DIRTY := False\<rparr>) s)
                            \<lparr>disk := (disk s)(1 := (disk s 1)(buf_blockno x := buf_data x)),
                             writes := writes s @ [(1, buf_blockno x, buf_data x)]\<rparr>
                     else buf_upd b (\<lambda>x. x\<lparr>buf_data := disk s 1 (buf_blockno x)\<rparr>) s)
           in Inr (buf_upd b (\<lambda>x. x\<lparr>B_VALID := True\<rparr>) s1))"

section \<open>The buffer cache\<close>

definition binit_buf :: "nat \<Rightarrow> 'a bstate_scheme \<Rightarrow> 'a bstate_scheme" where
  "binit_buf b s =
     (let s1 = s\<lparr>bnext := (bnext s)(b := bnext s head), bprev := (bprev s)(b := head)\<rparr>;
          s2 = buf_upd b (\<lambda>x. x\<lparr>buf_lock := initsleeplock\<rparr>) s1;
          s3 = s2\<lparr>bprev := (bprev s2)(bnext s2 head := b)\<rparr>
      in s3\<lparr>bnext := (bnext s3)(head := b)\<rparr>)"

definition binit :: "'a bstate_scheme \<Rightarrow> 'a bstate_scheme" where
  "binit s = fold binit_buf [0..<NBUF] (s\<lparr>bcache_lock := False, bprev := (bprev s)(head := head), bnext := (bnext s)(head := head)\<rparr>)"

partial_function (option) bget_cached :: "u32 \<Rightarrow> u32 \<Rightarrow> 'a bstate_scheme \<Rightarrow> nat \<Rightarrow> nat option option" where
  "bget_cached dev blockno s b =
     (if b = head then Some None
      else if buf_dev (bufs s b) = dev \<and> buf_blockno (bufs s b) = blockno then Some (Some b)
      else bget_cached dev blockno s (bnext s b))"

partial_function (option) bget_unused :: "'a bstate_scheme \<Rightarrow> nat \<Rightarrow> nat option option" where
  "bget_unused s b =
     (if b = head then Some None
      else if buf_refcnt (bufs s b) = 0 \<and> \<not> B_DIRTY (bufs s b) then Some (Some b)
      else bget_unused s (bprev s b))"

definition buf_acquiresleep :: "nat \<Rightarrow> 'a bstate_scheme \<Rightarrow> 'a bstate_scheme res" where
  "buf_acquiresleep b s =
     bindR (acquiresleep (curpid s) (buf_lock (bufs s b))) (\<lambda>lk. Inr (buf_upd b (\<lambda>x. x\<lparr>buf_lock := lk\<rparr>) s))"

definition bget :: "u32 \<Rightarrow> u32 \<Rightarrow> 'a bstate_scheme \<Rightarrow> (nat \<times> 'a bstate_scheme) res" where
  "bget dev blockno s =
     bindR (lock_take (bcache_lock s)) (\<lambda>l.
     let s = s\<lparr>bcache_lock := l\<rparr> in
     bindR (of_opt Diverges (bget_cached dev blockno s (bnext s head))) (\<lambda>c.
     case c of
       Some b \<Rightarrow>
         let s1 = buf_upd b (\<lambda>x. x\<lparr>buf_refcnt := buf_refcnt x + 1\<rparr>) s in
         bindR (lock_drop (bcache_lock s1)) (\<lambda>l.
         bindR (buf_acquiresleep b (s1\<lparr>bcache_lock := l\<rparr>)) (\<lambda>s2. Inr (b, s2)))
     | None \<Rightarrow>
         bindR (of_opt Diverges (bget_unused s (bprev s head))) (\<lambda>u.
         case u of
           Some b \<Rightarrow>
             let s1 = buf_upd b (\<lambda>x. x\<lparr>buf_dev := dev, buf_blockno := blockno, B_VALID := False, B_DIRTY := False, buf_refcnt := 1\<rparr>) s in
             bindR (lock_drop (bcache_lock s1)) (\<lambda>l.
             bindR (buf_acquiresleep b (s1\<lparr>bcache_lock := l\<rparr>)) (\<lambda>s2. Inr (b, s2)))
         | None \<Rightarrow> Inl (Panic ''bget: no buffers''))))"

definition bread :: "u32 \<Rightarrow> u32 \<Rightarrow> 'a bstate_scheme \<Rightarrow> (nat \<times> 'a bstate_scheme) res" where
  "bread dev blockno s =
     bindR (bget dev blockno s) (\<lambda>(b, s1).
       if \<not> B_VALID (bufs s1 b) then bindR (iderw b s1) (\<lambda>s2. Inr (b, s2)) else Inr (b, s1))"

definition bwrite :: "nat \<Rightarrow> 'a bstate_scheme \<Rightarrow> 'a bstate_scheme res" where
  "bwrite b s =
     (if \<not> holdingsleep (curpid s) (buf_lock (bufs s b)) then Inl (Panic ''bwrite'')
      else iderw b (buf_upd b (\<lambda>x. x\<lparr>B_DIRTY := True\<rparr>) s))"

definition brelse_list :: "nat \<Rightarrow> 'a bstate_scheme \<Rightarrow> 'a bstate_scheme" where
  "brelse_list b s =
     (let s1 = s\<lparr>bprev := (bprev s)(bnext s b := bprev s b)\<rparr>;
          s2 = s1\<lparr>bnext := (bnext s1)(bprev s1 b := bnext s1 b)\<rparr>;
          s3 = s2\<lparr>bnext := (bnext s2)(b := bnext s2 head), bprev := (bprev s2)(b := head)\<rparr>;
          s4 = s3\<lparr>bprev := (bprev s3)(bnext s3 head := b)\<rparr>
      in s4\<lparr>bnext := (bnext s4)(head := b)\<rparr>)"

definition brelse :: "nat \<Rightarrow> 'a bstate_scheme \<Rightarrow> 'a bstate_scheme res" where
  "brelse b s =
     (if \<not> holdingsleep (curpid s) (buf_lock (bufs s b)) then Inl (Panic ''brelse'')
      else bindR (releasesleep (curpid s) (buf_lock (bufs s b))) (\<lambda>lk.
        let s1 = buf_upd b (\<lambda>x. x\<lparr>buf_lock := lk\<rparr>) s in
        bindR (lock_take (bcache_lock s1)) (\<lambda>l.
        let s2 = buf_upd b (\<lambda>x. x\<lparr>buf_refcnt := buf_refcnt x - 1\<rparr>) (s1\<lparr>bcache_lock := l\<rparr>);
            s3 = (if buf_refcnt (bufs s2 b) = 0 then brelse_list b s2 else s2) in
        bindR (lock_drop (bcache_lock s3)) (\<lambda>l. Inr (s3\<lparr>bcache_lock := l\<rparr>)))))"

section \<open>The list of buffers\<close>

fun links :: "('a \<Rightarrow> 'a) \<Rightarrow> 'a list \<Rightarrow> bool" where
  "links f (a # b # xs) \<longleftrightarrow> f a = b \<and> links f (b # xs)"
| "links f _ \<longleftrightarrow> True"

lemma links_append: "links f (xs @ y # ys) \<longleftrightarrow> links f (xs @ [y]) \<and> links f (y # ys)"
proof (induction xs)
  case (Cons x xs)
  then show ?case by (cases xs) auto
qed simp

lemma links_upd: "a \<notin> set (butlast xs) \<Longrightarrow> links (f(a := v)) xs = links f xs"
  by (induction f xs rule: links.induct) auto

lemma links_Cons: "links f (a # xs) \<longleftrightarrow> (xs = [] \<or> f a = hd xs \<and> links f xs)"
  by (cases xs) auto

text \<open>The buffers in the order of the list, most recently released first.\<close>

definition blist :: "'a bstate_scheme \<Rightarrow> nat list \<Rightarrow> bool" where
  "blist s xs \<longleftrightarrow> distinct xs \<and> set xs = {..<NBUF} \<and> links (bnext s) (head # xs @ [head]) \<and> links (bprev s) (head # rev xs @ [head])"

lemma bget_cached_find:
  "links (bnext s) (xs @ [head]) \<Longrightarrow> head \<notin> set xs \<Longrightarrow>
   bget_cached dev n s (hd (xs @ [head])) = Some (List.find (\<lambda>b. buf_dev (bufs s b) = dev \<and> buf_blockno (bufs s b) = n) xs)"
proof (induction xs)
  case Nil
  then show ?case by (simp add: bget_cached.simps)
next
  case (Cons b xs)
  then have "bnext s b = hd (xs @ [head])" "links (bnext s) (xs @ [head])" by (simp_all add: links_Cons)
  then show ?case using Cons by (simp add: bget_cached.simps [of _ _ _ b])
qed

lemma bget_unused_find:
  "links (bprev s) (xs @ [head]) \<Longrightarrow> head \<notin> set xs \<Longrightarrow>
   bget_unused s (hd (xs @ [head])) = Some (List.find (\<lambda>b. buf_refcnt (bufs s b) = 0 \<and> \<not> B_DIRTY (bufs s b)) xs)"
proof (induction xs)
  case Nil
  then show ?case by (simp add: bget_unused.simps)
next
  case (Cons b xs)
  then have "bprev s b = hd (xs @ [head])" "links (bprev s) (xs @ [head])" by (simp_all add: links_Cons)
  then show ?case using Cons by (simp add: bget_unused.simps [of _ b])
qed

lemma links_move:
  assumes l: "links nx (h # us @ b # vs @ [h])" and d: "distinct (h # us @ b # vs)" and p: "p = last (h # us)"
  shows "links (((nx(p := nx b))(b := (nx(p := nx b)) h))(h := b)) (h # b # us @ vs @ [h])"
proof -
  have a: "links nx ((h # us) @ [b])" "links nx (b # vs @ [h])" using l links_append [of nx "h # us" b "vs @ [h]"] by simp_all
  have nb: "nx b = hd (vs @ [h])" "links nx (vs @ [h])" using a(2) by (simp_all add: links_Cons)
  show ?thesis
  proof (cases us rule: rev_cases)
    case Nil
    have "links (((nx(p := nx b))(b := (nx(p := nx b)) h))(h := b)) (vs @ [h]) = links nx (vs @ [h])"
      using d p Nil by (simp add: links_upd)
    then show ?thesis using d p Nil nb by (auto simp: links_Cons)
  next
    case (snoc us' u)
    have pu: "p = u" using p snoc by simp
    let ?f = "((nx(u := nx b))(b := (nx(u := nx b)) h))(h := b)"
    have f: "?f b = nx h" "?f h = b" "?f u = nx b" using d snoc by auto
    have "links nx ((h # us') @ [u])" using a(1) links_append [of nx "h # us'" u "[b]"] snoc by simp
    then have h: "nx h = hd (us' @ [u])" "links nx (us' @ [u])" by (simp_all add: links_Cons)
    have "links ?f (us' @ [u]) = links nx (us' @ [u])" "links ?f (vs @ [h]) = links nx (vs @ [h])"
      using d snoc by (simp_all add: links_upd)
    then have "links ?f (us' @ [u])" "links ?f (u # vs @ [h])" using h nb f by (simp_all add: links_Cons)
    then have "links ?f (us @ vs @ [h])" using links_append [of ?f us' u "vs @ [h]"] snoc by simp
    moreover have "hd (us @ vs @ [h]) = nx h" using h(1) snoc by (cases us') auto
    ultimately show ?thesis using f pu by (simp add: links_Cons)
  qed
qed

lemma links_move_prev:
  assumes l: "links pv (ws @ n # b # zs @ [h])" and d: "distinct (ws @ n # b # zs)" and h: "h = hd (ws @ [n])"
    and u: "u = (if zs = [] then n else last zs)"
  shows "links (((pv(n := pv b))(b := h))(u := b)) (ws @ n # zs @ [b, h])"
proof -
  let ?f = "((pv(n := pv b))(b := h))(u := b)"
  have a: "links pv (ws @ [n])" "links pv (n # b # zs @ [h])" using l links_append [of pv ws n "b # zs @ [h]"] by simp_all
  have b: "pv b = hd (zs @ [h])" "links pv (zs @ [h])" using a(2) by (simp_all add: links_Cons)
  have uw: "u \<notin> set ws" "u \<noteq> b" using d u by (auto split: if_splits)
  have "links ?f (ws @ [n]) = links pv (ws @ [n])" using d uw by (simp add: links_upd)
  moreover have "links ?f (n # zs @ [b, h])"
  proof (cases zs rule: rev_cases)
    case Nil
    then show ?thesis using u d by auto
  next
    case (snoc zs' z)
    have uz: "u = z" using u snoc by simp
    have "links pv (zs' @ [z])" using b(2) links_append [of pv zs' z "[h]"] snoc by simp
    then have "links ?f (zs' @ [z])" using d snoc uz by (subst links_upd, simp)+ simp
    moreover have "links ?f [z, b, h]" using d snoc uz by auto
    ultimately have "links ?f (zs' @ z # [b, h])" using links_append [of ?f zs' z "[b, h]"] by blast
    moreover have "?f n = hd (zs @ [h])" using d uz snoc b(1) by auto
    ultimately show ?thesis using snoc by (cases zs') (auto simp: links_Cons)
  qed
  ultimately show ?thesis using a(1) links_append [of ?f ws n "zs @ [b, h]"] by simp
qed

lemma brelse_list_front:
  assumes "blist s (us @ b # vs)"
  shows "blist (brelse_list b s) (b # us @ vs)"
proof -
  note B = assms [unfolded blist_def]
  have d: "distinct (head # us @ b # vs)" using B by auto
  have nx: "links (bnext s) (head # us @ b # vs @ [head])" and pv: "links (bprev s) ((head # rev vs) @ b # rev us @ [head])"
    using B by simp_all
  have n: "bnext s b = hd (vs @ [head])" using nx links_append [of "bnext s" "head # us" b "vs @ [head]"] by (simp add: links_Cons)
  have p: "bprev s b = last (head # us)"
  proof -
    have "bprev s b = hd (rev us @ [head])" using pv links_append [of "bprev s" "head # rev vs" b "rev us @ [head]"] by (simp add: links_Cons)
    then show ?thesis by (cases us rule: rev_cases) auto
  qed
  have nb: "bnext s b \<noteq> b" "bprev s b \<noteq> b" "b \<noteq> head" using d n p by (cases vs; auto)+
  have eq: "bnext (brelse_list b s) = (((bnext s)(bprev s b := bnext s b))(b := ((bnext s)(bprev s b := bnext s b)) head))(head := b)"
    using nb by (simp add: brelse_list_def Let_def)
  let ?u = "((bnext s)(bprev s b := bnext s b)) head"
  have eqp: "bprev (brelse_list b s) = (((bprev s)(bnext s b := bprev s b))(b := head))(?u := b)"
    using nb by (simp add: brelse_list_def Let_def)
  have "links (bnext (brelse_list b s)) (head # b # us @ vs @ [head])"
    unfolding eq by (rule links_move [OF nx d p])
  moreover have "links (bprev (brelse_list b s)) (head # rev vs @ rev us @ [b, head])"
  proof -
    obtain ws where ws: "head # rev vs = ws @ [bnext s b]" using n by (cases vs) auto
    have l: "links (bprev s) (ws @ bnext s b # b # rev us @ [head])" using pv ws by simp
    have "distinct ((head # rev vs) @ b # rev us)" using d by auto
    then have dd: "distinct (ws @ bnext s b # b # rev us)" unfolding ws by simp
    have h: "head = hd (ws @ [bnext s b])" using ws by (metis list.sel(1))
    have "bnext s head = hd (us @ [b])" using nx by (cases us) auto
    moreover have "head \<notin> set us" using d by simp
    then have "us \<noteq> [] \<Longrightarrow> last us \<noteq> head" by (metis last_in_set)
    ultimately have u: "?u = (if rev us = [] then bnext s b else last (rev us))" using p by (cases us) auto
    have "links (bprev (brelse_list b s)) (ws @ bnext s b # rev us @ [b, head])"
      unfolding eqp by (rule links_move_prev [OF l dd h u])
    moreover have "ws @ bnext s b # rev us @ [b, head] = head # rev vs @ rev us @ [b, head]" using ws by simp
    ultimately show ?thesis by simp
  qed
  ultimately show ?thesis using B by (auto simp: blist_def)
qed

lemma brelse_list_frame [simp]:
  "bufs (brelse_list b s) = bufs s" "bcache_lock (brelse_list b s) = bcache_lock s" "idelock (brelse_list b s) = idelock s"
  "idequeue (brelse_list b s) = idequeue s" "havedisk1 (brelse_list b s) = havedisk1 s" "ide_fault (brelse_list b s) = ide_fault s"
  "disk (brelse_list b s) = disk s" "writes (brelse_list b s) = writes s" "curpid (brelse_list b s) = curpid s"
  "bstate.more (brelse_list b s) = bstate.more s"
  by (simp_all add: brelse_list_def Let_def)

text \<open>\<open>binit\<close> builds the list of all buffers, the last one first.\<close>

lemma binit_buf_list:
  assumes "links (bnext s) (head # xs @ [head])" "links (bprev s) (head # rev xs @ [head])" "b \<noteq> head" "b \<notin> set xs" "distinct (head # xs)"
  shows "links (bnext (binit_buf b s)) (head # (b # xs) @ [head]) \<and> links (bprev (binit_buf b s)) (head # rev (b # xs) @ [head])"
proof -
  have h: "bnext s head = hd (xs @ [head])" using assms(1) by (cases xs) auto
  have x: "links (bnext s) (xs @ [head])" using assms(1) by (simp add: links_Cons)
  have n: "bnext (binit_buf b s) = ((bnext s)(b := bnext s head))(head := b)"
    and p: "bprev (binit_buf b s) = ((bprev s)(b := head))(bnext s head := b)"
    using assms(3) by (simp_all add: binit_buf_def Let_def buf_upd_def)
  have "links (bnext (binit_buf b s)) (head # b # xs @ [head])"
    using assms x h by (simp add: n links_Cons links_upd)
  moreover have "links (bprev (binit_buf b s)) (head # rev xs @ [b, head])"
  proof (cases xs)
    case Nil
    then show ?thesis using h assms(3) by (simp add: p)
  next
    case (Cons c cs)
    then have hc: "bnext s head = c" using h by simp
    have l: "links (bprev s) ((head # rev cs) @ [c])" using assms(2) Cons links_append [of "bprev s" "head # rev cs" c "[head]"] by simp
    have "links (bprev (binit_buf b s)) ((head # rev cs) @ [c])"
      unfolding p hc using l assms(3-5) Cons by (subst links_upd, simp)+ simp
    moreover have "links (bprev (binit_buf b s)) [c, b, head]" unfolding p hc using assms(3-5) Cons by auto
    ultimately show ?thesis using Cons links_append [of "bprev (binit_buf b s)" "head # rev cs" c "[b, head]"] by simp
  qed
  ultimately show ?thesis by simp
qed

lemma binit_list: "blist (binit s) (rev [0..<NBUF])"
proof -
  define s0 where "s0 = s\<lparr>bcache_lock := False, bprev := (bprev s)(head := head), bnext := (bnext s)(head := head)\<rparr>"
  have z: "links (bnext s0) [head, head]" "links (bprev s0) [head, head]" by (simp_all add: s0_def)
  have "n \<le> NBUF \<Longrightarrow> links (bnext (fold binit_buf [0..<n] s0)) (head # rev [0..<n] @ [head]) \<and>
      links (bprev (fold binit_buf [0..<n] s0)) (head # rev (rev [0..<n]) @ [head])" for n
  proof (induction n)
    case (Suc n)
    then have "links (bnext (fold binit_buf [0..<n] s0)) (head # rev [0..<n] @ [head])"
      "links (bprev (fold binit_buf [0..<n] s0)) (head # rev (rev [0..<n]) @ [head])" by simp_all
    from binit_buf_list [OF this, of n] Suc.prems show ?case by simp
  qed (use z in simp)
  from this [of NBUF] show ?thesis by (simp add: blist_def binit_def s0_def [symmetric] lessThan_atLeast0)
qed

section \<open>The state between operations of one process\<close>

definition held :: "'a bstate_scheme \<Rightarrow> nat set" where
  "held s = {b. b < NBUF \<and> sl_locked (buf_lock (bufs s b))}"

definition bkey :: "buf \<Rightarrow> u32 \<times> u32" where
  "bkey x = (buf_dev x, buf_blockno x)"

text \<open>
  The invariant: locks free, no request pending, the list complete; a buffer is referenced exactly
  when it is locked, by the process that runs; a buffer that nobody holds and that is not dirty agrees
  with the disk; only disk 1 is cached, and no block of it twice.
\<close>

definition bc_ok :: "'a bstate_scheme \<Rightarrow> bool" where
  "bc_ok s \<longleftrightarrow> \<not> bcache_lock s \<and> \<not> idelock s \<and> idequeue s = [] \<and> havedisk1 s \<and> \<not> ide_fault s \<and> (\<exists>xs. blist s xs) \<and>
     (\<forall>b<NBUF. let x = bufs s b in
        buf_refcnt x = (if sl_locked (buf_lock x) then 1 else 0) \<and> (sl_locked (buf_lock x) \<longrightarrow> sl_pid (buf_lock x) = curpid s) \<and>
        (B_DIRTY x \<longrightarrow> B_VALID x) \<and> (B_VALID x \<longrightarrow> buf_dev x = 1) \<and> (sl_locked (buf_lock x) \<longrightarrow> B_VALID x \<and> buf_dev x = 1 \<and> buf_blockno x < FSSIZE) \<and>
        (B_DIRTY x \<longrightarrow> buf_dev x = 1 \<and> buf_blockno x < FSSIZE) \<and>
        (B_VALID x \<longrightarrow> \<not> B_DIRTY x \<longrightarrow> \<not> sl_locked (buf_lock x) \<longrightarrow> buf_data x = disk s (buf_dev x AND 1) (buf_blockno x))) \<and>
     (\<forall>b<NBUF. \<forall>c<NBUF. buf_dev (bufs s b) = 1 \<longrightarrow> bkey (bufs s b) = bkey (bufs s c) \<longrightarrow> b = c)"

text \<open>What a process that reads a block sees.\<close>

definition content :: "'a bstate_scheme \<Rightarrow> u32 \<Rightarrow> u32 \<Rightarrow> block" where
  "content s d n =
     (case first_index (\<lambda>b. B_VALID (bufs s b) \<and> bkey (bufs s b) = (d, n)) NBUF of
        Some b \<Rightarrow> buf_data (bufs s b) | None \<Rightarrow> disk s (d AND 1) n)"

lemma bc_okD:
  assumes "bc_ok s"
  shows "\<not> bcache_lock s" "\<not> idelock s" "idequeue s = []" "havedisk1 s" "\<not> ide_fault s" "\<exists>xs. blist s xs"
    and "b < NBUF \<Longrightarrow> buf_refcnt (bufs s b) = (if sl_locked (buf_lock (bufs s b)) then 1 else 0)"
    and "b < NBUF \<Longrightarrow> sl_locked (buf_lock (bufs s b)) \<Longrightarrow> sl_pid (buf_lock (bufs s b)) = curpid s \<and> B_VALID (bufs s b) \<and> buf_dev (bufs s b) = 1 \<and> buf_blockno (bufs s b) < FSSIZE"
    and "b < NBUF \<Longrightarrow> B_DIRTY (bufs s b) \<Longrightarrow> B_VALID (bufs s b) \<and> buf_dev (bufs s b) = 1 \<and> buf_blockno (bufs s b) < FSSIZE"
    and "b < NBUF \<Longrightarrow> B_VALID (bufs s b) \<Longrightarrow> \<not> B_DIRTY (bufs s b) \<Longrightarrow> \<not> sl_locked (buf_lock (bufs s b)) \<Longrightarrow>
          buf_data (bufs s b) = disk s (buf_dev (bufs s b) AND 1) (buf_blockno (bufs s b))"
    and "b < NBUF \<Longrightarrow> c < NBUF \<Longrightarrow> buf_dev (bufs s b) = 1 \<Longrightarrow> bkey (bufs s b) = bkey (bufs s c) \<Longrightarrow> b = c"
    and "b < NBUF \<Longrightarrow> B_VALID (bufs s b) \<Longrightarrow> buf_dev (bufs s b) = 1"
  using assms unfolding bc_ok_def Let_def by blast+

lemma bc_okI:
  assumes "\<not> bcache_lock s" "\<not> idelock s" "idequeue s = []" "havedisk1 s" "\<not> ide_fault s" "blist s xs"
    and "\<And>b. b < NBUF \<Longrightarrow> buf_refcnt (bufs s b) = (if sl_locked (buf_lock (bufs s b)) then 1 else 0)"
    and "\<And>b. b < NBUF \<Longrightarrow> sl_locked (buf_lock (bufs s b)) \<Longrightarrow> sl_pid (buf_lock (bufs s b)) = curpid s \<and> B_VALID (bufs s b) \<and> buf_dev (bufs s b) = 1 \<and> buf_blockno (bufs s b) < FSSIZE"
    and "\<And>b. b < NBUF \<Longrightarrow> B_DIRTY (bufs s b) \<Longrightarrow> B_VALID (bufs s b) \<and> buf_dev (bufs s b) = 1 \<and> buf_blockno (bufs s b) < FSSIZE"
    and "\<And>b. b < NBUF \<Longrightarrow> B_VALID (bufs s b) \<Longrightarrow> \<not> B_DIRTY (bufs s b) \<Longrightarrow> \<not> sl_locked (buf_lock (bufs s b)) \<Longrightarrow>
          buf_data (bufs s b) = disk s (buf_dev (bufs s b) AND 1) (buf_blockno (bufs s b))"
    and "\<And>b. b < NBUF \<Longrightarrow> B_VALID (bufs s b) \<Longrightarrow> buf_dev (bufs s b) = 1"
    and "\<And>b c. b < NBUF \<Longrightarrow> c < NBUF \<Longrightarrow> buf_dev (bufs s b) = 1 \<Longrightarrow> bkey (bufs s b) = bkey (bufs s c) \<Longrightarrow> b = c"
  shows "bc_ok s"
  unfolding bc_ok_def Let_def using assms by blast

lemma content_valid:
  assumes "bc_ok s" "b < NBUF" "B_VALID (bufs s b)" "bkey (bufs s b) = (d, n)" "d = 1"
  shows "content s d n = buf_data (bufs s b)"
proof -
  obtain c where c: "first_index (\<lambda>b. B_VALID (bufs s b) \<and> bkey (bufs s b) = (d, n)) NBUF = Some c"
    using assms by (cases "first_index (\<lambda>b. B_VALID (bufs s b) \<and> bkey (bufs s b) = (d, n)) NBUF") (auto simp: first_index_None)
  then have "c < NBUF" "bkey (bufs s c) = (d, n)" by (auto simp: first_index_Some)
  then have "b = c" using bc_okD(11) [OF assms(1,2)] assms(4,5) by (auto simp: bkey_def)
  then show ?thesis using c by (simp add: content_def)
qed

lemma content_disk:
  assumes "bc_ok s" "\<And>b. b < NBUF \<Longrightarrow> bkey (bufs s b) = (d, n) \<Longrightarrow> \<not> B_DIRTY (bufs s b) \<and> \<not> sl_locked (buf_lock (bufs s b))"
  shows "content s d n = disk s (d AND 1) n"
proof (cases "first_index (\<lambda>b. B_VALID (bufs s b) \<and> bkey (bufs s b) = (d, n)) NBUF")
  case (Some b)
  then have "b < NBUF" "B_VALID (bufs s b)" "bkey (bufs s b) = (d, n)" by (auto simp: first_index_Some)
  then show ?thesis using Some bc_okD(10) [OF assms(1)] assms(2) [of b] by (auto simp: content_def bkey_def)
qed (simp add: content_def)

text \<open>Equal views from equal buffers: a change to buffer \<open>b\<close> only affects the block it holds.\<close>

lemma content_other:
  assumes "\<And>c. c < NBUF \<Longrightarrow> bkey (bufs s c) = (d, n) \<or> bkey (bufs t c) = (d, n) \<Longrightarrow> B_VALID (bufs s c) \<or> B_VALID (bufs t c) \<Longrightarrow>
      B_VALID (bufs t c) = B_VALID (bufs s c) \<and> bkey (bufs t c) = bkey (bufs s c) \<and> buf_data (bufs t c) = buf_data (bufs s c)"
    and "disk t (d AND 1) n = disk s (d AND 1) n"
  shows "content t d n = content s d n"
proof -
  let ?P = "\<lambda>s b. B_VALID (bufs s b) \<and> bkey (bufs s b) = (d, n)"
  have e: "?P t c = ?P s c" if "c < NBUF" for c using assms(1) [OF that] by auto
  then have f: "first_index (?P t) NBUF = first_index (?P s) NBUF" unfolding first_index_def by (intro find_cong) auto
  show ?thesis
  proof (cases "first_index (?P s) NBUF")
    case (Some c)
    then have "c < NBUF" "?P s c" by (auto simp: first_index_Some)
    then have "buf_data (bufs t c) = buf_data (bufs s c)" using assms(1) [of c] by auto
    then show ?thesis using Some f by (simp add: content_def)
  qed (use f assms(2) in \<open>simp add: content_def\<close>)
qed

section \<open>The driver\<close>

lemma iderw_eq:
  assumes "holdingsleep (curpid s) (buf_lock (bufs s b))" "\<not> (B_VALID (bufs s b) \<and> \<not> B_DIRTY (bufs s b))" "havedisk1 s"
    "\<not> idelock s" "idequeue s = []" "\<not> ide_fault s" "buf_blockno (bufs s b) < FSSIZE"
  shows "iderw b s = Inr (buf_upd b (\<lambda>x. if B_DIRTY x then x\<lparr>B_VALID := True, B_DIRTY := False\<rparr>
        else x\<lparr>buf_data := disk s (buf_dev x AND 1) (buf_blockno x), B_VALID := True, B_DIRTY := False\<rparr>)
      (if B_DIRTY (bufs s b)
       then s\<lparr>disk := (disk s)(buf_dev (bufs s b) AND 1 := (disk s (buf_dev (bufs s b) AND 1))(buf_blockno (bufs s b) := buf_data (bufs s b))),
              writes := writes s @ [(buf_dev (bufs s b) AND 1, buf_blockno (bufs s b), buf_data (bufs s b))]\<rparr>
       else s))"
  using assms
  by (cases "B_DIRTY (bufs s b)")
    (simp_all add: iderw_def idestart_def ideintr_def iderw_wait.simps [of b] loop_res_def buf_upd_def Let_def not_le iderw_wait.simps)

section \<open>What the cache operations do\<close>

text \<open>
  The parts of the state that no cache operation touches, or that only its own process sees.
\<close>

definition same_rest :: "'a bstate_scheme \<Rightarrow> 'a bstate_scheme \<Rightarrow> bool" where
  "same_rest s t \<longleftrightarrow> curpid t = curpid s \<and> bstate.more t = bstate.more s"

definition dirty :: "'a bstate_scheme \<Rightarrow> nat set" where
  "dirty s = {b. b < NBUF \<and> B_DIRTY (bufs s b)}"

definition views :: "'a bstate_scheme \<Rightarrow> 'a bstate_scheme \<Rightarrow> bool" where
  "views s t \<longleftrightarrow> (\<forall>n. content t 1 n = content s 1 n)"

text \<open>After \<open>bread\<close>: buffer \<open>b\<close> is locked and holds the block; other busy buffers are as they were.\<close>

definition got :: "u32 \<Rightarrow> u32 \<Rightarrow> 'a bstate_scheme \<Rightarrow> nat \<Rightarrow> 'a bstate_scheme \<Rightarrow> bool" where
  "got d n s b t \<longleftrightarrow> bc_ok t \<and> same_rest s t \<and> b < NBUF \<and> b \<notin> held s \<and> held t = insert b (held s) \<and> dirty t = dirty s \<and>
     bkey (bufs t b) = (d, n) \<and> buf_data (bufs t b) = content s d n \<and> views s t \<and> disk t = disk s \<and> writes t = writes s \<and>
     (\<forall>c\<in>held s \<union> dirty s. c \<noteq> b \<longrightarrow> bufs t c = bufs s c) \<and> (b \<in> dirty s \<longrightarrow> bkey (bufs s b) = (d, n))"

lemma gotD:
  assumes "got d n s b t"
  shows "bc_ok t" "same_rest s t" "b < NBUF" "b \<notin> held s" "held t = insert b (held s)" "dirty t = dirty s"
    "bkey (bufs t b) = (d, n)" "buf_data (bufs t b) = content s d n" "views s t" "disk t = disk s" "writes t = writes s"
    "c \<in> held s \<union> dirty s \<Longrightarrow> c \<noteq> b \<Longrightarrow> bufs t c = bufs s c" "b \<in> dirty s \<Longrightarrow> bkey (bufs s b) = (d, n)"
  using assms unfolding got_def by blast+

lemma find_SomeD: "List.find P xs = Some x \<Longrightarrow> x \<in> set xs \<and> P x"
  by (induction xs) (auto split: if_splits)

lemma find_key:
  assumes "blist s xs" "bc_ok s" "d = 1"
  shows "List.find (\<lambda>b. buf_dev (bufs s b) = d \<and> buf_blockno (bufs s b) = n) xs = Some b \<longleftrightarrow> b < NBUF \<and> bkey (bufs s b) = (d, n)"
proof
  assume "List.find (\<lambda>b. buf_dev (bufs s b) = d \<and> buf_blockno (bufs s b) = n) xs = Some b"
  then have "b \<in> set xs" "buf_dev (bufs s b) = d \<and> buf_blockno (bufs s b) = n" by (auto dest: find_SomeD)
  then show "b < NBUF \<and> bkey (bufs s b) = (d, n)" using assms(1) by (auto simp: blist_def bkey_def)
next
  assume b: "b < NBUF \<and> bkey (bufs s b) = (d, n)"
  then have "b \<in> set xs" using assms(1) by (auto simp: blist_def)
  then obtain c where c: "List.find (\<lambda>b. buf_dev (bufs s b) = d \<and> buf_blockno (bufs s b) = n) xs = Some c"
    using b by (cases "List.find (\<lambda>b. buf_dev (bufs s b) = d \<and> buf_blockno (bufs s b) = n) xs") (auto simp: find_None_iff bkey_def)
  then have "c \<in> set xs" "buf_dev (bufs s c) = d" "buf_blockno (bufs s c) = n" by (auto dest: find_SomeD)
  then have "c < NBUF" "bkey (bufs s c) = (d, n)" using assms(1) by (auto simp: blist_def bkey_def)
  then have "b = c" using bc_okD(11) [OF assms(2), of b c] b assms(3) by (auto simp: bkey_def)
  then show "List.find (\<lambda>b. buf_dev (bufs s b) = d \<and> buf_blockno (bufs s b) = n) xs = Some b" using c by simp
qed

lemma bget_walks:
  assumes "bc_ok s" "d = 1"
  shows "b < NBUF \<Longrightarrow> bkey (bufs s b) = (d, n) \<Longrightarrow> bget_cached d n (s\<lparr>bcache_lock := l\<rparr>) (bnext s head) = Some (Some b)"
    and "(\<And>b. b < NBUF \<Longrightarrow> bkey (bufs s b) \<noteq> (d, n)) \<Longrightarrow> bget_cached d n (s\<lparr>bcache_lock := l\<rparr>) (bnext s head) = Some None"
    and "\<exists>u. bget_unused (s\<lparr>bcache_lock := l\<rparr>) (bprev s head) = Some u \<and>
      (case u of None \<Rightarrow> held s \<union> dirty s = {..<NBUF} | Some b \<Rightarrow> b < NBUF \<and> b \<notin> held s \<and> b \<notin> dirty s)"
proof -
  obtain xs where x: "blist s xs" using bc_okD(6) [OF assms(1)] by blast
  have hx: "head \<notin> set xs" "head \<notin> set (rev xs)" using x by (auto simp: blist_def)
  let ?s = "s\<lparr>bcache_lock := l\<rparr>"
  have ln: "links (bnext ?s) (xs @ [head])" "hd (xs @ [head]) = bnext s head"
    using x by (auto simp: blist_def links_Cons)
  have lp: "links (bprev ?s) (rev xs @ [head])" "hd (rev xs @ [head]) = bprev s head"
    using x by (auto simp: blist_def links_Cons)
  note c = bget_cached_find [OF ln(1) hx(1), of d n, unfolded ln(2)]
  show "bget_cached d n ?s (bnext s head) = Some (Some b)" if "b < NBUF" "bkey (bufs s b) = (d, n)"
    using c find_key [OF x assms] that by simp
  show "bget_cached d n ?s (bnext s head) = Some None" if "\<And>b. b < NBUF \<Longrightarrow> bkey (bufs s b) \<noteq> (d, n)"
    using c find_key [OF x assms, of n] that by (cases "List.find (\<lambda>b. buf_dev (bufs s b) = d \<and> buf_blockno (bufs s b) = n) xs") auto
  let ?u = "List.find (\<lambda>b. buf_refcnt (bufs s b) = 0 \<and> \<not> B_DIRTY (bufs s b)) (rev xs)"
  have "bget_unused ?s (bprev s head) = Some ?u" using bget_unused_find [OF lp(1) hx(2)] lp(2) by simp
  moreover have "case ?u of None \<Rightarrow> held s \<union> dirty s = {..<NBUF} | Some b \<Rightarrow> b < NBUF \<and> b \<notin> held s \<and> b \<notin> dirty s"
  proof (cases ?u)
    case None
    have "b \<in> held s \<union> dirty s" if "b < NBUF" for b
    proof -
      have "b \<in> set (rev xs)" using x that by (auto simp: blist_def)
      then have "\<not> (buf_refcnt (bufs s b) = 0 \<and> \<not> B_DIRTY (bufs s b))" using None unfolding find_None_iff by blast
      then show ?thesis using bc_okD(7) [OF assms(1) that] that by (auto simp: held_def dirty_def split: if_splits)
    qed
    then show ?thesis using None by (auto simp: held_def dirty_def)
  next
    case (Some b)
    then have "b \<in> set (rev xs)" "buf_refcnt (bufs s b) = 0 \<and> \<not> B_DIRTY (bufs s b)" by (auto dest: find_SomeD)
    moreover from this have "b < NBUF" using x by (auto simp: blist_def)
    ultimately show ?thesis using Some bc_okD(7) [OF assms(1), of b] by (auto simp: held_def dirty_def split: if_splits)
  qed
  ultimately show "\<exists>u. bget_unused ?s (bprev s head) = Some u \<and>
      (case u of None \<Rightarrow> held s \<union> dirty s = {..<NBUF} | Some b \<Rightarrow> b < NBUF \<and> b \<notin> held s \<and> b \<notin> dirty s)" by blast
qed

lemma held_upd: "held (buf_upd b f s) = (if b < NBUF \<and> sl_locked (buf_lock (f (bufs s b))) then insert b (held s) else held s - {b})"
  by (auto simp: held_def buf_upd_def)

lemma dirty_upd: "dirty (buf_upd b f s) = (if b < NBUF \<and> B_DIRTY (f (bufs s b)) then insert b (dirty s) else dirty s - {b})"
  by (auto simp: dirty_def buf_upd_def)

lemma buf_upd_simps [simp]:
  "bufs (buf_upd b f s) = (bufs s)(b := f (bufs s b))" "bcache_lock (buf_upd b f s) = bcache_lock s" "idelock (buf_upd b f s) = idelock s"
  "idequeue (buf_upd b f s) = idequeue s" "havedisk1 (buf_upd b f s) = havedisk1 s" "ide_fault (buf_upd b f s) = ide_fault s"
  "disk (buf_upd b f s) = disk s" "writes (buf_upd b f s) = writes s" "curpid (buf_upd b f s) = curpid s"
  "bnext (buf_upd b f s) = bnext s" "bprev (buf_upd b f s) = bprev s" "bstate.more (buf_upd b f s) = bstate.more s"
  by (simp_all add: buf_upd_def)

lemma blist_upd [simp]: "blist (buf_upd b f s) xs = blist s xs"
  by (simp add: blist_def)

text \<open>Replacing one buffer keeps the invariant when the new buffer satisfies its part of it.\<close>

lemma bc_ok_upd:
  assumes "bc_ok s" "b < NBUF" "buf_refcnt (f (bufs s b)) = (if sl_locked (buf_lock (f (bufs s b))) then 1 else 0)"
    "sl_locked (buf_lock (f (bufs s b))) \<Longrightarrow> sl_pid (buf_lock (f (bufs s b))) = curpid s \<and> B_VALID (f (bufs s b)) \<and> buf_dev (f (bufs s b)) = 1 \<and> buf_blockno (f (bufs s b)) < FSSIZE"
    "B_DIRTY (f (bufs s b)) \<Longrightarrow> B_VALID (f (bufs s b)) \<and> buf_dev (f (bufs s b)) = 1 \<and> buf_blockno (f (bufs s b)) < FSSIZE"
    "B_VALID (f (bufs s b)) \<Longrightarrow> \<not> B_DIRTY (f (bufs s b)) \<Longrightarrow> \<not> sl_locked (buf_lock (f (bufs s b))) \<Longrightarrow>
      buf_data (f (bufs s b)) = disk s (buf_dev (f (bufs s b)) AND 1) (buf_blockno (f (bufs s b)))"
    "B_VALID (f (bufs s b)) \<Longrightarrow> buf_dev (f (bufs s b)) = 1"
    "\<And>c. c < NBUF \<Longrightarrow> c \<noteq> b \<Longrightarrow> bkey (bufs s c) = bkey (f (bufs s b)) \<Longrightarrow> buf_dev (bufs s c) = 1 \<Longrightarrow> False"
  shows "bc_ok (buf_upd b f s)"
proof -
  note S = bc_okD [OF assms(1)]
  obtain xs where "blist s xs" using S(6) by blast
  then have xs: "blist (buf_upd b f s) xs" by simp
  show ?thesis
  proof (rule bc_okI [OF _ _ _ _ _ xs])
    fix c d assume c: "c < NBUF" "d < NBUF" "buf_dev (bufs (buf_upd b f s) c) = 1"
      "bkey (bufs (buf_upd b f s) c) = bkey (bufs (buf_upd b f s) d)"
    show "c = d"
    proof (rule ccontr)
      assume n: "c \<noteq> d"
      have dv: "buf_dev (bufs (buf_upd b f s) d) = 1" using c(3,4) by (simp add: bkey_def)
      consider "c = b" "d \<noteq> b" | "d = b" "c \<noteq> b" | "c \<noteq> b" "d \<noteq> b" using n by blast
      then show False
      proof cases
        case 1
        then show ?thesis using assms(8) [OF c(2)] c(4) dv by simp
      next
        case 2
        then show ?thesis using assms(8) [OF c(1)] c(3,4) by simp
      next
        case 3
        then show ?thesis using S(11) [OF c(1,2)] c(3,4) n by simp
      qed
    qed
  next
    fix c assume c: "c < NBUF"
    show "buf_refcnt (bufs (buf_upd b f s) c) = (if sl_locked (buf_lock (bufs (buf_upd b f s) c)) then 1 else 0)"
      using assms(3) S(7) [OF c] by (cases "c = b") simp_all
    show "sl_locked (buf_lock (bufs (buf_upd b f s) c)) \<Longrightarrow> sl_pid (buf_lock (bufs (buf_upd b f s) c)) = curpid (buf_upd b f s) \<and>
        B_VALID (bufs (buf_upd b f s) c) \<and> buf_dev (bufs (buf_upd b f s) c) = 1 \<and> buf_blockno (bufs (buf_upd b f s) c) < FSSIZE"
      using assms(4) S(8) [OF c] by (cases "c = b") simp_all
    show "B_DIRTY (bufs (buf_upd b f s) c) \<Longrightarrow>
        B_VALID (bufs (buf_upd b f s) c) \<and> buf_dev (bufs (buf_upd b f s) c) = 1 \<and> buf_blockno (bufs (buf_upd b f s) c) < FSSIZE"
      using assms(5) S(9) [OF c] by (cases "c = b") simp_all
    show "B_VALID (bufs (buf_upd b f s) c) \<Longrightarrow> \<not> B_DIRTY (bufs (buf_upd b f s) c) \<Longrightarrow> \<not> sl_locked (buf_lock (bufs (buf_upd b f s) c)) \<Longrightarrow>
        buf_data (bufs (buf_upd b f s) c) = disk (buf_upd b f s) (buf_dev (bufs (buf_upd b f s) c) AND 1) (buf_blockno (bufs (buf_upd b f s) c))"
      using assms(6) S(10) [OF c] by (cases "c = b") simp_all
    show "B_VALID (bufs (buf_upd b f s) c) \<Longrightarrow> buf_dev (bufs (buf_upd b f s) c) = 1"
      using assms(7) S(12) [OF c] by (cases "c = b") simp_all
  qed (use S(1-5) in simp_all)
qed

lemma got_upd:
  assumes ok: "bc_ok s" and d: "d = 1" "n < FSSIZE" and b: "b < NBUF" "b \<notin> held s"
    and y: "buf_lock (f (bufs s b)) = \<lparr>sl_locked = True, sl_pid = curpid s\<rparr>" "buf_refcnt (f (bufs s b)) = 1" "B_VALID (f (bufs s b))"
      "bkey (f (bufs s b)) = (d, n)" "B_DIRTY (f (bufs s b)) = B_DIRTY (bufs s b)" "buf_data (f (bufs s b)) = content s d n"
    and k: "bkey (bufs s b) = (d, n) \<or> b \<notin> dirty s \<and> (\<forall>c<NBUF. bkey (bufs s c) \<noteq> (d, n))"
  shows "got d n s b (buf_upd b f s)"
proof -
  let ?t = "buf_upd b f s"
  note S = bc_okD [OF ok]
  have dv: "buf_dev (f (bufs s b)) = d" "buf_blockno (f (bufs s b)) = n" using y(4) by (simp_all add: bkey_def)
  have ok': "bc_ok ?t"
  proof (rule bc_ok_upd [OF ok b(1)])
    fix c assume "c < NBUF" "c \<noteq> b" "bkey (bufs s c) = bkey (f (bufs s b))" "buf_dev (bufs s c) = 1"
    then show False using k S(11) [of c b] b(1) y(4) by auto
  qed (use y dv d S(9) [OF b(1)] in simp_all)
  have hd: "held ?t = insert b (held s)" using y b(1) by (simp add: held_upd)
  have dt: "dirty ?t = dirty s" using y(5) b(1) by (auto simp: dirty_upd dirty_def)
  have vw: "views s ?t" unfolding views_def
  proof (intro allI)
    fix n' define d' :: u32 where "d' = 1"
    note d' = d'_def
    consider "(d', n') = (d, n)" | "(d', n') \<noteq> (d, n)" "bkey (bufs s b) = (d', n')" | "(d', n') \<noteq> (d, n)" "bkey (bufs s b) \<noteq> (d', n')" by blast
    then have "content ?t d' n' = content s d' n'"
    proof cases
      case 1
      have "content ?t d n = buf_data (bufs ?t b)" by (rule content_valid [OF ok' b(1) _ _ d(1)]) (use y in simp_all)
      then show ?thesis using 1 y(6) by simp
    next
      case 2
      then have nd: "b \<notin> dirty s" using k by auto
      have u: "c = b" if "c < NBUF" "bkey (bufs s c) = (d', n')" for c using S(11) [OF that(1) b(1)] that(2) 2(2) d' by (simp add: bkey_def)
      have "content s d' n' = disk s (d' AND 1) n'"
        by (rule content_disk [OF ok]) (use u nd b in \<open>auto simp: dirty_def held_def\<close>)
      moreover have "content ?t d' n' = disk ?t (d' AND 1) n'"
      proof (rule content_disk [OF ok'])
        fix c assume c: "c < NBUF" "bkey (bufs ?t c) = (d', n')"
        have "c \<noteq> b" using c(2) y(4) 2(1) by auto
        then have False using u [of c] c by simp
        then show "\<not> B_DIRTY (bufs ?t c) \<and> \<not> sl_locked (buf_lock (bufs ?t c))" ..
      qed
      ultimately show ?thesis by simp
    next
      case 3
      then show ?thesis by (intro content_other) (use y(4) in auto)
    qed
    then show "content ?t 1 n' = content s 1 n'" by (simp add: d')
  qed
  show ?thesis unfolding got_def same_rest_def using ok' hd dt vw b y k by auto
qed

lemma buf_upd_twice: "buf_upd b f (buf_upd b g s) = buf_upd b (\<lambda>x. f (g x)) s"
  by (simp add: buf_upd_def)

lemma buf_upd_lock: "buf_upd b f (s\<lparr>bcache_lock := l\<rparr>) = (buf_upd b f s)\<lparr>bcache_lock := l\<rparr>"
  by (simp add: buf_upd_def)

lemma lock_back: "\<not> bcache_lock s \<Longrightarrow> s\<lparr>bcache_lock := False\<rparr> = s" "\<not> idelock s \<Longrightarrow> s\<lparr>idelock := False\<rparr> = s"
  by simp_all

lemma bget_hit:
  assumes ok: "bc_ok s" and d: "d = 1" and b: "b < NBUF" "b \<notin> held s" "bkey (bufs s b) = (d, n)"
  shows "bget d n s = Inr (b, buf_upd b (\<lambda>x. x\<lparr>buf_refcnt := 1, buf_lock := (buf_lock x)\<lparr>sl_locked := True, sl_pid := curpid s\<rparr>\<rparr>) s)"
proof -
  note S = bc_okD [OF ok]
  have r: "buf_refcnt (bufs s b) = 0" "\<not> sl_locked (buf_lock (bufs s b))" using S(7) [OF b(1)] b(1,2) by (auto simp: held_def)
  have "s\<lparr>bcache_lock := False\<rparr> = s" using S(1) by simp
  then show ?thesis using S(1) r bget_walks(1) [OF ok d b(1,3)]
    by (simp add: bget_def buf_acquiresleep_def Let_def buf_upd_def)
qed

lemma bget_miss:
  assumes ok: "bc_ok s" and d: "d = 1" and n: "\<forall>b<NBUF. bkey (bufs s b) \<noteq> (d, n)"
  shows "bget d n s = Inl (Panic ''bget: no buffers'') \<and> held s \<union> dirty s = {..<NBUF} \<or>
    (\<exists>b. b < NBUF \<and> b \<notin> held s \<and> b \<notin> dirty s \<and>
      bget d n s = Inr (b, buf_upd b (\<lambda>x. x\<lparr>buf_dev := d, buf_blockno := n, B_VALID := False, B_DIRTY := False, buf_refcnt := 1,
         buf_lock := (buf_lock x)\<lparr>sl_locked := True, sl_pid := curpid s\<rparr>\<rparr>) s))"
proof -
  note S = bc_okD [OF ok]
  have l: "s\<lparr>bcache_lock := False\<rparr> = s" using S(1) by simp
  obtain u where u: "bget_unused (s\<lparr>bcache_lock := True\<rparr>) (bprev s head) = Some u"
    "case u of None \<Rightarrow> held s \<union> dirty s = {..<NBUF} | Some b \<Rightarrow> b < NBUF \<and> b \<notin> held s \<and> b \<notin> dirty s"
    using bget_walks(3) [OF ok d] by blast
  show ?thesis
  proof (cases u)
    case None
    then show ?thesis using S(1) u bget_walks(2) [OF ok d] n by (simp add: bget_def Let_def)
  next
    case (Some b)
    then have b: "b < NBUF" "b \<notin> held s" "b \<notin> dirty s" using u(2) by simp_all
    then have "\<not> sl_locked (buf_lock (bufs s b))" by (auto simp: held_def)
    then have "bget d n s = Inr (b, buf_upd b (\<lambda>x. x\<lparr>buf_dev := d, buf_blockno := n, B_VALID := False, B_DIRTY := False, buf_refcnt := 1,
         buf_lock := (buf_lock x)\<lparr>sl_locked := True, sl_pid := curpid s\<rparr>\<rparr>) s)"
      using S(1) u Some bget_walks(2) [OF ok d] n l by (simp add: bget_def buf_acquiresleep_def Let_def buf_upd_def)
    then show ?thesis using b by blast
  qed
qed

lemma sleeplock_eq: "lk\<lparr>sl_locked := True, sl_pid := p\<rparr> = \<lparr>sl_locked = True, sl_pid = p\<rparr>"
  by (cases lk) simp

lemma bread_ok:
  assumes ok: "bc_ok s" and d: "d = 1" "n < FSSIZE" and nh: "\<And>b. b \<in> held s \<Longrightarrow> bkey (bufs s b) \<noteq> (d, n)"
  shows "bread d n s = Inl (Panic ''bget: no buffers'') \<and> held s \<union> dirty s = {..<NBUF} \<and> (\<forall>b<NBUF. bkey (bufs s b) \<noteq> (d, n)) \<or>
    (\<exists>b t. bread d n s = Inr (b, t) \<and> got d n s b t)"
proof -
  note S = bc_okD [OF ok]
  have rd: "\<exists>t. iderw b (buf_upd b g s) = Inr t \<and> got d n s b t"
    if b: "b < NBUF" "b \<notin> held s" "b \<notin> dirty s" and g: "buf_lock (g (bufs s b)) = \<lparr>sl_locked = True, sl_pid = curpid s\<rparr>"
      "bkey (g (bufs s b)) = (d, n)" "\<not> B_VALID (g (bufs s b))" "\<not> B_DIRTY (g (bufs s b))" "buf_refcnt (g (bufs s b)) = 1"
      and k: "bkey (bufs s b) = (d, n) \<or> (\<forall>c<NBUF. bkey (bufs s c) \<noteq> (d, n))" and dk: "content s d n = disk s (d AND 1) n" for b g
  proof -
    have g2: "buf_dev (g (bufs s b)) = d" "buf_blockno (g (bufs s b)) = n" using g(2) by (simp_all add: bkey_def)
    let ?f = "\<lambda>x. if B_DIRTY x then x\<lparr>B_VALID := True, B_DIRTY := False\<rparr>
        else x\<lparr>buf_data := disk s (buf_dev x AND 1) (buf_blockno x), B_VALID := True, B_DIRTY := False\<rparr>"
    have "iderw b (buf_upd b g s) = Inr (buf_upd b ?f (buf_upd b g s))"
      using iderw_eq [of "buf_upd b g s" b] g g2 S(2-5) d(2) by (simp add: holdingsleep_def)
    then have e: "iderw b (buf_upd b g s) = Inr (buf_upd b (\<lambda>x. ?f (g x)) s)" by (simp add: buf_upd_twice)
    have "got d n s b (buf_upd b (\<lambda>x. ?f (g x)) s)"
      by (rule got_upd [OF ok d b(1,2)]) (use g g2 b k dk in \<open>auto simp: bkey_def dirty_def\<close>)
    then show ?thesis using e by blast
  qed
  show ?thesis
  proof (cases "\<exists>b<NBUF. bkey (bufs s b) = (d, n)")
    case True
    then obtain b where b: "b < NBUF" "bkey (bufs s b) = (d, n)" by blast
    have bh: "b \<notin> held s" using nh b(2) by blast
    let ?g = "\<lambda>x. x\<lparr>buf_refcnt := 1, buf_lock := (buf_lock x)\<lparr>sl_locked := True, sl_pid := curpid s\<rparr>\<rparr>"
    note h = bget_hit [OF ok d(1) b(1) bh b(2)]
    show ?thesis
    proof (cases "B_VALID (bufs s b)")
      case v: True
      have "bread d n s = Inr (b, buf_upd b ?g s)" using h v by (simp add: bread_def)
      moreover have "got d n s b (buf_upd b ?g s)"
        by (rule got_upd [OF ok d b(1) bh]) (use b v content_valid [OF ok b(1) v b(2) d(1)] in \<open>auto simp: sleeplock_eq bkey_def\<close>)
      ultimately show ?thesis by blast
    next
      case False
      then have nd: "b \<notin> dirty s" using S(9) [OF b(1)] by (auto simp: dirty_def)
      have u: "c = b" if "c < NBUF" "bkey (bufs s c) = (d, n)" for c using S(11) [OF that(1) b(1)] that(2) b(2) d(1) by (simp add: bkey_def)
      have "content s d n = disk s (d AND 1) n" by (rule content_disk [OF ok]) (use u nd bh b(1) in \<open>auto simp: dirty_def held_def\<close>)
      then have "\<exists>t. iderw b (buf_upd b ?g s) = Inr t \<and> got d n s b t"
        by (intro rd [OF b(1) bh nd]) (use b False nd in \<open>auto simp: sleeplock_eq bkey_def dirty_def\<close>)
      then show ?thesis using h False by (auto simp: bread_def)
    qed
  next
    case False
    then have k: "\<forall>b<NBUF. bkey (bufs s b) \<noteq> (d, n)" by blast
    have dk: "content s d n = disk s (d AND 1) n" by (rule content_disk [OF ok]) (use k in blast)
    from bget_miss [OF ok d(1) k] show ?thesis
    proof (elim disjE exE conjE)
      fix b assume b: "b < NBUF" "b \<notin> held s" "b \<notin> dirty s" and h: "bget d n s = Inr (b, buf_upd b (\<lambda>x. x\<lparr>buf_dev := d, buf_blockno := n,
         B_VALID := False, B_DIRTY := False, buf_refcnt := 1, buf_lock := (buf_lock x)\<lparr>sl_locked := True, sl_pid := curpid s\<rparr>\<rparr>) s)"
        (is "_ = Inr (b, buf_upd b ?g s)")
      have "\<exists>t. iderw b (buf_upd b ?g s) = Inr t \<and> got d n s b t"
        by (intro rd [OF b]) (use k dk in \<open>auto simp: sleeplock_eq bkey_def\<close>)
      then show ?thesis using h by (auto simp: bread_def)
    qed (use k in \<open>auto simp: bread_def\<close>)
  qed
qed

text \<open>A change of the buffers that keeps their keys and validity changes the view where it changes the data.\<close>

lemma content_upd:
  assumes "bc_ok s" "bc_ok (buf_upd b f s)" "b < NBUF" "B_VALID (bufs s b)" "B_VALID (f (bufs s b))" "bkey (f (bufs s b)) = bkey (bufs s b)"
  shows "content (buf_upd b f s) 1 n = (if n = buf_blockno (bufs s b) then buf_data (f (bufs s b)) else content s 1 n)"
proof -
  have d: "buf_dev (bufs s b) = 1" using bc_okD(12) [OF assms(1,3,4)] .
  show ?thesis
  proof (cases "n = buf_blockno (bufs s b)")
    case True
    have k: "bkey (bufs (buf_upd b f s) b) = (1, n)" using assms(6) d True by (simp add: bkey_def)
    have "content (buf_upd b f s) 1 n = buf_data (bufs (buf_upd b f s) b)"
      by (rule content_valid [OF assms(2,3) _ k]) (use assms(5) in simp_all)
    then show ?thesis using True by simp
  next
    case False
    have "content (buf_upd b f s) 1 n = content s 1 n"
    proof (rule content_other)
      fix c assume "c < NBUF" "bkey (bufs s c) = (1, n) \<or> bkey (bufs (buf_upd b f s) c) = (1, n)"
      then have "c \<noteq> b" using assms(6) False by (auto simp: bkey_def split: if_splits)
      then show "B_VALID (bufs (buf_upd b f s) c) = B_VALID (bufs s c) \<and> bkey (bufs (buf_upd b f s) c) = bkey (bufs s c) \<and>
          buf_data (bufs (buf_upd b f s) c) = buf_data (bufs s c)" by simp
    qed simp
    then show ?thesis using False by simp
  qed
qed

definition modify :: "nat \<Rightarrow> (block \<Rightarrow> block) \<Rightarrow> 'a bstate_scheme \<Rightarrow> 'a bstate_scheme" where
  "modify b g = buf_upd b (\<lambda>x. x\<lparr>buf_data := g (buf_data x)\<rparr>)"

definition mark_dirty :: "nat \<Rightarrow> 'a bstate_scheme \<Rightarrow> 'a bstate_scheme" where
  "mark_dirty b = buf_upd b (\<lambda>x. x\<lparr>B_DIRTY := True\<rparr>)"

lemma heldD: "b \<in> held s \<Longrightarrow> bc_ok s \<Longrightarrow> b < NBUF \<and> sl_locked (buf_lock (bufs s b)) \<and> sl_pid (buf_lock (bufs s b)) = curpid s \<and>
    B_VALID (bufs s b) \<and> buf_dev (bufs s b) = 1 \<and> buf_blockno (bufs s b) < FSSIZE \<and> bkey (bufs s b) = (1, buf_blockno (bufs s b)) \<and>
    content s 1 (buf_blockno (bufs s b)) = buf_data (bufs s b)"
proof -
  assume b: "b \<in> held s" and ok: "bc_ok s"
  have h: "b < NBUF" "sl_locked (buf_lock (bufs s b))" using b by (auto simp: held_def)
  note H = bc_okD(8) [OF ok h]
  have k: "bkey (bufs s b) = (1, buf_blockno (bufs s b))" using H by (simp add: bkey_def)
  have "content s 1 (buf_blockno (bufs s b)) = buf_data (bufs s b)" by (rule content_valid [OF ok h(1) _ k]) (use H in simp_all)
  then show ?thesis using h H k by simp
qed

lemma held_same_key: "bc_ok s \<Longrightarrow> b \<in> held s \<Longrightarrow> c < NBUF \<Longrightarrow> bkey (bufs s c) = bkey (bufs s b) \<Longrightarrow> c = b"
  using heldD [of b s] bc_okD(11) [of s b c] by auto

lemma modify_ok:
  assumes ok: "bc_ok s" and b: "b \<in> held s"
  shows "bc_ok (modify b g s)" "held (modify b g s) = held s" "dirty (modify b g s) = dirty s" "same_rest s (modify b g s)"
    "content (modify b g s) 1 n = (if n = buf_blockno (bufs s b) then g (content s 1 n) else content s 1 n)"
    "disk (modify b g s) = disk s" "writes (modify b g s) = writes s" "bufs (modify b g s) = (bufs s)(b := (bufs s b)\<lparr>buf_data := g (buf_data (bufs s b))\<rparr>)"
proof -
  note H = heldD [OF b ok]
  show ok': "bc_ok (modify b g s)" unfolding modify_def
  proof (rule bc_ok_upd [OF ok])
    fix c assume "c < NBUF" "c \<noteq> b" "bkey (bufs s c) = bkey ((bufs s b)\<lparr>buf_data := g (buf_data (bufs s b))\<rparr>)"
    then show False using held_same_key [OF ok b, of c] by (simp add: bkey_def)
  qed (use H bc_okD(7) [OF ok] in simp_all)
  show "held (modify b g s) = held s" "dirty (modify b g s) = dirty s" "same_rest s (modify b g s)"
    "disk (modify b g s) = disk s" "writes (modify b g s) = writes s" "bufs (modify b g s) = (bufs s)(b := (bufs s b)\<lparr>buf_data := g (buf_data (bufs s b))\<rparr>)"
    using H b by (auto simp: modify_def held_upd dirty_upd same_rest_def dirty_def)
  show "content (modify b g s) 1 n = (if n = buf_blockno (bufs s b) then g (content s 1 n) else content s 1 n)"
    unfolding modify_def using content_upd [OF ok ok' [unfolded modify_def], of n] H by (simp add: bkey_def)
qed

lemma mark_dirty_ok:
  assumes ok: "bc_ok s" and b: "b \<in> held s"
  shows "bc_ok (mark_dirty b s)" "held (mark_dirty b s) = held s" "dirty (mark_dirty b s) = insert b (dirty s)" "same_rest s (mark_dirty b s)"
    "views s (mark_dirty b s)" "disk (mark_dirty b s) = disk s" "writes (mark_dirty b s) = writes s"
    "bufs (mark_dirty b s) = (bufs s)(b := (bufs s b)\<lparr>B_DIRTY := True\<rparr>)"
proof -
  note H = heldD [OF b ok]
  show ok': "bc_ok (mark_dirty b s)" unfolding mark_dirty_def
  proof (rule bc_ok_upd [OF ok])
    fix c assume "c < NBUF" "c \<noteq> b" "bkey (bufs s c) = bkey ((bufs s b)\<lparr>B_DIRTY := True\<rparr>)"
    then show False using held_same_key [OF ok b, of c] by (simp add: bkey_def)
  qed (use H bc_okD(7) [OF ok] in simp_all)
  show "held (mark_dirty b s) = held s" "dirty (mark_dirty b s) = insert b (dirty s)" "same_rest s (mark_dirty b s)"
    "disk (mark_dirty b s) = disk s" "writes (mark_dirty b s) = writes s"
    "bufs (mark_dirty b s) = (bufs s)(b := (bufs s b)\<lparr>B_DIRTY := True\<rparr>)"
    using H b by (auto simp: mark_dirty_def held_upd dirty_upd same_rest_def dirty_def)
  show "views s (mark_dirty b s)"
    unfolding mark_dirty_def views_def using content_upd [OF ok ok' [unfolded mark_dirty_def]] H by (simp add: bkey_def)
qed

definition disk_put :: "u32 \<Rightarrow> block \<Rightarrow> (u32 \<Rightarrow> u32 \<Rightarrow> block) \<Rightarrow> u32 \<Rightarrow> u32 \<Rightarrow> block" where
  "disk_put n v D = D(1 := (D 1)(n := v))"

lemma disk_put_apply: "disk_put n v D 1 m = (if m = n then v else D 1 m)"
  by (simp add: disk_put_def)

lemma bwrite_ok:
  assumes ok: "bc_ok s" and b: "b \<in> held s"
  shows "\<exists>t. bwrite b s = Inr t \<and> bc_ok t \<and> held t = held s \<and> dirty t = dirty s - {b} \<and> same_rest s t \<and> views s t \<and>
    bufs t = (bufs s)(b := (bufs s b)\<lparr>B_DIRTY := False\<rparr>) \<and> disk t = disk_put (buf_blockno (bufs s b)) (buf_data (bufs s b)) (disk s) \<and>
    writes t = writes s @ [(1, buf_blockno (bufs s b), buf_data (bufs s b))]"
proof -
  note H = heldD [OF b ok] and S = bc_okD [OF ok]
  let ?n = "buf_blockno (bufs s b)" and ?v = "buf_data (bufs s b)"
  let ?t = "(buf_upd b (\<lambda>x. x\<lparr>B_DIRTY := False\<rparr>) s)\<lparr>disk := disk_put ?n ?v (disk s), writes := writes s @ [(1, ?n, ?v)]\<rparr>"
  have x: "(bufs s b)\<lparr>B_VALID := True, B_DIRTY := False\<rparr> = (bufs s b)\<lparr>B_DIRTY := False\<rparr>" using H by simp
  have "bwrite b s = Inr (buf_upd b (\<lambda>x. x\<lparr>B_VALID := True, B_DIRTY := False\<rparr>) (s\<lparr>disk := disk_put ?n ?v (disk s), writes := writes s @ [(1, ?n, ?v)]\<rparr>))"
    using iderw_eq [of "buf_upd b (\<lambda>x. x\<lparr>B_DIRTY := True\<rparr>) s" b] H S(2-5)
    by (simp add: bwrite_def holdingsleep_def disk_put_def)
  then have e: "bwrite b s = Inr ?t" unfolding buf_upd_def by (simp add: x)
  have bt: "bufs ?t = (bufs s)(b := (bufs s b)\<lparr>B_DIRTY := False\<rparr>)" by simp
  obtain xs where xs: "blist s xs" using S(6) by blast
  have ky: "bkey (bufs ?t c) = bkey (bufs s c)" "buf_dev (bufs ?t c) = buf_dev (bufs s c)" "buf_blockno (bufs ?t c) = buf_blockno (bufs s c)"
    "B_VALID (bufs ?t c) = B_VALID (bufs s c)" "buf_data (bufs ?t c) = buf_data (bufs s c)" "buf_lock (bufs ?t c) = buf_lock (bufs s c)"
    "buf_refcnt (bufs ?t c) = buf_refcnt (bufs s c)" for c by (simp_all add: bkey_def)
  have ok': "bc_ok ?t"
  proof (rule bc_okI [where xs = xs])
    show "blist ?t xs" using xs by (simp add: blist_def)
    fix c assume c: "c < NBUF"
    show "buf_refcnt (bufs ?t c) = (if sl_locked (buf_lock (bufs ?t c)) then 1 else 0)" using S(7) [OF c] unfolding ky .
    show "sl_locked (buf_lock (bufs ?t c)) \<Longrightarrow> sl_pid (buf_lock (bufs ?t c)) = curpid ?t \<and> B_VALID (bufs ?t c) \<and>
        buf_dev (bufs ?t c) = 1 \<and> buf_blockno (bufs ?t c) < FSSIZE" using S(8) [OF c] unfolding ky by simp
    show "B_DIRTY (bufs ?t c) \<Longrightarrow> B_VALID (bufs ?t c) \<and> buf_dev (bufs ?t c) = 1 \<and> buf_blockno (bufs ?t c) < FSSIZE"
      using S(9) [OF c] unfolding ky by (cases "c = b") simp_all
    show "B_VALID (bufs ?t c) \<Longrightarrow> buf_dev (bufs ?t c) = 1" using S(12) [OF c] unfolding ky .
    show "buf_data (bufs ?t c) = disk ?t (buf_dev (bufs ?t c) AND 1) (buf_blockno (bufs ?t c))"
      if v: "B_VALID (bufs ?t c)" "\<not> B_DIRTY (bufs ?t c)" "\<not> sl_locked (buf_lock (bufs ?t c))"
    proof -
      have cb: "c \<noteq> b" using v(3) H unfolding ky by auto
      have d1: "buf_dev (bufs s c) = 1" using S(12) [OF c] v(1) unfolding ky .
      have "buf_blockno (bufs s c) \<noteq> ?n"
      proof
        assume "buf_blockno (bufs s c) = ?n"
        then have "bkey (bufs s c) = bkey (bufs s b)" using d1 H by (simp add: bkey_def)
        then show False using held_same_key [OF ok b c] cb by blast
      qed
      moreover have "buf_data (bufs s c) = disk s (buf_dev (bufs s c) AND 1) (buf_blockno (bufs s c))"
        using S(10) [OF c] v cb unfolding ky by simp
      ultimately show ?thesis unfolding ky d1 by (simp add: disk_put_apply)
    qed
    fix c' assume "c' < NBUF" "buf_dev (bufs ?t c) = 1" "bkey (bufs ?t c) = bkey (bufs ?t c')"
    then show "c = c'" using S(11) [OF c, of c'] unfolding ky by blast
  qed (use S(1-5) in simp_all)
  have "views s ?t" unfolding views_def
  proof
    fix n
    show "content ?t 1 n = content s 1 n"
    proof (cases "n = ?n")
      case True
      have "content ?t 1 n = buf_data (bufs ?t b)" by (rule content_valid [OF ok']) (use H True in \<open>simp_all add: bkey_def\<close>)
      then show ?thesis using H True by simp
    next
      case False
      then show ?thesis by (intro content_other) (use ky in \<open>simp_all add: disk_put_apply\<close>)
    qed
  qed
  moreover have "held ?t = held s" "dirty ?t = dirty s - {b}" by (auto simp: held_def dirty_def)
  ultimately show ?thesis using e ok' by (intro exI [of _ ?t]) (simp add: same_rest_def)
qed

lemma brelse_list_lock: "brelse_list b (s\<lparr>bcache_lock := l\<rparr>) = (brelse_list b s)\<lparr>bcache_lock := l\<rparr>"
  by (simp add: brelse_list_def Let_def)

lemma brelse_eq:
  assumes "holdingsleep (curpid s) (buf_lock (bufs s b))" "buf_refcnt (bufs s b) = 1" "\<not> bcache_lock s"
  shows "brelse b s = Inr (brelse_list b (buf_upd b (\<lambda>x. x\<lparr>buf_lock := (buf_lock x)\<lparr>sl_locked := False, sl_pid := 0\<rparr>, buf_refcnt := 0\<rparr>) s))"
proof -
  let ?lk = "(buf_lock (bufs s b))\<lparr>sl_locked := False, sl_pid := 0\<rparr>"
  let ?s1 = "buf_upd b (\<lambda>x. x\<lparr>buf_lock := ?lk\<rparr>) s"
  have u: "buf_upd b (\<lambda>x. x\<lparr>buf_refcnt := buf_refcnt x - 1\<rparr>) ?s1 =
      buf_upd b (\<lambda>x. x\<lparr>buf_lock := (buf_lock x)\<lparr>sl_locked := False, sl_pid := 0\<rparr>, buf_refcnt := 0\<rparr>) s" (is "_ = ?u")
    using assms(2) by (simp add: buf_upd_def)
  have r0: "buf_refcnt (bufs ?s1 b) - 1 = 0" using assms(2) by simp
  have "brelse b s = Inr ((brelse_list b ((buf_upd b (\<lambda>x. x\<lparr>buf_refcnt := buf_refcnt x - 1\<rparr>) ?s1)\<lparr>bcache_lock := True\<rparr>))\<lparr>bcache_lock := False\<rparr>)"
    using assms r0 by (simp add: brelse_def Let_def buf_upd_lock)
  also have "\<dots> = Inr ((brelse_list b (?u\<lparr>bcache_lock := True\<rparr>))\<lparr>bcache_lock := False\<rparr>)" unfolding u ..
  also have "\<dots> = Inr (brelse_list b ?u)" using assms(3) lock_back(1) [of "brelse_list b ?u"] by (simp add: brelse_list_lock)
  finally show ?thesis .
qed

lemma brelse_ok:
  assumes ok: "bc_ok s" and b: "b \<in> held s" and c: "b \<in> dirty s \<or> buf_data (bufs s b) = disk s 1 (buf_blockno (bufs s b))"
  shows "\<exists>t. brelse b s = Inr t \<and> bc_ok t \<and> held t = held s - {b} \<and> dirty t = dirty s \<and> same_rest s t \<and> views s t \<and>
    bufs t = (bufs s)(b := (bufs s b)\<lparr>buf_lock := (buf_lock (bufs s b))\<lparr>sl_locked := False, sl_pid := 0\<rparr>, buf_refcnt := 0\<rparr>) \<and>
    disk t = disk s \<and> writes t = writes s"
proof -
  note H = heldD [OF b ok] and S = bc_okD [OF ok]
  let ?f = "\<lambda>x. x\<lparr>buf_lock := (buf_lock x)\<lparr>sl_locked := False, sl_pid := 0\<rparr>, buf_refcnt := 0\<rparr>"
  let ?u = "buf_upd b ?f s"
  have r: "buf_refcnt (bufs s b) = 1" using S(7) H by auto
  have e: "brelse b s = Inr (brelse_list b ?u)"
    by (rule brelse_eq) (use H r S(1) in \<open>simp_all add: holdingsleep_def\<close>)
  have ou: "bc_ok ?u"
  proof (rule bc_ok_upd [OF ok])
    fix x assume "x < NBUF" "x \<noteq> b" "bkey (bufs s x) = bkey (?f (bufs s b))"
    then show False using held_same_key [OF ok b, of x] by (simp add: bkey_def)
  qed (use H c in \<open>simp_all add: dirty_def\<close>)
  obtain xs where "blist ?u xs" using bc_okD(6) [OF ou] by blast
  moreover have "b \<in> set xs" using calculation H by (auto simp: blist_def)
  ultimately obtain us vs where "blist ?u (us @ b # vs)" by (auto simp: in_set_conv_decomp)
  then have bl: "blist (brelse_list b ?u) (b # us @ vs)" by (rule brelse_list_front)
  have ok': "bc_ok (brelse_list b ?u)" using ou bl unfolding bc_ok_def brelse_list_frame by blast
  have vw: "views s (brelse_list b ?u)"
  proof -
    have "content (brelse_list b ?u) 1 n = content ?u 1 n" for n by (simp only: content_def brelse_list_frame)
    then show ?thesis unfolding views_def using content_upd [OF ok ou] H by (simp add: bkey_def)
  qed
  have "held (brelse_list b ?u) = held s - {b}" "dirty (brelse_list b ?u) = dirty s"
    by (auto simp: held_def split: if_splits) (auto simp: dirty_def split: if_splits)
  then show ?thesis using e ok' vw by (intro exI [of _ "brelse_list b ?u"]) (simp add: same_rest_def)
qed

section \<open>The blocks that wait to be written\<close>

definition dirtyb :: "'a bstate_scheme \<Rightarrow> u32 set" where
  "dirtyb s = (\<lambda>b. buf_blockno (bufs s b)) ` dirty s"

lemma dirty_inj: "bc_ok s \<Longrightarrow> inj_on (\<lambda>b. buf_blockno (bufs s b)) (dirty s)"
proof (rule inj_onI)
  fix b c assume h: "bc_ok s" "b \<in> dirty s" "c \<in> dirty s" "buf_blockno (bufs s b) = buf_blockno (bufs s c)"
  then have "buf_dev (bufs s b) = 1" "buf_dev (bufs s c) = 1" "b < NBUF" "c < NBUF" using bc_okD(9) [of s b] bc_okD(9) [of s c] by (auto simp: dirty_def)
  then show "b = c" using bc_okD(11) [OF h(1), of b c] h(4) by (simp add: bkey_def)
qed

lemma card_dirtyb: "bc_ok s \<Longrightarrow> card (dirtyb s) = card (dirty s)"
  by (simp add: dirtyb_def card_image dirty_inj)

lemma finite_dirty [simp]: "finite (dirty s)" "finite (dirtyb s)" "finite (held s)"
  by (simp_all add: dirty_def dirtyb_def held_def)

lemma got_dirtyb: "got d n s b t \<Longrightarrow> dirtyb t = dirtyb s"
proof -
  assume g: "got d n s b t"
  note G = gotD [OF g]
  have "buf_blockno (bufs t c) = buf_blockno (bufs s c)" if "c \<in> dirty s" for c
    using that G(7) G(12) [of c] G(13) by (cases "c = b") (auto simp: bkey_def)
  then show ?thesis unfolding dirtyb_def G(6) by auto
qed

text \<open>A block is cached dirty exactly when it is in \<open>dirtyb\<close>; then reading it finds the buffer.\<close>

lemma dirtyb_key: "bc_ok s \<Longrightarrow> n \<in> dirtyb s \<Longrightarrow> \<exists>b<NBUF. bkey (bufs s b) = (1, n)"
  using bc_okD(9) [of s] by (auto simp: dirtyb_def dirty_def bkey_def)

lemma bread_succeeds:
  assumes ok: "bc_ok s" and n: "n < FSSIZE" and nh: "\<And>b. b \<in> held s \<Longrightarrow> buf_blockno (bufs s b) \<noteq> n"
    and room: "n \<in> dirtyb s \<or> card (held s) + card (dirtyb s) < NBUF"
  shows "\<exists>b t. bread 1 n s = Inr (b, t) \<and> got 1 n s b t"
proof -
  have nh': "bkey (bufs s b) \<noteq> (1, n)" if "b \<in> held s" for b using nh [OF that] by (simp add: bkey_def)
  have "\<not> (held s \<union> dirty s = {..<NBUF} \<and> (\<forall>b<NBUF. bkey (bufs s b) \<noteq> (1, n)))"
  proof
    assume h: "held s \<union> dirty s = {..<NBUF} \<and> (\<forall>b<NBUF. bkey (bufs s b) \<noteq> (1, n))"
    then have "n \<notin> dirtyb s" using dirtyb_key [OF ok] by blast
    moreover have "NBUF = card (held s \<union> dirty s)" using h by simp
    then have "NBUF \<le> card (held s) + card (dirtyb s)" using card_Un_le [of "held s" "dirty s"] card_dirtyb [OF ok] by simp
    ultimately show False using room by simp
  qed
  then show ?thesis using bread_ok [OF ok refl n nh'] by blast
qed

section \<open>The cache at boot\<close>

text \<open>The state before \<open>binit\<close>: static memory is zero.\<close>

definition zero_buf :: buf where
  "zero_buf = \<lparr>B_VALID = False, B_DIRTY = False, buf_dev = 0, buf_blockno = 0, buf_lock = initsleeplock, buf_refcnt = 0, buf_data = (\<lambda>_. 0)\<rparr>"

definition boot_bstate :: "(u32 \<Rightarrow> u32 \<Rightarrow> block) \<Rightarrow> 'a \<Rightarrow> 'a bstate_scheme" where
  "boot_bstate D x = \<lparr>curpid = 1, bcache_lock = False, bufs = (\<lambda>_. zero_buf), bnext = (\<lambda>_. 0), bprev = (\<lambda>_. 0), idelock = False,
     idequeue = [], havedisk1 = True, ide_fault = False, disk = D, writes = [], \<dots> = x\<rparr>"

lemma binit_frame:
  "fold binit_buf bs s = t \<Longrightarrow> (\<And>b. b \<in> set bs \<Longrightarrow> buf_lock (bufs s b) = initsleeplock) \<Longrightarrow> bufs t = bufs s \<and> bcache_lock t = bcache_lock s \<and>
   idelock t = idelock s \<and> idequeue t = idequeue s \<and> havedisk1 t = havedisk1 s \<and> ide_fault t = ide_fault s \<and>
   disk t = disk s \<and> writes t = writes s \<and> curpid t = curpid s \<and> bstate.more t = bstate.more s"
proof (induction bs arbitrary: s)
  case (Cons b bs)
  have l: "buf_lock (bufs s b) = initsleeplock" using Cons.prems(2) by simp
  have "(bufs s)(b := (bufs s b)\<lparr>buf_lock := initsleeplock\<rparr>) = bufs s" using l by (simp add: fun_upd_idem)
  then have e: "bufs (binit_buf b s) = bufs s" by (simp add: binit_buf_def Let_def)
  have "fold binit_buf bs (binit_buf b s) = t" using Cons.prems(1) by simp
  from Cons.IH [OF this] have "bufs t = bufs (binit_buf b s) \<and> bcache_lock t = bcache_lock (binit_buf b s) \<and>
     idelock t = idelock (binit_buf b s) \<and> idequeue t = idequeue (binit_buf b s) \<and> havedisk1 t = havedisk1 (binit_buf b s) \<and>
     ide_fault t = ide_fault (binit_buf b s) \<and> disk t = disk (binit_buf b s) \<and> writes t = writes (binit_buf b s) \<and>
     curpid t = curpid (binit_buf b s) \<and> bstate.more t = bstate.more (binit_buf b s)" using e Cons.prems(2) by simp
  then show ?case unfolding e by (simp add: binit_buf_def Let_def)
qed simp

lemma boot_ok:
  fixes x :: 'a and D :: "u32 \<Rightarrow> u32 \<Rightarrow> block"
  defines "s \<equiv> binit (boot_bstate D x)"
  shows "bc_ok s" "held s = {}" "dirty s = {}" "disk s = D" "writes s = []" "bstate.more s = x" "content s 1 n = D 1 n"
proof -
  let ?s0 = "(boot_bstate D x)\<lparr>bcache_lock := False, bprev := (bprev (boot_bstate D x))(head := head), bnext := (bnext (boot_bstate D x))(head := head)\<rparr>"
  have "fold binit_buf [0..<NBUF] ?s0 = s" by (simp add: s_def binit_def)
  from binit_frame [OF this] have F: "bufs s = (\<lambda>_. zero_buf)" "\<not> bcache_lock s" "\<not> idelock s" "idequeue s = []" "havedisk1 s" "\<not> ide_fault s"
    "disk s = D" "writes s = []" "bstate.more s = x" by (simp_all add: boot_bstate_def zero_buf_def)
  have bl: "blist s (rev [0..<NBUF])" unfolding s_def by (rule binit_list)
  show ok: "bc_ok s"
    by (rule bc_okI [OF F(2-6) bl]) (simp_all add: F(1) zero_buf_def initsleeplock_def)
  show "held s = {}" "dirty s = {}" "disk s = D" "writes s = []" "bstate.more s = x"
    using F by (simp_all add: held_def dirty_def zero_buf_def initsleeplock_def)
  show "content s 1 n = D 1 n" using content_disk [OF ok, of 1 n] F by (simp add: zero_buf_def initsleeplock_def)
qed

section \<open>Properties\<close>

text \<open>
  C27: Reading a block of the disk. From a state that satisfies the invariant, \<open>bread\<close> of a block that
  the caller does not hold already returns a locked buffer with the block's current contents, which
  is what the last write of it left, and changes no other buffer in use, no view of any block and not the disk; or it panics, and then every
  buffer is locked or dirty and none holds the block.
\<close>

theorem bread_returns_block:
  assumes "bc_ok s" "n < FSSIZE" "\<And>b. b \<in> held s \<Longrightarrow> bkey (bufs s b) \<noteq> (1, n)"
  shows "bread 1 n s = Inl (Panic ''bget: no buffers'') \<and> held s \<union> dirty s = {..<NBUF} \<and> (\<forall>b<NBUF. bkey (bufs s b) \<noteq> (1, n)) \<or>
    (\<exists>b t. bread 1 n s = Inr (b, t) \<and> got 1 n s b t)"
  by (rule bread_ok [OF assms(1) refl assms(2,3)])

text \<open>
  C28: The two disk drivers agree: for a locked buffer of disk 1 with a legal block number that needs
  reading or writing, the interrupt-driven driver with an empty queue and a disk without faults leaves
  the same state as the memory disk of the same size.
\<close>

theorem disk_drivers_agree:
  assumes "holdingsleep (curpid s) (buf_lock (bufs s b))" "\<not> (B_VALID (bufs s b) \<and> \<not> B_DIRTY (bufs s b))"
    "buf_dev (bufs s b) = 1" "buf_blockno (bufs s b) < FSSIZE" "havedisk1 s" "\<not> ide_fault s" "\<not> idelock s" "idequeue s = []"
  shows "\<exists>t. iderw b s = Inr t \<and> memide_iderw FSSIZE b s = Inr t"
proof -
  have d: "buf_dev (bufs s b) AND 1 = 1" using assms(3) by simp
  show ?thesis
  proof (cases "B_DIRTY (bufs s b)")
    case True
    let ?x = "bufs s b"
    let ?t = "s\<lparr>bufs := (bufs s)(b := ?x\<lparr>B_VALID := True, B_DIRTY := False\<rparr>),
      disk := (disk s)(1 := (disk s 1)(buf_blockno ?x := buf_data ?x)), writes := writes s @ [(1, buf_blockno ?x, buf_data ?x)]\<rparr>"
    have "iderw b s = Inr ?t" using iderw_eq [OF assms(1,2,5,7,8,6,4)] True d by (simp add: buf_upd_def)
    moreover have "memide_iderw FSSIZE b s = Inr ?t"
    proof -
      have e: "?x\<lparr>B_DIRTY := False, B_VALID := True\<rparr> = ?x\<lparr>B_VALID := True, B_DIRTY := False\<rparr>" by (cases ?x) simp
      have "memide_iderw FSSIZE b s = Inr (s\<lparr>disk := (disk s)(1 := (disk s 1)(buf_blockno ?x := buf_data ?x)),
          writes := writes s @ [(1, buf_blockno ?x, buf_data ?x)], bufs := (bufs s)(b := ?x\<lparr>B_DIRTY := False, B_VALID := True\<rparr>)\<rparr>)"
        using assms(1-4) True by (simp add: memide_iderw_def Let_def buf_upd_def not_le)
      then show ?thesis unfolding e by simp
    qed
    ultimately show ?thesis by blast
  next
    case False
    let ?x = "bufs s b"
    let ?t = "s\<lparr>bufs := (bufs s)(b := ?x\<lparr>buf_data := disk s 1 (buf_blockno ?x), B_VALID := True, B_DIRTY := False\<rparr>)\<rparr>"
    have "iderw b s = Inr ?t" using iderw_eq [OF assms(1,2,5,7,8,6,4)] False assms(3) by (simp add: buf_upd_def)
    moreover have "memide_iderw FSSIZE b s = Inr ?t"
    proof -
      have "?x\<lparr>buf_data := disk s 1 (buf_blockno ?x), B_VALID := True\<rparr> = ?x\<lparr>buf_data := disk s 1 (buf_blockno ?x), B_VALID := True, B_DIRTY := False\<rparr>"
        (is "?y = ?z") using False by (cases ?x) simp
      then have e: "(bufs s)(b := ?y) = (bufs s)(b := ?z)" by (rule arg_cong)
      have "memide_iderw FSSIZE b s = Inr (s\<lparr>bufs := (bufs s)(b := ?y)\<rparr>)"
        using assms(1-4) False by (simp add: memide_iderw_def Let_def buf_upd_def not_le)
      then show ?thesis unfolding e .
    qed
    ultimately show ?thesis by blast
  qed
qed

section \<open>Witnesses\<close>

definition demo_disk :: "u32 \<Rightarrow> u32 \<Rightarrow> block" where
  "demo_disk d n i = (if d = 1 \<and> n = 7 then of_nat i else 0)"

theorem bread_returns_block_witness:
  "\<exists>b t. bread 1 7 (binit (boot_bstate demo_disk ())) = Inr (b, t) \<and> got 1 7 (binit (boot_bstate demo_disk ())) b t"
proof -
  note B = boot_ok [of demo_disk "()"]
  have "0 \<in> {..<NBUF}" by (simp add: NBUF_def)
  then have "held (binit (boot_bstate demo_disk ())) \<union> dirty (binit (boot_bstate demo_disk ())) \<noteq> {..<NBUF}"
    using B(2,3) by auto
  then show ?thesis using bread_returns_block [OF B(1), of 7] B(2) by (simp add: FSSIZE_def)
qed

definition demo_held :: "unit bstate_scheme" where
  "demo_held = (boot_bstate demo_disk ())\<lparr>bufs := (\<lambda>_. zero_buf\<lparr>buf_dev := 1, buf_blockno := 7, buf_lock := \<lparr>sl_locked = True, sl_pid = 1\<rparr>\<rparr>)\<rparr>"

theorem disk_drivers_agree_witness:
  "\<exists>t. iderw 3 demo_held = Inr t \<and> memide_iderw FSSIZE 3 demo_held = Inr t"
  using disk_drivers_agree [of demo_held 3] by (simp add: demo_held_def boot_bstate_def zero_buf_def holdingsleep_def FSSIZE_def)

end
