(* ===== verification/Log.thy ===== *)
theory Log
  imports Bio
begin

text \<open>
  The write-ahead log (\<open>log.c\<close>) and the superblock it is found by. The log extends the state of the buffer cache. A buffer that
  is in the log's header is pinned in the cache by its dirty flag until the commit. \<open>commit_writes\<close> and \<open>recover_writes\<close> are the sequences of
  block writes that a commit and a recovery make, \<open>recovered\<close> is the abstract view of a disk image, and the crash theorem says
  that every prefix of these sequences leaves the view of one of the two images. A block write is taken to be atomic. \<open>txn\<close> is the invariant of a running transaction and
  \<open>log_update\<close> the read-modify-log step the file system is made of.
\<close>

section \<open>Words in a block\<close>

definition get32 :: "block \<Rightarrow> nat \<Rightarrow> u32" where
  "get32 d i = ucast (d i) OR push_bit 8 (ucast (d (i + 1))) OR push_bit 16 (ucast (d (i + 2))) OR push_bit 24 (ucast (d (i + 3)))"

definition put32 :: "nat \<Rightarrow> u32 \<Rightarrow> block \<Rightarrow> block" where
  "put32 i v d = d(i := ucast v, i + 1 := ucast (drop_bit 8 v), i + 2 := ucast (drop_bit 16 v), i + 3 := ucast (drop_bit 24 v))"

lemma get32_put32_same [simp]: "get32 (put32 i v d) i = v"
  by (simp add: get32_def put32_def word_of_bytes)

lemma get32_put32_other: "i + 4 \<le> j \<or> j + 4 \<le> i \<Longrightarrow> get32 (put32 i v d) j = get32 d j"
  by (auto simp: get32_def put32_def)

section \<open>The superblock\<close>

record superblock =
  sb_size :: u32
  sb_nblocks :: u32
  sb_ninodes :: u32
  sb_nlog :: u32
  sb_logstart :: u32
  sb_inodestart :: u32
  sb_bmapstart :: u32

definition sb_of :: "block \<Rightarrow> superblock" where
  "sb_of d = \<lparr>sb_size = get32 d 0, sb_nblocks = get32 d 4, sb_ninodes = get32 d 8, sb_nlog = get32 d 12,
     sb_logstart = get32 d 16, sb_inodestart = get32 d 20, sb_bmapstart = get32 d 24\<rparr>"

definition readsb :: "u32 \<Rightarrow> 'a bstate_scheme \<Rightarrow> (superblock \<times> 'a bstate_scheme) res" where
  "readsb dev s =
     bindR (bread dev 1 s) (\<lambda>(bp, s1).
     let sb = sb_of (buf_data (bufs s1 bp)) in
     bindR (brelse bp s1) (\<lambda>s2. Inr (sb, s2)))"

section \<open>The log\<close>

definition MAXOPBLOCKS :: int where "MAXOPBLOCKS = 10"
definition LOGSIZE :: int where "LOGSIZE = MAXOPBLOCKS * 3"

text \<open>The in-memory log of \<open>struct log\<close>: the header's count and block numbers are \<open>lh_n\<close> and \<open>lh_block\<close>.\<close>

record lstate = bstate +
  log_lock :: bool
  log_start :: u32
  log_size :: int
  outstanding :: int
  committing :: bool
  log_dev :: u32
  lh_n :: int
  lh_block :: "nat \<Rightarrow> u32"

definition install_one :: "nat \<Rightarrow> 'a lstate_scheme \<Rightarrow> 'a lstate_scheme res" where
  "install_one tail s =
     bindR (bread (log_dev s) (log_start s + of_nat tail + 1) s) (\<lambda>(lbuf, s1).
     bindR (bread (log_dev s1) (lh_block s1 tail) s1) (\<lambda>(dbuf, s2).
     let s3 = modify dbuf (\<lambda>_. buf_data (bufs s2 lbuf)) s2 in
     bindR (bwrite dbuf s3) (\<lambda>s4. bindR (brelse lbuf s4) (brelse dbuf))))"

definition install_trans :: "'a lstate_scheme \<Rightarrow> 'a lstate_scheme res" where
  "install_trans s = foldR install_one [0..<nat (lh_n s)] s"

definition read_head :: "'a lstate_scheme \<Rightarrow> 'a lstate_scheme res" where
  "read_head s =
     bindR (bread (log_dev s) (log_start s) s) (\<lambda>(b, s1).
     let lh = buf_data (bufs s1 b); n = sint (get32 lh 0) in
     brelse b (s1\<lparr>lh_n := n, lh_block := (\<lambda>i. if int i < n then get32 lh (4 + 4 * i) else lh_block s1 i)\<rparr>))"

definition header_of :: "int \<Rightarrow> (nat \<Rightarrow> u32) \<Rightarrow> block \<Rightarrow> block" where
  "header_of n bl d = fold (\<lambda>i. put32 (4 + 4 * i) (bl i)) [0..<nat n] (put32 0 (word_of_int n) d)"

definition write_head :: "'a lstate_scheme \<Rightarrow> 'a lstate_scheme res" where
  "write_head s =
     bindR (bread (log_dev s) (log_start s) s) (\<lambda>(b, s1).
     bindR (bwrite b (modify b (header_of (lh_n s1) (lh_block s1)) s1)) (brelse b))"

definition recover_from_log :: "'a lstate_scheme \<Rightarrow> 'a lstate_scheme res" where
  "recover_from_log s =
     bindR (read_head s) (\<lambda>s1. bindR (install_trans s1) (\<lambda>s2. write_head (s2\<lparr>lh_n := 0\<rparr>)))"

definition initlog :: "u32 \<Rightarrow> 'a lstate_scheme \<Rightarrow> 'a lstate_scheme res" where
  "initlog dev s =
     (if int BSIZE \<le> 4 + 4 * LOGSIZE then Inl (Panic ''initlog: too big logheader'')
      else bindR (readsb dev (s\<lparr>log_lock := False\<rparr>)) (\<lambda>(sb, s1).
        recover_from_log (s1\<lparr>log_start := sb_logstart sb, log_size := sint (sb_nlog sb), log_dev := dev\<rparr>)))"

text \<open>One pass of the loop of \<open>begin_op\<close>; \<open>Blocks\<close> where it sleeps for a commit to end or for space.\<close>

definition begin_op :: "'a lstate_scheme \<Rightarrow> 'a lstate_scheme res" where
  "begin_op s =
     bindR (lock_take (log_lock s)) (\<lambda>l.
       let s = s\<lparr>log_lock := l\<rparr> in
       if committing s then Inl Blocks
       else if LOGSIZE < lh_n s + (outstanding s + 1) * MAXOPBLOCKS then Inl Blocks
       else let s1 = s\<lparr>outstanding := outstanding s + 1\<rparr> in
            bindR (lock_drop (log_lock s1)) (\<lambda>l. Inr (s1\<lparr>log_lock := l\<rparr>)))"

definition write_log_one :: "nat \<Rightarrow> 'a lstate_scheme \<Rightarrow> 'a lstate_scheme res" where
  "write_log_one tail s =
     bindR (bread (log_dev s) (log_start s + of_nat tail + 1) s) (\<lambda>(tob, s1).
     bindR (bread (log_dev s1) (lh_block s1 tail) s1) (\<lambda>(from, s2).
     let s3 = modify tob (\<lambda>_. buf_data (bufs s2 from)) s2 in
     bindR (bwrite tob s3) (\<lambda>s4. bindR (brelse from s4) (brelse tob))))"

definition write_log :: "'a lstate_scheme \<Rightarrow> 'a lstate_scheme res" where
  "write_log s = foldR write_log_one [0..<nat (lh_n s)] s"

definition commit :: "'a lstate_scheme \<Rightarrow> 'a lstate_scheme res" where
  "commit s =
     (if 0 < lh_n s
      then bindR (write_log s) (\<lambda>s1. bindR (write_head s1) (\<lambda>s2. bindR (install_trans s2) (\<lambda>s3. write_head (s3\<lparr>lh_n := 0\<rparr>))))
      else Inr s)"

definition end_op :: "'a lstate_scheme \<Rightarrow> 'a lstate_scheme res" where
  "end_op s =
     bindR (lock_take (log_lock s)) (\<lambda>l.
       let s1 = s\<lparr>log_lock := l, outstanding := outstanding s - 1\<rparr> in
       if committing s1 then Inl (Panic ''log.committing'')
       else
         let do_commit = (outstanding s1 = 0); s2 = (if do_commit then s1\<lparr>committing := True\<rparr> else s1) in
         bindR (lock_drop (log_lock s2)) (\<lambda>l.
         let s3 = s2\<lparr>log_lock := l\<rparr> in
         if do_commit
         then bindR (commit s3) (\<lambda>s4.
              bindR (lock_take (log_lock s4)) (\<lambda>l.
              let s5 = s4\<lparr>log_lock := l, committing := False\<rparr> in
              bindR (lock_drop (log_lock s5)) (\<lambda>l. Inr (s5\<lparr>log_lock := l\<rparr>))))
         else Inr s3))"

definition log_write :: "nat \<Rightarrow> 'a lstate_scheme \<Rightarrow> 'a lstate_scheme res" where
  "log_write b s =
     (if LOGSIZE \<le> lh_n s \<or> log_size s - 1 \<le> lh_n s then Inl (Panic ''too big a transaction'')
      else if outstanding s < 1 then Inl (Panic ''log_write outside of trans'')
      else bindR (lock_take (log_lock s)) (\<lambda>l.
        let s = s\<lparr>log_lock := l\<rparr>;
            i = (case first_index (\<lambda>i. lh_block s i = buf_blockno (bufs s b)) (nat (lh_n s)) of Some i \<Rightarrow> i | None \<Rightarrow> nat (lh_n s));
            s1 = s\<lparr>lh_block := (lh_block s)(i := buf_blockno (bufs s b))\<rparr>;
            s2 = (if int i = lh_n s1 then s1\<lparr>lh_n := lh_n s1 + 1\<rparr> else s1);
            s3 = mark_dirty b s2
        in bindR (lock_drop (log_lock s3)) (\<lambda>l. Inr (s3\<lparr>log_lock := l\<rparr>))))"

section \<open>The log's own fields and the cache\<close>

lemma same_rest_log:
  "same_rest s t \<Longrightarrow> log_lock t = log_lock s \<and> log_start t = log_start s \<and> log_size t = log_size s \<and> outstanding t = outstanding s \<and>
     committing t = committing s \<and> log_dev t = log_dev s \<and> lh_n t = lh_n s \<and> lh_block t = lh_block s \<and> lstate.more t = lstate.more s"
  for s t :: "'a lstate_scheme"
  by (cases s; cases t) (simp add: same_rest_def)

lemma same_rest_trans: "same_rest s t \<Longrightarrow> same_rest t u \<Longrightarrow> same_rest s u"
  by (simp add: same_rest_def)

text \<open>A change of the log's fields is invisible to the cache.\<close>

definition same_bio :: "'a bstate_scheme \<Rightarrow> 'b bstate_scheme \<Rightarrow> bool" where
  "same_bio s t \<longleftrightarrow> bstate.truncate s = bstate.truncate t"

lemma same_bio_fields:
  assumes "same_bio s t"
  shows "curpid t = curpid s" "bcache_lock t = bcache_lock s" "bufs t = bufs s" "bnext t = bnext s" "bprev t = bprev s" "idelock t = idelock s"
    "idequeue t = idequeue s" "havedisk1 t = havedisk1 s" "ide_fault t = ide_fault s" "disk t = disk s" "writes t = writes s"
  using assms by (cases s; cases t; simp add: same_bio_def bstate.truncate_def)+

lemma same_bio_cong:
  assumes "same_bio s t"
  shows "bc_ok t = bc_ok s" "held t = held s" "dirty t = dirty s" "dirtyb t = dirtyb s" "content t d n = content s d n"
  unfolding bc_ok_def held_def dirty_def dirtyb_def content_def blist_def same_bio_fields [OF assms] by (rule refl)+

lemma same_bio_log [simp]:
  fixes s :: "'a lstate_scheme"
  shows "same_bio s (s\<lparr>lh_n := n\<rparr>)" "same_bio s (s\<lparr>lh_block := bl\<rparr>)" "same_bio s (s\<lparr>log_lock := l\<rparr>)" "same_bio s (s\<lparr>outstanding := k\<rparr>)"
    "same_bio s (s\<lparr>committing := c\<rparr>)" "same_bio s (s\<lparr>lh_n := n, lh_block := bl\<rparr>)"
  by (simp_all add: same_bio_def bstate.truncate_def)

section \<open>Sequences of block writes\<close>

definition puts :: "(u32 \<times> block) list \<Rightarrow> (u32 \<Rightarrow> block) \<Rightarrow> u32 \<Rightarrow> block" where
  "puts ws f = fold (\<lambda>(n, v) f. f(n := v)) ws f"

lemma puts_simps [simp]: "puts [] f = f" "puts ((n, v) # ws) f = puts ws (f(n := v))" "puts (ws @ vs) f = puts vs (puts ws f)"
  by (simp_all add: puts_def)

lemma puts_other: "n \<notin> fst ` set ws \<Longrightarrow> puts ws f n = f n"
  by (induction ws arbitrary: f) auto

lemma puts_map:
  "inj_on a {..<k} \<Longrightarrow> i < k \<Longrightarrow> puts (map (\<lambda>i. (a i, v i)) [0..<k]) f (a i) = v i"
proof (induction k)
  case (Suc k)
  show ?case
  proof (cases "i = k")
    case True
    then show ?thesis by simp
  next
    case False
    then have "a i \<noteq> a k" using Suc.prems by (auto dest: inj_onD)
    moreover have "inj_on a {..<k}" using Suc.prems(1) by (rule inj_on_subset) auto
    ultimately show ?thesis using Suc False by simp
  qed
qed simp

text \<open>\<open>blk_run s ws t\<close>: from a state with no buffer held, the blocks \<open>ws\<close> have been written through to the disk in turn.\<close>

definition blk_run :: "'a bstate_scheme \<Rightarrow> (u32 \<times> block) list \<Rightarrow> 'a bstate_scheme \<Rightarrow> bool" where
  "blk_run s ws t \<longleftrightarrow> bc_ok t \<and> held t = {} \<and> dirtyb t = dirtyb s - fst ` set ws \<and> content t 1 = puts ws (content s 1) \<and>
     disk t = (disk s)(1 := puts ws (disk s 1)) \<and> writes t = writes s @ map (Pair 1) ws \<and> same_rest s t"

lemma blk_runD:
  assumes "blk_run s ws t"
  shows "bc_ok t" "held t = {}" "dirtyb t = dirtyb s - fst ` set ws" "content t 1 = puts ws (content s 1)"
    "disk t = (disk s)(1 := puts ws (disk s 1))" "writes t = writes s @ map (Pair 1) ws" "same_rest s t"
  using assms by (simp_all add: blk_run_def)

lemma blk_run_refl: "bc_ok s \<Longrightarrow> held s = {} \<Longrightarrow> blk_run s [] s"
  by (simp add: blk_run_def same_rest_def)

lemma blk_run_trans: "blk_run s ws t \<Longrightarrow> blk_run t vs u \<Longrightarrow> blk_run s (ws @ vs) u"
  unfolding blk_run_def by (auto intro: same_rest_trans)

section \<open>Reading two blocks\<close>

lemma same_rest_sym: "same_rest s t \<Longrightarrow> same_rest t s"
  by (simp add: same_rest_def)

lemma viewsD: "views s t \<Longrightarrow> content t 1 n = content s 1 n"
  by (simp add: views_def)

lemma got_first:
  assumes ok: "bc_ok s" and h: "held s = {}" and x: "x < FSSIZE" and room: "card (dirtyb s) < NBUF"
  obtains a t where "bread 1 x s = Inr (a, t)" "got 1 x s a t"
  using bread_succeeds [OF ok x] h room by auto

lemma got_second:
  assumes ok: "bc_ok s" and h: "held s = {}" and x: "x < FSSIZE" and y: "y < FSSIZE" "y \<noteq> x" and g: "got 1 x s a t"
    and room: "y \<in> dirtyb s \<or> Suc (card (dirtyb s)) < NBUF"
  obtains b u where "bread 1 y t = Inr (b, u)" "got 1 y t b u" "a \<noteq> b" "held u = {a, b}" "dirtyb u = dirtyb s"
    "bufs u a = bufs t a" "views s u" "disk u = disk s" "writes u = writes s" "same_rest s u" "bkey (bufs u a) = (1, x)"
    "buf_data (bufs u a) = content s 1 x" "bkey (bufs u b) = (1, y)" "buf_data (bufs u b) = content s 1 y" "bc_ok u"
proof -
  note G = gotD [OF g]
  have ht: "held t = {a}" using G(5) h by simp
  have nh: "buf_blockno (bufs t c) \<noteq> y" if "c \<in> held t" for c using that G(7) y(2) unfolding ht by (auto simp: bkey_def)
  have "y \<in> dirtyb t \<or> card (held t) + card (dirtyb t) < NBUF" using room ht got_dirtyb [OF g] by simp
  then obtain b u where b: "bread 1 y t = Inr (b, u)" and gb: "got 1 y t b u" using bread_succeeds [OF G(1) y(1) nh] by blast
  note B = gotD [OF gb]
  have ab: "a \<noteq> b" using B(4) ht by auto
  have ua: "bufs u a = bufs t a" using B(12) [of a] ab ht by simp
  have vw: "views s u" using G(9) B(9) by (simp add: views_def)
  show ?thesis
  proof (rule that [OF b gb ab _ _ ua vw])
    show "held u = {a, b}" using B(5) ht by auto
    show "dirtyb u = dirtyb s" using got_dirtyb [OF g] got_dirtyb [OF gb] by simp
    show "buf_data (bufs u b) = content s 1 y" using B(8) viewsD [OF G(9)] by simp
  qed (use G B ua same_rest_trans [OF G(2) B(2)] in simp_all)
qed

section \<open>Writing a held block through and releasing it\<close>

text \<open>A buffer may be released when the log or the disk has its contents.\<close>

definition saved :: "'a bstate_scheme \<Rightarrow> nat \<Rightarrow> bool" where
  "saved s b \<longleftrightarrow> b \<in> dirty s \<or> buf_data (bufs s b) = disk s 1 (buf_blockno (bufs s b))"

lemma write_through:
  assumes ok: "bc_ok s" and b: "b \<in> held s" and n: "buf_blockno (bufs s b) = n" and v: "v = g (buf_data (bufs s b))"
  shows "\<exists>t. bwrite b (modify b g s) = Inr t \<and> bc_ok t \<and> held t = held s \<and> dirtyb t = dirtyb s - {n} \<and> content t 1 = (content s 1)(n := v) \<and>
    disk t = disk_put n v (disk s) \<and> writes t = writes s @ [(1, n, v)] \<and> same_rest s t \<and> saved t b \<and>
    (\<forall>c. c \<noteq> b \<longrightarrow> bufs t c = bufs s c) \<and> bkey (bufs t b) = bkey (bufs s b) \<and> (\<forall>c. c \<noteq> b \<longrightarrow> (c \<in> dirty t) = (c \<in> dirty s))"
proof -
  note M = modify_ok [OF ok b, of g]
  let ?m = "modify b g s"
  have b': "b \<in> held ?m" using b M(2) by simp
  have mb: "buf_blockno (bufs ?m b) = n" "buf_data (bufs ?m b) = v" "bkey (bufs ?m b) = bkey (bufs s b)" using M(8) n v by (simp_all add: bkey_def)
  obtain t where t: "bwrite b ?m = Inr t" "bc_ok t" "held t = held ?m" "dirty t = dirty ?m - {b}" "same_rest ?m t" "views ?m t"
    "bufs t = (bufs ?m)(b := (bufs ?m b)\<lparr>B_DIRTY := False\<rparr>)" "disk t = disk_put n v (disk ?m)" "writes t = writes ?m @ [(1, n, v)]"
    using bwrite_ok [OF M(1) b'] unfolding mb by blast
  have tb: "bufs t b = (bufs s b)\<lparr>buf_data := v, B_DIRTY := False\<rparr>" using t(7) M(8) v by simp
  have dt: "dirty t = dirty s - {b}" using t(4) M(3) by simp
  have "dirtyb t = dirtyb s - {n}"
  proof -
    have "buf_blockno (bufs t c) = buf_blockno (bufs s c)" if "c \<noteq> b" for c using t(7) M(8) that by simp
    then have "dirtyb t = (\<lambda>c. buf_blockno (bufs s c)) ` (dirty s - {b})" unfolding dirtyb_def dt by auto
    moreover have "c = b" if "c \<in> dirty s" "buf_blockno (bufs s c) = n" for c
    proof -
      have "c < NBUF" "buf_dev (bufs s c) = 1" using that(1) bc_okD(9) [OF ok, of c] by (auto simp: dirty_def)
      then show ?thesis using held_same_key [OF ok b, of c] heldD [OF b ok] that(2) n by (simp add: bkey_def)
    qed
    ultimately show ?thesis using n by (auto simp: dirtyb_def)
  qed
  moreover have "content t 1 = (content s 1)(n := v)"
  proof
    fix m
    have "content s 1 n = buf_data (bufs s b)" using heldD [OF b ok] n by simp
    then show "content t 1 m = ((content s 1)(n := v)) m" using viewsD [OF t(6), of m] M(5) [of m] n v by simp
  qed
  moreover have "saved t b" using tb t(8) n by (simp add: saved_def disk_put_apply)
  moreover have "(c \<in> dirty t) = (c \<in> dirty s)" if "c \<noteq> b" for c using dt that by simp
  ultimately show ?thesis using t M(2,4,6,7) tb same_rest_trans [OF M(4) t(5)] M(8) by (intro exI [of _ t]) (simp add: bkey_def)
qed

lemma release_held:
  assumes ok: "bc_ok s" and b: "b \<in> held s" and sv: "saved s b"
  shows "\<exists>t. brelse b s = Inr t \<and> bc_ok t \<and> held t = held s - {b} \<and> dirtyb t = dirtyb s \<and> content t 1 = content s 1 \<and> disk t = disk s \<and>
    writes t = writes s \<and> same_rest s t \<and> (\<forall>c. c \<noteq> b \<longrightarrow> bufs t c = bufs s c) \<and> (\<forall>c. c \<noteq> b \<longrightarrow> saved t c = saved s c) \<and> dirty t = dirty s"
proof -
  obtain t where t: "brelse b s = Inr t" "bc_ok t" "held t = held s - {b}" "dirty t = dirty s" "same_rest s t" "views s t"
    "bufs t = (bufs s)(b := (bufs s b)\<lparr>buf_lock := (buf_lock (bufs s b))\<lparr>sl_locked := False, sl_pid := 0\<rparr>, buf_refcnt := 0\<rparr>)"
    "disk t = disk s" "writes t = writes s" using brelse_ok [OF ok b] sv unfolding saved_def by blast
  have "buf_blockno (bufs t c) = buf_blockno (bufs s c)" for c using t(7) by simp
  then have "dirtyb t = dirtyb s" unfolding dirtyb_def t(4) by simp
  moreover have "content t 1 = content s 1" using viewsD [OF t(6)] by blast
  moreover have "saved t c = saved s c" if "c \<noteq> b" for c using t(4,7,8) that by (simp add: saved_def)
  ultimately show ?thesis using t by (intro exI [of _ t]) simp
qed

lemma unheld_disk:
  assumes "bc_ok s" "n \<notin> dirtyb s" "\<And>b. b \<in> held s \<Longrightarrow> buf_blockno (bufs s b) \<noteq> n"
  shows "content s 1 n = disk s 1 n"
proof -
  have "content s 1 n = disk s (1 AND 1) n"
    by (rule content_disk [OF assms(1)]) (use assms(2,3) in \<open>auto simp: bkey_def dirtyb_def dirty_def held_def\<close>)
  then show ?thesis by simp
qed

text \<open>A block just read is saved: it is dirty or as on the disk.\<close>

lemma read_saved:
  assumes ok: "bc_ok s" "held s = {}" and u: "bc_ok u" "dirtyb u = dirtyb s" "disk u = disk s"
    and b: "b \<in> held u" "bkey (bufs u b) = (1, y)" "buf_data (bufs u b) = content s 1 y"
  shows "saved u b"
proof (cases "y \<in> dirtyb s")
  case True
  then have "y \<in> dirtyb u" using u(2) by simp
  then obtain c where c: "c \<in> dirty u" "buf_blockno (bufs u c) = y" by (auto simp: dirtyb_def)
  then have "c < NBUF" "buf_dev (bufs u c) = 1" using bc_okD(9) [OF u(1), of c] by (auto simp: dirty_def)
  then have "c = b" using held_same_key [OF u(1) b(1), of c] c(2) b(2) by (simp add: bkey_def)
  then show ?thesis using c(1) by (simp add: saved_def)
next
  case False
  then show ?thesis using unheld_disk [OF ok(1) False] ok(2) b(2,3) u(3) by (simp add: saved_def bkey_def)
qed

text \<open>
  The body shared by the loops of \<open>write_log\<close> and \<open>install_trans\<close>: read \<open>x\<close>, read \<open>y\<close>, copy one to the other and write it,
  release both.
\<close>

lemma copy_block:
  assumes ok: "bc_ok s" "held s = {}" and x: "x < FSSIZE" "y < FSSIZE" "y \<noteq> x"
    and room: "card (dirtyb s) < NBUF" "y \<in> dirtyb s \<or> Suc (card (dirtyb s)) < NBUF"
    and k: "\<And>a s1 b s2. bread 1 x s = Inr (a, s1) \<Longrightarrow> same_rest s s1 \<Longrightarrow> bread 1 y s1 = Inr (b, s2) \<Longrightarrow>
      f s = (let (d, c) = (if dx then (a, b) else (b, a)) in
        bindR (bwrite d (modify d (\<lambda>_. buf_data (bufs s2 c)) s2)) (\<lambda>s4. bindR (brelse c s4) (brelse d)))
      \<or> f s = (let (d, c) = (if dx then (a, b) else (b, a)) in
        bindR (bwrite d (modify d (\<lambda>_. buf_data (bufs s2 c)) s2)) (\<lambda>s4. bindR (brelse d s4) (brelse c)))"
  shows "\<exists>t. f s = Inr t \<and> blk_run s [if dx then (x, content s 1 y) else (y, content s 1 x)] t"
proof -
  obtain a s1 where a: "bread 1 x s = Inr (a, s1)" "got 1 x s a s1" using got_first [OF ok x(1) room(1)] by blast
  obtain b s2 where b: "bread 1 y s1 = Inr (b, s2)" "a \<noteq> b" "held s2 = {a, b}" "dirtyb s2 = dirtyb s" "views s s2" "disk s2 = disk s"
    "writes s2 = writes s" "same_rest s s2" "bkey (bufs s2 a) = (1, x)" "buf_data (bufs s2 a) = content s 1 x"
    "bkey (bufs s2 b) = (1, y)" "buf_data (bufs s2 b) = content s 1 y" "bc_ok s2"
    by (rule got_second [OF ok x(1,2,3) a(2) room(2)]) (rule that; assumption)
  have sv: "saved s2 a" "saved s2 b" using read_saved [OF ok b(13,4,6)] b(3,9-12) by auto
  define d where "d = (if dx then a else b)"
  define c where "c = (if dx then b else a)"
  define n where "n = (if dx then x else y)"
  define v where "v = (if dx then content s 1 y else content s 1 x)"
  have dc: "d \<in> held s2" "c \<in> held s2" "c \<noteq> d" "held s2 = {c, d}" "buf_blockno (bufs s2 d) = n" "v = buf_data (bufs s2 c)" "saved s2 c"
    using b(2,3,9-12) sv by (auto simp: d_def c_def n_def v_def bkey_def)
  obtain s4 where w: "bwrite d (modify d (\<lambda>_. buf_data (bufs s2 c)) s2) = Inr s4" "bc_ok s4" "held s4 = held s2" "dirtyb s4 = dirtyb s2 - {n}"
    "content s4 1 = (content s2 1)(n := v)" "disk s4 = disk_put n v (disk s2)" "writes s4 = writes s2 @ [(1, n, v)]" "same_rest s2 s4" "saved s4 d"
    "\<forall>c. c \<noteq> d \<longrightarrow> bufs s4 c = bufs s2 c" "\<forall>c. c \<noteq> d \<longrightarrow> (c \<in> dirty s4) = (c \<in> dirty s2)"
    using write_through [OF b(13) dc(1,5), of v "\<lambda>_. buf_data (bufs s2 c)"] dc(6) by blast
  have cn: "buf_blockno (bufs s2 c) \<noteq> n" using x(3) b(9,11) by (auto simp: c_def n_def bkey_def)
  have sc: "saved s4 c" using dc(3,7) w(6,10,11) cn by (auto simp: saved_def disk_put_apply)
  have fin: "\<exists>t. bindR (brelse p s4) (brelse q) = Inr t \<and> blk_run s [(n, v)] t" if pq: "{p, q} = {c, d}" "p \<noteq> q" for p q
  proof -
    have h: "p \<in> held s4" "q \<in> held s4" "saved s4 p" "saved s4 q" using pq w(3,9) sc dc(4) by (auto simp: doubleton_eq_iff)
    obtain s5 where s5: "brelse p s4 = Inr s5" "bc_ok s5" "held s5 = held s4 - {p}" "dirtyb s5 = dirtyb s4" "content s5 1 = content s4 1"
      "disk s5 = disk s4" "writes s5 = writes s4" "same_rest s4 s5" "\<forall>c. c \<noteq> p \<longrightarrow> saved s5 c = saved s4 c"
      using release_held [OF w(2) h(1,3)] by blast
    have v5: "saved s5 q" using s5(9) h(4) pq(2) by simp
    have q5: "q \<in> held s5" using s5(3) h(2) pq(2) by simp
    obtain s6 where s6: "brelse q s5 = Inr s6" "bc_ok s6" "held s6 = held s5 - {q}" "dirtyb s6 = dirtyb s5" "content s6 1 = content s5 1"
      "disk s6 = disk s5" "writes s6 = writes s5" "same_rest s5 s6" using release_held [OF s5(2) q5 v5] by blast
    have "held s6 = {}" unfolding s6(3) s5(3) w(3) dc(4) pq(1) [symmetric] by auto
    moreover have "content s2 1 = content s 1" using viewsD [OF b(5)] by blast
    ultimately have "blk_run s [(n, v)] s6"
      using s6(2-8) s5(2-8) w(2-8) b(4,6,7) same_rest_trans [OF b(8) same_rest_trans [OF w(8) same_rest_trans [OF s5(8) s6(8)]]]
      by (simp add: blk_run_def disk_put_def)
    then show ?thesis using s5(1) s6(1) by auto
  qed
  have dce: "(if dx then (a, b) else (b, a)) = (d, c)" by (simp add: d_def c_def)
  have "f s = bindR (brelse c s4) (brelse d) \<or> f s = bindR (brelse d s4) (brelse c)"
    using k [OF a(1) gotD(2) [OF a(2)] b(1)] unfolding dce by (simp add: w(1))
  moreover have "(if dx then (x, content s 1 y) else (y, content s 1 x)) = (n, v)" by (simp add: n_def v_def)
  ultimately show ?thesis using fin [of c d] fin [of d c] dc(3) by (auto simp: insert_commute)
qed

section \<open>The place of the log on the disk\<close>

definition log_geom :: "'a lstate_scheme \<Rightarrow> bool" where
  "log_geom s \<longleftrightarrow> log_dev s = 1 \<and> 1 \<le> log_size s \<and> int (unat (log_start s)) + log_size s \<le> 1000"

definition log_area :: "'a lstate_scheme \<Rightarrow> u32 set" where
  "log_area s = {b. log_start s \<le> b \<and> int (unat b) < int (unat (log_start s)) + log_size s}"

definition log_slot :: "'a lstate_scheme \<Rightarrow> nat \<Rightarrow> u32" where
  "log_slot s i = log_start s + of_nat i + 1"

lemma log_slot:
  assumes "log_geom s" "int i + 1 < log_size s"
  shows "unat (log_slot s i) = unat (log_start s) + i + 1" "log_slot s i < FSSIZE" "log_slot s i \<in> log_area s" "log_slot s i \<noteq> log_start s"
proof -
  have b: "unat (log_start s) + i + 1 < 1000" using assms unfolding log_geom_def by linarith
  have "unat (of_nat i + 1 :: u32) = i + 1" using b by (simp add: unat_word_ariths unat_of_nat)
  then have u: "unat (log_start s + (of_nat i + 1)) = unat (log_start s) + i + 1" using b by (simp add: unat_word_ariths)
  then show v: "unat (log_slot s i) = unat (log_start s) + i + 1" by (simp add: log_slot_def add.assoc)
  show "log_slot s i < FSSIZE" using v b by (simp add: word_less_nat_alt FSSIZE_def)
  have "int (unat (log_slot s i)) < int (unat (log_start s)) + log_size s" using v assms(2) by linarith
  then show "log_slot s i \<in> log_area s" using v unfolding log_area_def mem_Collect_eq word_le_nat_alt by linarith
  show "log_slot s i \<noteq> log_start s"
  proof
    assume "log_slot s i = log_start s"
    then show False using v by simp
  qed
qed

lemma log_start_area: "log_geom s \<Longrightarrow> log_start s < FSSIZE \<and> log_start s \<in> log_area s"
proof -
  assume g: "log_geom s"
  then have "unat (log_start s) < 1000" unfolding log_geom_def by linarith
  then show ?thesis using g by (simp add: log_geom_def log_area_def word_less_nat_alt FSSIZE_def)
qed

lemma log_slot_inj: "log_geom s \<Longrightarrow> int k < log_size s \<Longrightarrow> inj_on (log_slot s) {..<k}"
proof (rule inj_onI)
  fix i j assume h: "log_geom s" "int k < log_size s" "i \<in> {..<k}" "j \<in> {..<k}" "log_slot s i = log_slot s j"
  have "unat (log_slot s i) = unat (log_start s) + i + 1" "unat (log_slot s j) = unat (log_start s) + j + 1"
    by (rule log_slot(1) [OF h(1)]; use h(2-4) in simp)+
  then show "i = j" unfolding h(5) by linarith
qed

lemma log_same: "same_rest s t \<Longrightarrow> log_geom t = log_geom s \<and> log_area t = log_area s \<and> log_slot t = log_slot s"
  using same_rest_log [of s t] by (auto simp: log_geom_def log_area_def log_slot_def)

text \<open>The homes of the logged blocks: different blocks of the disk outside the log.\<close>

definition homes_ok :: "'a lstate_scheme \<Rightarrow> bool" where
  "homes_ok s \<longleftrightarrow> 0 \<le> lh_n s \<and> lh_n s < log_size s \<and> lh_n s < int NBUF \<and> inj_on (lh_block s) {..<nat (lh_n s)} \<and>
     (\<forall>i<nat (lh_n s). lh_block s i < FSSIZE \<and> lh_block s i \<notin> log_area s)"

section \<open>The loops over the logged blocks\<close>

lemma write_log_one_ok:
  assumes ok: "bc_ok s" "held s = {}" and g: "log_geom s" "homes_ok s" and i: "i < nat (lh_n s)"
    and d: "dirtyb s = lh_block s ` {..<nat (lh_n s)}"
  shows "\<exists>t. write_log_one i s = Inr t \<and> blk_run s [(log_slot s i, content s 1 (lh_block s i))] t"
proof -
  have sl: "int i + 1 < log_size s" "lh_block s i < FSSIZE" "lh_block s i \<notin> log_area s" using g(2) i by (auto simp: homes_ok_def)
  note L = log_slot [OF g(1) sl(1)]
  have ne: "lh_block s i \<noteq> log_slot s i" using L(3) sl(3) by metis
  have dev: "log_dev s = 1" using g(1) by (simp add: log_geom_def)
  have "card (dirtyb s) \<le> nat (lh_n s)" unfolding d using card_image_le [of "{..<nat (lh_n s)}" "lh_block s"] by simp
  moreover have "nat (lh_n s) < NBUF" using g(2) unfolding homes_ok_def by linarith
  ultimately have room: "card (dirtyb s) < NBUF" by (rule le_less_trans)
  have y: "lh_block s i \<in> dirtyb s \<or> Suc (card (dirtyb s)) < NBUF" using d i by auto
  have "\<exists>t. write_log_one i s = Inr t \<and> blk_run s [if True then (log_slot s i, content s 1 (lh_block s i)) else (lh_block s i, content s 1 (log_slot s i))] t"
  proof (rule copy_block [OF ok L(2) sl(2) ne room y])
    fix a s1 b s2 assume h: "bread 1 (log_slot s i) s = Inr (a, s1)" "same_rest s s1" "bread 1 (lh_block s i) s1 = Inr (b, s2)"
    show "write_log_one i s = (let (d, c) = if True then (a, b) else (b, a) in
        bindR (bwrite d (modify d (\<lambda>_. buf_data (bufs s2 c)) s2)) (\<lambda>s4. bindR (brelse c s4) (brelse d))) \<or>
      write_log_one i s = (let (d, c) = if True then (a, b) else (b, a) in
        bindR (bwrite d (modify d (\<lambda>_. buf_data (bufs s2 c)) s2)) (\<lambda>s4. bindR (brelse d s4) (brelse c)))"
      using h same_rest_log [OF h(2)] dev by (simp add: write_log_one_def log_slot_def Let_def)
  qed
  then show ?thesis by simp
qed

lemma install_one_ok:
  assumes ok: "bc_ok s" "held s = {}" and g: "log_geom s" "homes_ok s" and i: "i < nat (lh_n s)"
    and room: "card (dirtyb s) < NBUF" "lh_block s i \<in> dirtyb s \<or> Suc (card (dirtyb s)) < NBUF"
  shows "\<exists>t. install_one i s = Inr t \<and> blk_run s [(lh_block s i, content s 1 (log_slot s i))] t"
proof -
  have sl: "int i + 1 < log_size s" "lh_block s i < FSSIZE" "lh_block s i \<notin> log_area s" using g(2) i by (auto simp: homes_ok_def)
  note L = log_slot [OF g(1) sl(1)]
  have ne: "lh_block s i \<noteq> log_slot s i" using L(3) sl(3) by metis
  have dev: "log_dev s = 1" using g(1) by (simp add: log_geom_def)
  have "\<exists>t. install_one i s = Inr t \<and> blk_run s [if False then (log_slot s i, content s 1 (lh_block s i)) else (lh_block s i, content s 1 (log_slot s i))] t"
  proof (rule copy_block [OF ok L(2) sl(2) ne room])
    fix a s1 b s2 assume h: "bread 1 (log_slot s i) s = Inr (a, s1)" "same_rest s s1" "bread 1 (lh_block s i) s1 = Inr (b, s2)"
    show "install_one i s = (let (d, c) = if False then (a, b) else (b, a) in
        bindR (bwrite d (modify d (\<lambda>_. buf_data (bufs s2 c)) s2)) (\<lambda>s4. bindR (brelse c s4) (brelse d))) \<or>
      install_one i s = (let (d, c) = if False then (a, b) else (b, a) in
        bindR (bwrite d (modify d (\<lambda>_. buf_data (bufs s2 c)) s2)) (\<lambda>s4. bindR (brelse d s4) (brelse c)))"
      using h same_rest_log [OF h(2)] dev by (simp add: install_one_def log_slot_def Let_def)
  qed
  then show ?thesis by simp
qed

text \<open>The blocks written by the two loops.\<close>

definition to_log :: "'a lstate_scheme \<Rightarrow> nat \<Rightarrow> (u32 \<times> block) list" where
  "to_log s k = map (\<lambda>i. (log_slot s i, content s 1 (lh_block s i))) [0..<k]"

definition to_home :: "(nat \<Rightarrow> u32) \<Rightarrow> (nat \<Rightarrow> block) \<Rightarrow> nat \<Rightarrow> (u32 \<times> block) list" where
  "to_home bl v k = map (\<lambda>i. (bl i, v i)) [0..<k]"

lemma fst_to_log: "fst ` set (to_log s k) = log_slot s ` {..<k}"
  by (simp add: to_log_def image_image lessThan_atLeast0)

lemma fst_to_home: "fst ` set (to_home bl v k) = bl ` {..<k}"
  by (simp add: to_home_def image_image lessThan_atLeast0)

lemma homes_same: "same_rest s t \<Longrightarrow> homes_ok t = homes_ok s"
  using same_rest_log [of s t] log_same [of s t] by (simp add: homes_ok_def)

lemma slots_in_area: "log_geom s \<Longrightarrow> int k < log_size s \<Longrightarrow> log_slot s ` {..<k} \<subseteq> log_area s"
  using log_slot(3) [of s] by auto

lemma write_log_run:
  assumes ok: "bc_ok s" "held s = {}" and g: "log_geom s" "homes_ok s" and d: "dirtyb s = lh_block s ` {..<nat (lh_n s)}" and k: "k \<le> nat (lh_n s)"
  shows "\<exists>t. foldR write_log_one [0..<k] s = Inr t \<and> blk_run s (to_log s k) t"
  using k
proof (induction k)
  case 0
  then show ?case using blk_run_refl [OF ok] by (simp add: to_log_def)
next
  case (Suc k)
  then obtain t where t: "foldR write_log_one [0..<k] s = Inr t" "blk_run s (to_log s k) t" by auto
  note B = blk_runD [OF t(2)]
  note R = same_rest_log [OF B(7)] log_same [OF B(7)]
  have n: "lh_n t = lh_n s" "lh_block t = lh_block s" "log_slot t = log_slot s" using R by auto
  have ks: "int k < log_size s" using Suc.prems g(2) by (auto simp: homes_ok_def)
  have out: "lh_block s i \<notin> log_slot s ` {..<k}" if "i < nat (lh_n s)" for i
    using slots_in_area [OF g(1) ks] g(2) that by (auto simp: homes_ok_def)
  have "dirtyb t = lh_block s ` {..<nat (lh_n s)}" using B(3) d out by (auto simp: fst_to_log)
  then have d': "dirtyb t = lh_block t ` {..<nat (lh_n t)}" using n by simp
  have i: "k < nat (lh_n t)" using Suc.prems n by simp
  have gt: "log_geom t" "homes_ok t" using g homes_same [OF B(7)] R by auto
  obtain u where u: "write_log_one k t = Inr u" "blk_run t [(log_slot t k, content t 1 (lh_block t k))] u"
    using write_log_one_ok [OF B(1,2) gt i d'] by blast
  have "content t 1 (lh_block s k) = content s 1 (lh_block s k)"
    unfolding B(4) by (rule puts_other) (use out [of k] Suc.prems in \<open>simp add: fst_to_log\<close>)
  then have "blk_run s (to_log s (Suc k)) u" using blk_run_trans [OF t(2) u(2)] n by (simp add: to_log_def)
  then show ?case using t(1) u(1) by simp
qed

lemma install_run:
  assumes ok: "bc_ok s" "held s = {}" and g: "log_geom s" "homes_ok s" and k: "k \<le> nat (lh_n s)"
    and room: "dirtyb s = {} \<or> dirtyb s = lh_block s ` {..<nat (lh_n s)}"
  shows "\<exists>t. foldR install_one [0..<k] s = Inr t \<and> blk_run s (to_home (lh_block s) (\<lambda>i. content s 1 (log_slot s i)) k) t"
  using k
proof (induction k)
  case 0
  then show ?case using blk_run_refl [OF ok] by (simp add: to_home_def)
next
  case (Suc k)
  then obtain t where t: "foldR install_one [0..<k] s = Inr t" "blk_run s (to_home (lh_block s) (\<lambda>i. content s 1 (log_slot s i)) k) t" by auto
  note B = blk_runD [OF t(2)]
  note R = same_rest_log [OF B(7)] log_same [OF B(7)]
  have n: "lh_n t = lh_n s" "lh_block t = lh_block s" "log_slot t = log_slot s" using R by auto
  have i: "k < nat (lh_n t)" using Suc.prems n by simp
  have gt: "log_geom t" "homes_ok t" using g homes_same [OF B(7)] R by auto
  have ks: "int k + 1 < log_size s" using Suc.prems g(2) by (auto simp: homes_ok_def)
  have dt: "dirtyb t = dirtyb s - lh_block s ` {..<k}" using B(3) by (simp add: fst_to_home)
  have nb: "nat (lh_n s) < NBUF" "NBUF = 30" using g(2) by (auto simp: homes_ok_def NBUF_def)
  have cd: "card (dirtyb t) \<le> nat (lh_n s)"
  proof -
    have "dirtyb t \<subseteq> lh_block s ` {..<nat (lh_n s)}" using dt room by auto
    then have "card (dirtyb t) \<le> card (lh_block s ` {..<nat (lh_n s)})" by (intro card_mono) auto
    also have "\<dots> \<le> nat (lh_n s)" using card_image_le [of "{..<nat (lh_n s)}" "lh_block s"] by simp
    finally show ?thesis .
  qed
  have kin: "lh_block t k \<in> dirtyb t \<or> Suc (card (dirtyb t)) < NBUF"
  proof (cases "dirtyb s = {}")
    case True
    then show ?thesis using dt nb(2) by simp
  next
    case False
    then have "lh_block s k \<in> dirtyb s" using room Suc.prems by auto
    moreover have "lh_block s k \<notin> lh_block s ` {..<k}"
    proof
      assume "lh_block s k \<in> lh_block s ` {..<k}"
      then obtain j where j: "j < k" "lh_block s k = lh_block s j" by auto
      moreover have "inj_on (lh_block s) {..<nat (lh_n s)}" using g(2) by (simp add: homes_ok_def)
      ultimately show False using Suc.prems by (auto dest: inj_onD)
    qed
    ultimately show ?thesis using dt n by simp
  qed
  have cn: "card (dirtyb t) < NBUF" using cd nb(1) by simp
  obtain u where u: "install_one k t = Inr u" "blk_run t [(lh_block t k, content t 1 (log_slot t k))] u"
    using install_one_ok [OF B(1,2) gt i cn kin] by blast
  have "log_slot s k \<notin> lh_block s ` {..<k}" using log_slot(3) [OF g(1) ks] g(2) Suc.prems by (auto simp: homes_ok_def)
  then have "content t 1 (log_slot s k) = content s 1 (log_slot s k)"
    unfolding B(4) by (intro puts_other) (simp add: fst_to_home)
  then have "blk_run s (to_home (lh_block s) (\<lambda>i. content s 1 (log_slot s i)) (Suc k)) u"
    using blk_run_trans [OF t(2) u(2)] n by (simp add: to_home_def)
  then show ?case using t(1) u(1) by simp
qed

section \<open>The header\<close>

lemma write_head_ok:
  assumes ok: "bc_ok s" "held s = {}" and g: "log_geom s" and room: "card (dirtyb s) < NBUF"
  shows "\<exists>t. write_head s = Inr t \<and> blk_run s [(log_start s, header_of (lh_n s) (lh_block s) (content s 1 (log_start s)))] t"
proof -
  have dev: "log_dev s = 1" using g by (simp add: log_geom_def)
  obtain b s1 where b: "bread 1 (log_start s) s = Inr (b, s1)" "got 1 (log_start s) s b s1"
    using got_first [OF ok _ room] log_start_area [OF g] by blast
  note G = gotD [OF b(2)]
  have h: "b \<in> held s1" "held s1 = {b}" "buf_blockno (bufs s1 b) = log_start s" using G(5,7) ok(2) by (simp_all add: bkey_def)
  note R = same_rest_log [OF G(2)]
  let ?v = "header_of (lh_n s) (lh_block s) (content s 1 (log_start s))"
  have v: "?v = header_of (lh_n s1) (lh_block s1) (buf_data (bufs s1 b))" using G(8) R by simp
  obtain t where t: "bwrite b (modify b (header_of (lh_n s1) (lh_block s1)) s1) = Inr t" "bc_ok t" "held t = held s1"
    "dirtyb t = dirtyb s1 - {log_start s}" "content t 1 = (content s1 1)(log_start s := ?v)" "disk t = disk_put (log_start s) ?v (disk s1)"
    "writes t = writes s1 @ [(1, log_start s, ?v)]" "same_rest s1 t" "saved t b"
    using write_through [OF G(1) h(1,3), of ?v "header_of (lh_n s1) (lh_block s1)"] v by blast
  have bt: "b \<in> held t" using t(3) h(1) by simp
  obtain u where u: "brelse b t = Inr u" "bc_ok u" "held u = held t - {b}" "dirtyb u = dirtyb t" "content u 1 = content t 1" "disk u = disk t"
    "writes u = writes t" "same_rest t u" using release_held [OF t(2) bt t(9)] by blast
  have "content s1 1 = content s 1" using viewsD [OF G(9)] by blast
  then have "blk_run s [(log_start s, ?v)] u"
    using u t h(2) G(10,11) got_dirtyb [OF b(2)] same_rest_trans [OF G(2) same_rest_trans [OF t(8) u(8)]]
    by (simp add: blk_run_def disk_put_def)
  then show ?thesis using b(1) t(1) u(1) dev by (simp add: write_head_def)
qed

lemma get32_header:
  assumes "0 \<le> n"
  shows "get32 (header_of n bl d) 0 = word_of_int n" "i < nat n \<Longrightarrow> get32 (header_of n bl d) (4 + 4 * i) = bl i"
proof -
  define e where "e = put32 0 (word_of_int n) d"
  have z: "get32 (fold (\<lambda>i. put32 (4 + 4 * i) (bl i)) [0..<k] e) 0 = get32 e 0" for k
    by (induction k) (simp_all add: get32_put32_other)
  show "get32 (header_of n bl d) 0 = word_of_int n" unfolding header_of_def e_def [symmetric] z by (simp add: e_def)
  have "i < k \<Longrightarrow> get32 (fold (\<lambda>i. put32 (4 + 4 * i) (bl i)) [0..<k] e) (4 + 4 * i) = bl i" for k
  proof (induction k)
    case (Suc k)
    show ?case
    proof (cases "i = k")
      case True
      then show ?thesis by simp
    next
      case False
      then have "4 + 4 * k + 4 \<le> 4 + 4 * i \<or> 4 + 4 * i + 4 \<le> 4 + 4 * k" by linarith
      then show ?thesis using Suc False by (simp add: get32_put32_other)
    qed
  qed simp
  then show "i < nat n \<Longrightarrow> get32 (header_of n bl d) (4 + 4 * i) = bl i" unfolding header_of_def e_def .
qed

section \<open>Commit\<close>

definition commit_writes :: "'a lstate_scheme \<Rightarrow> (u32 \<times> block) list" where
  "commit_writes s = to_log s (nat (lh_n s)) @ (log_start s, header_of (lh_n s) (lh_block s) (content s 1 (log_start s))) #
     to_home (lh_block s) (\<lambda>i. content s 1 (lh_block s i)) (nat (lh_n s)) @
     [(log_start s, put32 0 0 (header_of (lh_n s) (lh_block s) (content s 1 (log_start s))))]"

text \<open>A transaction to commit: the dirty blocks of the cache are those of the header.\<close>

definition tx_ok :: "'a lstate_scheme \<Rightarrow> bool" where
  "tx_ok s \<longleftrightarrow> bc_ok s \<and> held s = {} \<and> log_geom s \<and> homes_ok s \<and> dirtyb s = lh_block s ` {..<nat (lh_n s)}"

lemma tx_okD:
  assumes "tx_ok s"
  shows "bc_ok s" "held s = {}" "log_geom s" "homes_ok s" "dirtyb s = lh_block s ` {..<nat (lh_n s)}"
    "0 \<le> lh_n s" "lh_n s < log_size s" "nat (lh_n s) < NBUF" "inj_on (lh_block s) {..<nat (lh_n s)}"
    "\<And>i. i < nat (lh_n s) \<Longrightarrow> lh_block s i < FSSIZE \<and> lh_block s i \<notin> log_area s" "int (nat (lh_n s)) < log_size s"
  using assms unfolding tx_ok_def homes_ok_def by auto

lemma tx_clean: "tx_ok s \<Longrightarrow> n \<notin> lh_block s ` {..<nat (lh_n s)} \<Longrightarrow> content s 1 n = disk s 1 n"
  using tx_okD(1,2,5) [of s] by (intro unheld_disk) auto

lemma start_not_slot:
  assumes "log_geom s" "int k < log_size s"
  shows "log_start s \<notin> log_slot s ` {..<k}"
proof
  assume "log_start s \<in> log_slot s ` {..<k}"
  then obtain i where i: "i < k" "log_slot s i = log_start s" by auto
  have "int i + 1 < log_size s" using i(1) assms(2) by linarith
  then show False using log_slot(4) [OF assms(1)] i(2) by blast
qed

lemma put_header: "header_of 0 bl d = put32 0 0 d"
  by (simp add: header_of_def)

lemma same_rest_lh: "same_rest s t \<Longrightarrow> same_rest (s\<lparr>lh_n := n\<rparr>) (t\<lparr>lh_n := n\<rparr>)" for s t :: "'a lstate_scheme"
  by (cases s; cases t) (simp add: same_rest_def)

lemma commit_ok:
  assumes tx: "tx_ok s" and n: "0 < lh_n s"
  shows "\<exists>t. commit s = Inr t \<and> bc_ok t \<and> held t = {} \<and> dirtyb t = {} \<and> disk t = (disk s)(1 := puts (commit_writes s) (disk s 1)) \<and>
    content t 1 = puts (commit_writes s) (content s 1) \<and> writes t = writes s @ map (Pair 1) (commit_writes s) \<and> same_rest (s\<lparr>lh_n := 0\<rparr>) t"
proof -
  note T = tx_okD [OF tx]
  let ?n = "nat (lh_n s)" and ?ls = "log_start s"
  let ?H = "header_of (lh_n s) (lh_block s) (content s 1 ?ls)"
  have out: "?ls \<notin> lh_block s ` {..<?n}" using T(10) log_start_area [OF T(3)] by auto
  obtain s1 where s1: "write_log s = Inr s1" "blk_run s (to_log s ?n) s1" using write_log_run [OF T(1-5) order.refl] by (auto simp: write_log_def)
  note B1 = blk_runD [OF s1(2)] and R1 = same_rest_log [OF blk_runD(7) [OF s1(2)]] log_same [OF blk_runD(7) [OF s1(2)]] homes_same [OF blk_runD(7) [OF s1(2)]]
  have "log_slot s ` {..<?n} \<subseteq> log_area s" by (rule slots_in_area [OF T(3,11)])
  then have "lh_block s ` {..<?n} \<inter> log_slot s ` {..<?n} = {}" using T(10) by blast
  then have d1: "dirtyb s1 = lh_block s ` {..<?n}" unfolding B1(3) T(5) fst_to_log by blast
  have c1: "content s1 1 ?ls = content s 1 ?ls"
    unfolding B1(4) using start_not_slot [OF T(3,11)] by (intro puts_other) (simp add: fst_to_log)
  have "card (dirtyb s1) \<le> ?n" unfolding d1 using card_image_le [of "{..<?n}" "lh_block s"] by simp
  then have m1: "card (dirtyb s1) < NBUF" using T(8) by simp
  have g1: "log_geom s1" "homes_ok s1" using R1 T(3,4) by auto
  obtain s2 where s2: "write_head s1 = Inr s2" "blk_run s1 [(?ls, ?H)] s2" using write_head_ok [OF B1(1,2) g1(1) m1] R1 c1 by auto
  note r2 = blk_run_trans [OF s1(2) s2(2)]
  note B2 = blk_runD [OF r2] and R2 = same_rest_log [OF blk_runD(7) [OF r2]] log_same [OF blk_runD(7) [OF r2]] homes_same [OF blk_runD(7) [OF r2]]
  have d2: "dirtyb s2 = lh_block s2 ` {..<nat (lh_n s2)}" using blk_runD(3) [OF s2(2)] d1 out R2 by simp
  have g2: "log_geom s2" "homes_ok s2" using R2 T(3,4) by auto
  have n2: "nat (lh_n s2) = ?n" "lh_block s2 = lh_block s" "log_slot s2 = log_slot s" using R2 by simp_all
  obtain s3 where s3: "install_trans s2 = Inr s3" "blk_run s2 (to_home (lh_block s) (\<lambda>i. content s2 1 (log_slot s i)) ?n) s3"
    using install_run [OF B2(1,2) g2 order.refl disjI2 [OF d2]] unfolding n2 install_trans_def by blast
  have "content s2 1 (log_slot s i) = content s 1 (lh_block s i)" if "i < ?n" for i
    using log_slot(4) [OF T(3)] puts_map [OF log_slot_inj [OF T(3,11)] that] T(7) that by (simp add: B2(4) to_log_def)
  then have "to_home (lh_block s) (\<lambda>i. content s2 1 (log_slot s i)) ?n = to_home (lh_block s) (\<lambda>i. content s 1 (lh_block s i)) ?n"
    by (simp add: to_home_def)
  then have r3: "blk_run s ((to_log s ?n @ [(?ls, ?H)]) @ to_home (lh_block s) (\<lambda>i. content s 1 (lh_block s i)) ?n) s3" (is "blk_run s ?W s3")
    using blk_run_trans [OF r2 s3(2)] by simp
  note B3 = blk_runD [OF r3] and R3 = same_rest_log [OF blk_runD(7) [OF r3]] log_same [OF blk_runD(7) [OF r3]]
  let ?s3 = "s3\<lparr>lh_n := 0\<rparr>"
  note C = same_bio_cong [OF same_bio_log(1) [of s3 0]] same_bio_fields [OF same_bio_log(1) [of s3 0]]
  have d3: "dirtyb s3 = {}" unfolding B3(3) T(5) set_append image_Un fst_to_home by blast
  have "puts (to_home (lh_block s) (\<lambda>i. content s 1 (lh_block s i)) ?n) f ?ls = f ?ls" for f
    using out by (intro puts_other) (simp add: fst_to_home)
  then have c3: "content ?s3 1 ?ls = ?H" using C(5) B3(4) by simp
  have g3: "log_geom ?s3" using R3 T(3) by (simp add: log_geom_def)
  have p3: "bc_ok ?s3" "held ?s3 = {}" "card (dirtyb ?s3) < NBUF" using B3(1,2) d3 C by (simp_all add: NBUF_def)
  obtain t where t: "write_head ?s3 = Inr t" "blk_run ?s3 [(?ls, put32 0 0 ?H)] t"
    using write_head_ok [OF p3(1,2) g3 p3(3)] c3 R3 by (auto simp: put_header)
  note B4 = blk_runD [OF t(2)]
  have W: "commit_writes s = ?W @ [(?ls, put32 0 0 ?H)]" by (simp add: commit_writes_def)
  have fin: "content t 1 = puts (commit_writes s) (content s 1)" "disk t = (disk s)(1 := puts (commit_writes s) (disk s 1))"
    "writes t = writes s @ map (Pair 1) (commit_writes s)" "dirtyb t = {}"
    using B4(3-6) C B3(4-6) d3 unfolding W by (simp_all add: fun_eq_iff)
  have "same_rest (s\<lparr>lh_n := 0\<rparr>) t" by (rule same_rest_trans [OF same_rest_lh [OF B3(7)] B4(7)])
  then show ?thesis using n s1(1) s2(1) s3(1) t(1) B4(1,2) fin by (simp add: commit_def)
qed

section \<open>What recovery makes of a disk\<close>

text \<open>
  The abstract view of a disk image: the contents each block has once the log is replayed. A disk is as good as its view; the crash
  theorem says that the view changes in one step, at the write of the header.
\<close>

definition rec_n :: "u32 \<Rightarrow> (u32 \<Rightarrow> block) \<Rightarrow> int" where
  "rec_n ls D = sint (get32 (D ls) 0)"

definition rec_b :: "u32 \<Rightarrow> (u32 \<Rightarrow> block) \<Rightarrow> nat \<Rightarrow> u32" where
  "rec_b ls D i = get32 (D ls) (4 + 4 * i)"

definition recovered :: "u32 \<Rightarrow> (u32 \<Rightarrow> block) \<Rightarrow> u32 \<Rightarrow> block" where
  "recovered ls D b = (case first_index (\<lambda>i. rec_b ls D i = b) (nat (rec_n ls D)) of Some i \<Rightarrow> D (ls + of_nat i + 1) | None \<Rightarrow> D b)"

text \<open>A well-formed disk of the file system, with the log at the place the superblock says.\<close>

definition disk_ok :: "'a lstate_scheme \<Rightarrow> (u32 \<Rightarrow> block) \<Rightarrow> bool" where
  "disk_ok s D \<longleftrightarrow> log_geom s \<and> sb_logstart (sb_of (D 1)) = log_start s \<and> sint (sb_nlog (sb_of (D 1))) = log_size s \<and> 1 \<notin> log_area s \<and>
     (let n = rec_n (log_start s) D; bl = rec_b (log_start s) D in
      0 \<le> n \<and> n < log_size s \<and> n < int NBUF \<and> inj_on bl {..<nat n} \<and> (\<forall>i<nat n. bl i < FSSIZE \<and> bl i \<notin> log_area s \<and> bl i \<noteq> 1))"

lemma disk_okD:
  assumes "disk_ok s D"
  shows "log_geom s" "sb_logstart (sb_of (D 1)) = log_start s" "sint (sb_nlog (sb_of (D 1))) = log_size s" "1 \<notin> log_area s"
    "0 \<le> rec_n (log_start s) D" "rec_n (log_start s) D < log_size s" "rec_n (log_start s) D < int NBUF"
    "inj_on (rec_b (log_start s) D) {..<nat (rec_n (log_start s) D)}"
    "\<And>i. i < nat (rec_n (log_start s) D) \<Longrightarrow> rec_b (log_start s) D i < FSSIZE \<and> rec_b (log_start s) D i \<notin> log_area s \<and> rec_b (log_start s) D i \<noteq> 1"
  using assms unfolding disk_ok_def Let_def by auto

definition recover_writes :: "'a lstate_scheme \<Rightarrow> (u32 \<Rightarrow> block) \<Rightarrow> (u32 \<times> block) list" where
  "recover_writes s D = to_home (rec_b (log_start s) D) (\<lambda>i. D (log_slot s i)) (nat (rec_n (log_start s) D)) @ [(log_start s, put32 0 0 (D (log_start s)))]"

lemma recovered_plain: "rec_n ls D = 0 \<Longrightarrow> recovered ls D b = D b"
  by (simp add: recovered_def first_index_def)

lemma rec_cong: "D ls = E ls \<Longrightarrow> rec_n ls D = rec_n ls E \<and> rec_b ls D = rec_b ls E"
  by (auto simp: rec_n_def rec_b_def)

lemma puts_home:
  assumes "inj_on bl {..<k}"
  shows "puts (to_home bl v k) D b = (case first_index (\<lambda>i. bl i = b) k of Some i \<Rightarrow> v i | None \<Rightarrow> D b)"
proof (cases "first_index (\<lambda>i. bl i = b) k")
  case None
  then have "b \<notin> bl ` {..<k}" by (auto simp: first_index_None)
  then show ?thesis using None by (simp add: puts_other fst_to_home)
next
  case (Some i)
  then have "i < k" "bl i = b" by (simp_all add: first_index_Some)
  then show ?thesis using Some puts_map [OF assms, of i v D] by (simp add: to_home_def)
qed

lemma take_home: "j \<le> k \<Longrightarrow> take j (to_home bl v k) = to_home bl v j"
  by (simp add: to_home_def take_map)

lemma recover_prefix:
  assumes D: "disk_ok s D" and b: "b \<notin> log_area s"
  shows "recovered (log_start s) (puts (take j (recover_writes s D)) D) b = recovered (log_start s) D b"
    "disk_ok s (puts (take j (recover_writes s D)) D)"
    "puts (recover_writes s D) D b = recovered (log_start s) D b"
proof -
  note T = disk_okD [OF D]
  let ?ls = "log_start s" and ?n = "nat (rec_n (log_start s) D)" and ?bl = "rec_b (log_start s) D"
  let ?v = "\<lambda>i. D (log_slot s i)"
  have area: "?ls \<in> log_area s" using log_start_area [OF T(1)] by simp
  have off: "puts (to_home ?bl ?v k) D c = D c" if "k \<le> ?n" "c \<in> insert 1 (log_area s)" for k c
    using that T(9) by (intro puts_other) (auto simp: fst_to_home)
  have r: "recovered ?ls D b = puts (to_home ?bl ?v ?n) D b" for b
    unfolding puts_home [OF T(8)] recovered_def log_slot_def by (rule refl)
  show full: "puts (recover_writes s D) D b = recovered ?ls D b" using b area r by (auto simp: recover_writes_def)
  have "recovered ?ls (puts (take j (recover_writes s D)) D) b = recovered ?ls D b \<and> disk_ok s (puts (take j (recover_writes s D)) D)"
  proof (cases "j \<le> ?n")
    case True
    have len: "length (to_home ?bl ?v ?n) = ?n" by (simp add: to_home_def)
    have tk: "take j (recover_writes s D) = to_home ?bl ?v j" using True len by (simp add: recover_writes_def take_home)
    let ?E = "puts (to_home ?bl ?v j) D"
    have e: "?E ?ls = D ?ls" "?E 1 = D 1" using off [OF True] area by auto
    note c = rec_cong [of ?E ?ls D, OF e(1)]
    have sl: "?E (log_slot s i) = D (log_slot s i)" if "i < ?n" for i
      using off [OF True, of "log_slot s i"] log_slot(3) [OF T(1), of i] that T(6) by simp
    have "recovered ?ls ?E b = recovered ?ls D b"
    proof (cases "first_index (\<lambda>i. ?bl i = b) ?n")
      case None
      then have "?bl i \<noteq> b" if "i < j" for i using True that by (simp add: first_index_None)
      then have "b \<notin> ?bl ` {..<j}" by blast
      then have "?E b = D b" by (intro puts_other) (simp add: fst_to_home)
      then show ?thesis using None c by (simp add: recovered_def)
    next
      case (Some i)
      then have "i < ?n" by (simp_all add: first_index_Some)
      then show ?thesis using Some c sl [of i] by (simp add: recovered_def log_slot_def)
    qed
    moreover have "disk_ok s ?E" using D c e(2) unfolding disk_ok_def by simp
    ultimately show ?thesis unfolding tk by (rule conjI)
  next
    case False
    then have tk: "take j (recover_writes s D) = recover_writes s D" by (simp add: recover_writes_def to_home_def)
    let ?E = "puts (recover_writes s D) D"
    have "?E ?ls = put32 0 0 (D ?ls)" by (simp add: recover_writes_def)
    then have z: "rec_n ?ls ?E = 0" by (simp add: rec_n_def)
    have "?E 1 = D 1" using off [OF order.refl, of 1] area T(4) by (auto simp: recover_writes_def)
    then have "disk_ok s ?E" using T(1-4,6) z by (auto simp: disk_ok_def log_geom_def NBUF_def)
    then show ?thesis unfolding tk recovered_plain [OF z] full by simp
  qed
  then show "recovered ?ls (puts (take j (recover_writes s D)) D) b = recovered ?ls D b" "disk_ok s (puts (take j (recover_writes s D)) D)" by simp_all
qed

section \<open>The crash points of a commit\<close>

lemma commit_prefix:
  assumes tx: "tx_ok s" and D: "disk_ok s (disk s 1)" and clean: "rec_n (log_start s) (disk s 1) = 0" and n: "0 < lh_n s"
    and one: "\<And>i. i < nat (lh_n s) \<Longrightarrow> lh_block s i \<noteq> 1" and b: "b \<notin> log_area s"
  shows "recovered (log_start s) (puts (take k (commit_writes s)) (disk s 1)) b = (if k \<le> nat (lh_n s) then disk s 1 b else content s 1 b)"
    "disk_ok s (puts (take k (commit_writes s)) (disk s 1))"
    "k = length (commit_writes s) \<Longrightarrow> rec_n (log_start s) (puts (take k (commit_writes s)) (disk s 1)) = 0"
proof -
  note T = tx_okD [OF tx] and O = disk_okD [OF D]
  let ?ls = "log_start s" and ?n = "nat (lh_n s)" and ?D = "disk s 1"
  let ?H = "header_of (lh_n s) (lh_block s) (content s 1 ?ls)"
  define E where "E = puts (to_log s ?n @ [(?ls, ?H)]) ?D"
  have len: "length (to_log s ?n) = ?n" by (simp add: to_log_def)
  have area: "?ls \<in> log_area s" using log_start_area [OF T(3)] by simp
  have off: "puts (to_log s j) ?D c = ?D c" if "j \<le> ?n" "c \<notin> log_area s \<or> c = ?ls" for j c
  proof (rule puts_other)
    have j: "int j < log_size s" using that(1) T(7,6) by linarith
    show "c \<notin> fst ` set (to_log s j)" using that(2)
    proof
      assume "c \<notin> log_area s"
      then show ?thesis unfolding fst_to_log using slots_in_area [OF T(3) j] by (rule contra_subsetD [rotated])
    next
      assume "c = ?ls"
      then show ?thesis unfolding fst_to_log using start_not_slot [OF T(3) j] by (rule ssubst)
    qed
  qed
  have Els: "E ?ls = ?H" by (simp add: E_def)
  have E1: "E 1 = ?D 1" using off [OF order.refl, of 1] O(4) area by (auto simp: E_def)
  have small: "lh_n s < 2 ^ 31" using T(8) by (simp add: NBUF_def)
  have rn: "rec_n ?ls E = lh_n s" using T(6) small by (simp add: rec_n_def Els get32_header(1) [OF T(6)] int_word_sint)
  have rb: "rec_b ?ls E i = lh_block s i" if "i < ?n" for i using get32_header(2) [OF T(6) that] by (simp add: rec_b_def Els)
  have Es: "E (log_slot s i) = content s 1 (lh_block s i)" if "i < ?n" for i
  proof -
    have "log_slot s i \<noteq> ?ls" using log_slot(4) [OF T(3), of i] that T(7) by simp
    then show ?thesis using puts_map [OF log_slot_inj [OF T(3,11)] that] by (simp add: E_def to_log_def)
  qed
  have oE: "disk_ok s E"
  proof -
    have "inj_on (rec_b ?ls E) {..<?n}" using T(9) rb by (simp add: inj_on_def)
    then show ?thesis using T(6-8,10) O(1-4) rn rb one E1 by (simp add: disk_ok_def)
  qed
  have rE: "recovered ?ls E c = content s 1 c" if "c \<notin> log_area s" for c
  proof (cases "first_index (\<lambda>i. rec_b ?ls E i = c) ?n")
    case None
    then have "c \<notin> lh_block s ` {..<?n}" using rb by (auto simp: first_index_None)
    then have "content s 1 c = ?D c" by (rule tx_clean [OF tx])
    moreover have "E c = ?D c" using off [OF order.refl, of c] that area by (auto simp: E_def)
    ultimately show ?thesis using None rn by (simp add: recovered_def)
  next
    case (Some i)
    then have i: "i < ?n" "lh_block s i = c" using rb by (auto simp: first_index_Some)
    then show ?thesis using Some rn Es [OF i(1)] by (simp add: recovered_def log_slot_def)
  qed
  have W: "commit_writes s = (to_log s ?n @ [(?ls, ?H)]) @ recover_writes s E"
  proof -
    have "to_home (rec_b ?ls E) (\<lambda>i. E (log_slot s i)) ?n = to_home (lh_block s) (\<lambda>i. content s 1 (lh_block s i)) ?n"
      using rb Es by (simp add: to_home_def)
    then show ?thesis by (simp add: commit_writes_def recover_writes_def rn Els)
  qed
  have *: "recovered ?ls (puts (take k (commit_writes s)) ?D) b = (if k \<le> ?n then ?D b else content s 1 b) \<and> disk_ok s (puts (take k (commit_writes s)) ?D)"
  proof (cases "k \<le> ?n")
    case True
    let ?F = "puts (to_log s k) ?D"
    have tk: "take k (commit_writes s) = to_log s k" using True len by (simp add: W to_log_def take_map)
    have f: "?F ?ls = ?D ?ls" "?F 1 = ?D 1" "?F b = ?D b" using off [OF True] O(4) b by auto
    note c = rec_cong [of ?F ?ls ?D, OF f(1)]
    have "disk_ok s ?F" using D c f(2) unfolding disk_ok_def by simp
    then show ?thesis using True f(3) c clean unfolding tk by (simp add: recovered_plain)
  next
    case False
    then obtain j where j: "k = Suc ?n + j" using nat_le_iff_add [of "Suc ?n" k] by auto
    have tk: "puts (take k (commit_writes s)) ?D = puts (take j (recover_writes s E)) E" unfolding W j E_def puts_simps(3) using len by simp
    show ?thesis unfolding tk using recover_prefix(1,2) [OF oE b, of j] rE [OF b] False by simp
  qed
  then show "recovered ?ls (puts (take k (commit_writes s)) ?D) b = (if k \<le> ?n then ?D b else content s 1 b)"
    "disk_ok s (puts (take k (commit_writes s)) ?D)" by simp_all
  show "k = length (commit_writes s) \<Longrightarrow> rec_n ?ls (puts (take k (commit_writes s)) ?D) = 0"
    by (simp add: W recover_writes_def rec_n_def)
qed

section \<open>Recovery\<close>

text \<open>The cache after a block has been read and released: nothing a reader can see has changed.\<close>

definition quiet :: "'a bstate_scheme \<Rightarrow> 'b bstate_scheme \<Rightarrow> bool" where
  "quiet s t \<longleftrightarrow> bc_ok t \<and> held t = {} \<and> dirtyb t = dirtyb s \<and> content t 1 = content s 1 \<and> disk t = disk s \<and> writes t = writes s"

lemma read_release:
  assumes ok: "bc_ok s" "held s = {}" and x: "x < FSSIZE" and room: "card (dirtyb s) < NBUF"
  obtains b s1 where "bread 1 x s = Inr (b, s1)" "same_rest s s1" "buf_data (bufs s1 b) = content s 1 x"
    "\<And>s2 :: 'b bstate_scheme. same_bio s1 s2 \<Longrightarrow> \<exists>t. brelse b s2 = Inr t \<and> quiet s t \<and> same_rest s2 t"
proof -
  obtain b s1 where b: "bread 1 x s = Inr (b, s1)" "got 1 x s b s1" using got_first [OF ok x room] by blast
  note G = gotD [OF b(2)]
  have h: "b \<in> held s1" "held s1 = {b}" using G(5) ok(2) by simp_all
  have sv: "saved s1 b" by (rule read_saved [OF ok G(1) got_dirtyb [OF b(2)] G(10) h(1) G(7,8)])
  have c1: "content s1 1 = content s 1" using viewsD [OF G(9)] by blast
  show ?thesis
  proof (rule that [OF b(1) G(2,8)])
    fix s2 :: "'b bstate_scheme" assume sb: "same_bio s1 s2"
    note C = same_bio_cong [OF sb] and F = same_bio_fields [OF sb]
    have "bc_ok s2" "b \<in> held s2" "saved s2 b" using C F G(1) h sv by (simp_all add: saved_def)
    then obtain t where t: "brelse b s2 = Inr t" "bc_ok t" "held t = held s2 - {b}" "dirtyb t = dirtyb s2" "content t 1 = content s2 1"
      "disk t = disk s2" "writes t = writes s2" "same_rest s2 t" using release_held by blast
    have "content s2 1 = content s1 1" using C(5) by blast
    then have "quiet s t" using t(2-7) h(2) C F c1 G(10,11) got_dirtyb [OF b(2)] by (simp add: quiet_def)
    then show "\<exists>t. brelse b s2 = Inr t \<and> quiet s t \<and> same_rest s2 t" using t(1,8) by blast
  qed
qed

lemma readsb_ok:
  fixes s :: "'a bstate_scheme"
  assumes "bc_ok s" "held s = {}" "card (dirtyb s) < NBUF"
  shows "\<exists>t. readsb 1 s = Inr (sb_of (content s 1 1), t) \<and> quiet s t \<and> same_rest s t"
proof -
  have "1 < FSSIZE" by (simp add: FSSIZE_def)
  from read_release [OF assms(1,2) this assms(3)] obtain b s1 where r: "bread 1 1 s = Inr (b, s1)" "same_rest s s1" "buf_data (bufs s1 b) = content s 1 1"
    "\<And>s2 :: 'a bstate_scheme. same_bio s1 s2 \<Longrightarrow> \<exists>t. brelse b s2 = Inr t \<and> quiet s t \<and> same_rest s2 t" by blast
  have "same_bio s1 s1" by (simp add: same_bio_def)
  then obtain t where "brelse b s1 = Inr t" "quiet s t" "same_rest s1 t" using r(4) by blast
  then show ?thesis using r(1,3) same_rest_trans [OF r(2)] by (simp add: readsb_def)
qed

lemma read_head_ok:
  assumes ok: "bc_ok s" "held s = {}" and d: "dirtyb s = {}" and g: "log_geom s"
  defines "D \<equiv> disk s 1"
  shows "\<exists>t. read_head s = Inr t \<and> quiet s t \<and> log_geom t \<and> log_start t = log_start s \<and> log_size t = log_size s \<and> log_dev t = log_dev s \<and>
    lh_n t = rec_n (log_start s) D \<and> (\<forall>i<nat (lh_n t). lh_block t i = rec_b (log_start s) D i) \<and>
    outstanding t = outstanding s \<and> committing t = committing s \<and> log_lock t = log_lock s \<and> lstate.more t = lstate.more s \<and> curpid t = curpid s"
proof -
  have x: "log_start s < FSSIZE" using log_start_area [OF g] by simp
  have room: "card (dirtyb s) < NBUF" using d by (simp add: NBUF_def)
  from read_release [OF ok x room] obtain b s1 where r: "bread 1 (log_start s) s = Inr (b, s1)" "same_rest s s1"
    "buf_data (bufs s1 b) = content s 1 (log_start s)"
    "\<And>s2 :: 'a lstate_scheme. same_bio s1 s2 \<Longrightarrow> \<exists>t. brelse b s2 = Inr t \<and> quiet s t \<and> same_rest s2 t" by blast
  let ?n = "rec_n (log_start s) D" and ?bl = "rec_b (log_start s) D"
  have c: "content s 1 (log_start s) = D (log_start s)" unfolding D_def by (rule unheld_disk [OF ok(1)]) (simp_all add: d ok(2))
  let ?s2 = "s1\<lparr>lh_n := ?n, lh_block := (\<lambda>i. if int i < ?n then ?bl i else lh_block s1 i)\<rparr>"
  obtain t where t: "brelse b ?s2 = Inr t" "quiet s t" "same_rest ?s2 t" using r(4) [OF same_bio_log(6)] by blast
  note R = same_rest_log [OF r(2)] same_rest_log [OF t(3)]
  have dev: "log_dev s = 1" using g by (simp add: log_geom_def)
  have "curpid t = curpid s" using r(2) t(3) by (simp add: same_rest_def)
  moreover have "log_geom t" using g R by (simp add: log_geom_def)
  moreover have "read_head s = Inr t" 
    unfolding read_head_def dev r(1) bindR_simps prod.case Let_def r(3) c rec_n_def [symmetric] rec_b_def [symmetric] by (rule t(1))
  ultimately show ?thesis using t(2) R by (auto simp: nat_less_iff)
qed

lemma to_home_cong: "(\<And>i. i < k \<Longrightarrow> a i = b i \<and> v i = w i) \<Longrightarrow> to_home a v k = to_home b w k"
  by (simp add: to_home_def)

lemma recover_ok:
  assumes ok: "bc_ok s" "held s = {}" and d: "dirtyb s = {}" and D: "disk_ok s (disk s 1)"
  defines "W \<equiv> recover_writes s (disk s 1)"
  shows "\<exists>t. recover_from_log s = Inr t \<and> bc_ok t \<and> held t = {} \<and> dirtyb t = {} \<and> disk t = (disk s)(1 := puts W (disk s 1)) \<and>
    writes t = writes s @ map (Pair 1) W \<and> lh_n t = 0 \<and> log_start t = log_start s \<and> log_size t = log_size s \<and> log_dev t = log_dev s \<and>
    outstanding t = outstanding s \<and> committing t = committing s \<and> log_lock t = log_lock s \<and> lstate.more t = lstate.more s \<and> curpid t = curpid s"
proof -
  note T = disk_okD [OF D]
  let ?D = "disk s 1" and ?ls = "log_start s"
  let ?n = "nat (rec_n ?ls ?D)"
  obtain s1 where s1: "read_head s = Inr s1" "quiet s s1" "log_geom s1" "log_start s1 = ?ls" "log_size s1 = log_size s" "log_dev s1 = log_dev s"
    "lh_n s1 = rec_n ?ls ?D" "\<forall>i<nat (lh_n s1). lh_block s1 i = rec_b ?ls ?D i" "outstanding s1 = outstanding s" "committing s1 = committing s"
    "log_lock s1 = log_lock s" "lstate.more s1 = lstate.more s" "curpid s1 = curpid s"
    using read_head_ok [OF ok d T(1)] by blast
  have q: "bc_ok s1" "held s1 = {}" "dirtyb s1 = {}" "content s1 1 = content s 1" "disk s1 = disk s" "writes s1 = writes s"
    using s1(2) d by (simp_all add: quiet_def)
  have c: "content s1 1 n = ?D n" for n unfolding q(4) by (rule unheld_disk [OF ok(1)]) (simp_all add: d ok(2))
  have ar: "log_area s1 = log_area s" "log_slot s1 = log_slot s" using s1(4,5) by (simp_all add: log_area_def log_slot_def fun_eq_iff)
  have h1: "homes_ok s1" using T(5-9) s1(5,7,8) ar by (simp add: homes_ok_def inj_on_def)
  obtain s2 where s2: "install_trans s1 = Inr s2" "blk_run s1 (to_home (lh_block s1) (\<lambda>i. content s1 1 (log_slot s1 i)) ?n) s2"
    using install_run [OF q(1,2) s1(3) h1 order.refl disjI1 [OF q(3)]] unfolding install_trans_def s1(7) by blast
  have H: "to_home (lh_block s1) (\<lambda>i. content s1 1 (log_slot s1 i)) ?n = to_home (rec_b ?ls ?D) (\<lambda>i. ?D (log_slot s i)) ?n" (is "_ = ?H")
    by (rule to_home_cong) (simp add: c ar s1(7,8))
  note r2 = s2(2) [unfolded H]
  note B = blk_runD [OF r2] and R = same_rest_log [OF blk_runD(7) [OF r2]]
  let ?s2 = "s2\<lparr>lh_n := 0\<rparr>"
  note C = same_bio_cong [OF same_bio_log(1) [of s2 0]] same_bio_fields [OF same_bio_log(1) [of s2 0]]
  have p: "bc_ok ?s2" "held ?s2 = {}" "card (dirtyb ?s2) < NBUF" using C B(1-3) q(3) by (simp_all add: NBUF_def)
  have g2: "log_geom ?s2" using s1(3) R by (simp add: log_geom_def)
  have "?ls \<notin> rec_b ?ls ?D ` {..<?n}"
  proof
    assume "?ls \<in> rec_b ?ls ?D ` {..<?n}"
    then obtain i where i: "i < ?n" "rec_b ?ls ?D i = ?ls" by (auto elim!: imageE)
    then show False using T(9) [OF i(1)] log_start_area [OF T(1)] by simp
  qed
  then have "puts ?H (content s1 1) ?ls = content s1 1 ?ls" by (intro puts_other) (simp add: fst_to_home)
  then have c2: "content ?s2 1 ?ls = ?D ?ls" using C(5) B(4) c by simp
  obtain t where t: "write_head ?s2 = Inr t" "blk_run ?s2 [(?ls, put32 0 0 (?D ?ls))] t"
    using write_head_ok [OF p(1,2) g2 p(3)] c2 R s1(4) by (auto simp: put_header)
  note E = blk_runD [OF t(2)] and S = same_rest_log [OF blk_runD(7) [OF t(2)]]
  have "disk t = (disk s)(1 := puts W ?D)" "writes t = writes s @ map (Pair 1) W" "dirtyb t = {}"
    using E(3,5,6) C B(3,5,6) q(3,5,6) by (simp_all add: W_def recover_writes_def)
  moreover have "curpid t = curpid s" using E(7) B(7) s1(13) by (simp add: same_rest_def)
  moreover have "recover_from_log s = Inr t" using s1(1) s2(1) t(1) by (simp add: recover_from_log_def)
  ultimately show ?thesis using E(1,2) S R s1 by simp
qed

section \<open>Power cycles\<close>

text \<open>The state at boot: the memory is zero but for the cache that \<open>binit\<close> sets up, and the disk is as the last run left it.\<close>

definition boot_log :: "(u32 \<Rightarrow> block) \<Rightarrow> lstate" where
  "boot_log D = binit (boot_bstate (\<lambda>d. if d = 1 then D else (\<lambda>_ _. 0)) (lstate.fields False 0 0 0 False 0 0 (\<lambda>_. 0)))"

lemma initlog_ok:
  assumes D: "disk_ok s D"
  shows "\<exists>t. initlog 1 (boot_log D) = Inr t \<and> bc_ok t \<and> held t = {} \<and> dirtyb t = {} \<and> disk t 1 = puts (recover_writes s D) D \<and>
    writes t = map (Pair 1) (recover_writes s D) \<and> lh_n t = 0 \<and> log_start t = log_start s \<and> log_size t = log_size s \<and> log_dev t = 1 \<and>
    outstanding t = 0 \<and> \<not> committing t \<and> \<not> log_lock t"
proof -
  note T = disk_okD [OF D]
  let ?u = "boot_log D" and ?u1 = "(boot_log D)\<lparr>log_lock := False\<rparr>"
  note B = boot_ok [of "\<lambda>d. if d = 1 then D else (\<lambda>_ _. 0)" "lstate.fields False 0 0 0 False 0 0 (\<lambda>_. 0)", folded boot_log_def]
  note C = same_bio_cong [OF same_bio_log(3) [of ?u False]] same_bio_fields [OF same_bio_log(3) [of ?u False]]
  have f: "outstanding ?u = 0" "\<not> committing ?u" using B(6) by (cases ?u; simp add: lstate.defs)+
  have p: "bc_ok ?u1" "held ?u1 = {}" "dirtyb ?u1 = {}" "card (dirtyb ?u1) < NBUF" "content ?u1 1 1 = D 1"
    using C B(1-3,7) by (simp_all add: dirtyb_def NBUF_def)
  obtain s1 where s1: "readsb 1 ?u1 = Inr (sb_of (D 1), s1)" "quiet ?u1 s1" "same_rest ?u1 s1" using readsb_ok [OF p(1,2,4)] p(5) by auto
  let ?s1 = "s1\<lparr>log_start := log_start s, log_size := log_size s, log_dev := 1\<rparr>"
  have sb: "same_bio s1 ?s1" by (simp add: same_bio_def bstate.truncate_def)
  note C1 = same_bio_cong [OF sb] same_bio_fields [OF sb]
  have q: "bc_ok ?s1" "held ?s1 = {}" "dirtyb ?s1 = {}" "disk ?s1 1 = D" "writes ?s1 = []"
    using s1(2) C1 C B(4,5) p(3) by (simp_all add: quiet_def)
  have a: "log_area ?s1 = log_area s" "log_slot ?s1 = log_slot s" "log_geom ?s1 = log_geom s"
    using T(1) by (simp_all add: log_area_def log_slot_def fun_eq_iff log_geom_def)
  have "disk_ok ?s1 (disk ?s1 1)" using D a q(4) by (simp add: disk_ok_def)
  note RW = recover_ok [OF q(1-3) this]
  have W: "recover_writes ?s1 (disk ?s1 1) = recover_writes s D" using q(4) a by (simp add: recover_writes_def)
  obtain t where t: "recover_from_log ?s1 = Inr t" "bc_ok t" "held t = {}" "dirtyb t = {}" "disk t = (disk ?s1)(1 := puts (recover_writes s D) (disk ?s1 1))"
    "writes t = writes ?s1 @ map (Pair 1) (recover_writes s D)" "lh_n t = 0" "log_start t = log_start ?s1" "log_size t = log_size ?s1"
    "log_dev t = log_dev ?s1" "outstanding t = outstanding ?s1" "committing t = committing ?s1" "log_lock t = log_lock ?s1"
    using RW unfolding W by blast
  have "initlog 1 ?u = Inr t" using s1(1) t(1) T(2,3) by (simp add: initlog_def BSIZE_def LOGSIZE_def MAXOPBLOCKS_def)
  then show ?thesis using t(2-13) q(4,5) same_rest_log [OF s1(3)] f by simp
qed

text \<open>The disks that a disk may become through boots that are cut off after any number of block writes.\<close>

inductive power_cycles :: "(u32 \<Rightarrow> block) \<Rightarrow> (u32 \<Rightarrow> block) \<Rightarrow> bool" for D where
  off: "power_cycles D D"
| cut: "power_cycles D E \<Longrightarrow> initlog 1 (boot_log E) = Inr t \<Longrightarrow> power_cycles D (puts (take k (map snd (writes t))) E)"

lemma power_cycles_view:
  assumes "power_cycles D E" and "disk_ok s D"
  shows "disk_ok s E \<and> (\<forall>b. b \<notin> log_area s \<longrightarrow> recovered (log_start s) E b = recovered (log_start s) D b)"
  using assms(1)
proof induction
  case off
  then show ?case using assms(2) by simp
next
  case (cut E t k)
  then have E: "disk_ok s E" by simp
  have "writes t = map (Pair 1) (recover_writes s E)" using initlog_ok [OF E] cut.hyps(2) by auto
  then have w: "map snd (writes t) = recover_writes s E" by (simp add: comp_def)
  have "log_area s \<noteq> UNIV" using disk_okD(4) [OF E] by auto
  then obtain c where "c \<notin> log_area s" by auto
  then show ?case unfolding w using recover_prefix(1,2) [OF E, of _ k] cut.IH by simp
qed

text \<open>
  C29: A transaction is atomic over power failures. Let the transaction have modified the blocks of the header, which are pinned in the
  cache. Then \<open>commit\<close> succeeds and leaves on the disk what readers saw before. If the power fails after any number \<open>k\<close> of its block writes, and then
  fails again during any number of recoveries, the next complete boot recovers, and every block
  outside the log is as before the transaction if the header had not been written, and as the transaction left it if it had.
\<close>
theorem commit_atomic:
  assumes tx: "tx_ok s" and n: "0 < lh_n s" and D: "disk_ok s (disk s 1)" and clean: "rec_n (log_start s) (disk s 1) = 0"
    and one: "\<forall>i<nat (lh_n s). lh_block s i \<noteq> 1"
  shows "\<exists>t ws. commit s = Inr t \<and> writes t = writes s @ map (Pair 1) ws \<and> lh_n t = 0 \<and> dirtyb t = {} \<and>
    disk t 1 = puts ws (disk s 1) \<and> (\<forall>b. b \<notin> log_area s \<longrightarrow> disk t 1 b = content s 1 b) \<and>
    (\<forall>k E. power_cycles (puts (take k ws) (disk s 1)) E \<longrightarrow>
      (\<exists>u. initlog 1 (boot_log E) = Inr u \<and> lh_n u = 0 \<and>
        (\<forall>b. b \<notin> log_area s \<longrightarrow> disk u 1 b = (if k \<le> nat (lh_n s) then disk s 1 b else content s 1 b))))"
proof -
  note P = commit_prefix [OF tx D clean n]
  let ?W = "commit_writes s"
  obtain t where t: "commit s = Inr t" "dirtyb t = {}" "disk t = (disk s)(1 := puts ?W (disk s 1))" "writes t = writes s @ map (Pair 1) ?W"
    "same_rest (s\<lparr>lh_n := 0\<rparr>) t" using commit_ok [OF tx n] by blast
  have "disk t 1 b = content s 1 b" if b: "b \<notin> log_area s" for b
    using P(1) [OF _ b, of "length ?W"] recovered_plain [OF P(3) [OF _ b refl]] one t(3) by (simp add: commit_writes_def to_log_def)
  moreover have "\<exists>u. initlog 1 (boot_log E) = Inr u \<and> lh_n u = 0 \<and>
      (\<forall>b. b \<notin> log_area s \<longrightarrow> disk u 1 b = (if k \<le> nat (lh_n s) then disk s 1 b else content s 1 b))"
    if pc: "power_cycles (puts (take k ?W) (disk s 1)) E" for k E
  proof -
    have "1 \<notin> log_area s" by (rule disk_okD(4) [OF D])
    then have "disk_ok s (puts (take k ?W) (disk s 1))" using P(2) one by blast
    note V = power_cycles_view [OF pc this]
    obtain u where u: "initlog 1 (boot_log E) = Inr u" "lh_n u = 0" "disk u 1 = puts (recover_writes s E) E" using initlog_ok [of s E] V by blast
    have "disk u 1 b = (if k \<le> nat (lh_n s) then disk s 1 b else content s 1 b)" if b: "b \<notin> log_area s" for b
      using recover_prefix(3) [OF _ b, of E] V b P(1) [OF _ b, of k] one u(3) by simp
    then show ?thesis using u(1,2) by blast
  qed
  ultimately show ?thesis using t same_rest_log [OF t(5)] by (intro exI [of _ t] exI [of _ ?W]) simp
qed

section \<open>A running transaction\<close>

text \<open>The blocks of the header are those pinned in the cache; buffers may be held.\<close>

definition txn :: "'a lstate_scheme \<Rightarrow> bool" where
  "txn s \<longleftrightarrow> bc_ok s \<and> log_geom s \<and> homes_ok s \<and> dirtyb s = lh_block s ` {..<nat (lh_n s)} \<and> \<not> log_lock s"

lemma txnD:
  assumes "txn s"
  shows "bc_ok s" "log_geom s" "homes_ok s" "dirtyb s = lh_block s ` {..<nat (lh_n s)}" "\<not> log_lock s" "0 \<le> lh_n s" "lh_n s < log_size s"
    "lh_n s < int NBUF" "inj_on (lh_block s) {..<nat (lh_n s)}" "\<And>i. i < nat (lh_n s) \<Longrightarrow> lh_block s i < FSSIZE \<and> lh_block s i \<notin> log_area s"
  using assms unfolding txn_def homes_ok_def by auto

lemma txn_card: "txn s \<Longrightarrow> card (dirtyb s) = nat (lh_n s)"
  using txnD(4,9) [of s] by (simp add: card_image)

lemma txn_tx: "txn s \<Longrightarrow> held s = {} \<Longrightarrow> tx_ok s"
  by (simp add: txn_def tx_ok_def)

lemma txn_got:
  assumes "txn s" "got 1 n s b t"
  shows "txn t"
proof -
  note G = gotD [OF assms(2)]
  show ?thesis using assms(1) G(1) got_dirtyb [OF assms(2)] same_rest_log [OF G(2)] log_same [OF G(2)] homes_same [OF G(2)]
    by (simp add: txn_def)
qed

lemma txn_modify:
  assumes "txn s" "b \<in> held s"
  shows "txn (modify b g s)"
proof -
  note M = modify_ok [OF txnD(1) [OF assms(1)] assms(2), of g]
  have "dirtyb (modify b g s) = dirtyb s" unfolding dirtyb_def M(3) M(8) by (intro image_cong) simp_all
  then show ?thesis using assms(1) M(1) same_rest_log [OF M(4)] log_same [OF M(4)] homes_same [OF M(4)] by (simp add: txn_def)
qed

lemma dirtyb_mark:
  assumes "bc_ok s" "b \<in> held s"
  shows "dirtyb (mark_dirty b s) = insert (buf_blockno (bufs s b)) (dirtyb s)"
proof -
  note M = mark_dirty_ok [OF assms]
  have "buf_blockno (bufs (mark_dirty b s) c) = buf_blockno (bufs s c)" for c unfolding M(8) by simp
  then show ?thesis unfolding dirtyb_def M(3) by simp
qed

text \<open>What \<open>log_write\<close> leaves: the block is in the header and pinned, and no reader sees a difference.\<close>

definition logged :: "u32 \<Rightarrow> 'a lstate_scheme \<Rightarrow> 'a lstate_scheme \<Rightarrow> bool" where
  "logged n s t \<longleftrightarrow> txn t \<and> held t = held s \<and> content t 1 = content s 1 \<and> disk t = disk s \<and> writes t = writes s \<and>
     dirtyb t = insert n (dirtyb s) \<and> lh_n s \<le> lh_n t \<and> lh_n t \<le> lh_n s + 1 \<and> log_start t = log_start s \<and> log_size t = log_size s \<and>
     outstanding t = outstanding s \<and> committing t = committing s \<and> log_dev t = log_dev s \<and> lstate.more t = lstate.more s \<and> curpid t = curpid s"

lemma loggedD:
  assumes "logged n s t"
  shows "txn t" "held t = held s" "content t 1 = content s 1" "disk t = disk s" "writes t = writes s" "dirtyb t = insert n (dirtyb s)"
    "lh_n s \<le> lh_n t" "lh_n t \<le> lh_n s + 1" "log_start t = log_start s" "log_size t = log_size s" "outstanding t = outstanding s"
    "committing t = committing s" "log_dev t = log_dev s" "lstate.more t = lstate.more s" "curpid t = curpid s"
  using assms unfolding logged_def by blast+

lemma log_write_ok:
  assumes tx: "txn s" and b: "b \<in> held s" and n: "buf_blockno (bufs s b) = n" "n \<notin> log_area s" and o: "1 \<le> outstanding s"
    and room: "lh_n s + 1 < log_size s" "lh_n s + 1 < int NBUF"
  shows "\<exists>t. log_write b s = Inr t \<and> logged n s t \<and> bufs t = (bufs s)(b := (bufs s b)\<lparr>B_DIRTY := True\<rparr>)"
proof -
  note T = txnD [OF tx]
  have nF: "n < FSSIZE" using heldD [OF b T(1)] n(1) by simp
  define i where "i = (case first_index (\<lambda>i. lh_block s i = n) (nat (lh_n s)) of Some i \<Rightarrow> i | None \<Rightarrow> nat (lh_n s))"
  define m where "m = (if int i = lh_n s then lh_n s + 1 else lh_n s)"
  define bl where "bl = (lh_block s)(i := n)"
  have hom: "bl ` {..<nat m} = insert n (lh_block s ` {..<nat (lh_n s)}) \<and> inj_on bl {..<nat m} \<and> 0 \<le> m \<and> lh_n s \<le> m \<and> m \<le> lh_n s + 1"
  proof (cases "first_index (\<lambda>i. lh_block s i = n) (nat (lh_n s))")
    case None
    then have im: "i = nat (lh_n s)" "nat m = Suc i" "m = lh_n s + 1" using T(6) by (simp_all add: i_def m_def)
    have "n \<notin> lh_block s ` {..<i}" using None im by (auto simp: first_index_None)
    moreover have "bl ` {..<i} = lh_block s ` {..<i}" by (intro image_cong) (simp_all add: bl_def)
    moreover have "inj_on bl {..<i}" using T(9) im(1) by (simp add: inj_on_def bl_def)
    moreover have "bl i = n" by (simp add: bl_def)
    ultimately show ?thesis unfolding im(2) lessThan_Suc using T(6) im(1,3) by simp
  next
    case (Some j)
    then have j: "i = j" "j < nat (lh_n s)" "lh_block s j = n" by (simp add: i_def) (use Some in \<open>simp_all add: first_index_Some\<close>)
    then have "bl = lh_block s" "m = lh_n s" by (auto simp: bl_def m_def)
    then show ?thesis using j T(6,9) by auto
  qed
  define u where "u = s\<lparr>log_lock := False, lh_n := m, lh_block := bl\<rparr>"
  have sb: "same_bio s u" by (simp add: u_def same_bio_def bstate.truncate_def)
  note C = same_bio_cong [OF sb] and F = same_bio_fields [OF sb]
  have bu: "bc_ok u" "b \<in> held u" using C T(1) b by simp_all
  note M = mark_dirty_ok [OF bu]
  let ?t = "mark_dirty b u"
  have "log_write b s = Inr ?t"
  proof -
    have g: "\<not> (LOGSIZE \<le> lh_n s \<or> log_size s - 1 \<le> lh_n s)" "\<not> outstanding s < 1"
      using room o by (simp_all add: LOGSIZE_def MAXOPBLOCKS_def NBUF_def)
    let ?l = "s\<lparr>log_lock := True\<rparr>"
    have f: "(case first_index (\<lambda>i. lh_block ?l i = buf_blockno (bufs ?l b)) (nat (lh_n ?l)) of Some i \<Rightarrow> i | None \<Rightarrow> nat (lh_n ?l)) = i"
      unfolding i_def by (cases "first_index (\<lambda>i. lh_block s i = n) (nat (lh_n s))") (simp_all add: n(1))
    have l: "lock_take (log_lock s) = Inr True" using T(5) by simp
    show ?thesis unfolding log_write_def if_not_P [OF g(1)] if_not_P [OF g(2)] l bindR_simps Let_def f
      using n(1) by (cases s) (simp add: u_def m_def bl_def mark_dirty_def buf_upd_def)
  qed
  moreover have "txn ?t"
  proof -
    note R = same_rest_log [OF M(4)]
    have "log_area ?t = log_area s" "log_geom ?t" using R T(2) by (simp_all add: u_def log_area_def log_geom_def)
    moreover have "\<forall>j<nat m. bl j < FSSIZE \<and> bl j \<notin> log_area s"
    proof (intro allI impI)
      fix j assume "j < nat m"
      then have "bl j \<in> insert n (lh_block s ` {..<nat (lh_n s)})" using hom by auto
      then show "bl j < FSSIZE \<and> bl j \<notin> log_area s" using n(2) nF T(10) by auto
    qed
    ultimately show ?thesis using hom M(1) R room dirtyb_mark [OF bu] F C(4) n(1) T(4) by (auto simp: txn_def homes_ok_def u_def)
  qed
  moreover have "content ?t 1 = content s 1" using viewsD [OF M(5)] C(5) by (simp add: fun_eq_iff)
  moreover have "dirtyb ?t = insert n (dirtyb s)" using dirtyb_mark [OF bu] F C(4) n(1) by simp
  moreover have "lh_n ?t = m" "log_start ?t = log_start s" "log_size ?t = log_size s" "outstanding ?t = outstanding s" "committing ?t = committing s"
    "log_dev ?t = log_dev s" "lstate.more ?t = lstate.more s" "curpid ?t = curpid s"
    using same_rest_log [OF M(4)] M(4) by (simp_all add: u_def same_rest_def)
  ultimately show ?thesis using M(2,6,7,8) C F hom by (intro exI [of _ ?t]) (simp add: logged_def)
qed

text \<open>The updates of the file system: read a block, change it, log it, release it.\<close>

definition log_update :: "u32 \<Rightarrow> (block \<Rightarrow> block) \<Rightarrow> 'a lstate_scheme \<Rightarrow> 'a lstate_scheme res" where
  "log_update n g s = bindR (bread 1 n s) (\<lambda>(b, s1). bindR (log_write b (modify b g s1)) (brelse b))"

definition updated :: "u32 \<Rightarrow> block \<Rightarrow> 'a lstate_scheme \<Rightarrow> 'a lstate_scheme \<Rightarrow> bool" where
  "updated n v s t \<longleftrightarrow> txn t \<and> held t = held s \<and> content t 1 = (content s 1)(n := v) \<and> disk t = disk s \<and> writes t = writes s \<and>
     dirtyb t = insert n (dirtyb s) \<and> lh_n s \<le> lh_n t \<and> lh_n t \<le> lh_n s + 1 \<and> log_start t = log_start s \<and> log_size t = log_size s \<and>
     outstanding t = outstanding s \<and> committing t = committing s \<and> log_dev t = log_dev s \<and> lstate.more t = lstate.more s \<and> curpid t = curpid s \<and>
     (\<forall>c\<in>held s. bufs t c = bufs s c)"

lemma release_txn:
  assumes tx: "txn s" and b: "b \<in> held s" and sv: "saved s b"
  shows "\<exists>t. brelse b s = Inr t \<and> txn t \<and> held t = held s - {b} \<and> content t 1 = content s 1 \<and> disk t = disk s \<and> writes t = writes s \<and>
    dirtyb t = dirtyb s \<and> same_rest s t \<and> (\<forall>c. c \<noteq> b \<longrightarrow> bufs t c = bufs s c)"
proof -
  obtain t where t: "brelse b s = Inr t" "bc_ok t" "held t = held s - {b}" "dirtyb t = dirtyb s" "content t 1 = content s 1" "disk t = disk s"
    "writes t = writes s" "same_rest s t" "\<forall>c. c \<noteq> b \<longrightarrow> bufs t c = bufs s c" using release_held [OF txnD(1) [OF tx] b sv] by blast
  have "txn t" using tx t(2,4) same_rest_log [OF t(8)] log_same [OF t(8)] homes_same [OF t(8)] by (simp add: txn_def)
  then show ?thesis using t by blast
qed

lemma log_update_ok:
  assumes tx: "txn s" and n: "n < FSSIZE" "n \<notin> log_area s" and nh: "\<And>b. b \<in> held s \<Longrightarrow> buf_blockno (bufs s b) \<noteq> n" and o: "1 \<le> outstanding s"
    and room: "lh_n s + 1 < log_size s" "lh_n s + int (card (held s)) < int NBUF" "lh_n s + 1 < int NBUF"
  shows "\<exists>t. log_update n g s = Inr t \<and> updated n (g (content s 1 n)) s t"
proof -
  note T = txnD [OF tx]
  have "n \<in> dirtyb s \<or> card (held s) + card (dirtyb s) < NBUF" using room(2) T(6) unfolding txn_card [OF tx] by linarith
  then obtain b s1 where b: "bread 1 n s = Inr (b, s1)" "got 1 n s b s1" using bread_succeeds [OF T(1) n(1) nh] by blast
  note G = gotD [OF b(2)] and R = same_rest_log [OF gotD(2) [OF b(2)]] log_same [OF gotD(2) [OF b(2)]]
  have h: "b \<in> held s1" "buf_blockno (bufs s1 b) = n" using G(5,7) by (simp_all add: bkey_def)
  note tx1 = txn_got [OF tx b(2)]
  note M = modify_ok [OF G(1) h(1), of g] and R2 = same_rest_log [OF modify_ok(4) [OF G(1) h(1), of g]] log_same [OF modify_ok(4) [OF G(1) h(1), of g]]
  let ?s2 = "modify b g s1"
  have h2: "b \<in> held ?s2" "buf_blockno (bufs ?s2 b) = n" using h M(2,8) by simp_all
  have p: "n \<notin> log_area ?s2" "1 \<le> outstanding ?s2" "lh_n ?s2 + 1 < log_size ?s2" "lh_n ?s2 + 1 < int NBUF" using n(2) o room(1,3) R R2 by simp_all
  obtain s3 where s3: "log_write b ?s2 = Inr s3" "logged n ?s2 s3" "bufs s3 = (bufs ?s2)(b := (bufs ?s2 b)\<lparr>B_DIRTY := True\<rparr>)"
    using log_write_ok [OF txn_modify [OF tx1 h(1)] h2 p] by blast
  note L = loggedD [OF s3(2)]
  have b3: "b \<in> held s3" "saved s3 b" using L(2) h2(1) s3(3) heldD [OF h2(1) M(1)] by (simp_all add: saved_def dirty_def)
  obtain t where t: "brelse b s3 = Inr t" "txn t" "held t = held s3 - {b}" "content t 1 = content s3 1" "disk t = disk s3" "writes t = writes s3"
    "dirtyb t = dirtyb s3" "same_rest s3 t" "\<forall>c. c \<noteq> b \<longrightarrow> bufs t c = bufs s3 c" using release_txn [OF L(1) b3] by blast
  have "dirtyb ?s2 = dirtyb s1" unfolding dirtyb_def M(3) M(8) by (intro image_cong) simp_all
  then have d2: "dirtyb ?s2 = dirtyb s" unfolding got_dirtyb [OF b(2)] .
  have c: "content t 1 = (content s 1)(n := g (content s 1 n))"
    unfolding t(4) L(3) by (rule ext) (simp add: M(5) h(2) viewsD [OF G(9)])
  have bt: "bufs t c = bufs s c" if "c \<in> held s" for c
  proof -
    have "c \<noteq> b" using G(4) that by auto
    then show ?thesis using t(9) s3(3) M(8) G(12) [of c] that by simp
  qed
  have hd: "held t = held s" unfolding t(3) L(2) M(2) G(5) using G(4) by blast
  have "updated n (g (content s 1 n)) s t"
    unfolding updated_def using t(2,5-7) hd c d2 bt L G(10,11) M(6,7) R R2 same_rest_log [OF t(8)] t(8) M(4) G(2) by (simp add: same_rest_def)
  then show ?thesis using b(1) s3(1) t(1) by (simp add: log_update_def)
qed

section \<open>Operations\<close>

lemma begin_op_ok:
  assumes "\<not> log_lock s" "\<not> committing s" "lh_n s + (outstanding s + 1) * MAXOPBLOCKS \<le> LOGSIZE"
  shows "begin_op s = Inr (s\<lparr>log_lock := False, outstanding := outstanding s + 1\<rparr>)"
  using assms by (cases s) (simp add: begin_op_def Let_def)

lemma begin_op_blocks:
  assumes "\<not> log_lock s"
  shows "begin_op s = Inl Blocks \<longleftrightarrow> committing s \<or> LOGSIZE < lh_n s + (outstanding s + 1) * MAXOPBLOCKS"
  using assms by (simp add: begin_op_def Let_def)

lemma lstate_back: "\<not> log_lock s \<Longrightarrow> s\<lparr>log_lock := False, outstanding := k\<rparr> = s\<lparr>outstanding := k\<rparr>" for s :: "'a lstate_scheme"
  by (cases s) simp

lemma same_bio_txn:
  assumes "same_bio s t" "log_start t = log_start s" "log_size t = log_size s" "log_dev t = log_dev s" "lh_n t = lh_n s" "lh_block t = lh_block s"
    "\<not> log_lock t" "txn s"
  shows "txn t"
  using assms same_bio_cong [OF assms(1)] by (simp add: txn_def homes_ok_def log_geom_def log_area_def)

text \<open>The last operation to end commits what has been logged; its log is then empty.\<close>

lemma end_op_ok:
  assumes tx: "txn s" and h: "held s = {}" and o: "outstanding s = 1" and c: "\<not> committing s"
  shows "\<exists>t. end_op s = Inr t \<and> txn t \<and> held t = {} \<and> outstanding t = 0 \<and> \<not> committing t \<and> lh_n t = 0 \<and> log_start t = log_start s \<and>
    log_size t = log_size s \<and> log_dev t = log_dev s \<and> lstate.more t = lstate.more s \<and> curpid t = curpid s \<and>
    writes t = writes s @ map (Pair 1) (if lh_n s = 0 then [] else commit_writes s) \<and>
    disk t = (disk s)(1 := puts (if lh_n s = 0 then [] else commit_writes s) (disk s 1))"
proof -
  note T = txnD [OF tx]
  define s3 where "s3 = s\<lparr>log_lock := False, outstanding := 0, committing := True\<rparr>"
  have sb: "same_bio s s3" by (simp add: s3_def same_bio_def bstate.truncate_def)
  note C = same_bio_cong [OF sb] same_bio_fields [OF sb]
  have tx3: "txn s3" by (rule same_bio_txn [OF sb _ _ _ _ _ _ tx]) (simp_all add: s3_def)
  have t3: "tx_ok s3" by (rule txn_tx [OF tx3]) (simp add: C h)
  have W: "commit_writes s3 = commit_writes s"
    by (simp add: commit_writes_def to_log_def log_slot_def s3_def C(5) [unfolded s3_def])
  obtain s4 where s4: "commit s3 = Inr s4" "txn s4" "held s4 = {}" "same_rest (s3\<lparr>lh_n := 0\<rparr>) s4"
    "writes s4 = writes s @ map (Pair 1) (if lh_n s = 0 then [] else commit_writes s)"
    "disk s4 = (disk s)(1 := puts (if lh_n s = 0 then [] else commit_writes s) (disk s 1))"
  proof (cases "lh_n s = 0")
    case True
    then have "commit s3 = Inr s3" by (simp add: commit_def s3_def)
    have "s3\<lparr>lh_n := 0\<rparr> = s3" using True by (cases s) (simp add: s3_def)
    then have "same_rest (s3\<lparr>lh_n := 0\<rparr>) s3" unfolding same_rest_def by (metis (no_types))
    then show ?thesis using that [OF \<open>commit s3 = Inr s3\<close> tx3] True h C by simp
  next
    case False
    then have n: "0 < lh_n s3" using T(6) by (simp add: s3_def)
    obtain s4 where s4: "commit s3 = Inr s4" "bc_ok s4" "held s4 = {}" "dirtyb s4 = {}" "disk s4 = (disk s3)(1 := puts (commit_writes s3) (disk s3 1))"
      "writes s4 = writes s3 @ map (Pair 1) (commit_writes s3)" "same_rest (s3\<lparr>lh_n := 0\<rparr>) s4" using commit_ok [OF t3 n] by blast
    note R = same_rest_log [OF s4(7)]
    have "txn s4" using s4(2,4) R T(2,7) by (simp add: txn_def homes_ok_def log_geom_def s3_def NBUF_def)
    then show ?thesis using that [OF s4(1)] s4 False C W by simp
  qed
  note R = same_rest_log [OF s4(4)]
  let ?t = "s4\<lparr>log_lock := False, committing := False\<rparr>"
  have sb4: "same_bio s4 ?t" by (simp add: same_bio_def bstate.truncate_def)
  note C4 = same_bio_cong [OF sb4] same_bio_fields [OF sb4]
  have "\<not> log_lock s4" using R by (simp add: s3_def)
  have "commit (s\<lparr>log_lock := False, outstanding := 0, committing := True\<rparr>) = Inr s4" using s4(1) by (simp add: s3_def)
  then have "end_op s = Inr ?t" using o c T(5) \<open>\<not> log_lock s4\<close> by (cases s; cases s4) (simp add: end_op_def Let_def)
  moreover have "txn ?t" by (rule same_bio_txn [OF sb4 _ _ _ _ _ _ s4(2)]) simp_all
  moreover have "curpid ?t = curpid s" using s4(4) by (simp add: same_rest_def s3_def)
  ultimately show ?thesis using s4(3,5,6) C4 R by (intro exI [of _ ?t]) (simp add: s3_def)
qed

section \<open>Properties\<close>

text \<open>
  C30: The reservation of \<open>begin_op\<close> is one block short. With a log of the size \<open>mkfs\<close> gives it, three operations are admitted together, each promised
  \<open>MAXOPBLOCKS\<close> blocks; but when they have logged one block less than that in all, the next \<open>log_write\<close> panics, since \<open>log_write\<close> counts the header's
  block and \<open>begin_op\<close> does not.
\<close>
theorem log_reservation_short:
  fixes s :: "'a lstate_scheme"
  assumes "log_size s = LOGSIZE" "\<not> log_lock s" "\<not> committing s" "lh_n s = 0" "outstanding s = 0"
  shows "bindR (begin_op s) (\<lambda>s1. bindR (begin_op s1) begin_op) = Inr (s\<lparr>outstanding := 3\<rparr>) \<and>
    (\<forall>(t :: 'a lstate_scheme) b. log_size t = LOGSIZE \<and> outstanding t = 3 \<and> lh_n t = 3 * MAXOPBLOCKS - 1 \<longrightarrow>
      log_write b t = Inl (Panic ''too big a transaction''))"
  using assms by (cases s) (simp add: begin_op_def log_write_def LOGSIZE_def MAXOPBLOCKS_def Let_def)

text \<open>A disk as \<open>mkfs\<close> lays it out: the superblock in block 1, the log in the thirty blocks from block 2.\<close>

definition demo_fs :: "u32 \<Rightarrow> block" where
  "demo_fs n = (if n = 1 then put32 16 2 (put32 12 30 (\<lambda>_. 0)) else (\<lambda>_. 0))"

definition demo_geom :: lstate where
  "demo_geom = (boot_log demo_fs)\<lparr>log_start := 2, log_size := 30, log_dev := 1\<rparr>"

lemma demo_fs_ok: "disk_ok demo_geom demo_fs" "rec_n 2 demo_fs = 0"
proof -
  have g: "get32 (demo_fs 1) 16 = 2" "get32 (demo_fs 1) 12 = 30" by (simp_all add: demo_fs_def get32_put32_other)
  have z: "get32 (demo_fs 2) 0 = 0" by (simp add: demo_fs_def get32_def)
  show r: "rec_n 2 demo_fs = 0" using z by (simp add: rec_n_def)
  show "disk_ok demo_geom demo_fs" using g r
    by (simp add: disk_ok_def demo_geom_def log_geom_def log_area_def sb_of_def NBUF_def word_le_nat_alt)
qed

text \<open>The first operation after boot changes block 100.\<close>

lemma demo_tx:
  "\<exists>s0 s1 s :: lstate. initlog 1 (boot_log demo_fs) = Inr s0 \<and> begin_op s0 = Inr s1 \<and> log_update 100 (\<lambda>_ _. 7) s1 = Inr s \<and> txn s \<and> held s = {} \<and>
    lh_n s = 1 \<and> log_start s = 2 \<and> log_size s = 30 \<and> log_dev s = 1 \<and> dirtyb s = {100} \<and> disk s 1 = disk s0 1 \<and> content s 1 100 = (\<lambda>_. 7) \<and>
    disk s0 1 = demo_fs(2 := put32 0 0 (\<lambda>_. 0)) \<and> outstanding s = 1 \<and> \<not> committing s"
proof -
  note D = demo_fs_ok
  have W: "recover_writes demo_geom demo_fs = [(2, put32 0 0 (\<lambda>_. 0))]" using D(2) by (simp add: recover_writes_def demo_geom_def to_home_def demo_fs_def)
  obtain s0 where s0: "initlog 1 (boot_log demo_fs) = Inr s0" "bc_ok s0" "held s0 = {}" "dirtyb s0 = {}" "disk s0 1 = puts (recover_writes demo_geom demo_fs) demo_fs"
    "lh_n s0 = 0" "log_start s0 = 2" "log_size s0 = 30" "log_dev s0 = 1" "outstanding s0 = 0" "\<not> committing s0" "\<not> log_lock s0"
    using initlog_ok [OF D(1)] by (auto simp: demo_geom_def)
  let ?s1 = "s0\<lparr>outstanding := 1\<rparr>"
  have s1: "begin_op s0 = Inr ?s1" using begin_op_ok [of s0] s0 by (simp add: lstate_back LOGSIZE_def MAXOPBLOCKS_def)
  have sb: "same_bio s0 ?s1" by (rule same_bio_log(4))
  note C = same_bio_cong [OF sb] same_bio_fields [OF sb]
  have tx0: "txn s0" using s0 by (simp add: txn_def log_geom_def homes_ok_def NBUF_def)
  have tx1: "txn ?s1" by (rule same_bio_txn [OF sb _ _ _ _ _ _ tx0]) (simp_all add: s0)
  have p: "(100 :: u32) < FSSIZE" "100 \<notin> log_area ?s1" "1 \<le> outstanding ?s1" "lh_n ?s1 + 1 < log_size ?s1" "lh_n ?s1 + int (card (held ?s1)) < int NBUF"
    "lh_n ?s1 + 1 < int NBUF" using s0 C by (simp_all add: FSSIZE_def log_area_def NBUF_def)
  have nh: "buf_blockno (bufs ?s1 b) \<noteq> 100" if "b \<in> held ?s1" for b using that C s0(3) by simp
  obtain s where s: "log_update 100 (\<lambda>_ _. 7) ?s1 = Inr s" "updated 100 (\<lambda>_. 7) ?s1 s" using log_update_ok [OF tx1 p(1,2) nh p(3-6)] by blast
  have u: "txn s" "held s = {}" "content s 1 100 = (\<lambda>_. 7)" "disk s 1 = disk s0 1" "dirtyb s = {100}" "lh_n s \<le> 1" "log_start s = 2" "log_size s = 30"
    "log_dev s = 1" "outstanding s = 1" "\<not> committing s" using s(2) s0 C unfolding updated_def by simp_all
  have "nat (lh_n s) = 1" using txn_card [OF u(1)] u(5) by simp
  then have "lh_n s = 1" by simp
  then show ?thesis using s0(1,5) s1 s(1) u W by auto
qed

theorem commit_atomic_witness:
  "\<exists>(s :: lstate) t ws. txn s \<and> lh_n s = 1 \<and> lh_block s 0 = 100 \<and> commit s = Inr t \<and> disk t 1 100 = (\<lambda>_. 7) \<and>
    (\<exists>u. initlog 1 (boot_log (puts (take 1 ws) (disk s 1))) = Inr u \<and> disk u 1 100 = (\<lambda>_. 0)) \<and>
    (\<exists>u. initlog 1 (boot_log (puts (take 2 ws) (disk s 1))) = Inr u \<and> disk u 1 100 = (\<lambda>_. 7))"
proof -
  obtain s0 s1 s :: lstate where s: "txn s" "held s = {}" "lh_n s = 1" "log_start s = 2" "log_size s = 30" "log_dev s = 1" "dirtyb s = {100}"
    "disk s 1 = disk s0 1" "content s 1 100 = (\<lambda>_. 7)" "disk s0 1 = demo_fs(2 := put32 0 0 (\<lambda>_. 0))" using demo_tx by blast
  have b: "lh_block s 0 = 100" using txnD(4) [OF s(1)] s(3,7) by (simp add: lessThan_Suc)
  have d: "disk s 1 = demo_fs(2 := put32 0 0 (\<lambda>_. 0))" using s(8,10) by simp
  have n0: "rec_n 2 (disk s 1) = 0" by (simp add: rec_n_def d)
  have "log_area s = log_area demo_geom" using s by (simp add: log_area_def demo_geom_def)
  then have D: "disk_ok s (disk s 1)" using disk_okD(1-4) [OF demo_fs_ok(1)] s n0 d
    by (simp add: disk_ok_def log_geom_def demo_geom_def NBUF_def)
  have one: "\<forall>i<nat (lh_n s). lh_block s i \<noteq> 1" using s(3) b by simp
  have "0 < lh_n s" "rec_n (log_start s) (disk s 1) = 0" using s n0 by simp_all
  from commit_atomic [OF txn_tx [OF s(1,2)] this(1) D this(2) one] obtain t ws where t: "commit s = Inr t" "\<forall>b. b \<notin> log_area s \<longrightarrow> disk t 1 b = content s 1 b"
    "\<forall>k E. power_cycles (puts (take k ws) (disk s 1)) E \<longrightarrow> (\<exists>u. initlog 1 (boot_log E) = Inr u \<and> lh_n u = 0 \<and>
        (\<forall>b. b \<notin> log_area s \<longrightarrow> disk u 1 b = (if k \<le> nat (lh_n s) then disk s 1 b else content s 1 b)))" by blast
  have a: "100 \<notin> log_area s" using s(4,5) by (simp add: log_area_def)
  have z: "disk s 1 100 = (\<lambda>_. 0)" using d by (simp add: demo_fs_def)
  have "\<exists>u. initlog 1 (boot_log (puts (take k ws) (disk s 1))) = Inr u \<and> disk u 1 100 = (if k \<le> 1 then (\<lambda>_. 0) else (\<lambda>_. 7))" for k
    using t(3) [rule_format, OF power_cycles.off, of k] a z s(3,9) by auto
  from this [of 1] this [of 2] show ?thesis using s(1,3,9) b t(1,2) a
    by (intro exI [of _ s] exI [of _ t] exI [of _ ws]) simp
qed

theorem log_reservation_short_witness:
  "\<exists>s t :: lstate. bindR (begin_op s) (\<lambda>s1. bindR (begin_op s1) begin_op) = Inr t \<and> lh_n t + outstanding t * MAXOPBLOCKS \<le> LOGSIZE \<and>
    log_write 0 (t\<lparr>lh_n := 29\<rparr>) = Inl (Panic ''too big a transaction'')"
proof -
  let ?s = "demo_geom\<lparr>log_lock := False, committing := False, lh_n := 0, outstanding := 0\<rparr>"
  have s: "log_size ?s = LOGSIZE" "\<not> log_lock ?s" "\<not> committing ?s" "lh_n ?s = 0" "outstanding ?s = 0"
    by (simp_all add: demo_geom_def LOGSIZE_def MAXOPBLOCKS_def)
  show ?thesis using log_reservation_short [OF s] s(1)
    by (intro exI [of _ ?s] exI [of _ "?s\<lparr>outstanding := 3\<rparr>"]) (simp add: LOGSIZE_def MAXOPBLOCKS_def)
qed

end
