(* ===== verification/Fs.thy ===== *)
theory Fs
  imports Log
begin

text \<open>
  The file system (\<open>fs.c\<close>, \<open>fs.h\<close>, \<open>stat.h\<close>, the inode of \<open>file.h\<close>): blocks, inodes and their cache, the contents of files, directories, path names. The state extends that of the log. An
  inode is named by its index in the cache, the pointer \<open>0\<close> is \<open>None\<close>. What is read into or written from the caller's memory is a list or a function of
  positions. One process runs at a time; \<open>Blocks\<close> is returned where it would sleep for a lock.
\<close>

section \<open>Layout of the disk structures\<close>

type_synonym u16 = "16 word"

definition ROOTINO :: u32 where "ROOTINO = 1"
definition ROOTDEV :: u32 where "ROOTDEV = 1"
definition NINODE :: nat where "NINODE = 50"
definition NDEV :: int where "NDEV = 10"
definition NDIRECT :: nat where "NDIRECT = 12"
definition NINDIRECT :: nat where "NINDIRECT = BSIZE div 4"
definition MAXFILE :: nat where "MAXFILE = NDIRECT + NINDIRECT"
definition IPB :: nat where "IPB = BSIZE div 64"
definition BPB :: nat where "BPB = BSIZE * 8"
definition DIRSIZ :: nat where "DIRSIZ = 14"
definition T_DIR :: u16 where "T_DIR = 1"
definition T_FILE :: u16 where "T_FILE = 2"
definition T_DEV :: u16 where "T_DEV = 3"

definition IBLOCK :: "u32 \<Rightarrow> superblock \<Rightarrow> u32" where "IBLOCK i sb = i div of_nat IPB + sb_inodestart sb"
definition BBLOCK :: "u32 \<Rightarrow> superblock \<Rightarrow> u32" where "BBLOCK b sb = b div of_nat BPB + sb_bmapstart sb"

definition get16 :: "block \<Rightarrow> nat \<Rightarrow> u16" where
  "get16 d i = ucast (d i) OR push_bit 8 (ucast (d (i + 1)))"

definition put16 :: "nat \<Rightarrow> u16 \<Rightarrow> block \<Rightarrow> block" where
  "put16 i v d = d(i := ucast v, i + 1 := ucast (drop_bit 8 v))"

text \<open>The inode on disk, 64 bytes from byte \<open>64 * k\<close> of its block.\<close>

record dinode =
  di_type :: u16
  di_major :: u16
  di_minor :: u16
  di_nlink :: u16
  di_size :: u32
  di_addrs :: "nat \<Rightarrow> u32"

definition get_dinode :: "block \<Rightarrow> nat \<Rightarrow> dinode" where
  "get_dinode d k = \<lparr>di_type = get16 d (64 * k), di_major = get16 d (64 * k + 2), di_minor = get16 d (64 * k + 4), di_nlink = get16 d (64 * k + 6),
     di_size = get32 d (64 * k + 8), di_addrs = (\<lambda>i. if i \<le> NDIRECT then get32 d (64 * k + 12 + 4 * i) else 0)\<rparr>"

definition put_dinode :: "nat \<Rightarrow> dinode \<Rightarrow> block \<Rightarrow> block" where
  "put_dinode k di d =
     fold (\<lambda>i. put32 (64 * k + 12 + 4 * i) (di_addrs di i)) [0..<Suc NDIRECT]
       (put32 (64 * k + 8) (di_size di) (put16 (64 * k + 6) (di_nlink di) (put16 (64 * k + 4) (di_minor di)
         (put16 (64 * k + 2) (di_major di) (put16 (64 * k) (di_type di) d)))))"

record dirent =
  de_inum :: u16
  de_name :: "u8 list"

section \<open>State\<close>

text \<open>
  The inode cache, the superblock, the current directory of the running process and the device table are added to the log's
  state. An inode is named by its index in the cache. A device function is called with its arguments and gives its result; what was written to devices is recorded.
\<close>

record inode =
  i_dev :: u32
  i_inum :: u32
  i_ref :: int
  i_lock :: sleeplock
  i_valid :: bool
  i_type :: u16
  i_major :: u16
  i_minor :: u16
  i_nlink :: u16
  i_size :: u32
  i_addrs :: "nat \<Rightarrow> u32"

record fstate = lstate +
  icache_lock :: bool
  inodes :: "nat \<Rightarrow> inode"
  sb :: superblock
  cwd :: nat
  devsw_read :: "nat \<Rightarrow> (u32 \<Rightarrow> (int \<times> u8 list) res) option"
  devsw_write :: "nat \<Rightarrow> (u8 list \<Rightarrow> int res) option"
  dev_out :: "(nat \<times> u8 list) list"

definition inode_upd :: "nat \<Rightarrow> (inode \<Rightarrow> inode) \<Rightarrow> 'a fstate_scheme \<Rightarrow> 'a fstate_scheme" where
  "inode_upd ip f s = s\<lparr>inodes := (inodes s)(ip := f (inodes s ip))\<rparr>"

section \<open>Blocks\<close>

definition bzero :: "u32 \<Rightarrow> u32 \<Rightarrow> 'a fstate_scheme \<Rightarrow> 'a fstate_scheme res" where
  "bzero dev bno s =
     bindR (bread dev bno s) (\<lambda>(bp, s1).
     bindR (log_write bp (modify bp (\<lambda>_ _. 0) s1)) (brelse bp))"

text \<open>The loop of \<open>balloc\<close> over the blocks of the bitmap, from block number \<open>b\<close> on; \<open>sz\<close> is \<open>sb.size\<close>.\<close>

function balloc_loop :: "nat \<Rightarrow> u32 \<Rightarrow> nat \<Rightarrow> 'a fstate_scheme \<Rightarrow> (u32 \<times> 'a fstate_scheme) res" where
  "balloc_loop sz dev b s =
     (if b < sz then
        bindR (bread dev (BBLOCK (of_nat b) (sb s)) s) (\<lambda>(bp, s1).
        case first_index (\<lambda>bi. buf_data (bufs s1 bp) (bi div 8) AND push_bit (bi mod 8) 1 = 0) (min BPB (sz - b)) of
          Some bi \<Rightarrow>
            let s2 = modify bp (\<lambda>d. d(bi div 8 := d (bi div 8) OR push_bit (bi mod 8) 1)) s1 in
            bindR (log_write bp s2) (\<lambda>s3.
            bindR (brelse bp s3) (\<lambda>s4.
            bindR (bzero dev (of_nat (b + bi)) s4) (\<lambda>s5. Inr (of_nat (b + bi), s5))))
        | None \<Rightarrow> bindR (brelse bp s1) (\<lambda>s2. balloc_loop sz dev (b + BPB) s2))
      else Inl (Panic ''balloc: out of blocks''))"
  by pat_completeness auto
termination by (relation "measure (\<lambda>(sz, dev, b, s). sz - b)") (auto simp: BPB_def BSIZE_def)

definition balloc :: "u32 \<Rightarrow> 'a fstate_scheme \<Rightarrow> (u32 \<times> 'a fstate_scheme) res" where
  "balloc dev s = balloc_loop (unat (sb_size (sb s))) dev 0 s"

definition bfree :: "u32 \<Rightarrow> u32 \<Rightarrow> 'a fstate_scheme \<Rightarrow> 'a fstate_scheme res" where
  "bfree dev b s =
     bindR (bread dev (BBLOCK b (sb s)) s) (\<lambda>(bp, s1).
     let bi = unat b mod BPB in
     if buf_data (bufs s1 bp) (bi div 8) AND push_bit (bi mod 8) 1 = 0 then Inl (Panic ''freeing free block'')
     else bindR (log_write bp (modify bp (\<lambda>d. d(bi div 8 := d (bi div 8) AND NOT (push_bit (bi mod 8) 1))) s1)) (brelse bp))"

section \<open>Inodes\<close>

definition iinit :: "u32 \<Rightarrow> 'a fstate_scheme \<Rightarrow> 'a fstate_scheme res" where
  "iinit dev s =
     (let s1 = s\<lparr>icache_lock := False, inodes := (\<lambda>i. if i < NINODE then (inodes s i)\<lparr>i_lock := initsleeplock\<rparr> else inodes s i)\<rparr> in
      bindR (readsb dev s1) (\<lambda>(x, s2). Inr (s2\<lparr>sb := x\<rparr>)))"

definition iget :: "u32 \<Rightarrow> u32 \<Rightarrow> 'a fstate_scheme \<Rightarrow> (nat \<times> 'a fstate_scheme) res" where
  "iget dev inum s =
     bindR (lock_take (icache_lock s)) (\<lambda>l.
     let s = s\<lparr>icache_lock := l\<rparr> in
     case first_index (\<lambda>i. 0 < i_ref (inodes s i) \<and> i_dev (inodes s i) = dev \<and> i_inum (inodes s i) = inum) NINODE of
       Some ip \<Rightarrow>
         let s1 = inode_upd ip (\<lambda>x. x\<lparr>i_ref := i_ref x + 1\<rparr>) s in
         bindR (lock_drop (icache_lock s1)) (\<lambda>l. Inr (ip, s1\<lparr>icache_lock := l\<rparr>))
     | None \<Rightarrow>
         case first_index (\<lambda>i. i_ref (inodes s i) = 0) NINODE of
           None \<Rightarrow> Inl (Panic ''iget: no inodes'')
         | Some ip \<Rightarrow>
             let s1 = inode_upd ip (\<lambda>x. x\<lparr>i_dev := dev, i_inum := inum, i_ref := 1, i_valid := False\<rparr>) s in
             bindR (lock_drop (icache_lock s1)) (\<lambda>l. Inr (ip, s1\<lparr>icache_lock := l\<rparr>)))"

definition empty_dinode :: "u16 \<Rightarrow> dinode" where
  "empty_dinode t = \<lparr>di_type = t, di_major = 0, di_minor = 0, di_nlink = 0, di_size = 0, di_addrs = (\<lambda>_. 0)\<rparr>"

text \<open>The loop of \<open>ialloc\<close> from inode number \<open>inum\<close> on; \<open>n\<close> is \<open>sb.ninodes\<close>.\<close>

function ialloc_loop :: "nat \<Rightarrow> u32 \<Rightarrow> u16 \<Rightarrow> nat \<Rightarrow> 'a fstate_scheme \<Rightarrow> (nat \<times> 'a fstate_scheme) res" where
  "ialloc_loop n dev t inum s =
     (if inum < n then
        bindR (bread dev (IBLOCK (of_nat inum) (sb s)) s) (\<lambda>(bp, s1).
        if di_type (get_dinode (buf_data (bufs s1 bp)) (inum mod IPB)) = 0
        then bindR (log_write bp (modify bp (put_dinode (inum mod IPB) (empty_dinode t)) s1)) (\<lambda>s2.
             bindR (brelse bp s2) (iget dev (of_nat inum)))
        else bindR (brelse bp s1) (\<lambda>s2. ialloc_loop n dev t (inum + 1) s2))
      else Inl (Panic ''ialloc: no inodes''))"
  by pat_completeness auto
termination by (relation "measure (\<lambda>(n, dev, t, inum, s). n - inum)") auto

definition ialloc :: "u32 \<Rightarrow> u16 \<Rightarrow> 'a fstate_scheme \<Rightarrow> (nat \<times> 'a fstate_scheme) res" where
  "ialloc dev t s = ialloc_loop (unat (sb_ninodes (sb s))) dev t 1 s"

definition dinode_of_inode :: "inode \<Rightarrow> dinode" where
  "dinode_of_inode x = \<lparr>di_type = i_type x, di_major = i_major x, di_minor = i_minor x, di_nlink = i_nlink x, di_size = i_size x, di_addrs = i_addrs x\<rparr>"

definition iupdate :: "nat \<Rightarrow> 'a fstate_scheme \<Rightarrow> 'a fstate_scheme res" where
  "iupdate ip s =
     (let x = inodes s ip in
      bindR (bread (i_dev x) (IBLOCK (i_inum x) (sb s)) s) (\<lambda>(bp, s1).
      bindR (log_write bp (modify bp (put_dinode (unat (i_inum x) mod IPB) (dinode_of_inode x)) s1)) (brelse bp)))"

definition idup :: "nat \<Rightarrow> 'a fstate_scheme \<Rightarrow> (nat \<times> 'a fstate_scheme) res" where
  "idup ip s =
     bindR (lock_take (icache_lock s)) (\<lambda>l.
     let s1 = inode_upd ip (\<lambda>x. x\<lparr>i_ref := i_ref x + 1\<rparr>) (s\<lparr>icache_lock := l\<rparr>) in
     bindR (lock_drop (icache_lock s1)) (\<lambda>l. Inr (ip, s1\<lparr>icache_lock := l\<rparr>)))"

definition inode_acquiresleep :: "nat \<Rightarrow> 'a fstate_scheme \<Rightarrow> 'a fstate_scheme res" where
  "inode_acquiresleep ip s =
     bindR (acquiresleep (curpid s) (i_lock (inodes s ip))) (\<lambda>lk. Inr (inode_upd ip (\<lambda>x. x\<lparr>i_lock := lk\<rparr>) s))"

definition inode_releasesleep :: "nat \<Rightarrow> 'a fstate_scheme \<Rightarrow> 'a fstate_scheme res" where
  "inode_releasesleep ip s =
     bindR (releasesleep (curpid s) (i_lock (inodes s ip))) (\<lambda>lk. Inr (inode_upd ip (\<lambda>x. x\<lparr>i_lock := lk\<rparr>) s))"

definition load_dinode :: "dinode \<Rightarrow> inode \<Rightarrow> inode" where
  "load_dinode d x = x\<lparr>i_type := di_type d, i_major := di_major d, i_minor := di_minor d, i_nlink := di_nlink d, i_size := di_size d, i_addrs := di_addrs d\<rparr>"

definition ilock :: "nat option \<Rightarrow> 'a fstate_scheme \<Rightarrow> 'a fstate_scheme res" where
  "ilock p s =
     (case p of None \<Rightarrow> Inl (Panic ''ilock'')
      | Some ip \<Rightarrow>
          if i_ref (inodes s ip) < 1 then Inl (Panic ''ilock'')
          else bindR (inode_acquiresleep ip s) (\<lambda>s1.
            if \<not> i_valid (inodes s1 ip)
            then bindR (bread (i_dev (inodes s1 ip)) (IBLOCK (i_inum (inodes s1 ip)) (sb s1)) s1) (\<lambda>(bp, s2).
                 let dip = get_dinode (buf_data (bufs s2 bp)) (unat (i_inum (inodes s2 ip)) mod IPB);
                     s3 = inode_upd ip (load_dinode dip) s2 in
                 bindR (brelse bp s3) (\<lambda>s4.
                 let s5 = inode_upd ip (\<lambda>x. x\<lparr>i_valid := True\<rparr>) s4 in
                 if i_type (inodes s5 ip) = 0 then Inl (Panic ''ilock: no type'') else Inr s5))
            else Inr s1))"

definition iunlock :: "nat option \<Rightarrow> 'a fstate_scheme \<Rightarrow> 'a fstate_scheme res" where
  "iunlock p s =
     (case p of None \<Rightarrow> Inl (Panic ''iunlock'')
      | Some ip \<Rightarrow>
          if \<not> holdingsleep (curpid s) (i_lock (inodes s ip)) \<or> i_ref (inodes s ip) < 1 then Inl (Panic ''iunlock'')
          else inode_releasesleep ip s)"

section \<open>Inode content\<close>

definition set_addr :: "nat \<Rightarrow> nat \<Rightarrow> u32 \<Rightarrow> 'a fstate_scheme \<Rightarrow> 'a fstate_scheme" where
  "set_addr ip k a = inode_upd ip (\<lambda>x. x\<lparr>i_addrs := (i_addrs x)(k := a)\<rparr>)"

text \<open>\<open>if((addr = ip->addrs[k]) == 0) ip->addrs[k] = addr = balloc(ip->dev);\<close>\<close>

definition bmap_slot :: "nat \<Rightarrow> nat \<Rightarrow> 'a fstate_scheme \<Rightarrow> (u32 \<times> 'a fstate_scheme) res" where
  "bmap_slot ip k s =
     (let addr = i_addrs (inodes s ip) k in
      if addr = 0 then bindR (balloc (i_dev (inodes s ip)) s) (\<lambda>(a, s1). Inr (a, set_addr ip k a s1)) else Inr (addr, s))"

definition bmap :: "nat \<Rightarrow> u32 \<Rightarrow> 'a fstate_scheme \<Rightarrow> (u32 \<times> 'a fstate_scheme) res" where
  "bmap ip bn s =
     (if bn < of_nat NDIRECT then bmap_slot ip (unat bn) s
      else
        let bn = bn - of_nat NDIRECT in
        if bn < of_nat NINDIRECT
        then bindR (bmap_slot ip NDIRECT s) (\<lambda>(addr, s1).
             bindR (bread (i_dev (inodes s1 ip)) addr s1) (\<lambda>(bp, s2).
             let addr = get32 (buf_data (bufs s2 bp)) (4 * unat bn) in
             if addr = 0
             then bindR (balloc (i_dev (inodes s2 ip)) s2) (\<lambda>(a, s3).
                  bindR (log_write bp (modify bp (put32 (4 * unat bn) a) s3)) (\<lambda>s4.
                  bindR (brelse bp s4) (\<lambda>s5. Inr (a, s5))))
             else bindR (brelse bp s2) (\<lambda>s3. Inr (addr, s3))))
        else Inl (Panic ''bmap: out of range''))"

definition itrunc_direct :: "nat \<Rightarrow> nat \<Rightarrow> 'a fstate_scheme \<Rightarrow> 'a fstate_scheme res" where
  "itrunc_direct ip i s =
     (if i_addrs (inodes s ip) i \<noteq> 0
      then bindR (bfree (i_dev (inodes s ip)) (i_addrs (inodes s ip) i) s) (\<lambda>s1. Inr (set_addr ip i 0 s1))
      else Inr s)"

definition itrunc_indirect :: "nat \<Rightarrow> nat \<Rightarrow> nat \<Rightarrow> 'a fstate_scheme \<Rightarrow> 'a fstate_scheme res" where
  "itrunc_indirect ip bp j s =
     (let a = get32 (buf_data (bufs s bp)) (4 * j) in
      if a \<noteq> 0 then bfree (i_dev (inodes s ip)) a s else Inr s)"

definition itrunc :: "nat \<Rightarrow> 'a fstate_scheme \<Rightarrow> 'a fstate_scheme res" where
  "itrunc ip s =
     bindR (foldR (itrunc_direct ip) [0..<NDIRECT] s) (\<lambda>s1.
     bindR (if i_addrs (inodes s1 ip) NDIRECT \<noteq> 0
            then bindR (bread (i_dev (inodes s1 ip)) (i_addrs (inodes s1 ip) NDIRECT) s1) (\<lambda>(bp, s2).
                 bindR (foldR (itrunc_indirect ip bp) [0..<NINDIRECT] s2) (\<lambda>s3.
                 bindR (brelse bp s3) (\<lambda>s4.
                 bindR (bfree (i_dev (inodes s4 ip)) (i_addrs (inodes s4 ip) NDIRECT) s4) (\<lambda>s5.
                 Inr (set_addr ip NDIRECT 0 s5)))))
            else Inr s1) (\<lambda>s6.
     iupdate ip (inode_upd ip (\<lambda>x. x\<lparr>i_size := 0\<rparr>) s6)))"

definition iput :: "nat \<Rightarrow> 'a fstate_scheme \<Rightarrow> 'a fstate_scheme res" where
  "iput ip s =
     bindR (inode_acquiresleep ip s) (\<lambda>s1.
     bindR (if i_valid (inodes s1 ip) \<and> i_nlink (inodes s1 ip) = 0
            then bindR (lock_take (icache_lock s1)) (\<lambda>l.
                 let r = i_ref (inodes s1 ip) in
                 bindR (lock_drop l) (\<lambda>l.
                 let s2 = s1\<lparr>icache_lock := l\<rparr> in
                 if r = 1
                 then bindR (itrunc ip s2) (\<lambda>s3.
                      bindR (iupdate ip (inode_upd ip (\<lambda>x. x\<lparr>i_type := 0\<rparr>) s3)) (\<lambda>s4.
                      Inr (inode_upd ip (\<lambda>x. x\<lparr>i_valid := False\<rparr>) s4)))
                 else Inr s2))
            else Inr s1) (\<lambda>s5.
     bindR (inode_releasesleep ip s5) (\<lambda>s6.
     bindR (lock_take (icache_lock s6)) (\<lambda>l.
     let s7 = inode_upd ip (\<lambda>x. x\<lparr>i_ref := i_ref x - 1\<rparr>) (s6\<lparr>icache_lock := l\<rparr>) in
     bindR (lock_drop (icache_lock s7)) (\<lambda>l. Inr (s7\<lparr>icache_lock := l\<rparr>))))))"

definition iunlockput :: "nat \<Rightarrow> 'a fstate_scheme \<Rightarrow> 'a fstate_scheme res" where
  "iunlockput ip s = bindR (iunlock (Some ip) s) (iput ip)"

record stat =
  st_type :: u16
  st_dev :: u32
  st_ino :: u32
  st_nlink :: u16
  st_size :: u32

definition stati :: "nat \<Rightarrow> 'a fstate_scheme \<Rightarrow> stat" where
  "stati ip s = (let x = inodes s ip in
     \<lparr>st_type = i_type x, st_dev = i_dev x, st_ino = i_inum x, st_nlink = i_nlink x, st_size = i_size x\<rparr>)"

text \<open>The loops of \<open>readi\<close> and \<open>writei\<close>. \<open>off\<close> is the offset of the call, so that the loop is at \<open>off + tot\<close>.\<close>

function readi_loop :: "nat \<Rightarrow> nat \<Rightarrow> nat \<Rightarrow> nat \<Rightarrow> 'a fstate_scheme \<Rightarrow> (u8 list \<times> 'a fstate_scheme) res" where
  "readi_loop ip off n tot s =
     (if tot < n then
        bindR (bmap ip (of_nat ((off + tot) div BSIZE)) s) (\<lambda>(addr, s1).
        bindR (bread (i_dev (inodes s1 ip)) addr s1) (\<lambda>(bp, s2).
        let m = min (n - tot) (BSIZE - (off + tot) mod BSIZE);
            d = map (\<lambda>i. buf_data (bufs s2 bp) ((off + tot) mod BSIZE + i)) [0..<m] in
        bindR (brelse bp s2) (\<lambda>s3.
        bindR (readi_loop ip off n (tot + m) s3) (\<lambda>(ds, s4). Inr (d @ ds, s4)))))
      else Inr ([], s))"
  by pat_completeness auto
termination by (relation "measure (\<lambda>(ip, off, n, tot, s). n - tot)") (auto simp: BSIZE_def)

definition readi :: "nat \<Rightarrow> u32 \<Rightarrow> u32 \<Rightarrow> 'a fstate_scheme \<Rightarrow> ((int \<times> u8 list) \<times> 'a fstate_scheme) res" where
  "readi ip off n s =
     (let x = inodes s ip in
      if i_type x = T_DEV
      then if sint (i_major x) < 0 \<or> NDEV \<le> sint (i_major x) then Inr ((-1, []), s)
           else (case devsw_read s (nat (sint (i_major x))) of
                   None \<Rightarrow> Inr ((-1, []), s)
                 | Some f \<Rightarrow> bindR (f n) (\<lambda>r. Inr (r, s)))
      else if i_size x < off \<or> off + n < off then Inr ((-1, []), s)
      else let n = (if i_size x < off + n then i_size x - off else n) in
           bindR (readi_loop ip (unat off) (unat n) 0 s) (\<lambda>(ds, s1). Inr ((sint n, ds), s1)))"

function writei_loop :: "nat \<Rightarrow> (nat \<Rightarrow> u8) \<Rightarrow> nat \<Rightarrow> nat \<Rightarrow> nat \<Rightarrow> 'a fstate_scheme \<Rightarrow> 'a fstate_scheme res" where
  "writei_loop ip src off n tot s =
     (if tot < n then
        bindR (bmap ip (of_nat ((off + tot) div BSIZE)) s) (\<lambda>(addr, s1).
        bindR (bread (i_dev (inodes s1 ip)) addr s1) (\<lambda>(bp, s2).
        let m = min (n - tot) (BSIZE - (off + tot) mod BSIZE);
            p = (off + tot) mod BSIZE;
            s3 = modify bp (\<lambda>d i. if p \<le> i \<and> i < p + m then src (tot + (i - p)) else d i) s2 in
        bindR (log_write bp s3) (\<lambda>s4.
        bindR (brelse bp s4) (\<lambda>s5. writei_loop ip src off n (tot + m) s5))))
      else Inr s)"
  by pat_completeness auto
termination by (relation "measure (\<lambda>(ip, src, off, n, tot, s). n - tot)") (auto simp: BSIZE_def)

definition writei :: "nat \<Rightarrow> (nat \<Rightarrow> u8) \<Rightarrow> u32 \<Rightarrow> u32 \<Rightarrow> 'a fstate_scheme \<Rightarrow> (int \<times> 'a fstate_scheme) res" where
  "writei ip src off n s =
     (let x = inodes s ip in
      if i_type x = T_DEV
      then if sint (i_major x) < 0 \<or> NDEV \<le> sint (i_major x) then Inr (-1, s)
           else (case devsw_write s (nat (sint (i_major x))) of
                   None \<Rightarrow> Inr (-1, s)
                 | Some f \<Rightarrow> let d = map src [0..<unat n] in
                     bindR (f d) (\<lambda>r. Inr (r, s\<lparr>dev_out := dev_out s @ [(nat (sint (i_major x)), d)]\<rparr>)))
      else if i_size x < off \<or> off + n < off then Inr (-1, s)
      else if of_nat (MAXFILE * BSIZE) < off + n then Inr (-1, s)
      else bindR (writei_loop ip src (unat off) (unat n) 0 s) (\<lambda>s1.
           let off = off + n in
           if 0 < n \<and> i_size (inodes s1 ip) < off
           then bindR (iupdate ip (inode_upd ip (\<lambda>x. x\<lparr>i_size := off\<rparr>) s1)) (\<lambda>s2. Inr (sint n, s2))
           else Inr (sint n, s1)))"

section \<open>Directories\<close>

text \<open>Names are the characters before the terminating zero; the byte after the last one reads as zero.\<close>

fun strncmp_list :: "nat \<Rightarrow> u8 list \<Rightarrow> u8 list \<Rightarrow> int" where
  "strncmp_list 0 p q = 0"
| "strncmp_list (Suc n) p q =
     (let a = (case p of [] \<Rightarrow> 0 | x # _ \<Rightarrow> x); b = (case q of [] \<Rightarrow> 0 | x # _ \<Rightarrow> x) in
      if a \<noteq> 0 \<and> a = b then strncmp_list n (tl p) (tl q) else uint a - uint b)"

definition namecmp :: "u8 list \<Rightarrow> u8 list \<Rightarrow> int" where
  "namecmp s t = strncmp_list DIRSIZ s t"

text \<open>\<open>strncpy(de.name, name, DIRSIZ)\<close>: the name cut to the field, or padded with zeros.\<close>

definition strncpy_list :: "nat \<Rightarrow> u8 list \<Rightarrow> u8 list" where
  "strncpy_list n xs = take n (takeWhile (\<lambda>c. c \<noteq> 0) xs @ replicate n 0)"

definition dirent_of :: "u8 list \<Rightarrow> dirent" where
  "dirent_of bs = \<lparr>de_inum = ucast (bs ! 0) OR push_bit 8 (ucast (bs ! 1)), de_name = drop 2 bs\<rparr>"

definition dirent_bytes :: "dirent \<Rightarrow> u8 list" where
  "dirent_bytes de = ucast (de_inum de) # ucast (drop_bit 8 (de_inum de)) # de_name de"

text \<open>The loop of \<open>dirlookup\<close> from offset \<open>off\<close> on; \<open>sz\<close> is the size of the directory, which reading does not change.\<close>

function dirlookup_loop :: "nat \<Rightarrow> nat \<Rightarrow> u8 list \<Rightarrow> nat \<Rightarrow> 'a fstate_scheme \<Rightarrow> ((nat \<times> nat) option \<times> 'a fstate_scheme) res" where
  "dirlookup_loop sz dp name off s =
     (if off < sz then
        bindR (readi dp (of_nat off) 16 s) (\<lambda>((r, bs), s1).
        if r \<noteq> 16 then Inl (Panic ''dirlookup read'')
        else let de = dirent_of bs in
          if de_inum de \<noteq> 0 \<and> namecmp name (de_name de) = 0
          then bindR (iget (i_dev (inodes s1 dp)) (ucast (de_inum de)) s1) (\<lambda>(ip, s2). Inr (Some (ip, off), s2))
          else dirlookup_loop sz dp name (off + 16) s1)
      else Inr (None, s))"
  by pat_completeness auto
termination by (relation "measure (\<lambda>(sz, dp, name, off, s). sz - off)") auto

declare dirlookup_loop.simps [simp del]

definition dirlookup :: "nat \<Rightarrow> u8 list \<Rightarrow> 'a fstate_scheme \<Rightarrow> ((nat \<times> nat) option \<times> 'a fstate_scheme) res" where
  "dirlookup dp name s =
     (if i_type (inodes s dp) \<noteq> T_DIR then Inl (Panic ''dirlookup not DIR'')
      else dirlookup_loop (unat (i_size (inodes s dp))) dp name 0 s)"

text \<open>The offset of the first empty entry, or of the end of the directory.\<close>

function dirlink_slot :: "nat \<Rightarrow> nat \<Rightarrow> nat \<Rightarrow> 'a fstate_scheme \<Rightarrow> (nat \<times> 'a fstate_scheme) res" where
  "dirlink_slot sz dp off s =
     (if off < sz then
        bindR (readi dp (of_nat off) 16 s) (\<lambda>((r, bs), s1).
        if r \<noteq> 16 then Inl (Panic ''dirlink read'')
        else if de_inum (dirent_of bs) = 0 then Inr (off, s1)
        else dirlink_slot sz dp (off + 16) s1)
      else Inr (off, s))"
  by pat_completeness auto
termination by (relation "measure (\<lambda>(sz, dp, off, s). sz - off)") auto

declare dirlink_slot.simps [simp del]

definition dirlink :: "nat \<Rightarrow> u8 list \<Rightarrow> u32 \<Rightarrow> 'a fstate_scheme \<Rightarrow> (int \<times> 'a fstate_scheme) res" where
  "dirlink dp name inum s =
     bindR (dirlookup dp name s) (\<lambda>(found, s1).
     case found of
       Some (ip, _) \<Rightarrow> bindR (iput ip s1) (\<lambda>s2. Inr (-1, s2))
     | None \<Rightarrow>
         bindR (dirlink_slot (unat (i_size (inodes s1 dp))) dp 0 s1) (\<lambda>(off, s2).
         let de = \<lparr>de_inum = ucast inum, de_name = strncpy_list DIRSIZ name\<rparr> in
         bindR (writei dp (\<lambda>i. dirent_bytes de ! i) (of_nat off) 16 s2) (\<lambda>(r, s3).
         if r \<noteq> 16 then Inl (Panic ''dirlink'') else Inr (0, s3))))"

section \<open>Paths\<close>

definition SLASH :: u8 where "SLASH = 47"

text \<open>A path is the list of its characters. The element is what \<open>name\<close> holds up to its end: a zero, or \<open>DIRSIZ\<close> characters.\<close>

definition skipelem :: "u8 list \<Rightarrow> (u8 list \<times> u8 list) option" where
  "skipelem path =
     (let path = dropWhile (\<lambda>c. c = SLASH) path in
      if path = [] then None
      else let e = takeWhile (\<lambda>c. c \<noteq> SLASH) path; path = dropWhile (\<lambda>c. c \<noteq> SLASH) path; len = length e;
               name = (if DIRSIZ \<le> len then take DIRSIZ e else e) in
           Some (dropWhile (\<lambda>c. c = SLASH) path, name))"

lemma skipelem_shorter: "skipelem path = Some (path', name) \<Longrightarrow> length path' < length path"
proof -
  assume a: "skipelem path = Some (path', name)"
  let ?p = "dropWhile (\<lambda>c. c = SLASH) path"
  have p: "?p \<noteq> []" and e: "path' = dropWhile (\<lambda>c. c = SLASH) (dropWhile (\<lambda>c. c \<noteq> SLASH) ?p)"
    using a by (auto simp: skipelem_def Let_def split: if_splits)
  have "hd ?p \<noteq> SLASH" using hd_dropWhile [OF p] by simp
  then have "dropWhile (\<lambda>c. c \<noteq> SLASH) ?p = dropWhile (\<lambda>c. c \<noteq> SLASH) (tl ?p)" using p by (cases ?p) auto
  then have "length path' \<le> length (tl ?p)" unfolding e
    using length_dropWhile_le [of "\<lambda>c. c = SLASH" "dropWhile (\<lambda>c. c \<noteq> SLASH) (tl ?p)"] length_dropWhile_le [of "\<lambda>c. c \<noteq> SLASH" "tl ?p"] by simp
  also have "\<dots> < length ?p" using p by (cases ?p) auto
  also have "\<dots> \<le> length path" by (rule length_dropWhile_le)
  finally show ?thesis .
qed

text \<open>The loop of \<open>namex\<close>; \<open>nm\<close> is what \<open>name\<close> holds from the pass before.\<close>

function namex_loop :: "bool \<Rightarrow> nat \<Rightarrow> u8 list \<Rightarrow> u8 list \<Rightarrow> 'a fstate_scheme \<Rightarrow> ((nat option \<times> u8 list) \<times> 'a fstate_scheme) res" where
  "namex_loop nameiparent ip path nm s =
     (case skipelem path of
        Some (path, name) \<Rightarrow>
          bindR (ilock (Some ip) s) (\<lambda>s1.
          if i_type (inodes s1 ip) \<noteq> T_DIR then bindR (iunlockput ip s1) (\<lambda>s2. Inr ((None, name), s2))
          else if nameiparent \<and> path = [] then bindR (iunlock (Some ip) s1) (\<lambda>s2. Inr ((Some ip, name), s2))
          else bindR (dirlookup ip name s1) (\<lambda>(next, s2).
            case next of
              None \<Rightarrow> bindR (iunlockput ip s2) (\<lambda>s3. Inr ((None, name), s3))
            | Some (nxt, _) \<Rightarrow> bindR (iunlockput ip s2) (\<lambda>s3. namex_loop nameiparent nxt path name s3)))
      | None \<Rightarrow>
          if nameiparent then bindR (iput ip s) (\<lambda>s1. Inr ((None, nm), s1)) else Inr ((Some ip, nm), s))"
  by pat_completeness auto
termination by (relation "measure (\<lambda>(np, ip, path, nm, s). length path)") (auto dest: skipelem_shorter)

declare namex_loop.simps [simp del]

definition namex :: "u8 list \<Rightarrow> bool \<Rightarrow> 'a fstate_scheme \<Rightarrow> ((nat option \<times> u8 list) \<times> 'a fstate_scheme) res" where
  "namex path nameiparent s =
     bindR (if path \<noteq> [] \<and> hd path = SLASH then iget ROOTDEV ROOTINO s else idup (cwd s) s) (\<lambda>(ip, s1).
     namex_loop nameiparent ip path [] s1)"

definition namei :: "u8 list \<Rightarrow> 'a fstate_scheme \<Rightarrow> (nat option \<times> 'a fstate_scheme) res" where
  "namei path s = bindR (namex path False s) (\<lambda>((ip, _), s1). Inr (ip, s1))"

definition nameiparent :: "u8 list \<Rightarrow> 'a fstate_scheme \<Rightarrow> ((nat option \<times> u8 list) \<times> 'a fstate_scheme) res" where
  "nameiparent path s = namex path True s"

end
