(* ===== verification/FsBlocks.thy ===== *)
theory FsBlocks
  imports Fs
begin

text \<open>
  Allocation of blocks. \<open>logs\<close> is the relation of a state to a later one of the same transaction, \<open>room\<close> the space the log must still have, \<open>fs_geom\<close>
  the layout of the disk. \<open>balloc\<close> and \<open>bfree\<close> change one bit of the bitmap, \<open>bmap\<close> finds or makes a block of a file (\<open>bmapped\<close>); \<open>map_ok\<close> says that the blocks of
  a file are allocated and different.
\<close>

section \<open>Steps of a transaction\<close>

text \<open>
  \<open>logs X s C t\<close>: between \<open>s\<close> and \<open>t\<close> the blocks \<open>X\<close> have been logged, readers now see the contents \<open>C\<close>, the buffers held are the same and
  unchanged. The part of the state above the log is left open.
\<close>

definition logs :: "u32 set \<Rightarrow> 'a lstate_scheme \<Rightarrow> (u32 \<Rightarrow> block) \<Rightarrow> 'a lstate_scheme \<Rightarrow> bool" where
  "logs X s C t \<longleftrightarrow> txn t \<and> held t = held s \<and> content t 1 = C \<and> disk t = disk s \<and> writes t = writes s \<and> dirtyb t = dirtyb s \<union> X \<and>
     log_start t = log_start s \<and> log_size t = log_size s \<and> outstanding t = outstanding s \<and> committing t = committing s \<and> log_dev t = log_dev s \<and>
     curpid t = curpid s \<and> (\<forall>c\<in>held s. bufs t c = bufs s c)"

lemma logsD:
  assumes "logs X s C t"
  shows "txn t" "held t = held s" "content t 1 = C" "disk t = disk s" "writes t = writes s" "dirtyb t = dirtyb s \<union> X" "log_start t = log_start s"
    "log_size t = log_size s" "outstanding t = outstanding s" "committing t = committing s" "log_dev t = log_dev s" "curpid t = curpid s"
    "\<And>c. c \<in> held s \<Longrightarrow> bufs t c = bufs s c"
  using assms unfolding logs_def by blast+

lemma logs_refl: "txn s \<Longrightarrow> logs {} s (content s 1) s"
  by (simp add: logs_def)

lemma logs_trans:
  assumes "logs X s C t" "logs Y t D u"
  shows "logs (X \<union> Y) s D u"
  using logsD [OF assms(1)] logsD [OF assms(2)] unfolding logs_def by (simp add: Un_assoc)

lemma logs_area: "logs X s C t \<Longrightarrow> log_area t = log_area s"
  by (simp add: logs_def log_area_def)

lemma logs_count:
  assumes "logs X s C t" "txn s"
  shows "lh_n t = int (card (dirtyb s \<union> X))" "lh_n t \<le> lh_n s + int (card (X - dirtyb s))"
proof -
  note L = logsD [OF assms(1)]
  have "0 \<le> lh_n t" "0 \<le> lh_n s" using txnD(6) [OF L(1)] txnD(6) [OF assms(2)] .
  then show a: "lh_n t = int (card (dirtyb s \<union> X))" using txn_card [OF L(1)] L(6) by simp
  have "finite (dirtyb t)" by simp
  then have f: "finite (dirtyb s)" "finite X" unfolding L(6) by simp_all
  have "card (dirtyb s \<union> X) = card (dirtyb s) + card (X - dirtyb s)"
    using f card_Un_disjoint [of "dirtyb s" "X - dirtyb s"] by (simp add: Un_Diff_cancel)
  then show "lh_n t \<le> lh_n s + int (card (X - dirtyb s))" using a txn_card [OF assms(2)] txnD(6) [OF assms(2)] by simp
qed

text \<open>Room for the next block in the log and in the cache.\<close>

definition roomy :: "'a lstate_scheme \<Rightarrow> bool" where
  "roomy s \<longleftrightarrow> txn s \<and> 1 \<le> outstanding s \<and> lh_n s + 1 < log_size s \<and> lh_n s + int (card (held s)) < int NBUF \<and> lh_n s + 1 < int NBUF"

lemma log_update_logs:
  assumes r: "roomy s" and n: "n < FSSIZE" "n \<notin> log_area s" and nh: "\<And>b. b \<in> held s \<Longrightarrow> buf_blockno (bufs s b) \<noteq> n"
  shows "\<exists>t. log_update n g s = Inr t \<and> logs {n} s ((content s 1)(n := g (content s 1 n))) t \<and> lstate.more t = lstate.more s"
proof -
  have R: "txn s" "1 \<le> outstanding s" "lh_n s + 1 < log_size s" "lh_n s + int (card (held s)) < int NBUF" "lh_n s + 1 < int NBUF"
    using r unfolding roomy_def by blast+
  obtain t where t: "log_update n g s = Inr t" "updated n (g (content s 1 n)) s t" using log_update_ok [OF R(1) n nh R(2-5)] by blast
  then show ?thesis unfolding updated_def logs_def by (intro exI [of _ t]) auto
qed

text \<open>Reading a block without changing it.\<close>

lemma txn_read:
  assumes tx: "txn s" and n: "n < FSSIZE" and nh: "\<And>b. b \<in> held s \<Longrightarrow> buf_blockno (bufs s b) \<noteq> n" and room: "lh_n s + int (card (held s)) < int NBUF"
  obtains b s1 where "bread 1 n s = Inr (b, s1)" "got 1 n s b s1" "txn s1" "b \<notin> held s" "held s1 = insert b (held s)" "buf_blockno (bufs s1 b) = n"
    "buf_data (bufs s1 b) = content s 1 n" "content s1 1 = content s 1" "dirtyb s1 = dirtyb s" "same_rest s s1" "disk s1 = disk s" "writes s1 = writes s"
    "\<And>c. c \<in> held s \<Longrightarrow> bufs s1 c = bufs s c" "lh_n s1 = lh_n s"
proof -
  note T = txnD [OF tx]
  have "n \<in> dirtyb s \<or> card (held s) + card (dirtyb s) < NBUF" using room T(6) unfolding txn_card [OF tx] by linarith
  then obtain b s1 where b: "bread 1 n s = Inr (b, s1)" "got 1 n s b s1" using bread_succeeds [OF T(1) n nh] by blast
  note G = gotD [OF b(2)] and R = same_rest_log [OF gotD(2) [OF b(2)]]
  have c: "content s1 1 = content s 1" using viewsD [OF G(9)] by blast
  show ?thesis
    by (rule that [OF b txn_got [OF tx b(2)] G(4) G(5) _ G(8) c got_dirtyb [OF b(2)] G(2) G(10) G(11)]) (use G R in \<open>auto simp: bkey_def\<close>)
qed

text \<open>Releasing a buffer that was read and not changed, other than by a change that the log has.\<close>

lemma txn_unread:
  assumes tx: "txn s" and b: "b \<in> held s" and c: "buf_blockno (bufs s b) \<in> dirtyb s \<or> buf_data (bufs s b) = disk s 1 (buf_blockno (bufs s b))"
  obtains t where "brelse b s = Inr t" "txn t" "held t = held s - {b}" "content t 1 = content s 1" "disk t = disk s" "writes t = writes s"
    "dirtyb t = dirtyb s" "same_rest s t" "\<And>c. c \<noteq> b \<Longrightarrow> bufs t c = bufs s c"
proof -
  have sv: "saved s b" using c
  proof
    assume "buf_blockno (bufs s b) \<in> dirtyb s"
    then obtain d where d: "d \<in> dirty s" "buf_blockno (bufs s d) = buf_blockno (bufs s b)" by (auto simp: dirtyb_def)
    have "d < NBUF" "buf_dev (bufs s d) = 1" using d(1) bc_okD(9) [OF txnD(1) [OF tx], of d] by (auto simp: dirty_def)
    then have "d = b" using held_same_key [OF txnD(1) [OF tx] b, of d] heldD [OF b txnD(1) [OF tx]] d(2) by (simp add: bkey_def)
    then show ?thesis using d(1) by (simp add: saved_def)
  qed (simp add: saved_def)
  obtain t where t: "brelse b s = Inr t" "txn t" "held t = held s - {b}" "content t 1 = content s 1" "disk t = disk s" "writes t = writes s"
    "dirtyb t = dirtyb s" "same_rest s t" "\<forall>c. c \<noteq> b \<longrightarrow> bufs t c = bufs s c" using release_txn [OF tx b sv] by blast
  show ?thesis by (rule that [OF t(1-8)]) (use t(9) in blast)
qed

text \<open>A block of which no reader holds a buffer is dirty or as on the disk.\<close>

lemma clean_or_dirty:
  assumes "txn s" "\<And>b. b \<in> held s \<Longrightarrow> buf_blockno (bufs s b) \<noteq> n"
  shows "n \<in> dirtyb s \<or> content s 1 n = disk s 1 n"
  using unheld_disk [OF txnD(1) [OF assms(1)] _ assms(2)] by blast

lemma read_back:
  assumes tx: "txn s" and n: "n < FSSIZE" and nh: "\<And>b. b \<in> held s \<Longrightarrow> buf_blockno (bufs s b) \<noteq> n" and room: "lh_n s + int (card (held s)) < int NBUF"
  obtains b s1 t where "bread 1 n s = Inr (b, s1)" "buf_data (bufs s1 b) = content s 1 n" "same_rest s s1"
    "brelse b s1 = Inr t" "logs {} s (content s 1) t" "lstate.more t = lstate.more s"
proof -
  obtain b s1 where b: "bread 1 n s = Inr (b, s1)" "txn s1" "b \<notin> held s" "held s1 = insert b (held s)" "buf_blockno (bufs s1 b) = n"
    "buf_data (bufs s1 b) = content s 1 n" "content s1 1 = content s 1" "dirtyb s1 = dirtyb s" "same_rest s s1" "disk s1 = disk s" "writes s1 = writes s"
    "\<And>c. c \<in> held s \<Longrightarrow> bufs s1 c = bufs s c" by (rule txn_read [OF tx n nh room]) blast+
  have "buf_blockno (bufs s1 b) \<in> dirtyb s1 \<or> buf_data (bufs s1 b) = disk s1 1 (buf_blockno (bufs s1 b))"
    using clean_or_dirty [OF tx nh] b(5,6,8,10) by simp
  then obtain t where t: "brelse b s1 = Inr t" "txn t" "held t = held s1 - {b}" "content t 1 = content s1 1" "disk t = disk s1" "writes t = writes s1"
    "dirtyb t = dirtyb s1" "same_rest s1 t" "\<And>c. c \<noteq> b \<Longrightarrow> bufs t c = bufs s1 c"
    using txn_unread [OF b(2), of b] b(4) by blast
  have bt: "bufs t c = bufs s c" if "c \<in> held s" for c using b(3,12) t(9) [of c] that by auto
  have "logs {} s (content s 1) t"
    unfolding logs_def using t b(3,4,7,8,10,11) bt same_rest_log [OF b(9)] same_rest_log [OF t(8)] b(9) by (auto simp: same_rest_def)
  moreover have "lstate.more t = lstate.more s" using same_rest_log [OF b(9)] same_rest_log [OF t(8)] by simp
  ultimately show ?thesis using that [OF b(1,6,9) t(1)] by blast
qed

section \<open>The layout of the disk\<close>

text \<open>The order of the regions that \<open>mkfs\<close> writes: log, inodes, one block of bitmap, data; no larger than the disk.\<close>

definition fs_geom :: "'a fstate_scheme \<Rightarrow> bool" where
  "fs_geom s \<longleftrightarrow> sb_size (sb s) \<le> FSSIZE \<and> sb_bmapstart (sb s) < sb_size (sb s) \<and> 1 \<le> log_size s \<and>
     int (unat (log_start s)) + log_size s \<le> int (unat (sb_inodestart (sb s))) \<and>
     unat (sb_inodestart (sb s)) + unat (sb_ninodes (sb s)) div IPB < unat (sb_bmapstart (sb s))"

lemma fs_geomD:
  assumes "fs_geom s"
  shows "unat (sb_size (sb s)) \<le> 1000" "unat (sb_bmapstart (sb s)) < unat (sb_size (sb s))" "sb_bmapstart (sb s) < FSSIZE"
    "sb_bmapstart (sb s) \<notin> log_area s" "b \<in> log_area s \<Longrightarrow> b < sb_bmapstart (sb s)"
    "inum < sb_ninodes (sb s) \<Longrightarrow> unat (IBLOCK inum (sb s)) = unat (sb_inodestart (sb s)) + unat inum div IPB"
    "inum < sb_ninodes (sb s) \<Longrightarrow> IBLOCK inum (sb s) < sb_bmapstart (sb s) \<and> IBLOCK inum (sb s) \<notin> log_area s"
proof -
  have a: "unat (sb_bmapstart (sb s)) < unat (sb_size (sb s))" "int (unat (log_start s)) + log_size s \<le> int (unat (sb_inodestart (sb s)))"
    "unat (sb_inodestart (sb s)) + unat (sb_ninodes (sb s)) div IPB < unat (sb_bmapstart (sb s))" "1 \<le> log_size s"
    using assms unfolding fs_geom_def by (simp_all add: word_less_nat_alt)
  show z: "unat (sb_size (sb s)) \<le> 1000" using assms by (simp add: fs_geom_def FSSIZE_def word_le_nat_alt)
  show "unat (sb_bmapstart (sb s)) < unat (sb_size (sb s))" by (rule a)
  show "sb_bmapstart (sb s) < FSSIZE" using z a(1) by (simp add: word_less_nat_alt FSSIZE_def)
  show "sb_bmapstart (sb s) \<notin> log_area s" unfolding log_area_def mem_Collect_eq using a by linarith
  show "b \<in> log_area s \<Longrightarrow> b < sb_bmapstart (sb s)" unfolding log_area_def mem_Collect_eq word_less_nat_alt using a by linarith
  assume i: "inum < sb_ninodes (sb s)"
  have e: "unat (inum div of_nat IPB) = unat inum div IPB" by (simp add: unat_div IPB_def BSIZE_def)
  have le: "unat inum div IPB \<le> unat (sb_ninodes (sb s)) div IPB" using i by (intro div_le_mono) (simp add: word_less_nat_alt)
  have sm: "unat (sb_inodestart (sb s)) + unat inum div IPB < 1000" using le a(1,3) z by linarith
  show u: "unat (IBLOCK inum (sb s)) = unat (sb_inodestart (sb s)) + unat inum div IPB"
    unfolding IBLOCK_def using e sm by (simp add: unat_word_ariths)
  show "IBLOCK inum (sb s) < sb_bmapstart (sb s) \<and> IBLOCK inum (sb s) \<notin> log_area s"
    unfolding log_area_def mem_Collect_eq word_less_nat_alt u using le a by linarith
qed

section \<open>The bitmap\<close>

definition used_bit :: "block \<Rightarrow> nat \<Rightarrow> bool" where
  "used_bit d b \<longleftrightarrow> bit (d (b div 8)) (b mod 8)"

definition set_used :: "nat \<Rightarrow> block \<Rightarrow> block" where
  "set_used b d = d(b div 8 := d (b div 8) OR push_bit (b mod 8) 1)"

definition clear_used :: "nat \<Rightarrow> block \<Rightarrow> block" where
  "clear_used b d = d(b div 8 := d (b div 8) AND NOT (push_bit (b mod 8) 1))"

lemma bit_test: "n < 8 \<Longrightarrow> (x :: u8) AND push_bit n 1 = 0 \<longleftrightarrow> \<not> bit x n"
proof -
  assume n: "n < 8"
  have "x AND push_bit n 1 = (if bit x n then push_bit n 1 else 0)" by (rule bit_word_eqI) (use n in \<open>auto simp: bit_simps bit_exp_iff\<close>)
  moreover have "(push_bit n 1 :: u8) \<noteq> 0"
  proof
    assume "(push_bit n 1 :: u8) = 0"
    then have "bit (push_bit n 1 :: u8) n = bit (0 :: u8) n" by (simp only:)
    then show False using n by (simp add: bit_simps bit_exp_iff)
  qed
  ultimately show ?thesis by auto
qed

lemma used_test: "d (b div 8) AND push_bit (b mod 8) 1 = 0 \<longleftrightarrow> \<not> used_bit d b"
  unfolding used_bit_def by (rule bit_test) simp

lemma used_set [simp]: "used_bit (set_used b d) i \<longleftrightarrow> i = b \<or> used_bit d i"
proof -
  have "i = b" if "i div 8 = b div 8" "i mod 8 = b mod 8" using that by (metis div_mult_mod_eq)
  then show ?thesis by (auto simp: used_bit_def set_used_def bit_simps)
qed

lemma used_clear [simp]: "used_bit (clear_used b d) i \<longleftrightarrow> i \<noteq> b \<and> used_bit d i"
proof -
  have "i = b" if "i div 8 = b div 8" "i mod 8 = b mod 8" using that by (metis div_mult_mod_eq)
  then show ?thesis by (auto simp: used_bit_def clear_used_def bit_simps)
qed

definition bused :: "'a fstate_scheme \<Rightarrow> (u32 \<Rightarrow> block) \<Rightarrow> u32 \<Rightarrow> bool" where
  "bused s C b \<longleftrightarrow> used_bit (C (sb_bmapstart (sb s))) (unat b)"

text \<open>The blocks up to the bitmap itself are marked.\<close>

definition meta_used :: "'a fstate_scheme \<Rightarrow> (u32 \<Rightarrow> block) \<Rightarrow> bool" where
  "meta_used s C \<longleftrightarrow> (\<forall>b \<le> sb_bmapstart (sb s). bused s C b)"

section \<open>Room for the blocks of an operation\<close>

definition room :: "nat \<Rightarrow> 'a lstate_scheme \<Rightarrow> bool" where
  "room k s \<longleftrightarrow> txn s \<and> 1 \<le> outstanding s \<and> lh_n s + int k < log_size s \<and> lh_n s + int k < int NBUF \<and> lh_n s + int k + int (card (held s)) \<le> int NBUF"

lemma roomD: "room k s \<Longrightarrow> txn s" "room k s \<Longrightarrow> 1 \<le> outstanding s"
  by (simp_all add: room_def)

lemma room_roomy: "room k s \<Longrightarrow> 1 \<le> k \<Longrightarrow> roomy s"
  unfolding room_def roomy_def by linarith

lemma room_read: "room k s \<Longrightarrow> 1 \<le> k \<Longrightarrow> lh_n s + int (card (held s)) < int NBUF"
  unfolding room_def by linarith

lemma room_less: "room k s \<Longrightarrow> j \<le> k \<Longrightarrow> room j s"
  unfolding room_def by linarith

lemma room_logs:
  assumes "room k s" "logs X s C t" "card (X - dirtyb s) \<le> j" "j + i \<le> k"
  shows "room i t"
proof -
  note L = logsD [OF assms(2)]
  have "lh_n t \<le> lh_n s + int j" using logs_count(2) [OF assms(2) roomD(1) [OF assms(1)]] assms(3) by linarith
  then show ?thesis using assms(1,4) L(1,2,8,9) unfolding room_def by auto
qed

lemma room_logs0: "room k s \<Longrightarrow> logs {} s C t \<Longrightarrow> room k t"
  by (rule room_logs [where j = 0]) auto

text \<open>The pieces of an update, where the code looks at the block before it changes it.\<close>

lemma log_update_parts:
  assumes r: "roomy s" and n: "n < FSSIZE" "n \<notin> log_area s" and nh: "\<And>b. b \<in> held s \<Longrightarrow> buf_blockno (bufs s b) \<noteq> n"
  obtains b s1 t where "bread 1 n s = Inr (b, s1)" "buf_data (bufs s1 b) = content s 1 n" "same_rest s s1"
    "bindR (log_write b (modify b g s1)) (brelse b) = Inr t" "logs {n} s ((content s 1)(n := g (content s 1 n))) t" "lstate.more t = lstate.more s"
proof -
  have R: "txn s" "lh_n s + int (card (held s)) < int NBUF" using r unfolding roomy_def by blast+
  obtain b s1 where b: "bread 1 n s = Inr (b, s1)" "buf_data (bufs s1 b) = content s 1 n" "same_rest s s1"
    by (rule txn_read [OF R(1) n(1) nh R(2)]) blast+
  obtain t where t: "log_update n g s = Inr t" "logs {n} s ((content s 1)(n := g (content s 1 n))) t" "lstate.more t = lstate.more s"
    using log_update_logs [OF r n nh] by blast
  have "bindR (log_write b (modify b g s1)) (brelse b) = Inr t" using t(1) b(1) by (simp add: log_update_def)
  then show ?thesis using that b t(2,3) by blast
qed

lemma bzero_update: "bzero 1 n = log_update n (\<lambda>_ _. 0)"
  by (simp add: fun_eq_iff bzero_def log_update_def)

lemma more_fields:
  "lstate.more t = lstate.more s \<Longrightarrow> inodes t = inodes s \<and> sb t = sb s \<and> icache_lock t = icache_lock s \<and> cwd t = cwd s \<and>
     devsw_read t = devsw_read s \<and> devsw_write t = devsw_write s \<and> dev_out t = dev_out s \<and> fstate.more t = fstate.more s" for s t :: "'a fstate_scheme"
  by (cases s; cases t) simp

lemma BBLOCK_one: "fs_geom s \<Longrightarrow> b < FSSIZE \<Longrightarrow> BBLOCK b (sb s) = sb_bmapstart (sb s)"
proof -
  assume "b < FSSIZE"
  then have "unat (b div of_nat BPB) = 0" by (simp add: unat_div BPB_def BSIZE_def word_less_nat_alt FSSIZE_def)
  then have "b div of_nat BPB = 0" by (simp add: unat_eq_0)
  then show ?thesis by (simp add: BBLOCK_def)
qed

lemma balloc_ok:
  fixes s :: "'a fstate_scheme"
  assumes g: "fs_geom s" and m: "meta_used s (content s 1)" and r: "room 2 s"
    and h: "\<And>c. c \<in> held s \<Longrightarrow> buf_blockno (bufs s c) \<noteq> sb_bmapstart (sb s) \<and> bused s (content s 1) (buf_blockno (bufs s c))"
  defines "bm \<equiv> sb_bmapstart (sb s)" and "C \<equiv> content s 1"
  shows "balloc 1 s = Inl (Panic ''balloc: out of blocks'') \<and> (\<forall>b < sb_size (sb s). bused s C b) \<or>
    (\<exists>b t. balloc 1 s = Inr (b, t) \<and> b < sb_size (sb s) \<and> \<not> bused s C b \<and>
      logs {bm, b} s (C(bm := set_used (unat b) (C bm), b := (\<lambda>_. 0))) t \<and> lstate.more t = lstate.more s)"
proof -
  note G = fs_geomD [OF g]
  let ?sz = "unat (sb_size (sb s))"
  have "of_nat 0 < FSSIZE" by (simp add: FSSIZE_def)
  then have bb: "BBLOCK (of_nat 0) (sb s) = bm" unfolding bm_def by (rule BBLOCK_one [OF g])
  have mn: "min BPB (?sz - 0) = ?sz" using G(1) by (simp add: BPB_def BSIZE_def)
  have hb: "\<And>c. c \<in> held s \<Longrightarrow> buf_blockno (bufs s c) \<noteq> bm" using h by (simp add: bm_def)
  have z: "0 < ?sz" using G(2) by simp
  show ?thesis
  proof (cases "first_index (\<lambda>b. \<not> used_bit (C bm) b) ?sz")
    case None
    obtain b s1 t where b: "bread 1 bm s = Inr (b, s1)" "buf_data (bufs s1 b) = content s 1 bm" "brelse b s1 = Inr t" "lstate.more t = lstate.more s"
      by (rule read_back [OF roomD(1) [OF r], of bm]) (use G(3) hb room_read [OF r] in \<open>auto simp: bm_def\<close>)
    have "balloc 1 s = Inl (Panic ''balloc: out of blocks'')"
    proof -
      have f: "first_index (\<lambda>bi. buf_data (bufs s1 b) (bi div 8) AND push_bit (bi mod 8) 1 = 0) (min BPB (?sz - 0)) = None"
        unfolding mn used_test using None b(2) by (simp add: C_def)
      have e: "balloc_loop ?sz 1 (0 + BPB) t = Inl (Panic ''balloc: out of blocks'')"
        by (subst balloc_loop.simps) (use G(1) in \<open>simp add: BPB_def BSIZE_def\<close>)
      show ?thesis unfolding balloc_def
        by (subst balloc_loop.simps, unfold if_P [OF z] bb b(1) bindR_simps prod.case f option.case b(3)) (rule e)
    qed
    moreover have "bused s C b" if "b < sb_size (sb s)" for b
      using None that by (auto simp: first_index_None bused_def bm_def word_less_nat_alt)
    ultimately show ?thesis by blast
  next
    case (Some i)
    then have i: "i < ?sz" "\<not> used_bit (C bm) i" by (simp_all add: first_index_Some)
    let ?b = "of_nat i :: u32"
    have u: "unat ?b = i" using i(1) G(1) by (simp add: unat_of_nat)
    have bl: "?b < sb_size (sb s)" "?b < FSSIZE" "\<not> bused s C ?b" using i u G(1) by (simp_all add: word_less_nat_alt FSSIZE_def bused_def bm_def)
    have gt: "\<not> ?b \<le> bm" using m bl(3) by (auto simp: meta_used_def bm_def C_def)
    then have ne: "?b \<noteq> bm" "?b \<notin> log_area s" using G(5) [of ?b] by (auto simp: bm_def)
    obtain b s1 t where b: "bread 1 bm s = Inr (b, s1)" "buf_data (bufs s1 b) = content s 1 bm"
      "bindR (log_write b (modify b (set_used i) s1)) (brelse b) = Inr t" "logs {bm} s ((content s 1)(bm := set_used i (content s 1 bm))) t"
      "lstate.more t = lstate.more s"
      by (rule log_update_parts [OF room_roomy [OF r], of bm "set_used i"]) (use G(3,4) hb in \<open>auto simp: bm_def\<close>)
    note L = logsD [OF b(4)]
    have "room 1 t" by (rule room_logs [OF r b(4), of 1]) (simp_all add: card_Diff1_le insert_Diff_if)
    then have r1: "roomy t" by (rule room_roomy) simp
    have ht: "buf_blockno (bufs t c) \<noteq> ?b" if "c \<in> held t" for c using that L(2,13) h [of c] bl(3) by (auto simp: C_def)
    obtain v where v: "log_update ?b (\<lambda>_ _. 0) t = Inr v" "logs {?b} t ((content t 1)(?b := (\<lambda>_. 0))) v" "lstate.more v = lstate.more t"
      using log_update_logs [OF r1 bl(2) _ ht] ne(2) logs_area [OF b(4)] by blast
    have eq: "balloc 1 s = Inr (?b, v)"
    proof -
      have bz: "bzero 1 ?b t = Inr v" using v(1) by (simp add: bzero_update)
      have f: "first_index (\<lambda>bi. buf_data (bufs s1 b) (bi div 8) AND push_bit (bi mod 8) 1 = 0) (min BPB (?sz - 0)) = Some i"
        unfolding mn used_test using Some b(2) by (simp add: C_def)
      obtain s3 where "log_write b (modify b (set_used i) s1) = Inr s3" "brelse b s3 = Inr t" using b(3) by (auto simp: bindR_eq_Inr)
      then show ?thesis unfolding balloc_def
        by (subst balloc_loop.simps, unfold if_P [OF z] bb b(1) bindR_simps prod.case f option.case) (use bz in \<open>simp add: set_used_def [abs_def] Let_def\<close>)
    qed
    have "logs {bm, ?b} s (C(bm := set_used i (C bm), ?b := (\<lambda>_. 0))) v"
      using logs_trans [OF b(4) v(2)] L(3) by (simp add: C_def insert_commute)
    then show ?thesis using eq bl(1,3) b(5) v(3) u by (intro disjI2 exI [of _ ?b] exI [of _ v]) simp
  qed
qed

lemma bfree_ok:
  fixes s :: "'a fstate_scheme"
  assumes g: "fs_geom s" and r: "room 1 s" and b: "b < FSSIZE" "bused s (content s 1) b"
    and h: "\<And>c. c \<in> held s \<Longrightarrow> buf_blockno (bufs s c) \<noteq> sb_bmapstart (sb s)"
  defines "bm \<equiv> sb_bmapstart (sb s)" and "C \<equiv> content s 1"
  shows "\<exists>t. bfree 1 b s = Inr t \<and> logs {bm} s (C(bm := clear_used (unat b) (C bm))) t \<and> lstate.more t = lstate.more s"
proof -
  note G = fs_geomD [OF g]
  have bb: "BBLOCK b (sb s) = bm" unfolding bm_def by (rule BBLOCK_one [OF g b(1)])
  have md: "unat b mod BPB = unat b" using b(1) by (simp add: word_less_nat_alt FSSIZE_def BPB_def BSIZE_def)
  obtain p s1 t where p: "bread 1 bm s = Inr (p, s1)" "buf_data (bufs s1 p) = content s 1 bm"
      "bindR (log_write p (modify p (clear_used (unat b)) s1)) (brelse p) = Inr t" "logs {bm} s ((content s 1)(bm := clear_used (unat b) (content s 1 bm))) t"
      "lstate.more t = lstate.more s"
    by (rule log_update_parts [OF room_roomy [OF r], of bm "clear_used (unat b)"]) (use G(3,4) h in \<open>auto simp: bm_def\<close>)
  have u: "\<not> buf_data (bufs s1 p) (unat b div 8) AND push_bit (unat b mod 8) 1 = 0"
    unfolding used_test using b(2) p(2) by (simp add: bused_def bm_def)
  have "bfree 1 b s = Inr t" unfolding bfree_def bb p(1) bindR_simps prod.case md Let_def if_not_P [OF u] using p(3) by (simp add: clear_used_def [abs_def])
  then show ?thesis using p(4,5) by (auto simp: C_def)
qed

section \<open>Inodes on the disk\<close>

lemma get16_put16_same [simp]: "get16 (put16 i v d) i = v"
  by (rule bit_word_eqI) (auto simp: get16_def put16_def bit_simps)

lemma put16_other: "j < i \<or> i + 2 \<le> j \<Longrightarrow> put16 i v d j = d j"
  by (auto simp: put16_def)

lemma put32_other: "j < i \<or> i + 4 \<le> j \<Longrightarrow> put32 i v d j = d j"
  by (auto simp: put32_def)

lemma get16_other: "(\<And>j. i \<le> j \<Longrightarrow> j < i + 2 \<Longrightarrow> d j = e j) \<Longrightarrow> get16 d i = get16 e i"
  by (simp add: get16_def)

lemma get32_other: "(\<And>j. i \<le> j \<Longrightarrow> j < i + 4 \<Longrightarrow> d j = e j) \<Longrightarrow> get32 d i = get32 e i"
  by (simp add: get32_def)

definition put_addrs :: "nat \<Rightarrow> (nat \<Rightarrow> u32) \<Rightarrow> nat \<Rightarrow> block \<Rightarrow> block" where
  "put_addrs o1 a n d = fold (\<lambda>i. put32 (o1 + 4 * i) (a i)) [0..<n] d"

lemma put_addrs_other: "j < o1 \<or> o1 + 4 * n \<le> j \<Longrightarrow> put_addrs o1 a n d j = d j"
  unfolding put_addrs_def by (induction n) (auto simp: put32_other)

lemma put_addrs_get: "i < n \<Longrightarrow> get32 (put_addrs o1 a n d) (o1 + 4 * i) = a i"
proof (induction n)
  case (Suc n)
  have e: "put_addrs o1 a (Suc n) d = put32 (o1 + 4 * n) (a n) (put_addrs o1 a n d)" by (simp add: put_addrs_def)
  show ?case
  proof (cases "i = n")
    case False
    then have "o1 + 4 * i + 4 \<le> o1 + 4 * n" using Suc.prems by simp
    then show ?thesis using Suc False unfolding e by (simp add: get32_put32_other)
  qed (simp add: e)
qed simp

lemma put_dinode_eq: "put_dinode k di d = put_addrs (64 * k + 12) (di_addrs di) 13 (put32 (64 * k + 8) (di_size di) (put16 (64 * k + 6) (di_nlink di)
    (put16 (64 * k + 4) (di_minor di) (put16 (64 * k + 2) (di_major di) (put16 (64 * k) (di_type di) d)))))"
  by (simp add: put_dinode_def put_addrs_def NDIRECT_def)

lemma put_dinode_other: "j < 64 * k \<or> 64 * k + 64 \<le> j \<Longrightarrow> put_dinode k di d j = d j"
  by (auto simp: put_dinode_eq put_addrs_other put32_other put16_other)

lemma get_dinode_cong: "(\<And>j. 64 * k \<le> j \<Longrightarrow> j < 64 * k + 64 \<Longrightarrow> d j = e j) \<Longrightarrow> get_dinode d k = get_dinode e k"
  unfolding get_dinode_def
  by (intro dinode.equality) (auto simp: fun_eq_iff NDIRECT_def intro!: get16_other get32_other)

lemma get_put_dinode_other: "j \<noteq> k \<Longrightarrow> get_dinode (put_dinode k di d) j = get_dinode d j"
  by (rule get_dinode_cong, rule put_dinode_other) linarith

lemma get_put_dinode_same: "(\<And>i. NDIRECT < i \<Longrightarrow> di_addrs di i = 0) \<Longrightarrow> get_dinode (put_dinode k di d) k = di"
proof -
  assume z: "\<And>i. NDIRECT < i \<Longrightarrow> di_addrs di i = 0"
  have g: "get16 (put_addrs (64 * k + 12) a 13 (put32 (64 * k + 8) v e)) (64 * k + m) = get16 e (64 * k + m)" if "m \<le> 6" for m a v e
    by (rule get16_other) (use that in \<open>auto simp: put_addrs_other put32_other\<close>)
  have s: "get32 (put_addrs (64 * k + 12) a 13 (put32 (64 * k + 8) v e)) (64 * k + 8) = v" for a v e
    using get32_other [of "64 * k + 8" "put_addrs (64 * k + 12) a 13 (put32 (64 * k + 8) v e)" "put32 (64 * k + 8) v e"] by (simp add: put_addrs_other)
  have g2: "get16 (put16 (64 * k + i) v e) (64 * k + m) = get16 e (64 * k + m)" if "m + 2 \<le> i" for i m v e
    by (rule get16_other) (use that in \<open>auto simp: put16_other\<close>)
  have ad: "(\<lambda>i. if i \<le> NDIRECT then get32 (put_addrs (64 * k + 12) (di_addrs di) 13 e) (64 * k + 12 + 4 * i) else 0) = di_addrs di" for e
    using z put_addrs_get [of _ 13 "64 * k + 12" "di_addrs di" e] by (auto simp: fun_eq_iff NDIRECT_def)
  show ?thesis unfolding get_dinode_def put_dinode_eq ad s
    using g [of 0] g [of 2] g [of 4] g [of 6] g2 [of 0 2] g2 [of 0 4] g2 [of 0 6] g2 [of 2 4] g2 [of 2 6] g2 [of 4 6]
    by (intro dinode.equality) simp_all
qed

lemma iupdate_ok:
  fixes s :: "'a fstate_scheme"
  assumes g: "fs_geom s" and r: "room 1 s" and d: "i_dev (inodes s ip) = 1" "i_inum (inodes s ip) < sb_ninodes (sb s)"
    and h: "\<And>c. c \<in> held s \<Longrightarrow> buf_blockno (bufs s c) \<noteq> IBLOCK (i_inum (inodes s ip)) (sb s)"
  defines "ib \<equiv> IBLOCK (i_inum (inodes s ip)) (sb s)" and "C \<equiv> content s 1"
  shows "\<exists>t. iupdate ip s = Inr t \<and> lstate.more t = lstate.more s \<and>
    logs {ib} s (C(ib := put_dinode (unat (i_inum (inodes s ip)) mod IPB) (dinode_of_inode (inodes s ip)) (C ib))) t"
proof -
  note G = fs_geomD [OF g]
  have ib: "ib < FSSIZE" "ib \<notin> log_area s" using G(3) G(7) [OF d(2)] unfolding ib_def by auto
  have e: "iupdate ip s = log_update ib (put_dinode (unat (i_inum (inodes s ip)) mod IPB) (dinode_of_inode (inodes s ip))) s"
    by (simp add: iupdate_def log_update_def d(1) ib_def Let_def)
  show ?thesis unfolding e using log_update_logs [OF room_roomy [OF r] ib] h by (auto simp: C_def ib_def)
qed

section \<open>Changing a buffer that is held\<close>

lemma log_held:
  assumes r: "room k s" "1 \<le> k" and b: "b \<in> held s" and n: "buf_blockno (bufs s b) = n" "n \<notin> log_area s"
  shows "\<exists>t. bindR (log_write b (modify b g s)) (brelse b) = Inr t \<and> txn t \<and> held t = held s - {b} \<and>
    content t 1 = (content s 1)(n := g (content s 1 n)) \<and> disk t = disk s \<and> writes t = writes s \<and> dirtyb t = insert n (dirtyb s) \<and>
    log_start t = log_start s \<and> log_size t = log_size s \<and> outstanding t = outstanding s \<and> committing t = committing s \<and> log_dev t = log_dev s \<and>
    curpid t = curpid s \<and> lstate.more t = lstate.more s \<and> (\<forall>c. c \<noteq> b \<longrightarrow> bufs t c = bufs s c)"
proof -
  note tx = roomD(1) [OF r(1)]
  note M = modify_ok [OF txnD(1) [OF tx] b, of g] and R2 = same_rest_log [OF modify_ok(4) [OF txnD(1) [OF tx] b, of g]] log_same [OF modify_ok(4) [OF txnD(1) [OF tx] b, of g]]
  let ?s2 = "modify b g s"
  have rr: "1 \<le> outstanding s" "lh_n s + 1 < log_size s" "lh_n s + 1 < int NBUF" using r unfolding room_def by linarith+
  have h2: "b \<in> held ?s2" "buf_blockno (bufs ?s2 b) = n" using b n M(2,8) by simp_all
  have p: "n \<notin> log_area ?s2" "1 \<le> outstanding ?s2" "lh_n ?s2 + 1 < log_size ?s2" "lh_n ?s2 + 1 < int NBUF" using n(2) rr R2 by simp_all
  obtain s3 where s3: "log_write b ?s2 = Inr s3" "logged n ?s2 s3" "bufs s3 = (bufs ?s2)(b := (bufs ?s2 b)\<lparr>B_DIRTY := True\<rparr>)"
    using log_write_ok [OF txn_modify [OF tx b] h2 p] by blast
  note L = loggedD [OF s3(2)]
  have b3: "b \<in> held s3" "saved s3 b" using L(2) h2(1) s3(3) heldD [OF h2(1) M(1)] by (simp_all add: saved_def dirty_def)
  obtain t where t: "brelse b s3 = Inr t" "txn t" "held t = held s3 - {b}" "content t 1 = content s3 1" "disk t = disk s3" "writes t = writes s3"
    "dirtyb t = dirtyb s3" "same_rest s3 t" "\<forall>c. c \<noteq> b \<longrightarrow> bufs t c = bufs s3 c" using release_txn [OF L(1) b3] by blast
  have d2: "dirtyb ?s2 = dirtyb s" unfolding dirtyb_def M(3) M(8) by (intro image_cong) simp_all
  have c: "content t 1 = (content s 1)(n := g (content s 1 n))" unfolding t(4) L(3) by (rule ext) (simp add: M(5) n(1))
  have bt: "\<forall>c. c \<noteq> b \<longrightarrow> bufs t c = bufs s c" using t(9) s3(3) M(8) by simp
  have "curpid t = curpid s" using t(8) L(15) M(4) by (simp add: same_rest_def)
  then show ?thesis using s3(1) t(1,2,3,5-7) c d2 bt L M(2,6,7) R2 same_rest_log [OF t(8)] by (intro exI [of _ t]) simp
qed

section \<open>The inode cache does not matter to the log\<close>

lemma inode_upd_simps [simp]:
  "inodes (inode_upd ip f s) = (inodes s)(ip := f (inodes s ip))" "sb (inode_upd ip f s) = sb s" "icache_lock (inode_upd ip f s) = icache_lock s"
  "cwd (inode_upd ip f s) = cwd s" "devsw_read (inode_upd ip f s) = devsw_read s" "devsw_write (inode_upd ip f s) = devsw_write s"
  "dev_out (inode_upd ip f s) = dev_out s" "curpid (inode_upd ip f s) = curpid s" "bufs (inode_upd ip f s) = bufs s"
  "fstate.more (inode_upd ip f s) = fstate.more s" "outstanding (inode_upd ip f s) = outstanding s" "log_size (inode_upd ip f s) = log_size s" "lh_n (inode_upd ip f s) = lh_n s"
  "log_start (inode_upd ip f s) = log_start s" "log_dev (inode_upd ip f s) = log_dev s" "committing (inode_upd ip f s) = committing s"
  "lh_block (inode_upd ip f s) = lh_block s" "log_lock (inode_upd ip f s) = log_lock s" "disk (inode_upd ip f s) = disk s" "writes (inode_upd ip f s) = writes s"
  by (simp_all add: inode_upd_def)

lemma same_bio_inode: "same_bio s (inode_upd ip f s)"
  by (simp add: same_bio_def bstate.truncate_def inode_upd_def)

lemma bio_inode [simp]:
  "bc_ok (inode_upd ip f s) = bc_ok s" "held (inode_upd ip f s) = held s" "dirtyb (inode_upd ip f s) = dirtyb s" "content (inode_upd ip f s) d n = content s d n"
  by (rule same_bio_cong [OF same_bio_inode])+

lemma content_inode [simp]: "content (inode_upd ip f s) 1 = content s 1"
  by (rule ext) simp

lemma log_inode [simp]:
  "txn (inode_upd ip f s) = txn s" "logs X s C (inode_upd ip f t) = logs X s C t" "logs X (inode_upd ip f s) C t = logs X s C t"
  "room k (inode_upd ip f s) = room k s" "fs_geom (inode_upd ip f s) = fs_geom s" "meta_used (inode_upd ip f s) C = meta_used s C" "bused (inode_upd ip f s) = bused s"
proof -
  show t: "txn (inode_upd ip f s) = txn s" for s :: "'a fstate_scheme"
    by (simp add: txn_def log_geom_def homes_ok_def log_area_def)
  show "logs X s C (inode_upd ip f t) = logs X s C t" "logs X (inode_upd ip f s) C t = logs X s C t" by (simp_all add: logs_def t)
  show "room k (inode_upd ip f s) = room k s" by (simp add: room_def t)
  show "fs_geom (inode_upd ip f s) = fs_geom s" "meta_used (inode_upd ip f s) C = meta_used s C" "bused (inode_upd ip f s) = bused s"
    by (simp_all add: fs_geom_def meta_used_def bused_def fun_eq_iff)
qed

section \<open>The blocks of a file\<close>

definition fblock :: "(u32 \<Rightarrow> block) \<Rightarrow> inode \<Rightarrow> nat \<Rightarrow> u32" where
  "fblock C x n = (if n < NDIRECT then i_addrs x n else if i_addrs x NDIRECT = 0 then 0 else get32 (C (i_addrs x NDIRECT)) (4 * (n - NDIRECT)))"

definition data_block :: "'a fstate_scheme \<Rightarrow> (u32 \<Rightarrow> block) \<Rightarrow> u32 \<Rightarrow> bool" where
  "data_block s C a \<longleftrightarrow> sb_bmapstart (sb s) < a \<and> a < sb_size (sb s) \<and> bused s C a"

text \<open>The blocks of one file are allocated, in the data region and different from each other.\<close>

definition map_ok :: "'a fstate_scheme \<Rightarrow> (u32 \<Rightarrow> block) \<Rightarrow> inode \<Rightarrow> bool" where
  "map_ok s C x \<longleftrightarrow> (\<forall>n<MAXFILE. fblock C x n \<noteq> 0 \<longrightarrow> data_block s C (fblock C x n) \<and> fblock C x n \<noteq> i_addrs x NDIRECT) \<and>
     (i_addrs x NDIRECT \<noteq> 0 \<longrightarrow> data_block s C (i_addrs x NDIRECT)) \<and>
     (\<forall>m<MAXFILE. \<forall>n<MAXFILE. fblock C x m \<noteq> 0 \<and> fblock C x m = fblock C x n \<longrightarrow> m = n)"

lemma map_okD:
  assumes "map_ok s C x"
  shows "n < MAXFILE \<Longrightarrow> fblock C x n \<noteq> 0 \<Longrightarrow> data_block s C (fblock C x n) \<and> fblock C x n \<noteq> i_addrs x NDIRECT"
    "i_addrs x NDIRECT \<noteq> 0 \<Longrightarrow> data_block s C (i_addrs x NDIRECT)"
    "m < MAXFILE \<Longrightarrow> n < MAXFILE \<Longrightarrow> fblock C x m \<noteq> 0 \<Longrightarrow> fblock C x m = fblock C x n \<Longrightarrow> m = n"
  using assms unfolding map_ok_def by blast+

lemma map_ok_alloc:
  assumes m: "map_ok s C x" and mono: "\<And>b. bused s C b \<Longrightarrow> bused s D b" and a: "\<not> bused s C a" "data_block s D a" and bn: "bn < MAXFILE"
    and f: "\<And>n. n < MAXFILE \<Longrightarrow> fblock D y n = (if n = bn then a else fblock C x n)" and i: "i_addrs y NDIRECT = i_addrs x NDIRECT"
  shows "map_ok s D y"
  unfolding map_ok_def
proof (intro conjI allI impI)
  fix n assume n: "n < MAXFILE" "fblock D y n \<noteq> 0"
  have mono': "data_block s C b \<Longrightarrow> data_block s D b" for b using mono by (simp add: data_block_def)
  show "data_block s D (fblock D y n)" using f [OF n(1)] n a(2) map_okD(1) [OF m n(1)] mono' by auto
  have "a \<noteq> i_addrs x NDIRECT"
  proof
    assume e: "a = i_addrs x NDIRECT"
    have "a \<noteq> 0" using f [OF bn] n a by (auto simp: data_block_def)
    then show False using map_okD(2) [OF m] e a(1) by (simp add: data_block_def)
  qed
  then show "fblock D y n \<noteq> i_addrs y NDIRECT" using f [OF n(1)] n i map_okD(1) [OF m n(1)] by (auto split: if_splits)
next
  assume "i_addrs y NDIRECT \<noteq> 0"
  then show "data_block s D (i_addrs y NDIRECT)" using map_okD(2) [OF m] i mono by (simp add: data_block_def)
next
  fix k n assume k: "k < MAXFILE" "n < MAXFILE" "fblock D y k \<noteq> 0 \<and> fblock D y k = fblock D y n"
  have na: "fblock C x j \<noteq> a" if "j < MAXFILE" "a \<noteq> 0" for j using map_okD(1) [OF m that(1)] a(1) that(2) by (auto simp: data_block_def)
  show "k = n" using k f [OF k(1)] f [OF k(2)] na [OF k(1)] na [OF k(2)] map_okD(3) [OF m k(1,2)] by (auto split: if_splits)
qed

lemma map_ok_indirect:
  assumes m: "map_ok s C x" and mono: "\<And>b. bused s C b \<Longrightarrow> bused s D b" and a: "\<not> bused s C a" "data_block s D a"
    and f: "\<And>n. n < MAXFILE \<Longrightarrow> fblock D y n = fblock C x n" and i: "i_addrs y NDIRECT = a"
  shows "map_ok s D y"
  unfolding map_ok_def
proof (intro conjI allI impI)
  fix n assume n: "n < MAXFILE" "fblock D y n \<noteq> 0"
  then have d: "data_block s C (fblock C x n)" using map_okD(1) [OF m n(1)] f by simp
  then show "data_block s D (fblock D y n)" using f [OF n(1)] mono by (simp add: data_block_def)
  show "fblock D y n \<noteq> i_addrs y NDIRECT" using d a(1) f [OF n(1)] i by (auto simp: data_block_def)
next
  show "data_block s D (i_addrs y NDIRECT)" using a i by simp
next
  fix k n assume k: "k < MAXFILE" "n < MAXFILE" "fblock D y k \<noteq> 0 \<and> fblock D y k = fblock D y n"
  then show "k = n" using f [OF k(1)] f [OF k(2)] map_okD(3) [OF m k(1,2)] by auto
qed

section \<open>Allocation of a block of a file\<close>

lemma set_addr_simps [simp]: "inodes (set_addr ip k a s) = (inodes s)(ip := (inodes s ip)\<lparr>i_addrs := (i_addrs (inodes s ip))(k := a)\<rparr>)" "sb (set_addr ip k a s) = sb s"
  "logs X s' C (set_addr ip k a s) = logs X s' C s" "content (set_addr ip k a s) 1 = content s 1" "held (set_addr ip k a s) = held s"
  by (simp_all add: set_addr_def)

definition fs_same :: "'a fstate_scheme \<Rightarrow> 'a fstate_scheme \<Rightarrow> bool" where
  "fs_same s t \<longleftrightarrow> sb t = sb s \<and> icache_lock t = icache_lock s \<and> cwd t = cwd s \<and> devsw_read t = devsw_read s \<and> devsw_write t = devsw_write s \<and>
     dev_out t = dev_out s \<and> fstate.more t = fstate.more s"

lemma fs_same_refl [simp]: "fs_same s s"
  by (simp add: fs_same_def)

lemma fs_same_trans: "fs_same s t \<Longrightarrow> fs_same t u \<Longrightarrow> fs_same s u"
  by (simp add: fs_same_def)

lemma fs_same_more: "lstate.more t = lstate.more s \<Longrightarrow> fs_same s t"
  using more_fields [of t s] by (simp add: fs_same_def)

lemma fs_same_upd [simp]: "fs_same s (inode_upd ip f t) = fs_same s t" "fs_same s (set_addr ip k a t) = fs_same s t"
  by (simp_all add: fs_same_def set_addr_def)

lemma bused_same: "fs_same s t \<Longrightarrow> bused t = bused s"
  by (simp add: fs_same_def bused_def fun_eq_iff)

lemma fs_geom_logs: "logs X s C t \<Longrightarrow> fs_same s t \<Longrightarrow> fs_geom t = fs_geom s"
  by (simp add: fs_geom_def fs_same_def logs_def)

lemma meta_used_same: "fs_same s t \<Longrightarrow> meta_used t = meta_used s"
  using bused_same [of s t] by (simp add: fs_same_def meta_used_def fun_eq_iff)

lemma data_block_same: "fs_same s t \<Longrightarrow> data_block t = data_block s"
  using bused_same [of s t] by (simp add: fs_same_def data_block_def fun_eq_iff)

lemma map_ok_same: "fs_same s t \<Longrightarrow> map_ok t = map_ok s"
  using data_block_same [of s t] by (simp add: map_ok_def fun_eq_iff)

text \<open>The contents after a block has been allocated.\<close>

definition alloc_view :: "u32 \<Rightarrow> u32 \<Rightarrow> (u32 \<Rightarrow> block) \<Rightarrow> u32 \<Rightarrow> block" where
  "alloc_view bm a C = C(bm := set_used (unat a) (C bm), a := (\<lambda>_. 0))"

lemma alloc_view:
  fixes s :: "'a fstate_scheme"
  assumes m: "meta_used s C" and a: "a < sb_size (sb s)" "\<not> bused s C a"
  defines "bm \<equiv> sb_bmapstart (sb s)"
  shows "bm < a" "a \<noteq> 0" "bused s (alloc_view bm a C) b \<longleftrightarrow> b = a \<or> bused s C b" "data_block s (alloc_view bm a C) a"
    "b \<noteq> bm \<Longrightarrow> b \<noteq> a \<Longrightarrow> alloc_view bm a C b = C b" "alloc_view bm a C a = (\<lambda>_. 0)"
    "meta_used s (alloc_view bm a C)"
proof -
  show lt: "bm < a" using m a(2) unfolding meta_used_def bm_def by (meson not_le)
  then show nz: "a \<noteq> 0" by auto
  have ne: "bm \<noteq> a" using lt by auto
  show u: "bused s (alloc_view bm a C) b \<longleftrightarrow> b = a \<or> bused s C b" for b
    using ne unfolding bused_def bm_def [symmetric] alloc_view_def by (simp add: word_unat_eq_iff)
  show "data_block s (alloc_view bm a C) a" using lt a u by (simp add: data_block_def bm_def)
  show "b \<noteq> bm \<Longrightarrow> b \<noteq> a \<Longrightarrow> alloc_view bm a C b = C b" "alloc_view bm a C a = (\<lambda>_. 0)" by (simp_all add: alloc_view_def)
  show "meta_used s (alloc_view bm a C)" using m u by (simp add: meta_used_def)
qed

definition nfree :: "'a fstate_scheme \<Rightarrow> (u32 \<Rightarrow> block) \<Rightarrow> nat" where
  "nfree s C = card {b. b < sb_size (sb s) \<and> \<not> bused s C b}"

lemma nfree_pos: "1 \<le> nfree s C \<Longrightarrow> \<exists>b < sb_size (sb s). \<not> bused s C b"
  unfolding nfree_def by (metis (mono_tags, lifting) card.empty empty_Collect_eq not_one_le_zero)

lemma nfree_less:
  assumes "\<And>b. bused s D b \<Longrightarrow> bused s C b \<or> b \<in> X" "finite X"
  shows "nfree s C \<le> nfree s D + card X"
proof -
  have "{b. b < sb_size (sb s) \<and> \<not> bused s C b} \<subseteq> {b. b < sb_size (sb s) \<and> \<not> bused s D b} \<union> X" using assms(1) by blast
  then have "nfree s C \<le> card ({b. b < sb_size (sb s) \<and> \<not> bused s D b} \<union> X)" unfolding nfree_def by (intro card_mono) (simp_all add: assms(2))
  also have "\<dots> \<le> nfree s D + card X" unfolding nfree_def by (rule card_Un_le)
  finally show ?thesis .
qed

lemma nfree_same: "fs_same s t \<Longrightarrow> nfree t = nfree s"
  using bused_same [of s t] by (simp add: nfree_def fs_same_def fun_eq_iff)

lemma bmap_slot_ok:
  fixes s :: "'a fstate_scheme"
  assumes g: "fs_geom s" and m: "meta_used s (content s 1)" and r: "room 2 s" and h: "held s = {}" and d: "i_dev (inodes s ip) = 1"
    and z: "i_addrs (inodes s ip) k = 0" and fr: "1 \<le> nfree s (content s 1)"
  defines "bm \<equiv> sb_bmapstart (sb s)"
  shows "\<exists>a t. bmap_slot ip k s = Inr (a, t) \<and> a < sb_size (sb s) \<and> \<not> bused s (content s 1) a \<and>
    logs {bm, a} s (alloc_view bm a (content s 1)) t \<and> fs_same s t \<and>
    inodes t = (inodes s)(ip := (inodes s ip)\<lparr>i_addrs := (i_addrs (inodes s ip))(k := a)\<rparr>)"
proof -
  obtain a t where a: "balloc 1 s = Inr (a, t)" "a < sb_size (sb s)" "\<not> bused s (content s 1) a"
      "logs {bm, a} s (alloc_view bm a (content s 1)) t" "lstate.more t = lstate.more s"
    using balloc_ok [OF g m r] h nfree_pos [OF fr] unfolding bm_def alloc_view_def by blast
  have "bmap_slot ip k s = Inr (a, set_addr ip k a t)" using a(1) z d by (simp add: bmap_slot_def)
  then show ?thesis using a(2-4) fs_same_more [OF a(5)] more_fields [OF a(5)] by (intro exI [of _ a] exI [of _ "set_addr ip k a t"]) simp
qed

text \<open>
  \<open>bmapped ip bn s a t\<close>: \<open>bmap\<close> has returned \<open>a\<close> as block \<open>bn\<close> of the file. If the file had the block, nothing has changed;
  otherwise it is a zeroed block that no one used. No other block of the file moves, and of the blocks in use only the bitmap and the file's
  indirect block may have changed.
\<close>

definition bmapped :: "nat \<Rightarrow> nat \<Rightarrow> 'a fstate_scheme \<Rightarrow> u32 \<Rightarrow> 'a fstate_scheme \<Rightarrow> bool" where
  "bmapped ip bn s a t \<longleftrightarrow> (let C = content s 1; D = content t 1; x = inodes s ip; y = inodes t ip; bm = sb_bmapstart (sb s) in
     a \<noteq> 0 \<and> fblock D y bn = a \<and> (\<forall>m<MAXFILE. m \<noteq> bn \<longrightarrow> fblock D y m = fblock C x m) \<and>
     (fblock C x bn \<noteq> 0 \<longrightarrow> D = C \<and> inodes t = inodes s) \<and> (fblock C x bn = 0 \<longrightarrow> D a = (\<lambda>_. 0) \<and> \<not> bused s C a) \<and>
     (\<exists>ad. inodes t = (inodes s)(ip := x\<lparr>i_addrs := ad\<rparr>) \<and> (\<forall>i>NDIRECT. ad i = i_addrs x i)) \<and>
     (i_addrs x NDIRECT \<noteq> 0 \<longrightarrow> i_addrs y NDIRECT = i_addrs x NDIRECT) \<and>
     (i_addrs x NDIRECT = 0 \<and> i_addrs y NDIRECT \<noteq> 0 \<longrightarrow> \<not> bused s C (i_addrs y NDIRECT)) \<and> fs_same s t \<and> (\<exists>X \<subseteq> {bm, a} \<union> ({i_addrs y NDIRECT} - {0}). logs X s D t) \<and> (\<forall>b. bused s C b \<longrightarrow> bused s D b) \<and> (\<forall>b. bused s D b \<longrightarrow> bused s C b \<or> b \<in> {a} \<union> ({i_addrs y NDIRECT} - {0})) \<and>
     (\<forall>b. bused s C b \<and> b \<noteq> bm \<and> b \<noteq> i_addrs x NDIRECT \<longrightarrow> D b = C b) \<and> map_ok s D y \<and> meta_used s D)"

lemma bmapped_same:
  assumes "map_ok s (content s 1) (inodes s ip)" "meta_used s (content s 1)" "fblock (content s 1) (inodes s ip) bn = a" "a \<noteq> 0"
    "logs {} s (content s 1) t" "lstate.more t = lstate.more s"
  shows "bmapped ip bn s a t"
proof -
  have c: "content t 1 = content s 1" using logsD(3) [OF assms(5)] .
  have i: "inodes t = inodes s" using more_fields [OF assms(6)] by simp
  have "inodes s = (inodes s)(ip := (inodes s ip)\<lparr>i_addrs := i_addrs (inodes s ip)\<rparr>)" by simp
  then show ?thesis unfolding bmapped_def Let_def c i using assms fs_same_more [OF assms(6)] by blast
qed

lemma bmap_direct:
  fixes s :: "'a fstate_scheme"
  assumes g: "fs_geom s" and m: "meta_used s (content s 1)" and r: "room 2 s" and h: "held s = {}" and d: "i_dev (inodes s ip) = 1"
    and mo: "map_ok s (content s 1) (inodes s ip)" and k: "k < NDIRECT" and fr: "1 \<le> nfree s (content s 1)"
  shows "\<exists>a t. bmap_slot ip k s = Inr (a, t) \<and> bmapped ip k s a t"
proof (cases "i_addrs (inodes s ip) k = 0")
  case False
  then have "bmap_slot ip k s = Inr (i_addrs (inodes s ip) k, s)" by (simp add: bmap_slot_def)
  moreover have "bmapped ip k s (i_addrs (inodes s ip) k) s" using False k logs_refl [OF roomD(1) [OF r]]
    by (intro bmapped_same mo m) (simp_all add: fblock_def)
  ultimately show ?thesis by blast
next
  case True
  let ?C = "content s 1" and ?bm = "sb_bmapstart (sb s)" and ?x = "inodes s ip"
  obtain a t where 2: "bmap_slot ip k s = Inr (a, t)" "a < sb_size (sb s)" "\<not> bused s ?C a"
    "logs {?bm, a} s (alloc_view ?bm a ?C) t" "fs_same s t" "inodes t = (inodes s)(ip := ?x\<lparr>i_addrs := (i_addrs ?x)(k := a)\<rparr>)"
    using bmap_slot_ok [OF g m r h d True fr] by blast
  note A = alloc_view [OF m 2(2,3)]
  let ?D = "alloc_view ?bm a ?C" and ?y = "?x\<lparr>i_addrs := (i_addrs ?x)(k := a)\<rparr>"
  have y: "inodes t ip = ?y" using 2(6) by simp
  have c: "content t 1 = ?D" using logsD(3) [OF 2(4)] .
  have ind: "?D (i_addrs ?x NDIRECT) = ?C (i_addrs ?x NDIRECT)" if "i_addrs ?x NDIRECT \<noteq> 0"
    using map_okD(2) [OF mo that] 2(3) by (intro A(5)) (auto simp: data_block_def)
  have f: "fblock ?D ?y n = (if n = k then a else fblock ?C ?x n)" for n using k ind by (auto simp: fblock_def)
  have k': "k < MAXFILE" using k by (simp add: MAXFILE_def)
  have "map_ok s ?D ?y" by (rule map_ok_alloc [OF mo _ 2(3) A(4) k' f]) (use A(3) k in auto)
  moreover have "fblock ?C ?x k = 0" using True k by (simp add: fblock_def)
  moreover have "?D b = ?C b" if "bused s ?C b" "b \<noteq> ?bm" for b using that 2(3) by (intro A(5)) auto
  ultimately have "bmapped ip k s a t" unfolding bmapped_def Let_def c y
    using A f 2 k by (intro conjI exI [of _ "(i_addrs ?x)(k := a)"] exI [of _ "{?bm, a}"]) auto
  then show ?thesis using 2(1) by blast
qed

lemma bmappedD:
  assumes "bmapped ip bn s a t"
  shows "a \<noteq> 0" "fblock (content t 1) (inodes t ip) bn = a" "m < MAXFILE \<Longrightarrow> m \<noteq> bn \<Longrightarrow> fblock (content t 1) (inodes t ip) m = fblock (content s 1) (inodes s ip) m"
    "fblock (content s 1) (inodes s ip) bn \<noteq> 0 \<Longrightarrow> content t 1 = content s 1 \<and> inodes t = inodes s"
    "fblock (content s 1) (inodes s ip) bn = 0 \<Longrightarrow> content t 1 a = (\<lambda>_. 0) \<and> \<not> bused s (content s 1) a"
    "\<exists>ad. inodes t = (inodes s)(ip := (inodes s ip)\<lparr>i_addrs := ad\<rparr>) \<and> (\<forall>i>NDIRECT. ad i = i_addrs (inodes s ip) i)"
    "i_addrs (inodes s ip) NDIRECT \<noteq> 0 \<Longrightarrow> i_addrs (inodes t ip) NDIRECT = i_addrs (inodes s ip) NDIRECT"
    "i_addrs (inodes s ip) NDIRECT = 0 \<Longrightarrow> i_addrs (inodes t ip) NDIRECT \<noteq> 0 \<Longrightarrow> \<not> bused s (content s 1) (i_addrs (inodes t ip) NDIRECT)"
    "fs_same s t" "\<exists>X \<subseteq> {sb_bmapstart (sb s), a} \<union> ({i_addrs (inodes t ip) NDIRECT} - {0}). logs X s (content t 1) t"
    "bused s (content s 1) b \<Longrightarrow> bused s (content t 1) b"
    "bused s (content s 1) b \<Longrightarrow> b \<noteq> sb_bmapstart (sb s) \<Longrightarrow> b \<noteq> i_addrs (inodes s ip) NDIRECT \<Longrightarrow> content t 1 b = content s 1 b"
    "map_ok s (content t 1) (inodes t ip)" "meta_used s (content t 1)"
    "bused s (content t 1) b \<Longrightarrow> bused s (content s 1) b \<or> b \<in> {a} \<union> ({i_addrs (inodes t ip) NDIRECT} - {0})"
  using assms unfolding bmapped_def Let_def by blast+

text \<open>The first half of the indirect case: the file has an indirect block.\<close>

definition indirect_ready :: "nat \<Rightarrow> 'a fstate_scheme \<Rightarrow> u32 \<Rightarrow> 'a fstate_scheme \<Rightarrow> bool" where
  "indirect_ready ip s a t \<longleftrightarrow> (let C = content s 1; D = content t 1; x = inodes s ip; y = inodes t ip; bm = sb_bmapstart (sb s) in
     a \<noteq> 0 \<and> i_addrs y NDIRECT = a \<and> (i_addrs x NDIRECT \<noteq> 0 \<longrightarrow> t = s) \<and> (i_addrs x NDIRECT = 0 \<longrightarrow> \<not> bused s C a \<and> D a = (\<lambda>_. 0)) \<and>
     (\<forall>n<MAXFILE. fblock D y n = fblock C x n) \<and> inodes t = (inodes s)(ip := x\<lparr>i_addrs := (i_addrs x)(NDIRECT := a)\<rparr>) \<and> fs_same s t \<and>
     (\<exists>X \<subseteq> {bm, a}. logs X s D t) \<and> (\<forall>b. bused s C b \<longrightarrow> bused s D b) \<and> (\<forall>b. bused s D b \<longrightarrow> bused s C b \<or> b = a) \<and>
     (\<forall>b. bused s C b \<and> b \<noteq> bm \<longrightarrow> D b = C b) \<and>
     map_ok s D y \<and> meta_used s D)"

lemma indirect_readyD:
  assumes "indirect_ready ip s a t"
  shows "a \<noteq> 0" "i_addrs (inodes t ip) NDIRECT = a" "i_addrs (inodes s ip) NDIRECT \<noteq> 0 \<Longrightarrow> t = s" "i_addrs (inodes s ip) NDIRECT = 0 \<Longrightarrow> \<not> bused s (content s 1) a"
    "n < MAXFILE \<Longrightarrow> fblock (content t 1) (inodes t ip) n = fblock (content s 1) (inodes s ip) n"
    "inodes t = (inodes s)(ip := (inodes s ip)\<lparr>i_addrs := (i_addrs (inodes s ip))(NDIRECT := a)\<rparr>)" "fs_same s t"
    "bused s (content s 1) b \<Longrightarrow> bused s (content t 1) b" "bused s (content s 1) b \<Longrightarrow> b \<noteq> sb_bmapstart (sb s) \<Longrightarrow> content t 1 b = content s 1 b"
    "map_ok s (content t 1) (inodes t ip)" "meta_used s (content t 1)" "bused s (content t 1) b \<Longrightarrow> bused s (content s 1) b \<or> b = a"
  using assms unfolding indirect_ready_def Let_def by blast+

lemma get32_zero [simp]: "get32 (\<lambda>_. 0) i = 0"
  by (simp add: get32_def)

lemma bmap_indirect_block:
  fixes s :: "'a fstate_scheme"
  assumes g: "fs_geom s" and m: "meta_used s (content s 1)" and r: "room 2 s" and h: "held s = {}" and d: "i_dev (inodes s ip) = 1"
    and mo: "map_ok s (content s 1) (inodes s ip)" and fr: "1 \<le> nfree s (content s 1)"
  shows "\<exists>a t. bmap_slot ip NDIRECT s = Inr (a, t) \<and> indirect_ready ip s a t"
proof (cases "i_addrs (inodes s ip) NDIRECT = 0")
  case False
  then have "bmap_slot ip NDIRECT s = Inr (i_addrs (inodes s ip) NDIRECT, s)" by (simp add: bmap_slot_def)
  moreover have "indirect_ready ip s (i_addrs (inodes s ip) NDIRECT) s" unfolding indirect_ready_def Let_def
    using False mo m logs_refl [OF roomD(1) [OF r]] by (intro conjI exI [of _ "{}"]) auto
  ultimately show ?thesis by blast
next
  case True
  let ?C = "content s 1" and ?bm = "sb_bmapstart (sb s)" and ?x = "inodes s ip"
  obtain a t where 2: "bmap_slot ip NDIRECT s = Inr (a, t)" "a < sb_size (sb s)" "\<not> bused s ?C a"
    "logs {?bm, a} s (alloc_view ?bm a ?C) t" "fs_same s t" "inodes t = (inodes s)(ip := ?x\<lparr>i_addrs := (i_addrs ?x)(NDIRECT := a)\<rparr>)"
    using bmap_slot_ok [OF g m r h d True fr] by blast
  note A = alloc_view [OF m 2(2,3)]
  let ?D = "alloc_view ?bm a ?C" and ?y = "?x\<lparr>i_addrs := (i_addrs ?x)(NDIRECT := a)\<rparr>"
  have y: "inodes t ip = ?y" using 2(6) by simp
  have c: "content t 1 = ?D" using logsD(3) [OF 2(4)] .
  have f: "fblock ?D ?y n = fblock ?C ?x n" for n using A(2,6) True by (simp add: fblock_def)
  have "map_ok s ?D ?y" by (rule map_ok_indirect [OF mo _ 2(3) A(4) f]) (use A(3) in auto)
  moreover have "?D b = ?C b" if "bused s ?C b" "b \<noteq> ?bm" for b using that 2(3) by (intro A(5)) auto
  ultimately have "indirect_ready ip s a t" unfolding indirect_ready_def Let_def c y
    using A f 2 True by (intro conjI exI [of _ "{?bm, a}"]) auto
  then show ?thesis using 2(1) by blast
qed

text \<open>The second half, with the entry of the indirect block empty: allocate, write the entry, release.\<close>

lemma bmap_entry:
  fixes s :: "'a fstate_scheme"
  assumes g: "fs_geom s" and m: "meta_used s (content s 1)" and r: "room 4 s" and h: "held s = {}"
    and n: "data_block s (content s 1) n" and fr: "1 \<le> nfree s (content s 1)"
  defines "bm \<equiv> sb_bmapstart (sb s)" and "C \<equiv> content s 1"
  obtains p s1 a s2 t where "bread 1 n s = Inr (p, s1)" "buf_data (bufs s1 p) = C n" "same_rest s s1" "balloc 1 s1 = Inr (a, s2)" "a < sb_size (sb s)" "\<not> bused s C a"
      "bindR (log_write p (modify p (put32 k a) s2)) (brelse p) = Inr t"
      "logs {bm, a, n} s ((alloc_view bm a C)(n := put32 k a (C n))) t" "lstate.more t = lstate.more s"
proof -
  note G = fs_geomD [OF g] and tx = roomD(1) [OF r]
  have nb: "bm < n" "n < sb_size (sb s)" "bused s C n" using n by (simp_all add: data_block_def bm_def C_def)
  have nF: "n < FSSIZE" using nb(2) G(1) by (simp add: word_less_nat_alt FSSIZE_def)
  have nl: "n \<notin> log_area s" using G(5) [of n] nb(1) by (auto simp: bm_def)
  obtain p s1 where p: "bread 1 n s = Inr (p, s1)" "txn s1" "held s1 = insert p (held s)" "buf_blockno (bufs s1 p) = n" "buf_data (bufs s1 p) = content s 1 n"
    "content s1 1 = content s 1" "dirtyb s1 = dirtyb s" "same_rest s s1" "disk s1 = disk s" "writes s1 = writes s" "lh_n s1 = lh_n s"
    by (rule txn_read [OF tx nF]) (use h room_read [OF r] in auto)
  have h1: "held s1 = {p}" using p(3) h by simp
  note R = same_rest_log [OF p(8)]
  note F = more_fields [of s1 s]
  have r1: "room 3 s1" using r p(2,11) h h1 R unfolding room_def by simp
  have sm: "fs_same s s1" using R by (intro fs_same_more) simp
  have l1: "log_area s1 = log_area s" using log_same [OF p(8)] by simp
  have g1: "fs_geom s1" using g sm R by (simp add: fs_geom_def fs_same_def)
  have sb1: "sb s1 = sb s" using sm by (simp add: fs_same_def)
  have m1: "meta_used s1 (content s1 1)" using m p(6) meta_used_same [OF sm] by simp
  have hh: "buf_blockno (bufs s1 c) \<noteq> sb_bmapstart (sb s1) \<and> bused s1 (content s1 1) (buf_blockno (bufs s1 c))" if "c \<in> held s1" for c
    using that h1 p(4,6) nb(1,3) sb1 bused_same [OF sm] by (auto simp: bm_def C_def)
  have f1: "1 \<le> nfree s1 (content s1 1)" using fr nfree_same [OF sm] p(6) by simp
  obtain a s2 where 2: "balloc 1 s1 = Inr (a, s2)" "a < sb_size (sb s1)" "\<not> bused s1 (content s1 1) a"
    "logs {sb_bmapstart (sb s1), a} s1 (alloc_view (sb_bmapstart (sb s1)) a (content s1 1)) s2" "lstate.more s2 = lstate.more s1"
    using balloc_ok [OF g1 m1 room_less [OF r1] hh] nfree_pos [OF f1] unfolding alloc_view_def by auto
  have a: "a < sb_size (sb s)" "\<not> bused s C a" using 2(2,3) p(6) sb1 bused_same [OF sm] by (simp_all add: C_def)
  have na: "n \<noteq> a" using a(2) nb(3) by auto
  have L': "logs {bm, a} s1 (alloc_view bm a C) s2" using 2(4) sb1 p(6) by (simp add: bm_def C_def)
  note L = logsD [OF L']
  have "finite ({bm, a} - dirtyb s1)" "card ({bm, a} - dirtyb s1) \<le> card {bm, a}" by (auto intro: card_mono)
  then have "card ({bm, a} - dirtyb s1) \<le> 2" using card_insert_le_m1 [of 2 "{a}" bm] by (simp add: card_insert_if split: if_splits)
  then have r2: "room 1 s2" by (intro room_logs [OF r1 L', of 2]) auto
  have p2: "p \<in> held s2" "buf_blockno (bufs s2 p) = n" "n \<notin> log_area s2" using L(2) L(13) [of p] h1 p(4) nl logs_area [OF L'] l1 by simp_all
  obtain t where t: "bindR (log_write p (modify p (put32 k a) s2)) (brelse p) = Inr t" "txn t" "held t = held s2 - {p}"
    "content t 1 = (content s2 1)(n := put32 k a (content s2 1 n))" "disk t = disk s2" "writes t = writes s2" "dirtyb t = insert n (dirtyb s2)"
    "log_start t = log_start s2" "log_size t = log_size s2" "outstanding t = outstanding s2" "committing t = committing s2" "log_dev t = log_dev s2"
    "curpid t = curpid s2" "lstate.more t = lstate.more s2" using log_held [OF r2 _ p2, of "put32 k a"] by auto
  have "n \<noteq> bm" using nb(1) by auto
  then have Dn: "alloc_view bm a C n = C n" using na by (simp add: alloc_view_def)
  have "logs {bm, a, n} s ((alloc_view bm a C)(n := put32 k a (C n))) t" unfolding logs_def
    using t L h h1 p(7,9,10) R p(8) Dn by (auto simp: same_rest_def)
  then show ?thesis using that [OF p(1) _ p(8) 2(1) a t(1)] p(5) t(14) 2(5) R by (simp add: C_def)
qed

lemma get32_put32_entry: "get32 (put32 (4 * k) a d) (4 * j) = (if j = k then a else get32 d (4 * j))"
proof (cases "j = k")
  case False
  then have "4 * k + 4 \<le> 4 * j \<or> 4 * j + 4 \<le> 4 * k" by linarith
  then show ?thesis using False by (simp add: get32_put32_other)
qed simp

lemma fs_same_sb: "fs_same s t \<Longrightarrow> sb t = sb s"
  by (simp add: fs_same_def)

lemma indirect_logs: "indirect_ready ip s a t \<Longrightarrow> \<exists>X \<subseteq> {sb_bmapstart (sb s), a}. logs X s (content t 1) t"
  by (simp add: indirect_ready_def Let_def)

lemma card_sub2: "X \<subseteq> {a, b} \<Longrightarrow> card (X - Y) \<le> 2"
proof -
  assume "X \<subseteq> {a, b}"
  then have "card (X - Y) \<le> card {a, b}" by (intro card_mono) auto
  also have "\<dots> \<le> 2" by (cases "a = b") simp_all
  finally show ?thesis .
qed

text \<open>The two halves together. \<open>j\<close> is the index in the indirect block.\<close>

lemma bmapped_indirect:
  fixes s :: "'a fstate_scheme"
  assumes i: "indirect_ready ip s n u" and j: "j < NINDIRECT" and z: "fblock (content u 1) (inodes u ip) (NDIRECT + j) = 0"
    and a: "a < sb_size (sb s)" "\<not> bused s (content u 1) a"
    and t: "logs {sb_bmapstart (sb s), a, n} u ((alloc_view (sb_bmapstart (sb s)) a (content u 1))(n := put32 (4 * j) a (content u 1 n))) t" "lstate.more t = lstate.more u"
  shows "bmapped ip (NDIRECT + j) s a t"
proof -
  note I = indirect_readyD [OF i]
  let ?C = "content s 1" and ?E = "content u 1" and ?bm = "sb_bmapstart (sb s)" and ?y = "inodes u ip" and ?x = "inodes s ip" and ?bn = "NDIRECT + j"
  let ?V = "alloc_view ?bm a ?E"
  let ?D = "?V(n := put32 (4 * j) a (?E n))"
  note A = alloc_view [OF I(11) a]
  have c: "content t 1 = ?D" using logsD(3) [OF t(1)] .
  have it: "inodes t = inodes u" using more_fields [OF t(2)] by simp
  have nd: "data_block s ?E n" using map_okD(2) [OF I(10)] I(1,2) by simp
  have nn: "n \<noteq> a" "n \<noteq> ?bm" "bused s ?E n" using nd a(2) by (auto simp: data_block_def)
  have bn: "?bn < MAXFILE" using j by (simp add: MAXFILE_def)
  have f: "fblock ?D ?y m = (if m = ?bn then a else fblock ?E ?y m)" if "m < MAXFILE" for m
  proof (cases "m < NDIRECT")
    case False
    then show ?thesis using I(1,2) nn by (auto simp: fblock_def get32_put32_entry)
  qed (simp add: fblock_def)
  have us: "bused s ?D b \<longleftrightarrow> b = a \<or> bused s ?E b" for b using A(3) [of b] nn(2) by (simp add: bused_def)
  have da: "data_block s ?D a" using A(4) us by (simp add: data_block_def)
  have mo: "map_ok s ?D ?y" by (rule map_ok_alloc [OF I(10) _ a(2) da bn f]) (use us in auto)
  have me: "meta_used s ?D" using I(11) us by (simp add: meta_used_def)
  obtain X where X: "X \<subseteq> {?bm, n}" "logs X s ?E u" using indirect_logs [OF i] by blast
  have lg: "logs (X \<union> {?bm, a, n}) s ?D t" by (rule logs_trans [OF X(2) t(1)])
  have fz: "fblock ?C ?x ?bn = 0" using I(5) [OF bn] z by simp
  have aC: "\<not> bused s ?C a" using a(2) I(8) by blast
  have fr: "?D b = ?C b" if "bused s ?C b" "b \<noteq> ?bm" "b \<noteq> i_addrs ?x NDIRECT" for b
  proof -
    have "b \<noteq> n" using that I(4) I(3) I(2) by (cases "i_addrs ?x NDIRECT = 0") auto
    moreover have "b \<noteq> a" using that(1) aC by auto
    ultimately show ?thesis using A(5) [OF that(2)] I(9) [OF that(1,2)] by simp
  qed
  have Da: "?D a = (\<lambda>_. 0)" using A(6) nn(1) by simp
  have ind: "i_addrs ?y NDIRECT = i_addrs ?x NDIRECT" if "i_addrs ?x NDIRECT \<noteq> 0" using I(3) that by simp
  have fsm: "fs_same s t" by (rule fs_same_trans [OF I(7) fs_same_more [OF t(2)]])
  show ?thesis unfolding bmapped_def Let_def c it
  proof (intro conjI)
    show "\<exists>X\<subseteq>{?bm, a} \<union> ({i_addrs ?y NDIRECT} - {0}). logs X s ?D t" using lg X(1) I(1,2) by (intro exI [of _ "X \<union> {?bm, a, n}"]) auto
    show "\<exists>ad. inodes u = (inodes s)(ip := ?x\<lparr>i_addrs := ad\<rparr>) \<and> (\<forall>i>NDIRECT. ad i = i_addrs ?x i)" using I(6) by auto
    show "\<forall>m<MAXFILE. m \<noteq> ?bn \<longrightarrow> fblock ?D ?y m = fblock ?C ?x m" using f I(5) by simp
    show "i_addrs ?x NDIRECT = 0 \<and> i_addrs ?y NDIRECT \<noteq> 0 \<longrightarrow> \<not> bused s ?C (i_addrs ?y NDIRECT)" using I(2,4) by simp
    show "\<forall>b. bused s ?D b \<longrightarrow> bused s ?C b \<or> b \<in> {a} \<union> ({i_addrs ?y NDIRECT} - {0})" using us I(1,2,12) by auto
  qed (use A(2) f [OF bn] fz Da aC ind fsm us I(8) fr mo me in auto)
qed

lemma bmapped_kept:
  assumes i: "indirect_ready ip s n u" and f: "fblock (content u 1) (inodes u ip) bn = a" "a \<noteq> 0" and bn: "bn < MAXFILE" "NDIRECT \<le> bn"
    and t: "logs {} u (content u 1) t" "lstate.more t = lstate.more u"
  shows "bmapped ip bn s a t"
proof -
  note I = indirect_readyD [OF i]
  have "i_addrs (inodes s ip) NDIRECT \<noteq> 0" using I(5) [OF bn(1)] f bn(2) by (auto simp: fblock_def)
  then have e: "u = s" by (rule I(3))
  show ?thesis by (rule bmapped_same) (use I f t in \<open>simp_all add: e\<close>)
qed

lemma bmap_ok:
  fixes s :: "'a fstate_scheme"
  assumes g: "fs_geom s" and m: "meta_used s (content s 1)" and r: "room 6 s" and h: "held s = {}" and d: "i_dev (inodes s ip) = 1"
    and mo: "map_ok s (content s 1) (inodes s ip)" and bn: "bn < MAXFILE" and fr: "2 \<le> nfree s (content s 1)"
  shows "\<exists>a t. bmap ip (of_nat bn) s = Inr (a, t) \<and> bmapped ip bn s a t"
proof -
  have bs: "bn < 140" using bn by (simp add: MAXFILE_def NDIRECT_def NINDIRECT_def BSIZE_def)
  have u: "unat (of_nat bn :: u32) = bn" using bs by (simp add: unat_of_nat)
  have r2: "room 2 s" by (rule room_less [OF r]) simp
  have f1: "1 \<le> nfree s (content s 1)" using fr by simp
  show ?thesis
  proof (cases "bn < NDIRECT")
    case True
    then have lt: "(of_nat bn :: u32) < of_nat NDIRECT" using u by (simp add: word_less_nat_alt NDIRECT_def)
    have e: "bmap ip (of_nat bn) s = bmap_slot ip bn s" unfolding bmap_def using lt u by simp
    show ?thesis unfolding e by (rule bmap_direct [OF g m r2 h d mo True f1])
  next
    case False
    define j where "j = bn - NDIRECT"
    have j: "j < NINDIRECT" "bn = NDIRECT + j" using False bn by (simp_all add: j_def MAXFILE_def)
    have ge: "\<not> (of_nat bn :: u32) < of_nat NDIRECT" using False u by (simp add: word_less_nat_alt NDIRECT_def)
    have sj: "(of_nat bn :: u32) - of_nat NDIRECT = of_nat j" using j(2) by simp
    have uj: "unat (of_nat j :: u32) = j" "(of_nat j :: u32) < of_nat NINDIRECT"
      using j(1) by (simp_all add: unat_of_nat word_less_nat_alt NINDIRECT_def BSIZE_def)
    let ?k = "4 * j"
    have e: "bmap ip (of_nat bn) s = bindR (bmap_slot ip NDIRECT s) (\<lambda>(addr, s1).
             bindR (bread (i_dev (inodes s1 ip)) addr s1) (\<lambda>(bp, s2).
             let addr = get32 (buf_data (bufs s2 bp)) ?k in
             if addr = 0
             then bindR (balloc (i_dev (inodes s2 ip)) s2) (\<lambda>(a, s3).
                  bindR (log_write bp (modify bp (put32 ?k a) s3)) (\<lambda>s4. bindR (brelse bp s4) (\<lambda>s5. Inr (a, s5))))
             else bindR (brelse bp s2) (\<lambda>s3. Inr (addr, s3))))"
      unfolding bmap_def if_not_P [OF ge] Let_def sj if_P [OF uj(2)] uj(1) by (rule refl)
    obtain n v where 2: "bmap_slot ip NDIRECT s = Inr (n, v)" "indirect_ready ip s n v"
      using bmap_indirect_block [OF g m r2 h d mo f1] by blast
    note I = indirect_readyD [OF 2(2)]
    obtain X where X: "X \<subseteq> {sb_bmapstart (sb s), n}" "logs X s (content v 1) v" using indirect_logs [OF 2(2)] by blast
    have r4: "room 4 v" by (rule room_logs [OF r X(2) card_sub2 [OF X(1)]]) simp
    have gv: "fs_geom v" using g fs_geom_logs [OF X(2) I(7)] by simp
    have mv: "meta_used v (content v 1)" using I(11) meta_used_same [OF I(7)] by simp
    have hv: "held v = {}" using logsD(2) [OF X(2)] h by simp
    have dv: "i_dev (inodes v ip) = 1" using I(6) d by simp
    have nd: "data_block s (content v 1) n" using map_okD(2) [OF I(10)] I(1,2) by simp
    have ndv: "data_block v (content v 1) n" using nd data_block_same [OF I(7)] by simp
    have bm: "sb v = sb s" by (rule fs_same_sb [OF I(7)])
    have fb: "fblock (content v 1) (inodes v ip) bn = get32 (content v 1 n) ?k" using I(1,2) j(2) by (simp add: fblock_def)
    show ?thesis
    proof (cases "get32 (content v 1 n) ?k = 0")
      case False
      have nF: "n < FSSIZE" using nd fs_geomD(1) [OF g] by (simp add: data_block_def word_less_nat_alt FSSIZE_def)
      obtain p s2 t where p: "bread 1 n v = Inr (p, s2)" "buf_data (bufs s2 p) = content v 1 n" "brelse p s2 = Inr t"
        "logs {} v (content v 1) t" "lstate.more t = lstate.more v"
        by (rule read_back [OF roomD(1) [OF r4] nF]) (use hv room_read [OF r4] in auto)
      have "bmapped ip bn s (get32 (content v 1 n) ?k) t"
        by (rule bmapped_kept [OF 2(2) fb False bn _ p(4,5)]) (simp add: j(2))
      then show ?thesis unfolding e using 2(1) p(1-3) dv False by simp
    next
      case True
      have fv: "1 \<le> nfree v (content v 1)"
        using nfree_less [of s "content v 1" "content s 1" "{n}"] I(12) fr nfree_same [OF I(7)] by auto
      obtain p s1 a s2 t where e2: "bread 1 n v = Inr (p, s1)" "buf_data (bufs s1 p) = content v 1 n" "same_rest v s1" "balloc 1 s1 = Inr (a, s2)"
        "a < sb_size (sb v)" "\<not> bused v (content v 1) a" "bindR (log_write p (modify p (put32 ?k a) s2)) (brelse p) = Inr t"
        "logs {sb_bmapstart (sb v), a, n} v ((alloc_view (sb_bmapstart (sb v)) a (content v 1))(n := put32 ?k a (content v 1 n))) t" "lstate.more t = lstate.more v"
        by (rule bmap_entry [OF gv mv r4 hv ndv fv, where k = ?k]) blast
      have a: "a < sb_size (sb s)" "\<not> bused s (content v 1) a" using e2(5,6) bm bused_same [OF I(7)] by simp_all
      have B: "bmapped ip (NDIRECT + j) s a t"
        by (rule bmapped_indirect [OF 2(2) j(1) _ a]) (use True fb j(2) e2(8,9) bm in simp_all)
      have "i_dev (inodes s1 ip) = 1" using same_rest_log [OF e2(3)] more_fields [of s1 v] dv by simp
      moreover obtain s4 where "log_write p (modify p (put32 ?k a) s2) = Inr s4" "brelse p s4 = Inr t" using e2(7) by (auto simp: bindR_eq_Inr)
      ultimately have "bmap ip (of_nat bn) s = Inr (a, t)" unfolding e using 2(1) e2(1,2,4) dv True by simp
      then show ?thesis using B j(2) by auto
    qed
  qed
qed

end
