(* ===== verification/FsFile.thy ===== *)
theory FsFile
  imports FsBlocks
begin

text \<open>
  Files as sequences of bytes (\<open>fbyte\<close>) and directories as maps from names to inode numbers (\<open>dlook\<close>). \<open>file_ok\<close> is the invariant of an open file, \<open>written\<close> the effect of a
  write. The last part applies the properties to a small file system.
\<close>

section \<open>The bytes of a file\<close>

definition fbyte :: "(u32 \<Rightarrow> block) \<Rightarrow> inode \<Rightarrow> nat \<Rightarrow> u8" where
  "fbyte C x i = (let a = fblock C x (i div BSIZE) in if a = 0 then 0 else C a (i mod BSIZE))"

definition spans :: "nat \<Rightarrow> nat \<Rightarrow> nat set" where
  "spans p k = (\<lambda>i. i div BSIZE) ` {p..<p + k}"

lemma spans_add: "spans p (k + j) = spans p k \<union> spans (p + k) j"
proof -
  have "{p..<p + (k + j)} = {p..<p + k} \<union> {p + k..<p + k + j}" by auto
  then show ?thesis by (simp add: spans_def image_Un)
qed

lemma spans_0 [simp]: "spans p 0 = {}" "finite (spans p k)"
  by (simp_all add: spans_def)

lemma card_spans: "card (spans p k) \<le> k div BSIZE + 2"
proof (cases "k = 0")
  case False
  have "spans p k \<subseteq> {p div BSIZE..(p + k - 1) div BSIZE}"
    unfolding spans_def by (auto intro!: div_le_mono)
  then have "card (spans p k) \<le> card {p div BSIZE..(p + k - 1) div BSIZE}" by (intro card_mono) auto
  moreover have "(p + k - 1) div BSIZE \<le> p div BSIZE + k div BSIZE + 1" by (simp add: BSIZE_def)
  ultimately show ?thesis by simp
qed simp

text \<open>
  \<open>wrote ip p k v s t\<close>: the bytes from \<open>p\<close> on, \<open>k\<close> of them, of the file now are those of \<open>v\<close>, by the position in the file. All other bytes of the file and all
  blocks of others are as before.
\<close>

definition wrote :: "nat \<Rightarrow> nat \<Rightarrow> nat \<Rightarrow> (nat \<Rightarrow> u8) \<Rightarrow> 'a fstate_scheme \<Rightarrow> 'a fstate_scheme \<Rightarrow> bool" where
  "wrote ip p k v s t \<longleftrightarrow> (let C = content s 1; D = content t 1; x = inodes s ip; y = inodes t ip; bm = sb_bmapstart (sb s) in
     (\<forall>i. i div BSIZE < MAXFILE \<longrightarrow> fbyte D y i = (if p \<le> i \<and> i < p + k then v i else fbyte C x i)) \<and>
     (\<forall>m<MAXFILE. fblock C x m \<noteq> 0 \<longrightarrow> fblock D y m = fblock C x m) \<and>
     (\<forall>m<MAXFILE. fblock C x m = 0 \<and> fblock D y m \<noteq> 0 \<longrightarrow> m \<in> spans p k \<and> \<not> bused s C (fblock D y m)) \<and>
     (\<forall>m\<in>spans p k. fblock D y m \<noteq> 0) \<and>
     (\<forall>b. bused s C b \<longrightarrow> bused s D b) \<and> (\<forall>b. bused s D b \<longrightarrow> bused s C b \<or> b \<in> ({i_addrs y NDIRECT} - {0}) \<union> fblock D y ` spans p k) \<and>
     (\<forall>b. bused s C b \<and> b \<noteq> bm \<and> b \<noteq> i_addrs x NDIRECT \<and> (\<forall>m<MAXFILE. fblock C x m \<noteq> b) \<longrightarrow> D b = C b) \<and>
     (i_addrs x NDIRECT \<noteq> 0 \<longrightarrow> i_addrs y NDIRECT = i_addrs x NDIRECT) \<and>
     (i_addrs x NDIRECT = 0 \<and> i_addrs y NDIRECT \<noteq> 0 \<longrightarrow> \<not> bused s C (i_addrs y NDIRECT)) \<and>
     (\<exists>ad. inodes t = (inodes s)(ip := x\<lparr>i_addrs := ad\<rparr>) \<and> (\<forall>i>NDIRECT. ad i = i_addrs x i)) \<and>
     ((\<forall>m\<in>spans p k. fblock C x m \<noteq> 0) \<longrightarrow> inodes t = inodes s) \<and>
     fs_same s t \<and> map_ok s D y \<and> meta_used s D \<and>
     (\<exists>X \<subseteq> {bm} \<union> ({i_addrs y NDIRECT} - {0}) \<union> fblock D y ` spans p k. logs X s D t))"

lemma wroteD:
  assumes "wrote ip p k v s t"
  shows "i div BSIZE < MAXFILE \<Longrightarrow> fbyte (content t 1) (inodes t ip) i = (if p \<le> i \<and> i < p + k then v i else fbyte (content s 1) (inodes s ip) i)"
    "m < MAXFILE \<Longrightarrow> fblock (content s 1) (inodes s ip) m \<noteq> 0 \<Longrightarrow> fblock (content t 1) (inodes t ip) m = fblock (content s 1) (inodes s ip) m"
    "m < MAXFILE \<Longrightarrow> fblock (content s 1) (inodes s ip) m = 0 \<Longrightarrow> fblock (content t 1) (inodes t ip) m \<noteq> 0 \<Longrightarrow>
      m \<in> spans p k \<and> \<not> bused s (content s 1) (fblock (content t 1) (inodes t ip) m)"
    "m \<in> spans p k \<Longrightarrow> fblock (content t 1) (inodes t ip) m \<noteq> 0"
    "bused s (content s 1) b \<Longrightarrow> bused s (content t 1) b"
    "bused s (content s 1) b \<Longrightarrow> b \<noteq> sb_bmapstart (sb s) \<Longrightarrow> b \<noteq> i_addrs (inodes s ip) NDIRECT \<Longrightarrow>
      (\<And>m. m < MAXFILE \<Longrightarrow> fblock (content s 1) (inodes s ip) m \<noteq> b) \<Longrightarrow> content t 1 b = content s 1 b"
    "i_addrs (inodes s ip) NDIRECT \<noteq> 0 \<Longrightarrow> i_addrs (inodes t ip) NDIRECT = i_addrs (inodes s ip) NDIRECT"
    "i_addrs (inodes s ip) NDIRECT = 0 \<Longrightarrow> i_addrs (inodes t ip) NDIRECT \<noteq> 0 \<Longrightarrow> \<not> bused s (content s 1) (i_addrs (inodes t ip) NDIRECT)"
    "\<exists>ad. inodes t = (inodes s)(ip := (inodes s ip)\<lparr>i_addrs := ad\<rparr>) \<and> (\<forall>i>NDIRECT. ad i = i_addrs (inodes s ip) i)"
    "(\<And>m. m \<in> spans p k \<Longrightarrow> fblock (content s 1) (inodes s ip) m \<noteq> 0) \<Longrightarrow> inodes t = inodes s"
    "fs_same s t" "map_ok s (content t 1) (inodes t ip)" "meta_used s (content t 1)"
    "\<exists>X \<subseteq> {sb_bmapstart (sb s)} \<union> ({i_addrs (inodes t ip) NDIRECT} - {0}) \<union> fblock (content t 1) (inodes t ip) ` spans p k. logs X s (content t 1) t"
    "bused s (content t 1) b \<Longrightarrow> bused s (content s 1) b \<or> b \<in> ({i_addrs (inodes t ip) NDIRECT} - {0}) \<union> fblock (content t 1) (inodes t ip) ` spans p k"
  using assms by (simp_all add: wrote_def Let_def)

lemma wrote_none:
  assumes "txn s" "map_ok s (content s 1) (inodes s ip)" "meta_used s (content s 1)"
  shows "wrote ip p 0 v s s"
proof -
  have "inodes s = (inodes s)(ip := (inodes s ip)\<lparr>i_addrs := i_addrs (inodes s ip)\<rparr>)" by simp
  then have "\<exists>ad. inodes s = (inodes s)(ip := (inodes s ip)\<lparr>i_addrs := ad\<rparr>) \<and> (\<forall>i>NDIRECT. ad i = i_addrs (inodes s ip) i)" by blast
  moreover have "\<exists>X \<subseteq> Z. logs X s (content s 1) s" for Z using logs_refl [OF assms(1)] by blast
  ultimately show ?thesis unfolding wrote_def Let_def using assms by simp (meson leD)
qed

lemma wrote_trans:
  fixes s t u :: "'a fstate_scheme"
  assumes a: "wrote ip p k v s t" and b: "wrote ip (p + k) j v t u" and sp: "\<And>m. m \<in> spans p (k + j) \<Longrightarrow> m < MAXFILE"
  shows "wrote ip p (k + j) v s u"
proof -
  note A = wroteD [OF a] and B = wroteD [OF b]
  let ?C = "content s 1" and ?D = "content t 1" and ?E = "content u 1" and ?x = "inodes s ip" and ?y = "inodes t ip" and ?z = "inodes u ip"
  have bs: "bused t = bused s" by (rule bused_same [OF A(11)])
  have sbt: "sb t = sb s" by (rule fs_same_sb [OF A(11)])
  have f1: "fblock ?E ?z m = fblock ?C ?x m" if "m < MAXFILE" "fblock ?C ?x m \<noteq> 0" for m using B(2) [OF that(1)] A(2) [OF that] that(2) by simp
  have f2: "m \<in> spans p (k + j) \<and> \<not> bused s ?C (fblock ?E ?z m)" if m: "m < MAXFILE" "fblock ?C ?x m = 0" "fblock ?E ?z m \<noteq> 0" for m
  proof (cases "fblock ?D ?y m = 0")
    case True
    then show ?thesis using B(3) [OF m(1) True m(3)] A(5) bs by (auto simp: spans_add)
  next
    case False
    then show ?thesis using A(3) [OF m(1,2) False] B(2) [OF m(1) False] by (simp add: spans_add)
  qed
  have f3: "fblock ?E ?z m \<noteq> 0" if "m \<in> spans p (k + j)" for m
    using that A(4) [of m] B(4) [of m] B(2) [OF sp [OF that]] by (auto simp: spans_add)
  have i1: "i_addrs ?z NDIRECT = i_addrs ?x NDIRECT" if "i_addrs ?x NDIRECT \<noteq> 0" using A(7) [OF that] B(7) that by simp
  have i2: "\<not> bused s ?C (i_addrs ?z NDIRECT)" if "i_addrs ?x NDIRECT = 0" "i_addrs ?z NDIRECT \<noteq> 0"
    using A(8) [OF that(1)] B(7,8) that A(5) bs by (cases "i_addrs ?y NDIRECT = 0") auto
  have fr: "?E c = ?C c" if c: "bused s ?C c" "c \<noteq> sb_bmapstart (sb s)" "c \<noteq> i_addrs ?x NDIRECT" "\<And>m. m < MAXFILE \<Longrightarrow> fblock ?C ?x m \<noteq> c" for c
  proof -
    have "?E c = ?D c"
    proof (rule B(6))
      show "bused t ?D c" "c \<noteq> sb_bmapstart (sb t)" using A(5) [OF c(1)] bs c(2) sbt by simp_all
      show "fblock ?D ?y m \<noteq> c" if "m < MAXFILE" for m
        using A(2,3) [OF that] c(1) c(4) [OF that] c(1) by (cases "fblock ?C ?x m = 0"; cases "c = 0") auto
      show "c \<noteq> i_addrs ?y NDIRECT" using A(7,8) c(1,3) by (cases "i_addrs ?x NDIRECT = 0"; cases "c = 0") auto
    qed
    then show ?thesis using A(6) [OF c] by simp
  qed
  have ad: "\<exists>ad. inodes u = (inodes s)(ip := ?x\<lparr>i_addrs := ad\<rparr>) \<and> (\<forall>i>NDIRECT. ad i = i_addrs ?x i)"
    using A(9) B(9) by auto
  have keep: "inodes u = inodes s" if h: "\<And>m. m \<in> spans p (k + j) \<Longrightarrow> fblock ?C ?x m \<noteq> 0"
  proof -
    have "inodes t = inodes s" by (rule A(10)) (use h in \<open>simp add: spans_add\<close>)
    moreover have "inodes u = inodes t" by (rule B(10)) (use h A(2) sp in \<open>auto simp: spans_add\<close>)
    ultimately show ?thesis by simp
  qed
  have by1: "fbyte ?E ?z i = (if p \<le> i \<and> i < p + (k + j) then v i else fbyte ?C ?x i)" if "i div BSIZE < MAXFILE" for i
    using A(1) [OF that] B(1) [OF that] by auto
  have fsm: "fs_same s u" by (rule fs_same_trans [OF A(11) B(11)])
  have mo: "map_ok s ?E ?z" "meta_used s ?E" using B(12,13) map_ok_same [OF A(11)] meta_used_same [OF A(11)] by simp_all
  obtain X where X: "X \<subseteq> {sb_bmapstart (sb s)} \<union> ({i_addrs ?y NDIRECT} - {0}) \<union> fblock ?D ?y ` spans p k" "logs X s ?D t" using A(14) by blast
  obtain Y where Y: "Y \<subseteq> {sb_bmapstart (sb s)} \<union> ({i_addrs ?z NDIRECT} - {0}) \<union> fblock ?E ?z ` spans (p + k) j" "logs Y t ?E u" using B(14) unfolding sbt by blast
  have sub: "fblock ?D ?y ` spans p k \<subseteq> fblock ?E ?z ` spans p (k + j)"
  proof
    fix c assume "c \<in> fblock ?D ?y ` spans p k"
    then obtain m where m: "m \<in> spans p k" "c = fblock ?D ?y m" by auto
    have "m \<in> spans p (k + j)" using m(1) by (simp add: spans_add)
    then show "c \<in> fblock ?E ?z ` spans p (k + j)" using B(2) [OF sp A(4) [OF m(1)]] m by (metis imageI)
  qed
  have yz: "{i_addrs ?y NDIRECT} - {0} \<subseteq> {i_addrs ?z NDIRECT} - {0}" using B(7) by (cases "i_addrs ?y NDIRECT = 0") simp_all
  have sp2: "fblock ?E ?z ` spans (p + k) j \<subseteq> fblock ?E ?z ` spans p (k + j)" unfolding spans_add by (rule image_mono) (rule Un_upper2)
  have us: "bused s ?C b \<or> b \<in> ({i_addrs ?z NDIRECT} - {0}) \<union> fblock ?E ?z ` spans p (k + j)" if "bused s ?E b" for b
  proof (cases "bused s ?D b")
    case True
    show ?thesis using A(15) [OF True] subsetD [OF yz, of b] subsetD [OF sub, of b] unfolding Un_iff by blast
  next
    case False
    then show ?thesis using B(15) [unfolded bs, OF that] subsetD [OF sp2, of b] unfolding Un_iff by blast
  qed
  show ?thesis unfolding wrote_def Let_def
  proof (intro conjI)
    show "\<exists>X \<subseteq> {sb_bmapstart (sb s)} \<union> ({i_addrs ?z NDIRECT} - {0}) \<union> fblock ?E ?z ` spans p (k + j). logs X s ?E u"
    proof (intro exI conjI)
      show "logs (X \<union> Y) s ?E u" by (rule logs_trans [OF X(2) Y(2)])
      show "X \<union> Y \<subseteq> {sb_bmapstart (sb s)} \<union> ({i_addrs ?z NDIRECT} - {0}) \<union> fblock ?E ?z ` spans p (k + j)"
        by (rule Un_least) (rule subset_trans [OF X(1)] subset_trans [OF Y(1)]; intro Un_mono order.refl yz sub sp2)+
    qed
  qed (use us f1 f2 f3 i1 i2 fr ad keep by1 fsm mo A(5) B(5) bs in auto)
qed

section \<open>Writing\<close>

text \<open>The part of a transfer that falls into one block.\<close>

lemma chunk:
  assumes "m = min (n - tot) (BSIZE - (off + tot) mod BSIZE)" "tot < n"
  shows "0 < m" "tot + m \<le> n" "spans (off + tot) m = {(off + tot) div BSIZE}"
    "i div BSIZE = (off + tot) div BSIZE \<Longrightarrow> (off + tot) mod BSIZE \<le> i mod BSIZE \<and> i mod BSIZE < (off + tot) mod BSIZE + m \<longleftrightarrow> off + tot \<le> i \<and> i < off + tot + m"
    "i div BSIZE = (off + tot) div BSIZE \<Longrightarrow> off + tot \<le> i \<Longrightarrow> i mod BSIZE - (off + tot) mod BSIZE = i - (off + tot)"
    "off + tot \<le> i \<Longrightarrow> i < off + tot + m \<Longrightarrow> i div BSIZE = (off + tot) div BSIZE"
proof -
  let ?p = "off + tot"
  have md: "?p mod BSIZE < BSIZE" "?p = BSIZE * (?p div BSIZE) + ?p mod BSIZE" by (simp_all add: BSIZE_def)
  show m: "0 < m" "tot + m \<le> n" using assms md(1) by auto
  have sum: "?p mod BSIZE + m \<le> BSIZE" using assms(1) md(1) by auto
  show d: "?p \<le> i \<Longrightarrow> i < ?p + m \<Longrightarrow> i div BSIZE = ?p div BSIZE" for i
  proof -
    assume i: "?p \<le> i" "i < ?p + m"
    have "BSIZE * (?p div BSIZE) \<le> i" "i < BSIZE * (?p div BSIZE) + BSIZE" using i md(2) sum by linarith+
    then show ?thesis by (simp add: div_nat_eqI)
  qed
  have "(\<lambda>i. i div BSIZE) ` {?p..<?p + m} = (\<lambda>_. ?p div BSIZE) ` {?p..<?p + m}" by (rule image_cong [OF refl], rule d) simp_all
  then show "spans ?p m = {?p div BSIZE}" unfolding spans_def using m(1) by (simp add: image_constant_conv)
  assume e: "i div BSIZE = ?p div BSIZE"
  have i: "i = BSIZE * (?p div BSIZE) + i mod BSIZE" using e by (metis mult_div_mod_eq)
  show "?p mod BSIZE \<le> i mod BSIZE \<and> i mod BSIZE < ?p mod BSIZE + m \<longleftrightarrow> ?p \<le> i \<and> i < ?p + m" using i md(2) by linarith
  show "?p \<le> i \<Longrightarrow> i mod BSIZE - ?p mod BSIZE = i - ?p" using i md(2) by linarith
qed

lemma wrote_block:
  fixes s :: "'a fstate_scheme"
  assumes mp: "bmapped ip bn s a t1" and bn: "bn < MAXFILE" and lg: "logs {a} t1 ((content t1 1)(a := g (content t1 1 a))) t" "lstate.more t = lstate.more t1"
    and sp: "spans p m = {bn}"
    and g: "\<And>d i. i div BSIZE = bn \<Longrightarrow> g d (i mod BSIZE) = (if p \<le> i \<and> i < p + m then v i else d (i mod BSIZE))"
    and inside: "\<And>i. p \<le> i \<Longrightarrow> i < p + m \<Longrightarrow> i div BSIZE = bn" and mo: "map_ok s (content s 1) (inodes s ip)"
  shows "wrote ip p m v s t"
proof -
  note B = bmappedD [OF mp]
  let ?C = "content s 1" and ?D = "content t1 1" and ?x = "inodes s ip" and ?y = "inodes t1 ip" and ?bm = "sb_bmapstart (sb s)"
  let ?E = "?D(a := g (?D a))"
  have c: "content t 1 = ?E" using logsD(3) [OF lg(1)] .
  have it: "inodes t = inodes t1" using more_fields [OF lg(2)] by simp
  have da: "data_block s ?D a" "a \<noteq> i_addrs ?y NDIRECT" using map_okD(1) [OF B(13) bn] B(1,2) by auto
  have nbm: "?bm \<noteq> a" using da(1) by (auto simp: data_block_def)
  have fb: "fblock ?E ?y n = fblock ?D ?y n" for n using da(2) by (simp add: fblock_def)
  have us: "bused s ?E b = bused s ?D b" for b using nbm by (simp add: bused_def)
  have moE: "map_ok s ?E ?y" using B(13) unfolding map_ok_def data_block_def fb us .
  have me: "meta_used s ?E" using B(14) us by (simp add: meta_used_def)
  have fbC: "fblock ?E ?y n = fblock ?C ?x n" if "n < MAXFILE" "n \<noteq> bn" for n using B(3) [OF that] fb by simp
  have fsm: "fs_same s t" by (rule fs_same_trans [OF B(9) fs_same_more [OF lg(2)]])
  have keep: "?D = ?C \<and> inodes t1 = inodes s" if "fblock ?C ?x bn \<noteq> 0" by (rule B(4) [OF that])
  have bytes: "fbyte ?E ?y i = (if p \<le> i \<and> i < p + m then v i else fbyte ?C ?x i)" if i: "i div BSIZE < MAXFILE" for i
  proof (cases "i div BSIZE = bn")
    case True
    have "?D a (i mod BSIZE) = fbyte ?C ?x i"
    proof (cases "fblock ?C ?x bn = 0")
      case True
      then show ?thesis using B(5) [OF True] \<open>i div BSIZE = bn\<close> by (simp add: fbyte_def)
    next
      case False
      then show ?thesis using keep B(2) \<open>i div BSIZE = bn\<close> by (simp add: fbyte_def)
    qed
    then show ?thesis using True fb B(1,2) g [OF True, of "?D a"] by (simp add: fbyte_def)
  next
    case False
    let ?b = "fblock ?C ?x (i div BSIZE)"
    have e: "fblock ?E ?y (i div BSIZE) = ?b" by (rule fbC [OF i False])
    have "?E ?b = ?C ?b" if "?b \<noteq> 0"
    proof -
      have "?b \<noteq> a" using map_okD(3) [OF moE i bn] e fb B(2) False that by auto
      moreover have "data_block s ?C ?b \<and> ?b \<noteq> i_addrs ?x NDIRECT" by (rule map_okD(1) [OF mo i that])
      then have "?D ?b = ?C ?b" by (intro B(12)) (auto simp: data_block_def)
      ultimately show ?thesis by simp
    qed
    moreover have no: "\<not> (p \<le> i \<and> i < p + m)" using inside [of i] False by blast
    ultimately show ?thesis unfolding fbyte_def Let_def e if_not_P [OF no] by (cases "?b = 0") (simp_all only: if_True if_False refl simp_thms)
  qed
  have fr: "?E b = ?C b" if b: "bused s ?C b" "b \<noteq> ?bm" "b \<noteq> i_addrs ?x NDIRECT" "\<forall>m<MAXFILE. fblock ?C ?x m \<noteq> b" for b
  proof -
    have "b \<noteq> a" using B(5) b(1) b(4) [rule_format, OF bn] keep B(2) by (cases "fblock ?C ?x bn = 0") auto
    then show ?thesis using B(12) [OF b(1-3)] by simp
  qed
  obtain X where X: "X \<subseteq> {?bm, a} \<union> ({i_addrs ?y NDIRECT} - {0})" "logs X s ?D t1" using B(10) by blast
  have lg': "logs (X \<union> {a}) s ?E t" by (rule logs_trans [OF X(2) lg(1)])
  show ?thesis unfolding wrote_def Let_def c it sp
  proof (intro conjI)
    show "\<exists>X \<subseteq> {?bm} \<union> ({i_addrs ?y NDIRECT} - {0}) \<union> fblock ?E ?y ` {bn}. logs X s ?E t"
      using lg' X(1) fb B(2) by (intro exI [of _ "X \<union> {a}"]) auto
    show "\<forall>m<MAXFILE. fblock ?C ?x m \<noteq> 0 \<longrightarrow> fblock ?E ?y m = fblock ?C ?x m"
      using fbC keep fb by metis
    show "\<forall>m<MAXFILE. fblock ?C ?x m = 0 \<and> fblock ?E ?y m \<noteq> 0 \<longrightarrow> m \<in> {bn} \<and> \<not> bused s ?C (fblock ?E ?y m)"
      using fbC B(2,5) fb by (metis singletonI)
    show "\<forall>b. bused s ?E b \<longrightarrow> bused s ?C b \<or> b \<in> ({i_addrs ?y NDIRECT} - {0}) \<union> fblock ?E ?y ` {bn}"
      using B(15) us fb B(2) by auto
    show "i_addrs ?x NDIRECT = 0 \<and> i_addrs ?y NDIRECT \<noteq> 0 \<longrightarrow> \<not> bused s ?C (i_addrs ?y NDIRECT)" using B(8) by blast
    show "\<exists>ad. inodes t1 = (inodes s)(ip := ?x\<lparr>i_addrs := ad\<rparr>) \<and> (\<forall>i>NDIRECT. ad i = i_addrs ?x i)" by (rule B(6))
  qed (use bytes fr fb B(1,2,7,11) us keep fsm moE me in simp_all)
qed

lemma data_block_place: "fs_geom s \<Longrightarrow> data_block s C a \<Longrightarrow> a < FSSIZE \<and> a \<notin> log_area s"
  using fs_geomD(1) [of s] fs_geomD(5) [of s a] by (auto simp: data_block_def word_less_nat_alt FSSIZE_def)

lemma wrote_frame:
  assumes w: "wrote ip p k v s t" and g: "fs_geom s" and d: "i_dev (inodes s ip) = 1"
  shows "fs_geom t" "meta_used t (content t 1)" "i_dev (inodes t ip) = 1" "map_ok t (content t 1) (inodes t ip)" "i_inum (inodes t ip) = i_inum (inodes s ip)"
    "i_size (inodes t ip) = i_size (inodes s ip)" "i_type (inodes t ip) = i_type (inodes s ip)" "held t = held s" "txn t"
proof -
  note W = wroteD [OF w]
  obtain X where X: "logs X s (content t 1) t" using W(14) by blast
  show "fs_geom t" using fs_geom_logs [OF X W(11)] g by simp
  show "meta_used t (content t 1)" "map_ok t (content t 1) (inodes t ip)" using W(12,13) meta_used_same [OF W(11)] map_ok_same [OF W(11)] by simp_all
  show "i_dev (inodes t ip) = 1" "i_inum (inodes t ip) = i_inum (inodes s ip)" "i_size (inodes t ip) = i_size (inodes s ip)"
    "i_type (inodes t ip) = i_type (inodes s ip)" using W(9) d by auto
  show "held t = held s" "txn t" using logsD [OF X] by simp_all
qed

lemma wrote_room:
  assumes w: "wrote ip p k v s t" and r: "room (j + card (spans p k) + 2) s"
  shows "room j t"
proof -
  obtain X where X: "X \<subseteq> {sb_bmapstart (sb s)} \<union> ({i_addrs (inodes t ip) NDIRECT} - {0}) \<union> fblock (content t 1) (inodes t ip) ` spans p k" "logs X s (content t 1) t"
    using wroteD(14) [OF w] by blast
  let ?Z = "{sb_bmapstart (sb s), i_addrs (inodes t ip) NDIRECT} \<union> fblock (content t 1) (inodes t ip) ` spans p k"
  have "card (X - dirtyb s) \<le> card ?Z" using X(1) by (intro card_mono) auto
  also have "\<dots> \<le> card {sb_bmapstart (sb s), i_addrs (inodes t ip) NDIRECT} + card (fblock (content t 1) (inodes t ip) ` spans p k)" by (rule card_Un_le)
  also have "\<dots> \<le> 2 + card (spans p k)"
    using card_sub2 [of "{sb_bmapstart (sb s), i_addrs (inodes t ip) NDIRECT}" _ _ "{}"] card_image_le [of "spans p k"] by (intro add_mono) auto
  finally show ?thesis by (intro room_logs [OF r X(2)]) simp_all
qed

lemma wrote_free:
  assumes w: "wrote ip p k v s t"
  shows "nfree s (content s 1) \<le> nfree t (content t 1) + card (spans p k) + 1"
proof -
  let ?X = "({i_addrs (inodes t ip) NDIRECT} - {0}) \<union> fblock (content t 1) (inodes t ip) ` spans p k"
  have "nfree s (content s 1) \<le> nfree s (content t 1) + card ?X" by (rule nfree_less) (use wroteD(15) [OF w] in auto)
  also have "card ?X \<le> card ({i_addrs (inodes t ip) NDIRECT} - {0}) + card (fblock (content t 1) (inodes t ip) ` spans p k)" by (rule card_Un_le)
  also have "\<dots> \<le> 1 + card (spans p k)" using card_image_le [of "spans p k"] by (intro add_mono) (auto simp: card_Diff_singleton_if)
  finally show ?thesis using nfree_same [OF wroteD(11) [OF w]] by simp
qed

lemma writei_step:
  fixes s :: "'a fstate_scheme"
  assumes g: "fs_geom s" and mu: "meta_used s (content s 1)" and r: "room 6 s" and h: "held s = {}" and d: "i_dev (inodes s ip) = 1"
    and mo: "map_ok s (content s 1) (inodes s ip)" and tot: "tot < n" "off + n \<le> MAXFILE * BSIZE" and fr: "2 \<le> nfree s (content s 1)"
  defines "m \<equiv> min (n - tot) (BSIZE - (off + tot) mod BSIZE)"
  shows "\<exists>t. writei_loop ip src off n tot s = writei_loop ip src off n (tot + m) t \<and> wrote ip (off + tot) m (\<lambda>i. src (i - off)) s t"
proof -
  let ?bn = "(off + tot) div BSIZE" and ?p = "(off + tot) mod BSIZE"
  note K = chunk [OF m_def [THEN meta_eq_to_obj_eq] tot(1)]
  have bn: "?bn < MAXFILE" using tot by (simp add: less_mult_imp_div_less)
  define f where "f = (\<lambda>(d :: block) i. if ?p \<le> i \<and> i < ?p + m then src (tot + (i - ?p)) else d i)"
  obtain a t1 where 2: "bmap ip (of_nat ?bn) s = Inr (a, t1)" "bmapped ip ?bn s a t1"
    using bmap_ok [OF g mu r h d mo bn fr] by blast
  note B = bmappedD [OF 2(2)]
  obtain X where X: "X \<subseteq> {sb_bmapstart (sb s), a} \<union> ({i_addrs (inodes t1 ip) NDIRECT} - {0})" "logs X s (content t1 1) t1" using B(10) by blast
  have "card (X - dirtyb s) \<le> card {sb_bmapstart (sb s), a, i_addrs (inodes t1 ip) NDIRECT}" using X(1) by (intro card_mono) auto
  also have "\<dots> \<le> 3" by (simp add: card_insert_if)
  finally have r1: "room 3 t1" by (intro room_logs [OF r X(2)]) simp_all
  have da: "data_block s (content t1 1) a" using map_okD(1) [OF B(13) bn] B(1,2) by auto
  have a: "a < FSSIZE" "a \<notin> log_area t1" using data_block_place [OF g da] logs_area [OF X(2)] by simp_all
  have h1: "held t1 = {}" using logsD(2) [OF X(2)] h by simp
  have d1: "i_dev (inodes t1 ip) = 1" using B(6) d by auto
  obtain t where t: "log_update a f t1 = Inr t" "logs {a} t1 ((content t1 1)(a := f (content t1 1 a))) t" "lstate.more t = lstate.more t1"
    using log_update_logs [OF room_roomy [OF r1] a] h1 by auto
  have "wrote ip (off + tot) m (\<lambda>i. src (i - off)) s t"
  proof (rule wrote_block [where g = f, OF 2(2) bn t(2,3) K(3) _ K(6) mo])
    fix d :: block and i assume i: "i div BSIZE = ?bn"
    show "f d (i mod BSIZE) = (if off + tot \<le> i \<and> i < off + tot + m then src (i - off) else d (i mod BSIZE))"
      unfolding f_def using K(4) [OF i] K(5) [OF i] by auto
  qed
  moreover have "writei_loop ip src off n tot s = writei_loop ip src off n (tot + m) t"
  proof -
    obtain b s2 where b: "bread 1 a t1 = Inr (b, s2)" using t(1) by (auto simp: log_update_def bindR_eq_Inr)
    obtain s4 where "log_write b (modify b f s2) = Inr s4" "brelse b s4 = Inr t" using t(1) b by (auto simp: log_update_def bindR_eq_Inr)
    then show ?thesis using tot(1) 2(1) b d1 unfolding f_def m_def by (subst (1) writei_loop.simps) (simp add: Let_def)
  qed
  ultimately show ?thesis by blast
qed

lemma writei_loop_ok:
  fixes s :: "'a fstate_scheme"
  assumes g: "fs_geom s" and mu: "meta_used s (content s 1)" and r: "room (n div BSIZE + 10) s" and h: "held s = {}" and d: "i_dev (inodes s ip) = 1"
    and mo: "map_ok s (content s 1) (inodes s ip)" and n: "off + n \<le> MAXFILE * BSIZE"
    and fr: "n div BSIZE + 5 \<le> nfree s (content s 1)"
  shows "\<exists>t. writei_loop ip src off n 0 s = Inr t \<and> wrote ip off n (\<lambda>i. src (i - off)) s t"
proof -
  have "tot \<le> n \<Longrightarrow> wrote ip off tot (\<lambda>i. src (i - off)) s t \<Longrightarrow>
    \<exists>u. writei_loop ip src off n tot t = Inr u \<and> wrote ip off n (\<lambda>i. src (i - off)) s u" for tot t
  proof (induction "n - tot" arbitrary: tot t rule: less_induct)
    case less
    note F = wrote_frame [OF less.prems(2) g d]
    show ?case
    proof (cases "tot < n")
      case False
      then have "tot = n" "writei_loop ip src off n tot t = Inr t" using less.prems(1) by simp_all
      then show ?thesis using less.prems(2) by simp
    next
      case True
      let ?m = "min (n - tot) (BSIZE - (off + tot) mod BSIZE)"
      note K = chunk [OF refl True, of off]
      have "card (spans off tot) \<le> card (spans off n)" using True by (intro card_mono) (auto simp: spans_def)
      then have "6 + card (spans off tot) + 2 \<le> n div BSIZE + 10" using card_spans [of off n] by simp
      then have r6: "room 6 t" by (intro wrote_room [OF less.prems(2)] room_less [OF r])
      have ht: "held t = {}" using F(8) h by simp
      have "nfree s (content s 1) \<le> nfree t (content t 1) + card (spans off n) + 1"
        using wrote_free [OF less.prems(2)] \<open>card (spans off tot) \<le> card (spans off n)\<close> by linarith
      then have ft: "2 \<le> nfree t (content t 1)" using fr card_spans [of off n] by linarith
      obtain u where 2: "writei_loop ip src off n tot t = writei_loop ip src off n (tot + ?m) u" "wrote ip (off + tot) ?m (\<lambda>i. src (i - off)) t u"
        using writei_step [OF F(1,2) r6 ht F(3,4) True n ft] by blast
      have "m' < MAXFILE" if "m' \<in> spans off (tot + ?m)" for m' using that K(2) n by (auto simp: spans_def less_mult_imp_div_less)
      then have w: "wrote ip off (tot + ?m) (\<lambda>i. src (i - off)) s u" by (rule wrote_trans [OF less.prems(2) 2(2)])
      have "n - (tot + ?m) < n - tot" using K(1,2) by linarith
      then show ?thesis unfolding 2(1) by (rule less.hyps [OF _ K(2) w])
    qed
  qed
  from this [of 0 s] show ?thesis using wrote_none [OF roomD(1) [OF r] mo mu] by simp
qed

text \<open>
  The invariant of an open file: its blocks are allocated and its own, there is no hole below its size, and the inode on the disk is the one in
  memory.
\<close>

definition disk_inode :: "'a fstate_scheme \<Rightarrow> u32 \<Rightarrow> dinode" where
  "disk_inode s inum = get_dinode (content s 1 (IBLOCK inum (sb s))) (unat inum mod IPB)"

definition file_ok :: "'a fstate_scheme \<Rightarrow> nat \<Rightarrow> bool" where
  "file_ok s ip \<longleftrightarrow> fs_geom s \<and> meta_used s (content s 1) \<and> map_ok s (content s 1) (inodes s ip) \<and> i_dev (inodes s ip) = 1 \<and>
     i_inum (inodes s ip) < sb_ninodes (sb s) \<and> (\<forall>i>NDIRECT. i_addrs (inodes s ip) i = 0) \<and> unat (i_size (inodes s ip)) \<le> MAXFILE * BSIZE \<and>
     (\<forall>m. m * BSIZE < unat (i_size (inodes s ip)) \<longrightarrow> fblock (content s 1) (inodes s ip) m \<noteq> 0) \<and>
     disk_inode s (i_inum (inodes s ip)) = dinode_of_inode (inodes s ip)"

lemma file_okD:
  assumes "file_ok s ip"
  shows "fs_geom s" "meta_used s (content s 1)" "map_ok s (content s 1) (inodes s ip)" "i_dev (inodes s ip) = 1" "i_inum (inodes s ip) < sb_ninodes (sb s)"
    "NDIRECT < i \<Longrightarrow> i_addrs (inodes s ip) i = 0" "unat (i_size (inodes s ip)) \<le> MAXFILE * BSIZE"
    "m * BSIZE < unat (i_size (inodes s ip)) \<Longrightarrow> fblock (content s 1) (inodes s ip) m \<noteq> 0" "disk_inode s (i_inum (inodes s ip)) = dinode_of_inode (inodes s ip)"
  using assms unfolding file_ok_def by blast+

text \<open>A block in use by others: marked, and neither the file's nor the bitmap's nor the block of the file's inode.\<close>

definition foreign :: "'a fstate_scheme \<Rightarrow> nat \<Rightarrow> u32 \<Rightarrow> bool" where
  "foreign s ip b \<longleftrightarrow> bused s (content s 1) b \<and> b \<noteq> sb_bmapstart (sb s) \<and> b \<noteq> IBLOCK (i_inum (inodes s ip)) (sb s) \<and>
     b \<noteq> i_addrs (inodes s ip) NDIRECT \<and> (\<forall>m<MAXFILE. fblock (content s 1) (inodes s ip) m \<noteq> b)"

definition written :: "nat \<Rightarrow> nat \<Rightarrow> nat \<Rightarrow> (nat \<Rightarrow> u8) \<Rightarrow> 'a fstate_scheme \<Rightarrow> 'a fstate_scheme \<Rightarrow> bool" where
  "written ip off n v s t \<longleftrightarrow> file_ok t ip \<and> txn t \<and> held t = held s \<and> unat (i_size (inodes t ip)) = max (unat (i_size (inodes s ip))) (if n = 0 then 0 else off + n) \<and>
     (\<forall>i < MAXFILE * BSIZE. fbyte (content t 1) (inodes t ip) i = (if off \<le> i \<and> i < off + n then v i else fbyte (content s 1) (inodes s ip) i)) \<and>
     (\<forall>b. foreign s ip b \<longrightarrow> content t 1 b = content s 1 b) \<and>
     (\<forall>k < sb_ninodes (sb s). k \<noteq> i_inum (inodes s ip) \<longrightarrow> disk_inode t k = disk_inode s k) \<and>
     (\<forall>k. k \<noteq> ip \<longrightarrow> inodes t k = inodes s k) \<and> i_type (inodes t ip) = i_type (inodes s ip) \<and> i_nlink (inodes t ip) = i_nlink (inodes s ip) \<and>
     i_inum (inodes t ip) = i_inum (inodes s ip) \<and> (\<forall>b. bused s (content s 1) b \<longrightarrow> bused s (content t 1) b) \<and>
     disk t = disk s \<and> writes t = writes s \<and> outstanding t = outstanding s \<and> fs_same s t \<and> lh_n t \<le> lh_n s + int (n div BSIZE) + 5"

lemma IBLOCK_meta: "fs_geom s \<Longrightarrow> meta_used s C \<Longrightarrow> k < sb_ninodes (sb s) \<Longrightarrow> bused s C (IBLOCK k (sb s)) \<and> IBLOCK k (sb s) < sb_bmapstart (sb s)"
  using fs_geomD(7) [of s k] by (auto simp: meta_used_def)

lemma iblock_outside:
  assumes "file_ok s ip" "k < sb_ninodes (sb s)"
  defines "b \<equiv> IBLOCK k (sb s)"
  shows "bused s (content s 1) b" "b \<noteq> sb_bmapstart (sb s)" "i_addrs (inodes s ip) NDIRECT \<noteq> 0 \<Longrightarrow> b \<noteq> i_addrs (inodes s ip) NDIRECT"
    "m < MAXFILE \<Longrightarrow> fblock (content s 1) (inodes s ip) m \<noteq> 0 \<Longrightarrow> fblock (content s 1) (inodes s ip) m \<noteq> b" "b \<noteq> 0"
proof -
  note F = file_okD [OF assms(1)]
  have m: "bused s (content s 1) b \<and> b < sb_bmapstart (sb s)" unfolding b_def by (rule IBLOCK_meta [OF F(1,2) assms(2)])
  then show "bused s (content s 1) b" "b \<noteq> sb_bmapstart (sb s)" by auto
  show "i_addrs (inodes s ip) NDIRECT \<noteq> 0 \<Longrightarrow> b \<noteq> i_addrs (inodes s ip) NDIRECT" using map_okD(2) [OF F(3)] m by (auto simp: data_block_def)
  show "m < MAXFILE \<Longrightarrow> fblock (content s 1) (inodes s ip) m \<noteq> 0 \<Longrightarrow> fblock (content s 1) (inodes s ip) m \<noteq> b"
    using map_okD(1) [OF F(3), of m] m by (auto simp: data_block_def)
  have "1 \<le> unat (sb_inodestart (sb s))" using F(1) unfolding fs_geom_def by linarith
  then have "0 < unat b" unfolding b_def using fs_geomD(6) [OF F(1) assms(2)] by simp
  then show "b \<noteq> 0" by auto
qed

lemma wrote_iblock:
  assumes w: "wrote ip p n v s t" and f: "file_ok s ip" and k: "k < sb_ninodes (sb s)"
  shows "content t 1 (IBLOCK k (sb s)) = content s 1 (IBLOCK k (sb s))"
proof -
  note I = iblock_outside [OF f k]
  show ?thesis by (rule wroteD(6) [OF w I(1,2)]) (use I(3-5) in \<open>metis+\<close>)
qed

lemma same_slot:
  assumes "fs_geom s" "j < sb_ninodes (sb s)" "k < sb_ninodes (sb s)" "IBLOCK j (sb s) = IBLOCK k (sb s)" "j \<noteq> k"
  shows "unat j mod IPB \<noteq> unat k mod IPB"
proof -
  have "unat j div IPB = unat k div IPB" using fs_geomD(6) [OF assms(1,2)] fs_geomD(6) [OF assms(1,3)] assms(4) by simp
  moreover have "unat j \<noteq> unat k" using assms(5) unfolding word_unat_eq_iff .
  ultimately show ?thesis by (metis div_mult_mod_eq)
qed

lemma wrote_count:
  assumes w: "wrote ip p n v s t" and tx: "txn s"
  shows "lh_n t \<le> lh_n s + int (n div BSIZE) + 4" "disk t = disk s" "writes t = writes s" "outstanding t = outstanding s"
proof -
  obtain X where X: "X \<subseteq> {sb_bmapstart (sb s)} \<union> ({i_addrs (inodes t ip) NDIRECT} - {0}) \<union> fblock (content t 1) (inodes t ip) ` spans p n" "logs X s (content t 1) t"
    using wroteD(14) [OF w] by blast
  let ?Z = "{sb_bmapstart (sb s), i_addrs (inodes t ip) NDIRECT} \<union> fblock (content t 1) (inodes t ip) ` spans p n"
  have "card (X - dirtyb s) \<le> card ?Z" using X(1) by (intro card_mono) auto
  also have "\<dots> \<le> card {sb_bmapstart (sb s), i_addrs (inodes t ip) NDIRECT} + card (fblock (content t 1) (inodes t ip) ` spans p n)" by (rule card_Un_le)
  also have "\<dots> \<le> 2 + card (spans p n)"
    using card_sub2 [of "{sb_bmapstart (sb s), i_addrs (inodes t ip) NDIRECT}" _ _ "{}"] card_image_le [of "spans p n"] by (intro add_mono) auto
  also have "\<dots> \<le> n div BSIZE + 4" using card_spans [of p n] by simp
  finally have "int (card (X - dirtyb s)) \<le> int (n div BSIZE) + 4" by linarith
  then show "lh_n t \<le> lh_n s + int (n div BSIZE) + 4" using logs_count(2) [OF X(2) tx] by linarith
  show "disk t = disk s" "writes t = writes s" "outstanding t = outstanding s" using logsD [OF X(2)] by simp_all
qed

text \<open>A write inside the file changes no metadata.\<close>

lemma written_inside:
  fixes s :: "'a fstate_scheme"
  assumes w: "wrote ip off n v s t" and f: "file_ok s ip" and tx: "txn s" and n: "n = 0 \<or> off + n \<le> unat (i_size (inodes s ip))"
  shows "written ip off n v s t"
proof -
  note W = wroteD [OF w] and F = file_okD [OF f]
  note R = wrote_frame [OF w F(1,4)]
  let ?C = "content s 1" and ?D = "content t 1" and ?x = "inodes s ip"
  have "fblock ?C ?x m \<noteq> 0" if mm: "m \<in> spans off n" for m
  proof (rule F(8))
    obtain i where i: "off \<le> i" "i < off + n" "m = i div BSIZE" using mm by (auto simp: spans_def)
    then have "m * BSIZE \<le> i" by simp
    then show "m * BSIZE < unat (i_size ?x)" using i n by linarith
  qed
  then have it: "inodes t = inodes s" by (rule W(10))
  have di: "disk_inode t k = disk_inode s k" if "k < sb_ninodes (sb s)" for k
    unfolding disk_inode_def fs_same_sb [OF W(11)] wrote_iblock [OF w f that] ..
  have "file_ok t ip" unfolding file_ok_def
  proof (intro conjI)
    show "\<forall>m. m * BSIZE < unat (i_size (inodes t ip)) \<longrightarrow> fblock ?D (inodes t ip) m \<noteq> 0"
    proof (intro allI impI)
      fix m assume m: "m * BSIZE < unat (i_size (inodes t ip))"
      have "m * BSIZE < MAXFILE * BSIZE" by (rule less_le_trans [OF m [unfolded it] F(7)])
      then have "m < MAXFILE" by simp
      then show "fblock ?D (inodes t ip) m \<noteq> 0" using W(2) F(8) [of m] m it by simp
    qed
  qed (use R F(5-7,9) it fs_same_sb [OF W(11)] di in simp_all)
  moreover have "i div BSIZE < MAXFILE" if "i < MAXFILE * BSIZE" for i using that by (simp add: less_mult_imp_div_less)
  moreover have "lh_n t \<le> lh_n s + int (n div BSIZE) + 5" using wrote_count(1) [OF w tx] by linarith
  ultimately show ?thesis unfolding written_def
    using R(8,9) n it W(1,5,6,11) di wrote_count(2-4) [OF w tx] F(7) by (auto simp: foreign_def max_def)
qed

text \<open>A write past the end: the new size and the blocks go to the inode on the disk.\<close>

lemma written_grow:
  fixes s :: "'a fstate_scheme"
  assumes w: "wrote ip off n v s t" and f: "file_ok s ip" and tx: "txn s" and n: "0 < n" "unat (i_size (inodes s ip)) < off + n" "off \<le> unat (i_size (inodes s ip))"
    "off + n \<le> MAXFILE * BSIZE" and sz: "unat sz = off + n"
  defines "u \<equiv> inode_upd ip (\<lambda>x. x\<lparr>i_size := sz\<rparr>) t"
  defines "z \<equiv> inodes u ip" and "ib \<equiv> IBLOCK (i_inum (inodes s ip)) (sb s)"
  assumes l: "logs {ib} u ((content t 1)(ib := put_dinode (unat (i_inum z) mod IPB) (dinode_of_inode z) (content t 1 ib))) r" "lstate.more r = lstate.more u"
  shows "written ip off n v s r"
proof -
  note W = wroteD [OF w] and F = file_okD [OF f]
  note R = wrote_frame [OF w F(1,4)] and I = iblock_outside [OF f F(5)]
  let ?C = "content s 1" and ?D = "content t 1" and ?x = "inodes s ip" and ?y = "inodes t ip"
  let ?k = "unat (i_inum ?x) mod IPB"
  have z: "z = ?y\<lparr>i_size := sz\<rparr>" "inodes r = (inodes t)(ip := z)" using more_fields [OF l(2)] by (simp_all add: z_def u_def)
  have zi: "i_inum z = i_inum ?x" "i_addrs z = i_addrs ?y" using z R(5) by simp_all
  let ?E = "?D(ib := put_dinode ?k (dinode_of_inode z) (?D ib))"
  have c: "content r 1 = ?E" using logsD(3) [OF l(1)] zi by simp
  have fs: "fs_same s r" by (rule fs_same_trans [of _ u]) (use W(11) fs_same_more [OF l(2)] in \<open>simp_all add: u_def\<close>)
  have sbr: "sb r = sb s" by (rule fs_same_sb [OF fs])
  have ibm: "ib < sb_bmapstart (sb s)" using IBLOCK_meta [OF F(1,2,5)] by (simp add: ib_def)
  have oE: "?E b = ?D b" if "sb_bmapstart (sb s) \<le> b" for b using that ibm by auto
  have us: "bused s ?E b = bused s ?D b" for b by (simp add: bused_def oE del: fun_upd_apply)
  have ind: "?E (i_addrs ?y NDIRECT) = ?D (i_addrs ?y NDIRECT)" if "i_addrs ?y NDIRECT \<noteq> 0"
    using map_okD(2) [OF W(12) that] by (intro oE) (auto simp: data_block_def)
  have fb: "fblock ?E z m = fblock ?D ?y m" for m using ind zi by (auto simp: fblock_def)
  have mo: "map_ok s ?E z" using W(12) unfolding map_ok_def data_block_def fb us zi(2) .
  have me: "meta_used s ?E" using W(13) us by (simp add: meta_used_def)
  have by1: "fbyte ?E z i = fbyte ?D ?y i" if "i div BSIZE < MAXFILE" for i
  proof (cases "fblock ?D ?y (i div BSIZE) = 0")
    case False
    then have "?E (fblock ?D ?y (i div BSIZE)) = ?D (fblock ?D ?y (i div BSIZE))"
      using map_okD(1) [OF W(12) that False] by (intro oE) (auto simp: data_block_def)
    then show ?thesis unfolding fbyte_def Let_def fb by (simp only:)
  qed (simp add: fbyte_def fb)
  have ad: "i_addrs z i = 0" if "NDIRECT < i" for i using W(9) F(6) [OF that] zi that by auto
  have own: "disk_inode r (i_inum ?x) = dinode_of_inode z"
    unfolding disk_inode_def c sbr ib_def [symmetric] fun_upd_same by (rule get_put_dinode_same) (simp add: dinode_of_inode_def ad)
  have oth: "disk_inode r k = disk_inode s k" if k: "k < sb_ninodes (sb s)" "k \<noteq> i_inum ?x" for k
  proof (cases "IBLOCK k (sb s) = ib")
    case True
    then have "unat k mod IPB \<noteq> ?k" using same_slot [OF F(1) k(1) F(5) _ k(2)] by (simp add: ib_def)
    then show ?thesis using True wrote_iblock [OF w f F(5)] by (simp add: disk_inode_def c sbr ib_def get_put_dinode_other)
  next
    case False
    then show ?thesis using wrote_iblock [OF w f k(1)] by (simp add: disk_inode_def c sbr)
  qed
  have holes: "fblock ?E z m \<noteq> 0" if "m * BSIZE < off + n" for m
  proof -
    have "m * BSIZE < MAXFILE * BSIZE" using that n(4) by (rule less_le_trans)
    then have m: "m < MAXFILE" by simp
    show ?thesis
    proof (cases "m * BSIZE < unat (i_size ?x)")
      case True
      then show ?thesis using W(2) [OF m F(8)] F(8) [OF True] fb by simp
    next
      case False
      then have "m \<in> spans off n" using that n(3) unfolding spans_def by (intro rev_image_eqI [of "m * BSIZE"]) (auto simp: BSIZE_def)
      then show ?thesis using W(4) fb by simp
    qed
  qed
  have L: "txn r" "held r = held s" "disk r = disk s" "writes r = writes s" "outstanding r = outstanding s"
    using logsD [OF l(1)] R(8) wrote_count(2-4) [OF w tx] by (simp_all add: u_def)
  have "fs_geom u" using R(1) by (simp add: u_def)
  then have gr: "fs_geom r" using fs_geom_logs [OF l(1) fs_same_more [OF l(2)]] by simp
  have tu: "txn u" using R(9) by (simp add: u_def)
  have "card ({ib} - dirtyb u) \<le> 1" using card_mono [of "{ib}" "{ib} - dirtyb u"] by simp
  then have cnt: "lh_n r \<le> lh_n s + int (n div BSIZE) + 5" using logs_count(2) [OF l(1) tu] wrote_count(1) [OF w tx] by (simp add: u_def)
  have ok: "file_ok r ip" unfolding file_ok_def c sbr z(2) fun_upd_same zi(1) own
    using gr me mo meta_used_same [OF fs] map_ok_same [OF fs] R(3) F(5) ad n(4) sz holes z(1) by simp
  have fr: "?E b = ?C b" if "foreign s ip b" for b using that W(6) [of b] by (auto simp: foreign_def ib_def)
  have bd: "i div BSIZE < MAXFILE" if "i < MAXFILE * BSIZE" for i using that by (simp add: less_mult_imp_div_less)
  have oi: "inodes r k = inodes s k" if "k \<noteq> ip" for k using z(2) W(9) that by auto
  have y: "i_type z = i_type ?x" "i_nlink z = i_nlink ?x" using z(1) W(9) by auto
  show ?thesis unfolding written_def c z(2) fun_upd_same
    using ok L n z(1) sz by1 W(1) bd fr oth oi y zi(1) us W(5) fs cnt z(2) by (simp del: fun_upd_apply)
qed

lemma wrote_none_id: "writei_loop ip src off 0 0 s = Inr s"
  by simp

lemma sint_small: "unat n \<le> 71680 \<Longrightarrow> sint (n :: u32) = int (unat n)"
proof -
  assume a: "unat n \<le> 71680"
  have "n = word_of_int (int (unat n))" by simp
  then have "sint n = sint (word_of_int (int (unat n)) :: u32)" by (simp only:)
  also have "\<dots> = int (unat n)"
  proof -
    have "0 \<le> int (unat n)" "int (unat n) \<le> 71680" using a by linarith+
    then have "(int (unat n) + 2147483648) mod 4294967296 = int (unat n) + 2147483648" by (intro mod_pos_pos_trivial) linarith+
    then show ?thesis unfolding int_word_sint by (simp del: of_nat_unat)
  qed
  finally show ?thesis .
qed

lemma maxfile: "MAXFILE * BSIZE = 71680"
  by (simp add: MAXFILE_def NDIRECT_def NINDIRECT_def BSIZE_def)

lemma writei_ok:
  fixes s :: "'a fstate_scheme"
  assumes f: "file_ok s ip" and h: "held s = {}" and r: "room (unat n div BSIZE + 10) s" and ty: "i_type (inodes s ip) \<noteq> T_DEV"
    and o: "off \<le> i_size (inodes s ip)" "unat off + unat n \<le> MAXFILE * BSIZE"
    and fr: "unat n div BSIZE + 5 \<le> nfree s (content s 1)"
  shows "\<exists>t. writei ip src off n s = Inr (int (unat n), t) \<and> written ip (unat off) (unat n) (\<lambda>i. src (i - unat off)) s t"
proof -
  note F = file_okD [OF f] and tx = roomD(1) [OF r]
  let ?v = "\<lambda>i. src (i - unat off)" and ?x = "inodes s ip"
  have sum: "unat (off + n) = unat off + unat n" using o(2) by (simp add: unat_word_ariths maxfile)
  have ng: "\<not> (i_size ?x < off \<or> off + n < off)" "\<not> (of_nat (MAXFILE * BSIZE) < off + n)"
    using o sum by (auto simp: word_less_nat_alt word_le_nat_alt maxfile)
  have sn: "sint n = int (unat n)" using o(2) by (intro sint_small) (simp add: maxfile)
  have e: "writei ip src off n s = bindR (writei_loop ip src (unat off) (unat n) 0 s) (\<lambda>s1.
           if 0 < n \<and> i_size (inodes s1 ip) < off + n
           then bindR (iupdate ip (inode_upd ip (\<lambda>x. x\<lparr>i_size := off + n\<rparr>) s1)) (\<lambda>s2. Inr (sint n, s2))
           else Inr (sint n, s1))"
    unfolding writei_def Let_def if_not_P [OF ty] if_not_P [OF ng(1)] if_not_P [OF ng(2)] by (rule refl)
  obtain t where 2: "writei_loop ip src (unat off) (unat n) 0 s = Inr t" "wrote ip (unat off) (unat n) ?v s t"
    using writei_loop_ok [OF F(1,2) r h F(4,3) o(2) fr] by blast
  note W = wrote_frame [OF 2(2) F(1,4)]
  show ?thesis
  proof (cases "0 < n \<and> i_size ?x < off + n")
    case False
    then have "unat n = 0 \<or> unat off + unat n \<le> unat (i_size ?x)" using sum by (auto simp: word_less_nat_alt word_le_nat_alt unat_eq_0)
    then have "written ip (unat off) (unat n) ?v s t" by (rule written_inside [OF 2(2) f tx])
    then show ?thesis unfolding e using 2(1) False W(6) sn by auto
  next
    case True
    let ?u = "inode_upd ip (\<lambda>x. x\<lparr>i_size := off + n\<rparr>) t"
    have "1 + card (spans (unat off) (unat n)) + 2 \<le> unat n div BSIZE + 10" using card_spans [of "unat off" "unat n"] by simp
    then have "room 1 t" by (intro wrote_room [OF 2(2)] room_less [OF r])
    then have r1: "room 1 ?u" by simp
    have sbt: "sb t = sb s" by (rule fs_same_sb [OF wroteD(11) [OF 2(2)]])
    have "\<exists>r. iupdate ip ?u = Inr r \<and> lstate.more r = lstate.more ?u \<and>
      logs {IBLOCK (i_inum (inodes ?u ip)) (sb ?u)} ?u ((content ?u 1)(IBLOCK (i_inum (inodes ?u ip)) (sb ?u) :=
        put_dinode (unat (i_inum (inodes ?u ip)) mod IPB) (dinode_of_inode (inodes ?u ip)) (content ?u 1 (IBLOCK (i_inum (inodes ?u ip)) (sb ?u))))) r"
      by (rule iupdate_ok) (use W F(5) r1 sbt h in simp_all)
    moreover have "IBLOCK (i_inum (inodes ?u ip)) (sb ?u) = IBLOCK (i_inum ?x) (sb s)" "content ?u 1 = content t 1" using W(5) sbt by simp_all
    ultimately obtain r where r: "iupdate ip ?u = Inr r" "lstate.more r = lstate.more ?u"
      "logs {IBLOCK (i_inum ?x) (sb s)} ?u ((content t 1)(IBLOCK (i_inum ?x) (sb s) :=
        put_dinode (unat (i_inum (inodes ?u ip)) mod IPB) (dinode_of_inode (inodes ?u ip)) (content t 1 (IBLOCK (i_inum ?x) (sb s))))) r" by auto
    have p: "0 < unat n" "unat (i_size ?x) < unat off + unat n" "unat off \<le> unat (i_size ?x)" using True sum o(1)
      by (auto simp: word_less_nat_alt word_le_nat_alt)
    have "written ip (unat off) (unat n) ?v s r" by (rule written_grow [OF 2(2) f tx p o(2) sum r(3,2)])
    then show ?thesis unfolding e using 2(1) True W(6) sn r(1) by auto
  qed
qed

lemma writei_refused:
  assumes "i_type (inodes s ip) \<noteq> T_DEV" "i_size (inodes s ip) < off \<or> MAXFILE * BSIZE < unat off + unat n"
  shows "writei ip src off n s = Inr (-1, s)"
proof -
  have "i_size (inodes s ip) < off \<or> off + n < off \<or> of_nat (MAXFILE * BSIZE) < off + n"
  proof (rule ccontr)
    assume "\<not> (i_size (inodes s ip) < off \<or> off + n < off \<or> of_nat (MAXFILE * BSIZE) < off + n)"
    then have a: "\<not> i_size (inodes s ip) < off" "off \<le> off + n" "unat (off + n) \<le> 71680" by (auto simp: word_le_nat_alt word_less_nat_alt maxfile)
    have "unat (off + n) = unat off + unat n" using a(2) by (simp add: unat_plus_simple)
    then show False using a assms(2) by (simp add: maxfile)
  qed
  then show ?thesis using assms(1) by (auto simp: writei_def Let_def)
qed

section \<open>Reading\<close>

lemma bmap_mapped:
  fixes s :: "'a fstate_scheme"
  assumes tx: "txn s" and h: "held s = {}" and g: "fs_geom s" and d: "i_dev (inodes s ip) = 1" and mo: "map_ok s (content s 1) (inodes s ip)"
    and bn: "bn < MAXFILE" and a: "fblock (content s 1) (inodes s ip) bn \<noteq> 0"
  shows "\<exists>t. bmap ip (of_nat bn) s = Inr (fblock (content s 1) (inodes s ip) bn, t) \<and> logs {} s (content s 1) t \<and> lstate.more t = lstate.more s"
proof -
  have bs: "bn < 140" using bn by (simp add: MAXFILE_def NDIRECT_def NINDIRECT_def BSIZE_def)
  have u: "unat (of_nat bn :: u32) = bn" using bs by (simp add: unat_of_nat)
  show ?thesis
  proof (cases "bn < NDIRECT")
    case True
    then have lt: "(of_nat bn :: u32) < of_nat NDIRECT" using u by (simp add: word_less_nat_alt NDIRECT_def)
    have "bmap ip (of_nat bn) s = Inr (i_addrs (inodes s ip) bn, s)" unfolding bmap_def using lt u a True by (simp add: bmap_slot_def fblock_def)
    then show ?thesis using logs_refl [OF tx] True by (simp add: fblock_def)
  next
    case False
    define j where "j = bn - NDIRECT"
    let ?n = "i_addrs (inodes s ip) NDIRECT"
    have j: "j < NINDIRECT" "bn = NDIRECT + j" using False bn by (simp_all add: j_def MAXFILE_def)
    have ge: "\<not> (of_nat bn :: u32) < of_nat NDIRECT" using False u by (simp add: word_less_nat_alt NDIRECT_def)
    have sj: "(of_nat bn :: u32) - of_nat NDIRECT = of_nat j" using j(2) by simp
    have uj: "unat (of_nat j :: u32) = j" "(of_nat j :: u32) < of_nat NINDIRECT"
      using j(1) by (simp_all add: unat_of_nat word_less_nat_alt NINDIRECT_def BSIZE_def)
    have nz: "?n \<noteq> 0" "fblock (content s 1) (inodes s ip) bn = get32 (content s 1 ?n) (4 * j)" using a j(2) by (auto simp: fblock_def split: if_splits)
    have nF: "?n < FSSIZE" using map_okD(2) [OF mo nz(1)] data_block_place [OF g] by blast
    have room: "lh_n s + int (card (held s)) < int NBUF" using txnD(8) [OF tx] h by simp
    obtain p s2 t where p: "bread 1 ?n s = Inr (p, s2)" "buf_data (bufs s2 p) = content s 1 ?n" "brelse p s2 = Inr t"
      "logs {} s (content s 1) t" "lstate.more t = lstate.more s"
      by (rule read_back [OF tx nF _ room]) (use h in auto)
    have "bmap ip (of_nat bn) s = Inr (get32 (content s 1 ?n) (4 * j), t)"
      unfolding bmap_def if_not_P [OF ge] Let_def sj if_P [OF uj(2)] uj(1) using nz a p(1-3) d by (simp add: bmap_slot_def)
    then show ?thesis using p(4,5) nz(2) by simp
  qed
qed

lemma readi_loop_ok:
  fixes s :: "'a fstate_scheme"
  assumes f: "file_ok s ip" and h: "held s = {}" and tx: "txn s" and n: "off + n \<le> unat (i_size (inodes s ip))"
  shows "tot \<le> n \<Longrightarrow> logs {} s (content s 1) t \<Longrightarrow> lstate.more t = lstate.more s \<Longrightarrow>
    \<exists>u. readi_loop ip off n tot t = Inr (map (\<lambda>i. fbyte (content s 1) (inodes s ip) (off + i)) [tot..<n], u) \<and> logs {} s (content s 1) u \<and> lstate.more u = lstate.more s"
proof (induction "n - tot" arbitrary: tot t rule: less_induct)
  case less
  note F = file_okD [OF f] and L = logsD [OF less.prems(2)] and M = more_fields [OF less.prems(3)]
  let ?C = "content s 1" and ?x = "inodes s ip"
  show ?case
  proof (cases "tot < n")
    case False
    then have "tot = n" "readi_loop ip off n tot t = Inr ([], t)" using less.prems(1) by simp_all
    then show ?thesis using less.prems(2,3) by simp
  next
    case True
    let ?m = "min (n - tot) (BSIZE - (off + tot) mod BSIZE)" and ?bn = "(off + tot) div BSIZE" and ?p = "(off + tot) mod BSIZE"
    note K = chunk [OF refl True, where off = off]
    have "?bn * BSIZE \<le> off + tot" by simp
    then have lt: "?bn * BSIZE < unat (i_size ?x)" using n True by linarith
    then have nz: "fblock ?C ?x ?bn \<noteq> 0" by (rule F(8))
    have "?bn * BSIZE < MAXFILE * BSIZE" using lt F(7) by (rule less_le_trans)
    then have bn: "?bn < MAXFILE" by simp
    let ?a = "fblock ?C ?x ?bn"
    have t: "fs_geom t" "i_dev (inodes t ip) = 1" "map_ok t (content t 1) (inodes t ip)" "held t = {}" "content t 1 = ?C" "inodes t ip = ?x"
      using fs_geom_logs [OF less.prems(2) fs_same_more [OF less.prems(3)]] F(1,3,4) M L(2,3) h map_ok_same [OF fs_same_more [OF less.prems(3)]] by simp_all
    obtain t1 where t1: "bmap ip (of_nat ?bn) t = Inr (?a, t1)" "logs {} t ?C t1" "lstate.more t1 = lstate.more t"
      using bmap_mapped [OF L(1) t(4,1,2,3) bn] t(5,6) nz by auto
    note L1 = logsD [OF t1(2)]
    have aF: "?a < FSSIZE" using map_okD(1) [OF F(3) bn nz] data_block_place [OF F(1)] by blast
    have rm: "lh_n t1 + int (card (held t1)) < int NBUF" using txnD(8) [OF L1(1)] L1(2) t(4) by simp
    obtain b s2 u where b: "bread 1 ?a t1 = Inr (b, s2)" "buf_data (bufs s2 b) = content t1 1 ?a" "brelse b s2 = Inr u"
      "logs {} t1 (content t1 1) u" "lstate.more u = lstate.more t1"
      by (rule read_back [OF L1(1) aF _ rm]) (use L1(2) t(4) in auto)
    have lu: "logs {} s ?C u" "lstate.more u = lstate.more s"
      using logs_trans [OF less.prems(2) logs_trans [OF t1(2) b(4)]] L1(3) b(5) t1(3) less.prems(3) by simp_all
    have dec: "n - (tot + ?m) < n - tot" using K(1,2) by linarith
    obtain v where v: "readi_loop ip off n (tot + ?m) u = Inr (map (\<lambda>i. fbyte ?C ?x (off + i)) [tot + ?m..<n], v)" "logs {} s ?C v" "lstate.more v = lstate.more s"
      using less.hyps [OF dec K(2) lu] by blast
    have d1: "i_dev (inodes t1 ip) = 1" using more_fields [OF t1(3)] t(2) by simp
    have ch: "map (\<lambda>i. buf_data (bufs s2 b) (?p + i)) [0..<?m] = map (\<lambda>i. fbyte ?C ?x (off + i)) [tot..<tot + ?m]"
    proof (rule nth_equalityI)
      fix i assume "i < length (map (\<lambda>i. buf_data (bufs s2 b) (?p + i)) [0..<?m])"
      then have i: "i < ?m" by simp
      have dv: "(off + (tot + i)) div BSIZE = ?bn" by (rule K(6)) (use i in simp_all)
      have md: "(off + (tot + i)) mod BSIZE = ?p + i"
      proof -
        have "(off + (tot + i)) mod BSIZE - ?p = off + (tot + i) - (off + tot)" by (rule K(5) [OF dv]) simp
        moreover have "?p \<le> (off + (tot + i)) mod BSIZE" using K(4) [OF dv] i by simp
        ultimately show ?thesis by linarith
      qed
      show "map (\<lambda>i. buf_data (bufs s2 b) (?p + i)) [0..<?m] ! i = map (\<lambda>i. fbyte ?C ?x (off + i)) [tot..<tot + ?m] ! i"
        using i b(2) L1(3) nz dv md by (simp add: fbyte_def)
    qed simp
    have "[tot..<n] = [tot..<tot + ?m] @ [tot + ?m..<n]" using K(2) by (metis le_add1 le_add_diff_inverse upt_add_eq_append)
    then have "readi_loop ip off n tot t = Inr (map (\<lambda>i. fbyte ?C ?x (off + i)) [tot..<n], v)"
      using True t1(1) b(1,3) d1 v(1) ch by (subst readi_loop.simps) (simp add: Let_def)
    then show ?thesis using v(2,3) by blast
  qed
qed

lemma readi_ok:
  fixes s :: "'a fstate_scheme"
  assumes f: "file_ok s ip" and h: "held s = {}" and tx: "txn s" and ty: "i_type (inodes s ip) \<noteq> T_DEV"
    and o: "off \<le> i_size (inodes s ip)" "off \<le> off + n"
  defines "k \<equiv> min (unat n) (unat (i_size (inodes s ip)) - unat off)"
  shows "\<exists>t. readi ip off n s = Inr ((int k, map (\<lambda>i. fbyte (content s 1) (inodes s ip) (unat off + i)) [0..<k]), t) \<and>
    logs {} s (content s 1) t \<and> lstate.more t = lstate.more s"
proof -
  note F = file_okD [OF f]
  let ?x = "inodes s ip"
  define m where "m = (if i_size ?x < off + n then i_size ?x - off else n)"
  have sum: "unat (off + n) = unat off + unat n" using o(2) by (simp add: unat_plus_simple)
  have ol: "unat off \<le> unat (i_size ?x)" using o(1) by (simp add: word_le_nat_alt)
  have um: "unat m = k" unfolding m_def k_def using sum ol o(1) by (auto simp: word_less_nat_alt unat_sub min_def)
  have km: "unat off + k \<le> unat (i_size ?x)" "k \<le> 71680" using ol F(7) by (auto simp: k_def maxfile)
  have sm: "sint m = int k" using um km(2) sint_small [of m] by simp
  obtain t where t: "readi_loop ip (unat off) k 0 s = Inr (map (\<lambda>i. fbyte (content s 1) ?x (unat off + i)) [0..<k], t)" "logs {} s (content s 1) t" "lstate.more t = lstate.more s"
    using readi_loop_ok [OF f h tx km(1), of 0 s] logs_refl [OF tx] by auto
  have "\<not> (i_size ?x < off \<or> off + n < off)" using o by auto
  then have "readi ip off n s = Inr ((int k, map (\<lambda>i. fbyte (content s 1) ?x (unat off + i)) [0..<k]), t)"
    using ty t(1) sm um unfolding readi_def Let_def m_def [symmetric] by simp
  then show ?thesis using t(2,3) by blast
qed

section \<open>Names\<close>

text \<open>The name a field of \<open>DIRSIZ\<close> characters holds.\<close>

definition cut :: "u8 list \<Rightarrow> u8 list" where
  "cut xs = takeWhile (\<lambda>c. c \<noteq> 0) (take DIRSIZ xs)"

lemma strncmp_list_zero: "strncmp_list n p q = 0 \<longleftrightarrow> takeWhile (\<lambda>c. c \<noteq> 0) (take n p) = takeWhile (\<lambda>c. c \<noteq> 0) (take n q)"
proof (induction n arbitrary: p q)
  case (Suc n)
  show ?case using Suc [of "tl p" "tl q"] by (cases p; cases q) (auto simp: Let_def uint_0_iff simp flip: word_uint_eq_iff)
qed simp

lemma namecmp_zero: "namecmp a b = 0 \<longleftrightarrow> cut a = cut b"
  by (simp add: namecmp_def cut_def strncmp_list_zero)

lemma takeWhile_take: "takeWhile P (take n xs) = take n (takeWhile P xs)"
  by (induction n arbitrary: xs) (simp, case_tac xs, simp_all)

lemma cut_strncpy: "cut (strncpy_list DIRSIZ xs) = cut xs"
proof -
  have "takeWhile (\<lambda>c. c \<noteq> 0) (takeWhile (\<lambda>c. c \<noteq> 0) xs @ replicate n 0) = takeWhile (\<lambda>c. c \<noteq> 0) xs" for n
    by (subst takeWhile_append2) (auto dest: set_takeWhileD simp: takeWhile_replicate)
  then show ?thesis unfolding cut_def strncpy_list_def by (simp only: take_take min.idem takeWhile_take)
qed

lemma length_strncpy [simp]: "length (strncpy_list n xs) = n"
  by (simp add: strncpy_list_def)

lemma dirent_roundtrip: "length (de_name de) = DIRSIZ \<Longrightarrow> dirent_of (dirent_bytes de) = de"
proof -
  have "ucast (ucast v :: u8) OR push_bit 8 (ucast (ucast (drop_bit 8 v) :: u8)) = v" for v :: u16
    by (rule bit_word_eqI) (auto simp: bit_simps)
  then show ?thesis by (simp add: dirent_of_def dirent_bytes_def)
qed

section \<open>Directories as maps\<close>

definition entry :: "(u32 \<Rightarrow> block) \<Rightarrow> inode \<Rightarrow> nat \<Rightarrow> dirent" where
  "entry C x k = dirent_of (map (\<lambda>i. fbyte C x (16 * k + i)) [0..<16])"

definition entries :: "inode \<Rightarrow> nat" where
  "entries x = unat (i_size x) div 16"

definition hit :: "(u32 \<Rightarrow> block) \<Rightarrow> inode \<Rightarrow> u8 list \<Rightarrow> nat \<Rightarrow> bool" where
  "hit C x name k \<longleftrightarrow> de_inum (entry C x k) \<noteq> 0 \<and> cut name = cut (de_name (entry C x k))"

definition dlook :: "(u32 \<Rightarrow> block) \<Rightarrow> inode \<Rightarrow> u8 list \<Rightarrow> u16 option" where
  "dlook C x name = map_option (\<lambda>k. de_inum (entry C x k)) (first_index (hit C x name) (entries x))"

definition dir_ok :: "'a fstate_scheme \<Rightarrow> nat \<Rightarrow> bool" where
  "dir_ok s dp \<longleftrightarrow> file_ok s dp \<and> i_type (inodes s dp) = T_DIR \<and> 16 dvd unat (i_size (inodes s dp))"

lemma dir_ok_logs:
  assumes "dir_ok s dp" "logs {} s (content s 1) t" "lstate.more t = lstate.more s"
  shows "dir_ok t dp"
proof -
  have fs: "fs_same s t" by (rule fs_same_more [OF assms(3)])
  have c: "content t 1 = content s 1" by (rule logsD(3) [OF assms(2)])
  have i: "inodes t = inodes s" using more_fields [OF assms(3)] by simp
  have sb: "sb t = sb s" by (rule fs_same_sb [OF fs])
  show ?thesis using assms(1) unfolding dir_ok_def file_ok_def disk_inode_def c i sb fs_geom_logs [OF assms(2) fs] meta_used_same [OF fs] map_ok_same [OF fs] .
qed

text \<open>Reading an entry.\<close>

lemma read_entry:
  fixes s :: "'a fstate_scheme"
  assumes d: "dir_ok s dp" and h: "held s = {}" and tx: "txn s" and k: "16 * k < unat (i_size (inodes s dp))"
  shows "\<exists>bs t. readi dp (of_nat (16 * k)) 16 s = Inr ((16, bs), t) \<and> dirent_of bs = entry (content s 1) (inodes s dp) k \<and>
    logs {} s (content s 1) t \<and> lstate.more t = lstate.more s"
proof -
  have f: "file_ok s dp" and ty: "i_type (inodes s dp) \<noteq> T_DEV" and dv: "16 dvd unat (i_size (inodes s dp))"
    using d by (auto simp: dir_ok_def T_DIR_def T_DEV_def)
  let ?x = "inodes s dp"
  have sz: "unat (i_size ?x) \<le> 71680" using file_okD(7) [OF f] by (simp add: maxfile)
  have u: "unat (of_nat (16 * k) :: u32) = 16 * k" using k sz by (subst unat_of_nat) simp
  have k16: "16 * k + 16 \<le> unat (i_size ?x)" using dv k by (auto elim!: dvdE)
  have o1: "of_nat (16 * k) \<le> i_size ?x" using k u by (simp add: word_le_nat_alt)
  have o2: "(of_nat (16 * k) :: u32) \<le> of_nat (16 * k) + 16" using k sz u by (subst word_le_nat_alt) (simp add: unat_word_ariths)
  have mn: "min (unat (16 :: u32)) (unat (i_size ?x) - 16 * k) = 16" using k16 by simp
  show ?thesis using readi_ok [OF f h tx ty o1 o2, unfolded u, unfolded mn] unfolding entry_def by auto
qed

lemma dirlookup_loop_ok:
  fixes s :: "'a fstate_scheme"
  assumes d: "dir_ok s dp" and h: "held s = {}" and tx: "txn s"
  shows "k \<le> entries (inodes s dp) \<Longrightarrow> logs {} s (content s 1) t \<Longrightarrow> lstate.more t = lstate.more s \<Longrightarrow>
    (\<forall>j<k. \<not> hit (content s 1) (inodes s dp) name j) \<Longrightarrow>
    \<exists>u. logs {} s (content s 1) u \<and> lstate.more u = lstate.more s \<and>
      dirlookup_loop (unat (i_size (inodes s dp))) dp name (16 * k) t =
        (case first_index (hit (content s 1) (inodes s dp) name) (entries (inodes s dp)) of
           None \<Rightarrow> Inr (None, u)
         | Some j \<Rightarrow> bindR (iget 1 (ucast (de_inum (entry (content s 1) (inodes s dp) j))) u) (\<lambda>(ip, v). Inr (Some (ip, 16 * j), v)))"
proof (induction "entries (inodes s dp) - k" arbitrary: k t rule: less_induct)
  case less
  let ?C = "content s 1" and ?x = "inodes s dp" and ?sz = "unat (i_size (inodes s dp))"
  have dv: "?sz = 16 * entries ?x" using d by (simp add: dir_ok_def entries_def)
  show ?case
  proof (cases "k < entries ?x")
    case False
    then have k: "k = entries ?x" using less.prems(1) by simp
    then have n: "first_index (hit ?C ?x name) (entries ?x) = None" using less.prems(4) by (simp add: first_index_None)
    have "\<not> 16 * k < ?sz" using dv k by simp
    then show ?thesis using less.prems(2,3) n by (subst dirlookup_loop.simps) auto
  next
    case True
    then have lt: "16 * k < ?sz" using dv by simp
    note L = logsD [OF less.prems(2)] and M = more_fields [OF less.prems(3)]
    have dt: "dir_ok t dp" by (rule dir_ok_logs [OF d less.prems(2,3)])
    have c: "content t 1 = ?C" "inodes t dp = ?x" "held t = {}" using L M h by simp_all
    obtain bs u where b: "readi dp (of_nat (16 * k)) 16 t = Inr ((16, bs), u)" "dirent_of bs = entry ?C ?x k" "logs {} t ?C u" "lstate.more u = lstate.more t"
      using read_entry [OF dt c(3) L(1), of k] lt c(1,2) by auto
    have lu: "logs {} s ?C u" "lstate.more u = lstate.more s" using logs_trans [OF less.prems(2) b(3)] b(4) less.prems(3) by simp_all
    have du: "i_dev (inodes u dp) = 1" using more_fields [OF lu(2)] d file_okD(4) [of s dp] by (simp add: dir_ok_def)
    have eq: "dirlookup_loop ?sz dp name (16 * k) t = (if hit ?C ?x name k
        then bindR (iget 1 (ucast (de_inum (entry ?C ?x k))) u) (\<lambda>(ip, v). Inr (Some (ip, 16 * k), v)) else dirlookup_loop ?sz dp name (16 * Suc k) u)"
      using lt b(1,2) du by (subst dirlookup_loop.simps) (auto simp: hit_def namecmp_zero Let_def add.commute)
    show ?thesis
    proof (cases "hit ?C ?x name k")
      case True
      then have "first_index (hit ?C ?x name) (entries ?x) = Some k" using \<open>k < entries ?x\<close> less.prems(4) by (simp add: first_index_Some)
      then show ?thesis unfolding eq using True lu by (intro exI [of _ u]) simp
    next
      case False
      then have "\<forall>j<Suc k. \<not> hit ?C ?x name j" using less.prems(4) less_Suc_eq by auto
      moreover have "entries ?x - Suc k < entries ?x - k" "Suc k \<le> entries ?x" using True by simp_all
      ultimately show ?thesis unfolding eq if_not_P [OF False] by (intro less.hyps [OF _ _ lu])
    qed
  qed
qed

lemma dirlookup_ok:
  fixes s :: "'a fstate_scheme"
  assumes "dir_ok s dp" "held s = {}" "txn s"
  shows "\<exists>u. logs {} s (content s 1) u \<and> lstate.more u = lstate.more s \<and>
    dirlookup dp name s = (case first_index (hit (content s 1) (inodes s dp) name) (entries (inodes s dp)) of
        None \<Rightarrow> Inr (None, u)
      | Some j \<Rightarrow> bindR (iget 1 (ucast (de_inum (entry (content s 1) (inodes s dp) j))) u) (\<lambda>(ip, v). Inr (Some (ip, 16 * j), v)))"
proof -
  have "dirlookup dp name s = dirlookup_loop (unat (i_size (inodes s dp))) dp name (16 * 0) s" using assms(1) by (simp add: dirlookup_def dir_ok_def)
  then show ?thesis using dirlookup_loop_ok [OF assms, of 0 s name] logs_refl [OF assms(3)] by simp
qed

text \<open>The entry that \<open>dirlink\<close> writes: the first empty one, or a new one at the end.\<close>

definition slot :: "(u32 \<Rightarrow> block) \<Rightarrow> inode \<Rightarrow> nat" where
  "slot C x = (case first_index (\<lambda>k. de_inum (entry C x k) = 0) (entries x) of Some k \<Rightarrow> k | None \<Rightarrow> entries x)"

lemma dirlink_slot_ok:
  fixes s :: "'a fstate_scheme"
  assumes d: "dir_ok s dp" and h: "held s = {}" and tx: "txn s"
  shows "k \<le> entries (inodes s dp) \<Longrightarrow> logs {} s (content s 1) t \<Longrightarrow> lstate.more t = lstate.more s \<Longrightarrow>
    (\<forall>j<k. de_inum (entry (content s 1) (inodes s dp) j) \<noteq> 0) \<Longrightarrow>
    \<exists>u. logs {} s (content s 1) u \<and> lstate.more u = lstate.more s \<and>
      dirlink_slot (unat (i_size (inodes s dp))) dp (16 * k) t = Inr (16 * slot (content s 1) (inodes s dp), u)"
proof (induction "entries (inodes s dp) - k" arbitrary: k t rule: less_induct)
  case less
  let ?C = "content s 1" and ?x = "inodes s dp" and ?sz = "unat (i_size (inodes s dp))"
  have dv: "?sz = 16 * entries ?x" using d by (simp add: dir_ok_def entries_def)
  show ?case
  proof (cases "k < entries ?x")
    case False
    then have k: "k = entries ?x" using less.prems(1) by simp
    then have "first_index (\<lambda>k. de_inum (entry ?C ?x k) = 0) (entries ?x) = None" using less.prems(4) by (simp add: first_index_None)
    then have n: "slot ?C ?x = k" using k by (simp add: slot_def)
    have "\<not> 16 * k < ?sz" using dv k by simp
    then show ?thesis using less.prems(2,3) n by (subst dirlink_slot.simps) auto
  next
    case True
    then have lt: "16 * k < ?sz" using dv by simp
    note L = logsD [OF less.prems(2)] and M = more_fields [OF less.prems(3)]
    have dt: "dir_ok t dp" by (rule dir_ok_logs [OF d less.prems(2,3)])
    have c: "content t 1 = ?C" "inodes t dp = ?x" "held t = {}" using L M h by simp_all
    obtain bs u where b: "readi dp (of_nat (16 * k)) 16 t = Inr ((16, bs), u)" "dirent_of bs = entry ?C ?x k" "logs {} t ?C u" "lstate.more u = lstate.more t"
      using read_entry [OF dt c(3) L(1), of k] lt c(1,2) by auto
    have lu: "logs {} s ?C u" "lstate.more u = lstate.more s" using logs_trans [OF less.prems(2) b(3)] b(4) less.prems(3) by simp_all
    have eq: "dirlink_slot ?sz dp (16 * k) t = (if de_inum (entry ?C ?x k) = 0 then Inr (16 * k, u) else dirlink_slot ?sz dp (16 * Suc k) u)"
      using lt b(1,2) by (subst dirlink_slot.simps) (auto simp: add.commute)
    show ?thesis
    proof (cases "de_inum (entry ?C ?x k) = 0")
      case True
      then have "first_index (\<lambda>k. de_inum (entry ?C ?x k) = 0) (entries ?x) = Some k" using \<open>k < entries ?x\<close> less.prems(4) by (simp add: first_index_Some)
      then have "slot ?C ?x = k" by (simp add: slot_def)
      then show ?thesis unfolding eq using True lu by (intro exI [of _ u]) simp
    next
      case False
      then have "\<forall>j<Suc k. de_inum (entry ?C ?x j) \<noteq> 0" using less.prems(4) less_Suc_eq by auto
      moreover have "entries ?x - Suc k < entries ?x - k" "Suc k \<le> entries ?x" using True by simp_all
      ultimately show ?thesis unfolding eq if_not_P [OF False] by (intro less.hyps [OF _ _ lu])
    qed
  qed
qed

lemma first_index_cong: "(\<And>i. i < n \<Longrightarrow> P i = Q i) \<Longrightarrow> first_index P n = first_index Q n"
  unfolding first_index_def by (intro find_cong) simp_all

lemma first_index_Suc: "\<not> P n \<Longrightarrow> first_index P (Suc n) = first_index P n"
proof (cases "first_index P n")
  case None
  assume "\<not> P n"
  then have "first_index P (Suc n) = None" using None less_Suc_eq by (auto simp: first_index_None)
  then show ?thesis using None by simp
next
  case (Some i)
  then have "first_index P (Suc n) = Some i" unfolding first_index_Some by simp
  then show ?thesis using Some by simp
qed

lemma slot_cases: "slot C x \<le> entries x" "slot C x < entries x \<Longrightarrow> de_inum (entry C x (slot C x)) = 0"
proof -
  have "slot C x \<le> entries x \<and> (slot C x < entries x \<longrightarrow> de_inum (entry C x (slot C x)) = 0)"
  proof (cases "first_index (\<lambda>k. de_inum (entry C x k) = 0) (entries x)")
    case (Some i)
    then have "slot C x = i" by (simp add: slot_def)
    then show ?thesis using Some [unfolded first_index_Some] by simp
  qed (simp add: slot_def)
  then show "slot C x \<le> entries x" "slot C x < entries x \<Longrightarrow> de_inum (entry C x (slot C x)) = 0" by simp_all
qed

text \<open>Writing one entry changes the map at its name.\<close>

lemma dlook_written:
  fixes s :: "'a fstate_scheme"
  assumes w: "written dp (16 * k) 16 v s t" and d: "dir_ok s dp" and k: "k = slot (content s 1) (inodes s dp)"
    and de: "dirent_of (map (\<lambda>i. v (16 * k + i)) [0..<16]) = de" "de_inum de \<noteq> 0" and fr: "dlook (content s 1) (inodes s dp) (de_name de) = None"
    and mx: "16 * k + 16 \<le> MAXFILE * BSIZE"
  shows "dir_ok t dp" "dlook (content t 1) (inodes t dp) nm = (if cut nm = cut (de_name de) then Some (de_inum de) else dlook (content s 1) (inodes s dp) nm)"
proof -
  let ?C = "content s 1" and ?D = "content t 1" and ?x = "inodes s dp" and ?y = "inodes t dp"
  have W: "file_ok t dp" "unat (i_size ?y) = max (unat (i_size ?x)) (16 * k + 16)" "i_type ?y = i_type ?x"
    "\<And>i. i < MAXFILE * BSIZE \<Longrightarrow> fbyte ?D ?y i = (if 16 * k \<le> i \<and> i < 16 * k + 16 then v i else fbyte ?C ?x i)"
    using w by (simp_all add: written_def)
  have dv: "unat (i_size ?x) = 16 * entries ?x" using d by (simp add: dir_ok_def entries_def)
  have kn: "k \<le> entries ?x" "k < entries ?x \<Longrightarrow> de_inum (entry ?C ?x k) = 0"
    unfolding k by (rule slot_cases, rule slot_cases)
  have ny: "entries ?y = (if k = entries ?x then Suc k else entries ?x)" 
  proof -
    have "entries ?y = max (16 * entries ?x) (16 * k + 16) div 16" unfolding entries_def [of ?y] W(2) by (simp only: dv)
    moreover have "max (16 * entries ?x) (16 * k + 16) = 16 * (if k = entries ?x then Suc k else entries ?x)" using kn(1) by (simp add: max_def)
    ultimately show ?thesis by simp
  qed
  have "16 dvd unat (i_size ?y)" unfolding W(2) dv by (simp add: max_def)
  then show "dir_ok t dp" using W(1,3) d by (simp add: dir_ok_def)
  have xm: "16 * entries ?x \<le> MAXFILE * BSIZE" using file_okD(7) [of s dp] d dv by (simp add: dir_ok_def)
  have ent: "entry ?D ?y j = (if j = k then de else entry ?C ?x j)" if "16 * j + 16 \<le> MAXFILE * BSIZE" for j
  proof -
    have "map (\<lambda>i. fbyte ?D ?y (16 * j + i)) [0..<16] = map (\<lambda>i. if j = k then v (16 * k + i) else fbyte ?C ?x (16 * j + i)) [0..<16]"
    proof (rule map_cong [OF refl])
      fix i assume "i \<in> set [0..<16]"
      then have i: "i < 16" by simp
      then have e: "16 * k \<le> 16 * j + i \<and> 16 * j + i < 16 * k + 16 \<longleftrightarrow> j = k" by linarith
      have "16 * j + i < MAXFILE * BSIZE" using that i by linarith
      from W(4) [OF this] show "fbyte ?D ?y (16 * j + i) = (if j = k then v (16 * k + i) else fbyte ?C ?x (16 * j + i))" unfolding e by simp
    qed
    then have "entry ?D ?y j = dirent_of (map (\<lambda>i. if j = k then v (16 * k + i) else fbyte ?C ?x (16 * j + i)) [0..<16])"
      unfolding entry_def by (rule arg_cong)
    then show ?thesis using de(1) by (cases "j = k") (simp_all only: if_True if_False entry_def simp_thms)
  qed
  have in_max: "16 * j + 16 \<le> MAXFILE * BSIZE" if "j < entries ?y" for j using that ny mx xm kn(1) by (auto split: if_splits)
  have hy: "hit ?D ?y nm j = (if j = k then cut nm = cut (de_name de) else hit ?C ?x nm j)" if "j < entries ?y" for j nm
    using ent [OF in_max [OF that]] de(2) by (simp add: hit_def)
  have none: "\<not> hit ?C ?x (de_name de) j" if "j < entries ?x" for j using fr that by (auto simp: dlook_def first_index_None)
  have same: "hit ?C ?x nm j = hit ?C ?x (de_name de) j" if "cut nm = cut (de_name de)" for j using that by (simp add: hit_def)
  have nk: "\<not> hit ?C ?x nm k" if "k < entries ?x" for nm using kn(2) that by (simp add: hit_def)
  show "dlook ?D ?y nm = (if cut nm = cut (de_name de) then Some (de_inum de) else dlook ?C ?x nm)"
  proof (cases "cut nm = cut (de_name de)")
    case True
    have ke: "k < entries ?y" using ny kn(1) by auto
    have "first_index (hit ?D ?y nm) (entries ?y) = Some k" unfolding first_index_Some
    proof (intro conjI allI impI)
      show "hit ?D ?y nm k" using hy [OF ke] True by simp
      fix j assume j: "j < k"
      then have "j < entries ?x" "j < entries ?y" using kn(1) ke by auto
      then show "\<not> hit ?D ?y nm j" using hy [of j nm] j none [of j] same [OF True, of j] by simp
    qed (rule ke)
    then show ?thesis using True ent [OF in_max [OF ke]] by (simp add: dlook_def)
  next
    case False
    have e: "first_index (hit ?D ?y nm) (entries ?y) = first_index (hit ?C ?x nm) (entries ?x)"
    proof (cases "k = entries ?x")
      case True
      have "first_index (hit ?D ?y nm) (Suc k) = first_index (hit ?D ?y nm) k" by (rule first_index_Suc) (use hy [of k nm] ny True False in simp)
      also have "\<dots> = first_index (hit ?C ?x nm) k" by (rule first_index_cong) (use hy ny True in simp)
      finally show ?thesis using ny True by simp
    next
      case nf: False
      then have "entries ?y = entries ?x" using ny by simp
      then show ?thesis using hy False nk kn(1) nf by (simp, intro first_index_cong) auto
    qed
    have "entry ?D ?y j = entry ?C ?x j" if "first_index (hit ?C ?x nm) (entries ?x) = Some j" for j
    proof -
      have j: "j < entries ?x" "hit ?C ?x nm j" using that by (simp_all add: first_index_Some)
      then have "j \<noteq> k" "j < entries ?y" using nk ny kn(1) by (auto split: if_splits)
      then show ?thesis using ent [OF in_max] by simp
    qed
    then show ?thesis using e False by (cases "first_index (hit ?C ?x nm) (entries ?x)") (simp_all add: dlook_def)
  qed
qed

lemma dirlink_ok:
  fixes s :: "'a fstate_scheme"
  assumes d: "dir_ok s dp" and h: "held s = {}" and r: "room 10 s" and fr: "5 \<le> nfree s (content s 1)"
    and nm: "dlook (content s 1) (inodes s dp) name = None" and i: "ucast inum \<noteq> (0 :: u16)" and sz: "unat (i_size (inodes s dp)) + 16 \<le> MAXFILE * BSIZE"
  shows "\<exists>t. dirlink dp name inum s = Inr (0, t) \<and> dir_ok t dp \<and> txn t \<and> held t = {} \<and>
    (\<forall>x. dlook (content t 1) (inodes t dp) x = (if cut x = cut name then Some (ucast inum) else dlook (content s 1) (inodes s dp) x))"
proof -
  note tx = roomD(1) [OF r]
  let ?C = "content s 1" and ?x = "inodes s dp"
  let ?k = "slot ?C ?x" and ?de = "\<lparr>de_inum = ucast inum, de_name = strncpy_list DIRSIZ name\<rparr>"
  have none: "first_index (hit ?C ?x name) (entries ?x) = None" using nm by (simp add: dlook_def)
  obtain u where u: "logs {} s ?C u" "lstate.more u = lstate.more s" "dirlookup dp name s = Inr (None, u)"
    using dirlookup_ok [OF d h tx, of name] none by auto
  note L = logsD [OF u(1)] and M = more_fields [OF u(2)]
  have du: "dir_ok u dp" by (rule dir_ok_logs [OF d u(1,2)])
  have c: "content u 1 = ?C" "inodes u = inodes s" "held u = {}" using L M h by simp_all
  obtain v where v: "logs {} u ?C v" "lstate.more v = lstate.more u" "dirlink_slot (unat (i_size (inodes u dp))) dp 0 u = Inr (16 * ?k, v)"
    using dirlink_slot_ok [OF du c(3) L(1), of 0 u] logs_refl [OF L(1)] c by auto
  have lv: "logs {} s ?C v" "lstate.more v = lstate.more s" using logs_trans [OF u(1) v(1)] v(2) u(2) by simp_all
  note L2 = logsD [OF lv(1)] and M2 = more_fields [OF lv(2)]
  have dv: "dir_ok v dp" by (rule dir_ok_logs [OF d lv])
  have c2: "content v 1 = ?C" "inodes v = inodes s" "held v = {}" using L2 M2 h by simp_all
  have dvd: "unat (i_size ?x) = 16 * entries ?x" using d by (simp add: dir_ok_def entries_def)
  have k: "16 * ?k + 16 \<le> MAXFILE * BSIZE" "16 * ?k \<le> unat (i_size ?x)" using slot_cases(1) [of ?C ?x] sz dvd by linarith+
  have uk: "unat (of_nat (16 * ?k) :: u32) = 16 * ?k" using k(1) by (subst unat_of_nat) (simp add: maxfile)
  have f: "file_ok v dp" "i_type (inodes v dp) \<noteq> T_DEV" using dv by (auto simp: dir_ok_def T_DIR_def T_DEV_def)
  have rv: "room (unat (16 :: u32) div BSIZE + 10) v" using room_logs0 [OF r lv(1)] by (simp add: BSIZE_def)
  have o: "of_nat (16 * ?k) \<le> i_size (inodes v dp)" "unat (of_nat (16 * ?k) :: u32) + unat (16 :: u32) \<le> MAXFILE * BSIZE"
    using k uk c2(2) unfolding word_le_nat_alt by simp_all
  have fv: "unat (16 :: u32) div BSIZE + 5 \<le> nfree v (content v 1)" using fr c2(1) nfree_same [OF fs_same_more [OF lv(2)]] by (simp add: BSIZE_def)
  let ?src = "\<lambda>i. dirent_bytes ?de ! i"
  obtain t where t: "writei dp ?src (of_nat (16 * ?k)) 16 v = Inr (int (unat (16 :: u32)), t)"
    "written dp (unat (of_nat (16 * ?k) :: u32)) (unat (16 :: u32)) (\<lambda>i. ?src (i - unat (of_nat (16 * ?k) :: u32))) v t"
    using writei_ok [OF f(1) c2(3) rv f(2) o fv, of ?src] by blast
  have w: "written dp (16 * ?k) 16 (\<lambda>i. ?src (i - 16 * ?k)) v t" using t(2) unfolding uk by simp
  have len: "length (dirent_bytes ?de) = 16" by (simp add: dirent_bytes_def DIRSIZ_def)
  have "map (\<lambda>i. ?src (16 * ?k + i - 16 * ?k)) [0..<16] = dirent_bytes ?de" using len by (intro nth_equalityI) simp_all
  then have de: "dirent_of (map (\<lambda>i. ?src (16 * ?k + i - 16 * ?k)) [0..<16]) = ?de" using dirent_roundtrip [of ?de] by simp
  have cn: "dlook (content v 1) (inodes v dp) (de_name ?de) = None" using nm c2 by (simp add: dlook_def hit_def [abs_def] cut_strncpy)
  have kk: "?k = slot (content v 1) (inodes v dp)" using c2 by simp
  have W: "dir_ok t dp" "\<And>x. dlook (content t 1) (inodes t dp) x = (if cut x = cut (de_name ?de) then Some (de_inum ?de) else dlook (content v 1) (inodes v dp) x)"
    using dlook_written [OF w dv kk de _ cn k(1)] i by auto
  have "dirlink dp name inum s = Inr (0, t)" using u(3) v(3) t(1) c(2) by (simp add: dirlink_def)
  moreover have "txn t" "held t = {}" using w c2(3) by (simp_all add: written_def)
  ultimately show ?thesis using W c2 by (simp add: cut_strncpy)
qed

section \<open>Properties\<close>

text \<open>
  C31: Writing to a file. \<open>writei\<close> refuses a write that starts past the end or would make the file too long. Otherwise, in a transaction with room for the blocks
  and with enough free blocks, it replaces exactly the bytes from \<open>off\<close> on by those of the source, extends the size if needed, allocating the blocks of the file,
  keeps the invariant of the file, and leaves every other block in use and every other inode as it was.
\<close>
theorem writei_writes:
  fixes s :: "'a fstate_scheme"
  assumes "file_ok s ip" "held s = {}" "i_type (inodes s ip) \<noteq> T_DEV" "room (unat n div BSIZE + 10) s" "unat n div BSIZE + 5 \<le> nfree s (content s 1)"
  shows "if i_size (inodes s ip) < off \<or> MAXFILE * BSIZE < unat off + unat n then writei ip src off n s = Inr (-1, s)
    else \<exists>t. writei ip src off n s = Inr (int (unat n), t) \<and> written ip (unat off) (unat n) (\<lambda>i. src (i - unat off)) s t"
  using writei_refused [OF assms(3)] writei_ok [OF assms(1,2,4,3) _ _ assms(5)] by auto

text \<open>
  C32: Reading a file. \<open>readi\<close> returns the bytes of the file from \<open>off\<close> on, as many as asked for and the file has, and changes nothing a reader can see; it fails
  if \<open>off\<close> is past the end.
\<close>
theorem readi_reads:
  fixes s :: "'a fstate_scheme"
  assumes "file_ok s ip" "held s = {}" "txn s" "i_type (inodes s ip) \<noteq> T_DEV"
  shows "if i_size (inodes s ip) < off \<or> off + n < off then readi ip off n s = Inr ((-1, []), s)
    else \<exists>t. let k = min (unat n) (unat (i_size (inodes s ip)) - unat off) in
      readi ip off n s = Inr ((int k, map (\<lambda>i. fbyte (content s 1) (inodes s ip) (unat off + i)) [0..<k]), t) \<and>
      logs {} s (content s 1) t \<and> lstate.more t = lstate.more s"
proof (cases "i_size (inodes s ip) < off \<or> off + n < off")
  case True
  then show ?thesis using assms(4) by (auto simp: readi_def Let_def)
next
  case False
  then have "off \<le> i_size (inodes s ip)" "off \<le> off + n" by auto
  then show ?thesis using readi_ok [OF assms] False by (simp add: Let_def)
qed

text \<open>
  C33: A directory is a map from names to inode numbers. \<open>dirlink\<close> of a name that is not in it sets exactly this name, whether it reuses an empty entry or
  appends one; names count up to \<open>DIRSIZ\<close> characters. \<open>dirlookup\<close> finds a name exactly if the map has it, with the inode number of the map.
\<close>
theorem directory_is_map:
  fixes s :: "'a fstate_scheme"
  assumes "dir_ok s dp" "held s = {}" "room 10 s" "5 \<le> nfree s (content s 1)" "unat (i_size (inodes s dp)) + 16 \<le> MAXFILE * BSIZE"
    "dlook (content s 1) (inodes s dp) name = None" "ucast inum \<noteq> (0 :: u16)"
  shows "(\<exists>t. dirlink dp name inum s = Inr (0, t) \<and> dir_ok t dp \<and> txn t \<and> held t = {} \<and>
      (\<forall>x. dlook (content t 1) (inodes t dp) x = (if cut x = cut name then Some (ucast inum) else dlook (content s 1) (inodes s dp) x))) \<and>
    (\<forall>x. \<exists>u. content u 1 = content s 1 \<and> inodes u = inodes s \<and>
      (case dlook (content s 1) (inodes s dp) x of
         None \<Rightarrow> dirlookup dp x s = Inr (None, u)
       | Some i \<Rightarrow> \<exists>k < entries (inodes s dp). dirlookup dp x s = bindR (iget 1 (ucast i) u) (\<lambda>(ip, v). Inr (Some (ip, 16 * k), v))))"
proof (intro conjI allI)
  show "\<exists>t. dirlink dp name inum s = Inr (0, t) \<and> dir_ok t dp \<and> txn t \<and> held t = {} \<and>
      (\<forall>x. dlook (content t 1) (inodes t dp) x = (if cut x = cut name then Some (ucast inum) else dlook (content s 1) (inodes s dp) x))"
    by (rule dirlink_ok [OF assms(1-4,6,7,5)])
  fix x
  obtain u where u: "logs {} s (content s 1) u" "lstate.more u = lstate.more s"
    "dirlookup dp x s = (case first_index (hit (content s 1) (inodes s dp) x) (entries (inodes s dp)) of None \<Rightarrow> Inr (None, u)
      | Some j \<Rightarrow> bindR (iget 1 (ucast (de_inum (entry (content s 1) (inodes s dp) j))) u) (\<lambda>(ip, v). Inr (Some (ip, 16 * j), v)))"
    using dirlookup_ok [OF assms(1,2) roomD(1) [OF assms(3)], of x] by blast
  have "content u 1 = content s 1" "inodes u = inodes s" using logsD(3) [OF u(1)] more_fields [OF u(2)] by simp_all
  moreover have "j < entries (inodes s dp)" if "first_index (hit (content s 1) (inodes s dp) x) (entries (inodes s dp)) = Some j" for j
    using that by (simp add: first_index_Some)
  ultimately show "\<exists>u. content u 1 = content s 1 \<and> inodes u = inodes s \<and>
      (case dlook (content s 1) (inodes s dp) x of
         None \<Rightarrow> dirlookup dp x s = Inr (None, u)
       | Some i \<Rightarrow> \<exists>k < entries (inodes s dp). dirlookup dp x s = bindR (iget 1 (ucast i) u) (\<lambda>(ip, v). Inr (Some (ip, 16 * k), v)))"
    using u(3) by (intro exI [of _ u]) (auto simp: dlook_def split: option.splits)
qed

section \<open>An example file system\<close>

text \<open>A disk with an empty file or directory as inode 1, in a transaction that has logged nothing yet; the inode is in entry 0 of the cache, locked by the process.\<close>

definition demo_sb :: superblock where
  "demo_sb = \<lparr>sb_size = 1000, sb_nblocks = 965, sb_ninodes = 8, sb_nlog = 30, sb_logstart = 2, sb_inodestart = 32, sb_bmapstart = 34\<rparr>"

definition demo_bitmap :: block where
  "demo_bitmap i = (if i < 4 then 255 else if i = 4 then 7 else 0)"

definition demo_img :: "u16 \<Rightarrow> u32 \<Rightarrow> block" where
  "demo_img t n = (if n = 32 then put_dinode 1 (empty_dinode t) (\<lambda>_. 0) else if n = 34 then demo_bitmap else (\<lambda>_. 0))"

definition demo_inode :: "u16 \<Rightarrow> inode" where
  "demo_inode t = \<lparr>i_dev = 1, i_inum = 1, i_ref = 1, i_lock = \<lparr>sl_locked = True, sl_pid = 1\<rparr>, i_valid = True, i_type = t, i_major = 0, i_minor = 0, i_nlink = 0,
     i_size = 0, i_addrs = (\<lambda>_. 0)\<rparr>"

definition demo_fst :: "u16 \<Rightarrow> fstate" where
  "demo_fst t = binit \<lparr>curpid = 1, bcache_lock = False, bufs = (\<lambda>_. zero_buf), bnext = (\<lambda>_. 0), bprev = (\<lambda>_. 0), idelock = False, idequeue = [],
     havedisk1 = True, ide_fault = False, disk = (\<lambda>d. if d = 1 then demo_img t else (\<lambda>_ _. 0)), writes = [],
     log_lock = False, log_start = 2, log_size = 30, outstanding = 1, committing = False, log_dev = 1, lh_n = 0, lh_block = (\<lambda>_. 0),
     icache_lock = False, inodes = (\<lambda>_. demo_inode t), sb = demo_sb, cwd = 0, devsw_read = (\<lambda>_. None), devsw_write = (\<lambda>_. None), dev_out = []\<rparr>"

lemma demo_used: "used_bit demo_bitmap k \<longleftrightarrow> k < 35"
proof (cases "k < 40")
  case True
  have "list_all (\<lambda>k. used_bit demo_bitmap k = (k < 35)) [0..<40]" by code_simp
  then show ?thesis using True by (auto simp: list_all_iff)
next
  case False
  then have "5 \<le> k div 8" by simp
  then show ?thesis using False by (simp add: used_bit_def demo_bitmap_def)
qed

lemma demo_fields:
  fixes t :: u16
  defines "s \<equiv> demo_fst t"
  shows "bc_ok s" "held s = {}" "dirtyb s = {}" "content s 1 n = demo_img t n" "log_lock s = False" "log_start s = 2" "log_size s = 30" "outstanding s = 1"
    "lh_n s = 0" "log_dev s = 1" "inodes s = (\<lambda>_. demo_inode t)" "sb s = demo_sb"
proof -
  let ?x = "bstate.more (\<lparr>curpid = 1, bcache_lock = False, bufs = (\<lambda>_. zero_buf), bnext = (\<lambda>_. 0), bprev = (\<lambda>_. 0), idelock = False, idequeue = [],
     havedisk1 = True, ide_fault = False, disk = (\<lambda>d. if d = 1 then demo_img t else (\<lambda>_ _. 0)), writes = [],
     log_lock = False, log_start = 2, log_size = 30, outstanding = 1, committing = False, log_dev = 1, lh_n = 0, lh_block = (\<lambda>_. 0),
     icache_lock = False, inodes = (\<lambda>_. demo_inode t), sb = demo_sb, cwd = 0, devsw_read = (\<lambda>_. None), devsw_write = (\<lambda>_. None), dev_out = []\<rparr> :: fstate)"
  have e: "s = binit (boot_bstate (\<lambda>d. if d = 1 then demo_img t else (\<lambda>_ _. 0)) ?x)" by (simp add: s_def demo_fst_def boot_bstate_def)
  note B = boot_ok [of "\<lambda>d. if d = 1 then demo_img t else (\<lambda>_ _. 0)" ?x, folded e]
  show "bc_ok s" "held s = {}" "dirtyb s = {}" "content s 1 n = demo_img t n" using B by (simp_all add: dirtyb_def)
  show "log_lock s = False" "log_start s = 2" "log_size s = 30" "outstanding s = 1" "lh_n s = 0" "log_dev s = 1" "inodes s = (\<lambda>_. demo_inode t)" "sb s = demo_sb"
    using B(6) by (cases s; simp)+
qed

lemma demo_file:
  shows "file_ok (demo_fst t) 0" "held (demo_fst t) = {}" "k \<le> 20 \<Longrightarrow> room k (demo_fst t)" "100 \<le> nfree (demo_fst t) (content (demo_fst t) 1)" "txn (demo_fst t)"
    "i_type (inodes (demo_fst t) 0) = t" "i_size (inodes (demo_fst t) 0) = 0"
proof -
  let ?s = "demo_fst t"
  note D = demo_fields [of t]
  have c: "content ?s 1 = demo_img t" using D(4) by (rule ext)
  show h: "held ?s = {}" by (rule D(2))
  show tx: "txn ?s" using D by (simp add: txn_def log_geom_def homes_ok_def NBUF_def)
  show "k \<le> 20 \<Longrightarrow> room k ?s" using D tx by (simp add: room_def NBUF_def)
  have us: "bused ?s (demo_img t) b \<longleftrightarrow> unat b < 35" for b using D(12) demo_used [of "unat b"] by (simp add: bused_def demo_sb_def demo_img_def)
  have g: "fs_geom ?s" using D by (simp add: fs_geom_def demo_sb_def FSSIZE_def IPB_def BSIZE_def)
  have m: "meta_used ?s (demo_img t)" using D(12) us by (simp add: meta_used_def demo_sb_def word_le_nat_alt)
  have z: "fblock (demo_img t) (demo_inode t) n = 0" for n by (simp add: fblock_def demo_inode_def)
  have mo: "map_ok ?s (demo_img t) (demo_inode t)" using z by (simp add: map_ok_def demo_inode_def)
  have "disk_inode ?s 1 = get_dinode (put_dinode 1 (empty_dinode t) (\<lambda>_. 0)) 1"
    using D(12) c by (simp add: disk_inode_def demo_sb_def IBLOCK_def IPB_def BSIZE_def demo_img_def word_div_def)
  also have "\<dots> = empty_dinode t" by (rule get_put_dinode_same) (simp add: empty_dinode_def)
  also have "\<dots> = dinode_of_inode (demo_inode t)" by (simp add: empty_dinode_def dinode_of_inode_def demo_inode_def)
  finally show "file_ok ?s 0" unfolding file_ok_def c D(11,12) using g m mo z by (simp add: demo_inode_def demo_sb_def)
  have "inj_on (of_nat :: nat \<Rightarrow> u32) {100..<200}" by (rule inj_onI) (simp add: word_unat_eq_iff unat_of_nat)
  then have "card ((of_nat :: nat \<Rightarrow> u32) ` {100..<200}) = 100" by (simp add: card_image)
  moreover have "(of_nat :: nat \<Rightarrow> u32) ` {100..<200} \<subseteq> {b. b < sb_size (sb ?s) \<and> \<not> bused ?s (demo_img t) b}"
    using D(12) us by (auto simp: demo_sb_def word_less_nat_alt unat_of_nat)
  ultimately show "100 \<le> nfree ?s (content ?s 1)" unfolding nfree_def c
    using card_mono [of "{b. b < sb_size (sb ?s) \<and> \<not> bused ?s (demo_img t) b}" "(of_nat :: nat \<Rightarrow> u32) ` {100..<200}"] by simp
  show "i_type (inodes ?s 0) = t" "i_size (inodes ?s 0) = 0" using D(11) by (simp_all add: demo_inode_def)
qed

theorem writei_writes_witness:
  "\<exists>t. writei 0 (\<lambda>i. of_nat (65 + i)) 0 5 (demo_fst T_FILE) = Inr (5, t) \<and> i_size (inodes t 0) = 5 \<and> fbyte (content t 1) (inodes t 0) 3 = 68"
proof -
  note D = demo_file [where t = T_FILE]
  have r: "room (unat (5 :: u32) div BSIZE + 10) (demo_fst T_FILE)" by (rule D(3)) (simp add: BSIZE_def)
  have ty: "i_type (inodes (demo_fst T_FILE) 0) \<noteq> T_DEV" using D(6) by (simp add: T_FILE_def T_DEV_def)
  have fr: "unat (5 :: u32) div BSIZE + 5 \<le> nfree (demo_fst T_FILE) (content (demo_fst T_FILE) 1)" using D(4) by (simp add: BSIZE_def)
  from writei_writes [OF D(1,2) ty r fr, of 0 "\<lambda>i. of_nat (65 + i)"] obtain t
    where "writei 0 (\<lambda>i. of_nat (65 + i)) 0 5 (demo_fst T_FILE) = Inr (5, t)" "written 0 0 5 (\<lambda>i. of_nat (65 + i)) (demo_fst T_FILE) t"
    by (auto simp: D(7) maxfile)
  moreover have "unat (i_size (inodes t 0)) = 5" "fbyte (content t 1) (inodes t 0) 3 = of_nat (65 + 3)"
    using \<open>written 0 0 5 _ _ t\<close> D(7) by (simp_all add: written_def maxfile)
  ultimately show ?thesis by (intro exI [of _ t]) (simp add: word_unat_eq_iff)
qed

theorem readi_reads_witness:
  "\<exists>t u. writei 0 (\<lambda>i. of_nat (65 + i)) 0 5 (demo_fst T_FILE) = Inr (5, t) \<and> readi 0 1 10 t = Inr ((4, [66, 67, 68, 69]), u)"
proof -
  note D = demo_file [where t = T_FILE]
  have r: "room (unat (5 :: u32) div BSIZE + 10) (demo_fst T_FILE)" by (rule D(3)) (simp add: BSIZE_def)
  have ty: "i_type (inodes (demo_fst T_FILE) 0) \<noteq> T_DEV" using D(6) by (simp add: T_FILE_def T_DEV_def)
  have fr: "unat (5 :: u32) div BSIZE + 5 \<le> nfree (demo_fst T_FILE) (content (demo_fst T_FILE) 1)" using D(4) by (simp add: BSIZE_def)
  have o: "0 \<le> i_size (inodes (demo_fst T_FILE) 0)" "unat (0 :: u32) + unat (5 :: u32) \<le> MAXFILE * BSIZE" by (simp_all add: maxfile)
  obtain t where t: "writei 0 (\<lambda>i. of_nat (65 + i)) 0 5 (demo_fst T_FILE) = Inr (5, t)" "written 0 0 5 (\<lambda>i. of_nat (65 + i)) (demo_fst T_FILE) t"
    using writei_ok [OF D(1,2) r ty o fr, of "\<lambda>i. of_nat (65 + i)"] by auto
  have w: "file_ok t 0" "txn t" "held t = {}" "unat (i_size (inodes t 0)) = 5" "i_type (inodes t 0) \<noteq> T_DEV"
    using t(2) D(2,7) ty by (simp_all add: written_def)
  have b: "fbyte (content t 1) (inodes t 0) i = of_nat (65 + i)" if "i < 5" for i using t(2) that by (simp add: written_def maxfile)
  have sz: "i_size (inodes t 0) = 5" using w(4) by (simp add: word_unat_eq_iff)
  from readi_reads [OF w(1,3,2,5), of 1 10] obtain u where "readi 0 1 10 t = Inr ((int 4, map (\<lambda>i. fbyte (content t 1) (inodes t 0) (1 + i)) [0..<4]), u)"
    by (auto simp: sz Let_def)
  then show ?thesis using t(1) b by (auto simp: upt_rec)
qed

theorem directory_is_map_witness:
  "\<exists>t. dirlink 0 [97] 3 (demo_fst T_DIR) = Inr (0, t) \<and> dlook (content t 1) (inodes t 0) [97] = Some 3 \<and> dlook (content t 1) (inodes t 0) [98] = None"
proof -
  note D = demo_file [where t = T_DIR]
  have d: "dir_ok (demo_fst T_DIR) 0" using D by (simp add: dir_ok_def)
  have n: "dlook (content (demo_fst T_DIR) 1) (inodes (demo_fst T_DIR) 0) x = None" for x by (simp add: dlook_def entries_def D(7) first_index_def)
  have "room 10 (demo_fst T_DIR)" "5 \<le> nfree (demo_fst T_DIR) (content (demo_fst T_DIR) 1)" "unat (i_size (inodes (demo_fst T_DIR) 0)) + 16 \<le> MAXFILE * BSIZE"
    using D(3,4,7) by (simp_all add: maxfile)
  from directory_is_map [OF d D(2) this n, of 3 "[97]"] show ?thesis by (auto simp: n cut_def DIRSIZ_def)
qed

lemma slashes: "takeWhile (\<lambda>c. c = SLASH) xs = replicate (length (takeWhile (\<lambda>c. c = SLASH) xs)) SLASH"
  by (induction xs) auto

lemma skipelem_Some:
  assumes "dropWhile (\<lambda>c. c = SLASH) path = p" "p \<noteq> []" "takeWhile (\<lambda>c. c \<noteq> SLASH) p = e" "dropWhile (\<lambda>c. c \<noteq> SLASH) p = q" "dropWhile (\<lambda>c. c = SLASH) q = r"
  shows "skipelem path = Some (r, take DIRSIZ e)" "e \<noteq> []" "SLASH \<notin> set e"
    "\<exists>a b. path = replicate a SLASH @ e @ replicate b SLASH @ r \<and> (r = [] \<or> (0 < b \<and> hd r \<noteq> SLASH))"
proof -
  show "skipelem path = Some (r, take DIRSIZ e)" using assms by (simp add: skipelem_def Let_def)
  have "hd p \<noteq> SLASH" using hd_dropWhile [of "\<lambda>c. c = SLASH" path] assms(1,2) by simp
  then show "e \<noteq> []" using assms(2,3) by (cases p) auto
  show "SLASH \<notin> set e" using assms(3) set_takeWhileD [of SLASH "\<lambda>c. c \<noteq> SLASH" p] by auto
  let ?a = "takeWhile (\<lambda>c. c = SLASH) path" and ?b = "takeWhile (\<lambda>c. c = SLASH) q"
  have "path = ?a @ p" "p = e @ q" "q = ?b @ r" using assms takeWhile_dropWhile_id [of "\<lambda>c. c = SLASH" path]
    takeWhile_dropWhile_id [of "\<lambda>c. c \<noteq> SLASH" p] takeWhile_dropWhile_id [of "\<lambda>c. c = SLASH" q] by simp_all
  then have "path = ?a @ e @ ?b @ r" by (metis append_assoc)
  moreover have "r = [] \<or> (0 < length ?b \<and> hd r \<noteq> SLASH)"
  proof (cases "r = []")
    case False
    then have "q \<noteq> []" "hd r \<noteq> SLASH" using assms(5) hd_dropWhile [of "\<lambda>c. c = SLASH" q] by auto
    moreover have "hd q = SLASH" using hd_dropWhile [of "\<lambda>c. c \<noteq> SLASH" p] assms(4) \<open>q \<noteq> []\<close> by simp
    ultimately show ?thesis by (cases q) auto
  qed simp
  ultimately show "\<exists>a b. path = replicate a SLASH @ e @ replicate b SLASH @ r \<and> (r = [] \<or> (0 < b \<and> hd r \<noteq> SLASH))"
    using slashes [of path] slashes [of q] by (intro exI [of _ "length ?a"] exI [of _ "length ?b"]) simp
qed

text \<open>
  C34: The loop of \<open>namex\<close> over a path ends: each pass takes one element off the path, with the slashes around it. The element is not empty and has no slash, its name is cut to
  \<open>DIRSIZ\<close> characters, and what is left is shorter and starts with the next element. There is no element exactly if the path has only slashes.
\<close>
theorem skipelem_takes_element:
  "case skipelem path of
     None \<Rightarrow> set path \<subseteq> {SLASH}
   | Some (rest, name) \<Rightarrow> \<exists>e. e \<noteq> [] \<and> SLASH \<notin> set e \<and> name = take DIRSIZ e \<and> length rest < length path \<and>
       (\<exists>a b. path = replicate a SLASH @ e @ replicate b SLASH @ rest \<and> (rest = [] \<or> (0 < b \<and> hd rest \<noteq> SLASH)))"
proof (cases "dropWhile (\<lambda>c. c = SLASH) path = []")
  case True
  then show ?thesis by (auto simp: skipelem_def dropWhile_eq_Nil_conv)
next
  case False
  note S = skipelem_Some [OF refl False refl refl refl]
  show ?thesis unfolding S(1) option.case prod.case using S(2-4) skipelem_shorter [OF S(1)] by blast
qed

theorem skipelem_takes_element_witness:
  "skipelem [47, 47, 97, 47, 47, 98, 98] = Some ([98, 98], [97]) \<and> skipelem [47, 47] = None \<and> length [98, 98 :: u8] < length [47, 47, 97, 47, 47, 98, 98 :: u8]"
  using skipelem_takes_element [of "[47, 47, 97, 47, 47, 98, 98]"] by (simp add: skipelem_def SLASH_def DIRSIZ_def)

end
