(* ===== verification/Ring.thy ===== *)
theory Ring
  imports Prelude
begin

text \<open>
  Ring buffers indexed by unsigned 32-bit counters that are never reset: the bytes between the two counters as a
  list, and what adding at one end and removing at the other do to it. The pipes and the input line of the console
  are such buffers.
\<close>

section \<open>Ring buffers\<close>

definition ring_size :: "u32 \<Rightarrow> u32 \<Rightarrow> nat" where "ring_size r w = unat (w - r)"

definition ring :: "nat \<Rightarrow> (nat \<Rightarrow> 'a) \<Rightarrow> u32 \<Rightarrow> u32 \<Rightarrow> 'a list" where
  "ring N d r w = map (\<lambda>k. d (unat (r + of_nat k) mod N)) [0..<ring_size r w]"

lemma length_ring [simp]: "length (ring N d r w) = ring_size r w"
  by (simp add: ring_def)

lemma ring_size_eq: "w = r + of_nat (ring_size r w)"
  by (simp add: ring_size_def)

lemma ring_size_same [simp]: "ring_size r r = 0"
  by (simp add: ring_size_def)

lemma ring_size_add: "k < 2 ^ 32 \<Longrightarrow> ring_size r (r + of_nat k) = k"
  by (simp add: ring_size_def unat_of_nat)

lemma ring_size_0: "ring_size r w = 0 \<longleftrightarrow> r = w"
  by (auto simp: ring_size_def unat_eq_0)

lemma ring_empty [simp]: "ring N d r r = []"
  by (simp add: ring_def)

lemma ring_full: "N < 2 ^ 32 \<Longrightarrow> ring_size r w = N \<longleftrightarrow> w = r + of_nat N"
  by (metis ring_size_add ring_size_eq)

lemma ring_size_put: "ring_size r w < 2 ^ 32 - 1 \<Longrightarrow> ring_size r (w + 1) = Suc (ring_size r w)"
proof -
  assume a: "ring_size r w < 2 ^ 32 - 1"
  have e: "w + 1 = r + of_nat (Suc (ring_size r w))" using ring_size_eq [of w r] by (simp add: algebra_simps)
  show ?thesis unfolding e using a by (intro ring_size_add) simp
qed

lemma ring_size_get: "r \<noteq> w \<Longrightarrow> ring_size r w = Suc (ring_size (r + 1) w)"
proof -
  assume "r \<noteq> w"
  then have "w - r \<noteq> 0" by simp
  then have "unat (w - r) = Suc (unat (w - r - 1))" by (metis Suc_pred' unat_gt_0 unat_minus_one)
  then show ?thesis by (simp add: ring_size_def algebra_simps)
qed

lemma ring_index_mod: "N dvd 2 ^ 32 \<Longrightarrow> unat (r + of_nat k :: u32) mod N = (unat r + k) mod N"
proof -
  assume d: "N dvd 2 ^ 32"
  have "unat (r + of_nat k :: u32) = (unat r + k) mod 2 ^ 32"
    by (simp add: unat_word_ariths unat_of_nat mod_add_right_eq)
  then show ?thesis using d by (simp add: mod_mod_cancel)
qed

lemma ring_get: "r \<noteq> w \<Longrightarrow> ring N d r w = d (unat r mod N) # ring N d (r + 1) w"
proof -
  assume "r \<noteq> w"
  then have e: "ring_size r w = Suc (ring_size (r + 1) w)" by (rule ring_size_get)
  show ?thesis unfolding ring_def e upt_conv_Cons [OF zero_less_Suc] map_Suc_upt [symmetric]
    by (simp add: algebra_simps)
qed

lemma ring_put:
  assumes d: "N dvd 2 ^ 32" and N: "N < 2 ^ 32" and n: "ring_size r w < N"
  shows "ring N (d(unat w mod N := b)) r (w + 1) = ring N d r w @ [b]"
proof -
  let ?m = "ring_size r w"
  have w: "unat w mod N = (unat r + ?m) mod N" using ring_size_eq [of w r] ring_index_mod [OF d, of r ?m] by simp
  have old: "unat (r + of_nat k :: u32) mod N \<noteq> unat w mod N" if "k < ?m" for k
  proof
    assume "unat (r + of_nat k :: u32) mod N = unat w mod N"
    then have "(unat r + k) mod N = (unat r + ?m) mod N" by (simp add: ring_index_mod [OF d] w)
    then have "N dvd (unat r + ?m) - (unat r + k)" using mod_eq_dvd_iff_nat [of "unat r + k" "unat r + ?m" N] that by simp
    then show False using that n by (auto dest: dvd_imp_le)
  qed
  have "ring_size r (w + 1) = Suc ?m" using n N by (intro ring_size_put) linarith
  moreover have "unat (r + of_nat ?m :: u32) mod N = unat w mod N" using ring_size_eq [of w r] by simp
  ultimately show ?thesis using old by (auto simp: ring_def)
qed

end
