(* ===== verification/Pipe.thy ===== *)
theory Pipe
  imports Ring
begin

text \<open>
  Pipes (\<open>pipe.c\<close>): reading, writing and closing, each up to its return or to the point where it sleeps. A pipe
  is shown to be a bounded queue of bytes, and a writer and a reader that share one to make progress until all is delivered.
\<close>

section \<open>State and operations\<close>

definition PIPESIZE :: nat where "PIPESIZE = 512"

record pipe =
  p_lock :: bool
  p_data :: "nat \<Rightarrow> u8"
  nread :: u32
  nwrite :: u32
  readopen :: bool
  writeopen :: bool

datatype pchan = NRead | NWrite

text \<open>
  A call returns, or puts its process to sleep on a channel after having released the lock; it goes on at byte
  \<open>i\<close> when it has run again. With the outcome come the channels that were woken up.
\<close>

datatype outcome = Return int | Sleep pchan nat

type_synonym pipe_result = "(outcome \<times> pchan list \<times> pipe) res"

definition pipe_release :: "outcome \<Rightarrow> pchan list \<Rightarrow> pipe \<Rightarrow> pipe_result" where
  "pipe_release r w p = bindR (lock_drop (p_lock p)) (\<lambda>l. Inr (r, w, p\<lparr>p_lock := l\<rparr>))"

definition pipe_acquire :: "pipe \<Rightarrow> pipe res" where
  "pipe_acquire p = bindR (lock_take (p_lock p)) (\<lambda>l. Inr (p\<lparr>p_lock := l\<rparr>))"

definition pipe_init :: "pipe" where
  "pipe_init = \<lparr>p_lock = False, p_data = (\<lambda>_. 0), nread = 0, nwrite = 0, readopen = True, writeopen = True\<rparr>"

text \<open>The loop of \<open>pipewrite\<close>; \<open>killed\<close> is the flag of the calling process.\<close>

function pipewrite_loop :: "bool \<Rightarrow> (nat \<Rightarrow> u8) \<Rightarrow> int \<Rightarrow> nat \<Rightarrow> pipe \<Rightarrow> pipe_result" where
  "pipewrite_loop killed addr n i p =
     (if int i < n then
        if nwrite p = nread p + of_nat PIPESIZE
        then if \<not> readopen p \<or> killed then pipe_release (Return (-1)) [] p
             else pipe_release (Sleep NWrite i) [NRead] p
        else pipewrite_loop killed addr n (Suc i)
               (p\<lparr>p_data := (p_data p)(unat (nwrite p) mod PIPESIZE := addr i), nwrite := nwrite p + 1\<rparr>)
      else pipe_release (Return n) [NRead] p)"
  by pat_completeness auto
termination by (relation "measure (\<lambda>(killed, addr, n, i, p). nat n - i)") auto

declare pipewrite_loop.simps [simp del]

definition pipewrite_at :: "nat \<Rightarrow> bool \<Rightarrow> (nat \<Rightarrow> u8) \<Rightarrow> int \<Rightarrow> pipe \<Rightarrow> pipe_result" where
  "pipewrite_at i killed addr n p = bindR (pipe_acquire p) (pipewrite_loop killed addr n i)"

definition pipewrite :: "bool \<Rightarrow> (nat \<Rightarrow> u8) \<Rightarrow> int \<Rightarrow> pipe \<Rightarrow> pipe_result" where
  "pipewrite = pipewrite_at 0"

function piperead_copy :: "int \<Rightarrow> nat \<Rightarrow> pipe \<Rightarrow> u8 list \<times> pipe" where
  "piperead_copy n i p =
     (if int i < n \<and> nread p \<noteq> nwrite p
      then let (bs, p') = piperead_copy n (Suc i) (p\<lparr>nread := nread p + 1\<rparr>) in
           (p_data p (unat (nread p) mod PIPESIZE) # bs, p')
      else ([], p))"
  by pat_completeness auto
termination by (relation "measure (\<lambda>(n, i, p). nat n - i)") auto

declare piperead_copy.simps [simp del]

definition piperead :: "bool \<Rightarrow> int \<Rightarrow> pipe \<Rightarrow> (u8 list \<times> outcome \<times> pchan list \<times> pipe) res" where
  "piperead killed n p =
     bindR (pipe_acquire p) (\<lambda>p1.
     if nread p1 = nwrite p1 \<and> writeopen p1
     then bindR (if killed then pipe_release (Return (-1)) [] p1 else pipe_release (Sleep NRead 0) [] p1) (\<lambda>r. Inr ([], r))
     else let (bs, p2) = piperead_copy n 0 p1 in
          bindR (pipe_release (Return (int (length bs))) [NWrite] p2) (\<lambda>r. Inr (bs, r)))"

text \<open>The flag says that both ends are closed, so that the page of the pipe is to be freed.\<close>

definition pipeclose :: "bool \<Rightarrow> pipe \<Rightarrow> (bool \<times> pchan list \<times> pipe) res" where
  "pipeclose writable p =
     bindR (pipe_acquire p) (\<lambda>p1.
     let p2 = (if writable then p1\<lparr>writeopen := False\<rparr> else p1\<lparr>readopen := False\<rparr>);
         w = (if writable then [NRead] else [NWrite]) in
     bindR (lock_drop (p_lock p2)) (\<lambda>l.
     Inr (\<not> readopen p2 \<and> \<not> writeopen p2, w, p2\<lparr>p_lock := l\<rparr>)))"

section \<open>A pipe is a bounded queue\<close>

text \<open>The bytes in the pipe, oldest first. The counters may wrap around.\<close>

definition pipe_bytes :: "pipe \<Rightarrow> u8 list" where
  "pipe_bytes p = ring PIPESIZE (p_data p) (nread p) (nwrite p)"

definition pipe_ok :: "pipe \<Rightarrow> bool" where
  "pipe_ok p \<longleftrightarrow> length (pipe_bytes p) \<le> PIPESIZE"

text \<open>The two open ends, which reading and writing leave alone.\<close>

definition ends :: "pipe \<Rightarrow> bool \<times> bool" where
  "ends p = (readopen p, writeopen p)"

lemma pipe_full: "nwrite p = nread p + of_nat PIPESIZE \<longleftrightarrow> length (pipe_bytes p) = PIPESIZE"
  using ring_full [of PIPESIZE "nread p" "nwrite p"] by (simp add: pipe_bytes_def PIPESIZE_def)

lemma pipe_empty: "nread p = nwrite p \<longleftrightarrow> pipe_bytes p = []"
  using ring_size_0 [of "nread p" "nwrite p"] by (simp add: pipe_bytes_def flip: length_0_conv)

lemma queued_put:
  "length (pipe_bytes p) < PIPESIZE \<Longrightarrow>
   pipe_bytes (p\<lparr>p_data := (p_data p)(unat (nwrite p) mod PIPESIZE := b), nwrite := nwrite p + 1\<rparr>) = pipe_bytes p @ [b]"
  unfolding pipe_bytes_def by (simp add: ring_put PIPESIZE_def)

lemma queued_get:
  "pipe_bytes p \<noteq> [] \<Longrightarrow> pipe_bytes p = p_data p (unat (nread p) mod PIPESIZE) # pipe_bytes (p\<lparr>nread := nread p + 1\<rparr>)"
  using ring_get [of "nread p" "nwrite p" PIPESIZE "p_data p"] pipe_empty [of p] by (simp add: pipe_bytes_def)

lemma queued_lock [simp]: "pipe_bytes (p\<lparr>p_lock := l\<rparr>) = pipe_bytes p" "ends (p\<lparr>p_lock := l\<rparr>) = ends p"
  by (simp_all add: pipe_bytes_def ends_def)

lemma ends_upd [simp]: "ends (p\<lparr>nread := a\<rparr>) = ends p" "ends (p\<lparr>p_data := d, nwrite := b\<rparr>) = ends p"
  by (simp_all add: ends_def)

text \<open>What a write does from byte \<open>i\<close> on: it puts in what fits, up to byte \<open>k\<close>.\<close>

definition wrote_to :: "bool \<Rightarrow> int \<Rightarrow> nat \<Rightarrow> pipe \<Rightarrow> outcome \<times> pchan list" where
  "wrote_to killed n k p =
     (if int k < n then if \<not> readopen p \<or> killed then (Return (-1), []) else (Sleep NWrite k, [NRead]) else (Return n, [NRead]))"

lemma wrote_to_ends: "ends p' = ends p \<Longrightarrow> wrote_to killed n k p' = wrote_to killed n k p"
  by (simp add: wrote_to_def ends_def)

lemma pipewrite_loop_queue:
  assumes "p_lock p" "length (pipe_bytes p) \<le> PIPESIZE" "k = i + min (nat n - i) (PIPESIZE - length (pipe_bytes p))"
  shows "\<exists>p'. pipewrite_loop killed addr n i p = Inr (fst (wrote_to killed n k p), snd (wrote_to killed n k p), p') \<and>
    pipe_bytes p' = pipe_bytes p @ map addr [i..<k] \<and> ends p' = ends p \<and> \<not> p_lock p'"
  using assms
proof (induction killed addr n i p rule: pipewrite_loop.induct)
  case (1 killed addr n i p)
  consider "\<not> int i < n" | "int i < n" "length (pipe_bytes p) = PIPESIZE" | "int i < n" "length (pipe_bytes p) < PIPESIZE"
    using "1.prems" by linarith
  then show ?case
  proof cases
    case 1
    then have "k = i" using "1.prems" by simp
    then show ?thesis using 1 "1.prems" by (simp add: pipewrite_loop.simps [of killed addr n i p] wrote_to_def pipe_release_def)
  next
    case 2
    then have "k = i" using "1.prems" by simp
    then show ?thesis using 2 "1.prems" pipe_full [of p]
      by (simp add: pipewrite_loop.simps [of killed addr n i p] wrote_to_def pipe_release_def)
  next
    case 3
    let ?p = "p\<lparr>p_data := (p_data p)(unat (nwrite p) mod PIPESIZE := addr i), nwrite := nwrite p + 1\<rparr>"
    have nf: "nwrite p \<noteq> nread p + of_nat PIPESIZE" using 3 pipe_full [of p] by simp
    have q: "pipe_bytes ?p = pipe_bytes p @ [addr i]" using 3 by (intro queued_put)
    have k: "k = Suc i + min (nat n - Suc i) (PIPESIZE - length (pipe_bytes ?p))" using 3 "1.prems"(3) unfolding q length_append by simp linarith
    have ik: "i < k" using 3 "1.prems" by simp
    obtain p' where p': "pipewrite_loop killed addr n (Suc i) ?p = Inr (fst (wrote_to killed n k ?p), snd (wrote_to killed n k ?p), p')"
      "pipe_bytes p' = pipe_bytes ?p @ map addr [Suc i..<k]" "ends p' = ends ?p" "\<not> p_lock p'"
      using "1.IH" [OF 3(1) nf _ _ k] 3 "1.prems" q by auto
    have w: "wrote_to killed n k ?p = wrote_to killed n k p" by (intro wrote_to_ends) simp
    show ?thesis using p' 3 nf q ik unfolding w
      by (simp add: pipewrite_loop.simps [of killed addr n i p] upt_conv_Cons)
  qed
qed

lemma pipewrite_queue:
  assumes "pipe_ok p" "\<not> p_lock p" "k = i + min (nat n - i) (PIPESIZE - length (pipe_bytes p))"
  shows "\<exists>p'. pipewrite_at i killed addr n p = Inr (fst (wrote_to killed n k p), snd (wrote_to killed n k p), p') \<and>
    pipe_bytes p' = pipe_bytes p @ map addr [i..<k] \<and> ends p' = ends p \<and> \<not> p_lock p' \<and> pipe_ok p'"
proof -
  let ?p = "p\<lparr>p_lock := True\<rparr>"
  have "wrote_to killed n k ?p = wrote_to killed n k p" by (rule wrote_to_ends) simp
  moreover have "\<exists>p'. pipewrite_loop killed addr n i ?p = Inr (fst (wrote_to killed n k ?p), snd (wrote_to killed n k ?p), p') \<and>
    pipe_bytes p' = pipe_bytes ?p @ map addr [i..<k] \<and> ends p' = ends ?p \<and> \<not> p_lock p'"
    using assms by (intro pipewrite_loop_queue) (simp_all add: pipe_ok_def)
  ultimately show ?thesis using assms by (auto simp: pipewrite_at_def pipe_acquire_def pipe_ok_def)
qed

lemma piperead_copy_queue:
  "piperead_copy n i p = (bs, p') \<Longrightarrow>
   bs = take (nat n - i) (pipe_bytes p) \<and> pipe_bytes p' = drop (nat n - i) (pipe_bytes p) \<and> ends p' = ends p \<and> p_lock p' = p_lock p"
proof (induction n i p arbitrary: bs p' rule: piperead_copy.induct)
  case (1 n i p)
  show ?case
  proof (cases "int i < n \<and> nread p \<noteq> nwrite p")
    case True
    let ?p = "p\<lparr>nread := nread p + 1\<rparr>"
    obtain bs1 p1 where c: "piperead_copy n (Suc i) ?p = (bs1, p1)" by force
    have r: "bs = p_data p (unat (nread p) mod PIPESIZE) # bs1" "p' = p1"
      using "1.prems" True c by (simp_all add: piperead_copy.simps [of n i p])
    have "pipe_bytes p \<noteq> []" using True pipe_empty [of p] by simp
    then have q: "pipe_bytes p = p_data p (unat (nread p) mod PIPESIZE) # pipe_bytes ?p" by (rule queued_get)
    have m: "nat n - i = Suc (nat n - Suc i)" using True by linarith
    show ?thesis using "1.IH" [OF True c] unfolding r m by (subst (1 2) q) simp
  next
    case False
    then have "nat n - i = 0 \<or> pipe_bytes p = []" using pipe_empty [of p] by auto
    then show ?thesis using "1.prems" False by (auto simp: piperead_copy.simps [of n i p])
  qed
qed

lemma piperead_queue:
  assumes "pipe_ok p" "\<not> p_lock p"
  shows "\<exists>p'. piperead killed n p =
    Inr (if pipe_bytes p = [] \<and> writeopen p then ([], if killed then Return (-1) else Sleep NRead 0, [], p')
         else (take (nat n) (pipe_bytes p), Return (int (min (nat n) (length (pipe_bytes p)))), [NWrite], p')) \<and>
    pipe_bytes p' = (if pipe_bytes p = [] then [] else drop (nat n) (pipe_bytes p)) \<and> ends p' = ends p \<and> \<not> p_lock p' \<and> pipe_ok p'"
proof (cases "pipe_bytes p = [] \<and> writeopen p")
  case True
  then show ?thesis using assms pipe_empty [of p]
    by (auto simp: piperead_def pipe_acquire_def pipe_release_def pipe_ok_def)
next
  case False
  let ?p = "p\<lparr>p_lock := True\<rparr>"
  obtain bs p1 where c: "piperead_copy n 0 ?p = (bs, p1)" by force
  have b: "bs = take (nat n) (pipe_bytes p)" "pipe_bytes p1 = drop (nat n) (pipe_bytes p)" "ends p1 = ends p" "p_lock p1"
    using piperead_copy_queue [OF c] by simp_all
  have "piperead killed n p = Inr (bs, Return (int (length bs)), [NWrite], p1\<lparr>p_lock := False\<rparr>)"
    using False assms c b(4) pipe_empty [of p] by (auto simp: piperead_def pipe_acquire_def pipe_release_def)
  then show ?thesis using False assms b by (auto simp: pipe_ok_def min.commute)
qed

section \<open>A writer and a reader\<close>

text \<open>
  A process writes the chunks \<open>todo\<close>, one call of \<open>pipewrite\<close> each, and closes its end; another reads \<open>m\<close> bytes
  at a time until a call returns 0. A process is about to run (at byte \<open>i\<close> of the call), asleep, or done. The lock is
  held from the start of a call up to its return or sleep, so that these stretches are the atomic steps.
\<close>

datatype proc_at = Run nat | Asleep nat | Done

record pipesys =
  pp :: pipe
  todo :: "u8 list list"
  wr :: proc_at
  rd :: proc_at
  got :: "u8 list"

definition wake :: "pchan \<Rightarrow> pchan list \<Rightarrow> proc_at \<Rightarrow> proc_at" where
  "wake c w a = (case a of Asleep i \<Rightarrow> if c \<in> set w then Run i else a | _ \<Rightarrow> a)"

inductive pipe_step :: "nat \<Rightarrow> pipesys \<Rightarrow> pipesys \<Rightarrow> bool" for m where
  write_sleeps: "wr s = Run i \<Longrightarrow> todo s = c # cs \<Longrightarrow>
    pipewrite_at i False (\<lambda>j. c ! j) (int (length c)) (pp s) = Inr (Sleep NWrite k, w, p) \<Longrightarrow>
    pipe_step m s (s\<lparr>pp := p, wr := Asleep k, rd := wake NRead w (rd s)\<rparr>)"
| write_returns: "wr s = Run i \<Longrightarrow> todo s = c # cs \<Longrightarrow>
    pipewrite_at i False (\<lambda>j. c ! j) (int (length c)) (pp s) = Inr (Return r, w, p) \<Longrightarrow>
    pipe_step m s (s\<lparr>pp := p, todo := cs, wr := Run 0, rd := wake NRead w (rd s)\<rparr>)"
| close: "wr s = Run i \<Longrightarrow> todo s = [] \<Longrightarrow> pipeclose True (pp s) = Inr (free, w, p) \<Longrightarrow>
    pipe_step m s (s\<lparr>pp := p, wr := Done, rd := wake NRead w (rd s)\<rparr>)"
| read_sleeps: "rd s = Run i \<Longrightarrow> piperead False (int m) (pp s) = Inr (bs, Sleep NRead k, w, p) \<Longrightarrow>
    pipe_step m s (s\<lparr>pp := p, rd := Asleep k\<rparr>)"
| read_returns: "rd s = Run i \<Longrightarrow> piperead False (int m) (pp s) = Inr (bs, Return r, w, p) \<Longrightarrow>
    pipe_step m s (s\<lparr>pp := p, rd := (if r = 0 then Done else Run 0), wr := wake NWrite w (wr s), got := got s @ bs\<rparr>)"

inductive_cases pipe_stepE: "pipe_step m s t"

definition sys_init :: "u8 list list \<Rightarrow> pipesys" where
  "sys_init cs = \<lparr>pp = pipe_init, todo = cs, wr = Run 0, rd = Run 0, got = []\<rparr>"

definition pos :: "proc_at \<Rightarrow> nat" where
  "pos a = (case a of Run i \<Rightarrow> i | Asleep i \<Rightarrow> i | Done \<Rightarrow> 0)"

definition unsent :: "pipesys \<Rightarrow> u8 list" where
  "unsent s = drop (pos (wr s)) (concat (todo s))"

definition sys_ok :: "u8 list \<Rightarrow> pipesys \<Rightarrow> bool" where
  "sys_ok xs s \<longleftrightarrow> pipe_ok (pp s) \<and> \<not> p_lock (pp s) \<and> got s @ pipe_bytes (pp s) @ unsent s = xs \<and>
     ends (pp s) = (True, wr s \<noteq> Done) \<and> (wr s = Done \<longrightarrow> todo s = []) \<and>
     (todo s = [] \<longrightarrow> pos (wr s) = 0) \<and> (\<forall>c cs. todo s = c # cs \<longrightarrow> pos (wr s) \<le> length c) \<and>
     (\<forall>i. wr s = Asleep i \<longrightarrow> length (pipe_bytes (pp s)) = PIPESIZE) \<and> (\<forall>i. rd s = Asleep i \<longrightarrow> pipe_bytes (pp s) = [] \<and> wr s \<noteq> Done) \<and>
     (rd s = Done \<longrightarrow> wr s = Done \<and> pipe_bytes (pp s) = [])"

text \<open>What is left to do: each byte has to be written and read, each chunk to be finished, the end to be closed.\<close>

definition awake :: "proc_at \<Rightarrow> nat" where
  "awake a = (case a of Run i \<Rightarrow> 1 | _ \<Rightarrow> 0)"

definition work :: "pipesys \<Rightarrow> nat" where
  "work s = 4 * length (unsent s) + 2 * length (pipe_bytes (pp s)) + 2 * length (todo s) + (if wr s = Done then 0 else 2) +
     awake (wr s) + awake (rd s)"

lemma awake_le: "awake a \<le> 1" "awake (wake c w a) \<le> 1" "awake (Run i) = 1" "awake (Asleep i) = 0" "awake Done = 0"
  by (auto simp: awake_def split: proc_at.splits)

lemma wake_cases:
  "wake c w a = Done \<longleftrightarrow> a = Done" "pos (wake c w a) = pos a" "wake c w a = Asleep i \<longleftrightarrow> a = Asleep i \<and> c \<notin> set w"
  by (auto simp: wake_def pos_def split: proc_at.splits)

lemma wake_run [simp]: "wake c w (Run i) = Run i" "wake c w Done = Done"
  by (simp_all add: wake_def)

lemma sys_init_ok: "sys_ok (concat cs) (sys_init cs)"
  by (auto simp: sys_ok_def sys_init_def pipe_init_def pipe_ok_def pipe_bytes_def ends_def unsent_def pos_def)

lemma sys_write:
  assumes ok: "sys_ok xs s" and r: "wr s = Run i" "todo s = c # cs"
    and k: "k = i + min (length c - i) (PIPESIZE - length (pipe_bytes (pp s)))"
  shows "\<exists>p. pipewrite_at i False (\<lambda>j. c ! j) (int (length c)) (pp s) =
      Inr (if k < length c then Sleep NWrite k else Return (int (length c)), [NRead], p) \<and>
    pipe_bytes p = pipe_bytes (pp s) @ map (\<lambda>j. c ! j) [i..<k] \<and> ends p = ends (pp s) \<and> \<not> p_lock p \<and> pipe_ok p"
proof -
  have "pipe_ok (pp s)" "\<not> p_lock (pp s)" "readopen (pp s)" using ok by (auto simp: sys_ok_def ends_def)
  then show ?thesis using pipewrite_queue [of "pp s" k i "int (length c)" False "\<lambda>j. c ! j"] k
    by (auto simp: wrote_to_def split: if_splits)
qed

lemma map_nth_take: "k \<le> length c \<Longrightarrow> map (\<lambda>j. c ! j) [i..<k] = drop i (take k c)"
  by (intro nth_equalityI) auto

lemma sys_step_write:
  assumes ok: "sys_ok xs s" and r: "wr s = Run i" "todo s = c # cs"
    and p: "pipewrite_at i False (\<lambda>j. c ! j) (int (length c)) (pp s) = Inr (Sleep NWrite k, w, p)"
    and t: "t = s\<lparr>pp := p, wr := Asleep k, rd := wake NRead w (rd s)\<rparr>"
  shows "sys_ok xs t \<and> work t < work s"
proof -
  let ?k = "i + min (length c - i) (PIPESIZE - length (pipe_bytes (pp s)))"
  obtain p' where p': "pipewrite_at i False (\<lambda>j. c ! j) (int (length c)) (pp s) =
      Inr (if ?k < length c then Sleep NWrite ?k else Return (int (length c)), [NRead], p')"
    "pipe_bytes p' = pipe_bytes (pp s) @ map (\<lambda>j. c ! j) [i..<?k]" "ends p' = ends (pp s)" "\<not> p_lock p'" "pipe_ok p'"
    using sys_write [OF ok r refl] by blast
  have k: "k = ?k" "?k < length c" "w = [NRead]" "p = p'" using p p'(1) by (auto split: if_splits)
  have il: "i \<le> length c" "i \<le> k" using ok r k by (auto simp: sys_ok_def pos_def)
  have q: "pipe_bytes p = pipe_bytes (pp s) @ drop i (take k c)" using p'(2) k map_nth_take [of k c i] by simp
  have c: "drop i c = drop i (take k c) @ drop k c" using il k(1,2)
    by (metis append_take_drop_id drop_append diff_is_0_eq' drop_0 length_take min.absorb2 less_imp_le)
  have full: "length (pipe_bytes p) = PIPESIZE" 
  proof -
    have "length (pipe_bytes (pp s)) \<le> PIPESIZE" using ok by (simp add: sys_ok_def pipe_ok_def)
    then show ?thesis using k(1,2) il unfolding q by (simp add: min_def split: if_splits)
  qed
  have u: "unsent t = drop k c @ concat cs" "unsent s = drop i (take k c) @ unsent t"
    using r t k il c by (auto simp: unsent_def pos_def)
  show ?thesis
  proof
    show "sys_ok xs t" using ok p' k t r full u q by (auto simp: sys_ok_def wake_cases pos_def)
    have l: "length (drop i (take k c)) = k - i" using k il by simp
    have j: "rd s = Asleep j \<Longrightarrow> i < k" for j using ok full l unfolding q by (cases "i < k") (auto simp: sys_ok_def PIPESIZE_def)
    have a: "awake (wake NRead w (rd s)) \<le> awake (rd s) + (k - i)"
    proof (cases "rd s")
      case (Asleep j')
      then show ?thesis using j [OF Asleep] awake_le(2) [of NRead w "rd s"] by linarith
    qed simp_all
    have "length (unsent s) = (k - i) + length (unsent t)" "length (pipe_bytes p) = length (pipe_bytes (pp s)) + (k - i)"
      using u(2) q l by simp_all
    then show "work t < work s" using t r a by (simp add: work_def awake_le)
  qed
qed

lemma sys_step_written:
  assumes ok: "sys_ok xs s" and r: "wr s = Run i" "todo s = c # cs"
    and p: "pipewrite_at i False (\<lambda>j. c ! j) (int (length c)) (pp s) = Inr (Return v, w, p)"
    and t: "t = s\<lparr>pp := p, todo := cs, wr := Run 0, rd := wake NRead w (rd s)\<rparr>"
  shows "sys_ok xs t \<and> work t < work s"
proof -
  let ?k = "i + min (length c - i) (PIPESIZE - length (pipe_bytes (pp s)))"
  obtain p' where p': "pipewrite_at i False (\<lambda>j. c ! j) (int (length c)) (pp s) =
      Inr (if ?k < length c then Sleep NWrite ?k else Return (int (length c)), [NRead], p')"
    "pipe_bytes p' = pipe_bytes (pp s) @ map (\<lambda>j. c ! j) [i..<?k]" "ends p' = ends (pp s)" "\<not> p_lock p'" "pipe_ok p'"
    using sys_write [OF ok r refl] by blast
  have il: "i \<le> length c" using ok r by (auto simp: sys_ok_def pos_def)
  have k: "?k = length c" "w = [NRead]" "p = p'" using p p'(1) il by (auto split: if_splits)
  have q: "pipe_bytes p = pipe_bytes (pp s) @ drop i c" using p'(2) k map_nth_take [of "length c" c i] by simp
  have u: "unsent t = concat cs" "unsent s = drop i c @ unsent t" using r t il by (auto simp: unsent_def pos_def)
  show ?thesis
  proof
    show "sys_ok xs t" using ok p' k t r u q by (auto simp: sys_ok_def wake_cases pos_def)
    show "work t < work s" using t r q u(2) il awake_le(1) [of "rd s"] awake_le(2) [of NRead w "rd s"]
      by (auto simp: work_def awake_le)
  qed
qed

lemma sys_step_close:
  assumes ok: "sys_ok xs s" and r: "wr s = Run i" "todo s = []" and p: "pipeclose True (pp s) = Inr (free, w, p)"
    and t: "t = s\<lparr>pp := p, wr := Done, rd := wake NRead w (rd s)\<rparr>"
  shows "sys_ok xs t \<and> work t < work s"
proof -
  have p': "p = pp s\<lparr>writeopen := False, p_lock := False\<rparr>" "w = [NRead]"
    using p ok by (auto simp: pipeclose_def pipe_acquire_def sys_ok_def)
  have q: "pipe_bytes p = pipe_bytes (pp s)" by (simp add: p' pipe_bytes_def)
  show ?thesis
  proof
    show "sys_ok xs t" using ok p' q r t by (auto simp: sys_ok_def wake_cases pos_def ends_def unsent_def pipe_ok_def)
    show "work t < work s" using t r q awake_le(2) [of NRead w "rd s"] by (auto simp: work_def unsent_def awake_le)
  qed
qed

lemma sys_read:
  assumes "sys_ok xs s"
  shows "\<exists>p. piperead False (int m) (pp s) =
      Inr (if pipe_bytes (pp s) = [] \<and> wr s \<noteq> Done then ([], Sleep NRead 0, [], p)
           else (take m (pipe_bytes (pp s)), Return (int (min m (length (pipe_bytes (pp s))))), [NWrite], p)) \<and>
    pipe_bytes p = drop m (pipe_bytes (pp s)) \<and> ends p = ends (pp s) \<and> \<not> p_lock p \<and> pipe_ok p"
proof -
  have "pipe_ok (pp s)" "\<not> p_lock (pp s)" "writeopen (pp s) = (wr s \<noteq> Done)" using assms by (auto simp: sys_ok_def ends_def)
  then show ?thesis using piperead_queue [of "pp s" False "int m"] by (auto split: if_splits)
qed

lemma sys_step_read_sleeps:
  assumes ok: "sys_ok xs s" and r: "rd s = Run i" and p: "piperead False (int m) (pp s) = Inr (bs, Sleep NRead k, w, p)"
    and t: "t = s\<lparr>pp := p, rd := Asleep k\<rparr>"
  shows "sys_ok xs t \<and> work t < work s"
proof -
  have e: "pipe_bytes (pp s) = []" "wr s \<noteq> Done" "pipe_bytes p = []" "ends p = ends (pp s)" "\<not> p_lock p" "pipe_ok p"
    using sys_read [OF ok, of m] p by (auto split: if_splits)
  then have u: "unsent t = unsent s" using t by (simp add: unsent_def)
  then show ?thesis using ok r t e by (auto simp: sys_ok_def work_def awake_le)
qed

lemma sys_step_read:
  assumes ok: "sys_ok xs s" and r: "rd s = Run i" and m: "0 < m"
    and p: "piperead False (int m) (pp s) = Inr (bs, Return v, w, p)"
    and t: "t = s\<lparr>pp := p, rd := (if v = 0 then Done else Run 0), wr := wake NWrite w (wr s), got := got s @ bs\<rparr>"
  shows "sys_ok xs t \<and> work t < work s"
proof -
  let ?q = "pipe_bytes (pp s)"
  have e: "bs = take m ?q" "v = int (min m (length ?q))" "w = [NWrite]" "pipe_bytes p = drop m ?q" "ends p = ends (pp s)" "\<not> p_lock p" "pipe_ok p"
    and d: "?q = [] \<Longrightarrow> wr s = Done" using sys_read [OF ok, of m] p by (auto split: if_splits)
  have u: "unsent t = unsent s" using t by (simp add: unsent_def wake_cases)
  have v: "v = 0 \<longleftrightarrow> ?q = []" using e(2) m by (auto simp: min_def split: if_splits)
  show ?thesis
  proof
    have "got s @ ?q @ unsent s = xs" using ok by (simp add: sys_ok_def)
    then have "(got s @ take m ?q) @ drop m ?q @ unsent s = xs"
      using append_take_drop_id [of m ?q] by (metis append_assoc)
    then show "sys_ok xs t" using ok t e d u v by (auto simp: sys_ok_def wake_cases)
    show "work t < work s"
    proof (cases "?q = []")
      case True
      then show ?thesis using t e d u v r by (auto simp: work_def awake_le)
    next
      case False
      then have "length (drop m ?q) < length ?q" using m by simp
      moreover have "awake (rd t) \<le> awake (rd s)" using t r awake_le(1) [of "rd t"] by (simp add: awake_le)
      ultimately show ?thesis using t e(3,4) u awake_le(1) [of "wake NWrite w (wr s)"]
        by (simp add: work_def wake_cases)
    qed
  qed
qed

lemma pstep_ok: "pipe_step m s t \<Longrightarrow> 0 < m \<Longrightarrow> sys_ok xs s \<Longrightarrow> sys_ok xs t \<and> work t < work s"
proof (erule pipe_stepE, goal_cases)
  case (1 i c cs k w p)
  then show ?case using sys_step_write [of xs s i c cs k w p t] by blast
next
  case (2 i c cs r w p)
  then show ?case using sys_step_written [of xs s i c cs r w p t] by blast
next
  case (3 i free w p)
  then show ?case using sys_step_close [of xs s i free w p t] by blast
next
  case (4 i bs k w p)
  then show ?case using sys_step_read_sleeps [of xs s i m bs k w p t] by blast
next
  case (5 i bs r w p)
  then show ?case using sys_step_read [of xs s i m bs r w p t] by blast
qed

lemma pstep_progress:
  assumes ok: "sys_ok xs s" and f: "rd s \<noteq> Done"
  shows "\<exists>t. pipe_step m s t"
proof (cases "rd s")
  case (Run i)
  obtain p bs r where "piperead False (int m) (pp s) = Inr ([], Sleep NRead 0, [], p) \<or>
    piperead False (int m) (pp s) = Inr (bs, Return r, [NWrite], p)"
    using sys_read [OF ok, of m] by (auto split: if_splits)
  then show ?thesis using pipe_step.read_sleeps [OF Run] pipe_step.read_returns [OF Run] by blast
next
  case (Asleep i)
  then have "pipe_bytes (pp s) = []" "wr s \<noteq> Done" using ok by (auto simp: sys_ok_def)
  then obtain j where j: "wr s = Run j" using ok by (cases "wr s") (auto simp: sys_ok_def PIPESIZE_def)
  show ?thesis
  proof (cases "todo s")
    case Nil
    have "\<exists>w p f. pipeclose True (pp s) = Inr (f, w, p)" using ok by (auto simp: pipeclose_def pipe_acquire_def sys_ok_def)
    then show ?thesis using j Nil pipe_step.close [of s j] by blast
  next
    case (Cons c cs)
    obtain k p where "pipewrite_at j False (\<lambda>j. c ! j) (int (length c)) (pp s) = Inr (Sleep NWrite k, [NRead], p) \<or>
      pipewrite_at j False (\<lambda>j. c ! j) (int (length c)) (pp s) = Inr (Return (int (length c)), [NRead], p)"
      using sys_write [OF ok j Cons refl] by (auto split: if_splits)
    then show ?thesis using pipe_step.write_sleeps [OF j Cons] pipe_step.write_returns [OF j Cons] by blast
  qed
next
  case Done
  then show ?thesis using f by simp
qed

lemma psteps_ok: "(pipe_step m ^^ k) s t \<Longrightarrow> 0 < m \<Longrightarrow> sys_ok xs s \<Longrightarrow> sys_ok xs t \<and> work t + k \<le> work s"
proof (induction k arbitrary: t)
  case (Suc k)
  then obtain u where "(pipe_step m ^^ k) s u" "pipe_step m u t" by auto
  then show ?case using Suc.IH [of u] Suc.prems pstep_ok [of m u t xs] by simp
qed simp

section \<open>Properties\<close>

text \<open>C35:
  a pipe is a queue of at most 512 bytes, whatever the counters, which may have wrapped around: a write appends
  bytes of the caller as long as there is room, and returns when all are in, fails when the pipe is full and cannot be drained, and
  sleeps otherwise, having woken the readers; a read of an empty pipe sleeps while there is a writer and returns 0 bytes after
  it has gone, and otherwise takes the oldest bytes off.
\<close>

theorem pipe_is_queue:
  assumes "pipe_ok p" "\<not> p_lock p" "k = min (nat n) (PIPESIZE - length (pipe_bytes p))"
  shows "(\<exists>p'. pipewrite killed addr n p =
      Inr (if int k < n then if \<not> readopen p \<or> killed then (Return (-1), [], p') else (Sleep NWrite k, [NRead], p')
           else (Return n, [NRead], p')) \<and>
    pipe_bytes p' = pipe_bytes p @ map addr [0..<k] \<and> length (pipe_bytes p') \<le> 512 \<and> ends p' = ends p \<and> \<not> p_lock p') \<and>
   (\<exists>p'. piperead killed n p =
      Inr (if pipe_bytes p = [] \<and> writeopen p then ([], if killed then Return (-1) else Sleep NRead 0, [], p')
           else (take (nat n) (pipe_bytes p), Return (int (min (nat n) (length (pipe_bytes p)))), [NWrite], p')) \<and>
    pipe_bytes p' = drop (nat n) (pipe_bytes p) \<and> ends p' = ends p \<and> \<not> p_lock p')"
proof
  obtain p' where p': "pipewrite_at 0 killed addr n p = Inr (fst (wrote_to killed n k p), snd (wrote_to killed n k p), p')"
    "pipe_bytes p' = pipe_bytes p @ map addr [0..<k]" "ends p' = ends p" "\<not> p_lock p'" "pipe_ok p'"
    using pipewrite_queue [of p k 0 n killed addr] assms by auto
  have "pipewrite killed addr n p =
      Inr (if int k < n then if \<not> readopen p \<or> killed then (Return (-1), [], p') else (Sleep NWrite k, [NRead], p')
           else (Return n, [NRead], p'))"
    unfolding pipewrite_def p'(1) by (simp add: wrote_to_def)
  moreover have "length (pipe_bytes p') \<le> 512" using p'(5) by (simp add: pipe_ok_def PIPESIZE_def)
  ultimately show "\<exists>p'. pipewrite killed addr n p =
      Inr (if int k < n then if \<not> readopen p \<or> killed then (Return (-1), [], p') else (Sleep NWrite k, [NRead], p')
           else (Return n, [NRead], p')) \<and>
    pipe_bytes p' = pipe_bytes p @ map addr [0..<k] \<and> length (pipe_bytes p') \<le> 512 \<and> ends p' = ends p \<and> \<not> p_lock p'"
    using p'(2-4) by blast
  show "\<exists>p'. piperead killed n p =
      Inr (if pipe_bytes p = [] \<and> writeopen p then ([], if killed then Return (-1) else Sleep NRead 0, [], p')
           else (take (nat n) (pipe_bytes p), Return (int (min (nat n) (length (pipe_bytes p)))), [NWrite], p')) \<and>
    pipe_bytes p' = drop (nat n) (pipe_bytes p) \<and> ends p' = ends p \<and> \<not> p_lock p'"
    using piperead_queue [of p killed n] assms by auto
qed

theorem pipe_is_queue_witness:
  "\<exists>p'. pipewrite False (\<lambda>i. of_nat i) 600 (pipe_init\<lparr>nread := -1, nwrite := 1\<rparr>) = Inr (Sleep NWrite 510, [NRead], p') \<and>
     pipe_bytes p' = [0, 0] @ map (\<lambda>i. of_nat i) [0..<510]"
proof -
  define p where "p = pipe_init\<lparr>nread := -1, nwrite := 1\<rparr>"
  have q: "pipe_bytes p = [0, 0]" by (simp add: p_def pipe_bytes_def ring_def ring_size_def pipe_init_def upt_rec)
  have "pipe_ok p" "\<not> p_lock p" "(510::nat) = min (nat 600) (PIPESIZE - length (pipe_bytes p))" and r: "readopen p"
    by (simp_all add: pipe_ok_def q PIPESIZE_def) (simp_all add: p_def pipe_init_def)
  from pipe_is_queue [OF this(1-3), of False "\<lambda>i. of_nat i"] show ?thesis
    unfolding p_def [symmetric] by (auto simp: q r)
qed

text \<open>C36:
  a writer and a reader of a pipe never wait for each other: however their calls are interleaved, every byte
  arrives, in order. Each run of the two is finite, its states hold what was received as a prefix of what was sent, and
  a run can only end where the reader has received everything and has seen the end.
\<close>

theorem pipe_delivers:
  assumes "0 < m" "(pipe_step m ^^ k) (sys_init cs) s"
  shows "k \<le> 4 * length (concat cs) + 2 * length cs + 4 \<and>
    (\<exists>rest. got s @ pipe_bytes (pp s) @ rest = concat cs) \<and>
    ((\<exists>t. pipe_step m s t) \<or> got s = concat cs \<and> rd s = Done \<and> wr s = Done)"
proof -
  have w: "work (sys_init cs) = 4 * length (concat cs) + 2 * length cs + 4"
    by (simp add: work_def sys_init_def pipe_init_def unsent_def pos_def pipe_bytes_def awake_def)
  have ok: "sys_ok (concat cs) s" and b: "work s + k \<le> work (sys_init cs)"
    using psteps_ok [OF assms(2,1) sys_init_ok] by simp_all
  have g: "got s @ pipe_bytes (pp s) @ unsent s = concat cs" using ok by (simp add: sys_ok_def)
  have "rd s = Done \<Longrightarrow> got s = concat cs \<and> wr s = Done"
    using ok g by (auto simp: sys_ok_def unsent_def)
  then show ?thesis using b w g pstep_progress [OF ok, of m] by auto
qed

theorem pipe_delivers_witness:
  "\<exists>s. (pipe_step 2 ^^ 1) (sys_init [[7, 8, 9]]) s \<and> got s @ pipe_bytes (pp s) = [7, 8, 9] \<and> (\<exists>t. pipe_step 2 s t)"
proof -
  let ?s = "sys_init [[7, 8, 9]]"
  obtain p where p: "pipewrite_at 0 False (\<lambda>j. [7, 8, 9] ! j) (int (length [7, 8, 9 :: u8])) (pp ?s) = Inr (Return 3, [NRead], p)"
      and q: "pipe_bytes p = [7, 8, 9]"
    using sys_write [OF sys_init_ok, of "[[7, 8, 9]]" 0 "[7, 8, 9]" "[]" 3]
    by (auto simp: sys_init_def PIPESIZE_def pipe_init_def pipe_bytes_def upt_rec)
  let ?t = "?s\<lparr>pp := p, todo := [], wr := Run 0, rd := wake NRead [NRead] (rd ?s)\<rparr>"
  have "pipe_step 2 ?s ?t" by (rule pipe_step.write_returns [OF _ _ p]) (simp_all add: sys_init_def)
  then have t: "(pipe_step 2 ^^ 1) ?s ?t" by (simp add: OO_def)
  have "rd ?t \<noteq> Done" "got ?t = []" by (simp_all add: sys_init_def)
  then show ?thesis using pipe_delivers [OF _ t] t q by (intro exI [of _ ?t]) (simp del: relpowp_1)
qed

end
