(* ===== verification/CString.thy ===== *)
theory CString
  imports MemLayout
begin

text \<open>
  Byte-addressed memory and the routines of \<open>string.c\<close>. Memory is a function from 32-bit
  addresses to bytes, words are stored with the least significant byte first, and address
  arithmetic wraps as it does on the machine. The loops over \<open>n\<close> bytes are recursions on \<open>n\<close>;
  \<open>strlen\<close>, which has no bound, is a partial function. Strings are related to lists of bytes
  by \<open>cstr\<close>, regions of memory are \<open>span\<close>s, and writing a list of bytes is \<open>poke\<close>.
\<close>

section \<open>Memory\<close>

type_synonym memory = "u32 \<Rightarrow> u8"

definition load32 :: "memory \<Rightarrow> u32 \<Rightarrow> u32" where
  "load32 m a = ucast (m a) OR push_bit 8 (ucast (m (a + 1))) OR push_bit 16 (ucast (m (a + 2))) OR
     push_bit 24 (ucast (m (a + 3)))"

definition store32 :: "u32 \<Rightarrow> u32 \<Rightarrow> memory \<Rightarrow> memory" where
  "store32 a v m = m(a := ucast v, a + 1 := ucast (drop_bit 8 v), a + 2 := ucast (drop_bit 16 v),
     a + 3 := ucast (drop_bit 24 v))"

lemma load32_store32_same: "load32 (store32 a v m) a = v"
proof -
  have "a + 1 \<noteq> a" "a + 2 \<noteq> a" "a + 3 \<noteq> a" "a + 2 \<noteq> a + 1" "a + 3 \<noteq> a + 1" "a + 3 \<noteq> a + 2" by simp_all
  then show ?thesis unfolding load32_def store32_def by (simp add: word_of_bytes)
qed

lemma store32_other: "x \<notin> {a, a + 1, a + 2, a + 3} \<Longrightarrow> store32 a v m x = m x"
  by (simp add: store32_def)

lemma unat_minus1: "(y :: u32) \<noteq> 0 \<Longrightarrow> unat (y - 1) = unat y - 1"
  by (simp add: unat_minus_one)

primrec stosb :: "nat \<Rightarrow> u8 \<Rightarrow> u32 \<Rightarrow> memory \<Rightarrow> memory" where
  "stosb 0 c d m = m"
| "stosb (Suc n) c d m = stosb n c (d + 1) (m(d := c))"

primrec stosl :: "nat \<Rightarrow> u32 \<Rightarrow> u32 \<Rightarrow> memory \<Rightarrow> memory" where
  "stosl 0 v d m = m"
| "stosl (Suc n) v d m = stosl n v (d + 4) (store32 d v m)"

lemma stosb_apply: "n \<le> 2 ^ 32 \<Longrightarrow> stosb n c d m x = (if unat (x - d) < n then c else m x)"
proof (induction n arbitrary: d m)
  case 0
  then show ?case by simp
next
  case (Suc n)
  have e: "stosb (Suc n) c d m x = (if unat (x - d - 1) < n then c else (m(d := c)) x)"
    using Suc.IH [of "d + 1" "m(d := c)"] Suc.prems by (simp add: diff_diff_eq [symmetric] del: fun_upd_apply)
  show ?case
  proof (cases "x = d")
    case True
    then show ?thesis using e by simp
  next
    case False
    then have "unat (x - d) \<noteq> 0" by (simp add: unat_eq_0)
    then show ?thesis using e False unat_minus1 [of "x - d"] by auto
  qed
qed


lemma stosb_append: "stosb (k + n) c d m = stosb n c (d + of_nat k) (stosb k c d m)"
  by (induction k arbitrary: d m) (simp_all add: ac_simps)

lemma stosb4: "stosb 4 c a m = m(a := c, a + 1 := c, a + 2 := c, a + 3 := c)"
  by (simp add: eval_nat_numeral add.assoc)

lemma stosl_stosb:
  assumes "\<And>a m. store32 a v m = stosb 4 c a m"
  shows "stosl n v d m = stosb (4 * n) c d m"
proof (induction n arbitrary: d m)
  case (Suc n)
  have "stosl (Suc n) v d m = stosb (4 * n) c (d + of_nat 4) (stosb 4 c d m)" using Suc assms by simp
  also have "\<dots> = stosb (4 * Suc n) c d m" by (simp only: stosb_append [symmetric]) simp
  finally show ?case .
qed simp

section \<open>The functions of string.c\<close>

definition memset :: "u32 \<Rightarrow> u32 \<Rightarrow> u32 \<Rightarrow> memory \<Rightarrow> memory" where
  "memset dst c n m =
     (if dst mod 4 = 0 \<and> n mod 4 = 0
      then let b = c AND 0xFF in
           stosl (unat (n div 4)) (push_bit 24 b OR push_bit 16 b OR push_bit 8 b OR b) dst m
      else stosb (unat n) (ucast c) dst m)"

primrec memcmp_loop :: "memory \<Rightarrow> nat \<Rightarrow> u32 \<Rightarrow> u32 \<Rightarrow> int" where
  "memcmp_loop m 0 s1 s2 = 0"
| "memcmp_loop m (Suc n) s1 s2 =
     (if m s1 \<noteq> m s2 then uint (m s1) - uint (m s2) else memcmp_loop m n (s1 + 1) (s2 + 1))"

definition memcmp :: "memory \<Rightarrow> u32 \<Rightarrow> u32 \<Rightarrow> u32 \<Rightarrow> int" where
  "memcmp m v1 v2 n = memcmp_loop m (unat n) v1 v2"

primrec copy_up :: "nat \<Rightarrow> u32 \<Rightarrow> u32 \<Rightarrow> memory \<Rightarrow> memory" where
  "copy_up 0 d s m = m"
| "copy_up (Suc n) d s m = copy_up n (d + 1) (s + 1) (m(d := m s))"

primrec copy_down :: "nat \<Rightarrow> u32 \<Rightarrow> u32 \<Rightarrow> memory \<Rightarrow> memory" where
  "copy_down 0 d s m = m"
| "copy_down (Suc n) d s m = copy_down n (d - 1) (s - 1) (m(d - 1 := m (s - 1)))"

definition memmove :: "u32 \<Rightarrow> u32 \<Rightarrow> u32 \<Rightarrow> memory \<Rightarrow> memory" where
  "memmove d s n m =
     (if s < d \<and> d < s + n then copy_down (unat n) (d + n) (s + n) m else copy_up (unat n) d s m)"

definition memcpy :: "u32 \<Rightarrow> u32 \<Rightarrow> u32 \<Rightarrow> memory \<Rightarrow> memory" where
  "memcpy d s n m = memmove d s n m"

primrec strncmp_loop :: "memory \<Rightarrow> nat \<Rightarrow> u32 \<Rightarrow> u32 \<Rightarrow> int" where
  "strncmp_loop m 0 p q = 0"
| "strncmp_loop m (Suc n) p q =
     (if m p \<noteq> 0 \<and> m p = m q then strncmp_loop m n (p + 1) (q + 1) else uint (m p) - uint (m q))"

definition strncmp :: "memory \<Rightarrow> u32 \<Rightarrow> u32 \<Rightarrow> u32 \<Rightarrow> int" where
  "strncmp m p q n = strncmp_loop m (unat n) p q"

primrec strncpy_loop :: "nat \<Rightarrow> u32 \<Rightarrow> u32 \<Rightarrow> memory \<Rightarrow> memory" where
  "strncpy_loop 0 s t m = m"
| "strncpy_loop (Suc n) s t m =
     (if m t \<noteq> 0 then strncpy_loop n (s + 1) (t + 1) (m(s := m t))
      else stosb n 0 (s + 1) (m(s := 0)))"

definition strncpy :: "u32 \<Rightarrow> u32 \<Rightarrow> int \<Rightarrow> memory \<Rightarrow> memory" where
  "strncpy s t n m = strncpy_loop (nat n) s t m"

primrec safestrcpy_loop :: "nat \<Rightarrow> u32 \<Rightarrow> u32 \<Rightarrow> memory \<Rightarrow> u32 \<times> memory" where
  "safestrcpy_loop 0 s t m = (s, m)"
| "safestrcpy_loop (Suc n) s t m =
     (if m t \<noteq> 0 then safestrcpy_loop n (s + 1) (t + 1) (m(s := m t)) else (s + 1, m(s := 0)))"

definition safestrcpy :: "u32 \<Rightarrow> u32 \<Rightarrow> int \<Rightarrow> memory \<Rightarrow> memory" where
  "safestrcpy s t n m =
     (if n \<le> 0 then m
      else let (e, m1) = safestrcpy_loop (nat (n - 1)) s t m in m1(e := 0))"

partial_function (option) strlen_loop :: "memory \<Rightarrow> u32 \<Rightarrow> nat \<Rightarrow> nat option" where
  "strlen_loop m s n = (if m (s + of_nat n) \<noteq> 0 then strlen_loop m s (Suc n) else Some n)"

definition strlen :: "memory \<Rightarrow> u32 \<Rightarrow> nat res" where
  "strlen m s = of_opt Diverges (strlen_loop m s 0)"

section \<open>Effects\<close>

lemma byte_word:
  fixes c :: u32
  defines "v \<equiv> push_bit 24 (c AND 0xFF) OR push_bit 16 (c AND 0xFF) OR push_bit 8 (c AND 0xFF) OR (c AND 0xFF)"
  shows "(ucast v :: u8) = ucast c" "(ucast (drop_bit 8 v) :: u8) = ucast c"
    "(ucast (drop_bit 16 v) :: u8) = ucast c" "(ucast (drop_bit 24 v) :: u8) = ucast c"
proof -
  have m: "(0xFF :: u32) = mask 8" by (simp add: mask_eq_exp_minus_1)
  show "(ucast v :: u8) = ucast c" "(ucast (drop_bit 8 v) :: u8) = ucast c"
    "(ucast (drop_bit 16 v) :: u8) = ucast c" "(ucast (drop_bit 24 v) :: u8) = ucast c"
    unfolding v_def m by (rule bit_word_eqI, auto simp: bit_simps)+
qed

lemma memset_eq: "memset dst c n m = stosb (unat n) (ucast c) dst m"
proof (cases "dst mod 4 = 0 \<and> n mod 4 = 0")
  case True
  define v where "v = push_bit 24 (c AND 0xFF) OR push_bit 16 (c AND 0xFF) OR push_bit 8 (c AND 0xFF) OR (c AND 0xFF)"
  note b = byte_word [of c, folded v_def]
  have "store32 a v m = stosb 4 (ucast c) a m" for a m
    by (simp only: store32_def b stosb4)
  then have "stosl (unat (n div 4)) v dst m = stosb (4 * unat (n div 4)) (ucast c) dst m"
    by (rule stosl_stosb)
  moreover have "unat (n mod 4) = 0" using True by simp
  then have "4 * unat (n div 4) = unat n" by (auto simp: unat_div unat_mod)
  ultimately show ?thesis using True by (simp add: memset_def Let_def v_def)
next
  case False
  then show ?thesis by (auto simp: memset_def)
qed

lemma unat_le32: "unat (n :: u32) \<le> 2 ^ 32" "unat (n :: u32) < 2 ^ 32"
  using unsigned_less [of n, where ?'a = nat] by simp_all

lemma memset_apply: "memset dst c n m x = (if x - dst < n then ucast c else m x)"
  by (simp add: memset_eq stosb_apply [OF unat_le32(1)] word_less_nat_alt)


lemma unat_Suc_diff: "x \<noteq> d \<Longrightarrow> unat (x - d) = Suc (unat (x - (d + 1)))" for x d :: u32
  using unat_minus1 [of "x - d"] by (simp add: diff_diff_eq unat_eq_0 Suc_diff_1 unat_gt_0)

lemma copy_up_apply:
  assumes "n \<le> 2 ^ 32" and "d = s \<or> n \<le> unat (d - s)"
  shows "copy_up n d s m x = (if unat (x - d) < n then m (s + (x - d)) else m x)"
  using assms
proof (induction n arbitrary: d s m)
  case (Suc n)
  have o: "d + 1 = s + 1 \<or> n \<le> unat (d + 1 - (s + 1))" using Suc.prems(2) by auto
  have e: "copy_up (Suc n) d s m x =
    (if unat (x - (d + 1)) < n then (m(d := m s)) (s + 1 + (x - (d + 1))) else (m(d := m s)) x)"
    using Suc.IH [OF _ o, of "m(d := m s)"] Suc.prems(1) by (simp del: fun_upd_apply)
  show ?case
  proof (cases "x = d")
    case True
    have "unat (- 1 :: u32) = 2 ^ 32 - 1" by (simp add: unsigned_minus_1_eq_mask mask_eq_exp_minus_1)
    then have "\<not> unat (d - (d + 1)) < n" using Suc.prems(1) by simp
    then show ?thesis unfolding e by (simp add: True)
  next
    case False
    have "s + (x - d) \<noteq> d \<or> d = s" if "unat (x - d) < Suc n"
    proof (rule ccontr)
      assume "\<not> ?thesis"
      then have "d = s + (x - d)" "d \<noteq> s" by auto
      then have "d - s = x - d" by (metis add_diff_cancel_left')
      then show False using that Suc.prems(2) \<open>d \<noteq> s\<close> by (metis not_less)
    qed
    then show ?thesis unfolding e using False unat_Suc_diff [OF False]
      by (auto simp: algebra_simps)
  qed
qed simp

lemma copy_down_apply:
  assumes "n \<le> 2 ^ 32" and "d = s \<or> n \<le> unat (s - d)"
  shows "copy_down n (d + of_nat n) (s + of_nat n) m x = (if unat (x - d) < n then m (s + (x - d)) else m x)"
  using assms
proof (induction n arbitrary: m)
  case (Suc n)
  let ?m = "m(d + of_nat n := m (s + of_nat n))"
  have "copy_down (Suc n) (d + of_nat (Suc n)) (s + of_nat (Suc n)) m x = copy_down n (d + of_nat n) (s + of_nat n) ?m x"
    by (simp add: algebra_simps)
  also have "\<dots> = (if unat (x - d) < n then ?m (s + (x - d)) else ?m x)"
    by (rule Suc.IH) (use Suc.prems in auto)
  finally have e: "copy_down (Suc n) (d + of_nat (Suc n)) (s + of_nat (Suc n)) m x =
    (if unat (x - d) < n then ?m (s + (x - d)) else ?m x)" .
  have n: "unat (of_nat n :: u32) = n" using Suc.prems(1) by (simp add: unat_of_nat)
  have x: "x = d + of_nat n \<longleftrightarrow> unat (x - d) = n"
    
  proof
    assume "unat (x - d) = n"
    then have "x - d = of_nat n" by auto
    then show "x = d + of_nat n" by (simp add: diff_eq_eq add.commute)
  qed (use n in simp)
  have "s + (x - d) \<noteq> d + of_nat n \<or> d = s" if "unat (x - d) < n"
  proof (rule ccontr)
    assume "\<not> ?thesis"
    then have "s + (x - d) = d + of_nat n" and ne: "d \<noteq> s" by auto
    then have "s - d = (d + of_nat n) - (x - d) - d" by (metis add_diff_cancel_right')
    then have h: "s - d = of_nat n - (x - d)" by simp
    have "unat (of_nat n - (x - d)) \<le> n" using that n by (metis diff_le_self less_imp_le unat_sub word_le_nat_alt)
    then show False using h ne Suc.prems(2) by (metis Suc_n_not_le_n le_trans)
  qed
  then show ?case unfolding e using x by auto
qed simp

section \<open>Null-terminated strings\<close>

fun cstr :: "memory \<Rightarrow> u32 \<Rightarrow> u8 list \<Rightarrow> bool" where
  "cstr m a [] \<longleftrightarrow> m a = 0"
| "cstr m a (x # xs) \<longleftrightarrow> m a = x \<and> x \<noteq> 0 \<and> cstr m (a + 1) xs"

text \<open>The \<open>n\<close> addresses from \<open>a\<close> on, and writing a list of bytes there.\<close>

definition span :: "u32 \<Rightarrow> nat \<Rightarrow> u32 set" where
  "span a n = {x. unat (x - a) < n}"

fun poke :: "u32 \<Rightarrow> u8 list \<Rightarrow> memory \<Rightarrow> memory" where
  "poke a [] m = m"
| "poke a (y # ys) m = poke (a + 1) ys (m(a := y))"

lemma span_0 [simp]: "span a 0 = {}" by (simp add: span_def)

lemma span_Suc: "n < 2 ^ 32 \<Longrightarrow> span a (Suc n) = insert a (span (a + 1) n)"
  by (auto simp: span_def less_Suc_eq_0_disj unat_Suc_diff unat_eq_0) 

lemma span_mono: "k \<le> n \<Longrightarrow> span a k \<subseteq> span a n" by (auto simp: span_def)

lemma span_end: "k < n \<Longrightarrow> n \<le> 2 ^ 32 \<Longrightarrow> a + of_nat k \<in> span a n"
  by (simp add: span_def unat_of_nat)

lemma not_in_span_next: "n < 2 ^ 32 \<Longrightarrow> a \<notin> span (a + 1) n"
  by (simp add: span_def unsigned_minus_1_eq_mask mask_eq_exp_minus_1)

lemma poke_apply: "length ys \<le> 2 ^ 32 \<Longrightarrow> poke a ys m x = (if x \<in> span a (length ys) then ys ! unat (x - a) else m x)"
proof (induction ys arbitrary: a m)
  case (Cons y ys)
  have n: "a \<notin> span (a + 1) (length ys)" using Cons.prems by (intro not_in_span_next) simp
  have i: "poke (a + 1) ys (m(a := y)) x = (if x \<in> span (a + 1) (length ys) then ys ! unat (x - (a + 1)) else (m(a := y)) x)"
    by (rule Cons.IH) (use Cons.prems in simp)
  show ?case
  proof (cases "x = a")
    case True
    then show ?thesis using i n by (simp add: span_def)
  next
    case False
    then show ?thesis using i unat_Suc_diff [OF False] by (simp add: span_def)
  qed
qed simp

lemma poke_outside: "x \<notin> span a n \<Longrightarrow> length ys \<le> n \<Longrightarrow> n \<le> 2 ^ 32 \<Longrightarrow> poke a ys m x = m x"
  using span_mono [of "length ys" n a] by (auto simp: poke_apply)

lemma poke_append: "poke a (xs @ ys) m = poke (a + of_nat (length xs)) ys (poke a xs m)"
  by (induction xs arbitrary: a m) (simp_all add: ac_simps)

lemma stosb_poke: "stosb n c a m = poke a (replicate n c) m"
  by (induction n arbitrary: a m) simp_all

lemma cstr_cong: "length xs < 2 ^ 32 \<Longrightarrow> (\<And>x. x \<in> span a (Suc (length xs)) \<Longrightarrow> m' x = m x) \<Longrightarrow> cstr m' a xs = cstr m a xs"
proof (induction xs arbitrary: a)
  case Nil
  then show ?case by (simp add: span_def)
next
  case (Cons x xs)
  have "cstr m' (a + 1) xs = cstr m (a + 1) xs"
    by (rule Cons.IH) (use Cons.prems span_Suc [of "Suc (length xs)" a] in auto)
  moreover have "m' a = m a" using Cons.prems span_Suc [of "Suc (length xs)" a] by simp
  ultimately show ?case by simp
qed

lemma cstr_poke: "length xs < 2 ^ 32 \<Longrightarrow> 0 \<notin> set xs \<Longrightarrow> cstr (poke a (xs @ 0 # ys) m) a xs" if "length xs + length ys < 2 ^ 32"
  using that
proof (induction xs arbitrary: a m)
  case Nil
  then have "a \<notin> span (a + 1) (length ys)" by (intro not_in_span_next) simp
  then show ?case using Nil by (simp add: poke_apply)
next
  case (Cons x xs)
  have "a \<notin> span (a + 1) (length (xs @ 0 # ys))" using Cons.prems by (intro not_in_span_next) simp
  then have "poke (a + 1) (xs @ 0 # ys) (m(a := x)) a = x" using Cons.prems by (subst poke_apply) auto
  then show ?case using Cons by simp
qed

lemma cstr_nonzero: "cstr m a xs \<Longrightarrow> 0 \<notin> set xs"
  by (induction xs arbitrary: a) auto

lemma strlen_loop_cstr: "cstr m (s + of_nat n) xs \<Longrightarrow> strlen_loop m s n = Some (n + length xs)"
proof (induction xs arbitrary: n)
  case Nil
  then show ?case by (subst strlen_loop.simps) simp
next
  case (Cons x xs)
  have "strlen_loop m s (Suc n) = Some (Suc n + length xs)" by (rule Cons.IH) (use Cons.prems in \<open>simp add: ac_simps\<close>)
  then show ?case using Cons.prems by (subst strlen_loop.simps) auto
qed

lemma strncmp_loop_zero:
  "cstr m p xs \<Longrightarrow> cstr m q ys \<Longrightarrow> strncmp_loop m n p q = 0 \<longleftrightarrow> take n xs = take n ys"
proof (induction n arbitrary: p q xs ys)
  case (Suc n)
  then show ?case by (cases xs; cases ys) (auto simp: word_uint_eq_iff)
qed simp

lemma memcmp_loop_zero: "memcmp_loop m n a b = 0 \<longleftrightarrow> (\<forall>i<n. m (a + of_nat i) = m (b + of_nat i))"
proof (induction n arbitrary: a b)
  case (Suc n)
  have "(\<forall>i<Suc n. m (a + of_nat i) = m (b + of_nat i)) \<longleftrightarrow>
    m a = m b \<and> (\<forall>i<n. m (a + 1 + of_nat i) = m (b + 1 + of_nat i))"
    by (auto simp: less_Suc_eq_0_disj ac_simps all_conj_distrib)
  then show ?case using Suc by (simp add: word_uint_eq_iff)
qed simp

lemma cstr_upd: "cstr m (t + 1) xs \<Longrightarrow> length xs < 2 ^ 32 \<Longrightarrow> s \<notin> span (t + 1) (Suc (length xs)) \<Longrightarrow> cstr (m(s := y)) (t + 1) xs"
  by (subst cstr_cong [of xs "t + 1" "m(s := y)" m]) auto

lemma span_disjoint_step:
  assumes "span s (Suc n) \<inter> span t (Suc (Suc k)) = {}" "n < 2 ^ 32" "Suc k < 2 ^ 32"
  shows "s \<notin> span (t + 1) (Suc k)" "span (s + 1) n \<inter> span (t + 1) (Suc k) = {}"
  using assms(1) unfolding span_Suc [OF assms(2), of s] span_Suc [OF assms(3), of t] by auto

lemma strncpy_loop_eq:
  assumes "cstr m t xs" "n < 2 ^ 32" "length xs < 2 ^ 32" "span s n \<inter> span t (Suc (length xs)) = {}"
  shows "strncpy_loop n s t m = poke s (take n xs @ replicate (n - length xs) 0) m"
  using assms
proof (induction n arbitrary: s t m xs)
  case (Suc n)
  show ?case
  proof (cases xs)
    case Nil
    then show ?thesis using Suc.prems by (simp add: stosb_poke)
  next
    case (Cons x ys)
    note d = span_disjoint_step [of s n t "length ys"]
    have "cstr (m(s := x)) (t + 1) ys" using Suc.prems Cons d by (intro cstr_upd) auto
    from Suc.IH [OF this, of "s + 1"] show ?thesis using Suc.prems Cons d by (simp del: fun_upd_apply)
  qed
qed simp

lemma safestrcpy_loop_eq:
  assumes "cstr m t xs" "n < 2 ^ 32" "length xs < 2 ^ 32" "span s n \<inter> span t (Suc (length xs)) = {}"
  shows "safestrcpy_loop n s t m =
    (s + of_nat (min n (Suc (length xs))), poke s (take n (xs @ [0])) m)"
  using assms
proof (induction n arbitrary: s t m xs)
  case (Suc n)
  show ?case
  proof (cases xs)
    case Nil
    then show ?thesis using Suc.prems by (simp add: fun_upd_def)
  next
    case (Cons x ys)
    note d = span_disjoint_step [of s n t "length ys"]
    have "cstr (m(s := x)) (t + 1) ys" using Suc.prems Cons d by (intro cstr_upd) auto
    from Suc.IH [OF this, of "s + 1"] show ?thesis using Suc.prems Cons d by (simp add: add.assoc del: fun_upd_apply)
  qed
qed simp


section \<open>Properties\<close>

lemma memmove_apply:
  assumes "unat s + unat n < 2 ^ 32" and "unat d + unat n \<le> 2 ^ 32"
  shows "memmove d s n m x = (if x - d < n then m (s + (x - d)) else m x)"
proof -
  have sn: "unat (s + n) = unat s + unat n" using assms(1) by (simp add: unat_plus_if_size word_size)
  have sub: "unat (a - b) = (if unat b \<le> unat a then unat a - unat b else 2 ^ 32 - (unat b - unat a))" for a b :: u32
    using unat_le32 [of a] unat_le32 [of b] by (auto simp: unat_sub_if_size word_size)
  show ?thesis
  proof (cases "s < d \<and> d < s + n")
    case True
    then have "unat n \<le> unat (s - d)" using assms(2) sn by (auto simp: sub word_less_nat_alt)
    from copy_down_apply [OF unat_le32(1), of d s n m x] this True show ?thesis
      by (simp add: memmove_def word_less_nat_alt)
  next
    case False
    then have "d = s \<or> unat n \<le> unat (d - s)"
      using assms(1) sn by (auto simp: sub word_less_nat_alt word_unat_eq_iff)
    from copy_up_apply [OF unat_le32(1) this] False show ?thesis unfolding memmove_def by (simp only: if_False word_less_nat_alt)
  qed
qed

text \<open>
  C21: \<open>memmove\<close> copies the \<open>n\<close> bytes at \<open>s\<close> to \<open>d\<close> and changes nothing else, also when the two
  ranges overlap in either direction, provided neither range wraps around the address space.
\<close>

theorem memmove_correct:
  assumes "unat s + unat n < 2 ^ 32" and "unat d + unat n \<le> 2 ^ 32"
  shows "memmove d s n m x = (if x - d < n then m (s + (x - d)) else m x)"
  by (rule memmove_apply [OF assms])


section \<open>A concrete memory\<close>

definition demo_mem :: memory where
  "demo_mem = poke 100 [65, 66, 67, 0] (\<lambda>_. 0)"

lemma span_disjoint:
  assumes "unat a + n \<le> unat b" "unat b + k \<le> 2 ^ 32"
  shows "span a n \<inter> span b k = {}"
proof -
  have sub: "unat (x - y) = (if unat y \<le> unat x then unat x - unat y else 2 ^ 32 - (unat y - unat x))" for x y :: u32
    using unat_le32 [of x] unat_le32 [of y] by (auto simp: unat_sub_if_size word_size)
  show ?thesis using assms by (auto simp: span_def sub split: if_splits)
qed

lemma demo_mem_str: "cstr demo_mem 100 [65, 66, 67]"
  by (simp add: demo_mem_def)

theorem memmove_correct_witness: "memmove 101 100 3 demo_mem 102 = 66 \<and> memmove 101 100 3 demo_mem 104 = demo_mem 104"
  using memmove_correct [of 100 3 101 demo_mem 102] memmove_correct [of 100 3 101 demo_mem 104]
  by (simp add: demo_mem_def)


end
