(* ===== verification/Kalloc.thy ===== *)
theory Kalloc
  imports CString
begin

text \<open>
  The page allocator of \<open>kalloc.c\<close>. Free pages form a list threaded through their own first
  words; \<open>frees kend s ps\<close> says which pages it holds. The first address after the kernel,
  \<open>end\<close>, comes from the linker and is the argument \<open>kend\<close>. The contract of the allocator is the
  locale \<open>page_allocator\<close>, interpreted by \<open>kalloc\<close> and \<open>kfree\<close>.
\<close>

section \<open>State and operations\<close>

record kmem =
  mem :: memory
  freelist :: u32
  use_lock :: bool
  kmem_lock :: bool

definition kmem_acquire :: "kmem \<Rightarrow> kmem res" where
  "kmem_acquire s = (if use_lock s then bindR (lock_take (kmem_lock s)) (\<lambda>b. Inr (s\<lparr>kmem_lock := b\<rparr>)) else Inr s)"

definition kmem_release :: "kmem \<Rightarrow> kmem res" where
  "kmem_release s = (if use_lock s then bindR (lock_drop (kmem_lock s)) (\<lambda>b. Inr (s\<lparr>kmem_lock := b\<rparr>)) else Inr s)"

definition kfree :: "u32 \<Rightarrow> u32 \<Rightarrow> kmem \<Rightarrow> kmem res" where
  "kfree kend v s =
     (if v mod PGSIZE \<noteq> 0 \<or> v < kend \<or> PHYSTOP \<le> V2P v then Inl (Panic ''kfree'')
      else
        let s1 = s\<lparr>mem := memset v 1 PGSIZE (mem s)\<rparr> in
        bindR (kmem_acquire s1) (\<lambda>s2.
          kmem_release (s2\<lparr>mem := store32 v (freelist s2) (mem s2), freelist := v\<rparr>)))"

definition kalloc :: "kmem \<Rightarrow> (u32 \<times> kmem) res" where
  "kalloc s =
     bindR (kmem_acquire s) (\<lambda>s1.
       let r = freelist s1; s2 = (if r \<noteq> 0 then s1\<lparr>freelist := load32 (mem s1) r\<rparr> else s1) in
       bindR (kmem_release s2) (\<lambda>s3. Inr (r, s3)))"

partial_function (option) freerange_loop :: "u32 \<Rightarrow> u32 \<Rightarrow> u32 \<Rightarrow> kmem \<Rightarrow> kmem res option" where
  "freerange_loop kend p vend s =
     (if p + PGSIZE \<le> vend
      then case kfree kend p s of
             Inl e \<Rightarrow> Some (Inl e)
           | Inr s1 \<Rightarrow> freerange_loop kend (p + PGSIZE) vend s1
      else Some (Inr s))"

definition freerange :: "u32 \<Rightarrow> u32 \<Rightarrow> u32 \<Rightarrow> kmem \<Rightarrow> kmem res" where
  "freerange kend vstart vend s =
     (case freerange_loop kend (PGROUNDUP vstart) vend s of None \<Rightarrow> Inl Diverges | Some r \<Rightarrow> r)"

definition kinit1 :: "u32 \<Rightarrow> u32 \<Rightarrow> u32 \<Rightarrow> kmem \<Rightarrow> kmem res" where
  "kinit1 kend vstart vend s = freerange kend vstart vend (s\<lparr>kmem_lock := False, use_lock := False\<rparr>)"

definition kinit2 :: "u32 \<Rightarrow> u32 \<Rightarrow> u32 \<Rightarrow> kmem \<Rightarrow> kmem res" where
  "kinit2 kend vstart vend s = bindR (freerange kend vstart vend s) (\<lambda>s1. Inr (s1\<lparr>use_lock := True\<rparr>))"

section \<open>Words in pages\<close>

lemma word_bytes: "algn 2 a \<Longrightarrow> rnd 2 (a + 1) = a \<and> rnd 2 (a + 2) = a \<and> rnd 2 (a + 3) = a \<and> rnd 2 a = a"
  using rnd_add [of 2 a 1] rnd_add [of 2 a 2] rnd_add [of 2 a 3] by (simp add: rnd_id)

lemma word_in_page: "algn 2 a \<Longrightarrow> 2 \<le> n \<Longrightarrow> x \<in> {a, a + 1, a + 2, a + 3} \<Longrightarrow> rnd n x = rnd n a"
  using word_bytes [of a] rnd_rnd [of 2 n x] by auto

lemma load32_store32_other:
  assumes "algn 2 a" "algn 2 b" "a \<noteq> b"
  shows "load32 (store32 a v m) b = load32 m b"
proof -
  have "store32 a v m x = m x" if x: "x \<in> {b, b + 1, b + 2, b + 3}" for x
  proof (rule store32_other, rule notI)
    assume "x \<in> {a, a + 1, a + 2, a + 3}"
    then have "rnd 2 x = rnd 2 a" by (rule word_in_page [OF assms(1) order_refl])
    moreover have "rnd 2 x = rnd 2 b" by (rule word_in_page [OF assms(2) order_refl x])
    ultimately show False using assms by (simp add: rnd_id)
  qed
  then show ?thesis by (simp add: load32_def)
qed

lemma load32_store32: "algn 2 a \<Longrightarrow> algn 2 b \<Longrightarrow> load32 (store32 a v m) b = (if a = b then v else load32 m b)"
  by (auto simp: load32_store32_same load32_store32_other)

lemma load32_cong:
  assumes "algn 2 a" and m: "\<And>x. rnd 12 x = rnd 12 a \<Longrightarrow> m' x = m x"
  shows "load32 m' a = load32 m a"
proof -
  have "rnd 12 (a + i) = rnd 12 a" if "i \<in> {1, 2, 3}" for i
    by (rule word_in_page [OF assms(1)]) (use that in auto)
  then have "m' (a + 1) = m (a + 1)" "m' (a + 2) = m (a + 2)" "m' (a + 3) = m (a + 3)" "m' a = m a"
    by (simp_all add: m)
  then show ?thesis by (simp add: load32_def)
qed

lemma store32_page: "algn 2 a \<Longrightarrow> rnd 12 x \<noteq> rnd 12 a \<Longrightarrow> store32 a v m x = m x"
proof (rule store32_other, rule notI)
  assume "algn 2 a" "rnd 12 x \<noteq> rnd 12 a" "x \<in> {a, a + 1, a + 2, a + 3}"
  then show False using word_in_page [of a 12 x] by simp
qed

lemma memset_page: "algn 12 p \<Longrightarrow> memset p c PGSIZE m x = (if rnd 12 x = p then ucast c else m x)"
  by (simp add: memset_apply rnd_iff PGSIZE_def)

section \<open>The list of free pages\<close>

definition page_ok :: "u32 \<Rightarrow> u32 \<Rightarrow> bool" where
  "page_ok kend p \<longleftrightarrow> p mod PGSIZE = 0 \<and> kend \<le> p \<and> V2P p < PHYSTOP"

definition ptr :: "u32 \<Rightarrow> u32 option" where "ptr a = (if a = 0 then None else Some a)"

definition frees :: "u32 \<Rightarrow> kmem \<Rightarrow> u32 list \<Rightarrow> bool" where
  "frees kend s ps \<longleftrightarrow> chain (\<lambda>p. ptr (load32 (mem s) p)) (ptr (freelist s)) ps \<and> distinct ps \<and>
     (\<forall>p\<in>set ps. page_ok kend p) \<and> \<not> kmem_lock s"

lemma page_okD:
  assumes "page_ok kend p" shows "algn 12 p" "p \<noteq> 0" "rnd 12 p = p" "algn 2 p"
proof -
  show a: "algn 12 p" using assms by (simp add: page_ok_def algn_mod PGSIZE_def)
  show "p \<noteq> 0" using assms by (auto simp: page_ok_def V2P_def KERNBASE_def PHYSTOP_def)
  show "rnd 12 p = p" using a by (rule rnd_id)
  show "algn 2 p" using a by (rule algn_le) simp
qed

lemma kmem_lock_ops:
  "\<not> kmem_lock s \<Longrightarrow> kmem_acquire s = Inr (s\<lparr>kmem_lock := use_lock s\<rparr>)"
  "kmem_lock s = use_lock s \<Longrightarrow> kmem_release s = Inr (s\<lparr>kmem_lock := False\<rparr>)"
  by (cases s; simp add: kmem_acquire_def kmem_release_def)+

lemma frees_cong:
  assumes "frees kend s ps" "freelist t = freelist s" "\<not> kmem_lock t"
    and "\<And>x. rnd 12 x \<in> set ps \<Longrightarrow> mem t x = mem s x"
  shows "frees kend t ps"
proof -
  have "ptr (load32 (mem t) p) = ptr (load32 (mem s) p)" if "p \<in> set ps" for p
    using assms(1,4) that page_okD [of kend p] load32_cong [of p "mem t" "mem s"] by (simp add: frees_def)
  then have "chain (\<lambda>p. ptr (load32 (mem t) p)) q ps = chain (\<lambda>p. ptr (load32 (mem s) p)) q ps" for q
    by (intro chain_cong) simp
  then show ?thesis using assms(1-3) by (simp add: frees_def)
qed

lemma kalloc_none: "frees kend s [] \<Longrightarrow> kalloc s = Inr (0, s)"
  by (cases s) (auto simp: kalloc_def frees_def kmem_lock_ops ptr_def split: if_splits)

lemma kalloc_some:
  assumes "frees kend s (p # ps)"
  shows "kalloc s = Inr (p, s\<lparr>freelist := load32 (mem s) p\<rparr>) \<and> frees kend (s\<lparr>freelist := load32 (mem s) p\<rparr>) ps"
  using assms by (cases s) (auto simp: kalloc_def frees_def kmem_lock_ops ptr_def split: if_splits)

lemma kfree_bad: "\<not> page_ok kend v \<Longrightarrow> kfree kend v s = Inl (Panic ''kfree'')"
  by (auto simp: kfree_def page_ok_def not_le)

lemma kfree_ok:
  assumes "frees kend s ps" "page_ok kend v" "v \<notin> set ps"
  shows "\<exists>t. kfree kend v s = Inr t \<and> frees kend t (v # ps) \<and> (\<forall>x. rnd 12 x \<noteq> v \<longrightarrow> mem t x = mem s x) \<and>
    use_lock t = use_lock s"
proof -
  note v = page_okD [OF assms(2)]
  define t where "t = s\<lparr>mem := store32 v (freelist s) (memset v 1 PGSIZE (mem s)), freelist := v\<rparr>"
  have l: "\<not> kmem_lock s" using assms(1) by (simp add: frees_def)
  have "kfree kend v s = Inr t"
    using assms(2) l by (cases s) (simp add: kfree_def page_ok_def not_less not_le kmem_lock_ops t_def)
  moreover have m: "mem t x = mem s x" if "rnd 12 x \<noteq> v" for x
    using that v by (simp add: t_def store32_page memset_page)
  moreover have "frees kend t (v # ps)"
  proof -
    have "frees kend (t\<lparr>freelist := freelist s\<rparr>) ps"
    proof (rule frees_cong [OF assms(1)])
      fix x assume "rnd 12 x \<in> set ps"
      then have "rnd 12 x \<noteq> v" using assms(3) by auto
      then show "mem (t\<lparr>freelist := freelist s\<rparr>) x = mem s x" using m by simp
    qed (use l in \<open>simp_all add: t_def\<close>)
    moreover have "load32 (mem t) v = freelist s" by (simp add: t_def load32_store32_same)
    moreover have "ptr v = Some v" "freelist t = v" using v by (simp_all add: ptr_def t_def)
    ultimately show ?thesis using assms(2,3) by (simp add: frees_def)
  qed
  ultimately show ?thesis by (auto simp: t_def)
qed


section \<open>The interface of the allocator\<close>

text \<open>
  What the clients of the allocator rely on: \<open>pages s ps\<close> says that the free pages are \<open>ps\<close>,
  \<open>usable p\<close> that \<open>p\<close> is the address of a page that may be allocated.
\<close>

locale page_allocator =
  fixes alloc :: "'s \<Rightarrow> (u32 \<times> 's) res" and free :: "u32 \<Rightarrow> 's \<Rightarrow> 's res"
    and pages :: "'s \<Rightarrow> u32 list \<Rightarrow> bool" and usable :: "u32 \<Rightarrow> bool" and byte :: "'s \<Rightarrow> u32 \<Rightarrow> u8"
  assumes pages_usable: "pages s ps \<Longrightarrow> distinct ps \<and> (\<forall>p\<in>set ps. usable p \<and> p \<noteq> 0)"
    and alloc_empty: "pages s [] \<Longrightarrow> alloc s = Inr (0, s)"
    and alloc_first: "pages s (p # ps) \<Longrightarrow> \<exists>t. alloc s = Inr (p, t) \<and> pages t ps \<and> byte t = byte s"
    and free_page: "pages s ps \<Longrightarrow> usable p \<Longrightarrow> p \<notin> set ps \<Longrightarrow>
      \<exists>t. free p s = Inr t \<and> pages t (p # ps) \<and> (\<forall>x. rnd 12 x \<noteq> p \<longrightarrow> byte t x = byte s x)"
    and free_unusable: "\<not> usable p \<Longrightarrow> free p s = Inl (Panic ''kfree'')"
begin

lemma alloc_cases:
  assumes "pages s ps"
  obtains "ps = []" "alloc s = Inr (0, s)"
  | p qs t where "ps = p # qs" "p \<noteq> 0" "usable p" "p \<notin> set qs" "alloc s = Inr (p, t)" "pages t qs" "byte t = byte s"
proof (cases ps)
  case Nil
  then show ?thesis using that(1) alloc_empty assms by simp
next
  case (Cons p qs)
  then obtain t where "alloc s = Inr (p, t)" "pages t qs" "byte t = byte s" using alloc_first assms by blast
  then show ?thesis using that(2) [OF Cons] pages_usable [OF assms] Cons by simp
qed

lemma alloc_free:
  assumes "pages s ps" "alloc s = Inr (p, t)" "p \<noteq> 0"
  shows "\<exists>u. free p t = Inr u \<and> pages u ps"
  using alloc_cases [OF assms(1)]
proof cases
  case (2 q qs u)
  then show ?thesis using free_page [of t qs p] assms(2) by auto
qed (use assms in auto)

lemma two_allocs:
  assumes "pages s ps" "alloc s = Inr (p, t)" "alloc t = Inr (q, u)" "q \<noteq> 0"
  shows "p \<noteq> 0 \<and> p \<noteq> q"
  using alloc_cases [OF assms(1)]
proof cases
  case 1
  then show ?thesis using assms by (metis Inr_inject prod.inject)
next
  case (2 p' qs t')
  then have "pages t qs" "p = p'" using assms(2) by auto
  from alloc_cases [OF this(1)] show ?thesis
    by cases (use 2 assms(3,4) \<open>p = p'\<close> in auto)
qed

end

interpretation km: page_allocator kalloc "kfree kend" "frees kend" "page_ok kend" mem for kend
proof
  fix s ps assume "frees kend s ps"
  then show "distinct ps \<and> (\<forall>p\<in>set ps. page_ok kend p \<and> p \<noteq> 0)" using page_okD(2) by (auto simp: frees_def)
next
  fix s assume "frees kend s []" then show "kalloc s = Inr (0, s)" by (rule kalloc_none)
next
  fix s p ps assume "frees kend s (p # ps)"
  from kalloc_some [OF this] show "\<exists>t. kalloc s = Inr (p, t) \<and> frees kend t ps \<and> mem t = mem s" by auto
next
  fix s ps p assume "frees kend s ps" "page_ok kend p" "p \<notin> set ps"
  from kfree_ok [OF this] show "\<exists>t. kfree kend p s = Inr t \<and> frees kend t (p # ps) \<and> (\<forall>x. rnd 12 x \<noteq> p \<longrightarrow> mem t x = mem s x)" by blast
next
  fix p s assume "\<not> page_ok kend p" then show "kfree kend p s = Inl (Panic ''kfree'')" by (rule kfree_bad)
qed

section \<open>Initialisation\<close>

fun pages_from :: "u32 \<Rightarrow> nat \<Rightarrow> u32 list" where
  "pages_from p 0 = []"
| "pages_from p (Suc n) = p # pages_from (p + PGSIZE) n"

lemma unat_next_page: "unat p + 4096 < 2 ^ 32 \<Longrightarrow> unat (p + PGSIZE) = unat p + 4096"
  by (simp add: PGSIZE_def unat_word_ariths)

lemma pages_from_bounds:
  "unat p + 4096 * n < 2 ^ 32 \<Longrightarrow> q \<in> set (pages_from p n) \<Longrightarrow> unat p \<le> unat q \<and> unat q < unat p + 4096 * n"
proof (induction n arbitrary: p)
  case (Suc n)
  then have u: "unat (p + PGSIZE) = unat p + 4096" by (intro unat_next_page) simp
  from Suc show ?case using Suc.IH [of "p + PGSIZE"] u by auto
qed simp

lemma algn_next: "algn 12 p \<Longrightarrow> algn 12 (p + PGSIZE)"
  by (rule algn_add) (simp_all add: algn_unat PGSIZE_def)

lemma pages_from_set:
  assumes "algn 12 p" "unat p + 4096 * n < 2 ^ 32"
  shows "set (pages_from p n) = {q. algn 12 q \<and> unat p \<le> unat q \<and> unat q < unat p + 4096 * n}"
  using assms
proof (induction n arbitrary: p)
  case (Suc n)
  have u: "unat (p + PGSIZE) = unat p + 4096" using Suc.prems by (intro unat_next_page) simp
  have i: "set (pages_from (p + PGSIZE) n) =
      {q. algn 12 q \<and> unat (p + PGSIZE) \<le> unat q \<and> unat q < unat (p + PGSIZE) + 4096 * n}"
    using Suc.prems u by (intro Suc.IH algn_next) simp_all
  have "q = p" if "algn 12 q" "unat p \<le> unat q" "unat q < unat p + 4096" for q
  proof -
    have "unat q mod 4096 = 0" "unat p mod 4096 = 0" using that(1) Suc.prems(1) by (simp_all add: algn_unat)
    then obtain k j where "unat q = 4096 * k" "unat p = 4096 * j" by (metis mod_0_imp_dvd dvdE)
    then have "unat q = unat p" using that(2,3) by simp
    then show ?thesis by (simp add: word_unat_eq_iff)
  qed
  then have "q = p \<or> (algn 12 q \<and> unat p + 4096 \<le> unat q \<and> unat q < unat p + 4096 + 4096 * n) \<longleftrightarrow>
      algn 12 q \<and> unat p \<le> unat q \<and> unat q < unat p + 4096 * Suc n" for q
    using Suc.prems(1) by (cases "unat q < unat p + 4096") auto
  then show ?case by (simp add: i u set_eq_iff)
qed simp

lemma freerange_loop_ok:
  assumes "frees kend s ps" "algn 12 p" "kend \<le> p" "unat p + 4096 * n \<le> unat vend" "unat vend < unat p + 4096 * n + 4096"
    "unat vend \<le> 0x8E000000" "0x80000000 \<le> unat p" "set (pages_from p n) \<inter> set ps = {}"
  shows "\<exists>t. freerange_loop kend p vend s = Some (Inr t) \<and> frees kend t (rev (pages_from p n) @ ps) \<and> use_lock t = use_lock s"
  using assms
proof (induction n arbitrary: p s ps)
  case 0
  then have "\<not> p + PGSIZE \<le> vend" by (simp add: word_le_nat_alt unat_next_page)
  then show ?case using 0 by (simp add: freerange_loop.simps)
next
  case (Suc n)
  have u: "unat (p + PGSIZE) = unat p + 4096" using Suc.prems(4,6) by (intro unat_next_page) simp
  have le: "p + PGSIZE \<le> vend" using Suc.prems(4) u by (simp add: word_le_nat_alt)
  have "page_ok kend p"
  proof -
    have "unat (V2P p) = unat p - 0x80000000"
      using Suc.prems(7) by (simp add: V2P_def KERNBASE_def unat_sub_if_size word_size)
    then have "V2P p < PHYSTOP" using Suc.prems(4,6,7) by (simp add: PHYSTOP_def word_less_nat_alt)
    then show ?thesis using Suc.prems(2,3) by (simp add: page_ok_def algn_mod PGSIZE_def)
  qed
  then obtain t where t: "kfree kend p s = Inr t" "frees kend t (p # ps)" "use_lock t = use_lock s"
    using kfree_ok [OF Suc.prems(1), of p] Suc.prems(8) by auto
  have "p \<notin> set (pages_from (p + PGSIZE) n)"
    using pages_from_bounds [of "p + PGSIZE" n p] u Suc.prems(4,6) by auto
  then have "set (pages_from (p + PGSIZE) n) \<inter> set (p # ps) = {}" using Suc.prems(8) by auto
  moreover have "kend \<le> p + PGSIZE" using Suc.prems(3) u by (simp add: word_le_nat_alt)
  ultimately show ?case
    using Suc.IH [OF t(2) algn_next [OF Suc.prems(2)]] Suc.prems(4-7) u le t(1,3)
    by (simp add: freerange_loop.simps)
qed

lemma freerange_ok:
  assumes "frees kend s ps" "kend \<le> vstart" "0x80000000 \<le> unat vstart" "unat vstart \<le> unat vend" "unat vend \<le> 0x8E000000"
    "algn 12 vend" "\<forall>q\<in>set ps. unat q < unat vstart"
  shows "\<exists>t. freerange kend vstart vend s = Inr t \<and> use_lock t = use_lock s \<and>
    (\<exists>qs. frees kend t (qs @ ps) \<and> set qs = {q. algn 12 q \<and> unat vstart \<le> unat q \<and> unat q < unat vend})"
proof -
  define p where "p = PGROUNDUP vstart"
  have p: "unat vstart \<le> unat p" "unat p < unat vstart + 4096" "algn 12 p"
    unfolding p_def using assms(4,5) by (intro PGROUNDUP_unat; simp)+
  obtain k j where kj: "unat vend = 4096 * k" "unat p = 4096 * j"
    using algn12E [OF assms(6)] algn12E [OF p(3)] by metis
  have le: "unat p \<le> unat vend" using kj p(2) assms(4) by simp
  define n where "n = (unat vend - unat p) div 4096"
  have n: "unat p + 4096 * n = unat vend" using kj le by (simp add: n_def)
  have q: "set (pages_from p n) = {q. algn 12 q \<and> unat vstart \<le> unat q \<and> unat q < unat vend}"
  proof -
    have "unat p \<le> unat q" if v: "algn 12 q" "unat vstart \<le> unat q" for q
    proof -
      obtain i where "unat q = 4096 * i" using v(1) by (rule algn12E)
      then show ?thesis using v(2) kj(2) p(2) by simp
    qed
    moreover have "set (pages_from p n) = {q. algn 12 q \<and> unat p \<le> unat q \<and> unat q < unat vend}"
      using pages_from_set [OF p(3), of n] assms(5) by (simp add: n)
    ultimately show ?thesis using p(1) by force
  qed
  have "\<exists>t. freerange_loop kend p vend s = Some (Inr t) \<and> frees kend t (rev (pages_from p n) @ ps) \<and> use_lock t = use_lock s"
  proof (rule freerange_loop_ok [OF assms(1) p(3)])
    show "kend \<le> p" using assms(2) p(1) by (simp add: word_le_nat_alt)
    show "set (pages_from p n) \<inter> set ps = {}" 
      unfolding q disjoint_iff mem_Collect_eq using assms(7) by (meson leD)
    show "unat p + 4096 * n \<le> unat vend" "unat vend < unat p + 4096 * n + 4096" using n by linarith+
    show "unat vend \<le> 0x8E000000" by (rule assms(5))
    show "0x80000000 \<le> unat p" using assms(3) p(1) by linarith
  qed
  then show ?thesis using q by (auto simp: freerange_def p_def intro!: exI [of _ "rev (pages_from p n)"])
qed

section \<open>Properties\<close>

text \<open>
  C19: the page allocator. With free pages \<open>ps\<close>, \<open>kalloc\<close> hands out the first one (or 0 if there
  is none) leaving memory as it is, and freeing that page again restores the list; \<open>kfree\<close> of
  any other page not on the list adds it and changes no other page; \<open>kfree\<close> of an address that
  is not a page between the end of the kernel and the top of memory panics.
\<close>

theorem page_allocator_exact:
  assumes "frees kend s ps"
  shows "(ps = [] \<longrightarrow> kalloc s = Inr (0, s)) \<and>
    (\<forall>p qs. ps = p # qs \<longrightarrow> (\<exists>t. kalloc s = Inr (p, t) \<and> frees kend t qs \<and> mem t = mem s \<and>
       (\<exists>u. kfree kend p t = Inr u \<and> frees kend u ps))) \<and>
    (\<forall>v. page_ok kend v \<longrightarrow> v \<notin> set ps \<longrightarrow>
       (\<exists>t. kfree kend v s = Inr t \<and> frees kend t (v # ps) \<and> (\<forall>x. rnd 12 x \<noteq> v \<longrightarrow> mem t x = mem s x))) \<and>
    (\<forall>v. \<not> page_ok kend v \<longrightarrow> kfree kend v s = Inl (Panic ''kfree''))"
proof (intro conjI allI impI)
  fix p qs assume "ps = p # qs"
  then obtain t where t: "kalloc s = Inr (p, t)" "frees kend t qs" "mem t = mem s"
    using km.alloc_first assms by blast
  moreover have "p \<noteq> 0" using km.pages_usable [OF assms] \<open>ps = p # qs\<close> by simp
  ultimately show "\<exists>t. kalloc s = Inr (p, t) \<and> frees kend t qs \<and> mem t = mem s \<and>
      (\<exists>u. kfree kend p t = Inr u \<and> frees kend u ps)"
    using km.alloc_free [OF assms] by blast
qed (use assms km.alloc_empty km.free_page km.free_unusable in blast)+

text \<open>
  C20: the two initialisation calls of \<open>main\<close> end, and leave every page from the end of the
  kernel to the top of memory on the free list, each exactly once, with the lock in use.
\<close>

theorem kinit_frees_all_pages:
  assumes "0x80000000 \<le> unat kend" and "unat kend \<le> 0x80400000" and "freelist s = 0"
  shows "\<exists>s1 s2 ps. kinit1 kend kend (P2V 0x400000) s = Inr s1 \<and>
    kinit2 kend (P2V 0x400000) (P2V PHYSTOP) s1 = Inr s2 \<and> use_lock s2 \<and>
    frees kend s2 ps \<and> set ps = {p. page_ok kend p}"
proof -
  have v: "unat (P2V 0x400000) = 0x80400000" "unat (P2V PHYSTOP) = 0x8E000000"
    by (simp_all add: P2V_def KERNBASE_def PHYSTOP_def)
  have a: "algn 12 (P2V 0x400000)" "algn 12 (P2V PHYSTOP)" by (simp_all add: algn_unat v)
  have f: "frees kend (s\<lparr>kmem_lock := False, use_lock := False\<rparr>) []" using assms(3) by (simp add: frees_def ptr_def)
  obtain s1 qs where s1: "kinit1 kend kend (P2V 0x400000) s = Inr s1" "frees kend s1 (qs @ [])"
    "set qs = {q. algn 12 q \<and> unat kend \<le> unat q \<and> unat q < 0x80400000}"
    using freerange_ok [OF f, of kend "P2V 0x400000"] assms a v by (auto simp: kinit1_def)
  have le: "kend \<le> P2V 0x400000" using assms(2) v by (simp add: word_le_nat_alt)
  obtain s2 rs where s2: "freerange kend (P2V 0x400000) (P2V PHYSTOP) s1 = Inr s2" "frees kend s2 (rs @ qs @ [])"
    "set rs = {q. algn 12 q \<and> 0x80400000 \<le> unat q \<and> unat q < 0x8E000000}"
    using freerange_ok [OF s1(2) le, of "P2V PHYSTOP"] a v s1(3) by auto
  have pk: "page_ok kend q \<longleftrightarrow> algn 12 q \<and> kend \<le> q \<and> V2P q < PHYSTOP" for q
    by (simp add: page_ok_def algn_mod PGSIZE_def)
  have "page_ok kend q \<longleftrightarrow> algn 12 q \<and> unat kend \<le> unat q \<and> unat q < 0x8E000000" for q
  proof (cases "0x80000000 \<le> unat q")
    case True
    then have "unat (V2P q) = unat q - 0x80000000" by (simp add: V2P_def KERNBASE_def unat_sub_if_size word_size)
    then show ?thesis using True by (auto simp: pk word_le_nat_alt word_less_nat_alt PHYSTOP_def)
  next
    case False
    then show ?thesis using assms(1) by (auto simp: pk word_le_nat_alt)
  qed
  then have "set (rs @ qs) = {p. page_ok kend p}" using s1(3) s2(3) assms(2) by auto
  moreover have "frees kend (s2\<lparr>use_lock := True\<rparr>) (rs @ qs)" using s2(2) by (simp add: frees_def)
  ultimately show ?thesis
    using s1(1) s2(1) by (intro exI [of _ s1] exI [of _ "s2\<lparr>use_lock := True\<rparr>"] exI [of _ "rs @ qs"]) (simp add: kinit2_def)
qed

text \<open>A kernel that ends at \<open>0x80100000\<close>, and its memory before and after the first free page.\<close>

definition demo_kmem :: kmem where
  "demo_kmem = \<lparr>mem = (\<lambda>_. 0), freelist = 0, use_lock = True, kmem_lock = False\<rparr>"

lemma demo_frees: "frees 0x80100000 demo_kmem []" by (simp add: frees_def demo_kmem_def ptr_def)

theorem page_allocator_exact_witness:
  "kalloc demo_kmem = Inr (0, demo_kmem) \<and> (\<exists>t. kfree 0x80100000 0x80101000 demo_kmem = Inr t \<and> frees 0x80100000 t [0x80101000]) \<and>
   kfree 0x80100000 0x80101001 demo_kmem = Inl (Panic ''kfree'')"
proof -
  have "page_ok 0x80100000 0x80101000" "\<not> page_ok 0x80100000 0x80101001"
    by (simp_all add: page_ok_def V2P_def KERNBASE_def PHYSTOP_def PGSIZE_def)
  then show ?thesis using page_allocator_exact [OF demo_frees] by auto
qed

theorem kinit_frees_all_pages_witness:
  "\<exists>s1 s2 ps. kinit1 0x80100000 0x80100000 (P2V 0x400000) demo_kmem = Inr s1 \<and>
    kinit2 0x80100000 (P2V 0x400000) (P2V PHYSTOP) s1 = Inr s2 \<and> use_lock s2 \<and>
    frees 0x80100000 s2 ps \<and> set ps = {p. page_ok 0x80100000 p}"
  using kinit_frees_all_pages [of "0x80100000" demo_kmem] by (simp add: demo_kmem_def)

end
