(* ===== verification/File.thy ===== *)
theory File
  imports FsFile Pipe Kalloc
begin

text \<open>
  Open files (\<open>file.c\<close>, \<open>file.h\<close>) and the creation of pipes (\<open>pipe.c\<close>): the table of open files over the file
  system, the page allocator and the pipes; reading, writing and closing dispatch on the kind of file;
  \<open>filewrite\<close> splits a write into transactions; \<open>make_duplicate\<close> copies a file under a new name.
\<close>

section \<open>State\<close>

definition NFILE :: nat where "NFILE = 100"

datatype ftype = FD_NONE | FD_PIPE | FD_INODE

record file_t =
  f_type :: ftype
  f_ref :: int
  f_readable :: bool
  f_writable :: bool
  f_pipe :: u32
  f_ip :: nat
  f_off :: u32

text \<open>
  The table of open files, the page allocator and the pipes, by the address of the page each is in, are added to the state
  of the file system. \<open>killed\<close> is the flag of the running process; \<open>woken\<close> records the calls of \<open>wakeup\<close> on the
  channels of pipes.
\<close>

record ftstate = fstate +
  ftable_lock :: bool
  files :: "nat \<Rightarrow> file_t"
  km :: kmem
  pipes :: "u32 \<Rightarrow> pipe"
  killed :: bool
  woken :: "(u32 \<times> pchan) list"

definition file_upd :: "nat \<Rightarrow> (file_t \<Rightarrow> file_t) \<Rightarrow> 'a ftstate_scheme \<Rightarrow> 'a ftstate_scheme" where
  "file_upd f g s = s\<lparr>files := (files s)(f := g (files s f))\<rparr>"

definition ftable_acquire :: "'a ftstate_scheme \<Rightarrow> 'a ftstate_scheme res" where
  "ftable_acquire s = bindR (lock_take (ftable_lock s)) (\<lambda>l. Inr (s\<lparr>ftable_lock := l\<rparr>))"

definition ftable_release :: "'a ftstate_scheme \<Rightarrow> 'a ftstate_scheme res" where
  "ftable_release s = bindR (lock_drop (ftable_lock s)) (\<lambda>l. Inr (s\<lparr>ftable_lock := l\<rparr>))"

section \<open>Open files\<close>

definition fileinit :: "'a ftstate_scheme \<Rightarrow> 'a ftstate_scheme" where
  "fileinit s = s\<lparr>ftable_lock := False\<rparr>"

definition filealloc :: "'a ftstate_scheme \<Rightarrow> (nat option \<times> 'a ftstate_scheme) res" where
  "filealloc s =
     bindR (ftable_acquire s) (\<lambda>s1.
     case first_index (\<lambda>f. f_ref (files s1 f) = 0) NFILE of
       Some f \<Rightarrow> bindR (ftable_release (file_upd f (\<lambda>x. x\<lparr>f_ref := 1\<rparr>) s1)) (\<lambda>s2. Inr (Some f, s2))
     | None \<Rightarrow> bindR (ftable_release s1) (\<lambda>s2. Inr (None, s2)))"

definition filedup :: "nat \<Rightarrow> 'a ftstate_scheme \<Rightarrow> (nat \<times> 'a ftstate_scheme) res" where
  "filedup f s =
     bindR (ftable_acquire s) (\<lambda>s1.
     if f_ref (files s1 f) < 1 then Inl (Panic ''filedup'')
     else bindR (ftable_release (file_upd f (\<lambda>x. x\<lparr>f_ref := f_ref x + 1\<rparr>) s1)) (\<lambda>s2. Inr (f, s2)))"

text \<open>A pipe's operations on the pipe in page \<open>a\<close>, with the wake-ups recorded. A call that sleeps does not return in one run.\<close>

definition close_pipe :: "u32 \<Rightarrow> u32 \<Rightarrow> bool \<Rightarrow> 'a ftstate_scheme \<Rightarrow> 'a ftstate_scheme res" where
  "close_pipe kend a writable s =
     bindR (pipeclose writable (pipes s a)) (\<lambda>(free, w, p).
     let s1 = s\<lparr>pipes := (pipes s)(a := p), woken := woken s @ map (Pair a) w\<rparr> in
     if free then bindR (kfree kend a (km s1)) (\<lambda>k. Inr (s1\<lparr>km := k\<rparr>)) else Inr s1)"

definition read_pipe :: "u32 \<Rightarrow> int \<Rightarrow> 'a ftstate_scheme \<Rightarrow> ((int \<times> u8 list) \<times> 'a ftstate_scheme) res" where
  "read_pipe a n s =
     bindR (piperead (killed s) n (pipes s a)) (\<lambda>(bs, r, w, p).
     case r of
       Return v \<Rightarrow> Inr ((v, bs), s\<lparr>pipes := (pipes s)(a := p), woken := woken s @ map (Pair a) w\<rparr>)
     | Sleep _ _ \<Rightarrow> Inl Blocks)"

definition write_pipe :: "u32 \<Rightarrow> (nat \<Rightarrow> u8) \<Rightarrow> int \<Rightarrow> 'a ftstate_scheme \<Rightarrow> (int \<times> 'a ftstate_scheme) res" where
  "write_pipe a addr n s =
     bindR (pipewrite (killed s) addr n (pipes s a)) (\<lambda>(r, w, p).
     case r of
       Return v \<Rightarrow> Inr (v, s\<lparr>pipes := (pipes s)(a := p), woken := woken s @ map (Pair a) w\<rparr>)
     | Sleep _ _ \<Rightarrow> Inl Blocks)"

definition fileclose :: "u32 \<Rightarrow> nat \<Rightarrow> 'a ftstate_scheme \<Rightarrow> 'a ftstate_scheme res" where
  "fileclose kend f s =
     bindR (ftable_acquire s) (\<lambda>s1.
     if f_ref (files s1 f) < 1 then Inl (Panic ''fileclose'')
     else
       let s2 = file_upd f (\<lambda>x. x\<lparr>f_ref := f_ref x - 1\<rparr>) s1 in
       if 0 < f_ref (files s2 f) then ftable_release s2
       else
         let ff = files s2 f in
         bindR (ftable_release (file_upd f (\<lambda>x. x\<lparr>f_ref := 0, f_type := FD_NONE\<rparr>) s2)) (\<lambda>s3.
         if f_type ff = FD_PIPE then close_pipe kend (f_pipe ff) (f_writable ff) s3
         else if f_type ff = FD_INODE
         then bindR (begin_op s3) (\<lambda>s4. bindR (iput (f_ip ff) s4) end_op)
         else Inr s3))"

definition filestat :: "nat \<Rightarrow> 'a ftstate_scheme \<Rightarrow> ((int \<times> stat option) \<times> 'a ftstate_scheme) res" where
  "filestat f s =
     (let x = files s f in
      if f_type x = FD_INODE
      then bindR (ilock (Some (f_ip x)) s) (\<lambda>s1.
           let st = stati (f_ip x) s1 in
           bindR (iunlock (Some (f_ip x)) s1) (\<lambda>s2. Inr ((0, Some st), s2)))
      else Inr ((-1, None), s))"

text \<open>\<open>fileread\<close> gives the bytes it puts to \<open>addr\<close>.\<close>

definition fileread :: "nat \<Rightarrow> int \<Rightarrow> 'a ftstate_scheme \<Rightarrow> ((int \<times> u8 list) \<times> 'a ftstate_scheme) res" where
  "fileread f n s =
     (let x = files s f in
      if \<not> f_readable x then Inr ((-1, []), s)
      else if f_type x = FD_PIPE then read_pipe (f_pipe x) n s
      else if f_type x = FD_INODE
      then bindR (ilock (Some (f_ip x)) s) (\<lambda>s1.
           bindR (readi (f_ip x) (f_off (files s1 f)) (of_int n) s1) (\<lambda>((r, bs), s2).
           let s3 = (if 0 < r then file_upd f (\<lambda>x. x\<lparr>f_off := f_off x + of_int r\<rparr>) s2 else s2) in
           bindR (iunlock (Some (f_ip x)) s3) (\<lambda>s4. Inr ((r, bs), s4))))
      else Inl (Panic ''fileread''))"

definition max_write :: int where
  "max_write = ((MAXOPBLOCKS - 1 - 1 - 2) div 2) * 512"

text \<open>One pass of the loop of \<open>filewrite\<close>: one transaction.\<close>

definition filewrite_pass :: "nat \<Rightarrow> (nat \<Rightarrow> u8) \<Rightarrow> int \<Rightarrow> 'a ftstate_scheme \<Rightarrow> (int \<times> 'a ftstate_scheme) res" where
  "filewrite_pass f src n1 s =
     bindR (begin_op s) (\<lambda>s1.
     bindR (ilock (Some (f_ip (files s1 f))) s1) (\<lambda>s2.
     bindR (writei (f_ip (files s2 f)) src (f_off (files s2 f)) (of_int n1) s2) (\<lambda>(r, s3).
     let s4 = (if 0 < r then file_upd f (\<lambda>x. x\<lparr>f_off := f_off x + of_int r\<rparr>) s3 else s3) in
     bindR (iunlock (Some (f_ip (files s4 f))) s4) (\<lambda>s5. bindR (end_op s5) (\<lambda>s6. Inr (r, s6))))))"

function filewrite_loop :: "nat \<Rightarrow> (nat \<Rightarrow> u8) \<Rightarrow> int \<Rightarrow> nat \<Rightarrow> 'a ftstate_scheme \<Rightarrow> (int \<times> 'a ftstate_scheme) res" where
  "filewrite_loop f addr n i s =
     (if int i < n
      then let n1 = min (n - int i) max_write in
           bindR (filewrite_pass f (\<lambda>k. addr (i + k)) n1 s) (\<lambda>(r, s1).
           if r < 0 then Inr (-1, s1)
           else if r \<noteq> n1 then Inl (Panic ''short filewrite'')
           else filewrite_loop f addr n (i + nat r) s1)
      else Inr (if int i = n then n else -1, s))"
  by pat_completeness auto
termination by (relation "measure (\<lambda>(f, addr, n, i, s). nat (n - int i))") (auto simp: max_write_def MAXOPBLOCKS_def min_def split: if_splits)

declare filewrite_loop.simps [simp del]

definition filewrite :: "nat \<Rightarrow> (nat \<Rightarrow> u8) \<Rightarrow> int \<Rightarrow> 'a ftstate_scheme \<Rightarrow> (int \<times> 'a ftstate_scheme) res" where
  "filewrite f addr n s =
     (let x = files s f in
      if \<not> f_writable x then Inr (-1, s)
      else if f_type x = FD_PIPE then write_pipe (f_pipe x) addr n s
      else if f_type x = FD_INODE then filewrite_loop f addr n 0 s
      else Inl (Panic ''filewrite''))"

section \<open>Creating a pipe\<close>

definition pipealloc_bad :: "u32 \<Rightarrow> u32 \<Rightarrow> nat option \<Rightarrow> nat option \<Rightarrow> 'a ftstate_scheme \<Rightarrow> ((nat \<times> nat) option \<times> 'a ftstate_scheme) res" where
  "pipealloc_bad kend p f0 f1 s =
     bindR (if p \<noteq> 0 then bindR (kfree kend p (km s)) (\<lambda>k. Inr (s\<lparr>km := k\<rparr>)) else Inr s) (\<lambda>s1.
     bindR (case f0 of Some f \<Rightarrow> fileclose kend f s1 | None \<Rightarrow> Inr s1) (\<lambda>s2.
     bindR (case f1 of Some f \<Rightarrow> fileclose kend f s2 | None \<Rightarrow> Inr s2) (\<lambda>s3. Inr (None, s3))))"

definition pipealloc :: "u32 \<Rightarrow> 'a ftstate_scheme \<Rightarrow> ((nat \<times> nat) option \<times> 'a ftstate_scheme) res" where
  "pipealloc kend s =
     bindR (filealloc s) (\<lambda>(f0, s1).
     case f0 of None \<Rightarrow> pipealloc_bad kend 0 None None s1
     | Some rfile \<Rightarrow> bindR (filealloc s1) (\<lambda>(f1, s2).
     case f1 of None \<Rightarrow> pipealloc_bad kend 0 f0 None s2
     | Some wfile \<Rightarrow> bindR (kalloc (km s2)) (\<lambda>(p, k).
     let s3 = s2\<lparr>km := k\<rparr> in
     if p = 0 then pipealloc_bad kend 0 f0 f1 s3
     else
       let s4 = s3\<lparr>pipes := (pipes s3)(p := pipe_init\<lparr>p_data := p_data (pipes s3 p)\<rparr>)\<rparr>;
           s5 = file_upd rfile (\<lambda>x. x\<lparr>f_type := FD_PIPE, f_readable := True, f_writable := False, f_pipe := p\<rparr>) s4;
           s6 = file_upd wfile (\<lambda>x. x\<lparr>f_type := FD_PIPE, f_readable := False, f_writable := True, f_pipe := p\<rparr>) s5
       in Inr (Some (rfile, wfile), s6))))"

section \<open>Duplicating a file\<close>

definition copy_suffix :: "u8 list" where "copy_suffix = [95, 99, 111, 112, 121]"

text \<open>One pass of the copying loop: a result to return, or nothing and the number of bytes copied.\<close>

definition duplicate_pass :: "nat \<Rightarrow> nat \<Rightarrow> u32 \<Rightarrow> u32 \<Rightarrow> 'a ftstate_scheme \<Rightarrow> ((int + int) \<times> 'a ftstate_scheme) res" where
  "duplicate_pass sip dip off doff s =
     (let sz = i_size (inodes s sip) - off; n1 = (if 512 < sz then 512 else sz) in
      bindR (readi sip off n1 s) (\<lambda>((r, buf), s1).
      if r \<le> 0 then bindR (iunlockput sip s1) (\<lambda>s2. bindR (iput dip s2) (\<lambda>s3. Inr (Inl 1, s3)))
      else
        bindR (begin_op s1) (\<lambda>s2.
        bindR (ilock (Some dip) s2) (\<lambda>s3.
        bindR (writei dip (\<lambda>i. buf ! i) doff (of_int r) s3) (\<lambda>(w, s4).
        bindR (iunlock (Some dip) s4) (\<lambda>s5.
        bindR (end_op s5) (\<lambda>s6.
        if w \<noteq> r then bindR (iunlockput sip s6) (\<lambda>s7. bindR (iput dip s7) (\<lambda>s8. Inr (Inl 1, s8)))
        else Inr (Inr r, s6))))))))"

partial_function (option) duplicate_loop :: "nat \<Rightarrow> nat \<Rightarrow> u32 \<Rightarrow> u32 \<Rightarrow> 'a ftstate_scheme \<Rightarrow> (int \<times> 'a ftstate_scheme) res option" where
  "duplicate_loop sip dip off doff s =
     (if off < i_size (inodes s sip)
      then case duplicate_pass sip dip off doff s of
             Inl e \<Rightarrow> Some (Inl e)
           | Inr (Inl v, s1) \<Rightarrow> Some (Inr (v, s1))
           | Inr (Inr r, s1) \<Rightarrow> duplicate_loop sip dip (off + of_int r) (doff + of_int r) s1
      else Some (bindR (iunlockput sip s) (\<lambda>s1. bindR (iput dip s1) (\<lambda>s2. Inr (0, s2)))))"

definition give_up :: "nat \<Rightarrow> int \<Rightarrow> 'a ftstate_scheme \<Rightarrow> (int \<times> 'a ftstate_scheme) res" where
  "give_up sip v s = bindR (iunlockput sip s) (\<lambda>s1. bindR (end_op s1) (\<lambda>s2. Inr (v, s2)))"

text \<open>\<open>ialloc\<close> panics where there is no inode and never returns 0.\<close>

definition make_duplicate :: "u8 list option \<Rightarrow> 'a ftstate_scheme \<Rightarrow> (int \<times> 'a ftstate_scheme) res" where
  "make_duplicate src s =
     (case src of None \<Rightarrow> Inr (1, s)
      | Some src \<Rightarrow>
        if 128 \<le> length src + length copy_suffix then Inr (1, s)
        else let dst = src @ copy_suffix in
        bindR (begin_op s) (\<lambda>s1.
        bindR (namei src s1) (\<lambda>(sip, s2).
        case sip of None \<Rightarrow> bindR (end_op s2) (\<lambda>s3. Inr (-1, s3))
        | Some sip \<Rightarrow> bindR (ilock (Some sip) s2) (\<lambda>s3.
          if i_type (inodes s3 sip) \<noteq> T_FILE then give_up sip 1 s3
          else bindR (nameiparent dst s3) (\<lambda>((dp, name), s4).
          case dp of None \<Rightarrow> give_up sip 1 s4
          | Some dp \<Rightarrow> bindR (ilock (Some dp) s4) (\<lambda>s5.
            bindR (dirlookup dp name s5) (\<lambda>(tmp, s6).
            case tmp of Some (t, _) \<Rightarrow>
              bindR (iunlockput dp s6) (\<lambda>s7. bindR (iput t s7) (\<lambda>s8. give_up sip 1 s8))
            | None \<Rightarrow>
              bindR (ialloc (i_dev (inodes s6 dp)) T_FILE s6) (\<lambda>(dip, s7).
              bindR (ilock (Some dip) s7) (\<lambda>s8.
              bindR (iupdate dip (inode_upd dip (\<lambda>x. x\<lparr>i_major := 0, i_minor := 0, i_nlink := 1\<rparr>) s8)) (\<lambda>s9.
              bindR (dirlink dp name (i_inum (inodes s9 dip)) s9) (\<lambda>(r, s10).
              if r < 0 then Inl (Panic ''make_duplicate: dirlink'')
              else bindR (iunlockput dp s10) (\<lambda>s11.
                bindR (iunlock (Some dip) s11) (\<lambda>s12.
                bindR (end_op s12) (\<lambda>s13. loop_res (duplicate_loop sip dip 0 0 s13)))))))))))))))"

end
