(* ===== verification/Vm.thy ===== *)
theory Vm
  imports Kalloc
begin

text \<open>
  Page tables (src/xv6-public/vm.c): the operations from \<open>walkpgdir\<close> to \<open>copyout\<close>, on the byte-level memory of
  \<open>Kalloc\<close>, translated statement by statement. A page directory is read through \<open>pmap\<close>, its second-level
  view; \<open>foot\<close> is the set of pages a directory and its tables occupy and \<open>pt_wf\<close> says that they are
  distinct pages off the free list. The theory shows what \<open>walkpgdir\<close>, \<open>mappages\<close>, \<open>deallocuvm\<close> and \<open>freevm\<close>
  do to that view and to the free list, and that their loops end.
\<close>

section \<open>Operations\<close>

definition walkpgdir :: "u32 \<Rightarrow> u32 \<Rightarrow> bool \<Rightarrow> kmem \<Rightarrow> (u32 \<times> kmem) res" where
  "walkpgdir pgdir va alloc s =
     (let pde = pgdir + 4 * PDX va; e = load32 (mem s) pde in
      if e AND PTE_P \<noteq> 0 then Inr (P2V (PTE_ADDR e) + 4 * PTX va, s)
      else if \<not> alloc then Inr (0, s)
      else bindR (kalloc s) (\<lambda>(pgtab, s1).
        if pgtab = 0 then Inr (0, s1)
        else
          let s2 = s1\<lparr>mem := memset pgtab 0 PGSIZE (mem s1)\<rparr>;
              s3 = s2\<lparr>mem := store32 pde (V2P pgtab OR PTE_P OR PTE_W OR PTE_U) (mem s2)\<rparr>
          in Inr (pgtab + 4 * PTX va, s3)))"

partial_function (option) mappages_loop ::
  "u32 \<Rightarrow> u32 \<Rightarrow> u32 \<Rightarrow> u32 \<Rightarrow> u32 \<Rightarrow> kmem \<Rightarrow> (int \<times> kmem) res option" where
  "mappages_loop pgdir a la pa perm s =
     (case walkpgdir pgdir a True s of
        Inl e \<Rightarrow> Some (Inl e)
      | Inr (pte, s1) \<Rightarrow>
          if pte = 0 then Some (Inr (-1, s1))
          else if load32 (mem s1) pte AND PTE_P \<noteq> 0 then Some (Inl (Panic ''remap''))
          else
            let s2 = s1\<lparr>mem := store32 pte (pa OR perm OR PTE_P) (mem s1)\<rparr> in
            if a = la then Some (Inr (0, s2))
            else mappages_loop pgdir (a + PGSIZE) la (pa + PGSIZE) perm s2)"

definition mappages :: "u32 \<Rightarrow> u32 \<Rightarrow> u32 \<Rightarrow> u32 \<Rightarrow> u32 \<Rightarrow> kmem \<Rightarrow> (int \<times> kmem) res" where
  "mappages pgdir va sz pa perm s =
     loop_res (mappages_loop pgdir (PGROUNDDOWN va) (PGROUNDDOWN (va + sz - 1)) pa perm s)"

partial_function (option) deallocuvm_loop :: "u32 \<Rightarrow> u32 \<Rightarrow> u32 \<Rightarrow> u32 \<Rightarrow> kmem \<Rightarrow> kmem res option" where
  "deallocuvm_loop kend pgdir a oldsz s =
     (if a < oldsz
      then case walkpgdir pgdir a False s of
             Inl e \<Rightarrow> Some (Inl e)
           | Inr (pte, s1) \<Rightarrow>
               if pte = 0
               then deallocuvm_loop kend pgdir (PGADDR (PDX a + 1) 0 0 - PGSIZE + PGSIZE) oldsz s1
               else
                 let e = load32 (mem s1) pte in
                 if e AND PTE_P \<noteq> 0
                 then if PTE_ADDR e = 0 then Some (Inl (Panic ''kfree''))
                      else case kfree kend (P2V (PTE_ADDR e)) s1 of
                             Inl e \<Rightarrow> Some (Inl e)
                           | Inr s2 \<Rightarrow> deallocuvm_loop kend pgdir (a + PGSIZE) oldsz
                                        (s2\<lparr>mem := store32 pte 0 (mem s2)\<rparr>)
                 else deallocuvm_loop kend pgdir (a + PGSIZE) oldsz s1
      else Some (Inr s))"

definition deallocuvm :: "u32 \<Rightarrow> u32 \<Rightarrow> u32 \<Rightarrow> u32 \<Rightarrow> kmem \<Rightarrow> (u32 \<times> kmem) res" where
  "deallocuvm kend pgdir oldsz newsz s =
     (if oldsz \<le> newsz then Inr (oldsz, s)
      else bindR (loop_res (deallocuvm_loop kend pgdir (PGROUNDUP newsz) oldsz s)) (\<lambda>s1. Inr (newsz, s1)))"

definition freevm_entry :: "u32 \<Rightarrow> u32 \<Rightarrow> nat \<Rightarrow> kmem \<Rightarrow> kmem res" where
  "freevm_entry kend pgdir i s =
     (let e = load32 (mem s) (pgdir + 4 * of_nat i) in
      if e AND PTE_P \<noteq> 0 then kfree kend (P2V (PTE_ADDR e)) s else Inr s)"

definition freevm :: "u32 \<Rightarrow> u32 \<Rightarrow> kmem \<Rightarrow> kmem res" where
  "freevm kend pgdir s =
     (if pgdir = 0 then Inl (Panic ''freevm: no pgdir'')
      else bindR (deallocuvm kend pgdir KERNBASE 0 s) (\<lambda>(_, s1).
           bindR (foldR (freevm_entry kend pgdir) [0..<NPDENTRIES] s1) (kfree kend pgdir)))"

definition kmap :: "u32 \<Rightarrow> (u32 \<times> u32 \<times> u32 \<times> u32) list" where
  "kmap kdata =
     [(KERNBASE, 0, EXTMEM, PTE_W),
      (KERNLINK, V2P KERNLINK, V2P kdata, 0),
      (kdata, V2P kdata, PHYSTOP, PTE_W),
      (DEVSPACE, DEVSPACE, 0, PTE_W)]"

fun setupkvm_loop :: "u32 \<Rightarrow> u32 \<Rightarrow> (u32 \<times> u32 \<times> u32 \<times> u32) list \<Rightarrow> kmem \<Rightarrow> (u32 \<times> kmem) res" where
  "setupkvm_loop kend pgdir [] s = Inr (pgdir, s)"
| "setupkvm_loop kend pgdir ((virt, phys_start, phys_end, perm) # ks) s =
     bindR (mappages pgdir virt (phys_end - phys_start) phys_start perm s) (\<lambda>(r, s1).
       if r < 0 then bindR (freevm kend pgdir s1) (\<lambda>s2. Inr (0, s2))
       else setupkvm_loop kend pgdir ks s1)"

definition setupkvm :: "u32 \<Rightarrow> u32 \<Rightarrow> kmem \<Rightarrow> (u32 \<times> kmem) res" where
  "setupkvm kend kdata s =
     bindR (kalloc s) (\<lambda>(pgdir, s1).
       if pgdir = 0 then Inr (0, s1)
       else
         let s2 = s1\<lparr>mem := memset pgdir 0 PGSIZE (mem s1)\<rparr> in
         if DEVSPACE < P2V PHYSTOP then Inl (Panic ''PHYSTOP too high'')
         else setupkvm_loop kend pgdir (kmap kdata) s2)"

definition inituvm :: "u32 \<Rightarrow> u32 \<Rightarrow> u32 \<Rightarrow> kmem \<Rightarrow> kmem res" where
  "inituvm pgdir init sz s =
     (if PGSIZE \<le> sz then Inl (Panic ''inituvm: more than a page'')
      else bindR (kalloc s) (\<lambda>(p, s1).
        if p = 0 then Inl NullDeref
        else
          let s2 = s1\<lparr>mem := memset p 0 PGSIZE (mem s1)\<rparr> in
          bindR (mappages pgdir 0 PGSIZE (V2P p) (PTE_W OR PTE_U) s2) (\<lambda>(_, s3).
            Inr (s3\<lparr>mem := memmove p init sz (mem s3)\<rparr>))))"

partial_function (option) allocuvm_loop ::
  "u32 \<Rightarrow> u32 \<Rightarrow> u32 \<Rightarrow> u32 \<Rightarrow> u32 \<Rightarrow> kmem \<Rightarrow> (u32 \<times> kmem) res option" where
  "allocuvm_loop kend pgdir a oldsz newsz s =
     (if a < newsz
      then case kalloc s of
             Inl e \<Rightarrow> Some (Inl e)
           | Inr (p, s1) \<Rightarrow>
               if p = 0
               then Some (bindR (deallocuvm kend pgdir newsz oldsz s1) (\<lambda>(_, s2). Inr (0, s2)))
               else
                 case mappages pgdir a PGSIZE (V2P p) (PTE_W OR PTE_U) (s1\<lparr>mem := memset p 0 PGSIZE (mem s1)\<rparr>) of
                   Inl e \<Rightarrow> Some (Inl e)
                 | Inr (r, s2) \<Rightarrow>
                     if r < 0
                     then Some (bindR (deallocuvm kend pgdir newsz oldsz s2) (\<lambda>(_, s3).
                                bindR (kfree kend p s3) (\<lambda>s4. Inr (0, s4))))
                     else allocuvm_loop kend pgdir (a + PGSIZE) oldsz newsz s2
      else Some (Inr (newsz, s)))"

definition allocuvm :: "u32 \<Rightarrow> u32 \<Rightarrow> u32 \<Rightarrow> u32 \<Rightarrow> kmem \<Rightarrow> (u32 \<times> kmem) res" where
  "allocuvm kend pgdir oldsz newsz s =
     (if KERNBASE \<le> newsz then Inr (0, s)
      else if newsz < oldsz then Inr (oldsz, s)
      else loop_res (allocuvm_loop kend pgdir (PGROUNDUP oldsz) oldsz newsz s))"

definition clearpteu :: "u32 \<Rightarrow> u32 \<Rightarrow> kmem \<Rightarrow> kmem res" where
  "clearpteu pgdir uva s =
     bindR (walkpgdir pgdir uva False s) (\<lambda>(pte, s1).
       if pte = 0 then Inl (Panic ''clearpteu'')
       else Inr (s1\<lparr>mem := store32 pte (load32 (mem s1) pte AND NOT PTE_U) (mem s1)\<rparr>))"

partial_function (option) copyuvm_loop ::
  "u32 \<Rightarrow> u32 \<Rightarrow> u32 \<Rightarrow> u32 \<Rightarrow> u32 \<Rightarrow> kmem \<Rightarrow> (u32 \<times> kmem) res option" where
  "copyuvm_loop kend pgdir d i sz s =
     (if i < sz
      then case walkpgdir pgdir i False s of
             Inl e \<Rightarrow> Some (Inl e)
           | Inr (pte, s1) \<Rightarrow>
               if pte = 0 then Some (Inl (Panic ''copyuvm: pte should exist''))
               else
                 let e = load32 (mem s1) pte in
                 if e AND PTE_P = 0 then Some (Inl (Panic ''copyuvm: page not present''))
                 else
                   case kalloc s1 of
                     Inl e \<Rightarrow> Some (Inl e)
                   | Inr (p, s2) \<Rightarrow>
                       if p = 0 then Some (bindR (freevm kend d s2) (\<lambda>s3. Inr (0, s3)))
                       else
                         let s3 = s2\<lparr>mem := memmove p (P2V (PTE_ADDR e)) PGSIZE (mem s2)\<rparr> in
                         case mappages d i PGSIZE (V2P p) (PTE_FLAGS e) s3 of
                           Inl e \<Rightarrow> Some (Inl e)
                         | Inr (r, s4) \<Rightarrow>
                             if r < 0
                             then Some (bindR (kfree kend p s4) (\<lambda>s5.
                                        bindR (freevm kend d s5) (\<lambda>s6. Inr (0, s6))))
                             else copyuvm_loop kend pgdir d (i + PGSIZE) sz s4
      else Some (Inr (d, s)))"

definition copyuvm :: "u32 \<Rightarrow> u32 \<Rightarrow> u32 \<Rightarrow> u32 \<Rightarrow> kmem \<Rightarrow> (u32 \<times> kmem) res" where
  "copyuvm kend kdata pgdir sz s =
     bindR (setupkvm kend kdata s) (\<lambda>(d, s1).
       if d = 0 then Inr (0, s1) else loop_res (copyuvm_loop kend pgdir d 0 sz s1))"

definition uva2ka :: "u32 \<Rightarrow> u32 \<Rightarrow> kmem \<Rightarrow> u32 res" where
  "uva2ka pgdir uva s =
     bindR (walkpgdir pgdir uva False s) (\<lambda>(pte, s1).
       if pte = 0 then Inl NullDeref
       else
         let e = load32 (mem s1) pte in
         if e AND PTE_P = 0 then Inr 0
         else if e AND PTE_U = 0 then Inr 0
         else Inr (P2V (PTE_ADDR e)))"

partial_function (option) copyout_loop :: "u32 \<Rightarrow> u32 \<Rightarrow> u32 \<Rightarrow> u32 \<Rightarrow> kmem \<Rightarrow> (int \<times> kmem) res option" where
  "copyout_loop pgdir va buf len s =
     (if 0 < len
      then let va0 = PGROUNDDOWN va in
           case uva2ka pgdir va0 s of
             Inl e \<Rightarrow> Some (Inl e)
           | Inr pa0 \<Rightarrow>
               if pa0 = 0 then Some (Inr (-1, s))
               else
                 let n0 = PGSIZE - (va - va0); n = (if len < n0 then len else n0) in
                 copyout_loop pgdir (va0 + PGSIZE) (buf + n) (len - n)
                   (s\<lparr>mem := memmove (pa0 + (va - va0)) buf n (mem s)\<rparr>)
      else Some (Inr (0, s)))"

definition copyout :: "u32 \<Rightarrow> u32 \<Rightarrow> u32 \<Rightarrow> u32 \<Rightarrow> kmem \<Rightarrow> (int \<times> kmem) res" where
  "copyout pgdir va p len s = loop_res (copyout_loop pgdir va p len s)"

section \<open>Entries of page tables\<close>

lemma algn_bit: "algn n p \<Longrightarrow> bit p k \<Longrightarrow> n \<le> k"
  using bit_take_bit_iff [of n p k] by (fastforce simp: algn_def)

lemma small_bit: assumes "f < (4096 :: u32)" "bit f k" shows "k < 12"
proof -
  have "unat (take_bit 12 f) = unat f" using assms(1) by (simp add: unat_take_bit word_less_nat_alt)
  then have "take_bit 12 f = f" by (simp add: word_unat_eq_iff)
  then show ?thesis using assms(2) bit_take_bit_iff [of 12 f k] by simp
qed

lemma pte_fields:
  assumes "algn 12 p" "f < 4096"
  shows "PTE_ADDR (p OR f) = p" "PTE_FLAGS (p OR f) = f" "k < 12 \<Longrightarrow> bit (p OR f) k = bit f k"
proof -
  have m: "(0xFFF :: u32) = mask 12" by (simp add: mask_eq_exp_minus_1)
  show "PTE_ADDR (p OR f) = p" unfolding PTE_ADDR_def m
    by (rule bit_word_eqI) (use algn_bit [OF assms(1)] small_bit [OF assms(2)] in \<open>auto simp: bit_simps; fastforce\<close>)
  show "PTE_FLAGS (p OR f) = f" unfolding PTE_FLAGS_def m
    by (rule bit_word_eqI) (use algn_bit [OF assms(1)] small_bit [OF assms(2)] in \<open>auto simp: bit_simps; fastforce\<close>)
  show "k < 12 \<Longrightarrow> bit (p OR f) k = bit f k" using algn_bit [OF assms(1), of k] by (auto simp: bit_simps)
qed

lemma and_one: "x AND 1 \<noteq> 0 \<longleftrightarrow> bit x 0" for x :: u32
  by (simp add: and_one_eq odd_iff_mod_2_eq_one bit_0)

lemma PTE_P_bit: "x AND PTE_P \<noteq> 0 \<longleftrightarrow> bit x 0" "x AND PTE_P = 0 \<longleftrightarrow> \<not> bit x 0"
  unfolding PTE_P_def using and_one [of x] by blast+

lemma V2P_algn: "algn 12 p \<Longrightarrow> algn 12 (V2P p)"
proof -
  assume "algn 12 p"
  then have "algn 12 (p + (- KERNBASE))" by (rule algn_add) (simp_all add: KERNBASE_def algn_def)
  then show ?thesis by (simp add: V2P_def)
qed

lemma P2V_algn: "algn 12 p \<Longrightarrow> algn 12 (P2V p)"
  unfolding P2V_def by (rule algn_add) (simp_all add: KERNBASE_def algn_def)

text \<open>The slot of entry \<open>i\<close> in a page of entries.\<close>

lemma slot:
  assumes "algn 12 d" "i < 1024"
  shows "rnd 12 (d + 4 * of_nat i) = d" "algn 2 (d + 4 * of_nat i)" "d \<noteq> 0 \<Longrightarrow> d + 4 * of_nat i \<noteq> 0"
    "j < 1024 \<Longrightarrow> d + 4 * of_nat i = d + 4 * of_nat j \<longleftrightarrow> i = j"
proof -
  have u: "unat (4 * of_nat k :: u32) = 4 * k" if "k < 1024" for k using that by (simp add: unat_word_ariths unat_of_nat)
  have lt: "4 * of_nat i < (2 ^ 12 :: u32)" using assms(2) by (simp add: word_less_nat_alt u)
  show r: "rnd 12 (d + 4 * of_nat i) = d" using rnd_add [OF assms(1) lt] by simp
  show "algn 2 (d + 4 * of_nat i)" by (rule algn_add) (use algn_le [OF assms(1), of 2] u [OF assms(2)] in \<open>auto simp: algn_unat\<close>)
  show "d \<noteq> 0 \<Longrightarrow> d + 4 * of_nat i \<noteq> 0" using r by (auto simp: rnd_def)
  show "j < 1024 \<Longrightarrow> d + 4 * of_nat i = d + 4 * of_nat j \<longleftrightarrow> i = j" using u [OF assms(2)] u [of j] by (metis add_left_cancel nat_mult_eq_cancel1 zero_less_numeral)
qed

lemma PDX_PTX_bound: "unat (PDX va) < 1024" "unat (PTX va) < 1024"
proof -
  have m: "(0x3FF :: u32) = mask 10" by (simp add: mask_eq_exp_minus_1)
  have "unat (x AND 0x3FF :: u32) < 1024" for x
    unfolding m by (simp flip: take_bit_eq_mask add: unat_take_bit)
  then show "unat (PDX va) < 1024" "unat (PTX va) < 1024" by (simp_all add: PDX_def PTX_def)
qed


section \<open>The page table as a map\<close>

text \<open>
  The table page of directory entry \<open>i\<close>, and the entry \<open>(i, j)\<close> of the whole two-level table
  (0 where there is no table page). The directory \<open>d\<close> is well formed when it and its table
  pages are different allocated pages.
\<close>

definition tab :: "memory \<Rightarrow> u32 \<Rightarrow> nat \<Rightarrow> u32 option" where
  "tab m d i = (let e = load32 m (d + 4 * of_nat i) in if e AND PTE_P \<noteq> 0 then Some (P2V (PTE_ADDR e)) else None)"

definition pmap :: "memory \<Rightarrow> u32 \<Rightarrow> nat \<Rightarrow> nat \<Rightarrow> u32" where
  "pmap m d i j =
     (if i < 1024 \<and> j < 1024 then case tab m d i of None \<Rightarrow> 0 | Some t \<Rightarrow> load32 m (t + 4 * of_nat j) else 0)"

definition foot :: "memory \<Rightarrow> u32 \<Rightarrow> u32 set" where
  "foot m d = insert d {t. \<exists>i<1024. tab m d i = Some t}"

definition pt_wf :: "u32 \<Rightarrow> kmem \<Rightarrow> u32 list \<Rightarrow> u32 \<Rightarrow> bool" where
  "pt_wf kend s ps d \<longleftrightarrow> frees kend s ps \<and> page_ok kend d \<and> d \<notin> set ps \<and>
     (\<forall>i<1024. \<forall>t. tab (mem s) d i = Some t \<longrightarrow> page_ok kend t \<and> t \<notin> set ps \<and> t \<noteq> d) \<and>
     (\<forall>i<1024. \<forall>j<1024. \<forall>t. tab (mem s) d i = Some t \<longrightarrow> tab (mem s) d j = Some t \<longrightarrow> i = j)"

lemma pt_wfD:
  assumes "pt_wf kend s ps d"
  shows "frees kend s ps" "page_ok kend d" "d \<notin> set ps" "algn 12 d" "d \<noteq> 0" "rnd 12 d = d"
    "i < 1024 \<Longrightarrow> tab (mem s) d i = Some t \<Longrightarrow> page_ok kend t \<and> t \<notin> set ps \<and> t \<noteq> d \<and> algn 12 t \<and> t \<noteq> 0 \<and> rnd 12 t = t"
    "i < 1024 \<Longrightarrow> j < 1024 \<Longrightarrow> tab (mem s) d i = Some t \<Longrightarrow> tab (mem s) d j = Some t \<Longrightarrow> i = j"
  using assms page_okD [of kend d] page_okD [of kend t] by (auto simp: pt_wf_def)

lemma tab_cong: "algn 12 d \<Longrightarrow> i < 1024 \<Longrightarrow> (\<And>x. rnd 12 x = d \<Longrightarrow> m' x = m x) \<Longrightarrow> tab m' d i = tab m d i"
  using load32_cong [of "d + 4 * of_nat i" m' m] slot [of d i] by (simp add: tab_def)

lemma foot_cong: "algn 12 d \<Longrightarrow> (\<And>x. rnd 12 x = d \<Longrightarrow> m' x = m x) \<Longrightarrow> foot m' d = foot m d"
  using tab_cong [of d _ m' m] by (auto simp: foot_def)

lemma pmap_cong:
  assumes "pt_wf kend s ps d" "\<And>x. rnd 12 x \<in> foot (mem s) d \<Longrightarrow> m' x = mem s x"
  shows "pmap m' d = pmap (mem s) d"
proof (intro ext)
  fix i j
  note w = pt_wfD [OF assms(1)]
  show "pmap m' d i j = pmap (mem s) d i j"
  proof (cases "i < 1024 \<and> j < 1024")
    case True
    then have t: "tab m' d i = tab (mem s) d i"
      by (intro tab_cong [OF w(4)]) (use assms(2) in \<open>simp_all add: foot_def\<close>)
    show ?thesis
    proof (cases "tab (mem s) d i")
      case (Some t)
      have "load32 m' (t + 4 * of_nat j) = load32 (mem s) (t + 4 * of_nat j)"
        by (rule load32_cong) (use slot [of t j] w(7) [OF _ Some] True assms Some in \<open>auto simp: foot_def\<close>)
      then show ?thesis using t Some by (simp add: pmap_def)
    qed (simp add: pmap_def t)
  next
    case False
    then show ?thesis unfolding pmap_def by (simp only: if_False)
  qed
qed

lemma pt_wf_cong:
  assumes "pt_wf kend s ps d" "freelist t = freelist s" "\<not> kmem_lock t"
    and "\<And>x. rnd 12 x \<in> insert d (set ps) \<Longrightarrow> mem t x = mem s x"
  shows "pt_wf kend t ps d"
proof -
  note w = pt_wfD [OF assms(1)]
  have "frees kend t ps" by (rule frees_cong [OF w(1) assms(2,3)]) (use assms(4) in simp)
  moreover have "tab (mem t) d i = tab (mem s) d i" if "i < 1024" for i
    by (rule tab_cong [OF w(4) that]) (use assms(4) in simp)
  ultimately show ?thesis using assms(1) by (simp add: pt_wf_def)
qed

lemma walk_present:
  assumes "tab (mem s) d (unat (PDX va)) = Some t"
  shows "walkpgdir d va al s = Inr (t + 4 * of_nat (unat (PTX va)), s)"
  using assms by (simp add: walkpgdir_def tab_def Let_def split: if_splits)

lemma walk_absent: "tab (mem s) d (unat (PDX va)) = None \<Longrightarrow> walkpgdir d va False s = Inr (0, s)"
  by (simp add: walkpgdir_def tab_def Let_def split: if_splits)

lemma walk_nomem:
  assumes "tab (mem s) d (unat (PDX va)) = None" "frees kend s []"
  shows "walkpgdir d va True s = Inr (0, s)"
  using assms(1) kalloc_none [OF assms(2)] by (simp add: walkpgdir_def tab_def Let_def split: if_splits)

lemma load32_zero_page: "algn 12 p \<Longrightarrow> j < 1024 \<Longrightarrow> (\<And>x. rnd 12 x = p \<Longrightarrow> m x = 0) \<Longrightarrow> load32 m (p + 4 * of_nat j) = 0"
  using load32_cong [of "p + 4 * of_nat j" m "\<lambda>_. 0"] slot [of p j] by (simp add: load32_def)

lemma walk_alloc:
  assumes w: "pt_wf kend s (t # ps) d" and n: "tab (mem s) d (unat (PDX va)) = None"
  shows "\<exists>s'. walkpgdir d va True s = Inr (t + 4 * of_nat (unat (PTX va)), s') \<and> pt_wf kend s' ps d \<and>
    (\<forall>i<1024. tab (mem s') d i = (if i = unat (PDX va) then Some t else tab (mem s) d i)) \<and>
    pmap (mem s') d = pmap (mem s) d \<and>
    (\<forall>x. rnd 12 x \<notin> {d, t} \<longrightarrow> mem s' x = mem s x) \<and> use_lock s' = use_lock s"
proof -
  note W = pt_wfD [OF w]
  let ?k = "unat (PDX va)"
  let ?v = "V2P t OR PTE_P OR PTE_W OR PTE_U"
  obtain s1 where s1: "s1 = s\<lparr>freelist := load32 (mem s) t\<rparr>" "kalloc s = Inr (t, s1)" "frees kend s1 ps"
    using kalloc_some [OF W(1)] by blast
  have t: "page_ok kend t" "t \<notin> set ps" "t \<noteq> d" using W(1,3) by (auto simp: frees_def)
  note T = page_okD [OF t(1)]
  define s' where "s' = s1\<lparr>mem := store32 (d + 4 * of_nat ?k) ?v (memset t 0 PGSIZE (mem s))\<rparr>"
  have k: "?k < 1024" by (rule PDX_PTX_bound)
  note S = slot [OF W(4) k]
  have f: "(PTE_P OR PTE_W OR PTE_U) < 4096" by (simp add: PTE_P_def PTE_W_def PTE_U_def)
  have v: "PTE_ADDR ?v = V2P t" "bit ?v 0"
    using pte_fields(1) [OF V2P_algn [OF T(1)] f] pte_fields(3) [OF V2P_algn [OF T(1)] f, of 0]
    by (simp_all add: PTE_P_def PTE_W_def PTE_U_def)
  have walk: "walkpgdir d va True s = Inr (t + 4 * of_nat (unat (PTX va)), s')"
    using n s1(2) T(2) by (simp add: walkpgdir_def tab_def Let_def s'_def s1(1) split: if_splits)
  have m: "mem s' x = mem s x" if "rnd 12 x \<notin> {d, t}" for x
    using that S(1,2) T(1) by (simp add: s'_def store32_page memset_page)
  have d': "load32 (mem s') (d + 4 * of_nat i) = (if i = ?k then ?v else load32 (mem s) (d + 4 * of_nat i))" if "i < 1024" for i
  proof -
    have "load32 (memset t 0 PGSIZE (mem s)) (d + 4 * of_nat i) = load32 (mem s) (d + 4 * of_nat i)"
      by (rule load32_cong) (use slot [OF W(4) that] T(1) t(3) in \<open>simp_all add: memset_page\<close>)
    then show ?thesis using slot [OF W(4) that] slot(4) [OF W(4) k that] S(2) by (auto simp: s'_def load32_store32)
  qed
  have tb: "tab (mem s') d i = (if i = ?k then Some t else tab (mem s) d i)" if "i < 1024" for i
    using d' [OF that] v by (simp add: tab_def PTE_P_bit)
  have zero: "mem s' x = 0" if "rnd 12 x = t" for x
    using that S(1,2) T(1) t(3) by (simp add: s'_def store32_page memset_page)
  have pm: "pmap (mem s') d i j = pmap (mem s) d i j" if ij: "i < 1024" "j < 1024" for i j
  proof (cases "i = ?k")
    case True
    then show ?thesis using tb [OF ij(1)] n load32_zero_page [OF T(1) ij(2), of "mem s'"] zero by (simp add: pmap_def)
  next
    case False
    show ?thesis
    proof (cases "tab (mem s) d i")
      case (Some u)
      have u: "algn 12 u" "u \<noteq> d" "u \<noteq> t" using W(7) [OF ij(1) Some] by auto
      have "load32 (mem s') (u + 4 * of_nat j) = load32 (mem s) (u + 4 * of_nat j)"
        by (rule load32_cong) (use slot [OF u(1) ij(2)] u m in auto)
      then show ?thesis using tb [OF ij(1)] False Some by (simp add: pmap_def)
    qed (use tb [OF ij(1)] False in \<open>simp add: pmap_def\<close>)
  qed
  have "pmap (mem s') d = pmap (mem s) d"
  proof (intro ext)
    fix i j show "pmap (mem s') d i j = pmap (mem s) d i j"
      using pm [of i j] by (cases "i < 1024 \<and> j < 1024") (auto simp: pmap_def)
  qed
  moreover have "pt_wf kend s' ps d"
  proof -
    have "frees kend s' ps"
    proof (rule frees_cong [OF s1(3)])
      fix x assume "rnd 12 x \<in> set ps"
      then have "rnd 12 x \<notin> {d, t}" using t(2) W(3) by auto
      then show "mem s' x = mem s1 x" using m s1(1) by simp
    qed (use W(1) in \<open>simp_all add: s'_def s1(1) frees_def\<close>)
    moreover have "page_ok kend u \<and> u \<notin> set ps \<and> u \<noteq> d" if "i < 1024" "tab (mem s') d i = Some u" for i u
      using that tb [OF that(1)] t W(7) [OF that(1)] by (auto split: if_splits)
    moreover have "i = j" if ij: "i < 1024" "j < 1024" and u: "tab (mem s') d i = Some u" "tab (mem s') d j = Some u" for i j u
      using u tb [OF ij(1)] tb [OF ij(2)] W(7) [OF ij(1), of u] W(7) [OF ij(2), of u] W(8) [OF ij, of u] by (auto split: if_splits)
    ultimately show ?thesis using W(2,3) by (auto simp: pt_wf_def)
  qed
  moreover have "use_lock s' = use_lock s" by (simp add: s'_def s1(1))
  ultimately show ?thesis using walk tb m by blast
qed


abbreviation pdx :: "u32 \<Rightarrow> nat" where "pdx va \<equiv> unat (PDX va)"
abbreviation ptx :: "u32 \<Rightarrow> nat" where "ptx va \<equiv> unat (PTX va)"

definition pupd :: "(nat \<Rightarrow> nat \<Rightarrow> u32) \<Rightarrow> u32 \<Rightarrow> u32 \<Rightarrow> nat \<Rightarrow> nat \<Rightarrow> u32" where
  "pupd M a v i j = (if i = pdx a \<and> j = ptx a then v else M i j)"

lemma pte_store:
  fixes v :: u32
  assumes w: "pt_wf kend s ps d" and t: "tab (mem s) d i = Some t" and ij: "i < 1024" "j < 1024"
  defines "s' \<equiv> s\<lparr>mem := store32 (t + 4 * of_nat j) v (mem s)\<rparr>"
  shows "pt_wf kend s' ps d" "foot (mem s') d = foot (mem s) d" "k < 1024 \<Longrightarrow> tab (mem s') d k = tab (mem s) d k"
    "pmap (mem s') d = (\<lambda>i' j'. if i' = i \<and> j' = j then v else pmap (mem s) d i' j')"
    "\<forall>x. rnd 12 x \<noteq> t \<longrightarrow> mem s' x = mem s x"
proof -
  note W = pt_wfD [OF w]
  have T: "algn 12 t" "t \<notin> set ps" "t \<noteq> d" using W(7) [OF ij(1) t] by auto
  note S = slot [OF T(1) ij(2)]
  have m: "mem s' x = mem s x" if "rnd 12 x \<noteq> t" for x
    using that S(1,2) by (simp add: s'_def store32_page)
  then show "\<forall>x. rnd 12 x \<noteq> t \<longrightarrow> mem s' x = mem s x" by blast
  show "pt_wf kend s' ps d"
  proof (rule pt_wf_cong [OF w])
    fix x assume "rnd 12 x \<in> insert d (set ps)"
    then have "rnd 12 x \<noteq> t" using T by auto
    then show "mem s' x = mem s x" by (rule m)
  qed (use W(1) in \<open>simp_all add: s'_def frees_def\<close>)
  show tb: "tab (mem s') d k = tab (mem s) d k" if "k < 1024" for k
    by (rule tab_cong [OF W(4) that]) (use m T in auto)
  show "foot (mem s') d = foot (mem s) d" by (rule foot_cong [OF W(4)]) (use m T in auto)
  show "pmap (mem s') d = (\<lambda>i' j'. if i' = i \<and> j' = j then v else pmap (mem s) d i' j')"
  proof (intro ext)
    fix i' j'
    show "pmap (mem s') d i' j' = (if i' = i \<and> j' = j then v else pmap (mem s) d i' j')"
    proof (cases "i' < 1024 \<and> j' < 1024")
      case True
      show ?thesis
      proof (cases "tab (mem s) d i'")
        case (Some u)
        have u: "algn 12 u" "u = t \<longleftrightarrow> i' = i"
          using W(7) [OF _ Some] True Some t W(8) [of i' i t] ij by auto
        note S' = slot [OF u(1), of j']
        have "t + 4 * of_nat j = u + 4 * of_nat j' \<longleftrightarrow> i' = i \<and> j' = j"
          using S(1) S'(1) u True slot(4) [OF T(1) ij(2), of j'] by metis
        then have "load32 (mem s') (u + 4 * of_nat j') = (if i' = i \<and> j' = j then v else load32 (mem s) (u + 4 * of_nat j'))"
          using S(2) S'(2) True by (simp add: s'_def load32_store32)
        then show ?thesis using tb [of i'] True Some by (simp add: pmap_def)
      qed (use True tb [of i'] t in \<open>auto simp: pmap_def\<close>)
    next
      case False
      moreover from this have "\<not> (i' = i \<and> j' = j)" using ij by auto
      ultimately show ?thesis unfolding pmap_def by (simp only: if_False)
    qed
  qed
qed

text \<open>A page table that has taken table pages from the free list, and nothing else.\<close>

definition grew :: "u32 \<Rightarrow> u32 \<Rightarrow> kmem \<Rightarrow> u32 list \<Rightarrow> kmem \<Rightarrow> u32 list \<Rightarrow> bool" where
  "grew kend d s ps s' ps' \<longleftrightarrow> pt_wf kend s' ps' d \<and> use_lock s' = use_lock s \<and>
     (\<exists>ts. ps = ts @ ps' \<and> foot (mem s') d = foot (mem s) d \<union> set ts \<and>
        (\<forall>x. rnd 12 x \<notin> foot (mem s) d \<union> set ts \<longrightarrow> mem s' x = mem s x))"

lemma grew_trans: "grew kend d s ps s1 ps1 \<Longrightarrow> grew kend d s1 ps1 s2 ps2 \<Longrightarrow> grew kend d s ps s2 ps2"
  unfolding grew_def by (elim conjE exE, intro conjI, simp, simp, intro exI conjI) auto

lemma grew_refl: "pt_wf kend s ps d \<Longrightarrow> grew kend d s ps s ps"
  by (simp add: grew_def)

lemma walk_set:
  assumes w: "pt_wf kend s ps d"
  obtains "walkpgdir d a True s = Inr (0, s)" "ps = []"
  | pte s1 ps1 where "walkpgdir d a True s = Inr (pte, s1)" "pte \<noteq> 0" "load32 (mem s1) pte = pmap (mem s) d (pdx a) (ptx a)"
    "\<And>v. grew kend d s ps (s1\<lparr>mem := store32 pte v (mem s1)\<rparr>) ps1"
    "\<And>v. pmap (store32 pte v (mem s1)) d = pupd (pmap (mem s) d) a v"
proof (cases "tab (mem s) d (pdx a)")
  case (Some t)
  note W = pt_wfD [OF w] note b = PDX_PTX_bound [of a]
  have T: "algn 12 t" "t \<noteq> 0" "t \<in> foot (mem s) d" using W(7) [OF b(1) Some] Some b by (auto simp: foot_def)
  note P = pte_store [OF w Some b]
  show ?thesis
  proof (rule that(2))
    show "walkpgdir d a True s = Inr (t + 4 * of_nat (ptx a), s)" by (rule walk_present [OF Some])
    show "t + 4 * of_nat (ptx a) \<noteq> 0" using slot(3) [OF T(1) b(2) T(2)] .
    show "load32 (mem s) (t + 4 * of_nat (ptx a)) = pmap (mem s) d (pdx a) (ptx a)" using Some b by (simp add: pmap_def)
    show "grew kend d s ps (s\<lparr>mem := store32 (t + 4 * of_nat (ptx a)) v (mem s)\<rparr>) ps" for v
    proof -
      have "mem (s\<lparr>mem := store32 (t + 4 * of_nat (ptx a)) v (mem s)\<rparr>) x = mem s x" if "rnd 12 x \<notin> foot (mem s) d" for x
        using P(5) [of v] that T(3) by metis
      then show ?thesis unfolding grew_def using P(1,2) [of v] by (intro conjI exI [of _ "[]"]) simp_all
    qed
    show "pmap (store32 (t + 4 * of_nat (ptx a)) v (mem s)) d = pupd (pmap (mem s) d) a v" for v
      using P(4) [of v] by (simp add: pupd_def fun_eq_iff)
  qed
next
  case None
  show ?thesis
  proof (cases ps)
    case Nil
    then show ?thesis using that(1) walk_nomem [OF None, of kend] pt_wfD(1) [OF w] by simp
  next
    case (Cons t qs)
    note b = PDX_PTX_bound [of a]
    have w': "pt_wf kend s (t # qs) d" using w Cons by simp
    obtain s1 where s1: "walkpgdir d a True s = Inr (t + 4 * of_nat (ptx a), s1)" "pt_wf kend s1 qs d"
      "\<forall>i<1024. tab (mem s1) d i = (if i = pdx a then Some t else tab (mem s) d i)"
      "pmap (mem s1) d = pmap (mem s) d" "\<forall>x. rnd 12 x \<notin> {d, t} \<longrightarrow> mem s1 x = mem s x" "use_lock s1 = use_lock s"
      using walk_alloc [OF w' None] by blast
    have t: "tab (mem s1) d (pdx a) = Some t" using s1(3) b by simp
    have T: "algn 12 t" "t \<noteq> 0" using pt_wfD(7) [OF s1(2) b(1) t] by auto
    have ft: "foot (mem s1) d = insert t (foot (mem s) d)" 
    proof -
      have "(\<exists>i<1024. tab (mem s1) d i = Some x) \<longleftrightarrow> x = t \<or> (\<exists>i<1024. tab (mem s) d i = Some x)" for x
        using s1(3) None b by (metis option.distinct(1) option.inject)
      then show ?thesis by (auto simp: foot_def)
    qed
    note P = pte_store [OF s1(2) t b]
    show ?thesis
    proof (rule that(2) [OF s1(1)])
      show "t + 4 * of_nat (ptx a) \<noteq> 0" using slot(3) [OF T(1) b(2) T(2)] .
      show "load32 (mem s1) (t + 4 * of_nat (ptx a)) = pmap (mem s) d (pdx a) (ptx a)"
        using t b s1(4) by (metis (no_types, lifting) option.simps(5) pmap_def)
      show "grew kend d s ps (s1\<lparr>mem := store32 (t + 4 * of_nat (ptx a)) v (mem s1)\<rparr>) qs" for v
      proof -
        have "mem (s1\<lparr>mem := store32 (t + 4 * of_nat (ptx a)) v (mem s1)\<rparr>) x = mem s x"
          if "rnd 12 x \<notin> foot (mem s) d \<union> {t}" for x
        proof -
          have "rnd 12 x \<noteq> t" "rnd 12 x \<notin> {d, t}" using that by (auto simp: foot_def)
          then show ?thesis using P(5) [of v] s1(5) by metis
        qed
        then show ?thesis unfolding grew_def using P(1,2) [of v] s1(6) ft Cons
          by (intro conjI exI [of _ "[t]"]) simp_all
      qed
      show "pmap (store32 (t + 4 * of_nat (ptx a)) v (mem s1)) d = pupd (pmap (mem s) d) a v" for v
        using P(4) [of v] s1(4) by (simp add: pupd_def fun_eq_iff)
    qed
  qed
qed

section \<open>Mapping ranges\<close>

text \<open>The entry that translates an address, and the page it refers to.\<close>

definition pte :: "memory \<Rightarrow> u32 \<Rightarrow> u32 \<Rightarrow> u32" where
  "pte m d x = pmap m d (pdx x) (ptx x)"

definition leaf :: "memory \<Rightarrow> u32 \<Rightarrow> u32 \<Rightarrow> u32" where
  "leaf m d x = P2V (PTE_ADDR (pte m d x))"

definition present :: "memory \<Rightarrow> u32 \<Rightarrow> u32 \<Rightarrow> bool" where
  "present m d x \<longleftrightarrow> bit (pte m d x) 0"

lemma pte_eqI: "pmap m d = pmap m' d \<Longrightarrow> pte m d = pte m' d" by (simp add: pte_def fun_eq_iff)

text \<open>The map after \<open>K\<close> pages from \<open>a\<close> on have been mapped to consecutive pages from \<open>pa\<close> on.\<close>

fun mapped :: "u32 \<Rightarrow> u32 \<Rightarrow> u32 \<Rightarrow> nat \<Rightarrow> (nat \<Rightarrow> nat \<Rightarrow> u32) \<Rightarrow> nat \<Rightarrow> nat \<Rightarrow> u32" where
  "mapped a pa perm 0 M = M"
| "mapped a pa perm (Suc K) M = mapped (a + PGSIZE) (pa + PGSIZE) perm K (pupd M a (pa OR perm OR PTE_P))"

lemma pupd_page: "pupd M a v (pdx va) (ptx va) = (if rnd 12 va = rnd 12 a then v else M (pdx va) (ptx va))"
  by (auto simp: pupd_def rnd_same_iff word_unat_eq_iff [of "PDX va"] word_unat_eq_iff [of "PTX va"])

lemma unat_sub_page: "unat (x - PGSIZE) = (if 4096 \<le> unat x then unat x - 4096 else unat x + (2 ^ 32 - 4096))"
  by (simp add: PGSIZE_def unat_sub_if_size word_size)

lemma mapped_lookup:
  assumes "algn 12 a" "K \<le> 2 ^ 20"
  shows "mapped a pa perm K M (pdx va) (ptx va) =
    (if unat (va - a) < 4096 * K then (pa + (rnd 12 va - a)) OR perm OR PTE_P else M (pdx va) (ptx va))"
  using assms
proof (induction K arbitrary: a pa M)
  case (Suc K)
  let ?v = "pa OR perm OR PTE_P"
  have i: "mapped a pa perm (Suc K) M (pdx va) (ptx va) =
    (if unat (va - (a + PGSIZE)) < 4096 * K then ((pa + PGSIZE) + (rnd 12 va - (a + PGSIZE))) OR perm OR PTE_P
     else pupd M a ?v (pdx va) (ptx va))"
    using Suc.IH [OF algn_next [OF Suc.prems(1)]] Suc.prems(2) by simp
  have p: "rnd 12 va = rnd 12 a \<longleftrightarrow> unat (va - a) < 4096"
    using rnd_iff [OF Suc.prems(1), of va] rnd_id [OF Suc.prems(1)] by (simp add: word_less_nat_alt)
  have e: "va - (a + PGSIZE) = (va - a) - PGSIZE" by simp
  show ?case
  proof (cases "unat (va - a) < 4096")
    case True
    then have "rnd 12 va = a" using p rnd_id [OF Suc.prems(1)] by simp
    then show ?thesis unfolding i e unat_sub_page using True Suc.prems(2) p by (simp add: pupd_page)
  next
    case False
    then show ?thesis unfolding i e unat_sub_page using p by (auto simp: pupd_page)
  qed
qed simp

lemma mappages_loop_ok:
  assumes "pt_wf kend s ps d" "algn 12 a" "unat la = unat a + 4096 * n" "algn 12 la"
    and "\<And>va. unat (va - a) < 4096 * Suc n \<Longrightarrow> \<not> bit (pmap (mem s) d (pdx va) (ptx va)) 0"
  shows "\<exists>r s' ps' K. mappages_loop d a la pa perm s = Some (Inr (r, s')) \<and> grew kend d s ps s' ps' \<and>
    pmap (mem s') d = mapped a pa perm K (pmap (mem s) d) \<and>
    (r = 0 \<and> K = Suc n \<or> r = -1 \<and> K \<le> n \<and> ps' = [])"
  using assms
proof (induction n arbitrary: a pa s ps)
  case (0 a pa s ps)
  from 0 have l: "a = la" by (simp add: word_unat_eq_iff)
  from walk_set [OF "0.prems"(1), of a] show ?case
  proof cases
    case 1
    then show ?thesis using grew_refl [OF "0.prems"(1)]
      by (intro exI [of _ "-1"] exI [of _ s] exI [of _ ps] exI [of _ 0]) (simp add: mappages_loop.simps)
  next
    case (2 pte s1 ps1)
    have "\<not> bit (load32 (mem s1) pte) 0" using 2(3) "0.prems"(5) [of a] by simp
    then show ?thesis using 2(1,2) l 2(4,5) [of "pa OR perm OR PTE_P"]
      by (intro exI [of _ 0] exI [of _ "s1\<lparr>mem := store32 pte (pa OR perm OR PTE_P) (mem s1)\<rparr>"] exI [of _ ps1] exI [of _ "Suc 0"])
        (simp add: mappages_loop.simps PTE_P_bit)
  qed
next
  case (Suc n)
  have ul: "unat (a + PGSIZE) = unat a + 4096"
    using Suc.prems(3) unat_le32(2) [of la] by (intro unat_next_page) simp
  have nl: "a \<noteq> la" using Suc.prems(3) by auto
  from walk_set [OF Suc.prems(1), of a] show ?case
  proof cases
    case 1
    then show ?thesis using grew_refl [OF Suc.prems(1)]
      by (intro exI [of _ "-1"] exI [of _ s] exI [of _ ps] exI [of _ 0]) (simp add: mappages_loop.simps)
  next
    case (2 pte s1 ps1)
    let ?v = "pa OR perm OR PTE_P"
    define s2 where "s2 = s1\<lparr>mem := store32 pte ?v (mem s1)\<rparr>"
    have nb: "\<not> bit (load32 (mem s1) pte) 0" using 2(3) Suc.prems(5) [of a] by simp
    have g: "grew kend d s ps s2 ps1" "pmap (mem s2) d = pupd (pmap (mem s) d) a ?v"
      using 2(4,5) [of ?v] by (simp_all add: s2_def)
    have "\<not> bit (pmap (mem s2) d (pdx va) (ptx va)) 0" if "unat (va - (a + PGSIZE)) < 4096 * Suc n" for va
    proof -
      have e: "va - (a + PGSIZE) = (va - a) - PGSIZE" by simp
      have nn: "Suc n < 2 ^ 20" using Suc.prems(3) unat_le32(2) [of la] by simp
      have ge: "4096 \<le> unat (va - a)" "unat (va - a) < 4096 * Suc (Suc n)"
        using that nn unfolding e unat_sub_page by (auto split: if_splits)
      then have "rnd 12 va \<noteq> rnd 12 a"
        using rnd_iff [OF Suc.prems(2), of va] rnd_id [OF Suc.prems(2)] by (simp add: word_less_nat_alt)
      then show ?thesis using Suc.prems(5) [OF ge(2)] g(2) by (simp add: pupd_page)
    qed
    moreover have "pt_wf kend s2 ps1 d" "unat la = unat (a + PGSIZE) + 4096 * n"
      using g(1) Suc.prems(3) ul by (simp_all add: grew_def)
    note Suc.IH [OF this(1) algn_next [OF Suc.prems(2)] this(2) Suc.prems(4), of "pa + PGSIZE"]
    ultimately
    obtain r s' ps' K where h: "mappages_loop d (a + PGSIZE) la (pa + PGSIZE) perm s2 = Some (Inr (r, s'))"
      "grew kend d s2 ps1 s' ps'" "pmap (mem s') d = mapped (a + PGSIZE) (pa + PGSIZE) perm K (pmap (mem s2) d)"
      "r = 0 \<and> K = Suc n \<or> r = -1 \<and> K \<le> n \<and> ps' = []"
      by blast
    have "mappages_loop d a la pa perm s = Some (Inr (r, s'))"
      using 2(1,2) nb nl h(1) by (subst mappages_loop.simps) (simp add: PTE_P_bit s2_def)
    then show ?thesis using grew_trans [OF g(1) h(2)] h(3,4) g(2)
      by (intro exI [of _ r] exI [of _ s'] exI [of _ ps'] exI [of _ "Suc K"]) auto
  qed
qed


definition in_pages :: "u32 \<Rightarrow> u32 \<Rightarrow> u32 \<Rightarrow> bool" where
  "in_pages va sz x \<longleftrightarrow> PGROUNDDOWN va \<le> x \<and> PGROUNDDOWN x \<le> PGROUNDDOWN (va + sz - 1)"

lemma unat_sub32: "unat (x - y :: u32) = (if unat y \<le> unat x then unat x - unat y else 2 ^ 32 - (unat y - unat x))"
  using unat_le32 [of x] unat_le32 [of y] by (auto simp: unat_sub_if_size word_size)

lemma range_pages:
  assumes "0 < sz" "unat va + unat sz \<le> 2 ^ 32"
  defines "a \<equiv> PGROUNDDOWN va" and "la \<equiv> PGROUNDDOWN (va + sz - 1)"
  obtains n where "unat la = unat a + 4096 * n" "\<And>x. unat (x - a) < 4096 * Suc n \<longleftrightarrow> in_pages va sz x"
proof -
  have sz: "0 < unat sz" using assms(1) by (simp add: word_less_nat_alt)
  have ue: "unat (va + sz - 1) = unat va + unat sz - 1"
  proof -
    have z: "sz \<noteq> 0" using assms(1) by auto
    have m: "unat (sz - 1) = unat sz - 1" by (rule unat_minus1 [OF z])
    then have "unat (va + (sz - 1)) = unat va + (unat sz - 1)" using assms(2) sz by (simp add: unat_word_ariths)
    moreover have e: "va + sz - 1 = va + (sz - 1)" by (simp add: algebra_simps)
    ultimately show ?thesis unfolding e using sz by linarith
  qed
  have r: "unat (PGROUNDDOWN x) = unat x - unat x mod 4096" for x by (simp add: PGROUNDDOWN_rnd unat_rnd)
  have al: "algn 12 a" "algn 12 la" by (simp_all add: a_def la_def PGROUNDDOWN_rnd)
  obtain k j where kj: "unat a = 4096 * k" "unat la = 4096 * j" using algn12E [OF al(1)] algn12E [OF al(2)] by metis
  have "unat a \<le> unat la"
  proof -
    have "unat va \<le> unat (va + sz - 1)" using ue sz by simp
    then have "unat va div 4096 \<le> unat (va + sz - 1) div 4096" by (rule div_le_mono)
    then show ?thesis unfolding a_def la_def r by (simp add: minus_mod_eq_mult_div)
  qed
  then have n: "unat la = unat a + 4096 * (j - k)" using kj by simp
  have top: "unat la + 4096 \<le> 2 ^ 32" using unat_le32(2) [of la] kj by simp
  have "unat (x - a) < 4096 * Suc (j - k) \<longleftrightarrow> in_pages va sz x" for x
  proof -
    have "unat x < unat la + 4096 \<longleftrightarrow> unat (PGROUNDDOWN x) \<le> unat la"
    proof -
      obtain i where i: "unat (PGROUNDDOWN x) = 4096 * i" using algn12E [of "PGROUNDDOWN x"] by (auto simp: PGROUNDDOWN_rnd)
      moreover have "unat x mod 4096 < 4096" "unat x mod 4096 \<le> unat x" by simp_all
      ultimately have "unat x = 4096 * i + unat x mod 4096" "unat x mod 4096 < 4096" using r [of x] by linarith+
      then show ?thesis unfolding i kj by (cases "i \<le> j") simp_all
    qed
    moreover have "unat (x - a) < 4096 * Suc (j - k) \<longleftrightarrow> unat a \<le> unat x \<and> unat x < unat la + 4096"
      using n top unat_le32(2) [of a] unfolding unat_sub32 by (auto split: if_splits)
    ultimately show ?thesis by (simp add: in_pages_def word_le_nat_alt a_def la_def)
  qed
  with n show ?thesis using that by blast
qed

lemma mappages_ok:
  assumes w: "pt_wf kend s ps d" and sz: "0 < sz" "unat va + unat sz \<le> 2 ^ 32"
    and np: "\<And>x. in_pages va sz x \<Longrightarrow> \<not> present (mem s) d x"
  shows "\<exists>r s' ps'. mappages d va sz pa perm s = Inr (r, s') \<and> grew kend d s ps s' ps' \<and>
    (r = 0 \<and> (\<forall>x. pte (mem s') d x =
        (if in_pages va sz x then (pa + (PGROUNDDOWN x - PGROUNDDOWN va)) OR perm OR PTE_P
         else pte (mem s) d x)) \<or>
     r = -1 \<and> ps' = [] \<and> (\<forall>x. \<not> in_pages va sz x \<longrightarrow> pte (mem s') d x = pte (mem s) d x))"
proof -
  let ?a = "PGROUNDDOWN va" and ?la = "PGROUNDDOWN (va + sz - 1)"
  obtain n where n: "unat ?la = unat ?a + 4096 * n" "\<And>x. unat (x - ?a) < 4096 * Suc n \<longleftrightarrow> in_pages va sz x"
    using range_pages [OF sz] by blast
  have al: "algn 12 ?a" "algn 12 ?la" by (simp_all add: PGROUNDDOWN_rnd)
  have n20: "Suc n \<le> 2 ^ 20"
  proof -
    obtain j where "unat ?la = 4096 * j" using algn12E [OF al(2)] .
    then show ?thesis using n(1) unat_le32(2) [of ?la] by simp
  qed
  have np': "\<not> bit (pmap (mem s) d (pdx x) (ptx x)) 0" if "unat (x - ?a) < 4096 * Suc n" for x
    using np n(2) that by (auto simp: present_def pte_def)
  obtain r s' ps' K where h: "mappages_loop d ?a ?la pa perm s = Some (Inr (r, s'))" "grew kend d s ps s' ps'"
    "pmap (mem s') d = mapped ?a pa perm K (pmap (mem s) d)" "r = 0 \<and> K = Suc n \<or> r = -1 \<and> K \<le> n \<and> ps' = []"
    using mappages_loop_ok [OF w al(1) n(1) al(2) np'] by blast
  have m: "mappages d va sz pa perm s = Inr (r, s')" using h(1) by (simp add: mappages_def loop_res_def)
  have K: "K \<le> 2 ^ 20" "4096 * K \<le> 4096 * Suc n" using h(4) n20 by auto
  have look: "pte (mem s') d x = (if unat (x - ?a) < 4096 * K then (pa + (rnd 12 x - ?a)) OR perm OR PTE_P
      else pte (mem s) d x)" for x
    unfolding pte_def h(3) by (rule mapped_lookup [OF al(1) K(1)])
  show ?thesis
  proof (cases "r = 0")
    case True
    then have "K = Suc n" using h(4) by auto
    then show ?thesis using m h(2) True look n(2) by (auto simp: PGROUNDDOWN_rnd)
  next
    case False
    then have "r = -1" "ps' = []" using h(4) by auto
    moreover have "pte (mem s') d x = pte (mem s) d x" if "\<not> in_pages va sz x" for x
      using look [of x] n(2) [of x] that K(2) by auto
    ultimately show ?thesis using m h(2) by blast
  qed
qed

section \<open>User memory\<close>

text \<open>
  The user part of a page table owns its pages: they are allocated, are not table pages, and
  no two addresses in different pages share one.
\<close>

definition um_wf :: "u32 \<Rightarrow> kmem \<Rightarrow> u32 list \<Rightarrow> u32 \<Rightarrow> bool" where
  "um_wf kend s ps d \<longleftrightarrow> pt_wf kend s ps d \<and> KERNBASE < kend \<and>
     (\<forall>x<KERNBASE. present (mem s) d x \<longrightarrow>
        page_ok kend (leaf (mem s) d x) \<and> leaf (mem s) d x \<notin> set ps \<and> leaf (mem s) d x \<notin> foot (mem s) d) \<and>
     (\<forall>x<KERNBASE. \<forall>y<KERNBASE. present (mem s) d x \<longrightarrow> present (mem s) d y \<longrightarrow>
        leaf (mem s) d x = leaf (mem s) d y \<longrightarrow> rnd 12 x = rnd 12 y)"

lemma um_wfD:
  assumes "um_wf kend s ps d"
  shows "pt_wf kend s ps d"
    "x < KERNBASE \<Longrightarrow> present (mem s) d x \<Longrightarrow> page_ok kend (leaf (mem s) d x) \<and> leaf (mem s) d x \<notin> set ps \<and> leaf (mem s) d x \<notin> foot (mem s) d"
    "x < KERNBASE \<Longrightarrow> y < KERNBASE \<Longrightarrow> present (mem s) d x \<Longrightarrow> present (mem s) d y \<Longrightarrow>
        leaf (mem s) d x = leaf (mem s) d y \<Longrightarrow> rnd 12 x = rnd 12 y"
    "KERNBASE < kend"
  using assms unfolding um_wf_def by blast+

lemma pte_page: "rnd 12 x = rnd 12 y \<Longrightarrow> pte m d x = pte m d y"
  by (simp add: pte_def rnd_same_iff)

lemma pte_pupd: "pmap m' d = pupd (pmap m d) a v \<Longrightarrow> pte m' d x = (if rnd 12 x = rnd 12 a then v else pte m d x)"
  by (simp add: pte_def pupd_page)

lemma present_tab: "present m d x \<Longrightarrow> \<exists>t. tab m d (pdx x) = Some t"
  by (cases "tab m d (pdx x)") (auto simp: present_def pte_def pmap_def split: if_splits)

lemma pte_tab: "tab m d (pdx x) = Some t \<Longrightarrow> pte m d x = load32 m (t + 4 * of_nat (ptx x))"
  using PDX_PTX_bound [of x] by (simp add: pte_def pmap_def)

lemma pt_wf_free:
  assumes w: "pt_wf kend s ps d" and p: "page_ok kend p" "p \<notin> set ps" "p \<notin> foot (mem s) d"
  shows "\<exists>t. kfree kend p s = Inr t \<and> pt_wf kend t (p # ps) d \<and> pmap (mem t) d = pmap (mem s) d \<and>
    foot (mem t) d = foot (mem s) d \<and> (\<forall>i<1024. tab (mem t) d i = tab (mem s) d i) \<and>
    (\<forall>x. rnd 12 x \<noteq> p \<longrightarrow> mem t x = mem s x) \<and> use_lock t = use_lock s"
proof -
  note W = pt_wfD [OF w]
  obtain t where t: "kfree kend p s = Inr t" "frees kend t (p # ps)" "\<forall>x. rnd 12 x \<noteq> p \<longrightarrow> mem t x = mem s x"
    "use_lock t = use_lock s"
    using kfree_ok [OF W(1) p(1,2)] by blast
  have m: "mem t x = mem s x" if "rnd 12 x \<in> foot (mem s) d" for x using t(3) that p(3) by metis
  have md: "mem t x = mem s x" if "rnd 12 x = d" for x using m that by (simp add: foot_def)
  have tb: "tab (mem t) d i = tab (mem s) d i" if "i < 1024" for i by (rule tab_cong [OF W(4) that md])
  have f: "foot (mem t) d = foot (mem s) d" by (rule foot_cong [OF W(4) md])
  have pm: "pmap (mem t) d = pmap (mem s) d" by (rule pmap_cong [OF w m])
  have "pt_wf kend t (p # ps) d"
    unfolding pt_wf_def using t(2) W(2,3) p(3) w tb by (auto simp: pt_wf_def foot_def)
  then show ?thesis using t tb f pm by blast
qed

lemma dealloc_page:
  assumes u: "um_wf kend s ps d" and x: "a < KERNBASE" "present (mem s) d a"
  obtains pt s1 s2 where "walkpgdir d a False s = Inr (pt, s)" "pt \<noteq> 0" "load32 (mem s) pt = pte (mem s) d a"
    "PTE_ADDR (pte (mem s) d a) \<noteq> 0" "kfree kend (leaf (mem s) d a) s = Inr s1" "s2 = s1\<lparr>mem := store32 pt 0 (mem s1)\<rparr>"
    "um_wf kend s2 (leaf (mem s) d a # ps) d" "foot (mem s2) d = foot (mem s) d"
    "pmap (mem s2) d = pupd (pmap (mem s) d) a 0" "use_lock s2 = use_lock s"
    "\<And>x. rnd 12 x \<notin> insert (leaf (mem s) d a) (foot (mem s) d) \<Longrightarrow> mem s2 x = mem s x"
proof -
  note U = um_wfD [OF u] note W = pt_wfD [OF U(1)] note b = PDX_PTX_bound [of a]
  let ?p = "leaf (mem s) d a"
  obtain t where t: "tab (mem s) d (pdx a) = Some t" using present_tab [OF x(2)] by blast
  have T: "algn 12 t" "t \<noteq> 0" "t \<in> foot (mem s) d" using W(7) [OF b(1) t] t b by (auto simp: foot_def)
  have p: "page_ok kend ?p" "?p \<notin> set ps" "?p \<notin> foot (mem s) d" using U(2) [OF x] by auto
  obtain s1 where s1: "kfree kend ?p s = Inr s1" "pt_wf kend s1 (?p # ps) d" "pmap (mem s1) d = pmap (mem s) d"
    "foot (mem s1) d = foot (mem s) d" "\<forall>i<1024. tab (mem s1) d i = tab (mem s) d i"
    "\<forall>x. rnd 12 x \<noteq> ?p \<longrightarrow> mem s1 x = mem s x" "use_lock s1 = use_lock s"
    using pt_wf_free [OF U(1) p] by blast
  have t1: "tab (mem s1) d (pdx a) = Some t" using s1(5) t b by simp
  let ?pt = "t + 4 * of_nat (ptx a)"
  define s2 where "s2 = s1\<lparr>mem := store32 ?pt 0 (mem s1)\<rparr>"
  note P = pte_store [OF s1(2) t1 b, of 0, folded s2_def]
  have pm: "pmap (mem s2) d = pupd (pmap (mem s) d) a 0" using P(4) s1(3) by (simp add: pupd_def fun_eq_iff)
  have pt2: "pte (mem s2) d y = (if rnd 12 y = rnd 12 a then 0 else pte (mem s) d y)" for y by (rule pte_pupd [OF pm])
  have pr: "present (mem s2) d y \<longleftrightarrow> rnd 12 y \<noteq> rnd 12 a \<and> present (mem s) d y" for y by (simp add: present_def pt2)
  have lf: "leaf (mem s2) d y = leaf (mem s) d y" if "rnd 12 y \<noteq> rnd 12 a" for y using that by (simp add: leaf_def pt2)
  have "um_wf kend s2 (?p # ps) d"
    unfolding um_wf_def
  proof (intro conjI allI impI)
    fix y assume y: "y < KERNBASE" "present (mem s2) d y"
    then have "rnd 12 y \<noteq> rnd 12 a" "present (mem s) d y" using pr by auto
    then show "page_ok kend (leaf (mem s2) d y)" "leaf (mem s2) d y \<notin> set (?p # ps)" "leaf (mem s2) d y \<notin> foot (mem s2) d"
      using U(2) [OF y(1)] U(3) [OF y(1) x(1) _ x(2)] lf P(2) s1(4) by auto
  next
    fix y z assume "y < KERNBASE" "z < KERNBASE" "present (mem s2) d y" "present (mem s2) d z" "leaf (mem s2) d y = leaf (mem s2) d z"
    then show "rnd 12 y = rnd 12 z" using U(3) [of y z] pr lf by auto
  qed (use P(1) U(4) in simp_all)
  moreover have "mem s2 x = mem s x" if "rnd 12 x \<notin> insert ?p (foot (mem s) d)" for x
    using P(5) s1(6) that T(3) by (metis insertCI)
  moreover have "walkpgdir d a False s = Inr (?pt, s)" by (rule walk_present [OF t])
  moreover have "?pt \<noteq> 0" by (rule slot(3) [OF T(1) b(2) T(2)])
  moreover have "load32 (mem s) ?pt = pte (mem s) d a" using pte_tab [OF t] by simp
  moreover have "PTE_ADDR (pte (mem s) d a) \<noteq> 0"
  proof
    assume z: "PTE_ADDR (pte (mem s) d a) = 0"
    then have "?p = KERNBASE" by (simp add: leaf_def P2V_def)
    then show False using p(1) U(4) by (auto simp: page_ok_def)
  qed
  ultimately show ?thesis using that [OF _ _ _ _ s1(1) s2_def] P(2) s1(4,7) pm by (simp add: s2_def)
qed


lemma next_dir:
  assumes "a < KERNBASE" "algn 12 a"
  defines "b \<equiv> PGADDR (PDX a + 1) 0 0"
  shows "algn 12 b" "unat a < unat b" "unat b \<le> 2 ^ 31" "a \<le> x \<Longrightarrow> x < b \<Longrightarrow> PDX x = PDX a"
proof -
  have m: "(0x3FF :: u32) = mask 10" by (simp add: mask_eq_exp_minus_1)
  have pd: "unat (PDX x) = unat x div 2 ^ 22" for x
  proof -
    have "drop_bit 22 x AND mask 10 = drop_bit 22 x"
      by (rule bit_word_eqI) (auto simp: bit_simps dest: bit_imp_le_length)
    then show ?thesis by (simp add: PDX_def m drop_bit_eq_div unat_div)
  qed
  have a31: "unat a < 2 ^ 31" using assms(1) by (simp add: KERNBASE_def word_less_nat_alt)
  then have q512: "unat a div 2 ^ 22 < 512" by (simp add: less_mult_imp_div_less)
  define q where "q = unat a div 2 ^ 22"
  have p1: "unat (PDX a) = q" "q < 512" using pd [of a] q512 by (simp_all add: q_def)
  have ub: "unat b = (q + 1) * 2 ^ 22"
  proof -
    have "b = (PDX a + 1) * 2 ^ 22" by (simp add: b_def PGADDR_def push_bit_eq_mult)
    then have "b = of_nat ((q + 1) * 2 ^ 22)" using p1(1) by (simp add: algebra_simps) (metis of_nat_unat ucast_id)
    moreover have "(q + 1) * 2 ^ 22 < 2 ^ LENGTH(32)" using p1(2) by simp
    ultimately show ?thesis by (simp only: unat_of_nat mod_less)
  qed
  show "algn 12 b" by (simp add: algn_unat ub mod_eq_0_iff_dvd)
  have "unat a = q * 2 ^ 22 + unat a mod 2 ^ 22" by (simp add: q_def)
  moreover have "unat a mod 2 ^ 22 < 2 ^ 22" by simp
  ultimately show lt: "unat a < unat b" unfolding ub by (simp add: algebra_simps)
  show "unat b \<le> 2 ^ 31" using p1(2) ub by simp
  show "PDX x = PDX a" if "a \<le> x" "x < b"
  proof -
    have "unat a div 2 ^ 22 \<le> unat x div 2 ^ 22" using that(1) by (intro div_le_mono) (simp add: word_le_nat_alt)
    moreover have "unat x div 2 ^ 22 < unat a div 2 ^ 22 + 1"
      using that(2) ub by (intro less_mult_imp_div_less) (simp add: word_less_nat_alt q_def)
    ultimately have "unat (PDX x) = unat (PDX a)" unfolding pd by linarith
    then show ?thesis by (simp add: word_unat_eq_iff)
  qed
qed

lemma rnd_ge: assumes "algn 12 a" shows "a \<le> rnd 12 x \<longleftrightarrow> a \<le> x"
proof -
  obtain k where k: "unat a = 4096 * k" using algn12E [OF assms] .
  obtain i where i: "unat (rnd 12 x) = 4096 * i" using algn12E [of "rnd 12 x"] by auto
  have "unat (rnd 12 x) = unat x - unat x mod 4096" by (simp add: unat_rnd)
  moreover have "unat x mod 4096 < 4096" "unat x mod 4096 \<le> unat x" by simp_all
  ultimately have "unat x = 4096 * i + unat x mod 4096" "unat x mod 4096 < 4096" using i by linarith+
  then show ?thesis unfolding word_le_nat_alt i k by (cases "k \<le> i") simp_all
qed

lemma rnd_le_self: "rnd 12 x \<le> x"
  using rnd_ge [of "rnd 12 x" x] by simp

lemma page_step:
  assumes "algn 12 a" "unat a + 4096 < 2 ^ 32"
  shows "a \<le> x \<longleftrightarrow> rnd 12 x = a \<or> a + PGSIZE \<le> x"
proof -
  have u: "unat (a + PGSIZE) = unat a + 4096" by (rule unat_next_page [OF assms(2)])
  have r: "rnd 12 x = a \<longleftrightarrow> unat (x - a) < 4096" using rnd_iff [OF assms(1)] by (simp add: word_less_nat_alt)
  show ?thesis unfolding r word_le_nat_alt u unat_sub32 using assms(2) unat_le32(2) [of x] by (auto split: if_splits)
qed

definition freed :: "memory \<Rightarrow> u32 \<Rightarrow> u32 \<Rightarrow> u32 \<Rightarrow> u32 set" where
  "freed m d a b = {leaf m d x |x. a \<le> x \<and> rnd 12 x < b \<and> present m d x}"

lemma below_kernbase: "rnd 12 x < b \<Longrightarrow> unat b \<le> 2 ^ 31 \<Longrightarrow> x < KERNBASE"
proof -
  assume h: "rnd 12 x < b" "unat b \<le> 2 ^ 31"
  have "algn 12 KERNBASE" by (simp add: algn_unat KERNBASE_def)
  moreover have "\<not> KERNBASE \<le> rnd 12 x" using h by (simp add: KERNBASE_def word_le_nat_alt word_less_nat_alt)
  ultimately show ?thesis using rnd_ge [of KERNBASE x] by simp
qed

definition shrunk :: "u32 \<Rightarrow> u32 \<Rightarrow> u32 \<Rightarrow> u32 \<Rightarrow> kmem \<Rightarrow> u32 list \<Rightarrow> kmem \<Rightarrow> u32 list \<Rightarrow> bool" where
  "shrunk kend d a b s ps s' ps' \<longleftrightarrow>
     um_wf kend s' ps' d \<and> foot (mem s') d = foot (mem s) d \<and> use_lock s' = use_lock s \<and>
     (\<forall>x. pte (mem s') d x = (if a \<le> x \<and> rnd 12 x < b \<and> present (mem s) d x then 0 else pte (mem s) d x)) \<and>
     (\<exists>qs. ps' = qs @ ps \<and> set qs = freed (mem s) d a b) \<and>
     (\<forall>x. rnd 12 x \<notin> foot (mem s) d \<union> freed (mem s) d a b \<longrightarrow> mem s' x = mem s x)"

lemma shrunk_skip:
  assumes "shrunk kend d a' b s ps s' ps'"
    and "\<And>x. rnd 12 x < b \<Longrightarrow> present (mem s) d x \<Longrightarrow> a \<le> x \<longleftrightarrow> a' \<le> x"
  shows "shrunk kend d a b s ps s' ps'"
proof -
  have f: "freed (mem s) d a b = freed (mem s) d a' b" using assms(2) by (auto simp: freed_def)
  have c: "(a \<le> x \<and> rnd 12 x < b \<and> present (mem s) d x) = (a' \<le> x \<and> rnd 12 x < b \<and> present (mem s) d x)" for x
    using assms(2) by blast
  show ?thesis using assms(1) unfolding shrunk_def f c .
qed

lemma shrunk_page:
  assumes a: "algn 12 a" "unat a + 4096 < 2 ^ 32" "a < b" "present (mem s) d a"
    and s2: "pmap (mem s2) d = pupd (pmap (mem s) d) a 0" "foot (mem s2) d = foot (mem s) d" "use_lock s2 = use_lock s"
      "\<And>x. rnd 12 x \<notin> insert (leaf (mem s) d a) (foot (mem s) d) \<Longrightarrow> mem s2 x = mem s x"
    and g: "shrunk kend d (a + PGSIZE) b s2 (leaf (mem s) d a # ps) s' ps'"
  shows "shrunk kend d a b s ps s' ps'"
proof -
  have ra: "rnd 12 a = a" by (rule rnd_id [OF a(1)])
  note st = page_step [OF a(1,2)]
  have nx: "\<not> (a + PGSIZE \<le> x)" if "rnd 12 x = a" for x
    using that rnd_ge [OF algn_next [OF a(1)], of x] unat_next_page [OF a(2)] by (auto simp: word_le_nat_alt)
  have p2: "pte (mem s2) d x = (if rnd 12 x = a then 0 else pte (mem s) d x)" for x
    using pte_pupd [OF s2(1)] ra by simp
  have e: "present (mem s2) d x = present (mem s) d x" "leaf (mem s2) d x = leaf (mem s) d x" if "a + PGSIZE \<le> x" for x
    using p2 [of x] nx [of x] that by (auto simp: present_def leaf_def)
  have la: "present (mem s) d x" "leaf (mem s) d x = leaf (mem s) d a" if "rnd 12 x = a" for x
    using pte_page [of x a "mem s" d] that ra a(4) by (simp_all add: present_def leaf_def)
  have f: "freed (mem s) d a b = insert (leaf (mem s) d a) (freed (mem s2) d (a + PGSIZE) b)"
  proof (intro equalityI subsetI)
    fix p assume "p \<in> freed (mem s) d a b"
    then obtain x where x: "p = leaf (mem s) d x" "a \<le> x" "rnd 12 x < b" "present (mem s) d x" by (auto simp: freed_def)
    from x(2) st have "rnd 12 x = a \<or> a + PGSIZE \<le> x" by blast
    then show "p \<in> insert (leaf (mem s) d a) (freed (mem s2) d (a + PGSIZE) b)"
      using x la e by (fastforce simp: freed_def)
  next
    fix p assume "p \<in> insert (leaf (mem s) d a) (freed (mem s2) d (a + PGSIZE) b)"
    then consider "p = leaf (mem s) d a" | x where "p = leaf (mem s2) d x" "a + PGSIZE \<le> x" "rnd 12 x < b" "present (mem s2) d x"
      by (auto simp: freed_def)
    then show "p \<in> freed (mem s) d a b"
      by cases (use a ra e st in \<open>fastforce simp: freed_def\<close>)+
  qed
  have "pte (mem s') d x = (if a \<le> x \<and> rnd 12 x < b \<and> present (mem s) d x then 0 else pte (mem s) d x)" for x
  proof (cases "rnd 12 x = a")
    case True
    then have "a \<le> x" "rnd 12 x < b" "present (mem s) d x" "\<not> a + PGSIZE \<le> x" using st a(3) la nx by auto
    then show ?thesis using g p2 True by (simp add: shrunk_def)
  next
    case False
    then show ?thesis using g p2 [of x] st [of x] e [of x] by (auto simp: shrunk_def)
  qed
  moreover obtain qs where "ps' = qs @ leaf (mem s) d a # ps" "set qs = freed (mem s2) d (a + PGSIZE) b"
    using g by (auto simp: shrunk_def)
  then have "\<exists>qs. ps' = qs @ ps \<and> set qs = freed (mem s) d a b"
    by (intro exI [of _ "qs @ [leaf (mem s) d a]"]) (simp add: f)
  moreover have "mem s' x = mem s x" if "rnd 12 x \<notin> foot (mem s) d \<union> freed (mem s) d a b" for x
    using g that s2(2) s2(4) [of x] by (auto simp: shrunk_def f)
  ultimately show ?thesis using g s2(2,3) by (simp add: shrunk_def)
qed

lemma deallocuvm_loop_ok:
  assumes "um_wf kend s ps d" "algn 12 a" "unat b \<le> 2 ^ 31"
  shows "\<exists>s' ps'. deallocuvm_loop kend d a b s = Some (Inr s') \<and> shrunk kend d a b s ps s' ps'"
  using assms
proof (induction "unat b - unat a" arbitrary: a s ps rule: less_induct)
  case less
  show ?case
  proof (cases "a < b")
    case False
    have "\<not> (a \<le> x \<and> rnd 12 x < b)" for x using False rnd_ge [OF less.prems(2), of x] by auto
    then have "shrunk kend d a b s ps s ps" using less.prems(1) by (auto simp: shrunk_def freed_def)
    moreover have "deallocuvm_loop kend d a b s = Some (Inr s)" using False by (simp add: deallocuvm_loop.simps)
    ultimately show ?thesis by blast
  next
    case True
    have ab: "unat a < unat b" using True by (simp add: word_less_nat_alt)
    have ak: "a < KERNBASE" using less.prems(3) ab by (simp add: KERNBASE_def word_less_nat_alt)
    have u: "unat a + 4096 < 2 ^ 32" using less.prems(3) ab by simp
    have lt: "unat b - unat (a + PGSIZE) < unat b - unat a" using ab unat_next_page [OF u] by simp
    note al = algn_next [OF less.prems(2)]
    show ?thesis
    proof (cases "tab (mem s) d (pdx a)")
      case None
      let ?c = "PGADDR (PDX a + 1) 0 0"
      note nd = next_dir [OF ak less.prems(2)]
      have lc: "unat b - unat ?c < unat b - unat a" using nd(2) ab by linarith
      obtain s' ps' where h: "deallocuvm_loop kend d ?c b s = Some (Inr s')" "shrunk kend d ?c b s ps s' ps'"
        using less.hyps [OF lc less.prems(1) nd(1) less.prems(3)] by blast
      have "a \<le> x \<longleftrightarrow> ?c \<le> x" if "present (mem s) d x" for x
      proof (cases "a \<le> x \<and> x < ?c")
        case True
        then have "PDX x = PDX a" using nd(4) [of x] by blast
        then show ?thesis using present_tab [OF that] None by simp
      next
        case False
        then show ?thesis using nd(2) by (auto simp: word_le_nat_alt word_less_nat_alt)
      qed
      then have "shrunk kend d a b s ps s' ps'" by (intro shrunk_skip [OF h(2)])
      moreover have "deallocuvm_loop kend d a b s = Some (Inr s')"
        using True walk_absent [OF None] h(1) by (subst deallocuvm_loop.simps) simp
      ultimately show ?thesis by blast
    next
      case (Some t)
      show ?thesis
      proof (cases "present (mem s) d a")
        case True
        from dealloc_page [OF less.prems(1) ak True] obtain pt s1 s2 where
          w: "walkpgdir d a False s = Inr (pt, s)" "pt \<noteq> 0" "load32 (mem s) pt = pte (mem s) d a"
            "PTE_ADDR (pte (mem s) d a) \<noteq> 0" "kfree kend (leaf (mem s) d a) s = Inr s1" "s2 = s1\<lparr>mem := store32 pt 0 (mem s1)\<rparr>"
          and v: "um_wf kend s2 (leaf (mem s) d a # ps) d" "foot (mem s2) d = foot (mem s) d"
            "pmap (mem s2) d = pupd (pmap (mem s) d) a 0" "use_lock s2 = use_lock s"
            "\<And>x. rnd 12 x \<notin> insert (leaf (mem s) d a) (foot (mem s) d) \<Longrightarrow> mem s2 x = mem s x" by blast
        obtain s' ps' where h: "deallocuvm_loop kend d (a + PGSIZE) b s2 = Some (Inr s')"
          "shrunk kend d (a + PGSIZE) b s2 (leaf (mem s) d a # ps) s' ps'"
          using less.hyps [OF lt v(1) al less.prems(3)] by blast
        have "deallocuvm_loop kend d a b s = Some (Inr s')"
          using \<open>a < b\<close> w h(1) True by (subst deallocuvm_loop.simps) (simp add: PTE_P_bit present_def leaf_def Let_def)
        then show ?thesis using shrunk_page [OF less.prems(2) u \<open>a < b\<close> True v(3,2,4,5) h(2)] by blast
      next
        case False
        obtain s' ps' where h: "deallocuvm_loop kend d (a + PGSIZE) b s = Some (Inr s')" "shrunk kend d (a + PGSIZE) b s ps s' ps'"
          using less.hyps [OF lt less.prems(1) al less.prems(3)] by blast
        have "\<not> present (mem s) d x" if "rnd 12 x = a" for x
          using pte_page [of x a "mem s" d] that rnd_id [OF less.prems(2)] False by (simp add: present_def)
        then have "shrunk kend d a b s ps s' ps'"
          by (intro shrunk_skip [OF h(2)]) (use page_step [OF less.prems(2) u] in blast)
        moreover have "deallocuvm_loop kend d a b s = Some (Inr s')"
        proof -
          note b = PDX_PTX_bound [of a]
          have T: "algn 12 t" "t \<noteq> 0" using pt_wfD(7) [OF um_wfD(1) [OF less.prems(1)] b(1) Some] by auto
          have "t + 4 * of_nat (ptx a) \<noteq> 0" by (rule slot(3) [OF T(1) b(2) T(2)])
          then show ?thesis using \<open>a < b\<close> walk_present [OF Some, of False] pte_tab [OF Some] False h(1)
            by (subst deallocuvm_loop.simps) (simp add: PTE_P_bit present_def)
        qed
        ultimately show ?thesis by blast
      qed
    qed
  qed
qed

lemma deallocuvm_ok:
  assumes "um_wf kend s ps d" "unat oldsz \<le> 2 ^ 31" "newsz < oldsz"
  shows "\<exists>s' ps'. deallocuvm kend d oldsz newsz s = Inr (newsz, s') \<and> shrunk kend d (PGROUNDUP newsz) oldsz s ps s' ps'"
proof -
  have "algn 12 (PGROUNDUP newsz)" by (simp add: PGROUNDUP_rnd)
  from deallocuvm_loop_ok [OF assms(1) this assms(2)] assms(3) show ?thesis
    by (auto simp: deallocuvm_def loop_res_def)
qed

section \<open>Freeing an address space\<close>

lemma freevm_tables:
  assumes w: "pt_wf kend s ps d" and n: "n \<le> 1024"
  shows "\<exists>s' us. foldR (freevm_entry kend d) [0..<n] s = Inr s' \<and> frees kend s' (us @ ps) \<and>
    set us = {t. \<exists>i<n. tab (mem s) d i = Some t} \<and> (\<forall>x. rnd 12 x \<notin> set us \<longrightarrow> mem s' x = mem s x)"
  using n
proof (induction n)
  case 0
  then show ?case using pt_wfD(1) [OF w] by simp
next
  case (Suc n)
  note W = pt_wfD [OF w]
  obtain s1 us where h: "foldR (freevm_entry kend d) [0..<n] s = Inr s1" "frees kend s1 (us @ ps)"
    "set us = {t. \<exists>i<n. tab (mem s) d i = Some t}" "\<forall>x. rnd 12 x \<notin> set us \<longrightarrow> mem s1 x = mem s x"
    using Suc by auto
  have du: "d \<notin> set us"
  proof
    assume "d \<in> set us"
    then obtain i where "i < n" "tab (mem s) d i = Some d" using h(3) by auto
    then show False using W(7) [of i d] Suc.prems by simp
  qed
  have tb: "tab (mem s1) d n = tab (mem s) d n"
    by (rule tab_cong [OF W(4)]) (use Suc.prems h(4) du in auto)
  have f: "foldR (freevm_entry kend d) [0..<Suc n] s = freevm_entry kend d n s1"
    using h(1) by (cases "freevm_entry kend d n s1") (simp_all add: foldR_append)
  show ?case
  proof (cases "tab (mem s) d n")
    case None
    then have "freevm_entry kend d n s1 = Inr s1" using tb by (auto simp: freevm_entry_def tab_def Let_def split: if_splits)
    moreover have "set us = {t. \<exists>i<Suc n. tab (mem s) d i = Some t}" using h(3) None by (auto simp: less_Suc_eq)
    ultimately show ?thesis using f h(2,4) by metis
  next
    case (Some t)
    have t: "page_ok kend t" "t \<notin> set ps" using W(7) [OF _ Some] Suc.prems by auto
    moreover have "t \<notin> set us"
    proof
      assume "t \<in> set us"
      then obtain i where "i < n" "tab (mem s) d i = Some t" using h(3) by auto
      then show False using W(8) [of i n t] Some Suc.prems by simp
    qed
    ultimately obtain s2 where s2: "kfree kend t s1 = Inr s2" "frees kend s2 (t # us @ ps)" "\<forall>x. rnd 12 x \<noteq> t \<longrightarrow> mem s2 x = mem s1 x"
      using kfree_ok [OF h(2), of t] by auto
    have "freevm_entry kend d n s1 = Inr s2"
      using tb Some s2(1) by (auto simp: freevm_entry_def tab_def Let_def split: if_splits)
    moreover have "set (t # us) = {t. \<exists>i<Suc n. tab (mem s) d i = Some t}" using h(3) Some by (auto simp: less_Suc_eq)
    moreover have "\<forall>x. rnd 12 x \<notin> set (t # us) \<longrightarrow> mem s2 x = mem s x" using s2(3) h(4) by auto
    ultimately show ?thesis using f s2(2) by (intro exI [of _ s2] exI [of _ "t # us"]) simp
  qed
qed

lemma freevm_ok:
  assumes u: "um_wf kend s ps d"
  shows "\<exists>s' qs. freevm kend d s = Inr s' \<and> frees kend s' (qs @ ps) \<and> set qs = foot (mem s) d \<union> freed (mem s) d 0 KERNBASE \<and>
    (\<forall>x. rnd 12 x \<notin> set qs \<longrightarrow> mem s' x = mem s x)"
proof -
  have "PGROUNDUP 0 = 0" by (simp add: PGROUNDUP_def PGSIZE_def)
  then obtain s1 ps1 where d: "deallocuvm kend d KERNBASE 0 s = Inr (0, s1)" "shrunk kend d 0 KERNBASE s ps s1 ps1"
    using deallocuvm_ok [OF u, of KERNBASE 0] by (auto simp: KERNBASE_def)
  obtain ls where ls: "ps1 = ls @ ps" "set ls = freed (mem s) d 0 KERNBASE" using d(2) by (auto simp: shrunk_def)
  have w1: "pt_wf kend s1 ps1 d" "foot (mem s1) d = foot (mem s) d" using d(2) by (auto simp: shrunk_def um_wf_def)
  obtain s2 us where s2: "foldR (freevm_entry kend d) [0..<NPDENTRIES] s1 = Inr s2" "frees kend s2 (us @ ps1)"
    "set us = {t. \<exists>i<1024. tab (mem s1) d i = Some t}" "\<forall>x. rnd 12 x \<notin> set us \<longrightarrow> mem s2 x = mem s1 x"
    using freevm_tables [OF w1(1), of 1024] by (auto simp: NPDENTRIES_def)
  note W = pt_wfD [OF w1(1)]
  have "d \<notin> set us" using s2(3) W(7) by auto
  then obtain s3 where s3: "kfree kend d s2 = Inr s3" "frees kend s3 (d # us @ ps1)" "\<forall>x. rnd 12 x \<noteq> d \<longrightarrow> mem s3 x = mem s2 x"
    using kfree_ok [OF s2(2) W(2)] W(3) by auto
  have us: "insert d (set us) = foot (mem s) d" using s2(3) w1(2) by (simp add: foot_def)
  have "freevm kend d s = Inr s3" using W(5) d(1) s2(1) s3(1) by (simp add: freevm_def)
  moreover have "mem s3 x = mem s x" if x: "rnd 12 x \<notin> foot (mem s) d \<union> freed (mem s) d 0 KERNBASE" for x
  proof -
    have "rnd 12 x \<noteq> d" "rnd 12 x \<notin> set us" using x us by auto
    then have "mem s3 x = mem s1 x" using s3(3) s2(4) by simp
    also have "\<dots> = mem s x" using d(2) x by (simp add: shrunk_def)
    finally show ?thesis .
  qed
  ultimately show ?thesis using s3(2) us ls by (intro exI [of _ s3] exI [of _ "d # us @ ls"]) auto
qed

end
