(* ===== verification/Sysfile.thy ===== *)
theory Sysfile
  imports File Vm
begin

text \<open>
  The system calls on files (\<open>sysfile.c\<close>), the fetching of their arguments from the memory of the calling process
  (\<open>syscall.c\<close>), and \<open>exec\<close> with \<open>loaduvm\<close> (\<open>exec.c\<close>, \<open>vm.c\<close>, \<open>elf.h\<close>). User memory is the memory of the page
  allocator seen through the page directory of the process.
\<close>

section \<open>The calling process\<close>

definition NOFILE :: nat where "NOFILE = 16"
definition MAXARG :: nat where "MAXARG = 32"

record uframe =
  tf_eax :: u32
  tf_ebx :: u32
  tf_ecx :: u32
  tf_esp :: u32
  tf_eip :: u32

text \<open>
  The fields of the running process that the system calls use. Its memory is read and written through its page directory,
  the way the processor translates addresses; an address without a page makes the kernel trap and panic.
\<close>

record ustate = ftstate +
  ofile :: "nat \<Rightarrow> nat option"
  pgdir :: u32
  usz :: u32
  tf :: uframe
  pname :: "u8 list"

definition user_addr :: "u32 \<Rightarrow> 'a ustate_scheme \<Rightarrow> u32 res" where
  "user_addr va s =
     (if present (mem (km s)) (pgdir s) va then Inr (leaf (mem (km s)) (pgdir s) va + va mod PGSIZE) else Inl (Panic ''trap''))"

definition user_load :: "u32 \<Rightarrow> 'a ustate_scheme \<Rightarrow> u8 res" where
  "user_load va s = bindR (user_addr va s) (\<lambda>a. Inr (mem (km s) a))"

fun user_bytes :: "u32 \<Rightarrow> nat \<Rightarrow> 'a ustate_scheme \<Rightarrow> u8 list res" where
  "user_bytes va 0 s = Inr []"
| "user_bytes va (Suc n) s = bindR (user_load va s) (\<lambda>b. bindR (user_bytes (va + 1) n s) (\<lambda>bs. Inr (b # bs)))"

definition user_store :: "u32 \<Rightarrow> u8 \<Rightarrow> 'a ustate_scheme \<Rightarrow> 'a ustate_scheme res" where
  "user_store va b s = bindR (user_addr va s) (\<lambda>a. Inr (s\<lparr>km := (km s)\<lparr>mem := (mem (km s))(a := b)\<rparr>\<rparr>))"

fun user_put :: "u32 \<Rightarrow> u8 list \<Rightarrow> 'a ustate_scheme \<Rightarrow> 'a ustate_scheme res" where
  "user_put va [] s = Inr s"
| "user_put va (b # bs) s = bindR (user_store va b s) (user_put (va + 1) bs)"

definition bytes32 :: "u32 \<Rightarrow> u8 list" where
  "bytes32 v = [ucast v, ucast (drop_bit 8 v), ucast (drop_bit 16 v), ucast (drop_bit 24 v)]"

definition word32 :: "u8 list \<Rightarrow> u32" where
  "word32 bs = ucast (bs ! 0) OR push_bit 8 (ucast (bs ! 1)) OR push_bit 16 (ucast (bs ! 2)) OR push_bit 24 (ucast (bs ! 3))"

section \<open>Fetching arguments\<close>

text \<open>\<open>None\<close> stands for the result -1.\<close>

definition fetchint :: "u32 \<Rightarrow> 'a ustate_scheme \<Rightarrow> u32 option res" where
  "fetchint addr s =
     (if usz s \<le> addr \<or> usz s < addr + 4 then Inr None
      else bindR (user_bytes addr 4 s) (\<lambda>bs. Inr (Some (word32 bs))))"

function fetchstr_loop :: "u32 \<Rightarrow> 'a ustate_scheme \<Rightarrow> u8 list option res" where
  "fetchstr_loop a s =
     (if a < usz s
      then bindR (user_load a s) (\<lambda>b.
           if b = 0 then Inr (Some [])
           else bindR (fetchstr_loop (a + 1) s) (\<lambda>r. Inr (case r of None \<Rightarrow> None | Some bs \<Rightarrow> Some (b # bs))))
      else Inr None)"
  by pat_completeness auto
termination
proof (relation "measure (\<lambda>(a, s). unat (usz s) - unat a)", goal_cases)
  case (2 a s b)
  then have "unat a < unat (usz s)" by (simp add: word_less_nat_alt)
  moreover have "unat (a + 1) = unat a + 1" using calculation unat_le32(2) [of "usz s"]
    by (simp add: unat_word_ariths)
  ultimately show ?case by simp
qed simp

declare fetchstr_loop.simps [simp del]

text \<open>The string found, whose length the code returns.\<close>

definition fetchstr :: "u32 \<Rightarrow> 'a ustate_scheme \<Rightarrow> u8 list option res" where
  "fetchstr addr s = (if usz s \<le> addr then Inr None else fetchstr_loop addr s)"

definition argint :: "nat \<Rightarrow> 'a ustate_scheme \<Rightarrow> u32 option res" where
  "argint n s = fetchint (tf_esp (tf s) + 4 + 4 * of_nat n) s"

definition argptr :: "nat \<Rightarrow> int \<Rightarrow> 'a ustate_scheme \<Rightarrow> u32 option res" where
  "argptr n len s =
     bindR (argint n s) (\<lambda>i. Inr (case i of None \<Rightarrow> None
       | Some i \<Rightarrow> if len < 0 \<or> usz s \<le> i \<or> usz s < i + of_int len then None else Some i))"

definition argstr :: "nat \<Rightarrow> 'a ustate_scheme \<Rightarrow> u8 list option res" where
  "argstr n s = bindR (argint n s) (\<lambda>addr. case addr of None \<Rightarrow> Inr None | Some addr \<Rightarrow> fetchstr addr s)"

section \<open>File descriptors\<close>

definition argfd :: "nat \<Rightarrow> 'a ustate_scheme \<Rightarrow> (nat \<times> nat) option res" where
  "argfd n s =
     bindR (argint n s) (\<lambda>fd. Inr (case fd of None \<Rightarrow> None
       | Some fd \<Rightarrow> if sint fd < 0 \<or> int NOFILE \<le> sint fd then None
                    else (case ofile s (unat fd) of None \<Rightarrow> None | Some f \<Rightarrow> Some (unat fd, f))))"

definition fdalloc :: "nat \<Rightarrow> 'a ustate_scheme \<Rightarrow> nat option \<times> 'a ustate_scheme" where
  "fdalloc f s =
     (case first_index (\<lambda>fd. ofile s fd = None) NOFILE of
        Some fd \<Rightarrow> (Some fd, s\<lparr>ofile := (ofile s)(fd := Some f)\<rparr>)
      | None \<Rightarrow> (None, s))"

definition sys_dup :: "'a ustate_scheme \<Rightarrow> (int \<times> 'a ustate_scheme) res" where
  "sys_dup s =
     bindR (argfd 0 s) (\<lambda>a. case a of None \<Rightarrow> Inr (-1, s)
     | Some (_, f) \<Rightarrow>
         (case fdalloc f s of (None, s1) \<Rightarrow> Inr (-1, s1)
          | (Some fd, s1) \<Rightarrow> bindR (filedup f s1) (\<lambda>(_, s2). Inr (int fd, s2))))"

definition sys_read :: "'a ustate_scheme \<Rightarrow> (int \<times> 'a ustate_scheme) res" where
  "sys_read s =
     bindR (argfd 0 s) (\<lambda>a. case a of None \<Rightarrow> Inr (-1, s)
     | Some (_, f) \<Rightarrow> bindR (argint 2 s) (\<lambda>n. case n of None \<Rightarrow> Inr (-1, s)
     | Some n \<Rightarrow> bindR (argptr 1 (sint n) s) (\<lambda>p. case p of None \<Rightarrow> Inr (-1, s)
     | Some p \<Rightarrow> bindR (fileread f (sint n) s) (\<lambda>((r, bs), s1). bindR (user_put p bs s1) (\<lambda>s2. Inr (r, s2))))))"

text \<open>The bytes to write are fetched before the call; nothing changes them while it runs.\<close>

definition sys_write :: "'a ustate_scheme \<Rightarrow> (int \<times> 'a ustate_scheme) res" where
  "sys_write s =
     bindR (argfd 0 s) (\<lambda>a. case a of None \<Rightarrow> Inr (-1, s)
     | Some (_, f) \<Rightarrow> bindR (argint 2 s) (\<lambda>n. case n of None \<Rightarrow> Inr (-1, s)
     | Some n \<Rightarrow> bindR (argptr 1 (sint n) s) (\<lambda>p. case p of None \<Rightarrow> Inr (-1, s)
     | Some p \<Rightarrow> bindR (user_bytes p (nat (sint n)) s) (\<lambda>bs. filewrite f (\<lambda>i. bs ! i) (sint n) s))))"

definition sys_close :: "u32 \<Rightarrow> 'a ustate_scheme \<Rightarrow> (int \<times> 'a ustate_scheme) res" where
  "sys_close kend s =
     bindR (argfd 0 s) (\<lambda>a. case a of None \<Rightarrow> Inr (-1, s)
     | Some (fd, f) \<Rightarrow> bindR (fileclose kend f (s\<lparr>ofile := (ofile s)(fd := None)\<rparr>)) (\<lambda>s1. Inr (0, s1)))"

text \<open>\<open>struct stat\<close> as it is laid out: the type padded to 4 bytes, three words (the link count padded, too).\<close>

definition stat_bytes :: "stat \<Rightarrow> u8 list" where
  "stat_bytes st = [ucast (st_type st), ucast (drop_bit 8 (st_type st)), 0, 0] @ bytes32 (st_dev st) @ bytes32 (st_ino st) @
     [ucast (st_nlink st), ucast (drop_bit 8 (st_nlink st)), 0, 0] @ bytes32 (st_size st)"

definition sys_fstat :: "'a ustate_scheme \<Rightarrow> (int \<times> 'a ustate_scheme) res" where
  "sys_fstat s =
     bindR (argfd 0 s) (\<lambda>a. case a of None \<Rightarrow> Inr (-1, s)
     | Some (_, f) \<Rightarrow> bindR (argptr 1 20 s) (\<lambda>p. case p of None \<Rightarrow> Inr (-1, s)
     | Some p \<Rightarrow> bindR (filestat f s) (\<lambda>((r, st), s1).
         case st of None \<Rightarrow> Inr (r, s1) | Some st \<Rightarrow> bindR (user_put p (stat_bytes st) s1) (\<lambda>s2. Inr (r, s2)))))"

section \<open>Names\<close>

definition link_bad :: "nat \<Rightarrow> 'a ustate_scheme \<Rightarrow> (int \<times> 'a ustate_scheme) res" where
  "link_bad ip s =
     bindR (ilock (Some ip) s) (\<lambda>s1.
     bindR (iupdate ip (inode_upd ip (\<lambda>x. x\<lparr>i_nlink := i_nlink x - 1\<rparr>) s1)) (\<lambda>s2.
     bindR (iunlockput ip s2) (\<lambda>s3. bindR (end_op s3) (\<lambda>s4. Inr (-1, s4)))))"

definition sys_link :: "'a ustate_scheme \<Rightarrow> (int \<times> 'a ustate_scheme) res" where
  "sys_link s =
     bindR (argstr 0 s) (\<lambda>old. case old of None \<Rightarrow> Inr (-1, s)
     | Some old \<Rightarrow> bindR (argstr 1 s) (\<lambda>new. case new of None \<Rightarrow> Inr (-1, s)
     | Some new \<Rightarrow> bindR (begin_op s) (\<lambda>s1. bindR (namei old s1) (\<lambda>(ip, s2).
       case ip of None \<Rightarrow> bindR (end_op s2) (\<lambda>s3. Inr (-1, s3))
       | Some ip \<Rightarrow> bindR (ilock (Some ip) s2) (\<lambda>s3.
         if i_type (inodes s3 ip) = T_DIR then bindR (iunlockput ip s3) (\<lambda>s4. bindR (end_op s4) (\<lambda>s5. Inr (-1, s5)))
         else bindR (iupdate ip (inode_upd ip (\<lambda>x. x\<lparr>i_nlink := i_nlink x + 1\<rparr>) s3)) (\<lambda>s4.
           bindR (iunlock (Some ip) s4) (\<lambda>s5.
           bindR (nameiparent new s5) (\<lambda>((dp, name), s6).
           case dp of None \<Rightarrow> link_bad ip s6
           | Some dp \<Rightarrow> bindR (ilock (Some dp) s6) (\<lambda>s7.
             bindR (if i_dev (inodes s7 dp) \<noteq> i_dev (inodes s7 ip) then Inr (-1, s7) else dirlink dp name (i_inum (inodes s7 ip)) s7) (\<lambda>(r, s8).
             if r < 0 then bindR (iunlockput dp s8) (link_bad ip)
             else bindR (iunlockput dp s8) (\<lambda>s9. bindR (iput ip s9) (\<lambda>s10. bindR (end_op s10) (\<lambda>s11. Inr (0, s11))))))))))))))"

function isdirempty_loop :: "nat \<Rightarrow> nat \<Rightarrow> nat \<Rightarrow> 'a fstate_scheme \<Rightarrow> (bool \<times> 'a fstate_scheme) res" where
  "isdirempty_loop sz dp off s =
     (if off < sz
      then bindR (readi dp (of_nat off) 16 s) (\<lambda>((r, bs), s1).
           if r \<noteq> 16 then Inl (Panic ''isdirempty: readi'')
           else if de_inum (dirent_of bs) \<noteq> 0 then Inr (False, s1)
           else isdirempty_loop sz dp (off + 16) s1)
      else Inr (True, s))"
  by pat_completeness auto
termination by (relation "measure (\<lambda>(sz, dp, off, s). sz - off)") auto

declare isdirempty_loop.simps [simp del]

definition isdirempty :: "nat \<Rightarrow> 'a fstate_scheme \<Rightarrow> (bool \<times> 'a fstate_scheme) res" where
  "isdirempty dp s = isdirempty_loop (unat (i_size (inodes s dp))) dp 32 s"

definition unlink_bad :: "nat \<Rightarrow> 'a ustate_scheme \<Rightarrow> (int \<times> 'a ustate_scheme) res" where
  "unlink_bad dp s = bindR (iunlockput dp s) (\<lambda>s1. bindR (end_op s1) (\<lambda>s2. Inr (-1, s2)))"

definition DOT :: u8 where "DOT = 46"

text \<open>The entry found in \<open>dp\<close> at \<open>off\<close> is taken out.\<close>

definition unlink_entry :: "nat \<Rightarrow> nat \<Rightarrow> nat \<Rightarrow> 'a ustate_scheme \<Rightarrow> (int \<times> 'a ustate_scheme) res" where
  "unlink_entry dp ip off s =
     bindR (writei dp (\<lambda>_. 0) (of_nat off) 16 s) (\<lambda>(r, s1).
     if r \<noteq> 16 then Inl (Panic ''unlink: writei'')
     else bindR (if i_type (inodes s1 ip) = T_DIR then iupdate dp (inode_upd dp (\<lambda>x. x\<lparr>i_nlink := i_nlink x - 1\<rparr>) s1) else Inr s1) (\<lambda>s2.
       bindR (iunlockput dp s2) (\<lambda>s3.
       bindR (iupdate ip (inode_upd ip (\<lambda>x. x\<lparr>i_nlink := i_nlink x - 1\<rparr>) s3)) (\<lambda>s4.
       bindR (iunlockput ip s4) (\<lambda>s5. bindR (end_op s5) (\<lambda>s6. Inr (0, s6)))))))"

definition sys_unlink :: "'a ustate_scheme \<Rightarrow> (int \<times> 'a ustate_scheme) res" where
  "sys_unlink s =
     bindR (argstr 0 s) (\<lambda>path. case path of None \<Rightarrow> Inr (-1, s)
     | Some path \<Rightarrow> bindR (begin_op s) (\<lambda>s1. bindR (nameiparent path s1) (\<lambda>((dp, name), s2).
       case dp of None \<Rightarrow> bindR (end_op s2) (\<lambda>s3. Inr (-1, s3))
       | Some dp \<Rightarrow> bindR (ilock (Some dp) s2) (\<lambda>s3.
         if namecmp name [DOT] = 0 \<or> namecmp name [DOT, DOT] = 0 then unlink_bad dp s3
         else bindR (dirlookup dp name s3) (\<lambda>(found, s4).
         case found of None \<Rightarrow> unlink_bad dp s4
         | Some (ip, off) \<Rightarrow> bindR (ilock (Some ip) s4) (\<lambda>s5.
           if sint (i_nlink (inodes s5 ip)) < 1 then Inl (Panic ''unlink: nlink < 1'')
           else bindR (if i_type (inodes s5 ip) = T_DIR then isdirempty ip s5 else Inr (True, s5)) (\<lambda>(empty, s6).
             if \<not> empty then bindR (iunlockput ip s6) (unlink_bad dp)
             else unlink_entry dp ip off s6)))))))"

definition create :: "u8 list \<Rightarrow> u16 \<Rightarrow> u16 \<Rightarrow> u16 \<Rightarrow> 'a fstate_scheme \<Rightarrow> (nat option \<times> 'a fstate_scheme) res" where
  "create path t major minor s =
     bindR (nameiparent path s) (\<lambda>((dp, name), s1).
     case dp of None \<Rightarrow> Inr (None, s1)
     | Some dp \<Rightarrow> bindR (ilock (Some dp) s1) (\<lambda>s2.
       bindR (dirlookup dp name s2) (\<lambda>(found, s3).
       case found of
         Some (ip, _) \<Rightarrow>
           bindR (iunlockput dp s3) (\<lambda>s4. bindR (ilock (Some ip) s4) (\<lambda>s5.
           if t = T_FILE \<and> i_type (inodes s5 ip) = T_FILE then Inr (Some ip, s5)
           else bindR (iunlockput ip s5) (\<lambda>s6. Inr (None, s6))))
       | None \<Rightarrow>
           bindR (ialloc (i_dev (inodes s3 dp)) t s3) (\<lambda>(ip, s4).
           bindR (ilock (Some ip) s4) (\<lambda>s5.
           bindR (iupdate ip (inode_upd ip (\<lambda>x. x\<lparr>i_major := major, i_minor := minor, i_nlink := 1\<rparr>) s5)) (\<lambda>s6.
           bindR (if t = T_DIR
                  then bindR (iupdate dp (inode_upd dp (\<lambda>x. x\<lparr>i_nlink := i_nlink x + 1\<rparr>) s6)) (\<lambda>s7.
                       bindR (dirlink ip [DOT] (i_inum (inodes s7 ip)) s7) (\<lambda>(r, s8).
                       if r < 0 then Inl (Panic ''create dots'')
                       else bindR (dirlink ip [DOT, DOT] (i_inum (inodes s8 dp)) s8) (\<lambda>(r, s9).
                       if r < 0 then Inl (Panic ''create dots'') else Inr s9)))
                  else Inr s6) (\<lambda>s10.
           bindR (dirlink dp name (i_inum (inodes s10 ip)) s10) (\<lambda>(r, s11).
           if r < 0 then Inl (Panic ''create: dirlink'')
           else bindR (iunlockput dp s11) (\<lambda>s12. Inr (Some ip, s12))))))))))"

definition O_RDONLY :: u32 where "O_RDONLY = 0"
definition O_WRONLY :: u32 where "O_WRONLY = 1"
definition O_RDWR :: u32 where "O_RDWR = 2"
definition O_CREATE :: u32 where "O_CREATE = 0x200"

text \<open>The inode to open, locked, or nothing after the transaction has been ended.\<close>

definition open_inode :: "u8 list \<Rightarrow> u32 \<Rightarrow> 'a ustate_scheme \<Rightarrow> (nat option \<times> 'a ustate_scheme) res" where
  "open_inode path omode s =
     (if omode AND O_CREATE \<noteq> 0
      then bindR (create path T_FILE 0 0 s) (\<lambda>(ip, s1).
           case ip of None \<Rightarrow> bindR (end_op s1) (\<lambda>s2. Inr (None, s2)) | Some ip \<Rightarrow> Inr (Some ip, s1))
      else bindR (namei path s) (\<lambda>(ip, s1).
           case ip of None \<Rightarrow> bindR (end_op s1) (\<lambda>s2. Inr (None, s2))
           | Some ip \<Rightarrow> bindR (ilock (Some ip) s1) (\<lambda>s2.
             if i_type (inodes s2 ip) = T_DIR \<and> omode \<noteq> O_RDONLY
             then bindR (iunlockput ip s2) (\<lambda>s3. bindR (end_op s3) (\<lambda>s4. Inr (None, s4)))
             else Inr (Some ip, s2))))"

definition open_bad :: "nat \<Rightarrow> 'a ustate_scheme \<Rightarrow> (int \<times> 'a ustate_scheme) res" where
  "open_bad ip s = bindR (iunlockput ip s) (\<lambda>s1. bindR (end_op s1) (\<lambda>s2. Inr (-1, s2)))"

definition sys_open :: "u32 \<Rightarrow> 'a ustate_scheme \<Rightarrow> (int \<times> 'a ustate_scheme) res" where
  "sys_open kend s =
     bindR (argstr 0 s) (\<lambda>path. case path of None \<Rightarrow> Inr (-1, s)
     | Some path \<Rightarrow> bindR (argint 1 s) (\<lambda>omode. case omode of None \<Rightarrow> Inr (-1, s)
     | Some omode \<Rightarrow> bindR (begin_op s) (\<lambda>s1. bindR (open_inode path omode s1) (\<lambda>(ip, s2).
       case ip of None \<Rightarrow> Inr (-1, s2)
       | Some ip \<Rightarrow> bindR (filealloc s2) (\<lambda>(f, s3).
         case f of None \<Rightarrow> open_bad ip s3
         | Some f \<Rightarrow>
           (case fdalloc f s3 of
              (None, s4) \<Rightarrow> bindR (fileclose kend f s4) (open_bad ip)
            | (Some fd, s4) \<Rightarrow>
                bindR (iunlock (Some ip) s4) (\<lambda>s5. bindR (end_op s5) (\<lambda>s6.
                Inr (int fd, file_upd f (\<lambda>x. x\<lparr>f_type := FD_INODE, f_ip := ip, f_off := 0,
                  f_readable := (omode AND O_WRONLY = 0),
                  f_writable := (omode AND O_WRONLY \<noteq> 0 \<or> omode AND O_RDWR \<noteq> 0)\<rparr>) s6)))))))))"

definition sys_mkdir :: "'a ustate_scheme \<Rightarrow> (int \<times> 'a ustate_scheme) res" where
  "sys_mkdir s =
     bindR (begin_op s) (\<lambda>s1.
     bindR (bindR (argstr 0 s1) (\<lambda>path. case path of None \<Rightarrow> Inr (None, s1) | Some path \<Rightarrow> create path T_DIR 0 0 s1)) (\<lambda>(ip, s2).
     case ip of None \<Rightarrow> bindR (end_op s2) (\<lambda>s3. Inr (-1, s3))
     | Some ip \<Rightarrow> bindR (iunlockput ip s2) (\<lambda>s3. bindR (end_op s3) (\<lambda>s4. Inr (0, s4)))))"

definition sys_mknod :: "'a ustate_scheme \<Rightarrow> (int \<times> 'a ustate_scheme) res" where
  "sys_mknod s =
     bindR (begin_op s) (\<lambda>s1.
     bindR (bindR (argstr 0 s1) (\<lambda>path. case path of None \<Rightarrow> Inr (None, s1)
            | Some path \<Rightarrow> bindR (argint 1 s1) (\<lambda>major. case major of None \<Rightarrow> Inr (None, s1)
            | Some major \<Rightarrow> bindR (argint 2 s1) (\<lambda>minor. case minor of None \<Rightarrow> Inr (None, s1)
            | Some minor \<Rightarrow> create path T_DEV (ucast major) (ucast minor) s1)))) (\<lambda>(ip, s2).
     case ip of None \<Rightarrow> bindR (end_op s2) (\<lambda>s3. Inr (-1, s3))
     | Some ip \<Rightarrow> bindR (iunlockput ip s2) (\<lambda>s3. bindR (end_op s3) (\<lambda>s4. Inr (0, s4)))))"

definition sys_chdir :: "'a ustate_scheme \<Rightarrow> (int \<times> 'a ustate_scheme) res" where
  "sys_chdir s =
     bindR (begin_op s) (\<lambda>s1.
     bindR (bindR (argstr 0 s1) (\<lambda>path. case path of None \<Rightarrow> Inr (None, s1) | Some path \<Rightarrow> namei path s1)) (\<lambda>(ip, s2).
     case ip of None \<Rightarrow> bindR (end_op s2) (\<lambda>s3. Inr (-1, s3))
     | Some ip \<Rightarrow> bindR (ilock (Some ip) s2) (\<lambda>s3.
       if i_type (inodes s3 ip) \<noteq> T_DIR then bindR (iunlockput ip s3) (\<lambda>s4. bindR (end_op s4) (\<lambda>s5. Inr (-1, s5)))
       else bindR (iunlock (Some ip) s3) (\<lambda>s4.
         bindR (iput (cwd s4) s4) (\<lambda>s5. bindR (end_op s5) (\<lambda>s6. Inr (0, s6\<lparr>cwd := ip\<rparr>)))))))"

definition sys_pipe :: "u32 \<Rightarrow> 'a ustate_scheme \<Rightarrow> (int \<times> 'a ustate_scheme) res" where
  "sys_pipe kend s =
     bindR (argptr 0 8 s) (\<lambda>fd. case fd of None \<Rightarrow> Inr (-1, s)
     | Some fd \<Rightarrow> bindR (pipealloc kend s) (\<lambda>(fs, s1).
       case fs of None \<Rightarrow> Inr (-1, s1)
       | Some (rfile, wfile) \<Rightarrow>
         (case fdalloc rfile s1 of
            (None, s2) \<Rightarrow> bindR (fileclose kend rfile s2) (\<lambda>s3. bindR (fileclose kend wfile s3) (\<lambda>s4. Inr (-1, s4)))
          | (Some fd0, s2) \<Rightarrow>
            (case fdalloc wfile s2 of
               (None, s3) \<Rightarrow> bindR (fileclose kend rfile (s3\<lparr>ofile := (ofile s3)(fd0 := None)\<rparr>)) (\<lambda>s4.
                             bindR (fileclose kend wfile s4) (\<lambda>s5. Inr (-1, s5)))
             | (Some fd1, s3) \<Rightarrow> bindR (user_put fd (bytes32 (of_nat fd0)) s3) (\<lambda>s4.
                 bindR (user_put (fd + 4) (bytes32 (of_nat fd1)) s4) (\<lambda>s5. Inr (0, s5)))))))"

definition sys_make_duplicate :: "'a ustate_scheme \<Rightarrow> (int \<times> 'a ustate_scheme) res" where
  "sys_make_duplicate s =
     bindR (argstr 0 s) (\<lambda>src. case src of None \<Rightarrow> Inr (1, s) | Some src \<Rightarrow> make_duplicate (Some src) s)"

section \<open>Loading a program\<close>

definition ELF_MAGIC :: u32 where "ELF_MAGIC = 0x464C457F"
definition ELF_PROG_LOAD :: u32 where "ELF_PROG_LOAD = 1"

text \<open>The fields that are used, at their offsets in the file.\<close>

record elfhdr =
  eh_magic :: u32
  eh_entry :: u32
  eh_phoff :: u32
  eh_phnum :: u16

definition elfhdr_of :: "u8 list \<Rightarrow> elfhdr" where
  "elfhdr_of bs = \<lparr>eh_magic = word32 bs, eh_entry = word32 (drop 24 bs), eh_phoff = word32 (drop 28 bs),
     eh_phnum = ucast (bs ! 44) OR push_bit 8 (ucast (bs ! 45))\<rparr>"

record proghdr =
  ph_type :: u32
  ph_off :: u32
  ph_vaddr :: u32
  ph_filesz :: u32
  ph_memsz :: u32

definition proghdr_of :: "u8 list \<Rightarrow> proghdr" where
  "proghdr_of bs = \<lparr>ph_type = word32 bs, ph_off = word32 (drop 4 bs), ph_vaddr = word32 (drop 8 bs),
     ph_filesz = word32 (drop 16 bs), ph_memsz = word32 (drop 20 bs)\<rparr>"

partial_function (option) loaduvm_loop ::
  "u32 \<Rightarrow> u32 \<Rightarrow> nat \<Rightarrow> u32 \<Rightarrow> u32 \<Rightarrow> u32 \<Rightarrow> 'a ftstate_scheme \<Rightarrow> (int \<times> 'a ftstate_scheme) res option" where
  "loaduvm_loop pgd addr ip off sz i s =
     (if i < sz
      then case walkpgdir pgd (addr + i) False (km s) of
             Inl e \<Rightarrow> Some (Inl e)
           | Inr (pt, _) \<Rightarrow>
               if pt = 0 then Some (Inl (Panic ''loaduvm: address should exist''))
               else
                 let pa = PTE_ADDR (load32 (mem (km s)) pt); n = (if sz - i < PGSIZE then sz - i else PGSIZE) in
                 case readi ip (off + i) n s of
                   Inl e \<Rightarrow> Some (Inl e)
                 | Inr ((r, bs), s1) \<Rightarrow>
                     let s2 = s1\<lparr>km := (km s1)\<lparr>mem := poke (P2V pa) bs (mem (km s1))\<rparr>\<rparr> in
                     if of_int r \<noteq> n then Some (Inr (-1, s2))
                     else loaduvm_loop pgd addr ip off sz (i + PGSIZE) s2
      else Some (Inr (0, s)))"

definition loaduvm :: "u32 \<Rightarrow> u32 \<Rightarrow> nat \<Rightarrow> u32 \<Rightarrow> u32 \<Rightarrow> 'a ftstate_scheme \<Rightarrow> (int \<times> 'a ftstate_scheme) res" where
  "loaduvm pgd addr ip off sz s =
     (if addr mod PGSIZE \<noteq> 0 then Inl (Panic ''loaduvm: addr must be page aligned'')
      else loop_res (loaduvm_loop pgd addr ip off sz 0 s))"

text \<open>One segment: the new size, or nothing where the code goes to \<open>bad\<close>.\<close>

definition load_segment :: "u32 \<Rightarrow> u32 \<Rightarrow> nat \<Rightarrow> u32 \<Rightarrow> u32 \<Rightarrow> 'a ftstate_scheme \<Rightarrow> (u32 option \<times> 'a ftstate_scheme) res" where
  "load_segment kend pgd ip off sz s =
     bindR (readi ip off 32 s) (\<lambda>((r, bs), s1).
     if r \<noteq> 32 then Inr (None, s1)
     else let ph = proghdr_of bs in
       if ph_type ph \<noteq> ELF_PROG_LOAD then Inr (Some sz, s1)
       else if ph_memsz ph < ph_filesz ph then Inr (None, s1)
       else if ph_vaddr ph + ph_memsz ph < ph_vaddr ph then Inr (None, s1)
       else bindR (allocuvm kend pgd sz (ph_vaddr ph + ph_memsz ph) (km s1)) (\<lambda>(sz1, k).
         let s2 = s1\<lparr>km := k\<rparr> in
         if sz1 = 0 then Inr (None, s2)
         else if ph_vaddr ph mod PGSIZE \<noteq> 0 then Inr (None, s2)
         else bindR (loaduvm pgd (ph_vaddr ph) ip (ph_off ph) (ph_filesz ph) s2) (\<lambda>(r, s3).
           if r < 0 then Inr (None, s3) else Inr (Some sz1, s3))))"

fun load_segments :: "u32 \<Rightarrow> u32 \<Rightarrow> nat \<Rightarrow> nat \<Rightarrow> u32 \<Rightarrow> u32 \<Rightarrow> 'a ftstate_scheme \<Rightarrow> (u32 option \<times> 'a ftstate_scheme) res" where
  "load_segments kend pgd ip 0 off sz s = Inr (Some sz, s)"
| "load_segments kend pgd ip (Suc n) off sz s =
     bindR (load_segment kend pgd ip off sz s) (\<lambda>(sz1, s1).
     case sz1 of None \<Rightarrow> Inr (None, s1) | Some sz1 \<Rightarrow> load_segments kend pgd ip n (off + 32) sz1 s1)"

text \<open>\<open>copyout\<close> with the bytes given rather than the address they are at: they come from the old address space or the kernel stack.\<close>

lemma page_rest: "0 < unat (PGSIZE - (va - PGROUNDDOWN va))"
proof -
  have "va - PGROUNDDOWN va < PGSIZE" using rnd_diff [of 12 va] by (simp add: PGROUNDDOWN_rnd PGSIZE_def)
  then show ?thesis by (simp add: unat_gt_0)
qed

function copyout_bytes :: "u32 \<Rightarrow> u32 \<Rightarrow> u8 list \<Rightarrow> kmem \<Rightarrow> (int \<times> kmem) res" where
  "copyout_bytes pgd va bs k =
     (if bs \<noteq> []
      then let va0 = PGROUNDDOWN va in
           bindR (uva2ka pgd va0 k) (\<lambda>pa0.
           if pa0 = 0 then Inr (-1, k)
           else let n = min (length bs) (unat (PGSIZE - (va - va0))) in
                copyout_bytes pgd (va0 + PGSIZE) (drop n bs) (k\<lparr>mem := poke (pa0 + (va - va0)) (take n bs) (mem k)\<rparr>))
      else Inr (0, k))"
  by pat_completeness auto
termination by (relation "measure (\<lambda>(pgd, va, bs, k). length bs)") (auto simp: page_rest)

declare copyout_bytes.simps [simp del]

text \<open>The argument strings, from the first on: their addresses on the new stack, or nothing.\<close>

fun push_args :: "u32 \<Rightarrow> nat \<Rightarrow> u8 list list \<Rightarrow> u32 \<Rightarrow> u32 list \<Rightarrow> kmem \<Rightarrow> ((u32 \<times> u32 list) option \<times> kmem) res" where
  "push_args pgd argc [] sp ustack k = Inr (Some (sp, ustack), k)"
| "push_args pgd argc (a # as) sp ustack k =
     (if MAXARG \<le> argc then Inr (None, k)
      else let sp1 = (sp - (of_nat (length a) + 1)) AND NOT 3 in
        bindR (copyout_bytes pgd sp1 (a @ [0]) k) (\<lambda>(r, k1).
        if r < 0 then Inr (None, k1) else push_args pgd (Suc argc) as sp1 (ustack @ [sp1]) k1))"

text \<open>The part after the program has been loaded: the stack and its contents; nothing where the code goes to \<open>bad\<close>.\<close>

definition setup_stack :: "u32 \<Rightarrow> u32 \<Rightarrow> u8 list list \<Rightarrow> u32 \<Rightarrow> kmem \<Rightarrow> ((u32 \<times> u32) option \<times> kmem) res" where
  "setup_stack kend pgd argv sz k =
     (let sz = PGROUNDUP sz in
      bindR (allocuvm kend pgd sz (sz + 2 * PGSIZE) k) (\<lambda>(sz1, k1).
      if sz1 = 0 then Inr (None, k1)
      else bindR (clearpteu pgd (sz1 - 2 * PGSIZE) k1) (\<lambda>k2.
        bindR (push_args pgd 0 argv sz1 [] k2) (\<lambda>(r, k3).
        case r of None \<Rightarrow> Inr (None, k3)
        | Some (sp, args) \<Rightarrow>
            let argc = of_nat (length args);
                ustack = [0xffffffff, argc, sp - (argc + 1) * 4] @ args @ [0];
                sp1 = sp - (3 + argc + 1) * 4 in
            bindR (copyout_bytes pgd sp1 (concat (map bytes32 ustack)) k3) (\<lambda>(r, k4).
            if r < 0 then Inr (None, k4) else Inr (Some (sz1, sp1), k4))))))"

definition exec_bad :: "u32 \<Rightarrow> u32 \<Rightarrow> nat option \<Rightarrow> 'a ustate_scheme \<Rightarrow> (int \<times> 'a ustate_scheme) res" where
  "exec_bad kend pgd ip s =
     bindR (if pgd \<noteq> 0 then bindR (freevm kend pgd (km s)) (\<lambda>k. Inr (s\<lparr>km := k\<rparr>)) else Inr s) (\<lambda>s1.
     case ip of None \<Rightarrow> Inr (-1, s1)
     | Some ip \<Rightarrow> bindR (iunlockput ip s1) (\<lambda>s2. bindR (end_op s2) (\<lambda>s3. Inr (-1, s3))))"

definition basename :: "u8 list \<Rightarrow> u8 list" where
  "basename path = rev (takeWhile (\<lambda>c. c \<noteq> SLASH) (rev path))"

text \<open>The commitment to the new image, after which \<open>exec\<close> cannot fail.\<close>

definition exec_commit :: "u32 \<Rightarrow> u8 list \<Rightarrow> u32 \<Rightarrow> u32 \<Rightarrow> u32 \<Rightarrow> u32 \<Rightarrow> 'a ustate_scheme \<Rightarrow> (int \<times> 'a ustate_scheme) res" where
  "exec_commit kend path pgd sz sp eip s =
     (let oldpgdir = pgdir s;
          s1 = s\<lparr>pname := take 15 (basename path), pgdir := pgd, usz := sz, tf := (tf s)\<lparr>tf_eip := eip, tf_esp := sp\<rparr>\<rparr> in
      bindR (freevm kend oldpgdir (km s1)) (\<lambda>k. Inr (0, s1\<lparr>km := k\<rparr>)))"

definition exec :: "u32 \<Rightarrow> u32 \<Rightarrow> u8 list \<Rightarrow> u8 list list \<Rightarrow> 'a ustate_scheme \<Rightarrow> (int \<times> 'a ustate_scheme) res" where
  "exec kend kdata path argv s =
     bindR (begin_op s) (\<lambda>s1. bindR (namei path s1) (\<lambda>(ip, s2).
     case ip of None \<Rightarrow> bindR (end_op s2) (\<lambda>s3. Inr (-1, s3))
     | Some ip \<Rightarrow> bindR (ilock (Some ip) s2) (\<lambda>s3.
       bindR (readi ip 0 52 s3) (\<lambda>((r, bs), s4).
       if r \<noteq> 52 then exec_bad kend 0 (Some ip) s4
       else let elf = elfhdr_of bs in
       if eh_magic elf \<noteq> ELF_MAGIC then exec_bad kend 0 (Some ip) s4
       else bindR (setupkvm kend kdata (km s4)) (\<lambda>(pgd, k).
         let s5 = s4\<lparr>km := k\<rparr> in
         if pgd = 0 then exec_bad kend 0 (Some ip) s5
         else bindR (load_segments kend pgd ip (unat (eh_phnum elf)) (eh_phoff elf) 0 s5) (\<lambda>(sz, s6).
           case sz of None \<Rightarrow> exec_bad kend pgd (Some ip) s6
           | Some sz \<Rightarrow> bindR (iunlockput ip s6) (\<lambda>s7. bindR (end_op s7) (\<lambda>s8.
             bindR (setup_stack kend pgd argv sz (km s8)) (\<lambda>(st, k1).
             let s9 = s8\<lparr>km := k1\<rparr> in
             case st of None \<Rightarrow> exec_bad kend pgd None s9
             | Some (sz1, sp) \<Rightarrow> exec_commit kend path pgd sz1 sp (eh_entry elf) s9)))))))))"

function exec_argv :: "u32 \<Rightarrow> nat \<Rightarrow> 'a ustate_scheme \<Rightarrow> u8 list list option res" where
  "exec_argv uargv i s =
     (if MAXARG \<le> i then Inr None
      else bindR (fetchint (uargv + 4 * of_nat i) s) (\<lambda>uarg.
        case uarg of None \<Rightarrow> Inr None
        | Some uarg \<Rightarrow>
            if uarg = 0 then Inr (Some [])
            else bindR (fetchstr uarg s) (\<lambda>a. case a of None \<Rightarrow> Inr None
              | Some a \<Rightarrow> bindR (exec_argv uargv (Suc i) s) (\<lambda>r. Inr (case r of None \<Rightarrow> None | Some as \<Rightarrow> Some (a # as))))))"
  by pat_completeness auto
termination by (relation "measure (\<lambda>(u, i, s). MAXARG - i)") auto

declare exec_argv.simps [simp del]

definition sys_exec :: "u32 \<Rightarrow> u32 \<Rightarrow> 'a ustate_scheme \<Rightarrow> (int \<times> 'a ustate_scheme) res" where
  "sys_exec kend kdata s =
     bindR (argstr 0 s) (\<lambda>path. case path of None \<Rightarrow> Inr (-1, s)
     | Some path \<Rightarrow> bindR (argint 1 s) (\<lambda>uargv. case uargv of None \<Rightarrow> Inr (-1, s)
     | Some uargv \<Rightarrow> bindR (exec_argv uargv 0 s) (\<lambda>argv. case argv of None \<Rightarrow> Inr (-1, s)
     | Some argv \<Rightarrow> exec kend kdata path argv s)))"

end
