(* ===== verification/Frame.thy ===== *)
theory Frame
  imports Sysfile
begin

text \<open>
  What an operation leaves alone. \<open>yields P m\<close> says that a computation that returns satisfies \<open>P\<close>; the rules of
  the collection \<open>frame\<close> follow the structure of a program, so that each operation of the buffer cache, the log and the
  file system is shown, in whatever state it is called, to change only its own part of the state.
\<close>

section \<open>What every result satisfies\<close>

definition yields :: "('a \<Rightarrow> bool) \<Rightarrow> 'a res \<Rightarrow> bool" where
  "yields P m \<longleftrightarrow> (\<forall>x. m = Inr x \<longrightarrow> P x)"

named_theorems frame "rules that follow the structure of a program"

lemma yieldsD: "yields P m \<Longrightarrow> m = Inr x \<Longrightarrow> P x"
  by (simp add: yields_def)

lemma yields_mono: "yields P m \<Longrightarrow> (\<And>x. P x \<Longrightarrow> Q x) \<Longrightarrow> yields Q m"
  by (simp add: yields_def)

lemma yields_Inr [frame]: "P x \<Longrightarrow> yields P (Inr x)"
  by (simp add: yields_def)

lemma yields_Inl [frame]: "yields P (Inl e)"
  by (simp add: yields_def)

lemma yields_bind: "yields P m \<Longrightarrow> (\<And>t. P t \<Longrightarrow> yields Q (f t)) \<Longrightarrow> yields Q (bindR m f)"
  by (auto simp: yields_def bindR_eq_Inr)

text \<open>A part \<open>g\<close> of the state keeps its value \<open>X\<close> through a sequence of steps.\<close>

lemma yields_seq [frame]:
  "yields (\<lambda>t. g t = X) m \<Longrightarrow> (\<And>t. m = Inr t \<Longrightarrow> g t = X \<Longrightarrow> yields (\<lambda>t. g t = X) (f t)) \<Longrightarrow> yields (\<lambda>t. g t = X) (bindR m f)"
  "yields (\<lambda>t. g t = X) m \<Longrightarrow> (\<And>t. m = Inr t \<Longrightarrow> g t = X \<Longrightarrow> yields (\<lambda>(v, t). g t = X) (f1 t)) \<Longrightarrow> yields (\<lambda>(v, t). g t = X) (bindR m f1)"
  "yields (\<lambda>(v, t). g t = X) m2 \<Longrightarrow> (\<And>v t. m2 = Inr (v, t) \<Longrightarrow> g t = X \<Longrightarrow> yields (\<lambda>t. g t = X) (f3 v t)) \<Longrightarrow> yields (\<lambda>t. g t = X) (bindR m2 (case_prod f3))"
  "yields (\<lambda>(v, t). g t = X) m2 \<Longrightarrow> (\<And>v t. m2 = Inr (v, t) \<Longrightarrow> g t = X \<Longrightarrow> yields (\<lambda>(v, t). g t = X) (f2 v t)) \<Longrightarrow> yields (\<lambda>(v, t). g t = X) (bindR m2 (case_prod f2))"
  by (auto simp: yields_def bindR_eq_Inr)

lemma yields_value [frame]:
  "(\<And>x. yields Q (f x)) \<Longrightarrow> yields Q (bindR (lock_take b) f)" "(\<And>x. yields Q (f x)) \<Longrightarrow> yields Q (bindR (lock_drop b) f)"
  "(\<And>x. yields Q (f2 x)) \<Longrightarrow> yields Q (bindR (acquiresleep pid lk) f2)" "(\<And>x. yields Q (f2 x)) \<Longrightarrow> yields Q (bindR (releasesleep pid lk) f2)"
  "(\<And>x. yields Q (f3 x)) \<Longrightarrow> yields Q (bindR (of_opt e y) f3)"
  by (auto simp: yields_def bindR_eq_Inr)

lemma yields_if [frame]: "(b \<Longrightarrow> yields P m) \<Longrightarrow> (\<not> b \<Longrightarrow> yields P n) \<Longrightarrow> yields P (if b then m else n)"
  by simp

lemma yields_let [frame]: "(\<And>x. x = a \<Longrightarrow> yields P (f x)) \<Longrightarrow> yields P (let x = a in f x)"
  by simp

lemma yields_prod [frame]: "(\<And>a b. p = (a, b) \<Longrightarrow> yields P (f a b)) \<Longrightarrow> yields P (case p of (a, b) \<Rightarrow> f a b)"
  by (cases p) simp

lemma yields_prod_app [frame]: "(\<And>a b. p = (a, b) \<Longrightarrow> yields P (f a b t)) \<Longrightarrow> yields P (case_prod f p t)"
  by (cases p) simp

lemma yields_option [frame]: "(x = None \<Longrightarrow> yields P m) \<Longrightarrow> (\<And>y. x = Some y \<Longrightarrow> yields P (f y)) \<Longrightarrow> yields P (case x of None \<Rightarrow> m | Some y \<Rightarrow> f y)"
  by (cases x) simp_all

lemma yields_list [frame]: "(x = [] \<Longrightarrow> yields P m) \<Longrightarrow> (\<And>y ys. x = y # ys \<Longrightarrow> yields P (f y ys)) \<Longrightarrow> yields P (case x of [] \<Rightarrow> m | y # ys \<Rightarrow> f y ys)"
  by (cases x) simp_all

lemma yields_foldR [frame]:
  assumes "\<And>x t. g t = X \<Longrightarrow> yields (\<lambda>t. g t = X) (f x t)" "g s = X"
  shows "yields (\<lambda>t. g t = X) (foldR f xs s)"
  using assms(2)
proof (induction xs arbitrary: s)
  case Nil
  then show ?case by (simp add: yields_def)
next
  case (Cons x xs)
  show ?case unfolding foldR.simps by (rule yields_bind [OF assms(1) [OF Cons.prems]]) (rule Cons.IH)
qed

section \<open>The buffer cache changes only its own part of the state\<close>

lemma buf_upd_more [simp]: "bstate.more (buf_upd b f s) = bstate.more s" "bstate.more (modify b g s) = bstate.more s"
  by (simp_all add: buf_upd_def modify_def)

lemma idestart_more [frame]: "bstate.more s = X \<Longrightarrow> yields (\<lambda>t. bstate.more t = X) (idestart b s)"
  unfolding idestart_def by (intro frame) simp_all

lemma ideintr_more [frame]: "bstate.more s = X \<Longrightarrow> yields (\<lambda>t. bstate.more t = X) (ideintr s)"
  unfolding ideintr_def by (intro frame) simp_all

lemma iderw_pass_more: "bstate.more s = X \<Longrightarrow> yields (\<lambda>t. bstate.more t = X) (bindR (lock_drop (idelock s)) (\<lambda>l. ideintr (s\<lparr>idelock := l\<rparr>)))"
  by (intro frame) simp_all

lemma iderw_wait_more:
  assumes "iderw_wait b s = Some r"
  shows "bstate.more s = X \<longrightarrow> yields (\<lambda>t. bstate.more t = X) r"
proof (rule iderw_wait.raw_induct [where P = "\<lambda>b s r. bstate.more s = X \<longrightarrow> yields (\<lambda>t. bstate.more t = X) r", OF _ assms])
  fix f b and s :: "'a bstate_scheme" and r
  assume IH: "\<And>b s r. f b s = Some r \<Longrightarrow> bstate.more s = X \<longrightarrow> yields (\<lambda>t. bstate.more t = X) r"
    and h: "(if B_VALID (bufs s b) \<and> \<not> B_DIRTY (bufs s b) then Some (Inr s)
      else case bindR (lock_drop (idelock s)) (\<lambda>l. ideintr (s\<lparr>idelock := l\<rparr>)) of
             Inl e \<Rightarrow> Some (Inl e) | Inr s1 \<Rightarrow> f b (s1\<lparr>idelock := True\<rparr>)) = Some r"
  show "bstate.more s = X \<longrightarrow> yields (\<lambda>t. bstate.more t = X) r"
  proof
    assume x: "bstate.more s = X"
    show "yields (\<lambda>t. bstate.more t = X) r"
    proof (cases "B_VALID (bufs s b) \<and> \<not> B_DIRTY (bufs s b)")
      case True
      then show ?thesis using h x by (auto simp: yields_def)
    next
      case False
      show ?thesis
      proof (cases "bindR (lock_drop (idelock s)) (\<lambda>l. ideintr (s\<lparr>idelock := l\<rparr>))")
        case (Inl e)
        then show ?thesis using h False by (auto simp: yields_def)
      next
        case (Inr t)
        then have "f b (t\<lparr>idelock := True\<rparr>) = Some r" using h False by simp
        moreover have "bstate.more (t\<lparr>idelock := True\<rparr>) = X" using iderw_pass_more [OF x] Inr by (simp add: yields_def)
        ultimately show ?thesis using IH by blast
      qed
    qed
  qed
qed

lemma iderw_more [frame]: "bstate.more s = X \<Longrightarrow> yields (\<lambda>t. bstate.more t = X) (iderw b s)"
proof -
  have w: "yields (\<lambda>t. bstate.more t = X) (loop_res (iderw_wait b t))" if "bstate.more t = X" for t :: "'a bstate_scheme"
    using iderw_wait_more [of b t _ X] that by (cases "iderw_wait b t") (auto simp: loop_res_def yields_def)
  show "bstate.more s = X \<Longrightarrow> ?thesis" unfolding iderw_def by (intro frame w) simp_all
qed

lemma buf_acquiresleep_more [frame]: "bstate.more s = X \<Longrightarrow> yields (\<lambda>t. bstate.more t = X) (buf_acquiresleep b s)"
  unfolding buf_acquiresleep_def by (intro frame) simp_all

lemma bget_more [frame]: "bstate.more s = X \<Longrightarrow> yields (\<lambda>(b, t). bstate.more t = X) (bget dev bno s)"
  unfolding bget_def by (intro frame) simp_all

lemma bread_more [frame]: "bstate.more s = X \<Longrightarrow> yields (\<lambda>(b, t). bstate.more t = X) (bread dev bno s)"
  unfolding bread_def by (intro frame) simp_all

lemma bwrite_more [frame]: "bstate.more s = X \<Longrightarrow> yields (\<lambda>t. bstate.more t = X) (bwrite b s)"
  unfolding bwrite_def by (intro frame) simp_all

lemma brelse_more [frame]: "bstate.more s = X \<Longrightarrow> yields (\<lambda>t. bstate.more t = X) (brelse b s)"
  unfolding brelse_def by (intro frame) (simp_all add: brelse_list_def Let_def)

section \<open>The log changes only the cache and its own part\<close>

lemma lstate_more_eq: "bstate.more t = bstate.more s \<Longrightarrow> lstate.more t = lstate.more s" for s t :: "'a lstate_scheme"
  by (cases s; cases t) simp

lemma bio_lmore [frame]:
  "lstate.more s = X \<Longrightarrow> yields (\<lambda>(b, t). lstate.more t = X) (bread dev bno s)"
  "lstate.more s = X \<Longrightarrow> yields (\<lambda>t. lstate.more t = X) (bwrite b s)"
  "lstate.more s = X \<Longrightarrow> yields (\<lambda>t. lstate.more t = X) (brelse b s)"
  using bread_more [OF refl, of s dev bno] bwrite_more [OF refl, of s b] brelse_more [OF refl, of s b]
  by (auto simp: yields_def dest!: lstate_more_eq)

lemma modify_lmore [simp]: "lstate.more (modify b g s) = lstate.more s" "lstate.more (mark_dirty b s) = lstate.more s"
  by (simp_all add: modify_def mark_dirty_def buf_upd_def)

lemma write_head_lmore [frame]: "lstate.more s = X \<Longrightarrow> yields (\<lambda>t. lstate.more t = X) (write_head s)"
  unfolding write_head_def by (intro frame) simp_all

lemma write_log_one_lmore [frame]: "lstate.more s = X \<Longrightarrow> yields (\<lambda>t. lstate.more t = X) (write_log_one i s)"
  unfolding write_log_one_def by (intro frame) simp_all

lemma install_one_lmore [frame]: "lstate.more s = X \<Longrightarrow> yields (\<lambda>t. lstate.more t = X) (install_one i s)"
  unfolding install_one_def by (intro frame) simp_all

lemma commit_lmore [frame]: "lstate.more s = X \<Longrightarrow> yields (\<lambda>t. lstate.more t = X) (commit s)"
  unfolding commit_def write_log_def install_trans_def by (intro frame) simp_all

lemma log_lmore [frame]:
  "lstate.more s = X \<Longrightarrow> yields (\<lambda>t. lstate.more t = X) (begin_op s)"
  "lstate.more s = X \<Longrightarrow> yields (\<lambda>t. lstate.more t = X) (end_op s)"
  "lstate.more s = X \<Longrightarrow> yields (\<lambda>t. lstate.more t = X) (log_write b s)"
  unfolding begin_op_def end_op_def log_write_def by (intro frame; simp add: Let_def split: if_splits)+

section \<open>The file system changes only its own part\<close>

lemma fstate_more_eq: "lstate.more t = lstate.more s \<Longrightarrow> fstate.more t = fstate.more s" for s t :: "'a fstate_scheme"
  by (cases s; cases t) simp

lemma lower_fmore [frame]:
  "fstate.more s = X \<Longrightarrow> yields (\<lambda>(b, t). fstate.more t = X) (bread dev bno s)"
  "fstate.more s = X \<Longrightarrow> yields (\<lambda>t. fstate.more t = X) (brelse b s)"
  "fstate.more s = X \<Longrightarrow> yields (\<lambda>t. fstate.more t = X) (begin_op s)"
  "fstate.more s = X \<Longrightarrow> yields (\<lambda>t. fstate.more t = X) (end_op s)"
  "fstate.more s = X \<Longrightarrow> yields (\<lambda>t. fstate.more t = X) (log_write b s)"
  using bio_lmore(1) [OF refl, of s dev bno] bio_lmore(3) [OF refl, of s b] log_lmore(1,2) [OF refl, of s] log_lmore(3) [OF refl, of s b]
  by (auto simp: yields_def dest!: fstate_more_eq)

lemma upd_fmore [simp]:
  "fstate.more (modify b g s) = fstate.more s" "fstate.more (inode_upd ip f s) = fstate.more s" "fstate.more (set_addr ip k a s) = fstate.more s"
  by (simp_all add: modify_def buf_upd_def inode_upd_def set_addr_def)

lemma bzero_fmore [frame]: "fstate.more s = X \<Longrightarrow> yields (\<lambda>t. fstate.more t = X) (bzero dev bno s)"
  unfolding bzero_def by (intro frame) simp_all

lemma balloc_loop_fmore: "fstate.more s = X \<Longrightarrow> yields (\<lambda>(a, t). fstate.more t = X) (balloc_loop sz dev b s)"
proof (induction sz dev b s rule: balloc_loop.induct)
  case (1 sz dev b s)
  show ?case unfolding balloc_loop.simps [of sz dev b s] using "1.prems" by (intro frame "1.IH") auto
qed

lemma balloc_fmore [frame]: "fstate.more s = X \<Longrightarrow> yields (\<lambda>(a, t). fstate.more t = X) (balloc dev s)"
  unfolding balloc_def by (rule balloc_loop_fmore)

lemma inode_fmore [frame]:
  "fstate.more s = X \<Longrightarrow> yields (\<lambda>t. fstate.more t = X) (bfree dev b s)"
  "fstate.more s = X \<Longrightarrow> yields (\<lambda>(a, t). fstate.more t = X) (iget dev inum s)"
  "fstate.more s = X \<Longrightarrow> yields (\<lambda>t. fstate.more t = X) (iupdate ip s)"
  "fstate.more s = X \<Longrightarrow> yields (\<lambda>(a, t). fstate.more t = X) (idup ip s)"
  "fstate.more s = X \<Longrightarrow> yields (\<lambda>t. fstate.more t = X) (inode_acquiresleep ip s)"
  "fstate.more s = X \<Longrightarrow> yields (\<lambda>t. fstate.more t = X) (inode_releasesleep ip s)"
  unfolding bfree_def iget_def iupdate_def idup_def inode_acquiresleep_def inode_releasesleep_def
  by (intro frame; simp)+

lemma lock_fmore [frame]:
  "fstate.more s = X \<Longrightarrow> yields (\<lambda>t. fstate.more t = X) (ilock p s)"
  "fstate.more s = X \<Longrightarrow> yields (\<lambda>t. fstate.more t = X) (iunlock p s)"
  unfolding ilock_def iunlock_def by (intro frame; simp)+

lemma ialloc_loop_fmore: "fstate.more s = X \<Longrightarrow> yields (\<lambda>(a, t). fstate.more t = X) (ialloc_loop n dev t inum s)"
proof (induction n dev t inum s rule: ialloc_loop.induct)
  case (1 n dev t inum s)
  show ?case unfolding ialloc_loop.simps [of n dev t inum s] using "1.prems" by (intro frame "1.IH") auto
qed

lemma ialloc_fmore [frame]: "fstate.more s = X \<Longrightarrow> yields (\<lambda>(a, t). fstate.more t = X) (ialloc dev t s)"
  unfolding ialloc_def by (rule ialloc_loop_fmore)

lemma bmap_slot_fmore [frame]: "fstate.more s = X \<Longrightarrow> yields (\<lambda>(a, t). fstate.more t = X) (bmap_slot ip k s)"
  unfolding bmap_slot_def by (intro frame) simp_all

lemma bmap_fmore [frame]: "fstate.more s = X \<Longrightarrow> yields (\<lambda>(a, t). fstate.more t = X) (bmap ip bn s)"
  unfolding bmap_def by (intro frame) simp_all

lemma itrunc_fmore [frame]: "fstate.more s = X \<Longrightarrow> yields (\<lambda>t. fstate.more t = X) (itrunc ip s)"
  unfolding itrunc_def itrunc_direct_def itrunc_indirect_def by (intro frame) simp_all

lemma iput_fmore [frame]:
  "fstate.more s = X \<Longrightarrow> yields (\<lambda>t. fstate.more t = X) (iput ip s)"
  unfolding iput_def by (intro frame) simp_all

lemma iunlockput_fmore [frame]: "fstate.more s = X \<Longrightarrow> yields (\<lambda>t. fstate.more t = X) (iunlockput ip s)"
  unfolding iunlockput_def by (intro frame) simp_all

lemma readi_loop_fmore: "fstate.more s = X \<Longrightarrow> yields (\<lambda>(a, t). fstate.more t = X) (readi_loop ip off n tot s)"
proof (induction ip off n tot s rule: readi_loop.induct)
  case (1 ip off n tot s)
  show ?case unfolding readi_loop.simps [of ip off n tot s] using "1.prems" by (intro frame "1.IH") ((assumption | rule refl | simp del: readi_loop.simps)+)
qed

lemma writei_loop_fmore: "fstate.more s = X \<Longrightarrow> yields (\<lambda>t. fstate.more t = X) (writei_loop ip src off n tot s)"
proof (induction ip src off n tot s rule: writei_loop.induct)
  case (1 ip src off n tot s)
  show ?case unfolding writei_loop.simps [of ip src off n tot s] using "1.prems" by (intro frame "1.IH") ((assumption | rule refl | simp del: writei_loop.simps)+)
qed

lemma yields_dev [frame]:
  "(\<And>x. yields Q (f x)) \<Longrightarrow> yields Q (bindR (m :: (int \<times> u8 list) res) f)" "(\<And>x. yields Q (f' x)) \<Longrightarrow> yields Q (bindR (m' :: int res) f')"
  by (auto simp: yields_def bindR_eq_Inr)

lemma readi_fmore [frame]: "fstate.more s = X \<Longrightarrow> yields (\<lambda>(a, t). fstate.more t = X) (readi ip off n s)"
  unfolding readi_def by (intro frame readi_loop_fmore) simp_all

lemma writei_fmore [frame]: "fstate.more s = X \<Longrightarrow> yields (\<lambda>(a, t). fstate.more t = X) (writei ip src off n s)"
  unfolding writei_def by (intro frame writei_loop_fmore) simp_all

lemma dirlookup_loop_fmore: "fstate.more s = X \<Longrightarrow> yields (\<lambda>(a, t). fstate.more t = X) (dirlookup_loop sz dp name off s)"
proof (induction sz dp name off s rule: dirlookup_loop.induct)
  case (1 sz dp name off s)
  show ?case unfolding dirlookup_loop.simps [of sz dp name off s] using "1.prems" by (intro frame "1.IH") auto
qed

lemma dirlookup_fmore [frame]: "fstate.more s = X \<Longrightarrow> yields (\<lambda>(a, t). fstate.more t = X) (dirlookup dp name s)"
  unfolding dirlookup_def by (intro frame dirlookup_loop_fmore) simp_all

lemma dirlink_slot_fmore [frame]: "fstate.more s = X \<Longrightarrow> yields (\<lambda>(a, t). fstate.more t = X) (dirlink_slot sz dp off s)"
proof (induction sz dp off s rule: dirlink_slot.induct)
  case (1 sz dp off s)
  show ?case unfolding dirlink_slot.simps [of sz dp off s] using "1.prems" by (intro frame "1.IH") auto
qed

lemma isdirempty_loop_fmore: "fstate.more s = X \<Longrightarrow> yields (\<lambda>(a, t). fstate.more t = X) (isdirempty_loop sz dp off s)"
proof (induction sz dp off s rule: isdirempty_loop.induct)
  case (1 sz dp off s)
  show ?case unfolding isdirempty_loop.simps [of sz dp off s] using "1.prems" by (intro frame "1.IH") auto
qed

lemma isdirempty_fmore [frame]: "fstate.more s = X \<Longrightarrow> yields (\<lambda>(a, t). fstate.more t = X) (isdirempty dp s)"
  unfolding isdirempty_def by (rule isdirempty_loop_fmore)

lemma dirlink_fmore [frame]: "fstate.more s = X \<Longrightarrow> yields (\<lambda>(a, t). fstate.more t = X) (dirlink dp name inum s)"
  unfolding dirlink_def by (intro frame) simp_all

lemma namex_loop_fmore: "fstate.more s = X \<Longrightarrow> yields (\<lambda>(a, t). fstate.more t = X) (namex_loop np ip path nm s)"
proof (induction np ip path nm s rule: namex_loop.induct)
  case (1 np ip path nm s)
  show ?case unfolding namex_loop.simps [of np ip path nm s] using "1.prems" by (intro frame "1.IH") auto
qed

lemma names_fmore [frame]:
  "fstate.more s = X \<Longrightarrow> yields (\<lambda>(a, t). fstate.more t = X) (namei path s)"
  "fstate.more s = X \<Longrightarrow> yields (\<lambda>(a, t). fstate.more t = X) (nameiparent path s)"
  unfolding namei_def nameiparent_def namex_def by (intro frame namex_loop_fmore; simp)+

lemma create_fmore [frame]: "fstate.more s = X \<Longrightarrow> yields (\<lambda>(a, t). fstate.more t = X) (create path t mj mn s)"
  unfolding create_def by (intro frame) simp_all

end
