(* ===== verification/VmUser.thy ===== *)
theory VmUser
  imports Vm
begin

text \<open>
  User memory: growing a process (\<open>allocuvm\<close>), the kernel part of every directory (\<open>setupkvm\<close>) and copying
  an address space for \<open>fork\<close> (\<open>copyuvm\<close>). Each of them either does all of its work or gives every page back;
  the invariants \<open>grown\<close>, \<open>kbuilt\<close> and \<open>copied\<close> describe the state after some of the pages.
\<close>

section \<open>Mapping one page\<close>

lemma map_page:
  assumes w: "pt_wf kend s ps d" and a: "algn 12 a" and np: "\<not> present (mem s) d a"
  shows "\<exists>r s' ps'. mappages d a PGSIZE pa perm s = Inr (r, s') \<and> grew kend d s ps s' ps' \<and>
    (r = 0 \<and> pmap (mem s') d = pupd (pmap (mem s) d) a (pa OR perm OR PTE_P) \<or> r = -1 \<and> pmap (mem s') d = pmap (mem s) d \<and> ps' = [])"
proof -
  have e: "PGROUNDDOWN a = a" "PGROUNDDOWN (a + PGSIZE - 1) = a"
  proof -
    have "(4095 :: u32) < 2 ^ 12" by simp
    from rnd_add [OF a this] have "rnd 12 (a + 4095) = a" by simp
    moreover have "a + PGSIZE - 1 = a + 4095" by (simp add: PGSIZE_def)
    ultimately show "PGROUNDDOWN a = a" "PGROUNDDOWN (a + PGSIZE - 1) = a"
      using rnd_id [OF a] by (simp_all only: PGROUNDDOWN_rnd)
  qed
  have "\<not> bit (pmap (mem s) d (pdx x) (ptx x)) 0" if "unat (x - a) < 4096 * Suc 0" for x
  proof -
    have "rnd 12 x = rnd 12 a" using that rnd_iff [OF a, of x] rnd_id [OF a] by (simp add: word_less_nat_alt)
    then show ?thesis using pte_page [of x a "mem s" d] np by (simp add: present_def pte_def)
  qed
  from mappages_loop_ok [OF w a _ a this, of 0 pa perm] obtain r s' ps' K where
    h: "mappages_loop d a a pa perm s = Some (Inr (r, s'))" "grew kend d s ps s' ps'"
      "pmap (mem s') d = mapped a pa perm K (pmap (mem s) d)" "r = 0 \<and> K = Suc 0 \<or> r = -1 \<and> K \<le> 0 \<and> ps' = []"
    by auto
  have "mappages d a PGSIZE pa perm s = Inr (r, s')" using h(1) by (simp add: mappages_def e loop_res_def)
  then show ?thesis using h(2-4) by auto
qed

lemma grewD:
  assumes "grew kend d s ps s' ps'"
  shows "pt_wf kend s' ps' d" "set ps' \<subseteq> set ps" "foot (mem s) d \<subseteq> foot (mem s') d" "foot (mem s') d \<subseteq> foot (mem s) d \<union> set ps"
    "\<exists>ts. ps = ts @ ps'" "rnd 12 x \<notin> foot (mem s) d \<union> set ps \<Longrightarrow> mem s' x = mem s x" "use_lock s' = use_lock s"
  using assms by (auto simp: grew_def)

text \<open>The pages of the user part.\<close>

definition leaves :: "memory \<Rightarrow> u32 \<Rightarrow> u32 set" where
  "leaves m d = {leaf m d x |x. x < KERNBASE \<and> present m d x}"

lemma um_wf_keep:
  assumes u: "um_wf kend s ps d" and g: "pt_wf kend s' ps' d" "set ps' \<subseteq> set ps" "foot (mem s') d \<subseteq> foot (mem s) d \<union> set ps"
    and p: "\<And>x. x < KERNBASE \<Longrightarrow> pte (mem s') d x = pte (mem s) d x"
  shows "um_wf kend s' ps' d"
proof -
  note U = um_wfD [OF u]
  have e: "present (mem s') d x = present (mem s) d x" "leaf (mem s') d x = leaf (mem s) d x" if "x < KERNBASE" for x
    using p [OF that] by (simp_all add: present_def leaf_def)
  show ?thesis unfolding um_wf_def
  proof (intro conjI allI impI)
    fix x assume x: "x < KERNBASE" "present (mem s') d x"
    then show "page_ok kend (leaf (mem s') d x)" "leaf (mem s') d x \<notin> set ps'" "leaf (mem s') d x \<notin> foot (mem s') d"
      using U(2) [OF x(1)] g(2,3) e [OF x(1)] by auto
  next
    fix x y assume "x < KERNBASE" "y < KERNBASE" "present (mem s') d x" "present (mem s') d y" "leaf (mem s') d x = leaf (mem s') d y"
    then show "rnd 12 x = rnd 12 y" using U(3) [of x y] e [of x] e [of y] by simp
  qed (use g U in simp_all)
qed

lemma um_wf_map:
  assumes u: "um_wf kend s ps d" and g: "pt_wf kend s' ps' d" "set ps' \<subseteq> set ps" "foot (mem s') d \<subseteq> foot (mem s) d \<union> set ps"
    and p: "pmap (mem s') d = pupd (pmap (mem s) d) a v" and q: "q = P2V (PTE_ADDR v)" "page_ok kend q" "q \<notin> set ps"
      "q \<notin> foot (mem s) d" "q \<notin> leaves (mem s) d"
  shows "um_wf kend s' ps' d"
proof -
  note U = um_wfD [OF u]
  have pt: "pte (mem s') d x = (if rnd 12 x = rnd 12 a then v else pte (mem s) d x)" for x by (rule pte_pupd [OF p])
  have lf: "leaf (mem s') d x = (if rnd 12 x = rnd 12 a then q else leaf (mem s) d x)" for x by (simp add: leaf_def pt q(1))
  have pr: "present (mem s) d x" if "present (mem s') d x" "rnd 12 x \<noteq> rnd 12 a" for x using that by (simp add: present_def pt)
  show ?thesis unfolding um_wf_def
  proof (intro conjI allI impI)
    fix x assume x: "x < KERNBASE" "present (mem s') d x"
    then show "page_ok kend (leaf (mem s') d x)" "leaf (mem s') d x \<notin> set ps'" "leaf (mem s') d x \<notin> foot (mem s') d"
      using U(2) [OF x(1)] pr [OF x(2)] lf [of x] q(2,3,4) g(2,3) by (auto split: if_splits)
  next
    fix x y assume h: "x < KERNBASE" "y < KERNBASE" "present (mem s') d x" "present (mem s') d y" "leaf (mem s') d x = leaf (mem s') d y"
    have "leaf (mem s) d z \<noteq> q" if "z < KERNBASE" "present (mem s) d z" for z using q(5) that by (auto simp: leaves_def)
    then show "rnd 12 x = rnd 12 y"
      using U(3) [OF h(1,2)] pr [OF h(3)] pr [OF h(4)] lf [of x] lf [of y] h by metis
  qed (use g U in simp_all)
qed

lemma take_page:
  assumes u: "um_wf kend s (p # ps) d"
  shows "\<exists>s1. kalloc s = Inr (p, s1) \<and> mem s1 = mem s \<and> use_lock s1 = use_lock s \<and> page_ok kend p \<and> p \<notin> set ps \<and> p \<notin> foot (mem s) d \<and>
    p \<notin> leaves (mem s) d \<and> (\<forall>m'. (\<forall>x. rnd 12 x \<noteq> p \<longrightarrow> m' x = mem s x) \<longrightarrow>
      um_wf kend (s1\<lparr>mem := m'\<rparr>) ps d \<and> pmap m' d = pmap (mem s) d \<and> foot m' d = foot (mem s) d)"
proof -
  note U = um_wfD [OF u] note W = pt_wfD [OF U(1)]
  obtain s1 where s1: "s1 = s\<lparr>freelist := load32 (mem s) p\<rparr>" "kalloc s = Inr (p, s1)" "frees kend s1 ps"
    using kalloc_some [OF W(1)] by blast
  have p: "page_ok kend p" "p \<notin> set ps" using W(1) by (auto simp: frees_def)
  have pf: "p \<notin> foot (mem s) d"
  proof
    assume "p \<in> foot (mem s) d"
    then consider "p = d" | i where "i < 1024" "tab (mem s) d i = Some p" by (auto simp: foot_def)
    then show False using W(3) W(7) [of _ p] by cases simp_all
  qed
  have pl: "p \<notin> leaves (mem s) d"
  proof
    assume "p \<in> leaves (mem s) d"
    then obtain x where "x < KERNBASE" "present (mem s) d x" "p = leaf (mem s) d x" unfolding leaves_def by blast
    then show False using U(2) [of x] by simp
  qed
  have w1: "pt_wf kend s1 ps d" using U(1) s1(1,3) by (simp add: pt_wf_def)
  have u1: "um_wf kend s1 ps d"
  proof (rule um_wf_keep [OF u w1])
    show "set ps \<subseteq> set (p # ps)" by auto
    show "foot (mem s1) d \<subseteq> foot (mem s) d \<union> set (p # ps)" using s1(1) by auto
  qed (use s1(1) in simp_all)
  have "um_wf kend (s1\<lparr>mem := m'\<rparr>) ps d \<and> pmap m' d = pmap (mem s) d \<and> foot m' d = foot (mem s) d"
    if m: "\<forall>x. rnd 12 x \<noteq> p \<longrightarrow> m' x = mem s x" for m'
  proof -
    have mf: "m' x = mem s x" if "rnd 12 x \<in> foot (mem s) d" for x using m that pf by metis
    have pm: "pmap m' d = pmap (mem s) d" by (rule pmap_cong [OF U(1) mf])
    have ft: "foot m' d = foot (mem s) d" by (rule foot_cong [OF W(4)]) (use mf in \<open>simp add: foot_def\<close>)
    have "pt_wf kend (s1\<lparr>mem := m'\<rparr>) ps d"
    proof (rule pt_wf_cong [OF w1])
      fix x assume "rnd 12 x \<in> insert d (set ps)"
      then have "rnd 12 x \<noteq> p" using p(2) W(3) by auto
      then show "mem (s1\<lparr>mem := m'\<rparr>) x = mem s1 x" using m s1(1) by simp
    qed (use s1(3) in \<open>simp_all add: frees_def\<close>)
    then have "um_wf kend (s1\<lparr>mem := m'\<rparr>) ps d"
      by (rule um_wf_keep [OF u1]) (use ft pte_eqI [OF pm] s1(1) in simp_all)
    then show ?thesis using pm ft by simp
  qed
  moreover have "mem s1 = mem s" "use_lock s1 = use_lock s" using s1(1) by simp_all
  ultimately show ?thesis using s1(2) p pf pl by blast
qed

section \<open>Growing user memory\<close>

text \<open>
  From \<open>s0\<close>, the pages of the addresses between \<open>a\<close> and \<open>b\<close> have been given zeroed pages of
  the free list; nothing else is mapped differently.
\<close>

definition fresh :: "memory \<Rightarrow> u32 \<Rightarrow> u32 list \<Rightarrow> u32 \<Rightarrow> bool" where
  "fresh m d ps x \<longleftrightarrow> pte m d x = V2P (leaf m d x) OR (PTE_W OR PTE_U) OR PTE_P \<and> leaf m d x \<in> set ps \<and>
     (\<forall>y. rnd 12 y = leaf m d x \<longrightarrow> m y = 0)"

definition grown :: "u32 \<Rightarrow> u32 \<Rightarrow> u32 \<Rightarrow> u32 \<Rightarrow> kmem \<Rightarrow> u32 list \<Rightarrow> kmem \<Rightarrow> u32 list \<Rightarrow> bool" where
  "grown kend d a b s0 ps0 s ps \<longleftrightarrow> um_wf kend s ps d \<and> set ps \<subseteq> set ps0 \<and>
     foot (mem s0) d \<subseteq> foot (mem s) d \<and> foot (mem s) d \<subseteq> foot (mem s0) d \<union> set ps0 \<and>
     (\<forall>x. \<not> (a \<le> x \<and> rnd 12 x < b) \<longrightarrow> pte (mem s) d x = pte (mem s0) d x) \<and>
     (\<forall>x. a \<le> x \<and> rnd 12 x < b \<longrightarrow> fresh (mem s) d ps0 x) \<and>
     (\<forall>x. rnd 12 x \<notin> foot (mem s0) d \<union> set ps0 \<longrightarrow> mem s x = mem s0 x)"

text \<open>Every page of the original free list is still free, or a table page, or mapped, or in \<open>Q\<close>.\<close>

definition cover :: "memory \<Rightarrow> u32 \<Rightarrow> u32 \<Rightarrow> u32 \<Rightarrow> u32 list \<Rightarrow> u32 list \<Rightarrow> u32 set \<Rightarrow> bool" where
  "cover m d a b ps0 ps Q \<longleftrightarrow> set ps0 \<subseteq> set ps \<union> foot m d \<union> {leaf m d x |x. a \<le> x \<and> rnd 12 x < b} \<union> Q"

lemma grew_cover: "grew kend d s ps s' ps' \<Longrightarrow> set ps \<subseteq> set ps' \<union> foot (mem s') d"
  by (auto simp: grew_def)

lemma new_pte:
  assumes "page_ok kend p"
  defines "v \<equiv> V2P p OR (PTE_W OR PTE_U) OR PTE_P"
  shows "P2V (PTE_ADDR v) = p" "bit v 0" "PTE_FLAGS v = 7"
proof -
  have f: "(PTE_W OR PTE_U) OR PTE_P < 4096" "(PTE_W OR PTE_U) OR PTE_P = 7" "bit ((PTE_W OR PTE_U) OR PTE_P) 0"
    by (simp_all add: PTE_P_def PTE_W_def PTE_U_def)
  note P = pte_fields [OF V2P_algn [OF page_okD(1) [OF assms(1)]] f(1)]
  show "P2V (PTE_ADDR v) = p" "PTE_FLAGS v = 7" using P(1,2) f(2) by (simp_all add: v_def)
  show "bit v 0" using P(3) [of 0] f(3) by (simp add: v_def)
qed

lemma fresh_present: "fresh m d ps x \<Longrightarrow> present m d x"
  by (auto simp: fresh_def present_def bit_simps PTE_P_def)

lemma leaves_cong: "pmap m d = pmap m' d \<Longrightarrow> leaves m d = leaves m' d"
  using pte_eqI [of m d m'] by (simp add: leaves_def leaf_def present_def)

lemma rnd_less_next:
  assumes "algn 12 a" "unat a < 2 ^ 31"
  shows "rnd 12 x < a + PGSIZE \<longleftrightarrow> rnd 12 x < a \<or> rnd 12 x = a"
proof -
  have u: "unat a + 4096 < 2 ^ 32" using assms(2) by simp
  have "a \<le> rnd 12 x \<longleftrightarrow> rnd 12 x = a \<or> a + PGSIZE \<le> rnd 12 x"
    using page_step [OF assms(1) u, of "rnd 12 x"] by (simp add: rnd_rnd)
  moreover have "a < a + PGSIZE" using unat_next_page [OF u] by (simp add: word_less_nat_alt)
  ultimately show ?thesis by (metis leD leI)
qed

text \<open>Mapping a page taken from the free list, whose contents have been prepared.\<close>

lemma fresh_page:
  assumes u: "um_wf kend s (p # ps) d" and s1: "kalloc s = Inr (p, s1)" and m: "\<forall>x. rnd 12 x \<noteq> p \<longrightarrow> m x = mem s x"
    and a: "algn 12 a" and np: "\<not> present (mem s) d a" and f: "perm < 4096"
  obtains r s3 ps3 where "mappages d a PGSIZE (V2P p) perm (s1\<lparr>mem := m\<rparr>) = Inr (r, s3)" "um_wf kend s3 ps3 d" "r = 0 \<or> r = -1"
    "\<And>x. pte (mem s3) d x = (if r = 0 \<and> rnd 12 x = a then V2P p OR perm OR PTE_P else pte (mem s) d x)"
    "r = -1 \<Longrightarrow> ps3 = []" "set ps3 \<subseteq> set ps" "foot (mem s) d \<subseteq> foot (mem s3) d" "foot (mem s3) d \<subseteq> foot (mem s) d \<union> set ps"
    "set ps \<subseteq> set ps3 \<union> foot (mem s3) d" "page_ok kend p" "p \<notin> set ps" "p \<notin> foot (mem s3) d" "p \<notin> leaves (mem s) d"
    "\<And>x. rnd 12 x \<notin> foot (mem s) d \<union> set ps \<Longrightarrow> mem s3 x = m x"
proof -
  obtain s1' where k: "kalloc s = Inr (p, s1')" "mem s1' = mem s" "page_ok kend p" "p \<notin> set ps" "p \<notin> foot (mem s) d" "p \<notin> leaves (mem s) d"
    and ch: "\<forall>m'. (\<forall>x. rnd 12 x \<noteq> p \<longrightarrow> m' x = mem s x) \<longrightarrow>
      um_wf kend (s1'\<lparr>mem := m'\<rparr>) ps d \<and> pmap m' d = pmap (mem s) d \<and> foot m' d = foot (mem s) d"
    using take_page [OF u] by blast
  have e1: "s1' = s1" using k(1) s1 by simp
  let ?s2 = "s1\<lparr>mem := m\<rparr>"
  note ch' = ch [rule_format, OF m [rule_format], unfolded e1]
  have c: "um_wf kend ?s2 ps d" "pmap m d = pmap (mem s) d" "foot m d = foot (mem s) d" using ch' by blast+
  have np2: "\<not> present (mem ?s2) d a" using np pte_eqI [OF c(2)] by (simp add: present_def)
  obtain r s3 ps3 where h: "mappages d a PGSIZE (V2P p) perm ?s2 = Inr (r, s3)" "grew kend d ?s2 ps s3 ps3"
    "r = 0 \<and> pmap (mem s3) d = pupd (pmap m d) a (V2P p OR perm OR PTE_P) \<or> r = -1 \<and> pmap (mem s3) d = pmap m d \<and> ps3 = []"
    using map_page [OF um_wfD(1) [OF c(1)] a np2, of "V2P p" perm] by auto
  note G = grewD [OF h(2)]
  have f': "perm OR PTE_P < 4096"
  proof -
    have "take_bit 12 (perm OR PTE_P) = perm OR PTE_P"
      by (rule bit_word_eqI) (auto simp: bit_simps PTE_P_def dest: small_bit [OF f])
    then have "unat (perm OR PTE_P) = unat (perm OR PTE_P) mod 2 ^ 12" using unat_take_bit [of 12 "perm OR PTE_P"] by simp
    also have "\<dots> < 4096" by simp
    finally show ?thesis by (simp add: word_less_nat_alt)
  qed
  have pa: "algn 12 p" using page_okD [OF k(3)] by simp
  have q: "p = P2V (PTE_ADDR (V2P p OR perm OR PTE_P))" using pte_fields(1) [OF V2P_algn [OF pa] f'] by simp
  have u3: "um_wf kend s3 ps3 d"
  proof (cases "r = 0")
    case True
    then have pm: "pmap (mem s3) d = pupd (pmap (mem ?s2) d) a (V2P p OR perm OR PTE_P)" using h(3) by simp
    show ?thesis by (rule um_wf_map [OF c(1) G(1,2,4) pm q k(3,4)]) (use c(3) k(5,6) leaves_cong [OF c(2)] in simp_all)
  next
    case False
    then have "pte (mem s3) d = pte (mem ?s2) d" using h(3) by (intro pte_eqI) auto
    then show ?thesis by (intro um_wf_keep [OF c(1) G(1,2,4)]) simp
  qed
  have pt: "pte (mem s3) d x = (if r = 0 \<and> rnd 12 x = a then V2P p OR perm OR PTE_P else pte (mem s) d x)" for x
  proof (cases "r = 0")
    case True
    then have pm: "pmap (mem s3) d = pupd (pmap (mem s) d) a (V2P p OR perm OR PTE_P)" using h(3) c(2) by simp
    show ?thesis using pte_pupd [OF pm] True rnd_id [OF a] by simp
  next
    case False
    then show ?thesis using h(3) c(2) pte_eqI [of "mem s3" d "mem s"] by auto
  qed
  have ff: "foot (mem s) d \<subseteq> foot (mem s3) d" "foot (mem s3) d \<subseteq> foot (mem s) d \<union> set ps" using G(3,4) c(3) by simp_all
  then have pf: "p \<notin> foot (mem s3) d" using k(4,5) by blast
  have fr: "mem s3 x = m x" if "rnd 12 x \<notin> foot (mem s) d \<union> set ps" for x using G(6) [of x] that c(3) by simp
  have r: "r = 0 \<or> r = -1" "r = -1 \<Longrightarrow> ps3 = []" using h(3) by auto
  show ?thesis by (rule that [OF h(1) u3 r(1) pt r(2) G(2) ff grew_cover [OF h(2)] k(3,4) pf k(6) fr])
qed

lemma grown_page:
  assumes g: "grown kend d a0 a s0 ps0 s (p # ps)" and a: "algn 12 a" "unat a < 2 ^ 31" "a0 \<le> a"
    and cv: "cover (mem s) d a0 a ps0 (p # ps) {}" and s1: "kalloc s = Inr (p, s1)" and np: "\<not> present (mem s) d a"
  shows "\<exists>r s3 ps3. mappages d a PGSIZE (V2P p) (PTE_W OR PTE_U) (s1\<lparr>mem := memset p 0 PGSIZE (mem s1)\<rparr>) = Inr (r, s3) \<and>
    (r = 0 \<and> grown kend d a0 (a + PGSIZE) s0 ps0 s3 ps3 \<and> cover (mem s3) d a0 (a + PGSIZE) ps0 ps3 {} \<or>
     r = -1 \<and> grown kend d a0 a s0 ps0 s3 [] \<and> cover (mem s3) d a0 a ps0 [] {p} \<and> page_ok kend p \<and> p \<in> set ps0 \<and> p \<notin> foot (mem s3) d \<and> p \<notin> leaves (mem s3) d)"
proof -
  have u: "um_wf kend s (p # ps) d" using g unfolding grown_def by blast
  have m1: "mem s1 = mem s" "page_ok kend p" using take_page [OF u] s1 by auto
  let ?m = "memset p 0 PGSIZE (mem s1)"
  have m2: "?m x = (if rnd 12 x = p then 0 else mem s x)" for x using m1 by (simp add: memset_page [OF page_okD(1)])
  have m2': "\<forall>x. rnd 12 x \<noteq> p \<longrightarrow> ?m x = mem s x" by (simp add: m2)
  have wu: "PTE_W OR PTE_U < 4096" by (simp add: PTE_W_def PTE_U_def)
  obtain r s3 ps3 where h: "mappages d a PGSIZE (V2P p) (PTE_W OR PTE_U) (s1\<lparr>mem := ?m\<rparr>) = Inr (r, s3)" and u3: "um_wf kend s3 ps3 d"
    and r: "r = 0 \<or> r = -1"
    and pt: "\<And>x. pte (mem s3) d x = (if r = 0 \<and> rnd 12 x = a then V2P p OR (PTE_W OR PTE_U) OR PTE_P else pte (mem s) d x)"
    and p3: "r = -1 \<Longrightarrow> ps3 = []" "set ps3 \<subseteq> set ps" "foot (mem s) d \<subseteq> foot (mem s3) d" "foot (mem s3) d \<subseteq> foot (mem s) d \<union> set ps"
      "set ps \<subseteq> set ps3 \<union> foot (mem s3) d"
    and pp: "page_ok kend p" "p \<notin> set ps" "p \<notin> foot (mem s3) d" "p \<notin> leaves (mem s) d"
    and fr: "\<And>x. rnd 12 x \<notin> foot (mem s) d \<union> set ps \<Longrightarrow> mem s3 x = ?m x"
    by (rule fresh_page [OF u s1 m2' a(1) np wu]) (rule that; assumption)
  have p0: "p \<in> set ps0" "set ps \<subseteq> set ps0" using g by (auto simp: grown_def)
  have z: "mem s3 y = 0" if "rnd 12 y = p" for y
  proof -
    have "rnd 12 y \<notin> foot (mem s) d \<union> set ps" using that pp(2,3) p3(3) by blast
    then show ?thesis using fr m2 that by simp
  qed
  have base: "set ps3 \<subseteq> set ps0" "foot (mem s0) d \<subseteq> foot (mem s3) d" "foot (mem s3) d \<subseteq> foot (mem s0) d \<union> set ps0"
    "\<And>x. rnd 12 x \<notin> foot (mem s0) d \<union> set ps0 \<Longrightarrow> mem s3 x = mem s0 x"
  proof -
    show "set ps3 \<subseteq> set ps0" "foot (mem s0) d \<subseteq> foot (mem s3) d" "foot (mem s3) d \<subseteq> foot (mem s0) d \<union> set ps0"
      using p3 p0 g by (auto simp: grown_def)
    fix x assume x: "rnd 12 x \<notin> foot (mem s0) d \<union> set ps0"
    then have "rnd 12 x \<notin> foot (mem s) d \<union> set ps" "rnd 12 x \<noteq> p" using p0 g by (auto simp: grown_def)
    then show "mem s3 x = mem s0 x" using fr m2 x g by (simp add: grown_def)
  qed
  have kb: "x < KERNBASE" if "rnd 12 x < a" for x using below_kernbase [OF that] a(2) by simp
  have old: "fresh (mem s3) d ps0 x" if x: "a0 \<le> x" "rnd 12 x < a" for x
  proof -
    have f: "fresh (mem s) d ps0 x" using g x unfolding grown_def by blast
    have pe: "pte (mem s3) d x = pte (mem s) d x" using pt [of x] x(2) by auto
    then have lf: "leaf (mem s3) d x = leaf (mem s) d x" by (simp add: leaf_def)
    have "leaf (mem s) d x \<notin> insert p (foot (mem s) d \<union> set ps)"
      using um_wfD(2) [OF u kb [OF x(2)] fresh_present [OF f]] by auto
    then show ?thesis using f fr m2 lf pe by (simp add: fresh_def)
  qed
  show ?thesis
  proof (cases "r = 0")
    case True
    note nv = new_pte [OF pp(1)] and ra = rnd_id [OF a(1)] and nx = rnd_less_next [OF a(1,2)]
    have lp: "leaf (mem s3) d x = p" if "rnd 12 x = a" for x using pt [of x] that True nv(1) by (simp add: leaf_def)
    have "fresh (mem s3) d ps0 x" if x: "a0 \<le> x" "rnd 12 x < a + PGSIZE" for x
      using old [OF x(1)] x(2) nx [of x] lp [of x] pt [of x] True z p0(1) by (auto simp: fresh_def)
    moreover have "pte (mem s3) d x = pte (mem s0) d x" if "\<not> (a0 \<le> x \<and> rnd 12 x < a + PGSIZE)" for x
    proof -
      have "rnd 12 x \<noteq> a" "\<not> (a0 \<le> x \<and> rnd 12 x < a)" using that nx [of x] a(3) rnd_le_self [of x] by auto
      then show ?thesis using pt [of x] g unfolding grown_def by simp
    qed
    ultimately have "grown kend d a0 (a + PGSIZE) s0 ps0 s3 ps3" unfolding grown_def using u3 base by blast
    moreover have "cover (mem s3) d a0 (a + PGSIZE) ps0 ps3 {}"
    proof -
      have "leaf (mem s) d x = leaf (mem s3) d x" if "rnd 12 x < a" for x using pt [of x] that by (auto simp: leaf_def)
      then have "{leaf (mem s) d x |x. a0 \<le> x \<and> rnd 12 x < a} \<subseteq> {leaf (mem s3) d x |x. a0 \<le> x \<and> rnd 12 x < a + PGSIZE}"
        using nx by auto
      moreover have "p \<in> {leaf (mem s3) d x |x. a0 \<le> x \<and> rnd 12 x < a + PGSIZE}"
        using lp [of a] ra a(3) nx [of a] by (auto intro!: exI [of _ a])
      ultimately show ?thesis using cv p3(3,5) unfolding cover_def by (simp, blast)
    qed
    ultimately show ?thesis using h True by blast
  next
    case False
    then have rm: "r = -1" "ps3 = []" using r p3(1) by auto
    have pe: "pte (mem s3) d = pte (mem s) d" using pt False by auto
    have "pte (mem s3) d x = pte (mem s0) d x" if "\<not> (a0 \<le> x \<and> rnd 12 x < a)" for x
      using g that unfolding pe grown_def by blast
    then have "grown kend d a0 a s0 ps0 s3 []" unfolding grown_def using base u3 rm(2) old by blast
    moreover have "cover (mem s3) d a0 a ps0 [] {p}"
      using cv p3(3,5) rm(2) unfolding cover_def leaf_def pe by auto
    moreover have "leaves (mem s3) d = leaves (mem s) d" unfolding leaves_def leaf_def present_def pe ..
    ultimately show ?thesis using h rm pp p0(1) by auto
  qed
qed

definition restored :: "u32 \<Rightarrow> u32 \<Rightarrow> kmem \<Rightarrow> u32 list \<Rightarrow> kmem \<Rightarrow> u32 list \<Rightarrow> bool" where
  "restored kend d s0 ps0 s ps \<longleftrightarrow> um_wf kend s ps d \<and> set ps0 \<subseteq> set ps \<union> foot (mem s) d \<and>
     (\<forall>x. present (mem s) d x = present (mem s0) d x) \<and> (\<forall>x. present (mem s0) d x \<longrightarrow> pte (mem s) d x = pte (mem s0) d x) \<and>
     (\<forall>x. rnd 12 x \<notin> foot (mem s0) d \<union> set ps0 \<longrightarrow> mem s x = mem s0 x)"

lemma grown_undo:
  assumes g: "grown kend d (PGROUNDUP oldsz) a s0 ps0 s ps" and c: "cover (mem s) d (PGROUNDUP oldsz) a ps0 ps Q"
    and z: "oldsz < newsz" "unat newsz < 2 ^ 31" "a < newsz" "algn 12 a"
    and np: "\<And>x. PGROUNDUP oldsz \<le> x \<Longrightarrow> rnd 12 x < newsz \<Longrightarrow> \<not> present (mem s0) d x"
  shows "\<exists>s' ps'. deallocuvm kend d newsz oldsz s = Inr (oldsz, s') \<and> um_wf kend s' ps' d \<and> set ps0 \<subseteq> set ps' \<union> foot (mem s') d \<union> Q \<and>
    foot (mem s') d = foot (mem s) d \<and> leaves (mem s') d \<subseteq> leaves (mem s) d \<and> set ps' \<subseteq> set ps \<union> leaves (mem s) d \<and>
     (\<forall>x. present (mem s') d x = present (mem s0) d x) \<and> (\<forall>x. present (mem s0) d x \<longrightarrow> pte (mem s') d x = pte (mem s0) d x) \<and>
     (\<forall>x. rnd 12 x \<notin> foot (mem s0) d \<union> set ps0 \<longrightarrow> mem s' x = mem s0 x)"
proof -
  let ?a0 = "PGROUNDUP oldsz"
  have u: "um_wf kend s ps d" using g by (simp add: grown_def)
  have nz: "unat newsz \<le> 2 ^ 31" using z(2) by simp
  obtain s' ps' where h: "deallocuvm kend d newsz oldsz s = Inr (oldsz, s')" "shrunk kend d ?a0 newsz s ps s' ps'"
    using deallocuvm_ok [OF u nz z(1)] by blast
  have pt: "pte (mem s') d x = (if ?a0 \<le> x \<and> rnd 12 x < newsz \<and> present (mem s) d x then 0 else pte (mem s) d x)" for x
    using h(2) unfolding shrunk_def by blast
  have out: "pte (mem s) d x = pte (mem s0) d x" if "\<not> (?a0 \<le> x \<and> rnd 12 x < a)" for x
    using g that unfolding grown_def by blast
  have inn: "fresh (mem s) d ps0 x" if "?a0 \<le> x" "rnd 12 x < a" for x using g that unfolding grown_def by blast
  have off: "pte (mem s') d x = pte (mem s0) d x" if "\<not> (?a0 \<le> x \<and> rnd 12 x < newsz)" for x
  proof -
    have "\<not> (?a0 \<le> x \<and> rnd 12 x < a)" using z(3) that by auto
    then show ?thesis using pt [of x] out [of x] that by (simp only: if_False simp_thms) (auto split: if_splits)
  qed
  have pr: "present (mem s') d x = present (mem s0) d x" for x
  proof (cases "?a0 \<le> x \<and> rnd 12 x < newsz")
    case True
    then have "\<not> present (mem s0) d x" using np by blast
    moreover have "\<not> present (mem s') d x"
      using pt [of x] True by (cases "present (mem s) d x") (simp_all add: present_def)
    ultimately show ?thesis by simp
  next
    case False
    then show ?thesis using off by (simp add: present_def)
  qed
  have ptk: "pte (mem s') d x = pte (mem s0) d x" if "present (mem s0) d x" for x
    using off np that by blast
  have fl: "freed (mem s) d ?a0 newsz \<subseteq> leaves (mem s) d"
    unfolding freed_def leaves_def using below_kernbase [OF _ nz] by blast
  have fr: "freed (mem s) d ?a0 newsz \<subseteq> set ps0"
  proof
    fix p assume "p \<in> freed (mem s) d ?a0 newsz"
    then obtain x where x: "p = leaf (mem s) d x" "?a0 \<le> x" "rnd 12 x < newsz" "present (mem s) d x" by (auto simp: freed_def)
    have "rnd 12 x < a"
    proof (rule ccontr)
      assume "\<not> rnd 12 x < a"
      then have "present (mem s0) d x" using out [of x] x(4) by (simp add: present_def)
      then show False using np x by blast
    qed
    then show "p \<in> set ps0" using inn [OF x(2)] x(1) by (simp add: fresh_def)
  qed
  have cv: "set ps0 \<subseteq> set ps' \<union> foot (mem s') d \<union> Q"
  proof -
    have "{leaf (mem s) d x |x. ?a0 \<le> x \<and> rnd 12 x < a} \<subseteq> freed (mem s) d ?a0 newsz"
      unfolding freed_def using inn fresh_present z(3) by fastforce
    moreover obtain qs where "ps' = qs @ ps" "set qs = freed (mem s) d ?a0 newsz" using h(2) by (auto simp: shrunk_def)
    ultimately show ?thesis using c h(2) unfolding cover_def shrunk_def by auto
  qed
  have "mem s' x = mem s0 x" if "rnd 12 x \<notin> foot (mem s0) d \<union> set ps0" for x
  proof -
    have "mem s x = mem s0 x" "rnd 12 x \<notin> foot (mem s) d" using g that unfolding grown_def by auto
    moreover have "rnd 12 x \<notin> freed (mem s) d ?a0 newsz" using fr that by auto
    ultimately show ?thesis using h(2) unfolding shrunk_def by auto
  qed
  moreover have "leaves (mem s') d \<subseteq> leaves (mem s) d"
  proof
    fix p assume "p \<in> leaves (mem s') d"
    then obtain x where x: "p = leaf (mem s') d x" "x < KERNBASE" "present (mem s') d x" unfolding leaves_def by blast
    then have "pte (mem s') d x = pte (mem s) d x" using pt [of x] by (auto simp: present_def split: if_splits)
    then show "p \<in> leaves (mem s) d" using x unfolding leaves_def leaf_def present_def by auto
  qed
  moreover have "set ps' \<subseteq> set ps \<union> leaves (mem s) d" "foot (mem s') d = foot (mem s) d" "um_wf kend s' ps' d"
    using h(2) fl unfolding shrunk_def by auto
  ultimately show ?thesis using h(1) cv pr ptk by blast
qed

lemma um_wf_free:
  assumes u: "um_wf kend s ps d" and p: "page_ok kend p" "p \<notin> set ps" "p \<notin> foot (mem s) d" "p \<notin> leaves (mem s) d"
  shows "\<exists>t. kfree kend p s = Inr t \<and> um_wf kend t (p # ps) d \<and> pmap (mem t) d = pmap (mem s) d \<and>
    foot (mem t) d = foot (mem s) d \<and> (\<forall>x. rnd 12 x \<noteq> p \<longrightarrow> mem t x = mem s x)"
proof -
  note U = um_wfD [OF u]
  obtain t where t: "kfree kend p s = Inr t" "pt_wf kend t (p # ps) d" "pmap (mem t) d = pmap (mem s) d"
    "foot (mem t) d = foot (mem s) d" "\<forall>x. rnd 12 x \<noteq> p \<longrightarrow> mem t x = mem s x"
    using pt_wf_free [OF U(1) p(1-3)] by blast
  have e: "present (mem t) d x = present (mem s) d x" "leaf (mem t) d x = leaf (mem s) d x" for x
    using pte_eqI [OF t(3)] by (simp_all add: present_def leaf_def)
  have "um_wf kend t (p # ps) d" unfolding um_wf_def
  proof (intro conjI allI impI)
    fix x assume x: "x < KERNBASE" "present (mem t) d x"
    then have "leaf (mem s) d x \<noteq> p" using p(4) e unfolding leaves_def by blast
    then show "page_ok kend (leaf (mem t) d x)" "leaf (mem t) d x \<notin> set (p # ps)" "leaf (mem t) d x \<notin> foot (mem t) d"
      using U(2) [OF x(1)] x(2) e t(4) by auto
  next
    fix x y assume "x < KERNBASE" "y < KERNBASE" "present (mem t) d x" "present (mem t) d y" "leaf (mem t) d x = leaf (mem t) d y"
    then show "rnd 12 x = rnd 12 y" using U(3) [of x y] e by simp
  qed (use t(2) U(4) in simp_all)
  then show ?thesis using t by blast
qed

lemma range_end:
  assumes "algn 12 a" "\<not> a < b" "unat a < unat b + 4096"
  shows "rnd 12 x < a \<longleftrightarrow> rnd 12 x < b"
proof -
  obtain k where k: "unat a = 4096 * k" using algn12E [OF assms(1)] .
  obtain i where i: "unat (rnd 12 x) = 4096 * i" using algn12E [of "rnd 12 x"] by auto
  have "unat b \<le> unat a" using assms(2) by (simp add: word_less_nat_alt)
  then show ?thesis using assms(3) unfolding word_less_nat_alt i k by (cases "i < k") auto
qed

lemma grown_end:
  assumes "grown kend d a0 a s0 ps0 s ps" "algn 12 a" "\<not> a < b" "unat a < unat b + 4096"
  shows "grown kend d a0 b s0 ps0 s ps"
  using assms(1) unfolding grown_def range_end [OF assms(2-4)] .

lemma grown_refl: "um_wf kend s ps d \<Longrightarrow> algn 12 a \<Longrightarrow> grown kend d a a s ps s ps"
proof -
  assume h: "um_wf kend s ps d" "algn 12 a"
  have "\<not> (a \<le> x \<and> rnd 12 x < a)" for x using rnd_ge [OF h(2), of x] by auto
  then show ?thesis using h(1) by (auto simp: grown_def)
qed

lemma allocuvm_loop_ok:
  assumes "grown kend d (PGROUNDUP oldsz) a s0 ps0 s ps" "cover (mem s) d (PGROUNDUP oldsz) a ps0 ps {}"
    and "algn 12 a" "PGROUNDUP oldsz \<le> a" "unat a < unat newsz + 4096"
    and z: "unat newsz < 2 ^ 31" "oldsz \<le> newsz"
    and np: "\<And>x. PGROUNDUP oldsz \<le> x \<Longrightarrow> rnd 12 x < newsz \<Longrightarrow> \<not> present (mem s0) d x"
  shows "\<exists>r s' ps'. allocuvm_loop kend d a oldsz newsz s = Some (Inr (r, s')) \<and>
    (r = newsz \<and> grown kend d (PGROUNDUP oldsz) newsz s0 ps0 s' ps' \<or> r = 0 \<and> restored kend d s0 ps0 s' ps')"
  using assms(1-5)
proof (induction "unat newsz + 4096 - unat a" arbitrary: a s ps rule: less_induct)
  case less
  let ?a0 = "PGROUNDUP oldsz"
  show ?case
  proof (cases "a < newsz")
    case False
    then have "allocuvm_loop kend d a oldsz newsz s = Some (Inr (newsz, s))" by (simp add: allocuvm_loop.simps)
    then show ?thesis using grown_end [OF less.prems(1,3) False less.prems(5)] by blast
  next
    case True
    have a31: "unat a < 2 ^ 31" using True z(1) by (simp add: word_less_nat_alt)
    have "unat oldsz \<le> unat ?a0" using z by (intro PGROUNDUP_unat(1)) (simp add: word_le_nat_alt)
    then have on: "oldsz < newsz" using less.prems(4) True by (simp add: word_less_nat_alt word_le_nat_alt)
    show ?thesis
    proof (cases ps)
      case Nil
      have "um_wf kend s ps d" using less.prems(1) unfolding grown_def by blast
      then have k: "kalloc s = Inr (0, s)" using kalloc_none [of kend s] pt_wfD(1) [OF um_wfD(1)] Nil by blast
      obtain s' ps' where "deallocuvm kend d newsz oldsz s = Inr (oldsz, s')" "restored kend d s0 ps0 s' ps'"
        using grown_undo [OF less.prems(1,2) on z(1) True less.prems(3) np] unfolding restored_def by auto
      then show ?thesis using True k by (intro exI [of _ 0] exI [of _ s'] exI [of _ ps']) (simp add: allocuvm_loop.simps)
    next
      case (Cons p qs)
      note g = less.prems(1) [unfolded Cons] and c = less.prems(2) [unfolded Cons]
      obtain s1 where k: "kalloc s = Inr (p, s1)" "page_ok kend p" using take_page [of kend s p qs d] g by (auto simp: grown_def)
      have p0: "p \<noteq> 0" using page_okD(2) [OF k(2)] .
      have ra: "rnd 12 a = a" by (rule rnd_id [OF less.prems(3)])
      have npa: "\<not> present (mem s) d a"
      proof -
        have "\<not> (?a0 \<le> a \<and> rnd 12 a < a)" using ra by simp
        then have "pte (mem s) d a = pte (mem s0) d a" using g unfolding grown_def by blast
        then show ?thesis using np [OF less.prems(4)] True ra by (simp add: present_def)
      qed
      obtain r s3 ps3 where m: "mappages d a PGSIZE (V2P p) (PTE_W OR PTE_U) (s1\<lparr>mem := memset p 0 PGSIZE (mem s1)\<rparr>) = Inr (r, s3)"
        and o: "r = 0 \<and> grown kend d ?a0 (a + PGSIZE) s0 ps0 s3 ps3 \<and> cover (mem s3) d ?a0 (a + PGSIZE) ps0 ps3 {} \<or>
          r = -1 \<and> grown kend d ?a0 a s0 ps0 s3 [] \<and> cover (mem s3) d ?a0 a ps0 [] {p} \<and> page_ok kend p \<and> p \<in> set ps0 \<and>
            p \<notin> foot (mem s3) d \<and> p \<notin> leaves (mem s3) d"
        using grown_page [OF g less.prems(3) a31 less.prems(4) c k(1) npa] by blast
      show ?thesis
      proof (cases "r = 0")
        case r0: True
        have u: "unat (a + PGSIZE) = unat a + 4096" using a31 by (intro unat_next_page) simp
        have lt: "unat newsz + 4096 - unat (a + PGSIZE) < unat newsz + 4096 - unat a" using u less.prems(5) by simp
        have g3: "grown kend d ?a0 (a + PGSIZE) s0 ps0 s3 ps3" "cover (mem s3) d ?a0 (a + PGSIZE) ps0 ps3 {}" using o r0 by auto
        have le: "?a0 \<le> a + PGSIZE" "unat (a + PGSIZE) < unat newsz + 4096"
          using less.prems(4) u True by (simp_all add: word_le_nat_alt word_less_nat_alt)
        have "allocuvm_loop kend d a oldsz newsz s = allocuvm_loop kend d (a + PGSIZE) oldsz newsz s3"
          using True k(1) p0 m r0 by (subst allocuvm_loop.simps) simp
        then show ?thesis using less.hyps [OF lt g3 algn_next [OF less.prems(3)] le] by simp
      next
        case False
        then have r: "r = -1" and g3: "grown kend d ?a0 a s0 ps0 s3 []" "cover (mem s3) d ?a0 a ps0 [] {p}"
          and p: "p \<in> set ps0" "p \<notin> foot (mem s3) d" "p \<notin> leaves (mem s3) d" using o by auto
        obtain s4 ps4 where u4: "deallocuvm kend d newsz oldsz s3 = Inr (oldsz, s4)" "um_wf kend s4 ps4 d"
          "set ps0 \<subseteq> set ps4 \<union> foot (mem s4) d \<union> {p}" "foot (mem s4) d = foot (mem s3) d" "leaves (mem s4) d \<subseteq> leaves (mem s3) d"
          "set ps4 \<subseteq> set [] \<union> leaves (mem s3) d" "\<forall>x. present (mem s4) d x = present (mem s0) d x"
          "\<forall>x. present (mem s0) d x \<longrightarrow> pte (mem s4) d x = pte (mem s0) d x"
          "\<forall>x. rnd 12 x \<notin> foot (mem s0) d \<union> set ps0 \<longrightarrow> mem s4 x = mem s0 x"
          using grown_undo [OF g3 on z(1) True less.prems(3) np] by blast
        have "p \<notin> set ps4" "p \<notin> foot (mem s4) d" "p \<notin> leaves (mem s4) d" using u4(4-6) p by auto
        then obtain s5 where s5: "kfree kend p s4 = Inr s5" "um_wf kend s5 (p # ps4) d" "pmap (mem s5) d = pmap (mem s4) d"
          "foot (mem s5) d = foot (mem s4) d" "\<forall>x. rnd 12 x \<noteq> p \<longrightarrow> mem s5 x = mem s4 x"
          using um_wf_free [OF u4(2) k(2)] by blast
        have pt: "pte (mem s5) d = pte (mem s4) d" by (rule pte_eqI [OF s5(3)])
        have "restored kend d s0 ps0 s5 (p # ps4)"
          unfolding restored_def present_def pt using s5(2,4,5) u4(3,7-9) p(1) by (auto simp: present_def)
        moreover have "allocuvm_loop kend d a oldsz newsz s = Some (Inr (0, s5))"
          using True k(1) p0 m r u4(1) s5(1) by (subst allocuvm_loop.simps) simp
        ultimately show ?thesis by blast
      qed
    qed
  qed
qed

lemma allocuvm_ok:
  assumes u: "um_wf kend s ps d" and z: "newsz < KERNBASE" "oldsz \<le> newsz"
    and np: "\<And>x. PGROUNDUP oldsz \<le> x \<Longrightarrow> rnd 12 x < newsz \<Longrightarrow> \<not> present (mem s) d x"
  shows "\<exists>r s' ps'. allocuvm kend d oldsz newsz s = Inr (r, s') \<and>
    (r = newsz \<and> grown kend d (PGROUNDUP oldsz) newsz s ps s' ps' \<or> r = 0 \<and> restored kend d s ps s' ps')"
proof -
  have n31: "unat newsz < 2 ^ 31" using z(1) by (simp add: KERNBASE_def word_less_nat_alt)
  have al: "algn 12 (PGROUNDUP oldsz)" by (simp add: PGROUNDUP_rnd)
  have "unat (PGROUNDUP oldsz) < unat oldsz + 4096" using n31 z(2) by (intro PGROUNDUP_unat(2)) (simp add: word_le_nat_alt)
  then have le: "unat (PGROUNDUP oldsz) < unat newsz + 4096" using z(2) by (simp add: word_le_nat_alt)
  have c: "cover (mem s) d (PGROUNDUP oldsz) (PGROUNDUP oldsz) ps ps {}" by (auto simp: cover_def)
  from allocuvm_loop_ok [OF grown_refl [OF u al] c al order_refl le n31 z(2) np] z show ?thesis
    by (auto simp: allocuvm_def loop_res_def)
qed

section \<open>Kernel mappings\<close>

text \<open>The entry every page table has for a kernel address.\<close>

definition kernel_pte :: "u32 \<Rightarrow> u32 \<Rightarrow> u32" where
  "kernel_pte kdata x =
     (if KERNBASE \<le> x \<and> x < KERNLINK then V2P (rnd 12 x) OR PTE_W OR PTE_P
      else if KERNLINK \<le> x \<and> x < kdata then V2P (rnd 12 x) OR 0 OR PTE_P
      else if kdata \<le> x \<and> x < P2V PHYSTOP then V2P (rnd 12 x) OR PTE_W OR PTE_P
      else if DEVSPACE \<le> x then rnd 12 x OR PTE_W OR PTE_P
      else 0)"

lemma in_pages_aligned:
  assumes "algn 12 va" "0 < sz" "unat va + unat sz \<le> 2 ^ 32" "algn 12 sz"
  shows "in_pages va sz x \<longleftrightarrow> unat va \<le> unat x \<and> unat x < unat va + unat sz"
proof -
  obtain n where n: "unat (PGROUNDDOWN (va + sz - 1)) = unat (PGROUNDDOWN va) + 4096 * n"
    "\<And>x. unat (x - PGROUNDDOWN va) < 4096 * Suc n \<longleftrightarrow> in_pages va sz x" using range_pages [OF assms(2,3)] by metis
  have r: "PGROUNDDOWN va = va" using rnd_id [OF assms(1)] by (simp add: PGROUNDDOWN_rnd)
  have "in_pages va sz x \<longleftrightarrow> unat va \<le> unat x \<and> unat x < unat va + unat sz" for x
  proof -
    obtain k j where k: "unat va = 4096 * k" "unat sz = 4096 * j" using algn12E [OF assms(1)] algn12E [OF assms(4)] by metis
    have z: "sz \<noteq> 0" using assms(2) by auto
    have j: "0 < j" using z k(2) by (cases j) (auto simp: unat_eq_0)
    have u: "unat (va + sz - 1) = unat va + unat sz - 1"
    proof -
      have m: "unat (sz - 1) = unat sz - 1" by (rule unat_minus1 [OF z])
      then have "unat (va + (sz - 1)) = unat va + (unat sz - 1)" using assms(3) k j by (simp add: unat_word_ariths)
      moreover have e: "va + sz - 1 = va + (sz - 1)" by (simp add: algebra_simps)
      ultimately show ?thesis unfolding e using k j by linarith
    qed
    have e: "unat (PGROUNDDOWN (va + sz - 1)) = 4096 * (k + j - 1)"
    proof -
      have "unat va + unat sz - 1 = 4096 * (k + j - 1) + 4095" using k j by (cases j) simp_all
      moreover have "(4096 * (k + j - 1) + 4095) mod 4096 = (4095 :: nat)" by simp
      ultimately show ?thesis unfolding PGROUNDDOWN_rnd by (simp add: unat_rnd u)
    qed
    have "unat (PGROUNDDOWN x) \<le> 4096 * (k + j - 1) \<longleftrightarrow> unat x < 4096 * (k + j)"
    proof -
      have "unat (PGROUNDDOWN x) = unat x - unat x mod 4096" by (simp add: PGROUNDDOWN_rnd unat_rnd)
      moreover obtain i where i: "unat (PGROUNDDOWN x) = 4096 * i" using algn12E [of "PGROUNDDOWN x"] by (auto simp: PGROUNDDOWN_rnd)
      moreover have "unat x mod 4096 < 4096" "unat x mod 4096 \<le> unat x" by simp_all
      ultimately have "unat x = 4096 * i + unat x mod 4096" "unat x mod 4096 < 4096" by linarith+
      then show ?thesis unfolding i using j by (cases "i < k + j") auto
    qed
    then show ?thesis unfolding in_pages_def word_le_nat_alt e r k by (simp add: distrib_left)
  qed
  then show ?thesis .
qed

text \<open>A page table without user pages, built from pages of the free list \<open>ps0\<close>.\<close>

definition kbuilt :: "u32 \<Rightarrow> u32 \<Rightarrow> kmem \<Rightarrow> u32 list \<Rightarrow> kmem \<Rightarrow> u32 list \<Rightarrow> bool" where
  "kbuilt kend d s0 ps0 s ps \<longleftrightarrow> um_wf kend s ps d \<and> (\<forall>x<KERNBASE. pte (mem s) d x = 0) \<and>
     set ps0 = set ps \<union> foot (mem s) d \<and> (\<forall>x. rnd 12 x \<notin> set ps0 \<longrightarrow> mem s x = mem s0 x)"

lemma kbuilt_map:
  assumes b: "kbuilt kend d s0 ps0 s ps" and v: "algn 12 va" "algn 12 sz" "0 < sz" "unat va + unat sz \<le> 2 ^ 32" "KERNBASE \<le> va"
    and np: "\<And>x. unat va \<le> unat x \<Longrightarrow> unat x < unat va + unat sz \<Longrightarrow> pte (mem s) d x = 0"
  shows "\<exists>r s' ps'. mappages d va sz pa perm s = Inr (r, s') \<and> kbuilt kend d s0 ps0 s' ps' \<and>
    (r = 0 \<and> (\<forall>x. pte (mem s') d x = (if unat va \<le> unat x \<and> unat x < unat va + unat sz
        then (pa + (rnd 12 x - va)) OR perm OR PTE_P else pte (mem s) d x)) \<or> r = -1 \<and> ps' = [])"
proof -
  note ip = in_pages_aligned [OF v(1,3,4,2)]
  have u: "um_wf kend s ps d" using b by (simp add: kbuilt_def)
  have np': "\<not> present (mem s) d x" if "in_pages va sz x" for x using np [of x] that ip by (simp add: present_def)
  obtain r s' ps' where h: "mappages d va sz pa perm s = Inr (r, s')" "grew kend d s ps s' ps'"
    "r = 0 \<and> (\<forall>x. pte (mem s') d x = (if in_pages va sz x then (pa + (PGROUNDDOWN x - PGROUNDDOWN va)) OR perm OR PTE_P else pte (mem s) d x)) \<or>
     r = -1 \<and> ps' = [] \<and> (\<forall>x. \<not> in_pages va sz x \<longrightarrow> pte (mem s') d x = pte (mem s) d x)"
    using mappages_ok [OF um_wfD(1) [OF u] v(3,4) np', of pa perm] by auto
  note G = grewD [OF h(2)]
  have kx: "\<not> in_pages va sz x" if "x < KERNBASE" for x using that v(5) ip [of x] by (simp add: word_less_nat_alt word_le_nat_alt)
  have lo: "pte (mem s') d x = pte (mem s) d x" if "x < KERNBASE" for x using h(3) kx [OF that] by auto
  have "um_wf kend s' ps' d" by (rule um_wf_keep [OF u G(1,2,4) lo])
  moreover have "set ps0 = set ps' \<union> foot (mem s') d"
    using b G(2-4) grew_cover [OF h(2)] unfolding kbuilt_def by auto
  moreover have "mem s' x = mem s0 x" if "rnd 12 x \<notin> set ps0" for x
    using G(6) [of x] that b unfolding kbuilt_def by auto
  ultimately have "kbuilt kend d s0 ps0 s' ps'" using lo b unfolding kbuilt_def by simp
  moreover have "PGROUNDDOWN va = va" using rnd_id [OF v(1)] by (simp add: PGROUNDDOWN_rnd)
  ultimately show ?thesis using h(1,3) ip by (auto simp: PGROUNDDOWN_rnd)
qed

lemma kbuilt_free:
  assumes "kbuilt kend d s0 ps0 s ps"
  shows "\<exists>s' ps'. freevm kend d s = Inr s' \<and> frees kend s' ps' \<and> set ps' = set ps0 \<and> (\<forall>x. rnd 12 x \<notin> set ps0 \<longrightarrow> mem s' x = mem s0 x)"
proof -
  have u: "um_wf kend s ps d" using assms by (simp add: kbuilt_def)
  have fe: "freed (mem s) d 0 KERNBASE = {}"
  proof -
    have "\<not> present (mem s) d x" if "rnd 12 x < KERNBASE" for x
      using assms below_kernbase [OF that] by (simp add: kbuilt_def present_def KERNBASE_def)
    then show ?thesis by (auto simp: freed_def)
  qed
  obtain s' qs where h: "freevm kend d s = Inr s'" "frees kend s' (qs @ ps)" "set qs = foot (mem s) d"
    "\<forall>x. rnd 12 x \<notin> set qs \<longrightarrow> mem s' x = mem s x"
    using freevm_ok [OF u] unfolding fe by auto
  have "mem s' x = mem s0 x" if "rnd 12 x \<notin> set ps0" for x using h(3,4) assms that unfolding kbuilt_def by auto
  then show ?thesis using h(1,2,3) assms by (intro exI [of _ s'] exI [of _ "qs @ ps"]) (auto simp: kbuilt_def)
qed

lemma setupkvm_start:
  assumes f: "frees kend s (d # ps)" and k: "KERNBASE < kend"
  shows "\<exists>s1. kalloc s = Inr (d, s1) \<and> d \<noteq> 0 \<and>
    kbuilt kend d s (d # ps) (s1\<lparr>mem := memset d 0 PGSIZE (mem s1)\<rparr>) ps \<and> (\<forall>x. pte (memset d 0 PGSIZE (mem s1)) d x = 0)"
proof -
  obtain s1 where s1: "s1 = s\<lparr>freelist := load32 (mem s) d\<rparr>" "kalloc s = Inr (d, s1)" "frees kend s1 ps"
    using kalloc_some [OF f] by blast
  have d: "page_ok kend d" "d \<notin> set ps" using f by (auto simp: frees_def)
  note D = page_okD [OF d(1)]
  let ?m = "memset d 0 PGSIZE (mem s1)" and ?s2 = "s1\<lparr>mem := memset d 0 PGSIZE (mem s1)\<rparr>"
  have m: "?m x = (if rnd 12 x = d then 0 else mem s x)" for x using s1(1) by (simp add: memset_page [OF D(1)])
  have tb: "tab ?m d i = None" if "i < 1024" for i
  proof -
    have z: "\<And>x. rnd 12 x = d \<Longrightarrow> ?m x = 0" by (simp add: m)
    show ?thesis using load32_zero_page [OF D(1) that z] by (simp add: tab_def)
  qed
  have pz: "pte ?m d x = 0" for x using tb [OF PDX_PTX_bound(1)] by (simp add: pte_def pmap_def)
  have "frees kend ?s2 ps"
  proof (rule frees_cong [OF s1(3)])
    fix x assume "rnd 12 x \<in> set ps"
    then have "rnd 12 x \<noteq> d" using d(2) by auto
    then show "mem ?s2 x = mem s1 x" using m s1(1) by simp
  qed (use s1(3) in \<open>simp_all add: frees_def\<close>)
  then have w: "pt_wf kend ?s2 ps d" using d tb by (simp add: pt_wf_def)
  have "um_wf kend ?s2 ps d" unfolding um_wf_def using w k by (simp add: present_def pz)
  moreover have "foot ?m d = {d}" using tb by (auto simp: foot_def)
  ultimately have "kbuilt kend d s (d # ps) ?s2 ps" unfolding kbuilt_def by (auto simp: pz m)
  then show ?thesis using s1(2) D(2) pz by blast
qed

definition kvm_failed :: "u32 \<Rightarrow> kmem \<Rightarrow> u32 list \<Rightarrow> kmem \<Rightarrow> bool" where
  "kvm_failed kend s0 ps0 s' \<longleftrightarrow>
     (\<exists>ps'. frees kend s' ps' \<and> set ps' = set ps0 \<and> (\<forall>x. rnd 12 x \<notin> set ps0 \<longrightarrow> mem s' x = mem s0 x))"

lemma setupkvm_step:
  assumes b: "kbuilt kend d s0 ps0 s ps" and pm: "\<And>x. pte (mem s) d x = f x"
    and v: "algn 12 va" "algn 12 (pe - pa)" "0 < pe - pa" "unat va + unat (pe - pa) = hi" "hi \<le> 2 ^ 32" "KERNBASE \<le> va"
    and np: "\<And>x. unat va \<le> unat x \<Longrightarrow> unat x < hi \<Longrightarrow> f x = 0"
  shows "(\<exists>s' ps'. setupkvm_loop kend d ((va, pa, pe, perm) # ks) s = setupkvm_loop kend d ks s' \<and> kbuilt kend d s0 ps0 s' ps' \<and>
      (\<forall>x. pte (mem s') d x = (if unat va \<le> unat x \<and> unat x < hi then (pa + (rnd 12 x - va)) OR perm OR PTE_P else f x))) \<or>
    (\<exists>s'. setupkvm_loop kend d ((va, pa, pe, perm) # ks) s = Inr (0, s') \<and> kvm_failed kend s0 ps0 s')"
proof -
  have hi: "unat va + unat (pe - pa) \<le> 2 ^ 32" using v(4,5) by simp
  have np': "pte (mem s) d x = 0" if "unat va \<le> unat x" "unat x < unat va + unat (pe - pa)" for x
    using np [of x] that pm v(4) by simp
  obtain r s' ps' where h: "mappages d va (pe - pa) pa perm s = Inr (r, s')" "kbuilt kend d s0 ps0 s' ps'"
    "r = 0 \<and> (\<forall>x. pte (mem s') d x = (if unat va \<le> unat x \<and> unat x < unat va + unat (pe - pa)
        then (pa + (rnd 12 x - va)) OR perm OR PTE_P else pte (mem s) d x)) \<or> r = -1 \<and> ps' = []"
    using kbuilt_map [OF b v(1-3) hi v(6) np', of pa perm] by blast
  show ?thesis
  proof (cases "r = 0")
    case True
    then show ?thesis using h unfolding v(4) pm by (intro disjI1 exI [of _ s'] exI [of _ ps']) auto
  next
    case False
    then have r: "r = -1" using h(3) by auto
    obtain t where "freevm kend d s' = Inr t" "kvm_failed kend s0 ps0 t" using kbuilt_free [OF h(2)] unfolding kvm_failed_def by blast
    then show ?thesis using h(1) r by (intro disjI2 exI [of _ t]) simp
  qed
qed

lemma kernel_ranges:
  assumes "algn 12 kdata" "KERNLINK < kdata" "kdata < P2V PHYSTOP"
  shows "algn 12 (V2P kdata - V2P KERNLINK)" "algn 12 (PHYSTOP - V2P kdata)"
    "unat KERNLINK + unat (V2P kdata - V2P KERNLINK) = unat kdata" "unat kdata + unat (PHYSTOP - V2P kdata) = 0x8E000000"
    "unat kdata \<ge> 0x80101000" "unat kdata < 0x8E000000"
proof -
  obtain k where k: "unat kdata = 4096 * k" using algn12E [OF assms(1)] .
  have b: "0x80100000 < unat kdata" "unat kdata < 0x8E000000"
    using assms(2,3) by (simp_all add: word_less_nat_alt KERNLINK_def KERNBASE_def EXTMEM_def P2V_def PHYSTOP_def)
  then show c: "unat kdata \<ge> 0x80101000" "unat kdata < 0x8E000000" using k by simp_all
  have e: "V2P kdata - V2P KERNLINK = kdata - 0x80100000" "PHYSTOP - V2P kdata = 0x8E000000 - kdata"
    by (simp_all add: V2P_def KERNLINK_def KERNBASE_def EXTMEM_def PHYSTOP_def)
  have "unat (kdata - 0x80100000) = unat kdata - 0x80100000" "unat (0x8E000000 - kdata) = 0x8E000000 - unat kdata"
    using b by (simp_all add: unat_sub word_le_nat_alt)
  moreover from this have "unat (kdata - 0x80100000) = 4096 * (k - 0x80100)" "unat (0x8E000000 - kdata) = 4096 * (0x8E000 - k)"
    unfolding k by simp_all
  ultimately have u: "unat (kdata - 0x80100000) = unat kdata - 0x80100000" "unat (0x8E000000 - kdata) = 0x8E000000 - unat kdata"
    and v: "unat (kdata - 0x80100000) = 4096 * (k - 0x80100)" "unat (0x8E000000 - kdata) = 4096 * (0x8E000 - k)" by blast+
  show "algn 12 (V2P kdata - V2P KERNLINK)" "algn 12 (PHYSTOP - V2P kdata)" unfolding e by (simp_all add: algn_unat v)
  show "unat KERNLINK + unat (V2P kdata - V2P KERNLINK) = unat kdata" "unat kdata + unat (PHYSTOP - V2P kdata) = 0x8E000000"
    unfolding e u using b by (simp_all add: KERNLINK_def KERNBASE_def EXTMEM_def)
qed

lemma setupkvm_ok:
  assumes f: "frees kend s ps" and k: "KERNBASE < kend" and kd: "algn 12 kdata" "KERNLINK < kdata" "kdata < P2V PHYSTOP"
  shows "\<exists>d s' ps'. setupkvm kend kdata s = Inr (d, s') \<and>
    (d \<noteq> 0 \<and> kbuilt kend d s ps s' ps' \<and> (\<forall>x. pte (mem s') d x = kernel_pte kdata x) \<or> d = 0 \<and> kvm_failed kend s ps s')"
proof (cases ps)
  case Nil
  then have "kalloc s = Inr (0, s)" using kalloc_none [of kend s] f by blast
  then show ?thesis using f by (auto simp: setupkvm_def kvm_failed_def)
next
  case (Cons d qs)
  note K = kernel_ranges [OF kd]
  obtain s1 where s1: "kalloc s = Inr (d, s1)" "d \<noteq> 0" and b: "kbuilt kend d s (d # qs) (s1\<lparr>mem := memset d 0 PGSIZE (mem s1)\<rparr>) qs"
    and z: "\<forall>x. pte (memset d 0 PGSIZE (mem s1)) d x = 0" using setupkvm_start [of kend s d qs] f k Cons by blast
  let ?s2 = "s1\<lparr>mem := memset d 0 PGSIZE (mem s1)\<rparr>"
  have st: "setupkvm kend kdata s = setupkvm_loop kend d (kmap kdata) ?s2"
    using s1 by (simp add: setupkvm_def DEVSPACE_def P2V_def PHYSTOP_def KERNBASE_def)
  have uK: "unat KERNLINK = 0x80100000" "unat (KERNBASE :: u32) = 0x80000000" "unat (DEVSPACE :: u32) = 0xFE000000"
    by (simp_all add: KERNLINK_def KERNBASE_def EXTMEM_def DEVSPACE_def)
  let ?f0 = "\<lambda>x :: u32. 0 :: u32"
  define f1 where "f1 = (\<lambda>x :: u32. if unat (KERNBASE :: u32) \<le> unat x \<and> unat x < 0x80100000 then (0 + (rnd 12 x - KERNBASE)) OR PTE_W OR PTE_P else ?f0 x)"
  define f2 where "f2 = (\<lambda>x. if unat KERNLINK \<le> unat x \<and> unat x < unat kdata then (V2P KERNLINK + (rnd 12 x - KERNLINK)) OR 0 OR PTE_P else f1 x)"
  define f3 where "f3 = (\<lambda>x. if unat kdata \<le> unat x \<and> unat x < 0x8E000000 then (V2P kdata + (rnd 12 x - kdata)) OR PTE_W OR PTE_P else f2 x)"
  define f4 where "f4 = (\<lambda>x. if unat (DEVSPACE :: u32) \<le> unat x \<and> unat x < 2 ^ 32 then (DEVSPACE + (rnd 12 x - DEVSPACE)) OR PTE_W OR PTE_P else f3 x)"
  have fin: "f4 x = kernel_pte kdata x" for x
    using K(5,6) unsigned_less [of x, where 'a = nat]
    by (simp add: f4_def f3_def f2_def f1_def kernel_pte_def uK V2P_def P2V_def PHYSTOP_def word_le_nat_alt word_less_nat_alt KERNBASE_def KERNLINK_def EXTMEM_def DEVSPACE_def)
  have "(\<exists>s' ps'. setupkvm_loop kend d (kmap kdata) ?s2 = Inr (d, s') \<and> kbuilt kend d s (d # qs) s' ps' \<and> (\<forall>x. pte (mem s') d x = f4 x)) \<or>
    (\<exists>s'. setupkvm_loop kend d (kmap kdata) ?s2 = Inr (0, s') \<and> kvm_failed kend s (d # qs) s')"
    (is "?ok \<or> ?bad")
  proof (rule disjCI)
    assume nb: "\<not> ?bad"
    have z0: "\<And>x. pte (mem ?s2) d x = ?f0 x" using z by simp
    obtain s3 ps3 where a3: "setupkvm_loop kend d (kmap kdata) ?s2 = setupkvm_loop kend d (tl (kmap kdata)) s3"
      "kbuilt kend d s (d # qs) s3 ps3" "\<And>x. pte (mem s3) d x = f1 x"
      using setupkvm_step [OF b z0, of KERNBASE EXTMEM 0 "0x80100000" PTE_W "tl (kmap kdata)"] nb
      by (auto simp: kmap_def f1_def algn_unat uK EXTMEM_def KERNBASE_def)
    have n3: "f1 x = 0" if "unat KERNLINK \<le> unat x" "unat x < unat kdata" for x using that K(5) by (simp add: f1_def uK)
    obtain s4 ps4 where a4: "setupkvm_loop kend d (kmap kdata) ?s2 = setupkvm_loop kend d (tl (tl (kmap kdata))) s4"
      "kbuilt kend d s (d # qs) s4 ps4" "\<And>x. pte (mem s4) d x = f2 x"
      using setupkvm_step [OF a3(2,3) _ K(1) _ K(3) _ _ n3, of 0 "tl (tl (kmap kdata))"] nb a3(1) K(3,5,6)
      by (auto simp: kmap_def f2_def algn_unat uK word_le_nat_alt word_less_nat_alt)
    have n4: "f2 x = 0" if "unat kdata \<le> unat x" "unat x < 0x8E000000" for x using that K(5) by (simp add: f1_def f2_def uK)
    obtain s5 ps5 where a5: "setupkvm_loop kend d (kmap kdata) ?s2 = setupkvm_loop kend d (tl (tl (tl (kmap kdata)))) s5"
      "kbuilt kend d s (d # qs) s5 ps5" "\<And>x. pte (mem s5) d x = f3 x"
      using setupkvm_step [OF a4(2,3) kd(1) K(2) _ K(4) _ _ n4, of PTE_W "tl (tl (tl (kmap kdata)))"] nb a4(1) K(4,5,6)
      by (auto simp: kmap_def f3_def uK word_le_nat_alt word_less_nat_alt)
    have n5: "f3 x = 0" if "unat (DEVSPACE :: u32) \<le> unat x" "unat x < 2 ^ 32" for x using that K(5,6) by (simp add: f1_def f2_def f3_def uK)
    have dv: "(0 :: u32) < 0 - DEVSPACE" by (simp add: DEVSPACE_def word_less_nat_alt)
    obtain s6 ps6 where a6: "setupkvm_loop kend d (kmap kdata) ?s2 = setupkvm_loop kend d [] s6"
      "kbuilt kend d s (d # qs) s6 ps6" "\<And>x. pte (mem s6) d x = f4 x"
      using setupkvm_step [where hi = "2 ^ 32" and va = DEVSPACE and pa = DEVSPACE and pe = 0 and perm = PTE_W and ks = "[]", OF a5(2,3) _ _ dv _ _ _ n5] nb a5(1)
      by (auto simp: kmap_def f4_def algn_unat word_le_nat_alt DEVSPACE_def uK(2))
    then show ?ok by auto
  qed
  then show ?thesis unfolding st fin Cons using s1(2) by blast
qed

section \<open>Copying an address space\<close>

text \<open>Page \<open>x\<close> of \<open>d\<close> in \<open>m\<close> is a copy of page \<open>x\<close> of \<open>g\<close> in \<open>m0\<close>, on a page of \<open>ps\<close>.\<close>

definition page_copy :: "u32 list \<Rightarrow> memory \<Rightarrow> u32 \<Rightarrow> memory \<Rightarrow> u32 \<Rightarrow> u32 \<Rightarrow> bool" where
  "page_copy ps m0 g m d x \<longleftrightarrow> present m d x \<and> leaf m d x \<in> set ps \<and> PTE_FLAGS (pte m d x) = PTE_FLAGS (pte m0 g x) \<and>
     (\<forall>y<PGSIZE. m (leaf m d x + y) = m0 (leaf m0 g x + y))"

definition copied :: "u32 \<Rightarrow> u32 \<Rightarrow> u32 \<Rightarrow> u32 \<Rightarrow> u32 \<Rightarrow> memory \<Rightarrow> u32 list \<Rightarrow> kmem \<Rightarrow> u32 list \<Rightarrow> bool" where
  "copied kend kdata g d i m0 ps0 s ps \<longleftrightarrow> um_wf kend s ps d \<and>
     (\<forall>x<KERNBASE. if rnd 12 x < i then page_copy ps0 m0 g (mem s) d x else pte (mem s) d x = 0) \<and>
     (\<forall>x. KERNBASE \<le> x \<longrightarrow> pte (mem s) d x = kernel_pte kdata x) \<and>
     set ps0 = set ps \<union> foot (mem s) d \<union> leaves (mem s) d \<and>
     (\<forall>x. rnd 12 x \<notin> set ps0 \<longrightarrow> mem s x = m0 x)"

lemma copiedD:
  assumes "copied kend kdata g d i m0 ps0 s ps"
  shows "um_wf kend s ps d" "x < KERNBASE \<Longrightarrow> rnd 12 x < i \<Longrightarrow> page_copy ps0 m0 g (mem s) d x"
    "x < KERNBASE \<Longrightarrow> \<not> rnd 12 x < i \<Longrightarrow> pte (mem s) d x = 0" "KERNBASE \<le> x \<Longrightarrow> pte (mem s) d x = kernel_pte kdata x"
    "set ps0 = set ps \<union> foot (mem s) d \<union> leaves (mem s) d" "rnd 12 x \<notin> set ps0 \<Longrightarrow> mem s x = m0 x"
  using assms unfolding copied_def by auto

lemma leaves_freed: "leaves m d = freed m d 0 KERNBASE"
proof -
  have "rnd 12 x < KERNBASE \<longleftrightarrow> x < KERNBASE" for x
    using below_kernbase [of x KERNBASE] rnd_le_self [of x] by (auto simp: KERNBASE_def)
  then show ?thesis by (auto simp: leaves_def freed_def)
qed

lemma copied_freevm:
  assumes c: "um_wf kend s ps d" "set ps0 = set ps \<union> foot (mem s) d \<union> leaves (mem s) d" "\<forall>x. rnd 12 x \<notin> set ps0 \<longrightarrow> mem s x = mem s0 x"
  shows "\<exists>s'. freevm kend d s = Inr s' \<and> kvm_failed kend s0 ps0 s'"
proof -
  obtain s' qs where h: "freevm kend d s = Inr s'" "frees kend s' (qs @ ps)" "set qs = foot (mem s) d \<union> leaves (mem s) d"
    "\<forall>x. rnd 12 x \<notin> set qs \<longrightarrow> mem s' x = mem s x"
    using freevm_ok [OF c(1)] unfolding leaves_freed by auto
  have "mem s' x = mem s0 x" if "rnd 12 x \<notin> set ps0" for x using h(3,4) c(2,3) that by auto
  then show ?thesis using h(1,2,3) c(2) by (auto simp: kvm_failed_def intro!: exI [of _ "qs @ ps"])
qed

lemma parent_same:
  assumes u: "um_wf kend s0 ps0 g" and fr: "\<forall>x. rnd 12 x \<notin> set ps0 \<longrightarrow> m x = mem s0 x"
  shows "pte m g = pte (mem s0) g" "foot m g = foot (mem s0) g" "i < 1024 \<Longrightarrow> tab m g i = tab (mem s0) g i"
    "x < KERNBASE \<Longrightarrow> present (mem s0) g x \<Longrightarrow> y < PGSIZE \<Longrightarrow> m (leaf (mem s0) g x + y) = mem s0 (leaf (mem s0) g x + y)"
proof -
  note U = um_wfD [OF u] note W = pt_wfD [OF U(1)]
  have nf: "p \<notin> set ps0" if "p \<in> foot (mem s0) g" for p using U(1) that by (auto simp: foot_def pt_wf_def)
  have "pmap m g = pmap (mem s0) g" by (rule pmap_cong [OF U(1)]) (use fr nf in blast)
  then show "pte m g = pte (mem s0) g" by (rule pte_eqI)
  have g: "m x = mem s0 x" if "rnd 12 x = g" for x using fr that W(3) by auto
  show "foot m g = foot (mem s0) g" "i < 1024 \<Longrightarrow> tab m g i = tab (mem s0) g i"
    by (rule foot_cong [OF W(4) g], simp) (rule tab_cong [OF W(4) _ g], simp_all)
  assume x: "x < KERNBASE" "present (mem s0) g x" and y: "y < PGSIZE"
  let ?l = "leaf (mem s0) g x"
  have "page_ok kend ?l" "?l \<notin> set ps0" using U(2) [OF x] by auto
  then have "rnd 12 (?l + y) \<notin> set ps0" using rnd_add [OF page_okD(1), of kend ?l y] y by (simp add: PGSIZE_def)
  then show "m (?l + y) = mem s0 (?l + y)" using fr by blast
qed

lemma page_move:
  assumes p: "page_ok kend p" and q: "page_ok kend q"
  shows "memmove p q PGSIZE m x = (if rnd 12 x = p then m (q + (x - p)) else m x)"
proof -
  have b: "unat r + 4096 < 2 ^ 32" if "page_ok kend r" for r
  proof -
    define v where "v = V2P r"
    have v: "r = P2V v" "unat v < 0xE000000" using that by (auto simp: v_def page_ok_def V2P_def P2V_def PHYSTOP_def word_less_nat_alt)
    then have "unat r = unat v + 0x80000000" by (simp add: P2V_def KERNBASE_def unat_word_ariths)
    then show ?thesis using v(2) by simp
  qed
  have pg: "unat (PGSIZE :: u32) = 4096" by (simp add: PGSIZE_def)
  show ?thesis using memmove_apply [of q PGSIZE p m x] b [OF p] b [OF q] rnd_iff [OF page_okD(1) [OF p], of x]
    by (simp add: pg) (simp add: PGSIZE_def)
qed

lemma PTE_FLAGS_small: "PTE_FLAGS e < 4096" "bit e 0 \<Longrightarrow> PTE_FLAGS e OR PTE_P = PTE_FLAGS e" "bit (PTE_FLAGS e) 0 = bit e 0"
proof -
  have m: "(0xFFF :: u32) = mask 12" by (simp add: mask_eq_exp_minus_1)
  have "PTE_FLAGS e = take_bit 12 e" unfolding PTE_FLAGS_def m by (simp add: take_bit_eq_mask)
  then show "PTE_FLAGS e < 4096" using unat_take_bit [of 12 e] by (simp add: word_less_nat_alt)
  show "bit e 0 \<Longrightarrow> PTE_FLAGS e OR PTE_P = PTE_FLAGS e" unfolding PTE_FLAGS_def m PTE_P_def
    by (rule bit_word_eqI) (auto simp: bit_simps bit_1_iff)
  show "bit (PTE_FLAGS e) 0 = bit e 0" unfolding PTE_FLAGS_def m by (simp add: bit_simps)
qed

lemma leaves_insert:
  assumes pt: "\<And>x. pte m' d x = (if rnd 12 x = i then v else pte m d x)" and v: "bit v 0" and np: "\<not> present m d i"
    and i: "rnd 12 i = i" "i < KERNBASE"
  shows "leaves m' d = insert (P2V (PTE_ADDR v)) (leaves m d)"
proof (intro equalityI subsetI)
  fix p assume "p \<in> leaves m' d"
  then obtain x where "p = leaf m' d x" "x < KERNBASE" "present m' d x" by (auto simp: leaves_def)
  then show "p \<in> insert (P2V (PTE_ADDR v)) (leaves m d)"
    by (cases "rnd 12 x = i") (auto simp: leaves_def leaf_def present_def pt)
next
  fix p assume p: "p \<in> insert (P2V (PTE_ADDR v)) (leaves m d)"
  have "P2V (PTE_ADDR v) = leaf m' d i" "present m' d i" using v i(1) by (simp_all add: leaf_def present_def pt)
  then have "P2V (PTE_ADDR v) \<in> leaves m' d" using i(2) by (auto simp: leaves_def)
  moreover have "p \<in> leaves m' d" if l: "p \<in> leaves m d"
  proof -
    obtain x where x: "p = leaf m d x" "x < KERNBASE" "present m d x" using l by (auto simp: leaves_def)
    have "rnd 12 x \<noteq> i" using np x(3) pte_page [of x i] i(1) by (auto simp: present_def)
    then have "leaf m' d x = p" "present m' d x" using x by (simp_all add: leaf_def present_def pt)
    then show ?thesis using x(2) by (auto simp: leaves_def)
  qed
  ultimately show "p \<in> leaves m' d" using p by auto
qed

lemma copied_step:
  assumes c: "copied kend kdata g d i (mem s0) ps0 s (p # ps)" and u0: "um_wf kend s0 ps0 g"
    and i: "algn 12 i" "unat i < 2 ^ 31" and pr: "present (mem s0) g i"
    and k: "kalloc s = Inr (p, s1)" and e: "e = pte (mem s0) g i" and m: "m = memmove p (P2V (PTE_ADDR e)) PGSIZE (mem s1)"
  shows "\<exists>r s3 ps3. mappages d i PGSIZE (V2P p) (PTE_FLAGS e) (s1\<lparr>mem := m\<rparr>) = Inr (r, s3) \<and>
    (r = 0 \<and> copied kend kdata g d (i + PGSIZE) (mem s0) ps0 s3 ps3 \<or>
     r = -1 \<and> (\<exists>s4 s5. kfree kend p s3 = Inr s4 \<and> freevm kend d s4 = Inr s5 \<and> kvm_failed kend s0 ps0 s5))"
proof -
  note C = copiedD [OF c]
  have ik: "i < KERNBASE" using i(2) by (simp add: KERNBASE_def word_less_nat_alt)
  have ri: "rnd 12 i = i" by (rule rnd_id [OF i(1)])
  have q: "page_ok kend (leaf (mem s0) g i)" "leaf (mem s0) g i \<notin> set ps0" using um_wfD(2) [OF u0 ik pr] by auto
  have m1: "mem s1 = mem s" "page_ok kend p" using take_page [OF C(1)] k by auto
  have ql: "P2V (PTE_ADDR e) = leaf (mem s0) g i" by (simp add: e leaf_def)
  have mv: "m x = (if rnd 12 x = p then mem s (leaf (mem s0) g i + (x - p)) else mem s x)" for x
    unfolding m ql m1(1) by (rule page_move [OF m1(2) q(1)])
  have mp: "\<forall>x. rnd 12 x \<noteq> p \<longrightarrow> m x = mem s x" by (simp add: mv)
  have np: "\<not> present (mem s) d i" using C(3) [OF ik] ri by (simp add: present_def)
  have fl: "PTE_FLAGS e < 4096" "bit e 0"
    using pr PTE_FLAGS_small(1) by (simp_all add: e present_def)
  obtain r s3 ps3 where h: "mappages d i PGSIZE (V2P p) (PTE_FLAGS e) (s1\<lparr>mem := m\<rparr>) = Inr (r, s3)" and u3: "um_wf kend s3 ps3 d"
    and r: "r = 0 \<or> r = -1"
    and pt: "\<And>x. pte (mem s3) d x = (if r = 0 \<and> rnd 12 x = i then V2P p OR PTE_FLAGS e OR PTE_P else pte (mem s) d x)"
    and p3: "r = -1 \<Longrightarrow> ps3 = []" "set ps3 \<subseteq> set ps" "foot (mem s) d \<subseteq> foot (mem s3) d" "foot (mem s3) d \<subseteq> foot (mem s) d \<union> set ps"
      "set ps \<subseteq> set ps3 \<union> foot (mem s3) d"
    and pp: "page_ok kend p" "p \<notin> set ps" "p \<notin> foot (mem s3) d" "p \<notin> leaves (mem s) d"
    and fr: "\<And>x. rnd 12 x \<notin> foot (mem s) d \<union> set ps \<Longrightarrow> mem s3 x = m x"
    by (rule fresh_page [OF C(1) k mp i(1) np fl(1)]) (rule that; assumption)
  have pin: "p \<in> set ps0" "set ps \<subseteq> set ps0" using C(5) by auto
  have frame: "mem s3 x = mem s0 x" if "rnd 12 x \<notin> set ps0" for x
  proof -
    have "rnd 12 x \<notin> foot (mem s) d \<union> set ps" "rnd 12 x \<noteq> p" using that C(5) by auto
    then show ?thesis using fr [of x] mv [of x] C(6) [OF that] by simp
  qed
  have old: "page_copy ps0 (mem s0) g (mem s3) d x" if x: "x < KERNBASE" "rnd 12 x < i" for x
  proof -
    have f: "page_copy ps0 (mem s0) g (mem s) d x" by (rule C(2) [OF x])
    have pe: "pte (mem s3) d x = pte (mem s) d x" using pt [of x] x(2) by auto
    then have lf: "leaf (mem s3) d x = leaf (mem s) d x" by (simp add: leaf_def)
    have l: "page_ok kend (leaf (mem s) d x)" "leaf (mem s) d x \<notin> insert p (foot (mem s) d \<union> set ps)"
      using um_wfD(2) [OF C(1) x(1)] f by (auto simp: page_copy_def)
    have "mem s3 (leaf (mem s) d x + y) = mem s (leaf (mem s) d x + y)" if "y < PGSIZE" for y
      using rnd_add [OF page_okD(1) [OF l(1)], of y] that fr mv l(2) by (simp add: PGSIZE_def)
    then show ?thesis using f by (simp add: page_copy_def present_def pe lf)
  qed
  show ?thesis
  proof (cases "r = 0")
    case True
    have v: "V2P p OR PTE_FLAGS e OR PTE_P = V2P p OR PTE_FLAGS e" using PTE_FLAGS_small(2) [OF fl(2)] by simp
    note F = pte_fields [OF V2P_algn [OF page_okD(1) [OF pp(1)]] fl(1)]
    have pi: "pte (mem s3) d x = V2P p OR PTE_FLAGS e" if "rnd 12 x = i" for x using pt [of x] that True v by simp
    have new: "page_copy ps0 (mem s0) g (mem s3) d x" if x: "rnd 12 x = i" for x
    proof -
      have l: "leaf (mem s3) d x = p" using pi [OF x] F(1) by (simp add: leaf_def)
      have gi: "pte (mem s0) g x = e" "leaf (mem s0) g x = leaf (mem s0) g i" using pte_page [of x i] x ri by (simp_all add: e leaf_def)
      have pz: "present (mem s3) d x" using pi [OF x] F(3) [of 0] fl(2) by (simp add: present_def PTE_FLAGS_small(3))
      have "mem s3 (p + y) = mem s0 (leaf (mem s0) g i + y)" if y: "y < PGSIZE" for y
      proof -
        have ry: "rnd 12 (p + y) = p" "rnd 12 (leaf (mem s0) g i + y) = leaf (mem s0) g i"
          using rnd_add [OF page_okD(1) [OF pp(1)], of y] rnd_add [OF page_okD(1) [OF q(1)], of y] y by (simp_all add: PGSIZE_def)
        have "p \<notin> foot (mem s) d \<union> set ps" using pp(2,3) p3(3) by blast
        then have "mem s3 (p + y) = mem s (leaf (mem s0) g i + y)" using fr [of "p + y"] mv [of "p + y"] ry by simp
        also have "\<dots> = mem s0 (leaf (mem s0) g i + y)" using C(6) ry(2) q(2) by simp
        finally show ?thesis .
      qed
      then show ?thesis using l gi pz pin(1) pi [OF x] F(2) by (simp add: page_copy_def)
    qed
    note nx = rnd_less_next [OF i(1,2)]
    have "if rnd 12 x < i + PGSIZE then page_copy ps0 (mem s0) g (mem s3) d x else pte (mem s3) d x = 0" if "x < KERNBASE" for x
      using old [OF that] new [of x] nx [of x] pt [of x] C(3) [OF that] by auto
    moreover have "pte (mem s3) d x = kernel_pte kdata x" if "KERNBASE \<le> x" for x
    proof -
      have "rnd 12 x \<noteq> i" using ik that rnd_ge [of KERNBASE x] by (auto simp: algn_unat KERNBASE_def)
      then show ?thesis using pt [of x] C(4) [OF that] by simp
    qed
    moreover have "set ps0 = set ps3 \<union> foot (mem s3) d \<union> leaves (mem s3) d"
    proof -
      have pt': "pte (mem s3) d x = (if rnd 12 x = i then V2P p OR PTE_FLAGS e else pte (mem s) d x)" for x
        using pt [of x] True v by simp
      have "bit (V2P p OR PTE_FLAGS e) 0" using F(3) [of 0] fl(2) by (simp add: PTE_FLAGS_small(3))
      from leaves_insert [OF pt' this np ri ik] have "leaves (mem s3) d = insert p (leaves (mem s) d)" using F(1) by simp
      then show ?thesis using C(5) p3(2-5) by auto
    qed
    ultimately have "copied kend kdata g d (i + PGSIZE) (mem s0) ps0 s3 ps3" unfolding copied_def using u3 frame by blast
    then show ?thesis using h True by blast
  next
    case False
    then have rm: "r = -1" "ps3 = []" using r p3(1) by auto
    have pe: "pte (mem s3) d = pte (mem s) d" using pt False by auto
    have lv: "leaves (mem s3) d = leaves (mem s) d" unfolding leaves_def leaf_def present_def pe ..
    obtain t where t: "kfree kend p s3 = Inr t" "um_wf kend t [p] d" "pmap (mem t) d = pmap (mem s3) d"
      "foot (mem t) d = foot (mem s3) d" "\<forall>x. rnd 12 x \<noteq> p \<longrightarrow> mem t x = mem s3 x"
      using um_wf_free [OF u3 pp(1) _ pp(3)] pp(4) rm(2) lv by auto
    have cv: "set ps0 = set [p] \<union> foot (mem t) d \<union> leaves (mem t) d"
      using C(5) p3(2-5) rm(2) leaves_cong [OF t(3)] lv t(4) by auto
    have fm: "\<forall>x. rnd 12 x \<notin> set ps0 \<longrightarrow> mem t x = mem s0 x"
    proof (intro allI impI)
      fix x assume x: "rnd 12 x \<notin> set ps0"
      then have "rnd 12 x \<noteq> p" using pin(1) by blast
      then show "mem t x = mem s0 x" using t(5) frame [OF x] by simp
    qed
    obtain t2 where "freevm kend d t = Inr t2" "kvm_failed kend s0 ps0 t2" using copied_freevm [OF t(2) cv fm] by auto
    then show ?thesis using h rm(1) t(1) by auto
  qed
qed

lemma copied_end:
  assumes "copied kend kdata g d a m0 ps0 s ps" "algn 12 a" "\<not> a < b" "unat a < unat b + 4096"
  shows "copied kend kdata g d b m0 ps0 s ps"
  using assms(1) unfolding copied_def range_end [OF assms(2-4)] .

lemma copyuvm_loop_ok:
  assumes u0: "um_wf kend s0 ps0 g" and sz: "unat sz < 2 ^ 31" and pr: "\<And>x. rnd 12 x < sz \<Longrightarrow> present (mem s0) g x"
    and "copied kend kdata g d i (mem s0) ps0 s ps" "algn 12 i" "unat i < unat sz + 4096"
  shows "\<exists>r s' ps'. copyuvm_loop kend g d i sz s = Some (Inr (r, s')) \<and>
    (r = d \<and> copied kend kdata g d sz (mem s0) ps0 s' ps' \<or> r = 0 \<and> kvm_failed kend s0 ps0 s')"
  using assms(4-)
proof (induction "unat sz + 4096 - unat i" arbitrary: i s ps rule: less_induct)
  case less
  note C = copiedD [OF less.prems(1)]
  show ?case
  proof (cases "i < sz")
    case False
    then have "copyuvm_loop kend g d i sz s = Some (Inr (d, s))" by (simp add: copyuvm_loop.simps)
    then show ?thesis using copied_end [OF less.prems(1,2) False less.prems(3)] by blast
  next
    case True
    have i31: "unat i < 2 ^ 31" using True sz by (simp add: word_less_nat_alt)
    have ri: "rnd 12 i = i" by (rule rnd_id [OF less.prems(2)])
    have pi: "present (mem s0) g i" using pr [of i] True ri by simp
    have fr: "\<forall>x. rnd 12 x \<notin> set ps0 \<longrightarrow> mem s x = mem s0 x" using C(6) by blast
    note P = parent_same [OF u0 fr]
    obtain t where t: "tab (mem s) g (pdx i) = Some t" using present_tab [OF pi] P(3) [OF PDX_PTX_bound(1)] by auto
    define e where "e = pte (mem s0) g i"
    have w: "walkpgdir g i False s = Inr (t + 4 * of_nat (ptx i), s)" by (rule walk_present [OF t])
    have ld: "load32 (mem s) (t + 4 * of_nat (ptx i)) = e" using pte_tab [OF t] P(1) by (simp add: e_def)
    have tz: "t + 4 * of_nat (ptx i) \<noteq> 0"
    proof -
      have "page_ok kend t" using um_wfD(1) [OF u0] t P(3) [OF PDX_PTX_bound(1)] PDX_PTX_bound(1) [of i] by (auto simp: pt_wf_def)
      then have "algn 12 t" "t \<noteq> 0" using page_okD by auto
      then show ?thesis using slot [of t "ptx i"] PDX_PTX_bound(2) [of i] by auto
    qed
    have ep: "e AND PTE_P \<noteq> 0" using pi by (simp add: e_def PTE_P_bit present_def)
    note un = copyuvm_loop.simps [of kend g d i sz s]
    show ?thesis
    proof (cases ps)
      case Nil
      have k: "kalloc s = Inr (0, s)" using kalloc_none [of kend s] pt_wfD(1) [OF um_wfD(1) [OF C(1)]] Nil by blast
      obtain s' where "freevm kend d s = Inr s'" "kvm_failed kend s0 ps0 s'" using copied_freevm [OF C(1,5) fr] by blast
      then show ?thesis using True w ld ep tz k un by simp
    next
      case (Cons p qs)
      note c = less.prems(1) [unfolded Cons]
      obtain s1 where k: "kalloc s = Inr (p, s1)" "page_ok kend p" using take_page [OF C(1) [unfolded Cons]] by auto
      have p0: "p \<noteq> 0" using page_okD(2) [OF k(2)] .
      let ?m = "memmove p (P2V (PTE_ADDR e)) PGSIZE (mem s1)"
      obtain r s3 ps3 where m: "mappages d i PGSIZE (V2P p) (PTE_FLAGS e) (s1\<lparr>mem := ?m\<rparr>) = Inr (r, s3)"
        and o: "r = 0 \<and> copied kend kdata g d (i + PGSIZE) (mem s0) ps0 s3 ps3 \<or>
          r = -1 \<and> (\<exists>s4 s5. kfree kend p s3 = Inr s4 \<and> freevm kend d s4 = Inr s5 \<and> kvm_failed kend s0 ps0 s5)"
        using copied_step [OF c u0 less.prems(2) i31 pi k(1) e_def refl] by auto
      show ?thesis
      proof (cases "r = 0")
        case r0: True
        have u: "unat (i + PGSIZE) = unat i + 4096" using i31 by (intro unat_next_page) simp
        have lt: "unat sz + 4096 - unat (i + PGSIZE) < unat sz + 4096 - unat i" "unat (i + PGSIZE) < unat sz + 4096"
          using u less.prems(3) True by (simp_all add: word_less_nat_alt)
        have c3: "copied kend kdata g d (i + PGSIZE) (mem s0) ps0 s3 ps3" using o r0 by auto
        have "copyuvm_loop kend g d i sz s = copyuvm_loop kend g d (i + PGSIZE) sz s3"
          using True w ld ep tz k(1) p0 m r0 un by simp
        then show ?thesis using less.hyps [OF lt(1) c3 algn_next [OF less.prems(2)] lt(2)] by simp
      next
        case False
        then obtain s4 s5 where f: "r = -1" "kfree kend p s3 = Inr s4" "freevm kend d s4 = Inr s5" "kvm_failed kend s0 ps0 s5" using o by auto
        then have "copyuvm_loop kend g d i sz s = Some (Inr (0, s5))" using True w ld ep tz k(1) p0 m un by simp
        then show ?thesis using f(4) by blast
      qed
    qed
  qed
qed

lemma copyuvm_ok:
  assumes u: "um_wf kend s ps g" and sz: "sz < KERNBASE" and pr: "\<And>x. rnd 12 x < sz \<Longrightarrow> present (mem s) g x"
    and kd: "algn 12 kdata" "KERNLINK < kdata" "kdata < P2V PHYSTOP"
  shows "\<exists>d s' ps'. copyuvm kend kdata g sz s = Inr (d, s') \<and>
    (d \<noteq> 0 \<and> copied kend kdata g d sz (mem s) ps s' ps' \<or> d = 0 \<and> kvm_failed kend s ps s')"
proof -
  obtain d s1 ps1 where h: "setupkvm kend kdata s = Inr (d, s1)"
    "d \<noteq> 0 \<and> kbuilt kend d s ps s1 ps1 \<and> (\<forall>x. pte (mem s1) d x = kernel_pte kdata x) \<or> d = 0 \<and> kvm_failed kend s ps s1"
    using setupkvm_ok [OF pt_wfD(1) [OF um_wfD(1) [OF u]] um_wfD(4) [OF u] kd] by blast
  show ?thesis
  proof (cases "d = 0")
    case True
    then show ?thesis using h by (simp add: copyuvm_def)
  next
    case False
    then have k: "kbuilt kend d s ps s1 ps1" "\<forall>x. pte (mem s1) d x = kernel_pte kdata x" using h(2) by auto
    have "leaves (mem s1) d = {}" using k(1) by (auto simp: leaves_def kbuilt_def present_def)
    then have c: "copied kend kdata g d 0 (mem s) ps s1 ps1" using k unfolding copied_def kbuilt_def by simp
    have s31: "unat sz < 2 ^ 31" using sz by (simp add: KERNBASE_def word_less_nat_alt)
    have z: "algn 12 (0 :: u32)" "unat (0 :: u32) < unat sz + 4096" by (simp_all add: algn_unat)
    from copyuvm_loop_ok [OF u s31 pr c z] show ?thesis using h(1) False by (auto simp: copyuvm_def loop_res_def)
  qed
qed

section \<open>Properties\<close>

text \<open>
  C18: \<open>setupkvm\<close> either returns a page directory in which exactly the kernel's addresses are mapped, with the
  permissions of \<open>kmap\<close>, or returns null and has put every page back on the free list. Pages of the
  free list become tables of the directory or stay free; no other byte of memory changes.
\<close>

theorem setupkvm_maps_kernel:
  assumes "frees kend s ps" "KERNBASE < kend" "algn 12 kdata" "KERNLINK < kdata" "kdata < P2V PHYSTOP"
  shows "\<exists>d s' ps'. setupkvm kend kdata s = Inr (d, s') \<and>
    (d \<noteq> 0 \<and> kbuilt kend d s ps s' ps' \<and> (\<forall>x. pte (mem s') d x = kernel_pte kdata x) \<or> d = 0 \<and> kvm_failed kend s ps s')"
  by (rule setupkvm_ok [OF assms])

text \<open>
  C16: Growing a process from \<open>oldsz\<close> to \<open>newsz\<close> below the kernel always ends. Either every
  page between the two sizes is now mapped writable for the user to its own zeroed page of the free list and
  nothing else is mapped differently, or the call returns 0 and exactly the old pages are mapped, as before,
  and no page of the free list is lost.
\<close>

theorem allocuvm_grows_or_restores:
  assumes "um_wf kend s ps d" "newsz < KERNBASE" "oldsz \<le> newsz"
    and "\<And>x. PGROUNDUP oldsz \<le> x \<Longrightarrow> rnd 12 x < newsz \<Longrightarrow> \<not> present (mem s) d x"
  shows "\<exists>r s' ps'. allocuvm kend d oldsz newsz s = Inr (r, s') \<and>
    (r = newsz \<and> grown kend d (PGROUNDUP oldsz) newsz s ps s' ps' \<or> r = 0 \<and> restored kend d s ps s' ps')"
  by (rule allocuvm_ok [OF assms])

text \<open>
  C17: Freeing an address space never panics and returns to the free list exactly the user pages
  mapped in it, its page tables and its directory, each once; no other memory changes.
\<close>

theorem freevm_returns_every_page:
  assumes "um_wf kend s ps d"
  shows "\<exists>s' qs. freevm kend d s = Inr s' \<and> frees kend s' (qs @ ps) \<and> set qs = foot (mem s) d \<union> leaves (mem s) d \<and>
    (\<forall>x. rnd 12 x \<notin> set qs \<longrightarrow> mem s' x = mem s x)"
  using freevm_ok [OF assms] by (simp only: leaves_freed)

text \<open>
  C15: Copying an address space for \<open>fork\<close> always ends. Either the child has, for each page of the parent, its own page
  with the same permissions and the same contents, and the kernel's mappings, or the call returns null
  and every page is free again. The parent's pages are unchanged in both cases.
\<close>

theorem copyuvm_copies_or_restores:
  assumes "um_wf kend s ps g" "sz < KERNBASE" and "\<And>x. rnd 12 x < sz \<Longrightarrow> present (mem s) g x"
    and "algn 12 kdata" "KERNLINK < kdata" "kdata < P2V PHYSTOP"
  shows "\<exists>d s' ps'. copyuvm kend kdata g sz s = Inr (d, s') \<and>
    (d \<noteq> 0 \<and> copied kend kdata g d sz (mem s) ps s' ps' \<or> d = 0 \<and> kvm_failed kend s ps s') \<and>
    pte (mem s') g = pte (mem s) g \<and>
    (\<forall>x<KERNBASE. present (mem s) g x \<longrightarrow> (\<forall>y<PGSIZE. mem s' (leaf (mem s) g x + y) = mem s (leaf (mem s) g x + y)))"
proof -
  obtain d s' ps' where h: "copyuvm kend kdata g sz s = Inr (d, s')"
    "d \<noteq> 0 \<and> copied kend kdata g d sz (mem s) ps s' ps' \<or> d = 0 \<and> kvm_failed kend s ps s'"
    using copyuvm_ok [OF assms] by blast
  then have "\<forall>x. rnd 12 x \<notin> set ps \<longrightarrow> mem s' x = mem s x" unfolding copied_def kvm_failed_def by blast
  note P = parent_same [OF assms(1) this]
  show ?thesis using h P(1,4) by blast
qed

section \<open>Witnesses\<close>

text \<open>One directory, one table, one user page at address 0, and one free page.\<close>

definition demo_vm :: kmem where
  "demo_vm = demo_kmem\<lparr>mem := store32 0x80101000 (V2P 0x80102000 OR 7) (store32 0x80102000 (V2P 0x80103000 OR 7) (\<lambda>_. 0)),
     freelist := 0x80104000\<rparr>"

lemma demo_page: "p \<in> {0x80101000, 0x80102000, 0x80103000, 0x80104000} \<Longrightarrow> page_ok 0x80100000 p"
  by (auto simp: page_ok_def V2P_def KERNBASE_def PHYSTOP_def PGSIZE_def)

lemma demo_load:
  "algn 2 a \<Longrightarrow> load32 (mem demo_vm) a = (if a = 0x80101000 then V2P 0x80102000 OR 7 else if a = 0x80102000 then V2P 0x80103000 OR 7 else 0)"
proof -
  assume a: "algn 2 a"
  have b: "algn 2 (0x80101000 :: u32)" "algn 2 (0x80102000 :: u32)" by (simp_all add: algn_unat)
  show ?thesis using load32_store32 [OF b(1) a] load32_store32 [OF b(2) a] by (auto simp: demo_vm_def load32_def [of "\<lambda>_. 0"])
qed

lemma demo_tab: "i < 1024 \<Longrightarrow> tab (mem demo_vm) 0x80101000 i = (if i = 0 then Some 0x80102000 else None)"
proof -
  assume i: "i < 1024"
  have a: "algn 12 (0x80101000 :: u32)" by (simp add: algn_unat)
  have ne: "0x80101000 + 4 * of_nat i \<noteq> (0x80102000 :: u32)"
    using slot(1) [OF a i] by (auto simp: rnd_id algn_unat)
  have "0x80101000 + 4 * of_nat i = (0x80101000 :: u32) \<longleftrightarrow> i = 0" using slot(4) [OF a i, of 0] by simp
  then show ?thesis using demo_load [OF slot(2) [OF a i]] ne
    by (auto simp: tab_def P2V_def V2P_def KERNBASE_def PTE_ADDR_def PTE_P_def)
qed

lemma demo_pte: "pte (mem demo_vm) 0x80101000 x = (if rnd 12 x = 0 then V2P 0x80103000 OR 7 else 0)"
proof -
  have a: "algn 12 (0x80102000 :: u32)" by (simp add: algn_unat)
  note b = PDX_PTX_bound [of x]
  have z: "rnd 12 x = 0 \<longleftrightarrow> pdx x = 0 \<and> ptx x = 0"
    using rnd_same_iff [of x 0] by (simp add: PDX_def PTX_def rnd_id algn_unat unat_eq_0)
  have ne: "0x80102000 + 4 * of_nat (ptx x) \<noteq> (0x80101000 :: u32)"
  proof
    assume "0x80102000 + 4 * of_nat (ptx x) = (0x80101000 :: u32)"
    then have "rnd 12 (0x80101000 :: u32) = 0x80102000" using slot(1) [OF a b(2)] by argo
    then show False by (simp add: rnd_id algn_unat)
  qed
  have "0x80102000 + 4 * of_nat (ptx x) = (0x80102000 :: u32) \<longleftrightarrow> ptx x = 0" using slot(4) [OF a b(2), of 0] by simp
  then have "load32 (mem demo_vm) (0x80102000 + 4 * of_nat (ptx x)) = (if ptx x = 0 then V2P 0x80103000 OR 7 else 0)"
    using demo_load [OF slot(2) [OF a b(2)]] ne by argo
  then show ?thesis using z b demo_tab [OF b(1)] by (cases "pdx x = 0") (simp_all del: of_nat_unat ucast_id add: pte_def pmap_def)
qed

lemma demo_um_wf: "um_wf 0x80100000 demo_vm [0x80104000] 0x80101000"
proof -
  have l: "leaf (mem demo_vm) 0x80101000 x = 0x80103000" "rnd 12 x = 0" if "present (mem demo_vm) 0x80101000 x" for x
    using that by (auto simp: leaf_def present_def demo_pte P2V_def V2P_def KERNBASE_def PTE_ADDR_def split: if_splits)
  have f: "foot (mem demo_vm) 0x80101000 = {0x80101000, 0x80102000}"
    by (auto simp: foot_def demo_tab split: if_splits intro!: exI [of _ 0])
  have a: "algn 2 (0x80104000 :: u32)" by (simp add: algn_unat)
  have "frees 0x80100000 demo_vm [0x80104000]"
    using demo_load [OF a] demo_page by (simp add: frees_def ptr_def) (simp add: demo_vm_def demo_kmem_def)
  then have "pt_wf 0x80100000 demo_vm [0x80104000] 0x80101000" using demo_page by (simp add: pt_wf_def demo_tab)
  then show ?thesis unfolding um_wf_def f using l demo_page by (simp add: KERNBASE_def)
qed

theorem setupkvm_maps_kernel_witness:
  "\<exists>d s' ps'. setupkvm 0x80100000 0x80108000 demo_kmem = Inr (d, s') \<and>
    (d \<noteq> 0 \<and> kbuilt 0x80100000 d demo_kmem [] s' ps' \<and> (\<forall>x. pte (mem s') d x = kernel_pte 0x80108000 x) \<or>
     d = 0 \<and> kvm_failed 0x80100000 demo_kmem [] s')"
  by (rule setupkvm_maps_kernel [OF demo_frees])
    (simp_all add: algn_unat KERNBASE_def KERNLINK_def EXTMEM_def PHYSTOP_def P2V_def)

theorem allocuvm_grows_or_restores_witness:
  "\<exists>r s' ps'. allocuvm 0x80100000 0x80101000 4096 8192 demo_vm = Inr (r, s') \<and>
    (r = 8192 \<and> grown 0x80100000 0x80101000 (PGROUNDUP 4096) 8192 demo_vm [0x80104000] s' ps' \<or>
     r = 0 \<and> restored 0x80100000 0x80101000 demo_vm [0x80104000] s' ps')"
proof (rule allocuvm_grows_or_restores [OF demo_um_wf])
  fix x :: u32 assume "PGROUNDUP 4096 \<le> x"
  moreover have "algn 12 (4096 :: u32)" by (simp add: algn_unat)
  ultimately have "4096 \<le> rnd 12 x" using rnd_ge [of 4096 x] by (simp add: PGROUNDUP_def PGSIZE_def)
  then show "\<not> present (mem demo_vm) 0x80101000 x" by (auto simp: present_def demo_pte)
qed (simp_all add: KERNBASE_def)

theorem freevm_returns_every_page_witness:
  "\<exists>s' qs. freevm 0x80100000 0x80101000 demo_vm = Inr s' \<and> frees 0x80100000 s' (qs @ [0x80104000]) \<and>
    set qs = foot (mem demo_vm) 0x80101000 \<union> leaves (mem demo_vm) 0x80101000"
  using freevm_returns_every_page [OF demo_um_wf] by blast

theorem copyuvm_copies_or_restores_witness:
  "\<exists>d s' ps'. copyuvm 0x80100000 0x80108000 0x80101000 4096 demo_vm = Inr (d, s') \<and>
    (d \<noteq> 0 \<and> copied 0x80100000 0x80108000 0x80101000 d 4096 (mem demo_vm) [0x80104000] s' ps' \<or>
     d = 0 \<and> kvm_failed 0x80100000 demo_vm [0x80104000] s')"
proof -
  have "present (mem demo_vm) 0x80101000 x" if "rnd 12 x < 4096" for x
  proof -
    obtain i where "unat (rnd 12 x) = 4096 * i" using algn12E [of "rnd 12 x"] by auto
    then have "rnd 12 x = 0" using that by (simp add: word_less_nat_alt unat_eq_0)
    then show ?thesis by (simp add: present_def demo_pte bit_simps)
  qed
  then show ?thesis using copyuvm_copies_or_restores [OF demo_um_wf, of 4096 "0x80108000"]
    by (auto simp: algn_unat KERNBASE_def KERNLINK_def EXTMEM_def PHYSTOP_def P2V_def)
qed

end
