(* ===== verification/Descriptors.thy ===== *)
theory Descriptors
  imports Frame VmUser
begin

text \<open>
  File descriptors and arguments of system calls (\<open>sysfile.c\<close>, \<open>syscall.c\<close>): the dispatcher, the effect of every
  call on the descriptors of the process and the kinds and counts of the open files, and the typing that all of them keep;
  the bounds within which arguments are fetched.
\<close>

section \<open>The system call table\<close>

text \<open>The entries of \<open>syscalls\<close> for the calls of \<open>sysfile.c\<close>, by their numbers.\<close>

definition file_syscalls :: "u32 \<Rightarrow> u32 \<Rightarrow> (nat \<times> ('a ustate_scheme \<Rightarrow> (int \<times> 'a ustate_scheme) res)) list" where
  "file_syscalls kend kdata =
     [(4, sys_pipe kend), (5, sys_read), (7, sys_exec kend kdata), (8, sys_fstat), (9, sys_chdir), (10, sys_dup),
      (15, sys_open kend), (16, sys_write), (17, sys_mknod), (18, sys_unlink), (19, sys_link), (20, sys_mkdir),
      (21, sys_close kend), (24, sys_make_duplicate)]"

section \<open>What a call does to descriptors and open files\<close>

definition fdv :: "'a ustate_scheme \<Rightarrow> (nat \<Rightarrow> ftype \<times> int) \<times> (nat \<Rightarrow> nat option)" where
  "fdv s = ((\<lambda>f. (f_type (files s f), f_ref (files s f))), ofile s)"

lemma fdv_upper: "fstate.more t = fstate.more s \<Longrightarrow> fdv t = fdv s" for s t :: "'a ustate_scheme"
  by (cases s; cases t) (simp add: fdv_def)

lemma fdv_lift:
  "yields (\<lambda>t. fstate.more t = fstate.more s) m \<Longrightarrow> fdv s = X \<Longrightarrow> yields (\<lambda>t. fdv t = X) m"
  "yields (\<lambda>(a, t). fstate.more t = fstate.more s) m2 \<Longrightarrow> fdv s = X \<Longrightarrow> yields (\<lambda>(a, t). fdv t = X) m2"
  by (auto simp: yields_def dest!: fdv_upper)

lemma fdv_upd [simp]:
  "fdv (inode_upd ip g s) = fdv s" "fdv (modify b h s) = fdv s" "fdv (s\<lparr>km := k\<rparr>) = fdv s" "fdv (s\<lparr>pipes := ps\<rparr>) = fdv s" "fdv (s\<lparr>woken := w\<rparr>) = fdv s"
  "fdv (s\<lparr>cwd := c\<rparr>) = fdv s" "fdv (s\<lparr>pgdir := d\<rparr>) = fdv s" "fdv (s\<lparr>usz := z\<rparr>) = fdv s" "fdv (s\<lparr>tf := fr\<rparr>) = fdv s" "fdv (s\<lparr>pname := nm\<rparr>) = fdv s"
  "fdv (s\<lparr>ftable_lock := l\<rparr>) = fdv s" "fdv (file_upd f (\<lambda>x. x\<lparr>f_off := off x\<rparr>) s) = fdv s"
  by (auto simp: fdv_def inode_upd_def modify_def buf_upd_def file_upd_def)

lemma fs_fdv [frame]:
  "fdv s = X \<Longrightarrow> yields (\<lambda>t. fdv t = X) (begin_op s)" "fdv s = X \<Longrightarrow> yields (\<lambda>t. fdv t = X) (end_op s)"
  "fdv s = X \<Longrightarrow> yields (\<lambda>t. fdv t = X) (ilock p s)" "fdv s = X \<Longrightarrow> yields (\<lambda>t. fdv t = X) (iunlock p s)"
  "fdv s = X \<Longrightarrow> yields (\<lambda>t. fdv t = X) (iput ip s)" "fdv s = X \<Longrightarrow> yields (\<lambda>t. fdv t = X) (iunlockput ip s)"
  "fdv s = X \<Longrightarrow> yields (\<lambda>t. fdv t = X) (iupdate ip s)"
  "fdv s = X \<Longrightarrow> yields (\<lambda>(a, t). fdv t = X) (readi ip off n s)" "fdv s = X \<Longrightarrow> yields (\<lambda>(a, t). fdv t = X) (writei ip src off n s)"
  "fdv s = X \<Longrightarrow> yields (\<lambda>(a, t). fdv t = X) (dirlookup dp name s)" "fdv s = X \<Longrightarrow> yields (\<lambda>(a, t). fdv t = X) (dirlink dp name inum s)"
  "fdv s = X \<Longrightarrow> yields (\<lambda>(a, t). fdv t = X) (ialloc dev t s)" "fdv s = X \<Longrightarrow> yields (\<lambda>(a, t). fdv t = X) (isdirempty dp s)"
  "fdv s = X \<Longrightarrow> yields (\<lambda>(a, t). fdv t = X) (namei path s)" "fdv s = X \<Longrightarrow> yields (\<lambda>(a, t). fdv t = X) (nameiparent path s)"
  "fdv s = X \<Longrightarrow> yields (\<lambda>(a, t). fdv t = X) (create path t mj mn s)"
  by - (rule fdv_lift, rule frame, rule refl, assumption)+

lemma yields_arg [frame]:
  "(\<And>x. yields Q (f1 x)) \<Longrightarrow> yields Q (bindR (m1 :: (nat \<times> nat) option res) f1)"
  "(\<And>x. yields Q (f2 x)) \<Longrightarrow> yields Q (bindR (m2 :: u32 option res) f2)" "(\<And>x. yields Q (f3 x)) \<Longrightarrow> yields Q (bindR (m3 :: u8 list option res) f3)"
  "(\<And>x. yields Q (f4 x)) \<Longrightarrow> yields Q (bindR (m4 :: u8 list list option res) f4)" "(\<And>x. yields Q (f5 x)) \<Longrightarrow> yields Q (bindR (m5 :: u8 list res) f5)"
  "(\<And>x. yields Q (f6 x)) \<Longrightarrow> yields Q (bindR (m6 :: kmem res) f6)" "(\<And>x. yields Q (f7 x)) \<Longrightarrow> yields Q (bindR (m7 :: ('v \<times> kmem) res) f7)"
  "(\<And>x. yields Q (f8 x)) \<Longrightarrow> yields Q (bindR (m8 :: u32 res) f8)"
  "(\<And>x. yields Q (f9 x)) \<Longrightarrow> yields Q (bindR (m9 :: (u8 list \<times> outcome \<times> pchan list \<times> pipe) res) f9)"
  "(\<And>x. yields Q (f10 x)) \<Longrightarrow> yields Q (bindR (m10 :: pipe_result) f10)" "(\<And>x. yields Q (f11 x)) \<Longrightarrow> yields Q (bindR (m11 :: (bool \<times> pchan list \<times> pipe) res) f11)"
  by (auto simp: yields_def bindR_eq_Inr)

lemma yields_outcome [frame]:
  "(\<And>v. r = Return v \<Longrightarrow> yields P (f v)) \<Longrightarrow> (\<And>c i. r = Sleep c i \<Longrightarrow> yields P (g c i)) \<Longrightarrow> yields P (case r of Return v \<Rightarrow> f v | Sleep c i \<Rightarrow> g c i)"
  by (cases r) simp_all

lemma user_store_fdv [frame]: "fdv s = X \<Longrightarrow> yields (\<lambda>t. fdv t = X) (user_store va b s)"
  unfolding user_store_def by (intro frame) simp_all

lemma user_put_fdv [frame]: "fdv s = X \<Longrightarrow> yields (\<lambda>t. fdv t = X) (user_put va bs s)"
proof (induction va bs s rule: user_put.induct)
  case (2 va b bs s)
  show ?case unfolding user_put.simps using "2.prems" by (intro frame "2.IH") assumption+
qed (simp add: yields_def)

lemma pipe_fdv [frame]:
  "fdv s = X \<Longrightarrow> yields (\<lambda>t. fdv t = X) (close_pipe kend a w s)"
  "fdv s = X \<Longrightarrow> yields (\<lambda>(v, t). fdv t = X) (read_pipe a n s)"
  "fdv s = X \<Longrightarrow> yields (\<lambda>(v, t). fdv t = X) (write_pipe a addr n s)"
  unfolding close_pipe_def read_pipe_def write_pipe_def by (intro frame; simp)+

lemma filestat_fdv [frame]: "fdv s = X \<Longrightarrow> yields (\<lambda>(v, t). fdv t = X) (filestat f s)"
  unfolding filestat_def by (intro frame) simp_all

lemma fileread_fdv [frame]: "fdv s = X \<Longrightarrow> yields (\<lambda>(v, t). fdv t = X) (fileread f n s)"
  unfolding fileread_def by (intro frame) (simp_all split: if_splits)

lemma filewrite_pass_fdv [frame]: "fdv s = X \<Longrightarrow> yields (\<lambda>(v, t). fdv t = X) (filewrite_pass f src n s)"
  unfolding filewrite_pass_def by (intro frame) (simp_all split: if_splits)

lemma filewrite_loop_fdv: "fdv s = X \<Longrightarrow> yields (\<lambda>(v, t). fdv t = X) (filewrite_loop f addr n i s)"
proof (induction f addr n i s rule: filewrite_loop.induct)
  case (1 f addr n i s)
  show ?case unfolding filewrite_loop.simps [of f addr n i s] using "1.prems"
    by (intro frame "1.IH") ((assumption | rule refl | simp)+)
qed

lemma filewrite_fdv [frame]: "fdv s = X \<Longrightarrow> yields (\<lambda>(v, t). fdv t = X) (filewrite f addr n s)"
  unfolding filewrite_def by (intro frame filewrite_loop_fdv) simp_all

lemma simple_calls_fdv [frame]:
  "fdv s = X \<Longrightarrow> yields (\<lambda>(v, t). fdv t = X) (sys_read s)" "fdv s = X \<Longrightarrow> yields (\<lambda>(v, t). fdv t = X) (sys_write s)"
  "fdv s = X \<Longrightarrow> yields (\<lambda>(v, t). fdv t = X) (sys_fstat s)" "fdv s = X \<Longrightarrow> yields (\<lambda>(v, t). fdv t = X) (link_bad ip s)"
  "fdv s = X \<Longrightarrow> yields (\<lambda>(v, t). fdv t = X) (unlink_bad ip s)" "fdv s = X \<Longrightarrow> yields (\<lambda>(v, t). fdv t = X) (unlink_entry dp ip off s)"
  "fdv s = X \<Longrightarrow> yields (\<lambda>(v, t). fdv t = X) (sys_mkdir s)" "fdv s = X \<Longrightarrow> yields (\<lambda>(v, t). fdv t = X) (sys_mknod s)"
  "fdv s = X \<Longrightarrow> yields (\<lambda>(v, t). fdv t = X) (sys_chdir s)"
  unfolding sys_read_def sys_write_def sys_fstat_def link_bad_def unlink_bad_def unlink_entry_def sys_mkdir_def sys_mknod_def sys_chdir_def
  by (intro frame; simp)+

lemma link_calls_fdv [frame]:
  "fdv s = X \<Longrightarrow> yields (\<lambda>(v, t). fdv t = X) (sys_link s)" "fdv s = X \<Longrightarrow> yields (\<lambda>(v, t). fdv t = X) (sys_unlink s)"
  unfolding sys_link_def sys_unlink_def by (intro frame; simp)+

subsection \<open>Duplicating a file\<close>

lemma duplicate_pass_fdv [frame]: "fdv s = X \<Longrightarrow> yields (\<lambda>(v, t). fdv t = X) (duplicate_pass sip dip off doff s)"
  unfolding duplicate_pass_def by (intro frame; simp)+

lemma duplicate_loop_fdv:
  assumes "duplicate_loop sip dip off doff s = Some r" "fdv s = X"
  shows "yields (\<lambda>(v, t). fdv t = X) r"
proof (rule duplicate_loop.raw_induct [where P = "\<lambda>sip dip off doff s r. fdv s = X \<longrightarrow> yields (\<lambda>(v, t). fdv t = X) r", OF _ assms(1), THEN mp, OF _ assms(2)], rule impI)
  fix f sip dip off doff and s :: "'a ustate_scheme" and r
  assume IH: "\<And>sip dip off doff s r. f sip dip off doff s = Some r \<Longrightarrow> fdv s = X \<longrightarrow> yields (\<lambda>(v, t). fdv t = X) r"
    and h: "(if off < i_size (inodes s sip)
      then case duplicate_pass sip dip off doff s of
             Inl e \<Rightarrow> Some (Inl e)
           | Inr (Inl v, s1) \<Rightarrow> Some (Inr (v, s1))
           | Inr (Inr r, s1) \<Rightarrow> f sip dip (off + of_int r) (doff + of_int r) s1
      else Some (bindR (iunlockput sip s) (\<lambda>s1. bindR (iput dip s1) (\<lambda>s2. Inr (0, s2))))) = Some r"
    and x: "fdv s = X"
  show "yields (\<lambda>(v, t). fdv t = X) r"
  proof (cases "off < i_size (inodes s sip)")
    case False
    have "yields (\<lambda>(v, t). fdv t = X) (bindR (iunlockput sip s) (\<lambda>s1. bindR (iput dip s1) (\<lambda>s2. Inr (0 :: int, s2))))"
      using x by (intro frame) simp_all
    then show ?thesis using h False by simp
  next
    case True
    show ?thesis
    proof (cases "duplicate_pass sip dip off doff s")
      case (Inl e)
      then show ?thesis using h True by (auto simp: yields_def)
    next
      case (Inr p)
      obtain v s1 where p: "p = (v, s1)" by (cases p)
      have x1: "fdv s1 = X" using duplicate_pass_fdv [OF x, of sip dip off doff] Inr p by (simp add: yields_def)
      show ?thesis
      proof (cases v)
        case (Inl w)
        then show ?thesis using h True Inr p x1 by (auto simp: yields_def)
      next
        case (Inr w)
        then have "f sip dip (off + of_int w) (doff + of_int w) s1 = Some r" using h True \<open>duplicate_pass sip dip off doff s = Inr p\<close> p by simp
        then show ?thesis using IH x1 by blast
      qed
    qed
  qed
qed

lemma duplicate_loop_res_fdv [frame]: "fdv s = X \<Longrightarrow> yields (\<lambda>(v, t). fdv t = X) (loop_res (duplicate_loop sip dip off doff s))"
  using duplicate_loop_fdv [of sip dip off doff s _ X]
  by (cases "duplicate_loop sip dip off doff s") (auto simp: loop_res_def yields_def)

lemma give_up_fdv [frame]: "fdv s = X \<Longrightarrow> yields (\<lambda>(v, t). fdv t = X) (give_up sip r s)"
  unfolding give_up_def by (intro frame; simp)+

lemma make_duplicate_fdv [frame]: "fdv s = X \<Longrightarrow> yields (\<lambda>(v, t). fdv t = X) (make_duplicate src s)"
  unfolding make_duplicate_def by (intro frame; simp)+

lemma sys_make_duplicate_fdv: "fdv s = X \<Longrightarrow> yields (\<lambda>(v, t). fdv t = X) (sys_make_duplicate s)"
  unfolding sys_make_duplicate_def by (intro frame; simp)+

subsection \<open>Loading a program\<close>

lemma loaduvm_loop_fdv:
  assumes "loaduvm_loop pgd addr ip off sz i s = Some r" "fdv s = X"
  shows "yields (\<lambda>(v, t). fdv t = X) r"
proof (rule loaduvm_loop.raw_induct [where P = "\<lambda>pgd addr ip off sz i s r. fdv s = X \<longrightarrow> yields (\<lambda>(v, t). fdv t = X) r", OF _ assms(1), THEN mp, OF _ assms(2)], rule impI)
  fix f pgd addr ip off sz i and s :: "'a ustate_scheme" and r
  assume IH: "\<And>pgd addr ip off sz i s r. f pgd addr ip off sz i s = Some r \<Longrightarrow> fdv s = X \<longrightarrow> yields (\<lambda>(v, t). fdv t = X) r"
    and h: "(if i < sz
      then case walkpgdir pgd (addr + i) False (km s) of
             Inl e \<Rightarrow> Some (Inl e)
           | Inr (pt, _) \<Rightarrow>
               if pt = 0 then Some (Inl (Panic ''loaduvm: address should exist''))
               else
                 let pa = PTE_ADDR (load32 (mem (km s)) pt); n = (if sz - i < PGSIZE then sz - i else PGSIZE) in
                 case readi ip (off + i) n s of
                   Inl e \<Rightarrow> Some (Inl e)
                 | Inr ((r, bs), s1) \<Rightarrow>
                     let s2 = s1\<lparr>km := (km s1)\<lparr>mem := poke (P2V pa) bs (mem (km s1))\<rparr>\<rparr> in
                     if of_int r \<noteq> n then Some (Inr (-1, s2))
                     else f pgd addr ip off sz (i + PGSIZE) s2
      else Some (Inr (0, s))) = Some r"
    and x: "fdv s = X"
  have rd: "fdv s1 = X" if "readi ip (off + i) n s = Inr ((v, bs), s1)" for n v bs s1
    using yieldsD [OF fs_fdv(8) [OF x] that] by simp
  show "yields (\<lambda>(v, t). fdv t = X) r"
    using h x by (auto simp: yields_def Let_def split: if_splits sum.splits prod.splits dest!: rd IH)
qed

lemma loaduvm_fdv [frame]: "fdv s = X \<Longrightarrow> yields (\<lambda>(v, t). fdv t = X) (loaduvm pgd addr ip off sz s)"
  using loaduvm_loop_fdv [of pgd addr ip off sz 0 s _ X]
  by (cases "loaduvm_loop pgd addr ip off sz 0 s") (auto simp: loaduvm_def loop_res_def yields_def)

lemma load_segment_fdv [frame]: "fdv s = X \<Longrightarrow> yields (\<lambda>(v, t). fdv t = X) (load_segment kend pgd ip off sz s)"
  unfolding load_segment_def by (intro frame; simp)+

lemma load_segments_fdv [frame]: "fdv s = X \<Longrightarrow> yields (\<lambda>(v, t). fdv t = X) (load_segments kend pgd ip n off sz s)"
proof (induction kend pgd ip n off sz s rule: load_segments.induct)
  case (2 kend pgd ip n off sz s)
  show ?case unfolding load_segments.simps using "2.prems" by (intro frame "2.IH") ((assumption | rule refl | simp)+)
qed (simp add: yields_def)

lemma exec_parts_fdv [frame]:
  "fdv s = X \<Longrightarrow> yields (\<lambda>(v, t). fdv t = X) (exec_bad kend pgd ip s)"
  "fdv s = X \<Longrightarrow> yields (\<lambda>(v, t). fdv t = X) (exec_commit kend path pgd sz sp eip s)"
  unfolding exec_bad_def exec_commit_def by (intro frame; simp)+

lemma exec_fdv [frame]: "fdv s = X \<Longrightarrow> yields (\<lambda>(v, t). fdv t = X) (exec kend kdata path argv s)"
  unfolding exec_def by (intro frame; simp)+

lemma sys_exec_fdv: "fdv s = X \<Longrightarrow> yields (\<lambda>(v, t). fdv t = X) (sys_exec kend kdata s)"
  unfolding sys_exec_def by (intro frame; simp)+

section \<open>Typed descriptors\<close>

text \<open>
  A descriptor in use names an entry of the table of open files that has a kind; the entry counts at least the
  descriptors that name it and \<open>E f\<close> further references that a call holds on the way; an entry without references has no kind.
\<close>

definition fds :: "(nat \<Rightarrow> nat option) \<Rightarrow> nat \<Rightarrow> nat set" where
  "fds ofl f = {fd. fd < NOFILE \<and> ofl fd = Some f}"

definition typed :: "(nat \<Rightarrow> nat) \<Rightarrow> (nat \<Rightarrow> ftype \<times> int) \<times> (nat \<Rightarrow> nat option) \<Rightarrow> bool" where
  "typed E = (\<lambda>(v, ofl). (\<forall>fd<NOFILE. \<forall>f. ofl fd = Some f \<longrightarrow> f < NFILE \<and> fst (v f) \<noteq> FD_NONE) \<and>
     (\<forall>f. int (card (fds ofl f) + E f) \<le> snd (v f)) \<and> (\<forall>f<NFILE. snd (v f) = 0 \<longrightarrow> fst (v f) = FD_NONE))"

definition fd_typed :: "'a ustate_scheme \<Rightarrow> bool" where
  "fd_typed s \<longleftrightarrow> typed (\<lambda>_. 0) (fdv s)"

lemma finite_fds [simp]: "finite (fds ofl f)"
  by (simp add: fds_def)

lemma typedI:
  assumes "\<And>fd f. fd < NOFILE \<Longrightarrow> ofl fd = Some f \<Longrightarrow> f < NFILE \<and> fst (v f) \<noteq> FD_NONE"
    "\<And>f. int (card (fds ofl f) + E f) \<le> snd (v f)" "\<And>f. f < NFILE \<Longrightarrow> snd (v f) = 0 \<Longrightarrow> fst (v f) = FD_NONE"
  shows "typed E (v, ofl)"
  using assms by (simp add: typed_def)

lemma typedD:
  assumes "typed E (v, ofl)"
  shows "fd < NOFILE \<Longrightarrow> ofl fd = Some f \<Longrightarrow> f < NFILE" "fd < NOFILE \<Longrightarrow> ofl fd = Some f \<Longrightarrow> fst (v f) \<noteq> FD_NONE"
    "int (card (fds ofl f) + E f) \<le> snd (v f)" "f < NFILE \<Longrightarrow> snd (v f) = 0 \<Longrightarrow> fst (v f) = FD_NONE"
  using assms by (auto simp: typed_def)

lemma typed_alloc:
  assumes "typed E (v, ofl)" "f < NFILE" "snd (v f) = 0"
  shows "typed (E(f := 1)) (v(f := (fst (v f), 1)), ofl)" "fst (v f) = FD_NONE" "E f = 0"
proof -
  have c: "int (card (fds ofl f) + E f) \<le> 0" using assms by (metis (mono_tags, lifting) case_prodD typed_def)
  then show "E f = 0" by simp
  have "card (fds ofl f) = 0" using c by linarith
  then have n: "fds ofl f = {}" by simp
  show "fst (v f) = FD_NONE" using assms by (auto simp: typed_def)
  show "typed (E(f := 1)) (v(f := (fst (v f), 1)), ofl)" using assms n by (auto simp: typed_def fds_def)
qed

lemma typed_install:
  assumes "typed E (v, ofl)" "f < NFILE" "1 \<le> E f" "fd < NOFILE" "ofl fd = None" "T \<noteq> FD_NONE"
  shows "typed (E(f := E f - 1)) (v(f := (T, snd (v f))), ofl(fd := Some f))"
proof -
  have d: "fds (ofl(fd := Some f)) g = (if g = f then insert fd (fds ofl g) else fds ofl g)" for g
    using assms(4,5) by (auto simp: fds_def)
  have "fd \<notin> fds ofl f" using assms(5) by (simp add: fds_def)
  then have k: "int (card (fds (ofl(fd := Some f)) g) + (E(f := E f - 1)) g) \<le> snd (v g)" for g
    using assms(3) typedD(3) [OF assms(1), of g] by (auto simp: d)
  show ?thesis
  proof (rule typedI)
    show "fd' < NOFILE \<Longrightarrow> (ofl(fd := Some f)) fd' = Some g \<Longrightarrow> g < NFILE \<and> fst ((v(f := (T, snd (v f)))) g) \<noteq> FD_NONE" for fd' g
      using assms typedD(1,2) [OF assms(1), of fd' g] by (auto split: if_splits)
    show "int (card (fds (ofl(fd := Some f)) g) + (E(f := E f - 1)) g) \<le> snd ((v(f := (T, snd (v f)))) g)" for g
      using k [of g] by (cases "g = f") simp_all
    show "g < NFILE \<Longrightarrow> snd ((v(f := (T, snd (v f)))) g) = 0 \<Longrightarrow> fst ((v(f := (T, snd (v f)))) g) = FD_NONE" for g
      using typedD(3,4) [OF assms(1), of g] assms(3) by (auto split: if_splits)
  qed
qed

lemma typed_uninstall:
  assumes "typed E (v, ofl)" "fd < NOFILE" "ofl fd = Some f"
  shows "typed (E(f := E f + 1)) (v, ofl(fd := None))"
proof -
  have d: "fds (ofl(fd := None)) g = (if g = f then fds ofl g - {fd} else fds ofl g)" for g
    using assms(3) by (auto simp: fds_def)
  have m: "fd \<in> fds ofl f" using assms by (simp add: fds_def)
  then have c: "card (fds ofl f - {fd}) + 1 = card (fds ofl f)" by (metis Suc_eq_plus1 card_Suc_Diff1 finite_fds)
  have r: "int (card (fds ofl g) + E g) \<le> snd (v g)" for g using assms(1) by (auto simp: typed_def)
  have "int (card (fds (ofl(fd := None)) g) + (E(f := E f + 1)) g) \<le> snd (v g)" for g
  proof (cases "g = f")
    case True
    then show ?thesis using c r [of f] by (simp add: d)
  next
    case False
    then show ?thesis using r [of g] by (simp add: d)
  qed
  then show ?thesis using assms by (auto simp: typed_def)
qed

definition closed_view :: "nat \<Rightarrow> (nat \<Rightarrow> ftype \<times> int) \<Rightarrow> nat \<Rightarrow> ftype \<times> int" where
  "closed_view f v = v(f := (if 0 < snd (v f) - 1 then (fst (v f), snd (v f) - 1) else (FD_NONE, 0)))"

lemma typed_close:
  assumes "typed E (v, ofl)" "1 \<le> E f"
  shows "typed (E(f := E f - 1)) (closed_view f v, ofl)"
proof -
  have r: "int (card (fds ofl g) + E g) \<le> snd (v g)" for g using assms(1) by (auto simp: typed_def)
  have e: "fd < NOFILE \<Longrightarrow> ofl fd = Some f \<Longrightarrow> 0 < snd (v f) - 1" for fd
  proof -
    assume "fd < NOFILE" "ofl fd = Some f"
    then have "fds ofl f \<noteq> {}" by (auto simp: fds_def)
    then have "0 < card (fds ofl f)" using finite_fds [of ofl f] by (simp add: card_gt_0_iff)
    then show ?thesis using r [of f] assms(2) by linarith
  qed
  have "int (card (fds ofl g) + (E(f := E f - 1)) g) \<le> snd (closed_view f v g)" for g
    using r [of g] assms(2) by (auto simp: closed_view_def)
  then show ?thesis using assms e by (auto simp: typed_def closed_view_def)
qed

lemma typed_ref:
  assumes "typed E (v, ofl)" "1 \<le> snd (v f)"
  shows "typed (E(f := E f + 1)) (v(f := (fst (v f), snd (v f) + 1)), ofl)"
proof -
  have "int (card (fds ofl g) + E g) \<le> snd (v g)" for g using assms(1) by (auto simp: typed_def)
  then show ?thesis using assms by (auto simp: typed_def)
qed

lemma typed_kind: "typed E (v, ofl) \<Longrightarrow> T \<noteq> FD_NONE \<Longrightarrow> 0 < snd (v f) \<Longrightarrow> typed E (v(f := (T, snd (v f))), ofl)"
  by (auto simp: typed_def)

subsection \<open>The operations on open files\<close>

lemma fdv_parts: "fdv s = (fst (fdv s), ofile s)"
  by (simp add: fdv_def)

lemma filealloc_view:
  "yields (\<lambda>(r, t). case r of None \<Rightarrow> fdv t = fdv s
     | Some f \<Rightarrow> f < NFILE \<and> snd (fst (fdv s) f) = 0 \<and> fdv t = ((fst (fdv s))(f := (fst (fst (fdv s) f), 1)), ofile s)) (filealloc s)"
  by (auto simp: filealloc_def ftable_acquire_def ftable_release_def yields_def bindR_eq_Inr fdv_def file_upd_def lock_take_def lock_drop_def fun_eq_iff
      first_index_Some split: option.splits if_splits)

lemma filedup_view:
  "yields (\<lambda>(r, t). 1 \<le> snd (fst (fdv s) f) \<and> fdv t = ((fst (fdv s))(f := (fst (fst (fdv s) f), snd (fst (fdv s) f) + 1)), ofile s)) (filedup f s)"
  by (auto simp: filedup_def ftable_acquire_def ftable_release_def yields_def bindR_eq_Inr fdv_def file_upd_def lock_take_def lock_drop_def fun_eq_iff
      split: if_splits)

lemma fdalloc_view:
  "fdalloc f s = (r, t) \<Longrightarrow> (case r of None \<Rightarrow> t = s | Some fd \<Rightarrow> fd < NOFILE \<and> ofile s fd = None \<and> t = s\<lparr>ofile := (ofile s)(fd := Some f)\<rparr>)"
  by (auto simp: fdalloc_def first_index_Some split: option.splits)

lemma fdv_ofile [simp]: "fdv (s\<lparr>ofile := x\<rparr>) = (fst (fdv s), x)" "snd (fdv s) = ofile s"
  by (simp_all add: fdv_def)

lemma ftable_release_fdv: "fdv s = X \<Longrightarrow> yields (\<lambda>t. fdv t = X) (ftable_release s)"
  by (auto simp: ftable_release_def yields_def bindR_eq_Inr fdv_def)

lemma fileclose_view: "yields (\<lambda>t. fdv t = (closed_view f (fst (fdv s)), ofile s)) (fileclose kend f s)"
proof -
  define s1 where "s1 = s\<lparr>ftable_lock := True\<rparr>"
  let ?s2 = "file_upd f (\<lambda>x. x\<lparr>f_ref := f_ref x - 1\<rparr>) s1"
  have open_: "0 < f_ref (files ?s2 f) \<Longrightarrow> fdv ?s2 = (closed_view f (fst (fdv s)), ofile s)"
    by (auto simp: s1_def fdv_def closed_view_def file_upd_def fun_eq_iff)
  have shut: "\<not> 0 < f_ref (files ?s2 f) \<Longrightarrow>
      fdv (file_upd f (\<lambda>x. x\<lparr>f_ref := 0, f_type := FD_NONE\<rparr>) ?s2) = (closed_view f (fst (fdv s)), ofile s)"
    by (auto simp: s1_def fdv_def closed_view_def file_upd_def fun_eq_iff)
  have acq: "ftable_acquire s = Inr t \<Longrightarrow> t = s1" for t
    by (auto simp: ftable_acquire_def bindR_eq_Inr lock_take_def s1_def split: if_splits)
  show ?thesis unfolding fileclose_def
  proof (rule yields_bind [where P = "\<lambda>t. t = s1"])
    show "yields (\<lambda>t. t = s1) (ftable_acquire s)" using acq by (simp add: yields_def)
  next
    fix t assume t: "t = s1"
    show "yields (\<lambda>t. fdv t = (closed_view f (fst (fdv s)), ofile s))
      (if f_ref (files t f) < 1 then Inl (Panic ''fileclose'')
       else let s2 = file_upd f (\<lambda>x. x\<lparr>f_ref := f_ref x - 1\<rparr>) t in
         if 0 < f_ref (files s2 f) then ftable_release s2
         else let ff = files s2 f in
           bindR (ftable_release (file_upd f (\<lambda>x. x\<lparr>f_ref := 0, f_type := FD_NONE\<rparr>) s2)) (\<lambda>s3.
             if f_type ff = FD_PIPE then close_pipe kend (f_pipe ff) (f_writable ff) s3
             else if f_type ff = FD_INODE then bindR (begin_op s3) (\<lambda>s4. bindR (iput (f_ip ff) s4) end_op) else Inr s3))"
      unfolding t by (intro frame ftable_release_fdv) (use open_ shut in simp_all)
  qed
qed

subsection \<open>The calls that change descriptors\<close>

lemma sint_nonneg: "0 \<le> sint (x :: u32) \<Longrightarrow> sint x = int (unat x)"
proof -
  assume a: "0 \<le> sint x"
  have u: "0 \<le> uint x" "uint x < 2 ^ 32" using uint_lt2p [of x] by simp_all
  have e: "sint x = (uint x + 2 ^ 31) mod 2 ^ 32 - 2 ^ 31" using int_word_sint [of "uint x", where 'a = 32] by simp
  have "uint x < 2 ^ 31"
  proof (rule ccontr)
    assume "\<not> uint x < 2 ^ 31"
    then have "(uint x + 2 ^ 31 - 2 ^ 32) mod 2 ^ 32 = uint x - 2 ^ 31" using u by (simp add: mod_pos_pos_trivial)
    then have "(uint x + 2 ^ 31) mod 2 ^ 32 = uint x - 2 ^ 31" by (simp only: minus_mod_self2)
    then show False using a e u by simp
  qed
  then have "sint x = uint x" using e u by (simp add: mod_pos_pos_trivial)
  then show ?thesis by simp
qed

lemma argfd_ofile: "argfd n s = Inr (Some (fd, f)) \<Longrightarrow> fd < NOFILE \<and> ofile s fd = Some f"
proof -
  assume "argfd n s = Inr (Some (fd, f))"
  then obtain i :: "u32 option" where i: "(case i of None \<Rightarrow> None
       | Some x \<Rightarrow> if sint x < 0 \<or> int NOFILE \<le> sint x then None
                    else (case ofile s (unat x) of None \<Rightarrow> None | Some f \<Rightarrow> Some (unat x, f))) = Some (fd, f)"
    by (auto simp: argfd_def bindR_eq_Inr)
  then obtain x where x: "i = Some x" by (cases i) auto
  have n: "0 \<le> sint x" "sint x < int NOFILE" using i x by (auto split: if_split_asm)
  then have "unat x < NOFILE" using sint_nonneg [OF n(1)] by linarith
  then show ?thesis using i x n by (auto split: option.split_asm)
qed

lemma argfd_typed: "yields (\<lambda>a. \<forall>fd f. a = Some (fd, f) \<longrightarrow> fd < NOFILE \<and> ofile s fd = Some f) (argfd n s)"
  using argfd_ofile by (auto simp: yields_def)

lemma typed_fdv: "typed E (fdv s) \<longleftrightarrow> typed E (fst (fdv s), ofile s)"
  by (metis fdv_parts)

lemma no_extra [simp]: "(\<lambda>_. 0)(f := 0) = (\<lambda>_. 0)"
  by auto

lemma sys_dup_typed: "fd_typed s \<Longrightarrow> yields (\<lambda>(r, t). fd_typed t) (sys_dup s)"
  unfolding sys_dup_def
proof (rule yields_bind [OF argfd_typed], rule yields_option, goal_cases)
  case (1 a)
  then show ?case by (simp add: yields_def)
next
  case (2 a y)
  obtain fd f where y: "y = (fd, f)" by (cases y)
  have o: "fd < NOFILE" "ofile s fd = Some f" using 2 y by auto
  have t: "typed (\<lambda>_. 0) (fst (fdv s), ofile s)" using 2(1) by (simp add: fd_typed_def typed_fdv)
  have f: "f < NFILE" "fst (fst (fdv s) f) \<noteq> FD_NONE" using typedD(1,2) [OF t o] by simp_all
  show ?case unfolding y prod.case
  proof (cases "fdalloc f s")
    case (Pair r s1)
    show "yields (\<lambda>(r, t). fd_typed t) (case fdalloc f s of (None, s1) \<Rightarrow> Inr (- 1, s1) | (Some fd, s1) \<Rightarrow> bindR (filedup f s1) (\<lambda>(_, s2). Inr (int fd, s2)))"
    proof (cases r)
      case None
      then show ?thesis using Pair fdalloc_view [OF Pair] 2(1) by (simp add: yields_def)
    next
      case (Some fd')
      then have s1: "fd' < NOFILE" "ofile s fd' = None" "s1 = s\<lparr>ofile := (ofile s)(fd' := Some f)\<rparr>"
        using fdalloc_view [OF Pair] by simp_all
      have v: "fst (fdv s1) = fst (fdv s)" "ofile s1 = (ofile s)(fd' := Some f)" using s1(3) by simp_all
      show ?thesis unfolding Pair Some prod.case option.case
      proof (rule yields_bind [OF filedup_view], clarify)
        fix g u assume u: "1 \<le> snd (fst (fdv s1) f)" "fdv u = ((fst (fdv s1))(f := (fst (fst (fdv s1) f), snd (fst (fdv s1) f) + 1)), ofile s1)"
        have "typed ((\<lambda>_. 0)(f := 0 + 1)) ((fst (fdv s))(f := (fst (fst (fdv s) f), snd (fst (fdv s) f) + 1)), ofile s)"
          using typed_ref [OF t] u(1) unfolding v by blast
        from typed_install [OF this f(1) _ s1(1,2) f(2)] have "typed (\<lambda>_. 0) (fdv u)"
          unfolding u(2) v by simp
        then show "yields (\<lambda>(r, t). fd_typed t) (Inr (int fd', u))" by (simp add: yields_def fd_typed_def)
      qed
    qed
  qed
qed

lemma sys_close_typed: "fd_typed s \<Longrightarrow> yields (\<lambda>(r, t). fd_typed t) (sys_close kend s)"
  unfolding sys_close_def
proof (rule yields_bind [OF argfd_typed], rule yields_option, goal_cases)
  case (1 a)
  then show ?case by (simp add: yields_def)
next
  case (2 a y)
  obtain fd f where y: "y = (fd, f)" by (cases y)
  have o: "fd < NOFILE" "ofile s fd = Some f" using 2 y by auto
  have t: "typed (\<lambda>_. 0) (fst (fdv s), ofile s)" using 2(1) by (simp add: fd_typed_def typed_fdv)
  have "typed (((\<lambda>_. 0)(f := 0 + 1))(f := ((\<lambda>_. 0)(f := 0 + 1)) f - 1)) (closed_view f (fst (fdv s)), (ofile s)(fd := None))"
    using typed_close [OF typed_uninstall [OF t o], of f] by simp
  then have c: "typed (\<lambda>_. 0) (closed_view f (fst (fdv s)), (ofile s)(fd := None))" by simp
  show ?case unfolding y prod.case
  proof (rule yields_bind [OF fileclose_view])
    fix u assume "fdv u = (closed_view f (fst (fdv (s\<lparr>ofile := (ofile s)(fd := None)\<rparr>))), ofile (s\<lparr>ofile := (ofile s)(fd := None)\<rparr>))"
    then show "yields (\<lambda>(r, t). fd_typed t) (Inr (0, u))" using c by (simp add: yields_def fd_typed_def)
  qed
qed

lemma open_parts_fdv:
  "fdv s = X \<Longrightarrow> yields (\<lambda>(v, t). fdv t = X) (open_inode path omode s)"
  "fdv s = X \<Longrightarrow> yields (\<lambda>(v, t). fdv t = X) (open_bad ip s)"
  unfolding open_inode_def open_bad_def by (intro frame; simp)+

lemma typed_alloc_view:
  assumes "typed E (fdv s)" "f < NFILE" "snd (fst (fdv s) f) = 0" "fdv t = ((fst (fdv s))(f := (fst (fst (fdv s) f), 1)), ofile s)"
  shows "typed (E(f := 1)) (fdv t)" "E f = 0"
  using typed_alloc [of E "fst (fdv s)" "ofile s" f] assms typed_fdv [of E s] by simp_all

lemma typed_close_view:
  assumes "typed E (fdv s)" "E f = 1" "fdv t = (closed_view f (fst (fdv s)), ofile s)"
  shows "typed (E(f := 0)) (fdv t)"
  using typed_close [of E "fst (fdv s)" "ofile s" f] assms typed_fdv [of E s] by simp

lemma opened_typed:
  assumes t: "typed ((\<lambda>_. 0)(f := 1)) (fdv s)" "f < NFILE" and fd: "fd < NOFILE" "ofile s fd = None"
    and u: "fdv u = (fst (fdv s), (ofile s)(fd := Some f))" and T: "\<And>x. f_type (g x) = FD_INODE" "\<And>x. f_ref (g x) = f_ref x"
  shows "fd_typed (file_upd f g u)"
proof -
  have "typed (((\<lambda>_. 0)(f := 1))(f := ((\<lambda>_. 0)(f := 1)) f - 1)) ((fst (fdv s))(f := (FD_INODE, snd (fst (fdv s) f))), (ofile s)(fd := Some f))"
    using t typed_fdv [of _ s] by (intro typed_install) (simp_all add: fd)
  moreover have "fdv (file_upd f g u) = ((fst (fdv u))(f := (FD_INODE, snd (fst (fdv u) f))), ofile u)"
    using T by (auto simp: fdv_def file_upd_def fun_eq_iff)
  moreover have "ofile u = (ofile s)(fd := Some f)" using u by (simp add: fdv_def)
  ultimately show ?thesis using u by (simp add: fd_typed_def)
qed

lemma typed_done: "yields (\<lambda>(r, t). fdv t = X) m \<Longrightarrow> typed (\<lambda>_. 0) X \<Longrightarrow> yields (\<lambda>(r, t). fd_typed t) m"
  by (auto simp: yields_def fd_typed_def)

lemma close_typed:
  assumes "typed (E(f := 1)) (fdv s)"
  shows "yields (\<lambda>t. typed (E(f := 0)) (fdv t)) (fileclose kend f s)"
proof -
  have "typed (E(f := 0)) (fdv t)" if "fdv t = (closed_view f (fst (fdv s)), ofile s)" for t :: "'a ustate_scheme"
    using typed_close_view [OF assms _ that] by simp
  then show ?thesis by (rule yields_mono [OF fileclose_view])
qed

lemma open_installed:
  assumes "typed ((\<lambda>_. 0)(f := 1)) (fdv s)" "f < NFILE" "fdalloc f s = (Some fd, s1)" "\<And>x. f_type (g x) = FD_INODE" "\<And>x. f_ref (g x) = f_ref x"
  shows "yields (\<lambda>(r, t). fd_typed t) (bindR (iunlock (Some ip) s1) (\<lambda>s5. bindR (end_op s5) (\<lambda>s6. Inr (int fd, file_upd f g s6))))"
proof -
  have fd: "fd < NOFILE" "ofile s fd = None" "s1 = s\<lparr>ofile := (ofile s)(fd := Some f)\<rparr>" using fdalloc_view [OF assms(3)] by simp_all
  have v: "fdv s1 = (fst (fdv s), (ofile s)(fd := Some f))" using fd(3) by simp
  show ?thesis
    by (rule yields_bind [OF fs_fdv(4) [OF v]], rule yields_bind [OF fs_fdv(2)], assumption, rule yields_Inr)
      (use opened_typed [OF assms(1,2) fd(1,2) _ assms(4,5)] in simp)
qed

text \<open>A call that has allocated the entry \<open>f\<close> and goes on with it or gives it back.\<close>

lemma yields_filealloc:
  assumes "typed E (fdv s)" "\<And>t. typed E (fdv t) \<Longrightarrow> yields Q (g None t)"
    "\<And>f t. typed (E(f := 1)) (fdv t) \<Longrightarrow> f < NFILE \<Longrightarrow> E f = 0 \<Longrightarrow> yields Q (g (Some f) t)"
  shows "yields Q (bindR (filealloc s) (case_prod g))"
proof (rule yields_bind [OF filealloc_view])
  fix p :: "nat option \<times> 'a ustate_scheme"
  assume p: "case p of (r, t) \<Rightarrow> (case r of None \<Rightarrow> fdv t = fdv s
     | Some f \<Rightarrow> f < NFILE \<and> snd (fst (fdv s) f) = 0 \<and> fdv t = ((fst (fdv s))(f := (fst (fst (fdv s) f), 1)), ofile s))"
  obtain r t where rt: "p = (r, t)" by (cases p)
  show "yields Q (case_prod g p)"
  proof (cases r)
    case None
    then show ?thesis using p rt assms(1,2) by simp
  next
    case (Some f)
    have a: "f < NFILE" "snd (fst (fdv s) f) = 0" "fdv t = ((fst (fdv s))(f := (fst (fst (fdv s) f), 1)), ofile s)"
      using p unfolding rt Some by simp_all
    show ?thesis unfolding rt Some prod.case by (rule assms(3) [OF typed_alloc_view(1) [OF assms(1) a] a(1) typed_alloc_view(2) [OF assms(1) a]])
  qed
qed

lemma yields_kept:
  "yields (\<lambda>t. fdv t = X) m \<Longrightarrow> (\<And>t. fdv t = X \<Longrightarrow> yields Q (f t)) \<Longrightarrow> yields Q (bindR m f)"
  "yields (\<lambda>(v, t). fdv t = X) m2 \<Longrightarrow> (\<And>v t. fdv t = X \<Longrightarrow> yields Q (f2 v t)) \<Longrightarrow> yields Q (bindR m2 (case_prod f2))"
  by (auto simp: yields_def bindR_eq_Inr)

lemma sys_open_typed:
  assumes s: "fd_typed s"
  shows "yields (\<lambda>(r, t). fd_typed t) (sys_open kend s)"
proof -
  have bad: "yields (\<lambda>(r, t). fd_typed t) (open_bad ip t)" if "typed (\<lambda>_. 0) (fdv t)" for ip and t :: "'a ustate_scheme"
    using typed_done [OF open_parts_fdv(2) [OF refl] that] .
  have step: "yields (\<lambda>(r, t). fd_typed t)
      (case fdalloc f t of (None, s4) \<Rightarrow> bindR (fileclose kend f s4) (open_bad ip)
       | (Some fd, s4) \<Rightarrow> bindR (iunlock (Some ip) s4) (\<lambda>s5. bindR (end_op s5) (\<lambda>s6.
           Inr (int fd, file_upd f (\<lambda>x. x\<lparr>f_type := FD_INODE, f_ip := ip, f_off := 0, f_readable := a, f_writable := b\<rparr>) s6))))"
    if t: "typed ((\<lambda>_. 0)(f := 1)) (fdv t)" "f < NFILE" for f ip a b and t :: "'a ustate_scheme"
  proof (cases "fdalloc f t")
    case (Pair r s4)
    show ?thesis
    proof (cases r)
      case None
      then have st: "s4 = t" using fdalloc_view [OF Pair] by simp
      have "yields (\<lambda>t. typed (\<lambda>_. 0) (fdv t)) (fileclose kend f t)" using close_typed [OF t(1), of kend] by simp
      then show ?thesis unfolding Pair None st prod.case option.case by (rule yields_bind [OF _ bad])
    next
      case (Some fd)
      then show ?thesis unfolding Pair Some prod.case option.case using open_installed [OF t Pair [unfolded Some]] by simp
    qed
  qed
  have t0: "typed (\<lambda>_. 0) (fdv s)" using s by (simp add: fd_typed_def)
  show ?thesis unfolding sys_open_def
    by (intro yields_arg yields_option yields_kept [where X = "fdv s"] fs_fdv open_parts_fdv yields_filealloc [where E = "\<lambda>_. 0"] step bad)
      (simp_all add: yields_def fd_typed_def t0)
qed

lemma bad_typed:
  "typed (\<lambda>_. 0) (fdv s) \<Longrightarrow> yields (\<lambda>(r, t). r = None \<and> typed (\<lambda>_. 0) (fdv t)) (pipealloc_bad kend 0 None None s)"
  "typed ((\<lambda>_. 0)(f := 1)) (fdv s) \<Longrightarrow> yields (\<lambda>(r, t). r = None \<and> typed (\<lambda>_. 0) (fdv t)) (pipealloc_bad kend 0 (Some f) None s)"
  "typed ((\<lambda>_. 0)(f := 1, g := 1)) (fdv s) \<Longrightarrow> f \<noteq> g \<Longrightarrow>
    yields (\<lambda>(r, t). r = None \<and> typed (\<lambda>_. 0) (fdv t)) (pipealloc_bad kend 0 (Some f) (Some g) s)"
proof -
  assume "typed (\<lambda>_. 0) (fdv s)"
  then show "yields (\<lambda>(r, t). r = None \<and> typed (\<lambda>_. 0) (fdv t)) (pipealloc_bad kend 0 None None s)"
    by (simp add: pipealloc_bad_def yields_def)
next
  assume "typed ((\<lambda>_. 0)(f := 1)) (fdv s)"
  from close_typed [OF this] show "yields (\<lambda>(r, t). r = None \<and> typed (\<lambda>_. 0) (fdv t)) (pipealloc_bad kend 0 (Some f) None s)"
    by (auto simp: pipealloc_bad_def intro!: yields_bind yields_Inr)
next
  assume a: "typed ((\<lambda>_. 0)(f := 1, g := 1)) (fdv s)" and "f \<noteq> g"
  then have e: "(\<lambda>_. 0)(f := 1, g := 1) = ((\<lambda>_. 0)(g := 1))(f := 1)" "((\<lambda>_. 0)(g := 1))(f := 0) = (\<lambda>_. 0)(g := 1)" by auto
  from close_typed [OF a [unfolded e(1)]] have "yields (\<lambda>t. typed ((\<lambda>_. 0)(g := 1)) (fdv t)) (fileclose kend f s)" unfolding e(2) .
  then show "yields (\<lambda>(r, t). r = None \<and> typed (\<lambda>_. 0) (fdv t)) (pipealloc_bad kend 0 (Some f) (Some g) s)"
    using close_typed [of "\<lambda>_. 0" g] by (auto simp: pipealloc_bad_def intro!: yields_bind yields_Inr)
qed

definition new_pipe :: "nat \<Rightarrow> nat \<Rightarrow> 'a ustate_scheme \<Rightarrow> bool" where
  "new_pipe f g t \<longleftrightarrow> f < NFILE \<and> g < NFILE \<and> f \<noteq> g \<and> typed ((\<lambda>_. 0)(f := 1, g := 1)) (fdv t) \<and>
     fst (fst (fdv t) f) = FD_PIPE \<and> fst (fst (fdv t) g) = FD_PIPE"

lemma pipe_files:
  assumes "typed ((\<lambda>_. 0)(f := 1, g := 1)) (fdv s)" "f < NFILE" "g < NFILE" "f \<noteq> g"
    "\<And>x. f_type (h x) = FD_PIPE" "\<And>x. f_ref (h x) = f_ref x" "\<And>x. f_type (h' x) = FD_PIPE" "\<And>x. f_ref (h' x) = f_ref x"
  shows "new_pipe f g (file_upd g h' (file_upd f h s))"
proof -
  let ?v = "fst (fdv s)"
  have t: "typed ((\<lambda>_. 0)(f := 1, g := 1)) (?v, ofile s)" using assms(1) typed_fdv by metis
  have r: "0 < snd (?v f)" "0 < snd (?v g)" using typedD(3) [OF t, of f] typedD(3) [OF t, of g] assms(4) by auto
  have "typed ((\<lambda>_. 0)(f := 1, g := 1)) (?v(f := (FD_PIPE, snd (?v f))), ofile s)" using typed_kind [OF t _ r(1)] by simp
  from typed_kind [OF this, of FD_PIPE g] have "typed ((\<lambda>_. 0)(f := 1, g := 1)) (?v(f := (FD_PIPE, snd (?v f)), g := (FD_PIPE, snd (?v g))), ofile s)"
    using r(2) assms(4) by simp
  moreover have "fdv (file_upd g h' (file_upd f h s)) = (?v(f := (FD_PIPE, snd (?v f)), g := (FD_PIPE, snd (?v g))), ofile s)"
    using assms(4-8) by (auto simp: fdv_def file_upd_def fun_eq_iff)
  ultimately show ?thesis using assms(2-4) by (simp add: new_pipe_def)
qed

lemma pipealloc_typed:
  assumes "typed (\<lambda>_. 0) (fdv s)"
  shows "yields (\<lambda>(r, t). case r of None \<Rightarrow> typed (\<lambda>_. 0) (fdv t) | Some (f, g) \<Rightarrow> new_pipe f g t) (pipealloc kend s)"
proof -
  have k: "yields Q (bindR (kalloc (km s)) (\<lambda>(p, k). h p k))" if "\<And>p k. yields Q (h p k)" for Q and h :: "u32 \<Rightarrow> kmem \<Rightarrow> 'c res" and s :: "'a ustate_scheme"
    using that by (auto simp: yields_def bindR_eq_Inr)
  have w: "yields (\<lambda>(r, t). r = None \<and> typed (\<lambda>_. 0) (fdv t)) m \<Longrightarrow>
      yields (\<lambda>(r, t). case r of None \<Rightarrow> typed (\<lambda>_. 0) (fdv t) | Some (f, g) \<Rightarrow> new_pipe f g t) m" for m :: "((nat \<times> nat) option \<times> 'a ustate_scheme) res"
    by (auto simp: yields_def)
  have two: "(\<lambda>_. 0)(f := 1, g := 1) = ((\<lambda>_. 0)(f := 1))(g := 1)" for f g :: nat by simp
  show ?thesis unfolding pipealloc_def
  proof (intro yields_filealloc [where E = "\<lambda>_. 0"] assms, goal_cases)
    case (1 t)
    then show ?case using w [OF bad_typed(1)] by simp
  next
    case (2 f t)
    show ?case unfolding option.case
    proof (rule yields_filealloc [OF 2(1)], goal_cases)
      case (1 u)
      then show ?case using w [OF bad_typed(2)] by simp
    next
      case (2 g u)
      then have fg: "f \<noteq> g" by auto
      show ?case unfolding option.case
      proof (rule k, unfold Let_def, rule yields_if, goal_cases)
        case (1 p k)
        show ?case by (rule w, rule bad_typed(3)) (use 2 fg in simp_all)
      next
        case (2 p k)
        show ?case by (rule yields_Inr, unfold prod.case option.case, rule pipe_files)
          (use \<open>typed ((\<lambda>_. 0)(f := 1, g := 1)) (fdv u)\<close> \<open>f < NFILE\<close> \<open>g < NFILE\<close> fg in simp_all)
      qed
    qed
  qed
qed

lemma typed_install_same:
  assumes "typed E (v, ofl)" "f < NFILE" "E f = 1" "fd < NOFILE" "ofl fd = None" "fst (v f) \<noteq> FD_NONE"
  shows "typed (E(f := 0)) (v, ofl(fd := Some f))"
  using typed_install [OF assms(1,2) _ assms(4-6)] assms(3) by simp

lemma close_both:
  assumes "typed ((\<lambda>_. 0)(f := 1, g := 1)) (fdv s)" "f \<noteq> g"
  shows "yields (\<lambda>(r, t). fd_typed t) (bindR (fileclose kend f s) (\<lambda>s3. bindR (fileclose kend g s3) (\<lambda>s4. Inr (- 1 :: int, s4))))"
proof -
  have e: "(\<lambda>_. 0)(f := 1, g := 1) = ((\<lambda>_. 0)(g := 1))(f := 1)" "((\<lambda>_. 0)(g := 1))(f := 0) = (\<lambda>_. 0)(g := 1)" using assms(2) by auto
  have "yields (\<lambda>t. typed ((\<lambda>_. 0)(g := 1)) (fdv t)) (fileclose kend f s)" using close_typed [OF assms(1) [unfolded e(1)]] unfolding e(2) .
  then show ?thesis using close_typed [of "\<lambda>_. 0" g] by (auto intro!: yields_bind yields_Inr simp: fd_typed_def)
qed

lemma put_typed: "fd_typed s \<Longrightarrow> yields (\<lambda>t. fd_typed t) (user_put va bs s)"
  using user_put_fdv [OF refl, of s va bs] by (auto simp: yields_def fd_typed_def)

lemma sys_pipe_typed:
  assumes s: "fd_typed s"
  shows "yields (\<lambda>(r, t). fd_typed t) (sys_pipe kend s)"
proof -
  have inst: "yields (\<lambda>(r, t). fd_typed t)
     (case fdalloc f t of
        (None, s2) \<Rightarrow> bindR (fileclose kend f s2) (\<lambda>s3. bindR (fileclose kend g s3) (\<lambda>s4. Inr (-1 :: int, s4)))
      | (Some fd0, s2) \<Rightarrow>
         (case fdalloc g s2 of
            (None, s3) \<Rightarrow> bindR (fileclose kend f (s3\<lparr>ofile := (ofile s3)(fd0 := None)\<rparr>)) (\<lambda>s4. bindR (fileclose kend g s4) (\<lambda>s5. Inr (-1, s5)))
          | (Some fd1, s3) \<Rightarrow> bindR (user_put fd (bytes32 (of_nat fd0)) s3) (\<lambda>s4. bindR (user_put (fd + 4) (bytes32 (of_nat fd1)) s4) (\<lambda>s5. Inr (0, s5)))))"
    if n: "new_pipe f g t" for f g fd and t :: "'a ustate_scheme"
  proof (cases "fdalloc f t")
    case (Pair r s2)
    have fg: "f < NFILE" "g < NFILE" "f \<noteq> g" and t: "typed ((\<lambda>_. 0)(f := 1, g := 1)) (fst (fdv t), ofile t)"
      and k: "fst (fst (fdv t) f) = FD_PIPE" "fst (fst (fdv t) g) = FD_PIPE"
      using n typed_fdv by (auto simp: new_pipe_def)
    have cb: "yields (\<lambda>(r, t). fd_typed t) (bindR (fileclose kend f t) (\<lambda>s3. bindR (fileclose kend g s3) (\<lambda>s4. Inr (- 1 :: int, s4))))"
      using n by (intro close_both) (simp_all add: new_pipe_def)
    show ?thesis
    proof (cases r)
      case None
      then have "s2 = t" using fdalloc_view [OF Pair] by simp
      then show ?thesis unfolding Pair None prod.case option.case using cb by simp
    next
      case (Some fd0)
      have a: "fd0 < NOFILE" "ofile t fd0 = None" "s2 = t\<lparr>ofile := (ofile t)(fd0 := Some f)\<rparr>" using fdalloc_view [OF Pair] Some by simp_all
      have "typed (((\<lambda>_. 0)(f := 1, g := 1))(f := 0)) (fst (fdv t), (ofile t)(fd0 := Some f))"
        using typed_install_same [OF t fg(1) _ a(1,2)] k fg(3) by simp
      then have t2: "typed ((\<lambda>_. 0)(g := 1)) (fst (fdv t), (ofile t)(fd0 := Some f))" using fg(3) by (simp add: fun_upd_twist)
      show ?thesis
      proof (cases "fdalloc g s2")
        case P2: (Pair r2 s3)
        show ?thesis
        proof (cases r2)
          case None
          then have "s3 = s2" using fdalloc_view [OF P2] by simp
          then have e: "s3\<lparr>ofile := (ofile s3)(fd0 := None)\<rparr> = t" using a by (simp add: fun_upd_idem)
          show ?thesis unfolding Pair Some P2 None prod.case option.case e by (rule cb)
        next
          case s2': (Some fd1)
          have b: "fd1 < NOFILE" "ofile s2 fd1 = None" "s3 = s2\<lparr>ofile := (ofile s2)(fd1 := Some g)\<rparr>" using fdalloc_view [OF P2] s2' by simp_all
          have "typed (((\<lambda>_. 0)(g := 1))(g := 0)) (fst (fdv t), (ofile s2)(fd1 := Some g))"
            by (rule typed_install_same) (use t2 fg b k a(3) in simp_all)
          then have "fd_typed s3" using a(3) b(3) by (simp add: fd_typed_def)
          then show ?thesis unfolding Pair Some P2 s2' prod.case option.case
            by (intro yields_bind [OF put_typed] yields_Inr) simp_all
        qed
      qed
    qed
  qed
  have "typed (\<lambda>_. 0) (fdv s)" using s by (simp add: fd_typed_def)
  then show ?thesis unfolding sys_pipe_def
    by (intro yields_arg yields_option yields_bind [OF pipealloc_typed]) (auto simp: fd_typed_def yields_def [of _ "Inr _"] s intro!: inst [unfolded fd_typed_def] split: option.splits)
qed

text \<open>The dispatcher, for a table of handlers.\<close>

definition syscall :: "(nat \<rightharpoonup> ('a ustate_scheme \<Rightarrow> (int \<times> 'a ustate_scheme) res)) \<Rightarrow> 'a ustate_scheme \<Rightarrow> 'a ustate_scheme res" where
  "syscall tbl s =
     (let num = sint (tf_eax (tf s)) in
      case (if 0 < num then tbl (nat num) else None) of
        Some h \<Rightarrow> bindR (h s) (\<lambda>(r, t). Inr (t\<lparr>tf := (tf t)\<lparr>tf_eax := of_int r\<rparr>\<rparr>))
      | None \<Rightarrow> Inr (s\<lparr>tf := (tf s)\<lparr>tf_eax := -1\<rparr>\<rparr>))"

lemma handlers_typed: "fd_typed s \<Longrightarrow> (n, h) \<in> set (file_syscalls kend kdata) \<Longrightarrow> yields (\<lambda>(r, t). fd_typed t) (h s)"
proof -
  assume s: "fd_typed s" and h: "(n, h) \<in> set (file_syscalls kend kdata)"
  have k: "typed (\<lambda>_. 0) (fdv s)" using s by (simp add: fd_typed_def)
  from h show ?thesis unfolding file_syscalls_def
    using sys_pipe_typed [OF s] sys_open_typed [OF s] sys_dup_typed [OF s] sys_close_typed [OF s]
      typed_done [OF simple_calls_fdv(1) [OF refl] k] typed_done [OF simple_calls_fdv(2) [OF refl] k] typed_done [OF simple_calls_fdv(3) [OF refl] k]
      typed_done [OF simple_calls_fdv(7) [OF refl] k] typed_done [OF simple_calls_fdv(8) [OF refl] k] typed_done [OF simple_calls_fdv(9) [OF refl] k]
      typed_done [OF link_calls_fdv(1) [OF refl] k] typed_done [OF link_calls_fdv(2) [OF refl] k]
      typed_done [OF sys_make_duplicate_fdv [OF refl] k] typed_done [OF sys_exec_fdv [OF refl] k]
    by auto
qed

section \<open>Arguments lie in the memory of the caller\<close>

text \<open>Every page below the size of the process is there, and the size is in the user part.\<close>

definition covered :: "'a ustate_scheme \<Rightarrow> bool" where
  "covered s \<longleftrightarrow> usz s \<le> KERNBASE \<and> (\<forall>va<usz s. present (mem (km s)) (pgdir s) va)"

definition ubyte :: "'a ustate_scheme \<Rightarrow> u32 \<Rightarrow> u8" where
  "ubyte s va = mem (km s) (leaf (mem (km s)) (pgdir s) va + va mod PGSIZE)"

lemma user_load_ok: "covered s \<Longrightarrow> va < usz s \<Longrightarrow> user_load va s = Inr (ubyte s va)"
  by (simp add: covered_def user_load_def user_addr_def ubyte_def)

lemma unat_plus_small: "unat (a :: u32) + n < 2 ^ 32 \<Longrightarrow> unat (a + of_nat n) = unat a + n"
  by (simp add: unat_word_ariths unat_of_nat)

lemma usz_small: "covered s \<Longrightarrow> unat (usz s) \<le> 2 ^ 31"
  by (simp add: covered_def KERNBASE_def word_le_nat_alt)

lemma user_bytes_ok:
  "covered s \<Longrightarrow> unat a + n \<le> unat (usz s) \<Longrightarrow> user_bytes a n s = Inr (map (\<lambda>i. ubyte s (a + of_nat i)) [0..<n])"
proof (induction n arbitrary: a)
  case (Suc n)
  have l: "a < usz s" using Suc.prems by (simp add: word_less_nat_alt)
  have u: "unat (a + 1) = unat a + 1" using unat_plus_small [of a 1] Suc.prems usz_small [OF Suc.prems(1)] by simp
  have "user_bytes (a + 1) n s = Inr (map (\<lambda>i. ubyte s (a + 1 + of_nat i)) [0..<n])" using Suc.prems u by (intro Suc.IH) simp_all
  then show ?case using user_load_ok [OF Suc.prems(1) l]
    by (simp add: upt_conv_Cons map_Suc_upt [symmetric] add.assoc del: upt_Suc)
qed simp

lemma fetchint_ok:
  assumes "covered s"
  shows "fetchint a s = Inr (if unat a + 4 \<le> unat (usz s) then Some (word32 (map (\<lambda>i. ubyte s (a + of_nat i)) [0..<4])) else None)"
proof (cases "a < usz s")
  case True
  then have l: "unat a < unat (usz s)" by (simp add: word_less_nat_alt)
  have u: "unat (a + 4) = unat a + 4" using unat_plus_small [of a 4] l usz_small [OF assms] by simp
  show ?thesis
  proof (cases "unat a + 4 \<le> unat (usz s)")
    case ok: True
    then have "\<not> usz s < a + 4" using u by (simp add: word_less_nat_alt)
    then show ?thesis using True ok user_bytes_ok [OF assms ok] by (simp add: fetchint_def not_le)
  next
    case False
    then have "usz s < a + 4" using u by (simp add: word_less_nat_alt)
    then show ?thesis using False by (simp add: fetchint_def)
  qed
next
  case False
  then show ?thesis by (simp add: fetchint_def word_le_nat_alt not_less)
qed

lemma argptr_range:
  assumes "covered s" "argptr n len s = Inr (Some p)" "len < 2 ^ 31"
  shows "0 \<le> len" "unat p + nat len \<le> unat (usz s)"
proof -
  obtain i where i: "(case i of None \<Rightarrow> None | Some i \<Rightarrow> if len < 0 \<or> usz s \<le> i \<or> usz s < i + of_int len then None else Some i) = Some p"
    using assms(2) by (auto simp: argptr_def bindR_eq_Inr)
  then have p: "0 \<le> len" "p < usz s" "p + of_int len \<le> usz s" by (auto split: option.split_asm if_split_asm)
  then show "0 \<le> len" by simp
  have len: "(of_int len :: u32) = of_nat (nat len)" using p(1) by simp
  have "unat p < 2 ^ 31" using p(2) usz_small [OF assms(1)] by (simp add: word_less_nat_alt)
  moreover have "nat len < 2 ^ 31" using assms(3) by simp
  ultimately have "unat p + nat len < 2 ^ 32" by simp
  then show "unat p + nat len \<le> unat (usz s)" using len p(3) unat_plus_small [of p "nat len"] by (simp add: word_le_nat_alt)
qed

text \<open>\<open>bs\<close> is the string at \<open>a\<close>: no zero in it, and one after it, all below the size.\<close>

definition string_at :: "'a ustate_scheme \<Rightarrow> u32 \<Rightarrow> u8 list \<Rightarrow> bool" where
  "string_at s a bs \<longleftrightarrow> unat a + length bs < unat (usz s) \<and> 0 \<notin> set bs \<and>
     bs = map (\<lambda>i. ubyte s (a + of_nat i)) [0..<length bs] \<and> ubyte s (a + of_nat (length bs)) = 0"

lemma fetchstr_loop_ok:
  "covered s \<Longrightarrow> \<exists>r. fetchstr_loop a s = Inr r \<and>
     (case r of Some bs \<Rightarrow> string_at s a bs | None \<Rightarrow> \<forall>i. unat a + i < unat (usz s) \<longrightarrow> ubyte s (a + of_nat i) \<noteq> 0)"
proof (induction a s rule: fetchstr_loop.induct)
  case (1 a s)
  show ?case
  proof (cases "a < usz s")
    case False
    then show ?thesis by (simp add: fetchstr_loop.simps [of a s] word_less_nat_alt)
  next
    case l: True
    then have ul: "unat a < unat (usz s)" by (simp add: word_less_nat_alt)
    have u: "unat (a + 1) = unat a + 1" using unat_plus_small [of a 1] ul usz_small [OF "1.prems"] by simp
    have b: "user_load a s = Inr (ubyte s a)" using user_load_ok [OF "1.prems" l] .
    show ?thesis
    proof (cases "ubyte s a = 0")
      case True
      then show ?thesis using l b ul by (simp add: fetchstr_loop.simps [of a s] string_at_def)
    next
      case nz: False
      obtain r where r: "fetchstr_loop (a + 1) s = Inr r"
        "case r of Some bs \<Rightarrow> string_at s (a + 1) bs | None \<Rightarrow> \<forall>i. unat (a + 1) + i < unat (usz s) \<longrightarrow> ubyte s (a + 1 + of_nat i) \<noteq> 0"
        using "1.IH" [OF l b nz "1.prems"] by blast
      show ?thesis
      proof (cases r)
        case None
        have "ubyte s (a + of_nat i) \<noteq> 0" if "unat a + i < unat (usz s)" for i
          using r(2) nz that unfolding None u by (cases i) (auto simp: add.assoc)
        then show ?thesis using r(1) None l b nz by (simp add: fetchstr_loop.simps [of a s])
      next
        case (Some bs)
        then have "string_at s a (ubyte s a # bs)" using r(2) nz u unfolding string_at_def
          by (auto simp: upt_conv_Cons map_Suc_upt [symmetric] add.assoc comp_def simp del: upt_Suc)
        then show ?thesis using r(1) Some l b nz by (simp add: fetchstr_loop.simps [of a s])
      qed
    qed
  qed
qed

section \<open>Properties\<close>

text \<open>C37:
  file descriptors are typed: in every state that the calls of \<open>sysfile.c\<close> lead to, whatever their number, arguments and
  outcome, a descriptor of the process names an entry of the table of open files that is a pipe or an inode and that counts every
  descriptor naming it. So \<open>fileread\<close>, \<open>filewrite\<close>, \<open>filedup\<close> and \<open>fileclose\<close> never meet an entry
  of which they would panic.
\<close>

theorem descriptors_typed:
  assumes "fd_typed s"
  shows "(\<forall>t. syscall (map_of (file_syscalls kend kdata)) s = Inr t \<longrightarrow> fd_typed t) \<and>
    (\<forall>n fd f. argfd n s = Inr (Some (fd, f)) \<longrightarrow>
       f < NFILE \<and> f_type (files s f) \<in> {FD_PIPE, FD_INODE} \<and> int (card (fds (ofile s) f)) \<le> f_ref (files s f) \<and> 1 \<le> f_ref (files s f))"
proof (intro conjI allI impI)
  fix t assume "syscall (map_of (file_syscalls kend kdata)) s = Inr t"
  moreover have "yields (\<lambda>(r, t). fd_typed t) (h s)" if "map_of (file_syscalls kend kdata) n = Some h" for n h
    using handlers_typed [OF assms map_of_SomeD [OF that]] .
  ultimately show "fd_typed t" using assms
    by (fastforce simp: syscall_def Let_def bindR_eq_Inr yields_def fd_typed_def split: option.splits if_splits)
next
  fix n fd f assume a: "argfd n s = Inr (Some (fd, f))"
  have o: "fd < NOFILE" "ofile s fd = Some f" using argfd_ofile [OF a] by simp_all
  have t: "typed (\<lambda>_. 0) (fst (fdv s), ofile s)" using assms by (simp add: fd_typed_def typed_fdv)
  have "f_type (files s f) \<noteq> FD_NONE" using typedD(2) [OF t o] by (simp add: fdv_def)
  then show "f_type (files s f) \<in> {FD_PIPE, FD_INODE}" by (cases "f_type (files s f)") auto
  show "f < NFILE" using typedD(1) [OF t o] .
  show c: "int (card (fds (ofile s) f)) \<le> f_ref (files s f)" using typedD(3) [OF t, of f] by (simp add: fdv_def)
  have "fds (ofile s) f \<noteq> {}" using o by (auto simp: fds_def)
  then have "0 < card (fds (ofile s) f)" by (simp add: card_gt_0_iff)
  then show "1 \<le> f_ref (files s f)" using c by linarith
qed

text \<open>C38:
  system call arguments are checked: for a process whose memory is mapped up to its size, fetching an argument
  never traps; a word, a buffer or a string is accepted exactly when it lies below the size, and is then what the process has there.
\<close>

theorem arguments_checked:
  assumes "covered s"
  shows "fetchint a s = Inr (if unat a + 4 \<le> unat (usz s) then Some (word32 (map (\<lambda>i. ubyte s (a + of_nat i)) [0..<4])) else None) \<and>
    (\<exists>r. fetchstr a s = Inr r \<and> (case r of Some bs \<Rightarrow> string_at s a bs
       | None \<Rightarrow> \<forall>i. unat a + i < unat (usz s) \<longrightarrow> ubyte s (a + of_nat i) \<noteq> 0)) \<and>
    (\<forall>n len p. argptr n len s = Inr (Some p) \<and> len < 2 ^ 31 \<longrightarrow> 0 \<le> len \<and> unat p + nat len \<le> unat (usz s))"
proof (intro conjI allI impI)
  show "fetchint a s = Inr (if unat a + 4 \<le> unat (usz s) then Some (word32 (map (\<lambda>i. ubyte s (a + of_nat i)) [0..<4])) else None)"
    using fetchint_ok [OF assms] .
  show "\<exists>r. fetchstr a s = Inr r \<and> (case r of Some bs \<Rightarrow> string_at s a bs
       | None \<Rightarrow> \<forall>i. unat a + i < unat (usz s) \<longrightarrow> ubyte s (a + of_nat i) \<noteq> 0)"
    using fetchstr_loop_ok [OF assms, of a] by (auto simp: fetchstr_def word_le_nat_alt)
next
  fix n len p assume "argptr n len s = Inr (Some p) \<and> len < 2 ^ 31"
  then show "0 \<le> len" "unat p + nat len \<le> unat (usz s)" using argptr_range [OF assms, of n len p] by simp_all
qed

text \<open>A process with one page and descriptor 0 open; its memory is zero, so that the first argument of a call is 0.\<close>

definition demo_user :: ustate where
  "demo_user = ftstate.extend (fstate.extend (demo_fst T_FILE)
     (ftstate.fields False (\<lambda>f. \<lparr>f_type = (if f = 0 then FD_INODE else FD_NONE), f_ref = (if f = 0 then 1 else 0), f_readable = True,
        f_writable = True, f_pipe = 0, f_ip = 0, f_off = 0\<rparr>) demo_vm (\<lambda>_. pipe_init) False []))
      (ustate.fields (\<lambda>fd. if fd = 0 then Some 0 else None) 0x80101000 4096 \<lparr>tf_eax = 10, tf_ebx = 0, tf_ecx = 0, tf_esp = 0, tf_eip = 0\<rparr> [])"

lemma demo_user_fields [simp]:
  "ftable_lock demo_user = False" "km demo_user = demo_vm" "ofile demo_user = (\<lambda>fd. if fd = 0 then Some 0 else None)" "pgdir demo_user = 0x80101000"
  "usz demo_user = 4096" "tf demo_user = \<lparr>tf_eax = 10, tf_ebx = 0, tf_ecx = 0, tf_esp = 0, tf_eip = 0\<rparr>"
  "f_type (files demo_user f) = (if f = 0 then FD_INODE else FD_NONE)" "f_ref (files demo_user f) = (if f = 0 then 1 else 0)"
  by (simp_all add: demo_user_def ftstate.defs fstate.defs ustate.defs)

lemma demo_user_rnd: "va < (4096 :: u32) \<Longrightarrow> rnd 12 va = 0"
proof -
  assume "va < 4096"
  then have "unat va < 4096" by (simp add: word_less_nat_alt)
  then show ?thesis by (simp add: unat_rnd flip: unat_eq_0)
qed

lemma demo_user_covered: "covered demo_user"
  by (simp add: covered_def KERNBASE_def present_def demo_pte demo_user_rnd bit_simps)

lemma demo_user_byte: "va < 4096 \<Longrightarrow> ubyte demo_user va = 0"
proof -
  assume v: "va < (4096 :: u32)"
  then have u: "unat va < 4096" by (simp add: word_less_nat_alt)
  have m: "va mod PGSIZE = va" by (simp add: PGSIZE_def word_unat_eq_iff unat_mod_distrib u)
  have l: "leaf (mem demo_vm) 0x80101000 va = 0x80103000" using demo_user_rnd [OF v]
    by (simp add: leaf_def demo_pte P2V_def V2P_def KERNBASE_def PTE_ADDR_def)
  define x where "x = 0x80103000 + va"
  have "unat x = 0x80103000 + unat va" using u by (simp add: x_def unat_word_ariths)
  then have ge: "0x80103000 \<le> x" by (simp add: word_le_nat_alt)
  then have n: "x \<notin> {0x80101000, 0x80101000 + 1, 0x80101000 + 2, 0x80101000 + 3}" "x \<notin> {0x80102000, 0x80102000 + 1, 0x80102000 + 2, 0x80102000 + 3}"
    by auto
  have "mem demo_vm x = 0" using store32_other [OF n(1)] store32_other [OF n(2)] by (simp add: demo_vm_def)
  then show ?thesis by (simp add: ubyte_def m l x_def)
qed

lemma demo_user_typed: "fd_typed demo_user"
proof -
  have "card (fds (ofile demo_user) f) = (if f = 0 then 1 else 0)" for f
  proof -
    have "fds (ofile demo_user) f = (if f = 0 then {0} else {})" by (auto simp: fds_def NOFILE_def split: if_splits)
    then show ?thesis by simp
  qed
  then show ?thesis by (auto simp: fd_typed_def typed_def fdv_def NFILE_def split: if_splits)
qed

lemma demo_user_argfd: "argfd 0 demo_user = Inr (Some (0, 0))"
proof -
  have "argint 0 demo_user = Inr (Some 0)"
    using fetchint_ok [OF demo_user_covered, of 4] by (simp add: argint_def demo_user_byte word32_def upt_rec)
  then show ?thesis by (simp add: argfd_def NOFILE_def)
qed

theorem descriptors_typed_witness:
  "\<exists>t. syscall (map_of (file_syscalls 0x80100000 0x80108000)) demo_user = Inr t \<and> fd_typed t \<and> tf_eax (tf t) = 1"
proof -
  have r: "first_index (\<lambda>fd. fd \<noteq> 0) NOFILE = Some 1" by (simp add: first_index_Some NOFILE_def)
  then have f: "fdalloc 0 demo_user = (Some 1, demo_user\<lparr>ofile := (ofile demo_user)(1 := Some 0)\<rparr>)" by (simp add: fdalloc_def)
  have "\<exists>t. sys_dup demo_user = Inr (1, t)"
    by (simp add: sys_dup_def demo_user_argfd f filedup_def ftable_acquire_def ftable_release_def file_upd_def)
  then obtain t where t: "sys_dup demo_user = Inr (1, t)" by blast
  then have "syscall (map_of (file_syscalls 0x80100000 0x80108000)) demo_user = Inr (t\<lparr>tf := (tf t)\<lparr>tf_eax := 1\<rparr>\<rparr>)"
    by (simp add: syscall_def file_syscalls_def)
  then show ?thesis using descriptors_typed [OF demo_user_typed] by auto
qed

theorem arguments_checked_witness:
  "fetchint 4092 demo_user = Inr (Some 0) \<and> fetchint 4093 demo_user = Inr None"
proof -
  have "fetchint 4092 demo_user = Inr (Some 0)"
    using arguments_checked [OF demo_user_covered, of 4092] by (simp add: demo_user_byte word32_def upt_rec)
  moreover have "fetchint 4093 demo_user = Inr None" using arguments_checked [OF demo_user_covered, of 4093] by simp
  ultimately show ?thesis ..
qed

end
