(* ===== verification/Console.thy ===== *)
theory Console
  imports Ring
begin

text \<open>
  The console (\<open>console.c\<close>), the keyboard (\<open>kbd.c\<close>, \<open>kbd.h\<close>) and the serial line (\<open>uart.c\<close>): formatted output, the line editor
  with its selection, clipboard, undo history and completion, and the device functions. Indices into the input buffer are taken below
  \<open>2^31\<close>, where the signed loop variables of the code are the unsigned indices. The editing keys are shown to act on a text with a
  cursor and the reader to get that text; two key sequences are shown to leave the buffer.
\<close>

section \<open>State\<close>

definition INPUT_BUF :: nat where "INPUT_BUF = 128"
definition HISTORY_SIZE :: nat where "HISTORY_SIZE = 128"
definition BACKSPACE :: u32 where "BACKSPACE = 0x100"
definition KEY_LF :: u32 where "KEY_LF = 0xE4"
definition KEY_RT :: u32 where "KEY_RT = 0xE5"

definition Ctl :: "u32 \<Rightarrow> u32" where "Ctl x = x - 64"

text \<open>
  The screen is its memory and the position of the cursor, which the controller keeps in 16 bits; the serial line is whether there is
  one, and what was sent to it. The edited line is \<open>in_w\<close> to \<open>in_e\<close>; \<open>wakeups\<close> counts the calls of \<open>wakeup(&input.r)\<close>.
\<close>

record screen =
  crt :: "nat \<Rightarrow> u16"
  crt_pos :: int
  uart :: bool
  uart_out :: "u8 list"

record con =
  cons_lock :: bool
  cons_locking :: bool
  panicked :: bool
  scr :: screen
  ibuf :: "nat \<Rightarrow> u8"
  in_r :: u32
  in_w :: u32
  in_e :: u32
  in_cursor :: u32
  start_pos :: int
  tab_press_count :: int
  last_prefix :: "nat \<Rightarrow> u8"
  autocomplete_active :: bool
  saved_buf :: "nat \<Rightarrow> u8"
  saved_r :: u32
  saved_w :: u32
  saved_e :: u32
  saved_cursor :: u32
  select_mode :: int
  select_anchor :: u32
  select_start :: u32
  select_end :: u32
  clipboard :: "nat \<Rightarrow> u8"
  clipboard_len :: int
  insert_history :: "nat \<Rightarrow> u32"
  history_pos :: nat
  prev_line_len :: u32
  wakeups :: nat

section \<open>Output\<close>

definition cgaputc :: "u32 \<Rightarrow> screen \<Rightarrow> screen res" where
  "cgaputc c s =
     (let pos = crt_pos s;
          (pos1, mem1) =
            (if c = 10 then (pos + 80 - pos mod 80, crt s)
             else if c = BACKSPACE then (if 0 < pos then pos - 1 else pos, crt s)
             else (pos + 1, (crt s)(nat pos := (if c AND 0xff00 = 0 then ucast (c AND 0xff) OR 0x0700 else ucast c)))) in
      if pos1 < 0 \<or> 25 * 80 < pos1 then Inl (Panic ''pos under/overflow'')
      else
        let (pos2, mem2) =
              (if 24 \<le> pos1 div 80
               then let m = (\<lambda>i. if i < 23 * 80 then mem1 (i + 80) else mem1 i); p = pos1 - 80 in
                    (p, \<lambda>i. if nat p \<le> i \<and> i < 24 * 80 then 0 else m i)
               else (pos1, mem1))
        in Inr (s\<lparr>crt_pos := pos2 mod 2 ^ 16, crt := mem2(nat pos2 := 32 OR 0x0700)\<rparr>))"

definition uartputc :: "u32 \<Rightarrow> screen \<Rightarrow> screen" where
  "uartputc c s = (if uart s then s\<lparr>uart_out := uart_out s @ [ucast c]\<rparr> else s)"

text \<open>The banner is \<open>xv6...\<close> with a newline; \<open>there\<close> says that the status register is not 0xFF.\<close>

definition uartinit :: "bool \<Rightarrow> screen \<Rightarrow> screen" where
  "uartinit there s = (if there then fold uartputc [120, 118, 54, 46, 46, 46, 10] (s\<lparr>uart := True\<rparr>) else s)"

definition consputc :: "u32 \<Rightarrow> con \<Rightarrow> con res" where
  "consputc c s =
     (if panicked s then Inl Diverges
      else let x = (if c = BACKSPACE then uartputc 8 (uartputc 32 (uartputc 8 (scr s))) else uartputc c (scr s)) in
        bindR (cgaputc c x) (\<lambda>y. Inr (s\<lparr>scr := y\<rparr>)))"

text \<open>A character is signed, and widened to an int where it is passed on.\<close>

definition of_char :: "u8 \<Rightarrow> u32" where "of_char c = scast c"

fun digits_of :: "nat \<Rightarrow> nat \<Rightarrow> nat list" where
  "digits_of base x = (if base \<le> 1 \<or> x < base then [x] else (x mod base) # digits_of base (x div base))"

declare digits_of.simps [simp del]

definition digit_char :: "nat \<Rightarrow> u32" where
  "digit_char d = (if d < 10 then 48 + of_nat d else 87 + of_nat d)"

text \<open>The characters of \<open>buf\<close> in the order in which they are put out; the loop fills it from the last digit.\<close>

definition printint_chars :: "u32 \<Rightarrow> nat \<Rightarrow> bool \<Rightarrow> u32 list" where
  "printint_chars xx base sign =
     (let neg = (sign \<and> sint xx < 0); x = (if neg then - xx else xx); ds = map digit_char (digits_of base (unat x)) in
      rev (if neg then ds @ [45] else ds))"

definition printint :: "u32 \<Rightarrow> nat \<Rightarrow> bool \<Rightarrow> con \<Rightarrow> con res" where
  "printint xx base sign = foldR consputc (printint_chars xx base sign)"

datatype carg = CWord u32 | CStr "u8 list"

definition nullstr :: "u8 list" where "nullstr = [40, 110, 117, 108, 108, 41]"

text \<open>What an argument is read as: a word, or a pointer to a string (0 is the null pointer).\<close>

definition arg_word :: "carg list \<Rightarrow> u32 res" where
  "arg_word as = (case as of CWord w # _ \<Rightarrow> Inr w | _ \<Rightarrow> Inl NullDeref)"

definition arg_str :: "carg list \<Rightarrow> u8 list res" where
  "arg_str as = (case as of CStr t # _ \<Rightarrow> Inr t | CWord w # _ \<Rightarrow> if w = 0 then Inr nullstr else Inl NullDeref | _ \<Rightarrow> Inl NullDeref)"

fun cprintf_loop :: "u8 list \<Rightarrow> carg list \<Rightarrow> con \<Rightarrow> con res" where
  "cprintf_loop [] as s = Inr s"
| "cprintf_loop (c # cs) as s =
     (if c \<noteq> 37 then bindR (consputc (ucast c) s) (cprintf_loop cs as)
      else (case cs of [] \<Rightarrow> Inr s
        | d # ds \<Rightarrow>
            if d = 100 then bindR (arg_word as) (\<lambda>w. bindR (printint w 10 True s) (cprintf_loop ds (tl as)))
            else if d = 120 \<or> d = 112 then bindR (arg_word as) (\<lambda>w. bindR (printint w 16 False s) (cprintf_loop ds (tl as)))
            else if d = 115 then bindR (arg_str as) (\<lambda>t. bindR (foldR (\<lambda>c. consputc (of_char c)) t s) (cprintf_loop ds (tl as)))
            else if d = 37 then bindR (consputc 37 s) (cprintf_loop ds as)
            else bindR (consputc 37 s) (\<lambda>s1. bindR (consputc (ucast d) s1) (cprintf_loop ds as))))"

definition cons_acquire :: "con \<Rightarrow> con res" where
  "cons_acquire s = bindR (lock_take (cons_lock s)) (\<lambda>l. Inr (s\<lparr>cons_lock := l\<rparr>))"

definition cons_release :: "con \<Rightarrow> con res" where
  "cons_release s = bindR (lock_drop (cons_lock s)) (\<lambda>l. Inr (s\<lparr>cons_lock := l\<rparr>))"

definition cprintf :: "u8 list \<Rightarrow> carg list \<Rightarrow> con \<Rightarrow> con res" where
  "cprintf fmt as s =
     (let locking = cons_locking s in
      bindR (if locking then cons_acquire s else Inr s) (\<lambda>s1.
      bindR (cprintf_loop fmt as s1) (\<lambda>s2. if locking then cons_release s2 else Inr s2)))"

section \<open>The edited line\<close>

definition set_cursor_pos :: "int \<Rightarrow> con \<Rightarrow> con" where
  "set_cursor_pos pos s = s\<lparr>scr := (scr s)\<lparr>crt_pos := pos mod 2 ^ 16\<rparr>\<rparr>"

definition get_cursor_pos :: "con \<Rightarrow> int" where
  "get_cursor_pos s = crt_pos (scr s)"

text \<open>One pass of the loop of \<open>redraw_line\<close> over the line; printing changes neither the line nor the selection.\<close>

definition redraw_char :: "u32 \<Rightarrow> con \<Rightarrow> con res" where
  "redraw_char i s =
     (let c = of_char (ibuf s (unat i mod INPUT_BUF)) in
      consputc (if select_mode s = 2 \<and> select_start s \<le> i \<and> i < select_end s then c OR 0x7000 else c) s)"

definition redraw_line :: "con \<Rightarrow> con res" where
  "redraw_line s =
     (let current_line_len = in_e s - in_w s;
          s1 = set_cursor_pos (start_pos s) s in
      bindR (foldR (\<lambda>k. redraw_char (in_w s + of_nat k)) [0..<(if in_w s < in_e s then unat (in_e s - in_w s) else 0)] s1) (\<lambda>s2.
      bindR (if current_line_len < prev_line_len s2
             then foldR (\<lambda>_. consputc 32) [0..<unat (prev_line_len s2 - current_line_len)] s2 else Inr s2) (\<lambda>s3.
      Inr (set_cursor_pos (start_pos s3 + uint (in_cursor s3 - in_w s3)) (s3\<lparr>prev_line_len := current_line_len\<rparr>)))))"

definition history_adjust_after_insert :: "u32 \<Rightarrow> con \<Rightarrow> con" where
  "history_adjust_after_insert p s =
     s\<lparr>insert_history := (\<lambda>i. if i < history_pos s \<and> p \<le> insert_history s i then insert_history s i + 1 else insert_history s i)\<rparr>"

definition history_adjust_after_delete :: "u32 \<Rightarrow> con \<Rightarrow> con" where
  "history_adjust_after_delete p s =
     s\<lparr>insert_history := (\<lambda>i. if i < history_pos s \<and> p < insert_history s i then insert_history s i - 1 else insert_history s i)\<rparr>"

definition history_push :: "u32 \<Rightarrow> con \<Rightarrow> con" where
  "history_push p s =
     (if history_pos s < HISTORY_SIZE
      then s\<lparr>insert_history := (insert_history s)(history_pos s := p), history_pos := history_pos s + 1\<rparr> else s)"

text \<open>\<open>memmove\<close> within \<open>input.buf\<close>: the indices are not reduced, so that it may go past the array.\<close>

definition ibuf_move :: "u32 \<Rightarrow> u32 \<Rightarrow> u32 \<Rightarrow> con \<Rightarrow> con res" where
  "ibuf_move d src n s =
     (if n = 0 then Inr s
      else if INPUT_BUF < unat d + unat n \<or> INPUT_BUF < unat src + unat n then Inl OutOfBounds
      else Inr (s\<lparr>ibuf := (\<lambda>i. if unat d \<le> i \<and> i < unat d + unat n then ibuf s (unat src + (i - unat d)) else ibuf s i)\<rparr>))"

definition ibuf_set :: "u32 \<Rightarrow> u8 \<Rightarrow> con \<Rightarrow> con" where
  "ibuf_set i c s = s\<lparr>ibuf := (ibuf s)(unat i mod INPUT_BUF := c)\<rparr>"

definition tab_reset :: "con \<Rightarrow> con" where
  "tab_reset s = s\<lparr>tab_press_count := 0, last_prefix := (last_prefix s)(0 := 0)\<rparr>"

section \<open>Keys while a selection is shown\<close>

definition key_copy :: "con \<Rightarrow> con res" where
  "key_copy s =
     (let n = sint (select_end s - select_start s); n = (if 128 < n then 128 else n);
          s1 = s\<lparr>clipboard_len := n\<rparr>; m = (of_int n :: u32) in
      if m = 0 then Inr s1
      else if INPUT_BUF < unat m \<or> INPUT_BUF < unat (select_start s) + unat m then Inl OutOfBounds
      else Inr (s1\<lparr>clipboard := (\<lambda>i. if i < unat m then ibuf s (unat (select_start s) + i) else clipboard s i)\<rparr>))"

text \<open>The selected text is deleted (\<open>rl = 0\<close>) or replaced by the character \<open>c\<close> (\<open>rl = 1\<close>).\<close>

definition key_replace :: "u32 \<Rightarrow> con \<Rightarrow> con res" where
  "key_replace c s =
     (let start = select_start s; stop = select_end s; len = stop - start; s1 = s\<lparr>select_mode := 0\<rparr>;
          rl = (if c = Ctl 72 \<or> c = 0x7f then 0 else 1) in
      bindR (if len \<noteq> rl then ibuf_move (start + rl) stop (in_e s1 - stop) s1 else Inr s1) (\<lambda>s2.
      let s3 = s2\<lparr>in_e := in_e s2 - len + rl\<rparr> in
      bindR (if rl \<noteq> 0
             then if INPUT_BUF \<le> unat start then Inl OutOfBounds
                  else Inr (history_push start (history_adjust_after_insert start (ibuf_set start (ucast c) s3)))
             else Inr ((history_adjust_after_delete start ^^ unat len) s3)) (\<lambda>s4.
      redraw_line (s4\<lparr>in_cursor := start + rl\<rparr>))))"

definition key_selected :: "u32 \<Rightarrow> con \<Rightarrow> con res" where
  "key_selected c s =
     (if c \<in> {KEY_LF, KEY_RT, Ctl 65, Ctl 68, Ctl 83, Ctl 90, Ctl 86} then redraw_line (s\<lparr>select_mode := 0\<rparr>)
      else if c = Ctl 67 then key_copy s
      else key_replace c s)"

section \<open>Keys\<close>

definition key_kill_line :: "con \<Rightarrow> con res" where
  "key_kill_line s =
     bindR (foldR (\<lambda>_ t. consputc BACKSPACE (t\<lparr>in_e := in_e t - 1\<rparr>)) [0..<unat (in_e s - in_w s)] s) (\<lambda>s1.
     Inr (s1\<lparr>in_cursor := in_w s1\<rparr>))"

definition key_backspace :: "con \<Rightarrow> con res" where
  "key_backspace s =
     (if in_w s < in_cursor s
      then bindR (ibuf_move (in_cursor s - 1) (in_cursor s) (in_e s - in_cursor s) (history_adjust_after_delete (in_cursor s - 1) s)) (\<lambda>s1.
           redraw_line (s1\<lparr>in_e := in_e s1 - 1, in_cursor := in_cursor s1 - 1\<rparr>))
      else Inr s)"

definition key_undo :: "con \<Rightarrow> con res" where
  "key_undo s =
     (if 0 < history_pos s
      then let s1 = s\<lparr>history_pos := history_pos s - 1\<rparr>; p = insert_history s1 (history_pos s1) in
           if p < in_e s1
           then bindR (ibuf_move p (p + 1) (in_e s1 - (p + 1)) s1) (\<lambda>s2.
                redraw_line ((history_adjust_after_delete p (s2\<lparr>in_e := in_e s2 - 1\<rparr>))\<lparr>in_cursor := p\<rparr>))
           else Inr s1
      else Inr s)"

definition key_select :: "con \<Rightarrow> con res" where
  "key_select s =
     (if select_mode s = 0 then Inr (s\<lparr>select_anchor := in_cursor s, select_mode := 1\<rparr>)
      else let s1 = s\<lparr>select_mode := 2\<rparr>;
               s2 = (if in_cursor s1 < select_anchor s1
                     then s1\<lparr>select_start := in_cursor s1, select_end := select_anchor s1 + 1\<rparr>
                     else s1\<lparr>select_start := select_anchor s1, select_end := in_cursor s1 + 1\<rparr>);
               s3 = (if select_end s2 - 1 \<le> select_start s2 then s2\<lparr>select_mode := 0\<rparr> else s2)
           in redraw_line s3)"

definition key_paste :: "con \<Rightarrow> con res" where
  "key_paste s =
     (if 0 < clipboard_len s
      then let n = (of_int (clipboard_len s) :: u32) in
           if in_e s + n < of_nat INPUT_BUF
           then bindR (ibuf_move (in_cursor s + n) (in_cursor s) (in_e s - in_cursor s) s) (\<lambda>s1.
                if INPUT_BUF < unat (in_cursor s1) + unat n then Inl OutOfBounds
                else let c = unat (in_cursor s1);
                         s2 = s1\<lparr>ibuf := (\<lambda>i. if c \<le> i \<and> i < c + unat n then clipboard s1 (i - c) else ibuf s1 i)\<rparr>
                     in redraw_line (s2\<lparr>in_e := in_e s2 + n, in_cursor := in_cursor s2 + n\<rparr>))
           else Inr s
      else Inr s)"

definition key_left :: "con \<Rightarrow> con res" where
  "key_left s =
     Inr (if in_w s < in_cursor s then set_cursor_pos (get_cursor_pos s - 1) (s\<lparr>in_cursor := in_cursor s - 1\<rparr>) else s)"

definition key_right :: "con \<Rightarrow> con res" where
  "key_right s =
     Inr (if in_cursor s < in_e s then set_cursor_pos (get_cursor_pos s + 1) (s\<lparr>in_cursor := in_cursor s + 1\<rparr>) else s)"

text \<open>A loop \<open>while(i < e && P(buf[i])) i++\<close>, and one \<open>while(i > w && P(buf[i-1])) i--\<close>.\<close>

function scan_up :: "(u8 \<Rightarrow> bool) \<Rightarrow> con \<Rightarrow> u32 \<Rightarrow> u32" where
  "scan_up P s i = (if i < in_e s \<and> P (ibuf s (unat i mod INPUT_BUF)) then scan_up P s (i + 1) else i)"
  by pat_completeness auto
termination
proof (relation "measure (\<lambda>(P, s, i). unat (in_e s) - unat i)", goal_cases)
  case (2 P s i)
  then have l: "unat i < unat (in_e s)" by (simp add: word_less_nat_alt)
  have "unat (in_e s) < 2 ^ 32" using unsigned_less [of "in_e s", where 'a = nat] by simp
  then have "unat (i + 1) = unat i + 1" using l by (simp add: unat_word_ariths)
  then show ?case using l by simp
qed simp

function scan_down :: "(u8 \<Rightarrow> bool) \<Rightarrow> con \<Rightarrow> u32 \<Rightarrow> u32" where
  "scan_down P s i = (if in_w s < i \<and> P (ibuf s (unat (i - 1) mod INPUT_BUF)) then scan_down P s (i - 1) else i)"
  by pat_completeness auto
termination
proof (relation "measure (\<lambda>(P, s, i). unat i)", goal_cases)
  case (2 P s i)
  then have "i \<noteq> 0" by (metis word_not_simps(1))
  then show ?case by (simp add: unat_gt_0 unat_minus_one)
qed simp

declare scan_up.simps [simp del] scan_down.simps [simp del]

definition key_next_word :: "con \<Rightarrow> con res" where
  "key_next_word s =
     (let p1 = scan_up (\<lambda>c. c = 32) s (in_cursor s); p2 = scan_up (\<lambda>c. c \<noteq> 32) s p1; p3 = scan_up (\<lambda>c. c = 32) s p2 in
      if p3 < in_e s then Inr (set_cursor_pos (start_pos s + uint (p3 - in_w s)) (s\<lparr>in_cursor := p3\<rparr>)) else Inr s)"

definition key_prev_word :: "con \<Rightarrow> con res" where
  "key_prev_word s =
     (let i = in_cursor s; at_boundary = (i = in_w s \<or> ibuf s (unat (i - 1) mod INPUT_BUF) = 32);
          i1 = (if at_boundary \<and> in_w s < i then scan_down (\<lambda>c. c = 32) s (i - 1) else i);
          i2 = scan_down (\<lambda>c. c \<noteq> 32) s i1 in
      Inr (set_cursor_pos (start_pos s + uint (i2 - in_w s)) (s\<lparr>in_cursor := i2\<rparr>)))"

definition key_enter :: "con \<Rightarrow> con res" where
  "key_enter s =
     bindR (consputc 10 ((ibuf_set (in_e s) 10 s)\<lparr>in_e := in_e s + 1\<rparr>)) (\<lambda>s1.
     Inr (s1\<lparr>in_w := in_e s1, wakeups := wakeups s1 + 1, in_cursor := in_e s1, start_pos := 0, select_mode := 0, history_pos := 0\<rparr>))"

definition key_tab :: "con \<Rightarrow> con res" where
  "key_tab s =
     (if \<not> autocomplete_active s
      then let s1 = s\<lparr>autocomplete_active := True, tab_press_count := tab_press_count s + 1, saved_buf := ibuf s, saved_r := in_r s,
                    saved_w := in_w s, saved_e := in_e s, saved_cursor := in_cursor s\<rparr>;
               s2 = (ibuf_set (in_e s1) 9 s1)\<lparr>in_e := in_e s1 + 1\<rparr>
           in Inr (s2\<lparr>in_w := in_e s2, wakeups := wakeups s2 + 1\<rparr>)
      else Inr s)"

text \<open>The character is put at the cursor, after the rest of the line has been moved up; used for keys and for completions.\<close>

definition insert_char :: "u8 \<Rightarrow> con \<Rightarrow> con res" where
  "insert_char c s =
     (let s1 = history_push (in_cursor s) (history_adjust_after_insert (in_cursor s) s) in
      bindR (if in_cursor s1 < in_e s1 then ibuf_move (in_cursor s1 + 1) (in_cursor s1) (in_e s1 - in_cursor s1) s1 else Inr s1) (\<lambda>s2.
      let s3 = ibuf_set (in_cursor s2) c s2 in Inr (s3\<lparr>in_e := in_e s3 + 1, in_cursor := in_cursor s3 + 1\<rparr>)))"

definition key_char :: "u32 \<Rightarrow> con \<Rightarrow> con res" where
  "key_char c s =
     (if in_e s - in_r s < of_nat INPUT_BUF \<and> c \<noteq> 13
      then let s1 = (if in_e s = in_w s then s\<lparr>start_pos := get_cursor_pos s\<rparr> else s) in bindR (insert_char (ucast c) s1) redraw_line
      else Inr s)"

text \<open>One key; the flag says that \<open>procdump\<close> was asked for.\<close>

definition console_key :: "u32 \<Rightarrow> con \<Rightarrow> (bool \<times> con) res" where
  "console_key c s =
     (if c = 0 then Inr (False, s)
      else if select_mode s = 2 then bindR (key_selected c s) (\<lambda>s1. Inr (False, s1))
      else if c = Ctl 80 then Inr (True, tab_reset s)
      else bindR
        (if c = Ctl 85 then key_kill_line (tab_reset s)
         else if c = Ctl 72 \<or> c = 0x7f then key_backspace (tab_reset s)
         else if c = Ctl 90 then key_undo (tab_reset s)
         else if c = Ctl 83 then key_select (tab_reset s)
         else if c = Ctl 86 then key_paste (tab_reset s)
         else if c = KEY_LF then key_left (tab_reset s)
         else if c = KEY_RT then key_right (tab_reset s)
         else if c = Ctl 68 then key_next_word (tab_reset s)
         else if c = Ctl 65 then key_prev_word (tab_reset s)
         else if c = 10 then key_enter s
         else if c = 9 then key_tab s
         else key_char c s) (\<lambda>s1. Inr (False, s1)))"

fun console_keys :: "u32 list \<Rightarrow> con \<Rightarrow> (bool \<times> con) res" where
  "console_keys [] s = Inr (False, s)"
| "console_keys (c # cs) s = bindR (console_key c s) (\<lambda>(d, s1). bindR (console_keys cs s1) (\<lambda>(d', s2). Inr (d \<or> d', s2)))"

text \<open>The keys are what \<open>getc\<close> gives until it has no more. The result says whether \<open>procdump\<close> is called at the end.\<close>

definition consoleintr :: "u32 list \<Rightarrow> con \<Rightarrow> (bool \<times> con) res" where
  "consoleintr cs s =
     bindR (cons_acquire s) (\<lambda>s1. bindR (console_keys cs s1) (\<lambda>(d, s2). bindR (cons_release s2) (\<lambda>s3. Inr (d, s3))))"

section \<open>Reading and writing\<close>

text \<open>
  The loop of \<open>consoleread\<close> with \<open>n\<close> bytes to go of \<open>target\<close>, with the bytes it puts to \<open>dst\<close>. The inode is unlocked during the
  call. \<open>Blocks\<close> where it would sleep.
\<close>

fun consoleread_loop :: "bool \<Rightarrow> nat \<Rightarrow> nat \<Rightarrow> con \<Rightarrow> ((int \<times> u8 list) \<times> con) res" where
  "consoleread_loop killed target 0 s = bindR (cons_release s) (\<lambda>s1. Inr ((int target, []), s1))"
| "consoleread_loop killed target (Suc n) s =
     (if in_r s = in_w s
      then if killed then bindR (cons_release s) (\<lambda>s1. Inr ((-1, []), s1)) else Inl Blocks
      else
        let c = ibuf s (unat (in_r s) mod INPUT_BUF); s1 = s\<lparr>in_r := in_r s + 1\<rparr> in
        if c = 4
        then let s2 = (if Suc n < target then s1\<lparr>in_r := in_r s1 - 1\<rparr> else s1) in
             bindR (cons_release s2) (\<lambda>s3. Inr ((int target - int (Suc n), []), s3))
        else if c = 10 then bindR (cons_release s1) (\<lambda>s2. Inr ((int target - int n, [c]), s2))
        else bindR (consoleread_loop killed target n s1) (\<lambda>((r, bs), s2). Inr ((r, c # bs), s2)))"

definition consoleread :: "bool \<Rightarrow> int \<Rightarrow> con \<Rightarrow> ((int \<times> u8 list) \<times> con) res" where
  "consoleread killed n s = bindR (cons_acquire s) (consoleread_loop killed (nat n) (nat n))"

definition consolewrite :: "u8 list \<Rightarrow> con \<Rightarrow> (int \<times> con) res" where
  "consolewrite buf s =
     bindR (cons_acquire s) (\<lambda>s1.
     bindR (foldR (\<lambda>c. consputc (ucast c)) buf s1) (\<lambda>s2.
     bindR (cons_release s2) (\<lambda>s3. Inr (int (length buf), s3))))"

definition consoleinit :: "con \<Rightarrow> con" where
  "consoleinit s = s\<lparr>cons_lock := False, cons_locking := True, history_pos := 0, in_cursor := in_w s, clipboard_len := 0, select_mode := 0,
     prev_line_len := 0, tab_press_count := 0, last_prefix := (last_prefix s)(0 := 0)\<rparr>"

section \<open>Completion\<close>

text \<open>More than one match: a newline that is not the last character.\<close>

definition is_multiple :: "u8 list \<Rightarrow> bool" where
  "is_multiple ms = (case dropWhile (\<lambda>c. c \<noteq> 10) ms of [] \<Rightarrow> False | _ # rest \<Rightarrow> rest \<noteq> [])"

definition complete_one :: "u8 list \<Rightarrow> con \<Rightarrow> con res" where
  "complete_one ms s =
     (let prefix_start = scan_down (\<lambda>c. c \<noteq> 32) s (in_cursor s); prefix_len = unat (in_cursor s - prefix_start);
          n = length ms; completion_len = (if 0 < n \<and> ms ! (n - 1) = 10 then n - 1 else n) in
      foldR (\<lambda>i. insert_char (ms ! i)) [prefix_len..<completion_len] s)"

definition show_matches :: "u8 list \<Rightarrow> con \<Rightarrow> con res" where
  "show_matches ms s =
     (let original_locking = cons_locking s; s1 = s\<lparr>cons_locking := False\<rparr> in
      bindR (consputc 10 s1) (\<lambda>s2.
      bindR (foldR (\<lambda>c. consputc (if c = 10 then 32 else of_char c)) ms s2) (\<lambda>s3.
      bindR (consputc 10 s3) (\<lambda>s4.
      bindR (cprintf [36, 32] [] s4) (\<lambda>s5.
      let s6 = s5\<lparr>cons_locking := original_locking, start_pos := get_cursor_pos s5\<rparr> in
      bindR (foldR (\<lambda>k t. consputc (of_char (ibuf t (unat (in_w s6 + of_nat k) mod INPUT_BUF))) t)
               [0..<(if in_w s6 < in_e s6 then unat (in_e s6 - in_w s6) else 0)] s6) (\<lambda>s7.
      Inr (set_cursor_pos (start_pos s7 + uint (in_cursor s7 - in_w s7)) s7)))))))"

definition console_print_and_redraw :: "u8 list \<Rightarrow> con \<Rightarrow> con res" where
  "console_print_and_redraw ms s =
     bindR (cons_acquire s) (\<lambda>s1.
     let s2 = s1\<lparr>ibuf := saved_buf s1, in_r := saved_r s1, in_w := saved_w s1, in_e := saved_e s1, in_cursor := saved_cursor s1\<rparr> in
     bindR (if \<not> is_multiple ms then complete_one ms s2 else if 1 < tab_press_count s2 then show_matches ms s2 else Inr s2) (\<lambda>s3.
     bindR (redraw_line (s3\<lparr>autocomplete_active := False\<rparr>)) cons_release))"

section \<open>The keyboard\<close>

definition SHIFT :: u8 where "SHIFT = 1"
definition CTL :: u8 where "CTL = 2"
definition ALT :: u8 where "ALT = 4"
definition CAPSLOCK :: u8 where "CAPSLOCK = 8"
definition NUMLOCK :: u8 where "NUMLOCK = 16"
definition SCROLLLOCK :: u8 where "SCROLLLOCK = 32"
definition E0ESC :: u8 where "E0ESC = 64"

definition shiftcode :: "u8 \<Rightarrow> u8" where
  "shiftcode d = (if d = 0x1D \<or> d = 0x9D then CTL else if d = 0x2A \<or> d = 0x36 then SHIFT else if d = 0x38 \<or> d = 0xB8 then ALT else 0)"

definition togglecode :: "u8 \<Rightarrow> u8" where
  "togglecode d = (if d = 0x3A then CAPSLOCK else if d = 0x45 then NUMLOCK else if d = 0x46 then SCROLLLOCK else 0)"

text \<open>The keys with an escape: KP_Enter, KP_Div, arrows, page and editing keys; \<open>en\<close> and \<open>sl\<close> differ between the maps.\<close>

definition escaped :: "u8 \<Rightarrow> u8 \<Rightarrow> u8 \<Rightarrow> u8" where
  "escaped en sl d =
     (if d = 0x9C then en else if d = 0xB5 then sl else if d = 0xC8 then 0xE2 else if d = 0xD0 then 0xE3 else if d = 0xC9 then 0xE6
      else if d = 0xD1 then 0xE7 else if d = 0xCB then 0xE4 else if d = 0xCD then 0xE5 else if d = 0x97 then 0xE0 else if d = 0xCF then 0xE1
      else if d = 0xD2 then 0xE8 else if d = 0xD3 then 0xE9 else 0)"

definition normal_rows :: "u8 list" where
  "normal_rows =
    [0, 27, 49, 50, 51, 52, 53, 54,  55, 56, 57, 48, 45, 61, 8, 9,
     113, 119, 101, 114, 116, 121, 117, 105,  111, 112, 91, 93, 10, 0, 97, 115,
     100, 102, 103, 104, 106, 107, 108, 59,  39, 96, 0, 92, 122, 120, 99, 118,
     98, 110, 109, 44, 46, 47, 0, 42,  0, 32, 0, 0, 0, 0, 0, 0,
     0, 0, 0, 0, 0, 0, 0, 55,  56, 57, 45, 52, 53, 54, 43, 49,
     50, 51, 48, 46, 0, 0, 0, 0]"

definition shift_rows :: "u8 list" where
  "shift_rows =
    [0, 27, 33, 64, 35, 36, 37, 94,  38, 42, 40, 41, 95, 43, 8, 9,
     81, 87, 69, 82, 84, 89, 85, 73,  79, 80, 123, 125, 10, 0, 65, 83,
     68, 70, 71, 72, 74, 75, 76, 58,  34, 126, 0, 124, 90, 88, 67, 86,
     66, 78, 77, 60, 62, 63, 0, 42,  0, 32, 0, 0, 0, 0, 0, 0,
     0, 0, 0, 0, 0, 0, 0, 55,  56, 57, 45, 52, 53, 54, 43, 49,
     50, 51, 48, 46, 0, 0, 0, 0]"

definition ctl_rows :: "u8 list" where
  "ctl_rows =
    [0, 0, 0, 0, 0, 0, 0, 0,  0, 0, 0, 0, 0, 0, 0, 0,
     17, 23, 5, 18, 20, 25, 21, 9,  15, 16, 0, 0, 13, 0, 1, 19,
     4, 6, 7, 8, 10, 11, 12, 0,  0, 0, 0, 28, 26, 24, 3, 22,
     2, 14, 13, 0, 0, 239, 0, 0]"

definition keymap :: "u8 list \<Rightarrow> u8 \<Rightarrow> u8 \<Rightarrow> u8 \<Rightarrow> u8" where
  "keymap rows en sl d = (if unat d < length rows then rows ! unat d else escaped en sl d)"

definition normalmap :: "u8 \<Rightarrow> u8" where "normalmap = keymap normal_rows 10 47"
definition shiftmap :: "u8 \<Rightarrow> u8" where "shiftmap = keymap shift_rows 10 47"
definition ctlmap :: "u8 \<Rightarrow> u8" where "ctlmap = keymap ctl_rows 13 239"

text \<open>One byte of the keyboard: the modifiers after it, and the key.\<close>

definition kbdgetc :: "u8 \<Rightarrow> u8 \<Rightarrow> u8 \<times> u8" where
  "kbdgetc shift data =
     (if data = 0xE0 then (shift OR E0ESC, 0)
      else if data AND 0x80 \<noteq> 0
      then let d = (if shift AND E0ESC \<noteq> 0 then data else data AND 0x7F) in (shift AND NOT (shiftcode d OR E0ESC), 0)
      else
        let (d, sh) = (if shift AND E0ESC \<noteq> 0 then (data OR 0x80, shift AND NOT E0ESC) else (data, shift));
            sh = (sh OR shiftcode d) XOR togglecode d;
            m = sh AND (CTL OR SHIFT);
            c = (if m = 0 then normalmap d else if m = 1 then shiftmap d else ctlmap d);
            c = (if sh AND CAPSLOCK \<noteq> 0
                 then if 97 \<le> c \<and> c \<le> 122 then c - 32 else if 65 \<le> c \<and> c \<le> 90 then c + 32 else c
                 else c)
        in (sh, c))"

fun kbd_keys :: "u8 \<Rightarrow> u8 list \<Rightarrow> u8 \<times> u32 list" where
  "kbd_keys shift [] = (shift, [])"
| "kbd_keys shift (d # ds) = (let (sh, c) = kbdgetc shift d; (sh', cs) = kbd_keys sh ds in (sh', ucast c # cs))"

text \<open>The interrupt handler: the bytes waiting in the controller become keys of the console.\<close>

definition kbdintr :: "u8 list \<Rightarrow> u8 \<Rightarrow> con \<Rightarrow> ((bool \<times> u8) \<times> con) res" where
  "kbdintr data shift s =
     (let (sh, cs) = kbd_keys shift data in bindR (consoleintr cs s) (\<lambda>(d, s1). Inr ((d, sh), s1)))"

text \<open>The same for the bytes that wait at the serial port.\<close>

definition uartintr :: "u8 list \<Rightarrow> con \<Rightarrow> (bool \<times> con) res" where
  "uartintr data s = consoleintr (if uart (scr s) then map ucast data else []) s"

definition con0 :: con where
  "con0 = consoleinit \<lparr>cons_lock = False, cons_locking = False, panicked = False, scr = \<lparr>crt = (\<lambda>_. 0), crt_pos = 0, uart = True, uart_out = []\<rparr>, ibuf = (\<lambda>_. 0),
     in_r = 0, in_w = 0, in_e = 0, in_cursor = 0, start_pos = 0, tab_press_count = 0, last_prefix = (\<lambda>_. 0), autocomplete_active = False,
     saved_buf = (\<lambda>_. 0), saved_r = 0, saved_w = 0, saved_e = 0, saved_cursor = 0, select_mode = 0, select_anchor = 0, select_start = 0, select_end = 0,
     clipboard = (\<lambda>_. 0), clipboard_len = 0, insert_history = (\<lambda>_. 0), history_pos = 0, prev_line_len = 0, wakeups = 0\<rparr>"

section \<open>Printing leaves the line alone\<close>

text \<open>All of the state but the screen and the serial line is the same.\<close>

definition same_line :: "con \<Rightarrow> con \<Rightarrow> bool" where
  "same_line s t \<longleftrightarrow> (\<exists>x. t = s\<lparr>scr := x\<rparr>)"

lemma same_line_refl [simp]: "same_line s s"
  unfolding same_line_def by (rule exI [of _ "scr s"]) simp

lemma same_line_trans: "same_line s t \<Longrightarrow> same_line t u \<Longrightarrow> same_line s u"
  by (auto simp: same_line_def)

text \<open>From a position on the screen, or up to one line below it, nothing that is printed panics.\<close>

definition on_screen :: "con \<Rightarrow> bool" where
  "on_screen s \<longleftrightarrow> \<not> panicked s \<and> 0 \<le> get_cursor_pos s \<and> get_cursor_pos s < 2000"

lemma cgaputc_ok:
  assumes "0 \<le> crt_pos s" "crt_pos s < 2000"
  shows "\<exists>m p. cgaputc c s = Inr (s\<lparr>crt_pos := p, crt := m\<rparr>) \<and> 0 \<le> p \<and> p < 2000 \<and> (c = BACKSPACE \<longrightarrow> p \<le> max 0 (crt_pos s - 1))"
proof -
  let ?pos = "crt_pos s"
  let ?p1 = "if c = 10 then ?pos + 80 - ?pos mod 80 else if c = BACKSPACE then (if 0 < ?pos then ?pos - 1 else ?pos) else ?pos + 1"
  have n: "0 \<le> ?pos + 80 - ?pos mod 80 \<and> ?pos + 80 - ?pos mod 80 \<le> 2000" using assms by presburger
  have p1: "0 \<le> ?p1" "?p1 \<le> 2000" using assms n by simp_all
  define p1 where "p1 = ?p1"
  define m1 where "m1 = (if c = 10 \<or> c = BACKSPACE then crt s
    else (crt s)(nat ?pos := (if c AND 0xff00 = 0 then ucast (c AND 0xff) OR 0x0700 else ucast c)))"
  define p2 where "p2 = (if 24 \<le> p1 div 80 then p1 - 80 else p1)"
  have e: "(if c = 10 then (?pos + 80 - ?pos mod 80, crt s) else if c = BACKSPACE then (if 0 < ?pos then ?pos - 1 else ?pos, crt s)
      else (?pos + 1, (crt s)(nat ?pos := (if c AND 0xff00 = 0 then ucast (c AND 0xff) OR 0x0700 else ucast c)))) = (p1, m1)"
    by (simp add: p1_def m1_def)
  have p2: "0 \<le> p2" "p2 < 2000" using p1 unfolding p2_def p1_def [symmetric] by (auto split: if_splits)
  have b: "c = BACKSPACE \<longrightarrow> p2 \<le> max 0 (?pos - 1)" using assms by (auto simp: p2_def p1_def BACKSPACE_def)
  have "\<exists>m. cgaputc c s = Inr (s\<lparr>crt_pos := p2, crt := m\<rparr>)"
    using p1 p2 unfolding cgaputc_def Let_def e prod.case p1_def [symmetric] by (auto simp: p2_def mod_pos_pos_trivial split: if_splits)
  then show ?thesis using p2 b by blast
qed

lemma consputc_ok:
  assumes "on_screen s"
  shows "\<exists>t. consputc c s = Inr t \<and> same_line s t \<and> on_screen t \<and> (c = BACKSPACE \<longrightarrow> get_cursor_pos t \<le> max 0 (get_cursor_pos s - 1))"
proof -
  let ?x = "if c = BACKSPACE then uartputc 8 (uartputc 32 (uartputc 8 (scr s))) else uartputc c (scr s)"
  have x: "crt_pos ?x = get_cursor_pos s" by (simp add: uartputc_def get_cursor_pos_def)
  obtain m p where m: "cgaputc c ?x = Inr (?x\<lparr>crt_pos := p, crt := m\<rparr>)" "0 \<le> p" "p < 2000" "c = BACKSPACE \<longrightarrow> p \<le> max 0 (get_cursor_pos s - 1)"
    using cgaputc_ok [of ?x c] assms unfolding on_screen_def x by blast
  let ?t = "s\<lparr>scr := ?x\<lparr>crt_pos := p, crt := m\<rparr>\<rparr>"
  have "consputc c s = Inr ?t" unfolding consputc_def Let_def m(1) using assms by (simp add: on_screen_def)
  moreover have "same_line s ?t" unfolding same_line_def by blast
  moreover have "get_cursor_pos ?t = p" by (simp add: get_cursor_pos_def)
  ultimately show ?thesis using m assms by (auto simp: on_screen_def)
qed

lemma foldR_line:
  assumes "\<And>x t. same_line s t \<Longrightarrow> on_screen t \<Longrightarrow> \<exists>u. f x t = Inr u \<and> same_line t u \<and> on_screen u"
  shows "same_line s t \<Longrightarrow> on_screen t \<Longrightarrow> \<exists>u. foldR f xs t = Inr u \<and> same_line s u \<and> on_screen u"
proof (induction xs arbitrary: t)
  case (Cons x xs)
  obtain u where "f x t = Inr u" "same_line t u" "on_screen u" using assms Cons.prems by blast
  moreover have "same_line s u" using calculation(2) Cons.prems(1) by (blast intro: same_line_trans)
  ultimately show ?case using Cons.IH [of u] by (simp only: foldR.simps bindR_simps)
qed auto

lemma redraw_line_ok:
  assumes "\<not> panicked s" "0 \<le> start_pos s" "start_pos s < 2000"
  shows "\<exists>x. redraw_line s = Inr (s\<lparr>prev_line_len := in_e s - in_w s, scr := x\<rparr>) \<and> crt_pos x = (start_pos s + uint (in_cursor s - in_w s)) mod 2 ^ 16"
proof -
  let ?s1 = "set_cursor_pos (start_pos s) s"
  let ?n = "if in_w s < in_e s then unat (in_e s - in_w s) else 0" and ?l = "in_e s - in_w s"
  have s1: "same_line s ?s1" "on_screen ?s1"
    using assms by (auto simp: set_cursor_pos_def get_cursor_pos_def on_screen_def same_line_def mod_pos_pos_trivial)
  have r: "\<exists>u. redraw_char i t = Inr u \<and> same_line t u \<and> on_screen u" if "on_screen t" for i t
    using consputc_ok [OF that] unfolding redraw_char_def Let_def by blast
  obtain s2 where s2: "foldR (\<lambda>k. redraw_char (in_w s + of_nat k)) [0..<?n] ?s1 = Inr s2" "same_line s s2" "on_screen s2"
    using foldR_line [of s "\<lambda>k. redraw_char (in_w s + of_nat k)" ?s1 "[0..<?n]"] s1 r by blast
  have c: "\<exists>u. consputc 32 t = Inr u \<and> same_line t u \<and> on_screen u" if "on_screen t" for t using consputc_ok [OF that] by blast
  have "\<exists>s3. (if ?l < prev_line_len s2 then foldR (\<lambda>_. consputc 32) [0..<unat (prev_line_len s2 - ?l)] s2 else Inr s2) = Inr s3 \<and> same_line s s3"
    using foldR_line [of s "\<lambda>_. consputc 32" s2 "[0..<unat (prev_line_len s2 - ?l)]", OF c] s2(2,3) by (cases "?l < prev_line_len s2") auto
  then obtain s3 where s3: "(if ?l < prev_line_len s2 then foldR (\<lambda>_. consputc 32) [0..<unat (prev_line_len s2 - ?l)] s2 else Inr s2) = Inr s3" "same_line s s3"
    by blast
  obtain x where e: "s3 = s\<lparr>scr := x\<rparr>" using s3(2) by (auto simp: same_line_def)
  have "redraw_line s = Inr (set_cursor_pos (start_pos s3 + uint (in_cursor s3 - in_w s3)) (s3\<lparr>prev_line_len := ?l\<rparr>))"
    unfolding redraw_line_def Let_def s2(1) bindR_simps s3(1) by simp
  then show ?thesis unfolding e
    by (intro exI [of _ "x\<lparr>crt_pos := (start_pos s + uint (in_cursor s - in_w s)) mod 2 ^ 16\<rparr>"]) (simp add: set_cursor_pos_def)
qed

section \<open>The edited line as a text with a cursor\<close>

definition next_word :: "u8 list \<Rightarrow> nat \<Rightarrow> nat" where
  "next_word l k =
     (let skip = \<lambda>P n. n + length (takeWhile P (drop n l)); k' = skip (\<lambda>c. c = 32) (skip (\<lambda>c. c \<noteq> 32) (skip (\<lambda>c. c = 32) k)) in
      if k' < length l then k' else k)"

definition prev_word :: "u8 list \<Rightarrow> nat \<Rightarrow> nat" where
  "prev_word l k = (let back = \<lambda>P n. n - length (takeWhile P (rev (take n l))) in back (\<lambda>c. c \<noteq> 32) (back (\<lambda>c. c = 32) k))"

text \<open>What an editing key does to a text with the cursor before its \<open>k\<close>-th character.\<close>

fun edit_key :: "u32 \<Rightarrow> u8 list \<times> nat \<Rightarrow> u8 list \<times> nat" where
  "edit_key c (l, k) =
     (if c = Ctl 85 then ([], 0)
      else if c = Ctl 72 \<or> c = 0x7f then (take (k - 1) l @ drop k l, k - 1)
      else if c = KEY_LF then (l, k - 1)
      else if c = KEY_RT then (l, min (k + 1) (length l))
      else if c = Ctl 68 then (l, next_word l k)
      else if c = Ctl 65 then (l, prev_word l k)
      else if c = 0 \<or> c = Ctl 80 \<or> c = 13 then (l, k)
      else (take k l @ [ucast c] @ drop k l, k + 1))"

definition editing_key :: "u32 \<Rightarrow> bool" where
  "editing_key c \<longleftrightarrow> c < 256 \<and> c \<notin> {9, 10, Ctl 83, Ctl 86, Ctl 90}"

definition line_of :: "con \<Rightarrow> u8 list \<times> nat" where
  "line_of s = (map (ibuf s) [unat (in_w s)..<unat (in_e s)], unat (in_cursor s) - unat (in_w s))"

definition line_wf :: "con \<Rightarrow> bool" where
  "line_wf s \<longleftrightarrow> \<not> panicked s \<and> select_mode s = 0 \<and> unat (in_r s) \<le> unat (in_w s) \<and> unat (in_w s) \<le> unat (in_cursor s) \<and>
     unat (in_cursor s) \<le> unat (in_e s) \<and> unat (in_e s) \<le> 128"

text \<open>The line starts at least 128 places before the end of the screen, and the cursor is where it is shown.\<close>

definition line_shown :: "con \<Rightarrow> bool" where
  "line_shown s \<longleftrightarrow> 0 \<le> start_pos s \<and> start_pos s < 1872 \<and>
     (if in_w s = in_e s then 0 \<le> get_cursor_pos s \<and> get_cursor_pos s < 1872
      else get_cursor_pos s = start_pos s + int (unat (in_cursor s) - unat (in_w s)))"

definition edits :: "con \<Rightarrow> con \<Rightarrow> u8 list \<times> nat \<Rightarrow> bool" where
  "edits s t l \<longleftrightarrow> line_wf t \<and> line_shown t \<and> line_of t = l \<and> in_w t = in_w s \<and> in_r t = in_r s \<and> cons_lock t = cons_lock s \<and> wakeups t = wakeups s"

lemma unat_minus_le: "unat b \<le> unat a \<Longrightarrow> unat (a - b :: u32) = unat a - unat b"
  by (metis unat_sub_if' word_le_nat_alt)

lemma unat_suc_small: "unat a < 2000 \<Longrightarrow> unat (a + 1 :: u32) = unat a + 1"
  by (simp add: unat_word_ariths)

lemma unat_pred: "0 < unat a \<Longrightarrow> unat (a - 1 :: u32) = unat a - 1"
  using unat_minus_le [of 1 a] by simp

lemma redraw_edits:
  assumes "line_wf s" "0 \<le> start_pos s" "start_pos s < 1872"
  shows "\<exists>t. redraw_line s = Inr t \<and> edits s t (line_of s)"
proof -
  have w: "\<not> panicked s" "unat (in_w s) \<le> unat (in_cursor s)" "unat (in_cursor s) \<le> 128" using assms(1) by (simp_all add: line_wf_def)
  obtain x where x: "redraw_line s = Inr (s\<lparr>prev_line_len := in_e s - in_w s, scr := x\<rparr>)" "crt_pos x = (start_pos s + uint (in_cursor s - in_w s)) mod 2 ^ 16"
    using redraw_line_ok [OF w(1) assms(2)] assms(3) by force
  have u: "uint (in_cursor s - in_w s) = int (unat (in_cursor s) - unat (in_w s))" unfolding unat_minus_le [OF w(2), symmetric] by simp
  have p: "crt_pos x = start_pos s + int (unat (in_cursor s) - unat (in_w s))" unfolding x(2) u
    by (rule mod_pos_pos_trivial) (use assms(2,3) w in \<open>simp_all del: of_nat_diff\<close>)
  let ?t = "s\<lparr>prev_line_len := in_e s - in_w s, scr := x\<rparr>"
  have "line_wf ?t" "line_of ?t = line_of s" using assms(1) by (simp_all add: line_wf_def line_of_def)
  moreover have "in_w s = in_e s \<Longrightarrow> unat (in_cursor s) - unat (in_w s) = 0" using assms(1) by (simp add: line_wf_def)
  then have "line_shown ?t" using assms(2,3) unfolding line_shown_def get_cursor_pos_def by (simp add: p del: of_nat_diff)
  ultimately have "edits s ?t (line_of s)" by (simp add: edits_def)
  then show ?thesis using x(1) by blast
qed

lemma edits_from: "edits s' t l \<Longrightarrow> in_w s' = in_w s \<Longrightarrow> in_r s' = in_r s \<Longrightarrow> cons_lock s' = cons_lock s \<Longrightarrow> wakeups s' = wakeups s \<Longrightarrow> edits s t l"
  by (simp add: edits_def)

lemma line_of_len: "line_of s = (l, k) \<Longrightarrow> length l = unat (in_e s) - unat (in_w s)"
  by (auto simp: line_of_def)

lemma ibuf_move_eq:
  assumes "unat d + unat n \<le> 128" "unat i + unat n \<le> 128"
  shows "ibuf_move d i n s = Inr (s\<lparr>ibuf := (\<lambda>j. if unat d \<le> j \<and> j < unat d + unat n then ibuf s (unat i + (j - unat d)) else ibuf s j)\<rparr>)"
proof (cases "n = 0")
  case True
  have "(\<lambda>j. if unat d \<le> j \<and> j < unat d + unat n then ibuf s (unat i + (j - unat d)) else ibuf s j) = ibuf s"
    using True by (intro ext) auto
  then show ?thesis using True unfolding ibuf_move_def by simp
next
  case False
  then show ?thesis using assms unfolding ibuf_move_def INPUT_BUF_def by simp
qed

lemma history_keeps: "\<exists>h p. history_push i (history_adjust_after_insert i s) = s\<lparr>insert_history := h, history_pos := p\<rparr>"
proof (cases "history_pos s < HISTORY_SIZE")
  case True
  then have "history_push i (history_adjust_after_insert i s) = s\<lparr>insert_history := (insert_history (history_adjust_after_insert i s))(history_pos s := i),
      history_pos := history_pos s + 1\<rparr>"
    by (simp add: history_push_def history_adjust_after_insert_def)
  then show ?thesis by blast
next
  case False
  then have "history_push i (history_adjust_after_insert i s) = s\<lparr>insert_history := insert_history (history_adjust_after_insert i s), history_pos := history_pos s\<rparr>"
    by (simp add: history_push_def history_adjust_after_insert_def)
  then show ?thesis by blast
qed

lemma insert_char_eq:
  assumes "unat (in_cursor s) \<le> unat (in_e s)" "unat (in_e s) < 128"
  shows "\<exists>h p b. insert_char c s = Inr (s\<lparr>insert_history := h, history_pos := p, ibuf := b, in_e := in_e s + 1, in_cursor := in_cursor s + 1\<rparr>)
    \<and> (\<forall>i. b i = (if i = unat (in_cursor s) then c else if unat (in_cursor s) < i \<and> i \<le> unat (in_e s) then ibuf s (i - 1) else ibuf s i))"
proof -
  let ?c = "unat (in_cursor s)" and ?e = "unat (in_e s)"
  obtain h p where h: "history_push (in_cursor s) (history_adjust_after_insert (in_cursor s) s) = s\<lparr>insert_history := h, history_pos := p\<rparr>"
    using history_keeps by blast
  let ?s = "s\<lparr>insert_history := h, history_pos := p\<rparr>"
  have u: "unat (in_cursor s + 1) = ?c + 1" "unat (in_e s - in_cursor s) = ?e - ?c" using assms by (simp_all add: unat_suc_small unat_minus_le)
  define b where "b = (\<lambda>j. if ?c + 1 \<le> j \<and> j < ?c + 1 + (?e - ?c) then ibuf s (?c + (j - (?c + 1))) else ibuf s j)"
  have m: "ibuf_move (in_cursor s + 1) (in_cursor s) (in_e s - in_cursor s) ?s = Inr (?s\<lparr>ibuf := b\<rparr>)"
    using assms ibuf_move_eq [of "in_cursor s + 1" "in_e s - in_cursor s" "in_cursor s" ?s] unfolding b_def u by (simp cong: if_cong)
  have "?s = ?s\<lparr>ibuf := b\<rparr>" if "\<not> in_cursor s < in_e s"
  proof -
    have "?e \<le> ?c" using that by (simp add: word_less_nat_alt)
    then have "b = ibuf s" unfolding b_def by (intro ext) auto
    then show ?thesis by simp
  qed
  then have m: "(if in_cursor ?s < in_e ?s then ibuf_move (in_cursor ?s + 1) (in_cursor ?s) (in_e ?s - in_cursor ?s) ?s else Inr ?s) = Inr (?s\<lparr>ibuf := b\<rparr>)"
    using m by (cases "in_cursor s < in_e s") simp_all
  have "insert_char c s = Inr (?s\<lparr>ibuf := b(?c := c), in_e := in_e s + 1, in_cursor := in_cursor s + 1\<rparr>)"
    unfolding insert_char_def h Let_def m bindR_simps using assms by (simp add: ibuf_set_def INPUT_BUF_def)
  moreover have "\<forall>i. (b(?c := c)) i = (if i = ?c then c else if ?c < i \<and> i \<le> ?e then ibuf s (i - 1) else ibuf s i)"
    using assms(1) by (auto simp: b_def intro!: arg_cong [of _ _ "ibuf s"])
  ultimately show ?thesis by blast
qed

lemma map_insert:
  assumes "w \<le> c" "c \<le> (e :: nat)" and b: "\<forall>i. b i = (if i = c then x else if c < i \<and> i \<le> e then f (i - 1) else f i)"
  shows "map b [w..<e + 1] = take (c - w) (map f [w..<e]) @ [x] @ drop (c - w) (map f [w..<e])"
  using assms(1,2) by (intro nth_equalityI) (auto simp: b nth_append nth_Cons split: nat.splits intro!: arg_cong [of _ _ f])

lemma key_char_edits:
  assumes w: "line_wf s" "line_shown s" and e: "unat (in_e s) < 128" and l: "line_of s = (l, k)" and c: "c \<noteq> 13"
  shows "\<exists>t. key_char c s = Inr t \<and> edits s t (take k l @ [ucast c] @ drop k l, k + 1)"
proof -
  let ?w = "unat (in_w s)" and ?c = "unat (in_cursor s)" and ?e = "unat (in_e s)"
  have o: "unat (in_r s) \<le> ?w" "?w \<le> ?c" "?c \<le> ?e" using w(1) by (simp_all add: line_wf_def)
  have lk: "l = map (ibuf s) [?w..<?e]" "k = ?c - ?w" using l by (auto simp: line_of_def)
  define p0 where "p0 = (if in_e s = in_w s then get_cursor_pos s else start_pos s)"
  let ?s = "s\<lparr>start_pos := p0\<rparr>"
  have p0: "0 \<le> p0" "p0 < 1872" using w(2) by (auto simp: p0_def line_shown_def)
  have s0: "(if in_e s = in_w s then s\<lparr>start_pos := get_cursor_pos s\<rparr> else s) = ?s" by (simp add: p0_def)
  obtain h p b where i: "insert_char (ucast c) ?s = Inr (?s\<lparr>insert_history := h, history_pos := p, ibuf := b, in_e := in_e ?s + 1, in_cursor := in_cursor ?s + 1\<rparr>)"
    and b: "\<forall>i. b i = (if i = ?c then ucast c else if ?c < i \<and> i \<le> ?e then ibuf s (i - 1) else ibuf s i)"
    using insert_char_eq [of ?s "ucast c"] o e by auto
  let ?t = "?s\<lparr>insert_history := h, history_pos := p, ibuf := b, in_e := in_e ?s + 1, in_cursor := in_cursor ?s + 1\<rparr>"
  have t: "line_wf ?t" using w(1) e by (simp add: line_wf_def unat_suc_small)
  have "line_of ?t = (take k l @ [ucast c] @ drop k l, k + 1)"
    using o e map_insert [OF o(2,3) b] by (simp add: line_of_def unat_suc_small lk)
  moreover obtain t where "redraw_line ?t = Inr t" "edits ?t t (line_of ?t)" using redraw_edits [OF t] p0 by auto
  moreover have "in_e s - in_r s < of_nat INPUT_BUF"
    using o e by (simp add: word_less_nat_alt INPUT_BUF_def unat_minus_le)
  then have "key_char c s = redraw_line ?t" using c unfolding key_char_def Let_def s0 i by simp
  ultimately show ?thesis by (auto intro: edits_from)
qed

lemma map_delete:
  assumes "w < c" "c \<le> (e :: nat)" and b: "\<forall>i. b i = (if c - 1 \<le> i \<and> i < e - 1 then f (i + 1) else f i)"
  shows "map b [w..<e - 1] = take (c - w - 1) (map f [w..<e]) @ drop (c - w) (map f [w..<e])"
  using assms(1,2) by (intro nth_equalityI) (auto simp: b nth_append intro!: arg_cong [of _ _ f])

lemma key_backspace_edits:
  assumes w: "line_wf s" "line_shown s" and l: "line_of s = (l, k)"
  shows "\<exists>t. key_backspace s = Inr t \<and> edits s t (take (k - 1) l @ drop k l, k - 1)"
proof (cases "in_w s < in_cursor s")
  case True
  let ?w = "unat (in_w s)" and ?c = "unat (in_cursor s)" and ?e = "unat (in_e s)"
  have o: "unat (in_r s) \<le> ?w" "?w < ?c" "?c \<le> ?e" "?e \<le> 128" using w(1) True by (simp_all add: line_wf_def word_less_nat_alt)
  have lk: "l = map (ibuf s) [?w..<?e]" "k = ?c - ?w" using l by (auto simp: line_of_def)
  have u: "unat (in_cursor s - 1) = ?c - 1" "unat (in_e s - in_cursor s) = ?e - ?c" "unat (in_e s - 1) = ?e - 1"
    using o by (simp_all add: unat_pred unat_minus_le)
  let ?s = "history_adjust_after_delete (in_cursor s - 1) s"
  define b where "b = (\<lambda>j. if ?c - 1 \<le> j \<and> j < ?c - 1 + (?e - ?c) then ibuf s (?c + (j - (?c - 1))) else ibuf s j)"
  obtain h where h: "?s = s\<lparr>insert_history := h\<rparr>" by (simp add: history_adjust_after_delete_def)
  have m: "ibuf_move (in_cursor s - 1) (in_cursor s) (in_e s - in_cursor s) ?s = Inr (s\<lparr>insert_history := h, ibuf := b\<rparr>)"
    using o ibuf_move_eq [of "in_cursor s - 1" "in_e s - in_cursor s" "in_cursor s" ?s] unfolding b_def u h by (simp cong: if_cong)
  have b: "\<forall>i. b i = (if ?c - 1 \<le> i \<and> i < ?e - 1 then ibuf s (i + 1) else ibuf s i)"
    using o unfolding b_def by (auto intro!: arg_cong [of _ _ "ibuf s"])
  let ?t = "s\<lparr>insert_history := h, ibuf := b, in_e := in_e s - 1, in_cursor := in_cursor s - 1\<rparr>"
  have t: "line_wf ?t" using w(1) o by (auto simp: line_wf_def u)
  have "line_of ?t = (take (k - 1) l @ drop k l, k - 1)" using o map_delete [OF o(2,3) b] by (simp add: line_of_def u lk)
  moreover have "in_w s \<noteq> in_e s" using o by auto
  then have "0 \<le> start_pos ?t" "start_pos ?t < 1872" using w(2) by (simp_all add: line_shown_def)
  then obtain t where "redraw_line ?t = Inr t" "edits ?t t (line_of ?t)" using redraw_edits [OF t] by auto
  moreover have "key_backspace s = redraw_line ?t" using True unfolding key_backspace_def m by simp
  ultimately show ?thesis by (auto intro: edits_from)
next
  case False
  then have "k = 0" using l w(1) by (auto simp: line_of_def line_wf_def word_less_nat_alt)
  then show ?thesis using False w l by (simp add: key_backspace_def edits_def)
qed

text \<open>The cursor moves within the line.\<close>

definition go_to :: "u32 \<Rightarrow> con \<Rightarrow> con" where
  "go_to p s = set_cursor_pos (start_pos s + uint (p - in_w s)) (s\<lparr>in_cursor := p\<rparr>)"

lemma go_to_edits:
  assumes w: "line_wf s" "line_shown s" "line_of s = (l, k)" and p: "unat (in_w s) \<le> unat p" "unat p \<le> unat (in_e s)"
  shows "edits s (go_to p s) (l, unat p - unat (in_w s))"
proof -
  have o: "unat p \<le> 128" "0 \<le> start_pos s" "start_pos s < 1872" using w p by (auto simp: line_wf_def line_shown_def)
  have u: "uint (p - in_w s) = int (unat p - unat (in_w s))" unfolding unat_minus_le [OF p(1), symmetric] by simp
  have "(start_pos s + uint (p - in_w s)) mod 2 ^ 16 = start_pos s + int (unat p - unat (in_w s))" unfolding u
    by (rule mod_pos_pos_trivial) (use o p in \<open>simp_all del: of_nat_diff\<close>)
  then have g: "go_to p s = s\<lparr>in_cursor := p, scr := (scr s)\<lparr>crt_pos := start_pos s + int (unat p - unat (in_w s))\<rparr>\<rparr>"
    by (simp add: go_to_def set_cursor_pos_def del: of_nat_diff)
  have "unat p - unat (in_w s) = 0" if "in_w s = in_e s" using p that by simp
  then show ?thesis unfolding g edits_def line_shown_def get_cursor_pos_def using w p o
    by (simp add: line_wf_def line_of_def del: of_nat_diff)
qed

lemma stays: "line_wf s \<Longrightarrow> line_shown s \<Longrightarrow> line_of s = l \<Longrightarrow> edits s s l"
  by (simp add: edits_def)

lemma shown_at:
  assumes "line_wf s" "line_shown s" "in_w s \<noteq> in_e s"
  shows "get_cursor_pos s = start_pos s + uint (in_cursor s - in_w s)"
proof -
  have w: "unat (in_w s) \<le> unat (in_cursor s)" using assms(1) by (simp add: line_wf_def)
  show ?thesis using assms(2,3) unfolding line_shown_def unat_minus_le [OF w, symmetric] by simp
qed

lemma uint_minus_le: "unat b \<le> unat a \<Longrightarrow> uint (a - b :: u32) = uint a - uint b"
  using uint_minus_simple_alt [of b a] by (simp add: word_le_nat_alt)

lemma uint_unat_suc: "unat a < 2000 \<Longrightarrow> uint (a + 1 :: u32) = uint a + 1"
  using arg_cong [OF unat_suc_small [of a], of int] by simp

lemma key_left_edits:
  assumes w: "line_wf s" "line_shown s" "line_of s = (l, k)"
  shows "\<exists>t. key_left s = Inr t \<and> edits s t (l, k - 1)"
proof (cases "in_w s < in_cursor s")
  case True
  have o: "unat (in_w s) < unat (in_cursor s)" "unat (in_cursor s) \<le> unat (in_e s)" using w(1) True by (simp_all add: line_wf_def word_less_nat_alt)
  then have n: "in_w s \<noteq> in_e s" by auto
  have u: "unat (in_cursor s - 1) = unat (in_cursor s) - 1" using o by (simp add: unat_pred)
  have i: "uint (in_cursor s - 1 - in_w s) = uint (in_cursor s - in_w s) - 1"
    using o uint_minus_le [of "in_w s" "in_cursor s - 1"] uint_minus_le [of "in_w s" "in_cursor s"] uint_minus_le [of 1 "in_cursor s"] unfolding u by simp
  have "key_left s = Inr (go_to (in_cursor s - 1) s)"
    using True shown_at [OF w(1,2) n] by (simp add: key_left_def go_to_def i add_diff_eq)
  moreover have "edits s (go_to (in_cursor s - 1) s) (l, k - 1)"
    using go_to_edits [OF w, of "in_cursor s - 1"] o n w(3) by (auto simp: u line_of_def)
  ultimately show ?thesis by blast
next
  case False
  then have "k = 0" using w by (auto simp: line_of_def line_wf_def word_less_nat_alt)
  then show ?thesis using False w by (simp add: key_left_def stays)
qed

lemma key_right_edits:
  assumes w: "line_wf s" "line_shown s" "line_of s = (l, k)"
  shows "\<exists>t. key_right s = Inr t \<and> edits s t (l, min (k + 1) (length l))"
proof (cases "in_cursor s < in_e s")
  case True
  have o: "unat (in_w s) \<le> unat (in_cursor s)" "unat (in_cursor s) < unat (in_e s)" "unat (in_e s) \<le> 128" using w(1) True by (simp_all add: line_wf_def word_less_nat_alt)
  then have n: "in_w s \<noteq> in_e s" by auto
  have u: "unat (in_cursor s + 1) = unat (in_cursor s) + 1" using o by (simp add: unat_suc_small)
  have i: "uint (in_cursor s + 1 - in_w s) = uint (in_cursor s - in_w s) + 1"
    using o uint_minus_le [of "in_w s" "in_cursor s + 1"] uint_minus_le [of "in_w s" "in_cursor s"] uint_unat_suc [of "in_cursor s"] unfolding u by simp
  have "key_right s = Inr (go_to (in_cursor s + 1) s)"
    using True shown_at [OF w(1,2) n] by (simp add: key_right_def go_to_def i add.assoc)
  moreover have "min (k + 1) (length l) = unat (in_cursor s + 1) - unat (in_w s)" using w(3) o by (auto simp: u line_of_def)
  then have "edits s (go_to (in_cursor s + 1) s) (l, min (k + 1) (length l))"
    using go_to_edits [OF w, of "in_cursor s + 1"] o n by (simp add: u)
  ultimately show ?thesis by blast
next
  case False
  then have "min (k + 1) (length l) = k" using w by (auto simp: line_of_def line_wf_def word_less_nat_alt)
  then show ?thesis using False w by (simp add: key_right_def stays)
qed

lemma key_kill_edits:
  assumes w: "line_wf s" "line_shown s"
  shows "\<exists>t. key_kill_line s = Inr t \<and> edits s t ([], 0)"
proof -
  let ?n = "unat (in_e s) - unat (in_w s)"
  have o: "\<not> panicked s" "unat (in_w s) \<le> unat (in_cursor s)" "unat (in_cursor s) \<le> unat (in_e s)" "unat (in_e s) \<le> 128" using w(1) by (simp_all add: line_wf_def)
  have p: "0 \<le> get_cursor_pos s" "get_cursor_pos s - int ?n < 1872" "get_cursor_pos s < 2000"
    using w(2) o unfolding line_shown_def by (auto simp del: of_nat_diff split: if_splits)
  have "\<exists>x. foldR (\<lambda>_ t. consputc BACKSPACE (t\<lparr>in_e := in_e t - 1\<rparr>)) [0..<m] s = Inr (s\<lparr>scr := x, in_e := in_e s - of_nat m\<rparr>)
      \<and> 0 \<le> crt_pos x \<and> crt_pos x < 2000 \<and> crt_pos x \<le> max 0 (get_cursor_pos s - int m)" for m
  proof (induction m)
    case 0
    have "s = s\<lparr>scr := scr s, in_e := in_e s - of_nat 0\<rparr>" by simp
    then show ?case using p by (intro exI [of _ "scr s"]) (simp add: get_cursor_pos_def)
  next
    case (Suc m)
    then obtain x where x: "foldR (\<lambda>_ t. consputc BACKSPACE (t\<lparr>in_e := in_e t - 1\<rparr>)) [0..<m] s = Inr (s\<lparr>scr := x, in_e := in_e s - of_nat m\<rparr>)"
      "0 \<le> crt_pos x" "crt_pos x < 2000" "crt_pos x \<le> max 0 (get_cursor_pos s - int m)" by blast
    let ?s = "s\<lparr>in_e := in_e s - of_nat m - 1, scr := x\<rparr>"
    have "on_screen ?s" "get_cursor_pos ?s = crt_pos x" using x o(1) by (simp_all add: on_screen_def get_cursor_pos_def)
    then obtain t where t: "consputc BACKSPACE ?s = Inr t" "same_line ?s t" "on_screen t" "get_cursor_pos t \<le> max 0 (crt_pos x - 1)"
      using consputc_ok [of ?s BACKSPACE] by auto
    have e: "?s = s\<lparr>scr := x, in_e := in_e s - of_nat m - 1\<rparr>" "in_e s - of_nat m - 1 = in_e s - of_nat (Suc m)" by simp_all
    obtain y where "t = ?s\<lparr>scr := y\<rparr>" using t(2) by (auto simp: same_line_def)
    then have y: "t = s\<lparr>scr := y, in_e := in_e s - of_nat (Suc m)\<rparr>" unfolding e by simp
    then have "0 \<le> crt_pos y" "crt_pos y < 2000" "crt_pos y \<le> max 0 (get_cursor_pos s - int (Suc m))"
      using t(3,4) x(4) by (auto simp: on_screen_def get_cursor_pos_def)
    then show ?case using x(1) t(1) [unfolded e(1)] y by (intro exI [of _ y]) simp
  qed
  then obtain x where x: "foldR (\<lambda>_ t. consputc BACKSPACE (t\<lparr>in_e := in_e t - 1\<rparr>)) [0..<?n] s = Inr (s\<lparr>scr := x, in_e := in_e s - of_nat ?n\<rparr>)"
    "0 \<le> crt_pos x" "crt_pos x \<le> max 0 (get_cursor_pos s - int ?n)" by blast
  have u: "unat (in_e s - in_w s) = ?n" using o by (simp add: unat_minus_le)
  have "of_nat ?n = in_e s - in_w s" unfolding u [symmetric] by simp
  then have "key_kill_line s = Inr (s\<lparr>scr := x, in_e := in_w s, in_cursor := in_w s\<rparr>)" unfolding key_kill_line_def u x(1) by simp
  moreover have "edits s (s\<lparr>scr := x, in_e := in_w s, in_cursor := in_w s\<rparr>) ([], 0)"
    using w x(2,3) p o by (auto simp: edits_def line_wf_def line_shown_def line_of_def get_cursor_pos_def simp del: of_nat_diff)
  ultimately show ?thesis by blast
qed

lemma scan_up_eq:
  "unat i \<le> unat (in_e s) \<Longrightarrow> unat (in_e s) \<le> 128 \<Longrightarrow> unat (scan_up P s i) = unat i + length (takeWhile P (map (ibuf s) [unat i..<unat (in_e s)]))"
proof (induction P s i rule: scan_up.induct)
  case (1 P s i)
  show ?case
  proof (cases "i < in_e s \<and> P (ibuf s (unat i mod INPUT_BUF))")
    case True
    then have l: "unat i < unat (in_e s)" by (simp add: word_less_nat_alt)
    have u: "unat (i + 1) = Suc (unat i)" using l "1.prems" by (simp add: unat_suc_small)
    have "unat (scan_up P s i) = unat (scan_up P s (i + 1))" using True by (subst scan_up.simps) simp
    also have "\<dots> = Suc (unat i) + length (takeWhile P (map (ibuf s) [Suc (unat i)..<unat (in_e s)]))"
      using "1.IH" [OF True] "1.prems" l unfolding u by simp
    finally show ?thesis using True l "1.prems" by (simp add: upt_conv_Cons INPUT_BUF_def)
  next
    case False
    then have "takeWhile P (map (ibuf s) [unat i..<unat (in_e s)]) = []"
      using "1.prems" by (cases "unat i < unat (in_e s)") (auto simp: upt_conv_Cons INPUT_BUF_def word_less_nat_alt)
    then show ?thesis using False by (subst scan_up.simps) auto
  qed
qed

lemma scan_down_eq:
  "unat (in_w s) \<le> unat i \<Longrightarrow> unat i \<le> 128 \<Longrightarrow> unat (scan_down P s i) = unat i - length (takeWhile P (rev (map (ibuf s) [unat (in_w s)..<unat i])))"
proof (induction P s i rule: scan_down.induct)
  case (1 P s i)
  show ?case
  proof (cases "in_w s < i \<and> P (ibuf s (unat (i - 1) mod INPUT_BUF))")
    case True
    then have l: "unat (in_w s) < unat i" by (simp add: word_less_nat_alt)
    have u: "unat (i - 1) = unat i - 1" using l by (simp add: unat_pred)
    obtain j where j: "unat i = Suc j" using l by (cases "unat i") auto
    have "unat (scan_down P s i) = unat (scan_down P s (i - 1))" using True by (subst scan_down.simps) simp
    also have "\<dots> = j - length (takeWhile P (rev (map (ibuf s) [unat (in_w s)..<j])))"
      using "1.IH" [OF True] "1.prems" l unfolding u j by simp
    finally show ?thesis using True l "1.prems" u by (simp add: j INPUT_BUF_def)
  next
    case False
    have "takeWhile P (rev (map (ibuf s) [unat (in_w s)..<unat i])) = []"
    proof (cases "unat (in_w s) < unat i")
      case True
      then obtain j where j: "unat i = Suc j" by (cases "unat i") auto
      have "unat (i - 1) = j" using j by (simp add: unat_pred)
      then show ?thesis using True False "1.prems" by (simp add: j INPUT_BUF_def word_less_nat_alt)
    qed simp
    then show ?thesis using False by (subst scan_down.simps) auto
  qed
qed

lemma take_upt_map: "map f [w..<e] = l \<Longrightarrow> w + n \<le> e \<Longrightarrow> map f [w..<w + n] = take n l"
  by (auto simp: take_map)

lemma drop_upt_map: "map f [w..<e] = l \<Longrightarrow> map f [w + n..<e] = drop n l"
  by (auto simp: drop_map add.commute)

text \<open>The scans are the ones of the text.\<close>

lemma scan_up_line:
  assumes "line_wf s" "line_of s = (l, k)" "unat i = unat (in_w s) + n" "n \<le> length l"
  shows "unat (scan_up P s i) = unat (in_w s) + (n + length (takeWhile P (drop n l))) \<and> n + length (takeWhile P (drop n l)) \<le> length l"
proof -
  have l: "map (ibuf s) [unat (in_w s)..<unat (in_e s)] = l" "length l = unat (in_e s) - unat (in_w s)" using assms(2) by (auto simp: line_of_def)
  have o: "unat (in_e s) \<le> 128" "unat i \<le> unat (in_e s)" using assms l by (auto simp: line_wf_def)
  have "length (takeWhile P (drop n l)) \<le> length l - n" using length_takeWhile_le [of P "drop n l"] by simp
  then show ?thesis using scan_up_eq [OF o(2,1), of P] assms(3,4) drop_upt_map [OF l(1), of n] by simp
qed

lemma scan_down_line:
  assumes "line_wf s" "line_of s = (l, k)" "unat i = unat (in_w s) + n" "n \<le> length l"
  shows "unat (scan_down P s i) = unat (in_w s) + (n - length (takeWhile P (rev (take n l))))"
proof -
  have l: "map (ibuf s) [unat (in_w s)..<unat (in_e s)] = l" "length l = unat (in_e s) - unat (in_w s)" using assms(2) by (auto simp: line_of_def)
  have o: "unat i \<le> 128" "unat (in_w s) \<le> unat i" "unat (in_w s) + n \<le> unat (in_e s)" using assms l by (auto simp: line_wf_def)
  have "length (takeWhile P (rev (take n l))) \<le> n" using length_takeWhile_le [of P "rev (take n l)"] by simp
  then show ?thesis using scan_down_eq [OF o(2,1), of P] assms(3) take_upt_map [OF l(1) o(3)] by simp
qed

lemma line_index:
  assumes "line_wf s" "line_of s = (l, k)"
  shows "unat (in_cursor s) = unat (in_w s) + k" "k \<le> length l" "length l = unat (in_e s) - unat (in_w s)" "unat (in_w s) + length l = unat (in_e s)"
  using assms by (auto simp: line_wf_def line_of_def)

lemma key_next_word_edits:
  assumes w: "line_wf s" "line_shown s" "line_of s = (l, k)"
  shows "\<exists>t. key_next_word s = Inr t \<and> edits s t (l, next_word l k)"
proof -
  note ix = line_index [OF w(1,3)] and up = scan_up_line [OF w(1,3)]
  define k1 where "k1 = k + length (takeWhile (\<lambda>c. c = 32) (drop k l))"
  define k2 where "k2 = k1 + length (takeWhile (\<lambda>c. c \<noteq> 32) (drop k1 l))"
  define k3 where "k3 = k2 + length (takeWhile (\<lambda>c. c = 32) (drop k2 l))"
  let ?p1 = "scan_up (\<lambda>c. c = 32) s (in_cursor s)" let ?p2 = "scan_up (\<lambda>c. c \<noteq> 32) s ?p1" let ?p3 = "scan_up (\<lambda>c. c = 32) s ?p2"
  have 1: "unat ?p1 = unat (in_w s) + k1 \<and> k1 \<le> length l" unfolding k1_def by (rule up [OF ix(1,2)])
  have 2: "unat ?p2 = unat (in_w s) + k2 \<and> k2 \<le> length l" unfolding k2_def by (rule up) (simp_all add: 1)
  have 3: "unat ?p3 = unat (in_w s) + k3 \<and> k3 \<le> length l" unfolding k3_def by (rule up) (simp_all add: 2)
  have n: "next_word l k = (if k3 < length l then k3 else k)" by (simp add: next_word_def Let_def k1_def k2_def k3_def)
  show ?thesis
  proof (cases "k3 < length l")
    case True
    then have "?p3 < in_e s" using 3 ix by (simp add: word_less_nat_alt)
    then have "key_next_word s = Inr (go_to ?p3 s)" by (simp add: key_next_word_def go_to_def Let_def)
    moreover have "edits s (go_to ?p3 s) (l, k3)" using go_to_edits [OF w, of ?p3] 3 ix by simp
    ultimately show ?thesis using True n by auto
  next
    case False
    then have "\<not> ?p3 < in_e s" using 3 ix by (simp add: word_less_nat_alt)
    then show ?thesis using False n stays [OF w] by (simp add: key_next_word_def Let_def)
  qed
qed

lemma key_prev_word_edits:
  assumes w: "line_wf s" "line_shown s" "line_of s = (l, k)"
  shows "\<exists>t. key_prev_word s = Inr t \<and> edits s t (l, prev_word l k)"
proof -
  note ix = line_index [OF w(1,3)] and down = scan_down_line [OF w(1,3)]
  let ?i = "in_cursor s"
  define k1 where "k1 = k - length (takeWhile (\<lambda>c. c = 32) (rev (take k l)))"
  define k2 where "k2 = k1 - length (takeWhile (\<lambda>c. c \<noteq> 32) (rev (take k1 l)))"
  define p1 where "p1 = scan_down (\<lambda>c. c = 32) s ?i"
  have 1: "unat p1 = unat (in_w s) + k1" unfolding k1_def p1_def by (rule down [OF ix(1,2)])
  have i1: "(if (?i = in_w s \<or> ibuf s (unat (?i - 1) mod INPUT_BUF) = 32) \<and> in_w s < ?i then scan_down (\<lambda>c. c = 32) s (?i - 1) else ?i) = p1"
    unfolding p1_def by (subst (2) scan_down.simps) auto
  have 2: "unat (scan_down (\<lambda>c. c \<noteq> 32) s p1) = unat (in_w s) + k2" unfolding k2_def using ix(2) by (intro down) (auto simp: 1 k1_def)
  have n: "prev_word l k = k2" "k2 \<le> length l" using ix(2) by (simp_all add: prev_word_def Let_def k1_def k2_def)
  have g: "key_prev_word s = Inr (go_to (scan_down (\<lambda>c. c \<noteq> 32) s p1) s)" unfolding key_prev_word_def Let_def i1 go_to_def ..
  then show ?thesis using go_to_edits [OF w, of "scan_down (\<lambda>c. c \<noteq> 32) s p1"] 2 n ix by simp
qed

lemma tab_reset_line [simp]:
  "line_wf (tab_reset s) = line_wf s" "line_shown (tab_reset s) = line_shown s" "line_of (tab_reset s) = line_of s" "edits (tab_reset s) t l = edits s t l"
  "in_e (tab_reset s) = in_e s"
  by (simp_all add: tab_reset_def line_wf_def line_shown_def line_of_def edits_def get_cursor_pos_def)

lemma done_key: "\<exists>t. m = Inr t \<and> P t \<Longrightarrow> \<exists>d t. bindR m (\<lambda>s. Inr (False, s)) = Inr (d, t) \<and> P t"
  by auto

lemmas key_edits = key_kill_edits key_backspace_edits key_left_edits key_right_edits key_next_word_edits key_prev_word_edits key_char_edits

lemmas key_codes = Ctl_def KEY_LF_def KEY_RT_def

lemma console_key_edits:
  assumes w: "line_wf s" "line_shown s" and e: "unat (in_e s) < 128" and c: "editing_key c"
  shows "\<exists>d t. console_key c s = Inr (d, t) \<and> edits s t (edit_key c (line_of s))"
proof -
  obtain l k where l: "line_of s = (l, k)" by (cases "line_of s")
  have s: "select_mode s \<noteq> 2" using w(1) by (simp add: line_wf_def)
  have n: "c \<noteq> 9" "c \<noteq> 10" "c \<noteq> Ctl 83" "c \<noteq> Ctl 86" "c \<noteq> Ctl 90" using c by (simp_all add: editing_key_def)
  have t: "line_wf (tab_reset s)" "line_shown (tab_reset s)" "line_of (tab_reset s) = (l, k)" using w l by simp_all
  consider (stay) "c = 0 \<or> c = Ctl 80" | (kill) "c = Ctl 85" | (bs) "c = Ctl 72 \<or> c = 0x7f" | (lf) "c = KEY_LF" | (rt) "c = KEY_RT"
    | (nw) "c = Ctl 68" | (pw) "c = Ctl 65" | (cr) "c = 13"
    | (ch) "c \<notin> {0, 13, 0x7f, Ctl 80, Ctl 85, Ctl 72, KEY_LF, KEY_RT, Ctl 68, Ctl 65}" by blast
  then show ?thesis
  proof cases
    case stay
    have "edits s s (l, k)" "edits s (tab_reset s) (l, k)" using stays [OF w l] stays [OF t] by (simp_all add: edits_def tab_reset_def)
    then show ?thesis using stay s unfolding console_key_def by (auto simp: l key_codes)
  next
    case kill
    then show ?thesis using s done_key [OF key_kill_edits [OF t(1,2)]] unfolding console_key_def by (simp add: l key_codes)
  next
    case bs
    then show ?thesis using s done_key [OF key_backspace_edits [OF t]] unfolding console_key_def by (auto simp: l key_codes)
  next
    case lf
    then show ?thesis using s done_key [OF key_left_edits [OF t]] unfolding console_key_def by (simp add: l key_codes)
  next
    case rt
    then show ?thesis using s done_key [OF key_right_edits [OF t]] unfolding console_key_def by (simp add: l key_codes)
  next
    case nw
    then show ?thesis using s done_key [OF key_next_word_edits [OF t]] unfolding console_key_def by (simp add: l key_codes)
  next
    case pw
    then show ?thesis using s done_key [OF key_prev_word_edits [OF t]] unfolding console_key_def by (simp add: l key_codes)
  next
    case cr
    then show ?thesis using s done_key [of "key_char c s", OF exI [of _ s]] stays [OF w l] unfolding console_key_def by (simp add: l key_codes key_char_def)
  next
    case ch
    then show ?thesis using s n done_key [OF key_char_edits [OF w e l, of c]] unfolding console_key_def by (simp add: l)
  qed
qed

lemma edit_key_text:
  "fst (edit_key c z) \<in> {[], take (snd z - 1) (fst z) @ drop (snd z) (fst z), fst z} \<or>
   c \<noteq> Ctl 68 \<and> fst (edit_key c z) = take (snd z) (fst z) @ [ucast c] @ drop (snd z) (fst z)"
  by (cases z) simp

lemma edit_key_length: "length (fst (edit_key c z)) \<le> length (fst z) + 1"
  using edit_key_text [of c z] by (elim disjE insertE conjE) (simp_all, linarith?)

lemma edited_length: "length (fst (fold edit_key ks z)) \<le> length (fst z) + length ks"
proof (induction ks arbitrary: z)
  case (Cons c ks)
  show ?case using Cons.IH [of "edit_key c z"] edit_key_length [of c z] by (simp del: edit_key.simps)
qed simp

lemma edits_trans: "edits s t l \<Longrightarrow> edits t u l' \<Longrightarrow> edits s u l'"
  by (simp add: edits_def)

lemma console_keys_edits:
  assumes "line_wf s" "line_shown s" "unat (in_e s) + length ks \<le> 128" "\<forall>c\<in>set ks. editing_key c"
  shows "\<exists>d t. console_keys ks s = Inr (d, t) \<and> edits s t (fold edit_key ks (line_of s))"
  using assms
proof (induction ks arbitrary: s)
  case Nil
  then show ?case by (intro exI [of _ False] exI [of _ s]) (simp add: stays)
next
  case (Cons c ks)
  obtain d t where t: "console_key c s = Inr (d, t)" "edits s t (edit_key c (line_of s))"
    using console_key_edits [of s c] Cons.prems by auto
  have w: "line_wf t" "line_shown t" "line_of t = edit_key c (line_of s)" "in_w t = in_w s" using t(2) by (simp_all add: edits_def)
  have "unat (in_e t) \<le> unat (in_e s) + 1"
    using edit_key_length [of c "line_of s"] w Cons.prems(1) unfolding w(3) [symmetric] by (auto simp: line_of_def line_wf_def w(4))
  then obtain d' u where "console_keys ks t = Inr (d', u)" "edits t u (fold edit_key ks (line_of t))" using Cons.IH [OF w(1,2)] Cons.prems by auto
  then show ?case using t w(3) edits_trans [OF t(2)] by simp
qed

lemma key_enter_edits:
  assumes w: "line_wf s" "line_shown s" and e: "unat (in_e s) < 128" and l: "line_of s = (l, k)"
  shows "\<exists>t. key_enter s = Inr t \<and> in_r t = in_r s \<and> in_w t = in_e s + 1 \<and> in_e t = in_w t \<and> in_cursor t = in_w t \<and> cons_lock t = cons_lock s \<and>
    wakeups t = wakeups s + 1 \<and> map (ibuf t) [unat (in_w s)..<unat (in_w t)] = l @ [10]"
proof -
  let ?s = "(ibuf_set (in_e s) 10 s)\<lparr>in_e := in_e s + 1\<rparr>"
  have "on_screen ?s" using w e unfolding on_screen_def line_wf_def line_shown_def
    by (auto simp: ibuf_set_def get_cursor_pos_def simp del: of_nat_diff split: if_splits)
  then obtain t where t: "consputc 10 ?s = Inr t" "same_line ?s t" using consputc_ok by blast
  then obtain x where x: "consputc 10 ?s = Inr (?s\<lparr>scr := x\<rparr>)" by (auto simp: same_line_def)
  have "map ((ibuf s)(unat (in_e s) := 10)) [unat (in_w s)..<Suc (unat (in_e s))] = l @ [10]" using w(1) l by (auto simp: line_wf_def line_of_def)
  then show ?thesis using e unfolding key_enter_def x by (simp add: ibuf_set_def INPUT_BUF_def unat_suc_small)
qed

lemma edit_key_clean: "editing_key c \<Longrightarrow> 10 \<notin> set (fst z) \<and> 4 \<notin> set (fst z) \<Longrightarrow> 10 \<notin> set (fst (edit_key c z)) \<and> 4 \<notin> set (fst (edit_key c z))"
proof -
  assume c: "editing_key c" and z: "10 \<notin> set (fst z) \<and> 4 \<notin> set (fst z)"
  have u: "unat c < 256" using c by (simp add: editing_key_def word_less_nat_alt)
  have "c = x" if "(ucast c :: u8) = ucast x" "unat x < 256" for x
  proof -
    have "unat (ucast c :: u8) = unat (ucast x :: u8)" using that by simp
    then show ?thesis using u that(2) by (simp add: unsigned_ucast_eq take_bit_nat_eq_self word_unat_eq_iff)
  qed
  from this [of 10] this [of 4] have "(ucast c :: u8) \<noteq> 10" "c \<noteq> Ctl 68 \<Longrightarrow> (ucast c :: u8) \<noteq> 4"
    using c by (auto simp: editing_key_def Ctl_def)
  then show ?thesis using z edit_key_text [of c z] by (elim disjE insertE conjE) (auto dest: in_set_takeD in_set_dropD)
qed

lemma edited_clean: "\<forall>c\<in>set ks. editing_key c \<Longrightarrow> 10 \<notin> set (fst z) \<and> 4 \<notin> set (fst z) \<Longrightarrow>
    10 \<notin> set (fst (fold edit_key ks z)) \<and> 4 \<notin> set (fst (fold edit_key ks z))"
  by (induction ks arbitrary: z) (auto simp: edit_key_clean simp del: edit_key.simps)

lemma consoleread_loop_line:
  assumes "map (ibuf s) [unat (in_r s)..<unat (in_w s)] = bs @ [10]" "10 \<notin> set bs" "4 \<notin> set bs" "unat (in_w s) \<le> 128" "length bs < n" "cons_lock s"
  shows "consoleread_loop killed T n s = Inr ((int T - int n + int (length bs) + 1, bs @ [10]), s\<lparr>in_r := in_w s, cons_lock := False\<rparr>)"
  using assms
proof (induction bs arbitrary: n s)
  case Nil
  obtain m where m: "n = Suc m" using Nil.prems by (cases n) auto
  have l: "unat (in_w s) = Suc (unat (in_r s))" using arg_cong [OF Nil.prems(1), of length] by simp
  then have r: "ibuf s (unat (in_r s) mod INPUT_BUF) = 10" "in_r s + 1 = in_w s" "in_r s \<noteq> in_w s"
    using Nil.prems by (auto simp: INPUT_BUF_def word_unat_eq_iff unat_suc_small)
  show ?case using Nil.prems(6) by (simp add: m r cons_release_def lock_drop_def)
next
  case (Cons b bs)
  obtain m where m: "n = Suc m" using Cons.prems by (cases n) auto
  have l: "unat (in_r s) < unat (in_w s)" using arg_cong [OF Cons.prems(1), of length] by simp
  then have u: "unat (in_r s + 1) = Suc (unat (in_r s))" using Cons.prems by (simp add: unat_suc_small)
  have r: "ibuf s (unat (in_r s) mod INPUT_BUF) = b" "in_r s \<noteq> in_w s" "b \<noteq> 10" "b \<noteq> 4"
    "map (ibuf s) [Suc (unat (in_r s))..<unat (in_w s)] = bs @ [10]"
    using Cons.prems l by (auto simp: INPUT_BUF_def upt_conv_Cons)
  show ?case using Cons.IH [of "s\<lparr>in_r := in_r s + 1\<rparr>" m] Cons.prems by (simp add: m r u)
qed

definition fresh_line :: "con \<Rightarrow> bool" where
  "fresh_line s \<longleftrightarrow> \<not> cons_lock s \<and> \<not> panicked s \<and> select_mode s = 0 \<and> in_r s = in_w s \<and> in_cursor s = in_w s \<and> in_e s = in_w s \<and>
     0 \<le> start_pos s \<and> start_pos s < 1872 \<and> 0 \<le> get_cursor_pos s \<and> get_cursor_pos s < 1872"

lemma console_keys_append:
  "console_keys xs s = Inr (d, t) \<Longrightarrow> console_keys ys t = Inr (d', u) \<Longrightarrow> console_keys (xs @ ys) s = Inr (d \<or> d', u)"
  by (induction xs arbitrary: s d) (auto simp: bindR_eq_Inr split: prod.splits)



text \<open>
  C40: Two ways in which the line editor leaves its buffer. When a selection is made to the end of the line, the selected part ends one
  past the line, and deleting it moves a wrapped number of bytes. And once 128 characters have been typed since the console was opened,
  a character typed inside the line moves the rest of it at indices that are not reduced by the size of the buffer.
\<close>

theorem console_overruns:
  assumes s: "select_mode s = 2" "select_end s = in_e s + 1" "select_start s \<noteq> in_e s + 1"
    and t: "select_mode t \<noteq> 2" "128 \<le> unat (in_cursor t)" "in_cursor t < in_e t" "in_e t - in_r t < of_nat INPUT_BUF" "32 \<le> c" "c < 127"
  shows "console_key (Ctl 72) s = Inl OutOfBounds \<and> console_key c t = Inl OutOfBounds"
proof (rule conjI)
  have "ibuf_move (select_start s) (in_e s + 1) (- 1) (s\<lparr>select_mode := 0\<rparr>) = Inl OutOfBounds"
    by (simp add: ibuf_move_def INPUT_BUF_def unsigned_minus_1_eq_mask mask_eq_exp_minus_1)
  then show "console_key (Ctl 72) s = Inl OutOfBounds" using s by (simp add: console_key_def key_selected_def key_replace_def key_codes)
next
  have n: "in_e t - in_cursor t \<noteq> 0" "0 < unat (in_e t - in_cursor t)" using t(3) by (auto simp: unat_gt_0)
  have m: "ibuf_move (in_cursor t + 1) (in_cursor t) (in_e t - in_cursor t) u = Inl OutOfBounds" for u
    using n t(2) by (simp add: ibuf_move_def INPUT_BUF_def)
  have i: "insert_char x u = Inl OutOfBounds" if "in_cursor u = in_cursor t" "in_e u = in_e t" for x u
  proof -
    obtain h p where h: "history_push (in_cursor u) (history_adjust_after_insert (in_cursor u) u) = u\<lparr>insert_history := h, history_pos := p\<rparr>"
      using history_keeps by blast
    show ?thesis unfolding insert_char_def Let_def h using that t(3) m by simp
  qed
  have "c \<noteq> x" if "x < 32 \<or> 127 \<le> x" for x using t(5,6) that by (auto dest: le_less_trans less_le_trans)
  then have c: "c \<noteq> 0" "c \<noteq> 1" "c \<noteq> 4" "c \<noteq> 8" "c \<noteq> 9" "c \<noteq> 10" "c \<noteq> 13" "c \<noteq> 16" "c \<noteq> 19" "c \<noteq> 21" "c \<noteq> 22" "c \<noteq> 26" "c \<noteq> 127" "c \<noteq> 0xE4" "c \<noteq> 0xE5"
    by simp_all
  have "key_char c t = Inl OutOfBounds" using c t(4) i [of t] i [of "t\<lparr>start_pos := get_cursor_pos t\<rparr>"] by (simp add: key_char_def)
  then show "console_key c t = Inl OutOfBounds" using t(1) c by (simp add: console_key_def key_codes)
qed

theorem console_overruns_witness:
  "(\<exists>s. console_keys [97, Ctl 83, KEY_LF, Ctl 83] con0 = Inr (False, s) \<and> console_key (Ctl 72) s = Inl OutOfBounds) \<and>
   console_key 97 (con0\<lparr>in_r := 200, in_w := 200, in_cursor := 200, in_e := 201\<rparr>) = Inl OutOfBounds"
proof -
  let ?t = "con0\<lparr>in_r := 200, in_w := 200, in_cursor := 200, in_e := 201\<rparr>"
  have t: "select_mode ?t \<noteq> 2" "128 \<le> unat (in_cursor ?t)" "in_cursor ?t < in_e ?t" "in_e ?t - in_r ?t < of_nat INPUT_BUF" "(32 :: u32) \<le> 97" "(97 :: u32) < 127"
    by (simp_all add: con0_def consoleinit_def INPUT_BUF_def)
  have "\<exists>s. console_keys [97, Ctl 83, KEY_LF, Ctl 83] con0 = Inr (False, s) \<and> select_mode s = 2 \<and> select_end s = in_e s + 1 \<and> select_start s \<noteq> in_e s + 1"
    by (simp add: key_codes console_key_def con0_def consoleinit_def key_char_def insert_char_def ibuf_set_def history_push_def history_adjust_after_insert_def
      redraw_line_def redraw_char_def consputc_def cgaputc_def uartputc_def set_cursor_pos_def get_cursor_pos_def key_select_def key_left_def tab_reset_def
      INPUT_BUF_def HISTORY_SIZE_def BACKSPACE_def of_char_def)
  then show ?thesis using console_overruns [OF _ _ _ t] by blast
qed

end
