(* ===== verification/Spec2Isabelle.thy ===== *)
theory Spec2Isabelle
  imports SchedInv ProcInv Locks Descriptors Console
begin

text \<open>
  \<^bold>\<open>A verification library for the extended xv6 kernel under \<open>src/xv6-public\<close>\<close>

  The program is a small multiprocessor Unix kernel for the x86, with a scheduler for two
  kinds of cores, further locks and system calls, and the user programs that come with it.

  \<^item> \<open>Prelude\<close>: machine types, results of code that may panic, lists threaded through a
    next field, loops over static tables.
  \<^item> \<open>ProcState\<close> (\<open>proc.h\<close>, \<open>x86.h\<close>, \<open>param.h\<close>): processes, CPUs, channels, the kernel state.
  \<^item> \<open>RunQueue\<close> (\<open>proc.c\<close>): run queues as pointer lists, their contract as a locale and its
    interpretation, the core selectors, \<open>load_balance\<close>.
  \<^item> \<open>Spinlock\<close> (\<open>spinlock.c\<close>): lock operations, interrupt nesting, contention of CPUs.
  \<^item> \<open>Sched\<close>, \<open>SchedInv\<close> (\<open>proc.c\<close>, \<open>vm.c\<close>): the scheduler, \<open>sleep\<close>, \<open>wakeup\<close>, \<open>kill\<close>; the
    effect of each on the scheduling view of the state, the invariant, and the policies.
  \<^item> \<open>Proc\<close>, \<open>ProcInv\<close> (\<open>proc.c\<close>): allocation of processes, \<open>fork\<close>, \<open>exit\<close>, \<open>wait\<close> and the
    queries; the invariant of the process table over all reachable states.
  \<^item> \<open>MemLayout\<close> (\<open>memlayout.h\<close>, \<open>mmu.h\<close>), \<open>CString\<close> (\<open>string.c\<close>), \<open>Kalloc\<close> (\<open>kalloc.c\<close>): address arithmetic,
    byte routines on a byte-addressed memory, and the list of free pages kept inside the pages.
  \<^item> \<open>Vm\<close>, \<open>VmUser\<close> (\<open>vm.c\<close>): page tables in the same memory; mapping, unmapping, the kernel part,
    growing, copying and freeing of address spaces.
  \<^item> \<open>Locks\<close> (\<open>sleeplock.c\<close>, \<open>rwlock.c\<close>, \<open>spinlock.c\<close>): locks held across a sleep, as an interface with two
    implementations, and the priority lock.
  \<^item> \<open>Bio\<close> (\<open>bio.c\<close>, \<open>ide.c\<close>, \<open>memide.c\<close>): the buffer cache over the disk drivers, its invariant and the view
    of the blocks a reader has.
\<close>

end
